(* ===== verification/R42_Prelude.thy ===== *)
theory R42_Prelude
  imports Main "HOL-Library.Sublist" "HOL-Library.List_Lexorder" "HOL-Library.Char_ord" "HOL-Library.AList"
begin

text \<open>
  Shared vocabulary of the development: the Go standard-library functions on strings the
  sources call (\<open>strings.TrimSpace\<close>, \<open>strconv.Atoi\<close>, the \<open>%d\<close> and \<open>%03d\<close> verbs), 64-bit
  wrap-around of Go's \<open>int\<close>, texts built by \<open>fmt.Sprintf\<close> and \<open>fmt.Errorf\<close>, Go maps built
  by a loop, and the theorem collections the component theories add to.

  A Go string is a byte sequence and is modelled by \<^typ>\<open>string\<close>, whose characters are
  bytes. Everything here is executable.
\<close>

named_theorems guard_simps \<open>unfolding rules of guards and small accessors\<close>
named_theorems inv_intros \<open>preservation of component invariants\<close>

section \<open>Texts and errors\<close>

text \<open>
  A text is either a string of the data (\<open>Text\<close>) or the result of a formatting call, kept
  as its format string and its arguments (\<open>Format\<close>). Go errors made by \<open>errors.New\<close> and
  \<open>fmt.Errorf\<close> are texts too: a wrapped error (\<open>%w\<close>) and an error printed with \<open>%s\<close> are a
  \<open>TextArg\<close>. Keeping the call instead of its rendering loses nothing and needs no model of
  the quoting verb \<open>%q\<close>.
\<close>

datatype message = Text string | Format string "fmt_arg list"
and fmt_arg = IntArg int | StrArg string | TextArg message

type_synonym error = message

section \<open>White space: strings.TrimSpace\<close>

text \<open>
  The UTF-8 encodings of the runes \<open>unicode.IsSpace\<close> accepts: the ASCII blanks, U+0085,
  U+00A0, U+1680, U+2000 to U+200A, U+2028, U+2029, U+202F, U+205F and U+3000.
\<close>

definition space_runes :: "string list" where
  "space_runes =
     [[CHR 0x09], [CHR 0x0A], [CHR 0x0B], [CHR 0x0C], [CHR 0x0D], [CHR 0x20],
      [CHR 0xC2, CHR 0x85], [CHR 0xC2, CHR 0xA0], [CHR 0xE1, CHR 0x9A, CHR 0x80],
      [CHR 0xE2, CHR 0x80, CHR 0x80], [CHR 0xE2, CHR 0x80, CHR 0x81],
      [CHR 0xE2, CHR 0x80, CHR 0x82], [CHR 0xE2, CHR 0x80, CHR 0x83],
      [CHR 0xE2, CHR 0x80, CHR 0x84], [CHR 0xE2, CHR 0x80, CHR 0x85],
      [CHR 0xE2, CHR 0x80, CHR 0x86], [CHR 0xE2, CHR 0x80, CHR 0x87],
      [CHR 0xE2, CHR 0x80, CHR 0x88], [CHR 0xE2, CHR 0x80, CHR 0x89],
      [CHR 0xE2, CHR 0x80, CHR 0x8A], [CHR 0xE2, CHR 0x80, CHR 0xA8],
      [CHR 0xE2, CHR 0x80, CHR 0xA9], [CHR 0xE2, CHR 0x80, CHR 0xAF],
      [CHR 0xE2, CHR 0x81, CHR 0x9F], [CHR 0xE3, CHR 0x80, CHR 0x80]]"

definition starts_with_any :: "string list \<Rightarrow> string \<Rightarrow> string option" where
  "starts_with_any ws s = find (\<lambda>w. w \<noteq> [] \<and> prefix w s) ws"

lemma starts_with_any_SomeD:
  "starts_with_any ws s = Some w \<Longrightarrow> w \<in> set ws \<and> w \<noteq> [] \<and> prefix w s"
  by (auto simp: starts_with_any_def find_Some_iff)

lemma starts_with_any_None:
  "starts_with_any ws s = None \<longleftrightarrow> (\<forall>w \<in> set ws. w = [] \<or> \<not> prefix w s)"
  by (auto simp: starts_with_any_def find_None_iff)

function trim_front :: "string list \<Rightarrow> string \<Rightarrow> string" where
  "trim_front ws s =
     (case starts_with_any ws s of None \<Rightarrow> s | Some w \<Rightarrow> trim_front ws (drop (length w) s))"
  by pat_completeness auto
termination
  by (relation "measure (\<lambda>(ws, s). length s)")
     (auto dest!: starts_with_any_SomeD simp: prefix_def)

declare trim_front.simps [simp del]

definition trim_left :: "string \<Rightarrow> string" where
  "trim_left = trim_front space_runes"

definition trim_right :: "string \<Rightarrow> string" where
  "trim_right s = rev (trim_front (map rev space_runes) (rev s))"

definition trim_space :: "string \<Rightarrow> string" where
  "trim_space s = trim_right (trim_left s)"

definition blank :: "string \<Rightarrow> bool" where
  "blank s \<longleftrightarrow> trim_space s = []"

text \<open>
  A formatted text is blank only if its format is: every format string of the sources has
  literal non-blank characters of its own.
\<close>

fun text_blank :: "message \<Rightarrow> bool" where
  "text_blank (Text s) = blank s"
| "text_blank (Format f _) = blank f"

lemma trim_front_stop: "starts_with_any ws (trim_front ws s) = None"
proof (induction ws s rule: trim_front.induct)
  case (1 ws s)
  then show ?case
    by (cases "starts_with_any ws s") (simp_all add: trim_front.simps [of ws s])
qed

lemma trim_front_idle: "starts_with_any ws s = None \<Longrightarrow> trim_front ws s = s"
  by (subst trim_front.simps) simp

lemma trim_front_suffix: "suffix (trim_front ws s) s"
proof (induction ws s rule: trim_front.induct)
  case (1 ws s)
  then show ?case
    by (cases "starts_with_any ws s")
       (auto simp: trim_front.simps [of ws s] intro: suffix_order.trans suffix_drop)
qed

lemma trim_left_suffix: "suffix (trim_left s) s"
  by (simp add: trim_left_def trim_front_suffix)

lemma trim_right_prefix: "prefix (trim_right s) s"
  by (metis trim_right_def trim_front_suffix suffix_to_prefix rev_rev_ident)

lemma starts_with_any_antimono:
  "starts_with_any ws s = None \<Longrightarrow> prefix t s \<Longrightarrow> starts_with_any ws t = None"
  by (auto simp: starts_with_any_None intro: prefix_order.trans)

lemma trim_right_idem: "trim_right (trim_right s) = trim_right s"
  by (simp add: trim_right_def trim_front_idle trim_front_stop)

lemma trim_left_of_trim_space: "trim_left (trim_space s) = trim_space s"
proof -
  have "starts_with_any space_runes (trim_left s) = None"
    by (simp add: trim_left_def trim_front_stop)
  then have "starts_with_any space_runes (trim_space s) = None"
    by (rule starts_with_any_antimono) (simp add: trim_space_def trim_right_prefix)
  then show ?thesis
    by (simp add: trim_left_def trim_front_idle)
qed

lemma trim_space_idem [simp]: "trim_space (trim_space s) = trim_space s"
proof -
  have "trim_space (trim_space s) = trim_right (trim_space s)"
    by (simp add: trim_space_def [of "trim_space s"] trim_left_of_trim_space)
  also have "\<dots> = trim_space s"
    by (simp add: trim_space_def trim_right_idem)
  finally show ?thesis .
qed

text \<open>A string whose first and last bytes begin and end no white-space rune is left alone.\<close>

definition space_heads :: "char list" where
  "space_heads =
     [CHR 0x09, CHR 0x0A, CHR 0x0B, CHR 0x0C, CHR 0x0D, CHR 0x20, CHR 0xC2, CHR 0xE1, CHR 0xE2,
      CHR 0xE3]"

definition space_lasts :: "char list" where
  "space_lasts =
     [CHR 0x09, CHR 0x0A, CHR 0x0B, CHR 0x0C, CHR 0x0D, CHR 0x20, CHR 0x80, CHR 0x81, CHR 0x82,
      CHR 0x83, CHR 0x84, CHR 0x85, CHR 0x86, CHR 0x87, CHR 0x88, CHR 0x89, CHR 0x8A, CHR 0x9F,
      CHR 0xA0, CHR 0xA8, CHR 0xA9, CHR 0xAF]"

lemma space_runes_heads: "\<forall>w \<in> set space_runes. w \<noteq> [] \<and> hd w \<in> set space_heads"
  by (simp add: space_runes_def space_heads_def)

lemma space_runes_lasts: "\<forall>w \<in> set (map rev space_runes). w \<noteq> [] \<and> hd w \<in> set space_lasts"
  by (simp add: space_runes_def space_lasts_def)

lemma trim_front_head:
  assumes "\<forall>w \<in> set ws. w \<noteq> [] \<and> hd w \<in> set cs" and "s = [] \<or> hd s \<notin> set cs"
  shows "trim_front ws s = s"
proof (rule trim_front_idle)
  show "starts_with_any ws s = None"
    using assms unfolding starts_with_any_None
    by (metis hd_append2 prefix_bot.extremum_uniqueI prefixE)
qed

lemma trim_space_solid:
  assumes "s \<noteq> []" and "hd s \<notin> set space_heads" and "last s \<notin> set space_lasts"
  shows "trim_space s = s"
proof -
  have "trim_left s = s"
    unfolding trim_left_def using space_runes_heads assms(2) by (blast intro: trim_front_head)
  moreover have "trim_right s = s"
    unfolding trim_right_def
    using trim_front_head [OF space_runes_lasts, of "rev s"] assms by (simp add: hd_rev)
  ultimately show ?thesis by (simp add: trim_space_def)
qed

lemma trim_space_Nil [simp]: "trim_space [] = []"
proof -
  have "trim_left [] = []"
    unfolding trim_left_def using space_runes_heads by (blast intro: trim_front_head)
  moreover have "trim_right [] = []"
    unfolding trim_right_def using trim_front_head [OF space_runes_lasts, of "[]"] by simp
  ultimately show ?thesis by (simp add: trim_space_def)
qed

lemma blank_Nil [simp]: "blank []"
  by (simp add: blank_def)

lemma blank_trim [simp]: "blank (trim_space s) = blank s"
  by (simp add: blank_def)

text \<open>A letter or digit at both ends is the usual case of the literals in the sources.\<close>

lemma not_blank_solid:
  "s \<noteq> [] \<Longrightarrow> hd s \<notin> set space_heads \<Longrightarrow> last s \<notin> set space_lasts \<Longrightarrow> \<not> blank s"
  by (simp add: blank_def trim_space_solid)

lemma trim_front_all:
  "trim_front ws s = [] \<Longrightarrow> s \<noteq> [] \<Longrightarrow> \<exists>w \<in> set ws. w \<noteq> [] \<and> suffix w s"
proof (induction ws s rule: trim_front.induct)
  case (1 ws s)
  then obtain w where w: "starts_with_any ws s = Some w"
    by (cases "starts_with_any ws s") (simp_all add: trim_front.simps [of ws s])
  note found = starts_with_any_SomeD [OF w]
  show ?case
  proof (cases "drop (length w) s = []")
    case True
    with found show ?thesis by (auto simp: prefix_def)
  next
    case False
    with 1 w have "\<exists>v \<in> set ws. v \<noteq> [] \<and> suffix v (drop (length w) s)"
      by (simp add: trim_front.simps [of ws s])
    then show ?thesis by (meson suffix_order.trans suffix_drop)
  qed
qed

text \<open>One solid byte in front is enough: trimming the right end cannot reach it.\<close>

lemma not_blank_head:
  assumes "s \<noteq> []" and "hd s \<notin> set space_heads"
  shows "\<not> blank s"
proof
  assume "blank s"
  moreover have "trim_left s = s"
    unfolding trim_left_def using space_runes_heads assms(2) by (blast intro: trim_front_head)
  ultimately have "trim_front (map rev space_runes) (rev s) = []"
    by (simp add: blank_def trim_space_def trim_right_def)
  then obtain w where "w \<in> set space_runes" "suffix (rev w) (rev s)"
    using trim_front_all [of _ "rev s"] assms(1) by fastforce
  moreover then have "prefix w s" by (simp add: suffix_to_prefix)
  ultimately show False using space_runes_heads assms(2) by (auto simp: prefix_def)
qed

section \<open>Decimal numbers: strconv.Atoi, the verbs %d and %03d\<close>

definition digit_char :: "nat \<Rightarrow> char" where
  "digit_char d = char_of (48 + d)"

definition digit_value :: "char \<Rightarrow> nat option" where
  "digit_value c =
     (let n = of_char c :: nat in if 48 \<le> n \<and> n \<le> 57 then Some (n - 48) else None)"

fun show_nat :: "nat \<Rightarrow> string" where
  "show_nat n =
     (if n < 10 then [digit_char n] else show_nat (n div 10) @ [digit_char (n mod 10)])"

declare show_nat.simps [simp del]

definition pad_zeros :: "nat \<Rightarrow> string \<Rightarrow> string" where
  "pad_zeros w s = replicate (w - length s) CHR ''0'' @ s"

definition show_int :: "int \<Rightarrow> string" where
  "show_int n = (if n < 0 then ''-'' @ show_nat (nat (- n)) else show_nat (nat n))"

text \<open>\<open>%03d\<close>: the sign counts towards the width.\<close>

definition show_int03 :: "int \<Rightarrow> string" where
  "show_int03 n = (if n < 0 then ''-'' @ pad_zeros 2 (show_nat (nat (- n)))
                   else pad_zeros 3 (show_nat (nat n)))"

fun parse_digits :: "nat \<Rightarrow> string \<Rightarrow> nat option" where
  "parse_digits acc [] = Some acc"
| "parse_digits acc (c # cs) =
     (case digit_value c of None \<Rightarrow> None | Some d \<Rightarrow> parse_digits (10 * acc + d) cs)"

definition max_int :: int where
  "max_int = 9223372036854775807"

definition min_int :: int where
  "min_int = - 9223372036854775808"

text \<open>\<open>strconv.Atoi\<close>: an optional sign, at least one digit, a value in the range of \<open>int\<close>.\<close>

definition atoi_unsigned :: "string \<Rightarrow> int option" where
  "atoi_unsigned s = (if s = [] then None else map_option int (parse_digits 0 s))"

definition atoi :: "string \<Rightarrow> int option" where
  "atoi s =
     (let v = (case s of
                 [] \<Rightarrow> None
               | c # cs \<Rightarrow>
                   (if c = CHR ''-'' then map_option uminus (atoi_unsigned cs)
                    else if c = CHR ''+'' then atoi_unsigned cs
                    else atoi_unsigned (c # cs)))
      in case v of None \<Rightarrow> None
                 | Some n \<Rightarrow> (if min_int \<le> n \<and> n \<le> max_int then Some n else None))"

text \<open>Go's \<open>int\<close> is 64 bits wide on every supported platform; \<open>++\<close> wraps around.\<close>

definition wrap_int :: "int \<Rightarrow> int" where
  "wrap_int n = (n + 9223372036854775808) mod 18446744073709551616 - 9223372036854775808"

lemma wrap_int_idle: "min_int \<le> n \<Longrightarrow> n \<le> max_int \<Longrightarrow> wrap_int n = n"
  by (simp add: wrap_int_def min_int_def max_int_def)

lemma wrap_int_range: "min_int \<le> wrap_int n \<and> wrap_int n \<le> max_int"
proof -
  have "0 \<le> (n + 9223372036854775808) mod 18446744073709551616"
    "(n + 9223372036854775808) mod 18446744073709551616 < 18446744073709551616"
    by simp_all
  then show ?thesis by (simp add: wrap_int_def min_int_def max_int_def)
qed

lemma digit_char_numerals [simp]:
  "digit_char 0 = CHR ''0''" "digit_char (Suc 0) = CHR ''1''" "digit_char 1 = CHR ''1''"
  "digit_char 2 = CHR ''2''" "digit_char 3 = CHR ''3''" "digit_char 4 = CHR ''4''"
  "digit_char 5 = CHR ''5''" "digit_char 6 = CHR ''6''" "digit_char 7 = CHR ''7''"
  "digit_char 8 = CHR ''8''" "digit_char 9 = CHR ''9''"
  by (simp_all add: digit_char_def char_of_eq_iff)

lemma digit_value_digit_char [simp]: "d < 10 \<Longrightarrow> digit_value (digit_char d) = Some d"
  by (simp add: digit_value_def digit_char_def)

lemma parse_digits_append:
  "parse_digits a (s @ t) =
     (case parse_digits a s of None \<Rightarrow> None | Some b \<Rightarrow> parse_digits b t)"
  by (induction a s rule: parse_digits.induct) (auto split: option.splits)

lemma parse_digits_show_nat: "parse_digits 0 (show_nat n) = Some n"
proof (induction n rule: show_nat.induct)
  case (1 n)
  show ?case
  proof (cases "n < 10")
    case True
    then show ?thesis by (simp add: show_nat.simps [of n])
  next
    case False
    with 1 have "parse_digits 0 (show_nat (n div 10)) = Some (n div 10)" by simp
    with False show ?thesis by (simp add: show_nat.simps [of n] parse_digits_append)
  qed
qed

lemma digit_value_0 [simp]: "digit_value CHR ''0'' = Some 0"
  using digit_value_digit_char [of 0] by simp

lemma parse_digits_zeros: "parse_digits 0 (replicate k CHR ''0'' @ s) = parse_digits 0 s"
  by (induction k) simp_all

lemma show_nat_not_Nil [simp]: "show_nat n \<noteq> []"
  by (subst show_nat.simps) simp

lemma digit_chars_show_nat: "c \<in> set (show_nat n) \<Longrightarrow> \<exists>d < 10. c = digit_char d"
proof (induction n rule: show_nat.induct)
  case (1 n)
  have "\<exists>d < 10. digit_char (n mod 10) = digit_char d"
    by (rule exI [of _ "n mod 10"]) simp
  with 1 show ?case
    by (cases "n < 10") (auto simp: show_nat.simps [of n])
qed

lemma digit_chars_pad_zeros:
  "c \<in> set (pad_zeros w (show_nat n)) \<Longrightarrow> \<exists>d < 10. c = digit_char d"
proof -
  have "\<exists>d < 10. CHR ''0'' = digit_char d"
    by (rule exI [of _ 0]) simp
  then show "c \<in> set (pad_zeros w (show_nat n)) \<Longrightarrow> \<exists>d < 10. c = digit_char d"
    by (auto simp: pad_zeros_def dest: digit_chars_show_nat split: if_splits)
qed

lemma pad_zeros_not_Nil [simp]: "pad_zeros w (show_nat n) \<noteq> []"
  by (simp add: pad_zeros_def)

lemma digit_char_eq_iff: "d < 10 \<Longrightarrow> digit_char d = c \<longleftrightarrow> of_char c = 48 + d"
  by (auto simp: digit_char_def char_of_eq_iff take_bit_eq_mod)

lemma digit_char_solid:
  "d < 10 \<Longrightarrow> digit_char d \<notin> set space_heads \<and> digit_char d \<notin> set space_lasts \<and>
     digit_char d \<noteq> CHR ''-'' \<and> digit_char d \<noteq> CHR ''+''"
  by (auto simp: space_heads_def space_lasts_def digit_char_eq_iff)

lemma atoi_pad_zeros:
  assumes "int n \<le> max_int"
  shows "atoi (pad_zeros w (show_nat n)) = Some (int n)"
proof -
  obtain c cs where s: "pad_zeros w (show_nat n) = c # cs"
    by (cases "pad_zeros w (show_nat n)") auto
  have "c \<in> set (pad_zeros w (show_nat n))" by (simp add: s)
  then have sign: "c \<noteq> CHR ''-''" "c \<noteq> CHR ''+''"
    by (auto dest!: digit_chars_pad_zeros simp: digit_char_solid)
  have "parse_digits 0 (c # cs) = Some n"
    by (simp add: s [symmetric] pad_zeros_def parse_digits_zeros parse_digits_show_nat del: parse_digits.simps)
  then have "atoi_unsigned (c # cs) = Some (int n)"
    by (simp add: atoi_unsigned_def del: parse_digits.simps)
  with sign assms show ?thesis
    by (simp add: s atoi_def min_int_def)
qed

lemma atoi_show_int03: "0 \<le> n \<Longrightarrow> n \<le> max_int \<Longrightarrow> atoi (show_int03 n) = Some n"
  by (simp add: show_int03_def atoi_pad_zeros)

lemma show_int03_inj:
  "0 \<le> m \<Longrightarrow> m \<le> max_int \<Longrightarrow> 0 \<le> n \<Longrightarrow> n \<le> max_int \<Longrightarrow>
     show_int03 m = show_int03 n \<Longrightarrow> m = n"
  by (metis atoi_show_int03 option.inject)

lemma atoi_range: "atoi s = Some n \<Longrightarrow> min_int \<le> n \<and> n \<le> max_int"
  by (auto simp: atoi_def Let_def split: option.splits if_splits)

section \<open>Joining strings\<close>

text \<open>\<open>strings.Join\<close>.\<close>

fun strings_join :: "string \<Rightarrow> string list \<Rightarrow> string" where
  "strings_join sep [] = []"
| "strings_join sep [x] = x"
| "strings_join sep (x # xs) = x @ sep @ strings_join sep xs"

section \<open>Maps and sets built by a loop\<close>

text \<open>
  \<open>for _, x := range xs { m[key(x)] = x }\<close>: later elements win.
\<close>

definition index_by :: "('a \<Rightarrow> 'k) \<Rightarrow> 'a list \<Rightarrow> 'k \<Rightarrow> 'a option" where
  "index_by key xs = fold (\<lambda>x m. m(key x \<mapsto> x)) xs Map.empty"

lemma index_by_snoc: "index_by key (xs @ [x]) = (index_by key xs)(key x \<mapsto> x)"
  by (simp add: index_by_def)

lemma index_by_Nil [simp]: "index_by key [] = Map.empty"
  by (simp add: index_by_def)

lemma index_by_SomeD: "index_by key xs k = Some x \<Longrightarrow> x \<in> set xs \<and> key x = k"
  by (induction xs rule: rev_induct) (auto simp: index_by_snoc split: if_splits)

lemma dom_index_by: "dom (index_by key xs) = key ` set xs"
  by (induction xs rule: rev_induct) (simp_all add: index_by_snoc del: fun_upd_apply)

lemma index_by_None: "index_by key xs k = None \<longleftrightarrow> k \<notin> key ` set xs"
  using dom_index_by [of key xs] by auto

lemma index_by_distinct:
  "distinct (map key xs) \<Longrightarrow> x \<in> set xs \<Longrightarrow> index_by key xs (key x) = Some x"
  by (induction xs rule: rev_induct) (auto simp: index_by_snoc intro: rev_image_eqI)

lemma distinct_iff_card_set: "card (set xs) = length xs \<longleftrightarrow> distinct xs"
  using card_distinct distinct_card by blast

section \<open>Association lists\<close>

text \<open>
  A Go map whose length or listing the code uses is an association list with distinct keys,
  updated by the library's \<open>AList.update\<close> and \<open>AList.delete\<close>.
\<close>

definition keys :: "('k \<times> 'v) list \<Rightarrow> 'k list" where
  "keys al = map fst al"

lemma set_keys: "set (keys al) = dom (map_of al)"
  by (simp add: keys_def dom_map_of_conv_image_fst)

lemma distinct_keys_update [inv_intros]:
  "distinct (keys al) \<Longrightarrow> distinct (keys (AList.update k v al))"
  by (simp add: keys_def distinct_update)

lemma distinct_keys_delete [inv_intros]:
  "distinct (keys al) \<Longrightarrow> distinct (keys (AList.delete k al))"
  by (simp add: keys_def distinct_delete)

lemma set_keys_update [simp]: "set (keys (AList.update k v al)) = insert k (set (keys al))"
  by (simp add: keys_def dom_update)

lemma set_keys_delete [simp]: "set (keys (AList.delete k al)) = set (keys al) - {k}"
  by (auto simp: keys_def delete_keys)

section \<open>Results\<close>

text \<open>\<open>Inl\<close> is the error of a fallible operation, \<open>Inr\<close> its value.\<close>

definition is_ok :: "'e + 'a \<Rightarrow> bool" where
  "is_ok r = (case r of Inl _ \<Rightarrow> False | Inr _ \<Rightarrow> True)"

lemma is_ok_simps [simp]: "is_ok (Inr x)" "\<not> is_ok (Inl e)"
  by (simp_all add: is_ok_def)

lemma is_ok_iff: "is_ok r \<longleftrightarrow> (\<exists>x. r = Inr x)"
  by (cases r) auto

text \<open>A loop over a list that stops at the first error.\<close>

fun all_ok :: "('a \<Rightarrow> error + 'b) \<Rightarrow> 'a list \<Rightarrow> error + 'b list" where
  "all_ok f [] = Inr []"
| "all_ok f (x # xs) =
     (case f x of
        Inl e \<Rightarrow> Inl e
      | Inr y \<Rightarrow> (case all_ok f xs of Inl e \<Rightarrow> Inl e | Inr ys \<Rightarrow> Inr (y # ys)))"

lemma all_ok_cong [fundef_cong]:
  "xs = ys \<Longrightarrow> (\<And>x. x \<in> set ys \<Longrightarrow> f x = g x) \<Longrightarrow> all_ok f xs = all_ok g ys"
  by (induction ys arbitrary: xs) (auto split: sum.splits)

lemma all_ok_Inr: "all_ok f xs = Inr ys \<longleftrightarrow> list_all2 (\<lambda>x y. f x = Inr y) xs ys"
proof (induction xs arbitrary: ys)
  case (Cons x xs)
  note IH = Cons.IH [symmetric]
  show ?case by (cases "f x"; cases "all_ok f xs"; cases ys) (simp_all add: IH)
qed auto

lemma all_ok_each:
  assumes "all_ok f xs = Inr ys"
  shows "x \<in> set xs \<Longrightarrow> \<exists>y. f x = Inr y" and "y \<in> set ys \<Longrightarrow> \<exists>x \<in> set xs. f x = Inr y"
  using assms unfolding all_ok_Inr by (induction rule: list_all2_induct) auto

lemma all_ok_Inl: "all_ok f xs = Inl e \<Longrightarrow> \<exists>x \<in> set xs. f x = Inl e"
  by (induction xs) (auto split: sum.splits)

lemma all_ok_total: "(\<And>x. x \<in> set xs \<Longrightarrow> is_ok (f x)) \<Longrightarrow> is_ok (all_ok f xs)"
proof (induction xs)
  case (Cons x xs)
  then have "is_ok (f x)" "is_ok (all_ok f xs)" by auto
  then show ?case by (auto simp: is_ok_iff)
qed simp

section \<open>Reachable states\<close>

text \<open>
  A component with mutating operations is a labelled transition system: its initial states
  and one step per accepted operation.
\<close>

inductive reach :: "('s \<Rightarrow> bool) \<Rightarrow> ('s \<Rightarrow> 'l \<Rightarrow> 's \<Rightarrow> bool) \<Rightarrow> 's \<Rightarrow> bool"
  for init :: "'s \<Rightarrow> bool" and step :: "'s \<Rightarrow> 'l \<Rightarrow> 's \<Rightarrow> bool" where
  reach_init: "init s \<Longrightarrow> reach init step s"
| reach_step: "reach init step s \<Longrightarrow> step s l t \<Longrightarrow> reach init step t"

text \<open>
  The contract of an inductive invariant; each component interprets it on its own steps.
\<close>

locale invariant_system =
  fixes init :: "'s \<Rightarrow> bool"
    and step :: "'s \<Rightarrow> 'l \<Rightarrow> 's \<Rightarrow> bool"
    and inv :: "'s \<Rightarrow> bool"
  assumes inv_init: "init s \<Longrightarrow> inv s"
    and inv_step: "inv s \<Longrightarrow> step s l t \<Longrightarrow> inv t"
begin

lemma reach_inv: "reach init step s \<Longrightarrow> inv s"
  by (induction rule: reach.induct) (auto intro: inv_init inv_step)

fun steps :: "'s \<Rightarrow> 'l list \<Rightarrow> 's \<Rightarrow> bool" where
  "steps s [] t = (s = t)"
| "steps s (l # ls) t = (\<exists>u. step s l u \<and> steps u ls t)"

lemma steps_inv: "inv s \<Longrightarrow> steps s ls t \<Longrightarrow> inv t"
  by (induction ls arbitrary: s) (auto intro: inv_step)

end

end
