(* ===== verification/R42_Paths.thy ===== *)
theory R42_Paths
  imports R42_Prelude
begin

text \<open>
  The functions of Go's \<^verbatim>\<open>path/filepath\<close> the sources use, on Unix (separator \<open>/\<close>, no volume
  names): \<open>Clean\<close>, \<open>IsAbs\<close>, \<open>Join\<close> of two elements, \<open>Abs\<close> for a known working directory,
  \<open>Dir\<close> and \<open>Rel\<close>; and \<open>pathWithin\<close>, the containment test the collection and artifact packages
  build from \<open>Rel\<close>. The lemmas turn the textual test into one on path elements.
\<close>

section \<open>Splitting and joining\<close>

text \<open>\<open>strings.Split(s, sep)\<close> for a one-byte separator: always at least one element.\<close>

fun split_on :: "char \<Rightarrow> string \<Rightarrow> string list" where
  "split_on c [] = [[]]"
| "split_on c (x # xs) =
     (if x = c then [] # split_on c xs
      else (case split_on c xs of [] \<Rightarrow> [[x]] | w # ws \<Rightarrow> (x # w) # ws))"

text \<open>\<open>strings.Join(ws, sep)\<close>.\<close>

fun join_with :: "char \<Rightarrow> string list \<Rightarrow> string" where
  "join_with c [] = []"
| "join_with c [w] = w"
| "join_with c (w # ws) = w @ [c] @ join_with c ws"

lemma split_on_not_Nil [simp]: "split_on c s \<noteq> []"
  by (cases s) (auto split: list.splits)

lemma split_on_sep_free: "w \<in> set (split_on c s) \<Longrightarrow> c \<notin> set w"
  by (induction s arbitrary: w) (auto split: if_splits list.splits)

lemma split_on_append:
  "c \<notin> set w \<Longrightarrow> split_on c (w @ c # s) = w # split_on c s"
  by (induction w) auto

lemma split_on_free: "c \<notin> set w \<Longrightarrow> split_on c w = [w]"
  by (induction w) auto

lemma split_join:
  "ws \<noteq> [] \<Longrightarrow> \<forall>w \<in> set ws. c \<notin> set w \<Longrightarrow> split_on c (join_with c ws) = ws"
  by (induction c ws rule: join_with.induct) (auto simp: split_on_free split_on_append)

lemma join_split: "join_with c (split_on c s) = s"
proof (induction s)
  case (Cons x s)
  obtain w ws where "split_on c s = w # ws" by (cases "split_on c s") auto
  with Cons show ?case by (cases ws) auto
qed simp

section \<open>filepath.Clean, IsAbs, Join, Abs\<close>

definition is_abs :: "string \<Rightarrow> bool" where
  "is_abs p \<longleftrightarrow> p \<noteq> [] \<and> hd p = CHR ''/''"

text \<open>
  The elements of a cleaned path: \<open>out\<close> is the output so far, last element first. A \<open>..\<close>
  removes the element before it; at the root it is dropped, and a relative path keeps the
  ones it cannot resolve.
\<close>

fun clean_elems :: "bool \<Rightarrow> string list \<Rightarrow> string list \<Rightarrow> string list" where
  "clean_elems rooted out [] = rev out"
| "clean_elems rooted out (e # es) =
     (if e = [] \<or> e = ''.'' then clean_elems rooted out es
      else if e = ''..'' then
        (case out of
           [] \<Rightarrow> clean_elems rooted (if rooted then [] else [e]) es
         | t # rest \<Rightarrow> (if t = ''..'' then clean_elems rooted (e # out) es
                       else clean_elems rooted rest es))
      else clean_elems rooted (e # out) es)"

definition path_elems :: "string \<Rightarrow> string list" where
  "path_elems p = clean_elems (is_abs p) [] (split_on CHR ''/'' p)"

definition clean :: "string \<Rightarrow> string" where
  "clean p =
     (if is_abs p then CHR ''/'' # join_with CHR ''/'' (path_elems p)
      else if path_elems p = [] then ''.''
      else join_with CHR ''/'' (path_elems p))"

definition join_path :: "string \<Rightarrow> string \<Rightarrow> string" where
  "join_path a b =
     (if a = [] then (if b = [] then [] else clean b)
      else if b = [] then clean a
      else clean (a @ CHR ''/'' # b))"

definition abs_path :: "string \<Rightarrow> string \<Rightarrow> string" where
  "abs_path cwd p = (if is_abs p then clean p else join_path cwd p)"

section \<open>filepath.Rel and containment\<close>

fun strip_common :: "string list \<Rightarrow> string list \<Rightarrow> string list \<times> string list" where
  "strip_common (b # bs) (t # ts) = (if b = t then strip_common bs ts else (b # bs, t # ts))"
| "strip_common bs ts = (bs, ts)"

text \<open>\<open>None\<close> is the error of \<open>Rel\<close>: the target cannot be made relative to the base.\<close>

definition rel_path :: "string \<Rightarrow> string \<Rightarrow> string option" where
  "rel_path base targ =
     (if clean targ = clean base then Some ''.''
      else if is_abs base \<noteq> is_abs targ then None
      else (let bs = path_elems base;
                ts = (if clean targ = ''.'' then [''.''] else path_elems targ);
                (b', t') = strip_common bs ts
            in if b' \<noteq> [] \<and> t' \<noteq> [] \<and> hd b' = ''..'' then None
               else Some (join_with CHR ''/'' (replicate (length b') ''..'' @ t'))))"

definition path_within :: "string \<Rightarrow> string \<Rightarrow> bool" where
  "path_within root p =
     (case rel_path root p of
        None \<Rightarrow> False
      | Some relative \<Rightarrow> relative \<noteq> ''..'' \<and> \<not> prefix ''../'' relative)"

text \<open>An element a cleaned rooted path can hold.\<close>

definition plain_elem :: "string \<Rightarrow> bool" where
  "plain_elem e \<longleftrightarrow> e \<noteq> [] \<and> e \<noteq> ''.'' \<and> e \<noteq> ''..'' \<and> CHR ''/'' \<notin> set e"

lemma clean_elems_rooted:
  "\<forall>e \<in> set out. plain_elem e \<Longrightarrow> \<forall>e \<in> set es. CHR ''/'' \<notin> set e \<Longrightarrow>
     \<forall>e \<in> set (clean_elems True out es). plain_elem e"
proof (induction es arbitrary: out)
  case (Cons e es)
  consider "e = [] \<or> e = ''.''" | "e = ''..''" | "plain_elem e" "e \<noteq> []" "e \<noteq> ''.''" "e \<noteq> ''..''"
    using Cons.prems(2) unfolding plain_elem_def by auto
  then show ?case
  proof cases
    case 1
    with Cons show ?thesis by auto
  next
    case 2
    show ?thesis
    proof (cases out)
      case (Cons t rest)
      then have "t \<noteq> ''..''" "\<forall>e \<in> set rest. plain_elem e"
        using Cons.prems(1) by (auto simp: plain_elem_def)
      with Cons 2 Cons.IH [of rest] \<open>\<forall>e' \<in> set (e # es). CHR ''/'' \<notin> set e'\<close> show ?thesis by simp
    qed (use 2 Cons.IH [of "[]"] Cons.prems(2) in simp)
  next
    case 3
    with Cons.IH [of "e # out"] Cons.prems show ?thesis by simp
  qed
qed simp

lemma path_elems_plain: "is_abs p \<Longrightarrow> e \<in> set (path_elems p) \<Longrightarrow> plain_elem e"
  unfolding path_elems_def
  using clean_elems_rooted [of "[]" "split_on CHR ''/'' p"] split_on_sep_free by auto

lemma clean_elems_idle:
  "\<forall>e \<in> set es. plain_elem e \<Longrightarrow> clean_elems r out es = rev out @ es"
  by (induction es arbitrary: out) (auto simp: plain_elem_def)

lemma is_abs_clean [simp]: "is_abs p \<Longrightarrow> is_abs (clean p)"
  by (simp add: clean_def is_abs_def)

lemma is_abs_join [simp]: "is_abs a \<Longrightarrow> is_abs (join_path a b)"
proof -
  assume a: "is_abs a"
  then have "is_abs (a @ x)" for x by (cases a) (auto simp: is_abs_def)
  moreover have "a \<noteq> []" using a by (auto simp: is_abs_def)
  ultimately show ?thesis using a by (simp add: join_path_def)
qed

lemma path_elems_root:
  assumes "\<forall>e \<in> set es. plain_elem e"
  shows "path_elems (CHR ''/'' # join_with CHR ''/'' es) = es"
proof (cases "es = []")
  case True
  then show ?thesis by (simp add: path_elems_def is_abs_def)
next
  case False
  with assms have "split_on CHR ''/'' (join_with CHR ''/'' es) = es"
    by (intro split_join) (auto simp: plain_elem_def)
  with assms show ?thesis
    by (simp add: path_elems_def is_abs_def clean_elems_idle)
qed

lemma path_elems_clean: "is_abs p \<Longrightarrow> path_elems (clean p) = path_elems p"
  using path_elems_root [of "path_elems p"] path_elems_plain by (simp add: clean_def)

lemma clean_eq_iff: "is_abs p \<Longrightarrow> is_abs q \<Longrightarrow> clean p = clean q \<longleftrightarrow> path_elems p = path_elems q"
  by (metis path_elems_clean clean_def)

lemma clean_idem: "is_abs p \<Longrightarrow> clean (clean p) = clean p"
  by (simp add: clean_eq_iff path_elems_clean)

lemma strip_common_prefix:
  "strip_common bs ts = (b', t') \<Longrightarrow> \<exists>c. bs = c @ b' \<and> ts = c @ t'"
proof (induction bs ts rule: strip_common.induct)
  case (1 b bs t ts)
  then show ?case by (auto split: if_splits)
qed auto

lemma strip_common_empty_iff:
  "strip_common bs ts = (b', t') \<Longrightarrow> b' = [] \<longleftrightarrow> prefix bs ts"
  by (induction bs ts rule: strip_common.induct) (auto split: if_splits)

lemma join_dotdot:
  "n > 0 \<Longrightarrow> join_with CHR ''/'' (replicate n ''..'' @ ts) = ''..'' \<or>
             prefix ''../'' (join_with CHR ''/'' (replicate n ''..'' @ ts))"
proof (cases n)
  case (Suc m)
  then show ?thesis
    by (cases "replicate m ''..'' @ ts") auto
qed simp

lemma join_plain:
  assumes "\<forall>e \<in> set ts. plain_elem e"
  shows "join_with CHR ''/'' ts \<noteq> ''..'' \<and> \<not> prefix ''../'' (join_with CHR ''/'' ts)"
proof (cases ts)
  case (Cons t us)
  with assms have t: "plain_elem t" by simp
  have "split_on CHR ''/'' (join_with CHR ''/'' ts) = ts"
    using assms Cons by (intro split_join) (auto simp: plain_elem_def)
  moreover have "split_on CHR ''/'' ''..'' = [''..'']" by simp
  moreover have "\<exists>r. split_on CHR ''/'' s = ''..'' # r" if "prefix ''../'' s" for s
    using that by (auto simp: prefix_def)
  ultimately show ?thesis
    using Cons t by (metis list.inject plain_elem_def)
qed simp

text \<open>On absolute paths the textual test is containment of the cleaned element lists.\<close>

lemma path_within_iff:
  assumes "is_abs root" and "is_abs p"
  shows "path_within root p \<longleftrightarrow> prefix (path_elems root) (path_elems p)"
proof (cases "path_elems p = path_elems root")
  case True
  with assms show ?thesis by (simp add: path_within_def rel_path_def clean_eq_iff)
next
  case False
  obtain b' t' where st: "strip_common (path_elems root) (path_elems p) = (b', t')"
    by (cases "strip_common (path_elems root) (path_elems p)")
  have dot: "clean p \<noteq> ''.''" using is_abs_clean [OF assms(2)] by (auto simp: is_abs_def)
  obtain c where c: "path_elems root = c @ b'" "path_elems p = c @ t'"
    using strip_common_prefix [OF st] by blast
  have plain: "\<forall>e \<in> set b'. plain_elem e" "\<forall>e \<in> set t'. plain_elem e"
    using path_elems_plain [OF assms(1)] path_elems_plain [OF assms(2)] c by auto
  have "rel_path root p = Some (join_with CHR ''/'' (replicate (length b') ''..'' @ t'))"
    using assms False dot st plain(1)
    by (cases b') (auto simp: rel_path_def clean_eq_iff plain_elem_def)
  moreover have "b' = [] \<longleftrightarrow> prefix (path_elems root) (path_elems p)"
    by (rule strip_common_empty_iff [OF st])
  ultimately show ?thesis
    using join_plain [OF plain(2)] join_dotdot [of "length b'" t']
    by (cases "b' = []") (auto simp: path_within_def)
qed

section \<open>filepath.Dir\<close>

definition dir_path :: "string \<Rightarrow> string" where
  "dir_path p = clean (rev (dropWhile (\<lambda>c. c \<noteq> CHR ''/'') (rev p)))"

lemma join_with_snoc: "ws \<noteq> [] \<Longrightarrow> join_with c (ws @ [w]) = join_with c ws @ c # w"
  by (induction c ws rule: join_with.induct) auto

lemma clean_elems_trailing:
  "\<forall>e \<in> set es. plain_elem e \<Longrightarrow> clean_elems r out (es @ [[]]) = rev out @ es"
  by (induction es arbitrary: out) (auto simp: plain_elem_def)

text \<open>The parent of a cleaned absolute path drops the last element; the root is its own parent.\<close>

lemma dir_path_root:
  assumes "\<forall>e \<in> set es. plain_elem e"
  shows "dir_path (CHR ''/'' # join_with CHR ''/'' es) = CHR ''/'' # join_with CHR ''/'' (butlast es)"
proof (cases es rule: rev_cases)
  case Nil
  have "clean ''/'' = ''/''" by (simp add: clean_def is_abs_def path_elems_def)
  with Nil show ?thesis by (simp add: dir_path_def)
next
  case (snoc xs x)
  have free: "\<forall>c \<in> set (rev x). c \<noteq> CHR ''/''" using assms snoc by (auto simp: plain_elem_def)
  show ?thesis
  proof (cases "xs = []")
    case True
    have "clean ''/'' = ''/''" by (simp add: clean_def is_abs_def path_elems_def)
    with True snoc free show ?thesis by (simp add: dir_path_def dropWhile_append)
  next
    case False
    have "split_on CHR ''/'' (join_with CHR ''/'' (xs @ [[]])) = xs @ [[]]"
      using assms snoc by (intro split_join) (auto simp: plain_elem_def)
    then have "path_elems (CHR ''/'' # join_with CHR ''/'' (xs @ [[]])) = xs"
      using assms snoc by (simp add: path_elems_def is_abs_def clean_elems_trailing)
    then have "clean (CHR ''/'' # join_with CHR ''/'' (xs @ [[]])) = CHR ''/'' # join_with CHR ''/'' xs"
      by (simp add: clean_def is_abs_def)
    moreover have "rev (dropWhile (\<lambda>c. c \<noteq> CHR ''/'') (rev (CHR ''/'' # join_with CHR ''/'' (xs @ [x]))))
        = CHR ''/'' # join_with CHR ''/'' (xs @ [[]])"
      using free False by (simp add: join_with_snoc dropWhile_append)
    ultimately show ?thesis using snoc by (simp add: dir_path_def)
  qed
qed

end
