(* ===== verification/Spec_Response.thy ===== *)
theory Spec_Response
  imports R42_Prelude
begin

text \<open>
  \<^verbatim>\<open>internal/spec/response.go\<close>: issues and the tool-response envelope every protocol tool
  answers with. A nil error is \<open>None\<close>, an error \<open>Some\<close> of its text.
\<close>

record issue =
  iss_id :: string
  iss_code :: string
  iss_message :: message
  iss_path :: "string option"
  iss_hint :: "string option"

text \<open>The composite literal \<open>Issue{Code: c, Message: m}\<close>: the other fields are zero.\<close>

definition mk_issue :: "string \<Rightarrow> message \<Rightarrow> issue" where
  "mk_issue c m = \<lparr>iss_id = [], iss_code = c, iss_message = m, iss_path = None, iss_hint = None\<rparr>"

definition issue_validate :: "issue \<Rightarrow> error option" where
  "issue_validate i =
     (if blank (iss_code i) then Some (Text ''issue code is required'')
      else if text_blank (iss_message i) then Some (Text ''issue message is required'')
      else None)"

text \<open>The loop \<open>for index, issue := range issues { if err := issue.Validate() ... }\<close>.\<close>

fun issues_validate :: "string \<Rightarrow> int \<Rightarrow> issue list \<Rightarrow> error option" where
  "issues_validate fmt index [] = None"
| "issues_validate fmt index (i # is) =
     (case issue_validate i of
        Some e \<Rightarrow> Some (Format fmt [IntArg index, TextArg e])
      | None \<Rightarrow> issues_validate fmt (index + 1) is)"

record 'a tool_response =
  resp_accepted :: bool
  resp_output :: "'a option"
  resp_issues :: "issue list"

definition accept :: "'a \<Rightarrow> 'a tool_response" where
  "accept x = \<lparr>resp_accepted = True, resp_output = Some x, resp_issues = []\<rparr>"

definition reject_issues :: "issue list \<Rightarrow> 'a tool_response" where
  "reject_issues is = \<lparr>resp_accepted = False, resp_output = None, resp_issues = is\<rparr>"

text \<open>\<open>rejectedToolResult\<close> of \<^verbatim>\<open>internal/cli/runtime_workflow_tools.go\<close>.\<close>

definition rejected_tool_result :: "string \<Rightarrow> message \<Rightarrow> 'a tool_response" where
  "rejected_tool_result code m = reject_issues [mk_issue code m]"

definition response_validate :: "'a tool_response \<Rightarrow> error option" where
  "response_validate r =
     (if resp_accepted r \<and> resp_issues r \<noteq> []
      then Some (Text ''accepted response must not contain issues'')
      else if \<not> resp_accepted r \<and> resp_output r \<noteq> None
      then Some (Text ''rejected response must not contain output'')
      else if \<not> resp_accepted r \<and> resp_issues r = []
      then Some (Text ''rejected response must contain at least one issue'')
      else issues_validate ''issue %d: %w'' 0 (resp_issues r))"

definition issue_ok :: "issue \<Rightarrow> bool" where
  "issue_ok i \<longleftrightarrow> \<not> blank (iss_code i) \<and> \<not> text_blank (iss_message i)"

lemma issue_validate_None: "issue_validate i = None \<longleftrightarrow> issue_ok i"
  by (simp add: issue_validate_def issue_ok_def)

lemma issues_validate_None: "issues_validate fmt k is = None \<longleftrightarrow> (\<forall>i \<in> set is. issue_ok i)"
  by (induction fmt k "is" rule: issues_validate.induct)
     (auto simp: issue_validate_None [symmetric] split: option.splits)

lemma response_validate_None:
  "response_validate r = None \<longleftrightarrow>
     (if resp_accepted r then resp_issues r = []
      else resp_output r = None \<and> resp_issues r \<noteq> [] \<and> (\<forall>i \<in> set (resp_issues r). issue_ok i))"
  by (simp add: response_validate_def issues_validate_None)

lemma accept_simps [simp]:
  "resp_accepted (accept x)" "resp_output (accept x) = Some x" "resp_issues (accept x) = []"
  by (simp_all add: accept_def)

lemma reject_issues_simps [simp]:
  "\<not> resp_accepted (reject_issues is)" "resp_output (reject_issues is) = None"
  "resp_issues (reject_issues is) = is"
  by (simp_all add: reject_issues_def)

lemma accept_neq_reject [simp]: "accept x \<noteq> reject_issues is" "reject_issues is \<noteq> accept x"
  by (simp_all add: accept_def reject_issues_def)

end
