(* ===== verification/Workflow_State.thy ===== *)
theory Workflow_State
  imports R42_Prelude
begin

text \<open>
  \<^verbatim>\<open>internal/workflow/state.go\<close>: the phase and budget state machine of one research workflow.

  A \<open>phase\<close> is a Go string type: \<open>PhaseNone\<close> is the empty string and \<open>PhaseOther\<close> any
  string that is not one of the constants (a decoded checkpoint may hold it). \<open>New\<close>
  replaces a nil \<open>MaxCollectionRounds\<close> by the default, and nothing else constructs a
  \<open>State\<close>, so the state's record holds the limit itself. Each method holds the mutex for
  its whole body, so a method call is one atomic step. Counters are unbounded integers:
  each grows by one per call.
\<close>

section \<open>State and operations\<close>

datatype phase =
  PhaseNone | PhaseCollection | PhaseCollectionQC | PhaseResearch | PhaseFinalQC | PhaseComplete
  | PhaseOther string

datatype event =
  EventCollectionCheckpoint | EventSufficient | EventNeedsMore | EventResearchComplete
  | EventResearchCompleteWithoutQC | EventReviseResearch | EventFinalQCRetry | EventPass
  | EventOther string

record wf_config =
  cfg_max_rounds :: "int option"
  cfg_batch_size :: int

definition DefaultBatchSize :: int where
  "DefaultBatchSize = 10"

definition DefaultMaxCollectionRounds :: int where
  "DefaultMaxCollectionRounds = 10"

record wf_state =
  wf_max :: int
  wf_batch :: int
  wf_phase :: phase
  wf_begun :: bool
  wf_rounds :: int
  wf_cursor :: int
  wf_unreviewed :: int
  wf_pending :: bool
  wf_outcomes :: string

record wf_snapshot =
  snap_phase :: phase
  snap_begun :: bool
  snap_rounds :: int
  snap_cursor :: int
  snap_unreviewed :: int
  snap_pending :: bool
  snap_outcomes :: string

datatype wf_error =
  WfError string
| WfErrorf string "fmt_arg list"
| TransitionError phase event
| BudgetExhaustedError phase event

definition wf_new :: "wf_config \<Rightarrow> wf_state" where
  "wf_new c =
     \<lparr>wf_max = (case cfg_max_rounds c of None \<Rightarrow> DefaultMaxCollectionRounds | Some m \<Rightarrow> m),
      wf_batch = (if cfg_batch_size c = 0 then DefaultBatchSize else cfg_batch_size c),
      wf_phase = PhaseNone, wf_begun = False, wf_rounds = 0, wf_cursor = 0, wf_unreviewed = 0,
      wf_pending = False, wf_outcomes = []\<rparr>"

definition wf_snapshot_of :: "wf_state \<Rightarrow> wf_snapshot" where
  "wf_snapshot_of s =
     \<lparr>snap_phase = wf_phase s, snap_begun = wf_begun s, snap_rounds = wf_rounds s,
      snap_cursor = wf_cursor s, snap_unreviewed = wf_unreviewed s, snap_pending = wf_pending s,
      snap_outcomes = wf_outcomes s\<rparr>"

fun phase_text :: "phase \<Rightarrow> string" where
  "phase_text PhaseNone = []"
| "phase_text PhaseCollection = ''collection''"
| "phase_text PhaseCollectionQC = ''collection_qc''"
| "phase_text PhaseResearch = ''research''"
| "phase_text PhaseFinalQC = ''final_qc''"
| "phase_text PhaseComplete = ''complete''"
| "phase_text (PhaseOther s) = s"

fun event_text :: "event \<Rightarrow> string" where
  "event_text EventCollectionCheckpoint = ''checkpoint''"
| "event_text EventSufficient = ''sufficient''"
| "event_text EventNeedsMore = ''needs_more''"
| "event_text EventResearchComplete = ''research_complete''"
| "event_text EventResearchCompleteWithoutQC = ''research_complete_without_qc''"
| "event_text EventReviseResearch = ''revise_research''"
| "event_text EventFinalQCRetry = ''final_qc_retry''"
| "event_text EventPass = ''pass''"
| "event_text (EventOther s) = s"

fun wf_error_text :: "wf_error \<Rightarrow> message" where
  "wf_error_text (WfError s) = Text s"
| "wf_error_text (WfErrorf f args) = Format f args"
| "wf_error_text (TransitionError p e) =
     Format ''invalid transition %s from phase %s'' [StrArg (event_text e), StrArg (phase_text p)]"
| "wf_error_text (BudgetExhaustedError p e) =
     Format ''collection rounds exhausted for %s in phase %s''
       [StrArg (event_text e), StrArg (phase_text p)]"

fun valid_phase :: "phase \<Rightarrow> bool" where
  "valid_phase PhaseCollection = True"
| "valid_phase PhaseCollectionQC = True"
| "valid_phase PhaseResearch = True"
| "valid_phase PhaseFinalQC = True"
| "valid_phase PhaseComplete = True"
| "valid_phase _ = False"

definition wf_restore :: "wf_state \<Rightarrow> wf_snapshot \<Rightarrow> wf_error + wf_state" where
  "wf_restore s snap =
     (if \<not> snap_begun snap then
        (if snap_phase snap \<noteq> PhaseNone \<or> snap_rounds snap \<noteq> 0 \<or> snap_cursor snap \<noteq> 0
            \<or> snap_unreviewed snap \<noteq> 0 \<or> snap_pending snap \<or> snap_outcomes snap \<noteq> []
         then Inl (WfError ''checkpoint workflow state has not begun'')
         else Inr (s\<lparr>wf_phase := PhaseNone, wf_begun := False, wf_rounds := 0, wf_cursor := 0,
                     wf_unreviewed := 0, wf_pending := False, wf_outcomes := []\<rparr>))
      else if \<not> valid_phase (snap_phase snap)
      then Inl (WfErrorf ''checkpoint workflow phase %q is invalid'' [StrArg (phase_text (snap_phase snap))])
      else if snap_rounds snap \<le> 0
      then Inl (WfError ''checkpoint collection rounds used must be positive'')
      else if wf_max s \<le> 0
      then Inl (WfError ''max collection rounds must be positive'')
      else if snap_rounds snap > wf_max s
      then Inl (WfErrorf ''checkpoint collection rounds %d exceeds configured maximum %d''
                 [IntArg (snap_rounds snap), IntArg (wf_max s)])
      else if snap_cursor snap < 0 \<or> snap_cursor snap > snap_rounds snap
      then Inl (WfError ''checkpoint workflow cursor is invalid'')
      else if snap_unreviewed snap < 0
      then Inl (WfError ''checkpoint unreviewed evidence count is invalid'')
      else Inr (s\<lparr>wf_phase := snap_phase snap, wf_begun := True, wf_rounds := snap_rounds snap,
                  wf_cursor := snap_cursor snap, wf_unreviewed := snap_unreviewed snap,
                  wf_pending := snap_pending snap, wf_outcomes := snap_outcomes snap\<rparr>))"

definition wf_begin :: "wf_state \<Rightarrow> wf_error + wf_state" where
  "wf_begin s =
     (if wf_max s \<le> 0 then Inl (WfError ''max collection rounds must be positive'')
      else if wf_batch s \<le> 0 then Inl (WfError ''collection batch size must be positive'')
      else if wf_begun s then Inr s
      else Inr (s\<lparr>wf_phase := PhaseCollection, wf_rounds := 1, wf_begun := True\<rparr>))"

definition wf_current_phase :: "wf_state \<Rightarrow> phase" where
  "wf_current_phase s = (if \<not> wf_begun s then PhaseNone else wf_phase s)"

definition wf_limit_exhausted :: "wf_state \<Rightarrow> bool" where
  "wf_limit_exhausted s \<longleftrightarrow> wf_rounds s \<ge> wf_max s"

definition wf_register_evidence :: "wf_state \<Rightarrow> wf_error + wf_state" where
  "wf_register_evidence s =
     (if \<not> wf_begun s then Inl (WfError ''workflow must begin before registering evidence artifacts'')
      else if wf_batch s \<le> 0 then Inl (WfError ''collection batch size must be positive'')
      else (let s' = s\<lparr>wf_unreviewed := wf_unreviewed s + 1\<rparr>
            in Inr (if wf_unreviewed s' \<ge> wf_batch s' then s'\<lparr>wf_pending := True\<rparr> else s')))"

definition wf_checkpoint :: "wf_state \<Rightarrow> wf_error + wf_state" where
  "wf_checkpoint s =
     (if \<not> wf_begun s then Inl (WfError ''workflow must begin before checkpointing'')
      else if wf_unreviewed s = 0 then Inl (WfError ''empty checkpoint requires a reason'')
      else Inr (s\<lparr>wf_unreviewed := 0, wf_pending := False\<rparr>))"

definition wf_acquire_gate :: "wf_state \<Rightarrow> wf_error option" where
  "wf_acquire_gate s =
     (if \<not> wf_begun s then Some (WfError ''workflow must begin before acquiring'')
      else if wf_pending s
      then Some (WfError ''checkpoint pending: submit a checkpoint before acquiring more sources'')
      else None)"

definition wf_advance :: "wf_state \<Rightarrow> event \<Rightarrow> wf_error + wf_state" where
  "wf_advance s e =
     (if \<not> wf_begun s then Inl (WfError ''workflow must begin before advancing'')
      else (case wf_phase s of
        PhaseCollection \<Rightarrow>
          (if e = EventCollectionCheckpoint then Inr (s\<lparr>wf_phase := PhaseCollectionQC\<rparr>)
           else Inl (TransitionError (wf_phase s) e))
      | PhaseCollectionQC \<Rightarrow>
          (case e of
             EventSufficient \<Rightarrow> Inr (s\<lparr>wf_phase := PhaseResearch, wf_cursor := wf_cursor s + 1\<rparr>)
           | EventNeedsMore \<Rightarrow>
               (if wf_rounds s \<ge> wf_max s then Inl (BudgetExhaustedError (wf_phase s) e)
                else Inr (s\<lparr>wf_phase := PhaseCollection, wf_rounds := wf_rounds s + 1,
                            wf_cursor := wf_cursor s + 1\<rparr>))
           | _ \<Rightarrow> Inl (TransitionError (wf_phase s) e))
      | PhaseResearch \<Rightarrow>
          (case e of
             EventResearchComplete \<Rightarrow> Inr (s\<lparr>wf_phase := PhaseFinalQC\<rparr>)
           | EventResearchCompleteWithoutQC \<Rightarrow> Inr (s\<lparr>wf_phase := PhaseComplete\<rparr>)
           | _ \<Rightarrow> Inl (TransitionError (wf_phase s) e))
      | PhaseFinalQC \<Rightarrow>
          (case e of
             EventPass \<Rightarrow> Inr (s\<lparr>wf_phase := PhaseComplete\<rparr>)
           | EventFinalQCRetry \<Rightarrow> Inr s
           | EventReviseResearch \<Rightarrow> Inr (s\<lparr>wf_phase := PhaseResearch\<rparr>)
           | _ \<Rightarrow> Inl (TransitionError (wf_phase s) e))
      | _ \<Rightarrow> Inl (TransitionError (wf_phase s) e)))"

definition wf_set_outcomes :: "string \<Rightarrow> wf_state \<Rightarrow> wf_state" where
  "wf_set_outcomes bytes s = s\<lparr>wf_outcomes := bytes\<rparr>"

section \<open>The abstract machine\<close>

text \<open>
  What the package promises: the edges of the phase diagram, as a relation between phases.
  The budget vetoes the one edge that starts another acquisition round.
\<close>

inductive phase_edge :: "phase \<Rightarrow> event \<Rightarrow> phase \<Rightarrow> bool" where
  checkpoint_edge: "phase_edge PhaseCollection EventCollectionCheckpoint PhaseCollectionQC"
| sufficient_edge: "phase_edge PhaseCollectionQC EventSufficient PhaseResearch"
| needs_more_edge: "phase_edge PhaseCollectionQC EventNeedsMore PhaseCollection"
| complete_edge: "phase_edge PhaseResearch EventResearchComplete PhaseFinalQC"
| without_qc_edge: "phase_edge PhaseResearch EventResearchCompleteWithoutQC PhaseComplete"
| pass_edge: "phase_edge PhaseFinalQC EventPass PhaseComplete"
| retry_edge: "phase_edge PhaseFinalQC EventFinalQCRetry PhaseFinalQC"
| revise_edge: "phase_edge PhaseFinalQC EventReviseResearch PhaseResearch"

inductive_simps phase_edge_simps:
  "phase_edge PhaseNone e q" "phase_edge PhaseCollection e q" "phase_edge PhaseCollectionQC e q"
  "phase_edge PhaseResearch e q" "phase_edge PhaseFinalQC e q" "phase_edge PhaseComplete e q"
  "phase_edge (PhaseOther x) e q"

lemmas wf_op_defs =
  wf_begin_def wf_advance_def wf_register_evidence_def wf_checkpoint_def wf_set_outcomes_def

text \<open>One public mutation of the state; \<open>Inl\<close> leaves the state as it was.\<close>

datatype wf_op =
  OpBegin | OpAdvance event | OpRegister | OpCheckpoint | OpSetOutcomes string

fun wf_apply :: "wf_state \<Rightarrow> wf_op \<Rightarrow> wf_error + wf_state" where
  "wf_apply s OpBegin = wf_begin s"
| "wf_apply s (OpAdvance e) = wf_advance s e"
| "wf_apply s OpRegister = wf_register_evidence s"
| "wf_apply s OpCheckpoint = wf_checkpoint s"
| "wf_apply s (OpSetOutcomes b) = Inr (wf_set_outcomes b s)"

definition wf_step :: "wf_state \<Rightarrow> wf_op \<Rightarrow> wf_state \<Rightarrow> bool" where
  "wf_step s op t \<longleftrightarrow> wf_apply s op = Inr t"

definition wf_initial :: "wf_state \<Rightarrow> bool" where
  "wf_initial s \<longleftrightarrow> (\<exists>c. s = wf_new c)"

abbreviation wf_reachable :: "wf_state \<Rightarrow> bool" where
  "wf_reachable \<equiv> reach wf_initial wf_step"

section \<open>The invariant\<close>

definition acquiring :: "phase \<Rightarrow> bool" where
  "acquiring p \<longleftrightarrow> p = PhaseCollection \<or> p = PhaseCollectionQC"

definition wf_inv :: "wf_state \<Rightarrow> bool" where
  "wf_inv s \<longleftrightarrow>
     (if wf_begun s then
        0 < wf_batch s \<and> 1 \<le> wf_rounds s \<and> wf_rounds s \<le> wf_max s \<and> valid_phase (wf_phase s) \<and>
        wf_cursor s = (if acquiring (wf_phase s) then wf_rounds s - 1 else wf_rounds s) \<and>
        0 \<le> wf_unreviewed s \<and> (wf_pending s \<longleftrightarrow> wf_batch s \<le> wf_unreviewed s)
      else wf_phase s = PhaseNone \<and> wf_rounds s = 0 \<and> wf_cursor s = 0 \<and> wf_unreviewed s = 0 \<and>
        \<not> wf_pending s)"

lemma wf_inv_new: "wf_inv (wf_new c)"
  by (simp add: wf_inv_def wf_new_def)

lemma wf_inv_begun:
  "wf_begun s \<Longrightarrow> wf_inv s \<longleftrightarrow>
     0 < wf_batch s \<and> 1 \<le> wf_rounds s \<and> wf_rounds s \<le> wf_max s \<and> valid_phase (wf_phase s) \<and>
     wf_cursor s = (if acquiring (wf_phase s) then wf_rounds s - 1 else wf_rounds s) \<and>
     0 \<le> wf_unreviewed s \<and> (wf_pending s \<longleftrightarrow> wf_batch s \<le> wf_unreviewed s)"
  by (simp add: wf_inv_def)

lemma wf_inv_unbegun:
  "\<not> wf_begun s \<Longrightarrow> wf_inv s \<longleftrightarrow>
     wf_phase s = PhaseNone \<and> wf_rounds s = 0 \<and> wf_cursor s = 0 \<and> wf_unreviewed s = 0 \<and>
     \<not> wf_pending s"
  by (simp add: wf_inv_def)

lemma wf_begin_inv [inv_intros]:
  assumes "wf_inv s" and "wf_begin s = Inr t"
  shows "wf_inv t"
proof (cases "wf_begun s")
  case True
  with assms show ?thesis by (simp add: wf_begin_def split: if_splits)
next
  case False
  then show ?thesis
    using assms(2) assms(1) [unfolded wf_inv_unbegun [OF False]]
    by (simp add: wf_begin_def split: if_splits) (auto simp: wf_inv_begun acquiring_def)
qed

lemma wf_advance_begun: "wf_advance s e = Inr t \<Longrightarrow> wf_begun s"
  by (simp add: wf_advance_def split: if_splits)

lemma wf_advance_inv [inv_intros]:
  assumes "wf_inv s" and adv: "wf_advance s e = Inr t"
  shows "wf_inv t"
proof -
  note begun = wf_advance_begun [OF adv]
  show ?thesis
    using adv begun assms(1) [unfolded wf_inv_begun [OF begun]]
    by (cases "wf_phase s"; cases e)
       (simp_all add: wf_advance_def split: if_splits, (auto simp: wf_inv_begun acquiring_def)+)
qed

lemma wf_register_inv [inv_intros]:
  assumes "wf_inv s" and reg: "wf_register_evidence s = Inr t"
  shows "wf_inv t"
proof -
  have begun: "wf_begun s" using reg by (simp add: wf_register_evidence_def split: if_splits)
  show ?thesis
    using reg begun assms(1) [unfolded wf_inv_begun [OF begun]]
    by (cases "wf_batch s \<le> wf_unreviewed s + 1")
       (simp_all add: wf_register_evidence_def Let_def split: if_splits, (auto simp: wf_inv_begun)+)
qed

lemma wf_checkpoint_inv [inv_intros]:
  assumes "wf_inv s" and cp: "wf_checkpoint s = Inr t"
  shows "wf_inv t"
proof -
  have begun: "wf_begun s" using cp by (simp add: wf_checkpoint_def split: if_splits)
  show ?thesis
    using cp begun assms(1) [unfolded wf_inv_begun [OF begun]]
    by (simp add: wf_checkpoint_def split: if_splits) (auto simp: wf_inv_begun)
qed

lemma wf_set_outcomes_inv [inv_intros]: "wf_inv s \<Longrightarrow> wf_inv (wf_set_outcomes b s)"
  by (simp add: wf_inv_def wf_set_outcomes_def)

lemma wf_apply_inv: "wf_inv s \<Longrightarrow> wf_apply s op = Inr t \<Longrightarrow> wf_inv t"
  by (cases op) (auto intro: inv_intros)

interpretation wf: invariant_system wf_initial wf_step wf_inv
  by unfold_locales (auto simp: wf_initial_def wf_step_def wf_inv_new intro: wf_apply_inv)

lemma wf_apply_config: "wf_apply s op = Inr t \<Longrightarrow> wf_max t = wf_max s \<and> wf_batch t = wf_batch s"
  by (cases op)
     (auto simp: wf_op_defs Let_def split: if_splits phase.splits event.splits)

section \<open>Transitions\<close>

text \<open>The veto of \<open>Advance\<close>: another acquisition round beyond the limit.\<close>

definition budget_veto :: "wf_state \<Rightarrow> event \<Rightarrow> bool" where
  "budget_veto s e \<longleftrightarrow>
     wf_phase s = PhaseCollectionQC \<and> e = EventNeedsMore \<and> wf_max s \<le> wf_rounds s"

lemma wf_advance_edge:
  assumes "wf_begun s"
  shows "(\<exists>t. wf_advance s e = Inr t \<and> wf_phase t = q) \<longleftrightarrow>
           phase_edge (wf_phase s) e q \<and> \<not> budget_veto s e"
  using assms
  by (cases "wf_phase s"; cases e)
     (auto simp: wf_advance_def budget_veto_def phase_edge_simps)

lemma wf_advance_error:
  assumes "wf_begun s"
  shows "wf_advance s e = Inl x \<longleftrightarrow>
           (if budget_veto s e then x = BudgetExhaustedError (wf_phase s) e
            else (\<forall>q. \<not> phase_edge (wf_phase s) e q) \<and> x = TransitionError (wf_phase s) e)"
  using assms
  by (cases "wf_phase s"; cases e)
     (auto simp: wf_advance_def budget_veto_def phase_edge_simps)

lemma wf_advance_frame:
  "wf_advance s e = Inr t \<Longrightarrow>
     wf_max t = wf_max s \<and> wf_batch t = wf_batch s \<and> wf_begun t \<and> wf_begun s \<and>
     wf_unreviewed t = wf_unreviewed s \<and> wf_pending t = wf_pending s \<and>
     wf_outcomes t = wf_outcomes s \<and>
     wf_rounds t = wf_rounds s + (if e = EventNeedsMore then 1 else 0) \<and>
     wf_cursor t = wf_cursor s + (if e = EventNeedsMore \<or> e = EventSufficient then 1 else 0)"
  by (auto simp: wf_advance_def split: if_splits phase.splits event.splits)

text \<open>A run of events, stopped by the first rejected one.\<close>

fun wf_run :: "wf_state \<Rightarrow> event list \<Rightarrow> wf_error + wf_state" where
  "wf_run s [] = Inr s"
| "wf_run s (e # es) = (case wf_advance s e of Inl x \<Rightarrow> Inl x | Inr t \<Rightarrow> wf_run t es)"

lemma wf_run_inv: "wf_inv s \<Longrightarrow> wf_run s es = Inr t \<Longrightarrow> wf_inv t"
  by (induction s es rule: wf_run.induct) (auto split: sum.splits intro: inv_intros)

lemma wf_run_rounds:
  "wf_run s es = Inr t \<Longrightarrow>
     wf_rounds t = wf_rounds s + int (count_list es EventNeedsMore) \<and> wf_max t = wf_max s \<and>
     (wf_begun s \<longrightarrow> wf_begun t)"
  by (induction s es rule: wf_run.induct)
     (fastforce split: sum.splits dest: wf_advance_frame)+

section \<open>Properties\<close>



text \<open>
  C16: \<open>Advance\<close> implements the phase diagram exactly. On a begun workflow an event moves the
  phase along an edge of the diagram unless the round budget vetoes it; a veto is a
  \<open>BudgetExhaustedError\<close>, every other rejected event a \<open>TransitionError\<close> naming the phase
  and the event.
\<close>

theorem advance_implements_phase_diagram:
  assumes "wf_begun s"
  shows "((\<exists>t. wf_advance s e = Inr t \<and> wf_phase t = q) \<longleftrightarrow>
            phase_edge (wf_phase s) e q \<and> \<not> budget_veto s e) \<and>
         (wf_advance s e = Inl x \<longleftrightarrow>
            (if budget_veto s e then x = BudgetExhaustedError (wf_phase s) e
             else (\<forall>q. \<not> phase_edge (wf_phase s) e q) \<and> x = TransitionError (wf_phase s) e))"
  using wf_advance_edge [OF assms] wf_advance_error [OF assms] by blast

definition wf_example :: wf_state where
  "wf_example = (wf_new \<lparr>cfg_max_rounds = Some 2, cfg_batch_size = 3\<rparr>)
     \<lparr>wf_phase := PhaseCollection, wf_begun := True, wf_rounds := 1\<rparr>"

lemma wf_example_reachable: "wf_reachable wf_example"
proof (rule reach_step)
  show "wf_reachable (wf_new \<lparr>cfg_max_rounds = Some 2, cfg_batch_size = 3\<rparr>)"
    by (rule reach_init) (auto simp: wf_initial_def)
  show "wf_step (wf_new \<lparr>cfg_max_rounds = Some 2, cfg_batch_size = 3\<rparr>) OpBegin wf_example"
    by (simp add: wf_step_def wf_begin_def wf_new_def wf_example_def)
qed

lemma wf_example_begun [simp]: "wf_begun wf_example"
  by (simp add: wf_example_def)

theorem advance_implements_phase_diagram_witness:
  "(\<exists>t. wf_advance wf_example EventCollectionCheckpoint = Inr t \<and> wf_phase t = PhaseCollectionQC)"
  using advance_implements_phase_diagram [OF wf_example_begun]
  by (simp add: budget_veto_def wf_example_def phase_edge_simps)

text \<open>
  C22: a checkpoint of a begun workflow can always be restored: \<open>Restore\<close> accepts the
  \<open>Snapshot\<close> of every reachable begun state on any state built with the same round limit,
  and gives back the phase, the counters, the gate and the outcomes, the configuration being
  the receiver's own.
\<close>

theorem snapshot_restore_roundtrip:
  assumes "wf_reachable s" and "wf_begun s" and "wf_max t = wf_max s"
  shows "wf_restore t (wf_snapshot_of s) = Inr (s\<lparr>wf_max := wf_max t, wf_batch := wf_batch t\<rparr>)"
proof -
  have "wf_inv s" using assms(1) by (rule wf.reach_inv)
  with assms(2,3) show ?thesis
    by (auto simp: wf_restore_def wf_snapshot_of_def wf_inv_begun)
qed

theorem snapshot_restore_roundtrip_witness:
  "wf_restore (wf_new \<lparr>cfg_max_rounds = Some 2, cfg_batch_size = 7\<rparr>) (wf_snapshot_of wf_example) =
     Inr (wf_example\<lparr>wf_max := 2, wf_batch := 7\<rparr>)"
  using snapshot_restore_roundtrip
    [OF wf_example_reachable wf_example_begun, of "wf_new \<lparr>cfg_max_rounds = Some 2, cfg_batch_size = 7\<rparr>"]
  by (simp add: wf_new_def wf_example_def)

text \<open>
  The collection budget is a hard bound on the whole history. From any reachable state,
  no accepted sequence of events holds more \<open>needs_more\<close> events than there are rounds left,
  whatever else happens between them (Final QC may send work back to Research any number of
  times).
\<close>

theorem needs_more_bounded_by_budget:
  assumes "wf_reachable s" and "wf_begun s" and "wf_run s es = Inr t"
  shows "int (count_list es EventNeedsMore) \<le> wf_max s - wf_rounds s"
proof -
  have inv: "wf_inv t" using assms(1,3) by (blast intro: wf_run_inv wf.reach_inv)
  have "wf_rounds t = wf_rounds s + int (count_list es EventNeedsMore)" "wf_max t = wf_max s"
    "wf_begun t"
    using wf_run_rounds [OF assms(3)] assms(2) by auto
  with inv show ?thesis by (simp add: wf_inv_begun)
qed

theorem needs_more_bounded_by_budget_witness:
  "int (count_list [EventCollectionCheckpoint, EventNeedsMore] EventNeedsMore)
     \<le> wf_max wf_example - wf_rounds wf_example"
proof -
  have "\<exists>t. wf_run wf_example [EventCollectionCheckpoint, EventNeedsMore] = Inr t"
    by (simp add: wf_advance_def wf_example_def wf_new_def)
  then show ?thesis
    using needs_more_bounded_by_budget [OF wf_example_reachable wf_example_begun] by blast
qed

lemma wf_reachable_valid_phase: "wf_reachable s \<Longrightarrow> wf_begun s \<Longrightarrow> valid_phase (wf_phase s)"
  by (metis wf.reach_inv wf_inv_begun)

text \<open>
  C21: no begun workflow is ever stuck before completion: from every reachable begun state
  some accepted sequence of at most three events leads to the complete phase.
\<close>

theorem completion_always_possible:
  assumes "wf_reachable s" and "wf_begun s"
  shows "\<exists>es t. length es \<le> 3 \<and> wf_run s es = Inr t \<and> wf_phase t = PhaseComplete"
proof -
  let ?finish = "\<lambda>es. \<exists>t. wf_run s es = Inr t \<and> wf_phase t = PhaseComplete"
  have "?finish [EventCollectionCheckpoint, EventSufficient, EventResearchCompleteWithoutQC] \<or>
        ?finish [EventSufficient, EventResearchCompleteWithoutQC] \<or>
        ?finish [EventResearchCompleteWithoutQC] \<or> ?finish [EventPass] \<or> ?finish []"
    using assms(2) wf_reachable_valid_phase [OF assms]
    by (cases "wf_phase s") (simp_all add: wf_advance_def)
  then obtain es where "?finish es" and "length es \<le> 3" by fastforce
  then show ?thesis by blast
qed

theorem completion_always_possible_witness:
  "\<exists>es t. length es \<le> 3 \<and> wf_run wf_example es = Inr t \<and> wf_phase t = PhaseComplete"
  by (rule completion_always_possible [OF wf_example_reachable wf_example_begun])

end
