(* ===== verification/Artifact_Registry.thy ===== *)
theory Artifact_Registry
  imports R42_Prelude R42_Paths Spec_Response "HOL-Library.Product_Lexorder"
begin

text \<open>
  \<^verbatim>\<open>internal/artifact/registry.go\<close> (and the artifact declaration of
  \<^verbatim>\<open>internal/research/spec/artifact.go\<close>): the run-scoped registry of opaque artifact IDs,
  their paths and purposes, evidence registration, and the checkpoint operations.

  The operating system is a parameter: a record of the calls the code makes over an
  arbitrary file-system state \<open>'fs\<close>. \<open>uuid.NewString\<close> (third party) is a parameter of the
  operations that call it. The build is for Unix, so \<open>scopedArtifactPathKey\<close> keeps the case
  of a key. Each method holds the registry's mutex over its reads and writes of the indexes.
  The nil-receiver guards are left out: a model value is never nil.
\<close>

section \<open>Declared artifacts\<close>

datatype artifact_type = ArtFile | ArtDirectory | ArtOther string

fun artifact_type_text :: "artifact_type \<Rightarrow> string" where
  "artifact_type_text ArtFile = ''file''"
| "artifact_type_text ArtDirectory = ''directory''"
| "artifact_type_text (ArtOther s) = s"

record declared =
  decl_name :: string
  decl_type :: artifact_type
  decl_path :: string
  decl_description :: string
  decl_required :: bool
  decl_non_empty :: bool

definition declared_validate :: "declared \<Rightarrow> error option" where
  "declared_validate a =
     (if blank (decl_name a) then Some (Text ''artifact name is required'')
      else if decl_type a \<noteq> ArtFile \<and> decl_type a \<noteq> ArtDirectory
      then Some (Format ''artifact %s type must be file or directory'' [StrArg (decl_name a)])
      else if blank (decl_path a)
      then Some (Format ''artifact %s path is required'' [StrArg (decl_name a)])
      else if blank (decl_description a)
      then Some (Format ''artifact %s description is required'' [StrArg (decl_name a)])
      else None)"

section \<open>The operating system\<close>

record file_info =
  fi_dir :: bool
  fi_regular :: bool
  fi_size :: int

record 'fs os =
  os_cwd :: "error + string"
  os_eval_symlinks :: "'fs \<Rightarrow> string \<Rightarrow> error + string"
  os_stat :: "'fs \<Rightarrow> string \<Rightarrow> error + file_info"
  os_read_file :: "'fs \<Rightarrow> string \<Rightarrow> error + string"
  os_write_file :: "'fs \<Rightarrow> string \<Rightarrow> string \<Rightarrow> error option \<times> 'fs"
  os_mkdir_all :: "'fs \<Rightarrow> string \<Rightarrow> error option \<times> 'fs"
  os_create_temp :: "'fs \<Rightarrow> string \<Rightarrow> string \<Rightarrow> (error + string) \<times> 'fs"
  os_write_string :: "'fs \<Rightarrow> string \<Rightarrow> string \<Rightarrow> error option \<times> 'fs"
  os_close :: "'fs \<Rightarrow> string \<Rightarrow> error option \<times> 'fs"
  os_remove :: "'fs \<Rightarrow> string \<Rightarrow> 'fs"

text \<open>\<open>filepath.Abs\<close>: only a relative path needs the working directory.\<close>

definition os_abs :: "'fs os \<Rightarrow> string \<Rightarrow> error + string" where
  "os_abs os p =
     (if is_abs p then Inr (clean p)
      else (case os_cwd os of Inl e \<Rightarrow> Inl e | Inr cwd \<Rightarrow> Inr (join_path cwd p)))"

section \<open>Records, entries and the registry\<close>

datatype kind = KindArtifact | KindArtifactFile | KindOther string

datatype purpose = PurposeOutput | PurposeEvidence | PurposeOther string

fun purpose_text :: "purpose \<Rightarrow> string" where
  "purpose_text PurposeOutput = ''output''"
| "purpose_text PurposeEvidence = ''evidence''"
| "purpose_text (PurposeOther s) = s"

text \<open>
  \<open>slices.Sort\<close> on purposes compares the strings; the constructor breaks the tie between a
  constant and a \<open>PurposeOther\<close> of the same text, which no decoded value needs.
\<close>

definition purpose_key :: "purpose \<Rightarrow> string \<times> bool" where
  "purpose_key p = (purpose_text p, (case p of PurposeOther _ \<Rightarrow> True | _ \<Rightarrow> False))"

lemma purpose_key_inj: "purpose_key p = purpose_key q \<Longrightarrow> p = q"
  by (cases p; cases q) (auto simp: purpose_key_def)

instantiation purpose :: linorder
begin

definition less_eq_purpose :: "purpose \<Rightarrow> purpose \<Rightarrow> bool" where
  "less_eq_purpose p q \<longleftrightarrow> purpose_key p \<le> purpose_key q"

definition less_purpose :: "purpose \<Rightarrow> purpose \<Rightarrow> bool" where
  "less_purpose p q \<longleftrightarrow> purpose_key p < purpose_key q"

instance
  by standard
     (auto simp: less_eq_purpose_def less_purpose_def intro: purpose_key_inj order_trans)

end

record art_record =
  rec_id :: string
  rec_name :: string
  rec_path :: string
  rec_description :: string
  rec_kind :: kind
  rec_type :: artifact_type
  rec_purpose :: purpose
  rec_source :: string

record entry =
  ent_record :: art_record
  ent_workspace :: string
  ent_root :: string
  ent_relative :: string
  ent_purposes :: "purpose set"

text \<open>
  The two maps of retained results may be nil: \<open>Restore\<close> installs clones of the checkpoint's
  maps, and a decoded checkpoint has no map where there was nothing to retain. Reading and
  ranging over a nil map is fine; assigning to it panics.
\<close>

type_synonym 'v go_map = "(string \<times> 'v) list option"

definition go_entries :: "'v go_map \<Rightarrow> (string \<times> 'v) list" where
  "go_entries m = (case m of None \<Rightarrow> [] | Some al \<Rightarrow> al)"

definition panic_nil_map :: error where
  "panic_nil_map = Text ''assignment to entry in nil map''"

definition go_assign :: "string \<Rightarrow> 'v \<Rightarrow> 'v go_map \<Rightarrow> error + 'v go_map" where
  "go_assign k v m = (case m of None \<Rightarrow> Inl panic_nil_map | Some al \<Rightarrow> Inr (Some (AList.update k v al)))"

record registry =
  reg_entries :: "string \<Rightarrow> entry option"
  reg_order :: "string list"
  reg_children :: "string \<Rightarrow> string option"
  reg_paths :: "string \<Rightarrow> string option"
  reg_retained :: "string go_map"
  reg_retained_evidence :: "string go_map"

definition new_registry :: registry where
  "new_registry =
     \<lparr>reg_entries = Map.empty, reg_order = [], reg_children = Map.empty, reg_paths = Map.empty,
      reg_retained = Some [], reg_retained_evidence = Some []\<rparr>"

text \<open>Reading a missing key of \<open>map[string]entry\<close> gives the zero entry.\<close>

definition zero_entry :: entry where
  "zero_entry =
     \<lparr>ent_record = \<lparr>rec_id = [], rec_name = [], rec_path = [], rec_description = [],
        rec_kind = KindOther [], rec_type = ArtOther [], rec_purpose = PurposeOther [],
        rec_source = []\<rparr>,
      ent_workspace = [], ent_root = [], ent_relative = [], ent_purposes = {}\<rparr>"

definition entry_at :: "registry \<Rightarrow> string \<Rightarrow> entry" where
  "entry_at r i = (case reg_entries r i of None \<Rightarrow> zero_entry | Some e \<Rightarrow> e)"

definition put_entry :: "string \<Rightarrow> entry \<Rightarrow> registry \<Rightarrow> registry" where
  "put_entry i e r = r\<lparr>reg_entries := (reg_entries r)(i \<mapsto> e)\<rparr>"

definition entry_has_purpose :: "entry \<Rightarrow> purpose \<Rightarrow> bool" where
  "entry_has_purpose e p =
     (if ent_purposes e \<noteq> {} then p \<in> ent_purposes e else rec_purpose (ent_record e) = p)"

definition has_purpose :: "registry \<Rightarrow> string \<Rightarrow> purpose \<Rightarrow> bool" where
  "has_purpose r i p =
     (case reg_entries r i of None \<Rightarrow> False | Some e \<Rightarrow> entry_has_purpose e p)"

definition record_of :: "registry \<Rightarrow> string \<Rightarrow> error + art_record" where
  "record_of r i =
     (case reg_entries r i of
        None \<Rightarrow> Inl (Format ''unknown artifact %q'' [StrArg i])
      | Some e \<Rightarrow> Inr (ent_record e))"

fun records_of :: "registry \<Rightarrow> string list \<Rightarrow> error + art_record list" where
  "records_of r [] = Inr []"
| "records_of r (i # is) =
     (case record_of r i of
        Inl e \<Rightarrow> Inl e
      | Inr x \<Rightarrow> (case records_of r is of Inl e \<Rightarrow> Inl e | Inr xs \<Rightarrow> Inr (x # xs)))"

definition records_by_purpose :: "registry \<Rightarrow> purpose \<Rightarrow> art_record list" where
  "records_by_purpose r p =
     map (\<lambda>i. ent_record (entry_at r i)) (filter (\<lambda>i. has_purpose r i p) (reg_order r))"

section \<open>Path keys\<close>

definition canonical_path :: "'fs os \<Rightarrow> 'fs \<Rightarrow> string \<Rightarrow> string" where
  "canonical_path os fs p =
     (let q = (case os_abs os (clean p) of Inl _ \<Rightarrow> [] | Inr q \<Rightarrow> q)
      in case os_eval_symlinks os fs q of Inr resolved \<Rightarrow> clean resolved | Inl _ \<Rightarrow> q)"

definition scoped_key :: "string \<Rightarrow> string \<Rightarrow> string" where
  "scoped_key workspace p = workspace @ CHR 0x00 # p"

definition path_key :: "'fs os \<Rightarrow> 'fs \<Rightarrow> string \<Rightarrow> string \<Rightarrow> string" where
  "path_key os fs workspace p =
     scoped_key (canonical_path os fs workspace) (canonical_path os fs p)"

definition logical_key :: "'fs os \<Rightarrow> 'fs \<Rightarrow> string \<Rightarrow> string \<Rightarrow> string" where
  "logical_key os fs workspace p =
     scoped_key (canonical_path os fs workspace)
       (case os_abs os (clean p) of Inl _ \<Rightarrow> [] | Inr q \<Rightarrow> q)"

text \<open>The child-index key as \<open>Restore\<close>, \<open>RestoreWorkspace\<close> and \<open>Merge\<close> write it.\<close>

definition child_key :: "'fs os \<Rightarrow> 'fs \<Rightarrow> entry \<Rightarrow> string" where
  "child_key os fs e =
     path_key os fs (ent_workspace e) (ent_root e) @ CHR 0x00 # clean (ent_relative e)"

definition has_child_key :: "entry \<Rightarrow> bool" where
  "has_child_key e \<longleftrightarrow> ent_root e \<noteq> [] \<and> ent_relative e \<noteq> []"

definition absolute_artifact_path :: "'fs os \<Rightarrow> string \<Rightarrow> string \<Rightarrow> error + string" where
  "absolute_artifact_path os workspace p =
     (if blank workspace then Inl (Text ''artifact workspace is required'')
      else if blank p then Inl (Text ''artifact path is required'')
      else (let q = (if \<not> is_abs p then join_path workspace p else p)
            in case os_abs os q of
                 Inl e \<Rightarrow> Inl (Format ''resolve artifact path: %w'' [TextArg e])
               | Inr resolved \<Rightarrow> Inr (clean resolved)))"

definition evidence_path :: "'fs os \<Rightarrow> 'fs \<Rightarrow> string \<Rightarrow> string \<Rightarrow> error + string" where
  "evidence_path os fs workspace p =
     (case absolute_artifact_path os workspace p of
        Inl e \<Rightarrow> Inl e
      | Inr apath \<Rightarrow>
         (case os_eval_symlinks os fs apath of
            Inl e \<Rightarrow> Inl (Format ''resolve evidence path %q: %w'' [StrArg p, TextArg e])
          | Inr resolved \<Rightarrow>
             (case os_eval_symlinks os fs workspace of
                Inl e \<Rightarrow> Inl (Format ''resolve evidence workspace: %w'' [TextArg e])
              | Inr root \<Rightarrow>
                 (if \<not> path_within root resolved
                  then Inl (Format ''evidence path %q is outside the collection workspace'' [StrArg p])
                  else Inr resolved))))"

section \<open>The source header of an evidence file\<close>

fun take_word :: "string \<Rightarrow> string \<times> string" where
  "take_word [] = ([], [])"
| "take_word (c # cs) =
     (if starts_with_any space_runes (c # cs) \<noteq> None then ([], c # cs)
      else (let (w, r) = take_word cs in (c # w, r)))"

lemma take_word_append: "take_word s = (w, r) \<Longrightarrow> s = w @ r"
  by (induction s arbitrary: w r) (auto split: if_splits prod.splits)

lemma take_word_Nil: "take_word s = ([], r) \<Longrightarrow> s = [] \<or> starts_with_any space_runes s \<noteq> None"
  by (cases s) (auto split: if_splits prod.splits)

text \<open>\<open>strings.Fields\<close>.\<close>

function strings_fields :: "string \<Rightarrow> string list" where
  "strings_fields s =
     (let t = trim_left s
      in if t = [] then [] else (let (w, r) = take_word t in w # strings_fields r))"
  by pat_completeness auto
termination
proof (relation "measure length")
  fix s t x w r
  assume t: "t = trim_left s" "t \<noteq> []" and w: "x = take_word t" "(w, r) = x"
  have "starts_with_any space_runes t = None"
    by (simp add: t trim_left_def trim_front_stop)
  with t w have "w \<noteq> []" using take_word_Nil [of t r] by auto
  moreover have "t = w @ r" using w take_word_append [of t w r] by simp
  moreover have "length t \<le> length s"
    using trim_left_suffix [of s] t by (simp add: suffix_length_le)
  ultimately have "length r < length s" by (cases w) auto
  then show "(r, s) \<in> measure length" by simp
qed simp

declare strings_fields.simps [simp del]

definition normalize_source :: "string \<Rightarrow> string" where
  "normalize_source source = join_with CHR '' '' (strings_fields source)"

fun header_value :: "string list \<Rightarrow> string \<Rightarrow> string option" where
  "header_value [] trimmed = None"
| "header_value (p # ps) trimmed =
     (if prefix p trimmed \<and> \<not> blank (drop (length p) trimmed)
      then Some (trim_space (drop (length p) trimmed))
      else header_value ps trimmed)"

fun source_from_lines :: "string list \<Rightarrow> string" where
  "source_from_lines [] = []"
| "source_from_lines (l # ls) =
     (case header_value [''- Source:'', ''- URL:''] (trim_space l) of
        Some v \<Rightarrow> v
      | None \<Rightarrow> source_from_lines ls)"

definition source_from_content :: "string \<Rightarrow> string" where
  "source_from_content content = source_from_lines (take 64 (split_on CHR 0x0A content))"

definition with_source_header :: "string \<Rightarrow> string \<Rightarrow> string" where
  "with_source_header content source =
     (let normalized = normalize_source source
      in if normalized = [] \<or> source_from_content content \<noteq> [] then content
         else ''- Source: '' @ normalized @ [CHR 0x0A, CHR 0x0A] @ content)"

section \<open>Declaring and retaining\<close>

definition declare_artifact ::
    "'fs os \<Rightarrow> 'fs \<Rightarrow> string \<Rightarrow> string \<Rightarrow> declared \<Rightarrow> registry \<Rightarrow> (error + art_record) \<times> registry" where
  "declare_artifact os fs uuid workspace d r =
     (case declared_validate d of
        Some e \<Rightarrow> (Inl e, r)
      | None \<Rightarrow>
     (case absolute_artifact_path os workspace (decl_path d) of
        Inl e \<Rightarrow> (Inl e, r)
      | Inr path \<Rightarrow>
     (let record =
        \<lparr>rec_id = ''artifact-'' @ uuid, rec_name = decl_name d, rec_path = path,
         rec_description = trim_space (decl_description d), rec_kind = KindArtifact,
         rec_type = decl_type d, rec_purpose = PurposeOutput, rec_source = []\<rparr>;
          key = path_key os fs workspace path
      in case reg_paths r key of
           Some existing_id \<Rightarrow>
             (let existing = entry_at r existing_id
              in if rec_type (ent_record existing) \<noteq> rec_type record
                 then (Inl (Format ''artifact path %q is already registered with type %q''
                        [StrArg (decl_path d),
                         StrArg (artifact_type_text (rec_type (ent_record existing)))]), r)
                 else (let updated = existing
                         \<lparr>ent_record := (ent_record existing)
                            \<lparr>rec_name := rec_name record, rec_description := rec_description record,
                             rec_kind := rec_kind record, rec_type := rec_type record\<rparr>,
                          ent_purposes := insert PurposeOutput (ent_purposes existing)\<rparr>
                       in (Inr (ent_record updated), put_entry existing_id updated r)))
         | None \<Rightarrow>
             (Inr record,
              (put_entry (rec_id record)
                 \<lparr>ent_record = record, ent_workspace = workspace, ent_root = [],
                  ent_relative = [], ent_purposes = {PurposeOutput}\<rparr> r)
              \<lparr>reg_order := reg_order r @ [rec_id record],
               reg_paths := (reg_paths r)(key \<mapsto> rec_id record)\<rparr>))))"

definition retain_tool_result :: "string \<Rightarrow> string \<Rightarrow> registry \<Rightarrow> error + registry" where
  "retain_tool_result call_id result r =
     (if blank call_id then Inl (Text ''tool call id is required'')
      else if blank result then Inl (Text ''tool result must not be empty'')
      else (case go_assign call_id result (reg_retained r) of
              Inl e \<Rightarrow> Inl e | Inr m \<Rightarrow> Inr (r\<lparr>reg_retained := m\<rparr>)))"

section \<open>Registering evidence\<close>

text \<open>The part of \<open>RegisterEvidence\<close> under the mutex: finding the path, then the entry.\<close>

definition find_evidence_path ::
    "'fs os \<Rightarrow> 'fs \<Rightarrow> string \<Rightarrow> string \<Rightarrow> string \<Rightarrow> registry \<Rightarrow> string option \<times> registry" where
  "find_evidence_path os fs workspace logical resolved r =
     (let key = path_key os fs workspace resolved
      in case reg_paths r key of
           Some i \<Rightarrow> (Some i, r)
         | None \<Rightarrow>
             (case reg_paths r (logical_key os fs workspace logical) of
                None \<Rightarrow> (None, r)
              | Some i \<Rightarrow> (Some i, r\<lparr>reg_paths := (reg_paths r)(key \<mapsto> i)\<rparr>)))"

definition index_evidence ::
    "'fs os \<Rightarrow> 'fs \<Rightarrow> string \<Rightarrow> string \<Rightarrow> string \<Rightarrow> string \<Rightarrow> string \<Rightarrow> string \<Rightarrow> string \<Rightarrow> registry
       \<Rightarrow> (error + art_record \<times> bool) \<times> registry" where
  "index_evidence os fs uuid workspace path logical resolved source description r0 =
     (case find_evidence_path os fs workspace logical resolved r0 of
        (Some existing_id, r) \<Rightarrow>
          (let existing = entry_at r existing_id; old = ent_record existing
           in if rec_type old \<noteq> ArtFile
              then (Inl (Format ''evidence path %q is not a file artifact'' [StrArg path]), r)
              else if PurposeEvidence \<in> ent_purposes existing then (Inr (old, False), r)
              else (let updated = existing
                      \<lparr>ent_record := old
                         \<lparr>rec_description :=
                            (if rec_description old = [] then trim_space description
                             else rec_description old),
                          rec_path := resolved, rec_source := source,
                          rec_purpose := PurposeEvidence\<rparr>,
                       ent_purposes := insert PurposeEvidence (ent_purposes existing)\<rparr>
                    in (Inr (ent_record updated, True), put_entry (rec_id old) updated r)))
      | (None, r) \<Rightarrow>
          (let record =
             \<lparr>rec_id = ''artifact-'' @ uuid, rec_name = [], rec_path = resolved,
              rec_description = trim_space description, rec_kind = KindArtifact,
              rec_type = ArtFile, rec_purpose = PurposeEvidence, rec_source = source\<rparr>
           in (Inr (record, True),
               (put_entry (rec_id record)
                  \<lparr>ent_record = record, ent_workspace = workspace, ent_root = [],
                   ent_relative = [], ent_purposes = {PurposeEvidence}\<rparr> r)
               \<lparr>reg_order := reg_order r @ [rec_id record],
                reg_paths := (reg_paths r)(path_key os fs workspace resolved \<mapsto> rec_id record)\<rparr>)))"

text \<open>The file checks and the source header, before the mutex is taken.\<close>

definition prepare_evidence ::
    "'fs os \<Rightarrow> string \<Rightarrow> string \<Rightarrow> string \<Rightarrow> 'fs \<Rightarrow> (error + string \<times> string \<times> string) \<times> 'fs" where
  "prepare_evidence os workspace path source fs =
     (case absolute_artifact_path os workspace path of
        Inl e \<Rightarrow> (Inl e, fs)
      | Inr logical \<Rightarrow>
     (case evidence_path os fs workspace path of
        Inl e \<Rightarrow> (Inl e, fs)
      | Inr resolved \<Rightarrow>
     (case os_stat os fs resolved of
        Inl e \<Rightarrow> (Inl (Format ''evidence path %q does not exist: %w'' [StrArg path, TextArg e]), fs)
      | Inr info \<Rightarrow>
         (if fi_dir info then (Inl (Format ''evidence path %q is not a file'' [StrArg path]), fs)
          else if fi_size info = 0 then (Inl (Format ''evidence path %q is empty'' [StrArg path]), fs)
          else (case os_read_file os fs resolved of
             Inl e \<Rightarrow> (Inl (Format ''read evidence path %q: %w'' [StrArg path, TextArg e]), fs)
           | Inr content \<Rightarrow>
              (let prepared = with_source_header content source;
                   ok = (Inr (logical, resolved, source_from_content prepared), fs)
               in if prepared \<noteq> content
                  then (case os_write_file os fs resolved prepared of
                          (Some e, fs') \<Rightarrow>
                            (Inl (Format ''write evidence source header %q: %w'' [StrArg path, TextArg e]), fs')
                        | (None, fs') \<Rightarrow> (Inr (logical, resolved, source_from_content prepared), fs'))
                  else ok))))))"

definition register_evidence ::
    "'fs os \<Rightarrow> string \<Rightarrow> string \<Rightarrow> string \<Rightarrow> string \<Rightarrow> string \<Rightarrow> 'fs \<Rightarrow> registry
       \<Rightarrow> (error + art_record \<times> bool) \<times> 'fs \<times> registry" where
  "register_evidence os uuid workspace path source description fs r =
     (case prepare_evidence os workspace path source fs of
        (Inl e, fs') \<Rightarrow> (Inl e, fs', r)
      | (Inr (logical, resolved, header_source), fs') \<Rightarrow>
          (case index_evidence os fs' uuid workspace path logical resolved header_source description r of
             (res, r') \<Rightarrow> (res, fs', r')))"

text \<open>
  \<open>RegisterRetainedEvidence\<close>: writing the retained result to a fresh file below
  \<^verbatim>\<open>.r42-artifacts\<close>, then registering it; the file is removed again on every failure after
  its creation.
\<close>

definition materialize_retained ::
    "'fs os \<Rightarrow> string \<Rightarrow> string \<Rightarrow> 'fs \<Rightarrow> (error + string) \<times> 'fs" where
  "materialize_retained os workspace content fs0 =
     (let directory = join_path workspace ''.r42-artifacts''
      in case os_mkdir_all os fs0 directory of
           (Some e, fs) \<Rightarrow> (Inl (Format ''create retained artifact directory: %w'' [TextArg e]), fs)
         | (None, fs) \<Rightarrow>
        (case os_create_temp os fs directory ''tool-*.md'' of
           (Inl e, fs) \<Rightarrow> (Inl (Format ''create retained artifact: %w'' [TextArg e]), fs)
         | (Inr path, fs) \<Rightarrow>
        (case os_write_string os fs path content of
           (Some e, fs) \<Rightarrow>
             (Inl (Format ''write retained artifact: %w'' [TextArg e]),
              os_remove os (snd (os_close os fs path)) path)
         | (None, fs) \<Rightarrow>
        (case os_close os fs path of
           (Some e, fs) \<Rightarrow>
             (Inl (Format ''close retained artifact: %w'' [TextArg e]), os_remove os fs path)
         | (None, fs) \<Rightarrow> (Inr path, fs)))))"

definition register_retained_evidence ::
    "'fs os \<Rightarrow> string \<Rightarrow> string \<Rightarrow> string \<Rightarrow> string \<Rightarrow> string \<Rightarrow> 'fs \<Rightarrow> registry
       \<Rightarrow> (error + art_record \<times> bool) \<times> 'fs \<times> registry" where
  "register_retained_evidence os uuid workspace call_id source description fs r =
     (if blank call_id then (Inl (Text ''tool call id is required''), fs, r)
      else (case map_of (go_entries (reg_retained_evidence r)) call_id of
        Some i \<Rightarrow>
          (case record_of r i of
             Inl e \<Rightarrow> (Inl e, fs, r)
           | Inr record \<Rightarrow> (Inr (record, False), fs, r))
      | None \<Rightarrow>
     (case map_of (go_entries (reg_retained r)) call_id of
        None \<Rightarrow> (Inl (Format ''tool call %q was not retained'' [StrArg call_id]), fs, r)
      | Some content \<Rightarrow>
     (case materialize_retained os workspace content fs of
        (Inl e, fs') \<Rightarrow> (Inl e, fs', r)
      | (Inr path, fs') \<Rightarrow>
     (case register_evidence os uuid workspace path source description fs' r of
        (Inl e, fs'', r') \<Rightarrow> (Inl e, os_remove os fs'' path, r')
      | (Inr (record, created), fs'', r') \<Rightarrow>
          (case go_assign call_id (rec_id record) (reg_retained_evidence r') of
             Inl e \<Rightarrow> (Inl e, fs'', r')
           | Inr m \<Rightarrow> (Inr (record, created), fs'', r'\<lparr>reg_retained_evidence := m\<rparr>)))))))"

section \<open>Checkpoints of the registry\<close>

record snapshot_entry =
  se_record :: art_record
  se_workspace :: string
  se_root :: string
  se_relative :: string
  se_purposes :: "purpose list"

record reg_snapshot =
  rs_entries :: "snapshot_entry list"
  rs_retained :: "string go_map"
  rs_retained_evidence :: "string go_map"

definition save_entry :: "entry \<Rightarrow> snapshot_entry" where
  "save_entry e =
     \<lparr>se_record = ent_record e, se_workspace = ent_workspace e, se_root = ent_root e,
      se_relative = ent_relative e, se_purposes = sorted_list_of_set (ent_purposes e)\<rparr>"

definition reg_snapshot_of :: "registry \<Rightarrow> reg_snapshot" where
  "reg_snapshot_of r =
     \<lparr>rs_entries = map (\<lambda>i. save_entry (entry_at r i))
                     (filter (\<lambda>i. reg_entries r i \<noteq> None) (reg_order r)),
      rs_retained = reg_retained r, rs_retained_evidence = reg_retained_evidence r\<rparr>"

definition reg_snapshot_workspace :: "registry \<Rightarrow> string \<Rightarrow> reg_snapshot" where
  "reg_snapshot_workspace r workspace =
     (let s = reg_snapshot_of r
      in s\<lparr>rs_entries := filter (\<lambda>item. clean (se_workspace item) = clean workspace) (rs_entries s)\<rparr>)"

definition load_entry :: "snapshot_entry \<Rightarrow> entry" where
  "load_entry saved =
     \<lparr>ent_record = se_record saved, ent_workspace = se_workspace saved, ent_root = se_root saved,
      ent_relative = se_relative saved,
      ent_purposes = (if set (se_purposes saved) = {} then {rec_purpose (se_record saved)}
                      else set (se_purposes saved))\<rparr>"

text \<open>Adding one entry to all four indexes, as the loops of the restoring methods do.\<close>

definition index_entry :: "'fs os \<Rightarrow> 'fs \<Rightarrow> string \<Rightarrow> entry \<Rightarrow> registry \<Rightarrow> registry" where
  "index_entry os fs i e r =
     (put_entry i e r)
     \<lparr>reg_order := reg_order r @ [i],
      reg_paths := (reg_paths r)(path_key os fs (ent_workspace e) (rec_path (ent_record e)) \<mapsto> i),
      reg_children := (if has_child_key e then (reg_children r)(child_key os fs e \<mapsto> i)
                       else reg_children r)\<rparr>"

text \<open>\<open>Restore\<close> builds fresh indexes before it touches the registry.\<close>

fun stage_entries :: "'fs os \<Rightarrow> 'fs \<Rightarrow> snapshot_entry list \<Rightarrow> registry \<Rightarrow> error + registry" where
  "stage_entries os fs [] r = Inr r"
| "stage_entries os fs (saved # rest) r =
     (let i = rec_id (se_record saved)
      in if blank i then Inl (Text ''artifact snapshot entry id is required'')
         else if reg_entries r i \<noteq> None
         then Inl (Format ''artifact snapshot contains duplicate id %q'' [StrArg i])
         else stage_entries os fs rest (index_entry os fs i (load_entry saved) r))"

definition reg_restore :: "'fs os \<Rightarrow> 'fs \<Rightarrow> reg_snapshot \<Rightarrow> registry \<Rightarrow> error + registry" where
  "reg_restore os fs snap r =
     (case stage_entries os fs (rs_entries snap) new_registry of
        Inl e \<Rightarrow> Inl e
      | Inr staged \<Rightarrow>
          Inr (r\<lparr>reg_entries := reg_entries staged, reg_order := reg_order staged,
                 reg_paths := reg_paths staged, reg_children := reg_children staged,
                 reg_retained := rs_retained snap,
                 reg_retained_evidence := rs_retained_evidence snap\<rparr>))"

text \<open>The \<open>DeleteFunc\<close> loop of \<open>RestoreWorkspace\<close>: one ID of the old order at a time.\<close>

fun drop_workspace :: "'fs os \<Rightarrow> 'fs \<Rightarrow> string \<Rightarrow> string list \<Rightarrow> registry \<Rightarrow> string list \<times> registry" where
  "drop_workspace os fs cleaned [] r = ([], r)"
| "drop_workspace os fs cleaned (i # is) r =
     (let item = entry_at r i
      in if clean (ent_workspace item) \<noteq> cleaned
         then (case drop_workspace os fs cleaned is r of (kept, r') \<Rightarrow> (i # kept, r'))
         else drop_workspace os fs cleaned is
           (r\<lparr>reg_entries := (reg_entries r)(i := None),
              reg_paths := (reg_paths r)
                (path_key os fs (ent_workspace item) (rec_path (ent_record item)) := None),
              reg_children := (if has_child_key item
                               then (reg_children r)(child_key os fs item := None)
                               else reg_children r)\<rparr>))"

definition reg_restore_workspace ::
    "'fs os \<Rightarrow> 'fs \<Rightarrow> string \<Rightarrow> reg_snapshot \<Rightarrow> registry \<Rightarrow> error + registry" where
  "reg_restore_workspace os fs workspace snap r =
     (let cleaned = clean workspace
      in case find (\<lambda>saved. clean (se_workspace saved) \<noteq> cleaned) (rs_entries snap) of
           Some saved \<Rightarrow>
             Inl (Format ''artifact workspace snapshot contains foreign artifact %q''
                   [StrArg (rec_id (se_record saved))])
         | None \<Rightarrow>
        (case reg_restore os fs snap new_registry of
           Inl e \<Rightarrow> Inl e
         | Inr staged \<Rightarrow>
        (case find (\<lambda>i. (case reg_entries r i of
                           None \<Rightarrow> False
                         | Some existing \<Rightarrow> clean (ent_workspace existing) \<noteq> cleaned))
                 (reg_order staged) of
           Some i \<Rightarrow> Inl (Format ''artifact checkpoint conflicts with existing id %q'' [StrArg i])
         | None \<Rightarrow>
             (case drop_workspace os fs cleaned (reg_order r) r of
                (kept, r') \<Rightarrow>
                  Inr (fold (\<lambda>i. index_entry os fs i (entry_at staged i)) (reg_order staged)
                        (r'\<lparr>reg_order := kept\<rparr>))))))"

definition same_entry :: "entry \<Rightarrow> entry \<Rightarrow> bool" where
  "same_entry a b \<longleftrightarrow>
     ent_record a = ent_record b \<and> ent_workspace a = ent_workspace b \<and>
     ent_root a = ent_root b \<and> ent_relative a = ent_relative b \<and>
     ent_purposes a = ent_purposes b"

text \<open>\<open>Merge\<close>: an error leaves what was merged before it, so the registry is returned too.\<close>

definition merge_entry ::
    "'fs os \<Rightarrow> 'fs \<Rightarrow> string \<Rightarrow> entry \<Rightarrow> registry \<Rightarrow> error option \<times> registry" where
  "merge_entry os fs i item r =
     (case reg_entries r i of
        Some existing \<Rightarrow>
          (if \<not> same_entry existing item
           then (Some (Format ''artifact checkpoint conflicts with existing id %q'' [StrArg i]), r)
           else (None, r))
      | None \<Rightarrow>
     (let key = path_key os fs (ent_workspace item) (rec_path (ent_record item))
      in if reg_paths r key \<noteq> None \<and> reg_paths r key \<noteq> Some i
         then (Some (Format ''artifact checkpoint conflicts with existing path %q''
                 [StrArg (rec_path (ent_record item))]), r)
         else
      (let r1 = (put_entry i item r)\<lparr>reg_order := reg_order r @ [i],
                                      reg_paths := (reg_paths r)(key \<mapsto> i)\<rparr>
       in if \<not> has_child_key item then (None, r1)
          else if reg_children r1 (child_key os fs item) \<noteq> None
                  \<and> reg_children r1 (child_key os fs item) \<noteq> Some i
          then (Some (Format ''artifact checkpoint conflicts with existing child path %q''
                  [StrArg (ent_relative item)]), r1)
          else (None, r1\<lparr>reg_children := (reg_children r1)(child_key os fs item \<mapsto> i)\<rparr>))))"

fun merge_entries ::
    "'fs os \<Rightarrow> 'fs \<Rightarrow> registry \<Rightarrow> string list \<Rightarrow> registry \<Rightarrow> error option \<times> registry" where
  "merge_entries os fs staged [] r = (None, r)"
| "merge_entries os fs staged (i # is) r =
     (case merge_entry os fs i (entry_at staged i) r of
        (Some e, r') \<Rightarrow> (Some e, r')
      | (None, r') \<Rightarrow> merge_entries os fs staged is r')"

text \<open>
  The two final loops range over Go maps, whose order is unspecified; the model takes the
  order of the association list.
\<close>

fun merge_pairs :: "string \<Rightarrow> (string \<times> string) list \<Rightarrow> string go_map \<Rightarrow> error option \<times> string go_map" where
  "merge_pairs fmt [] m = (None, m)"
| "merge_pairs fmt ((i, v) # rest) m =
     (if map_of (go_entries m) i \<noteq> None \<and> map_of (go_entries m) i \<noteq> Some v
      then (Some (Format fmt [StrArg i]), m)
      else (case go_assign i v m of
              Inl e \<Rightarrow> (Some e, m)
            | Inr m' \<Rightarrow> merge_pairs fmt rest m'))"

definition reg_merge :: "'fs os \<Rightarrow> 'fs \<Rightarrow> reg_snapshot \<Rightarrow> registry \<Rightarrow> error option \<times> registry" where
  "reg_merge os fs snap r =
     (case reg_restore os fs snap new_registry of
        Inl e \<Rightarrow> (Some e, r)
      | Inr staged \<Rightarrow>
     (case merge_entries os fs staged (reg_order staged) r of
        (Some e, r1) \<Rightarrow> (Some e, r1)
      | (None, r1) \<Rightarrow>
     (case merge_pairs ''artifact checkpoint conflicts with retained result %q''
             (go_entries (reg_retained staged)) (reg_retained r1) of
        (Some e, m) \<Rightarrow> (Some e, r1\<lparr>reg_retained := m\<rparr>)
      | (None, m) \<Rightarrow>
     (case merge_pairs ''artifact checkpoint conflicts with retained evidence %q''
             (go_entries (reg_retained_evidence staged)) (reg_retained_evidence r1) of
        (e, m') \<Rightarrow> (e, r1\<lparr>reg_retained := m, reg_retained_evidence := m'\<rparr>)))))"

section \<open>The invariant\<close>

definition entry_ok :: "string \<Rightarrow> entry \<Rightarrow> bool" where
  "entry_ok i e \<longleftrightarrow>
     \<not> blank i \<and> rec_id (ent_record e) = i \<and> ent_purposes e \<noteq> {} \<and> finite (ent_purposes e)"

definition reg_inv :: "registry \<Rightarrow> bool" where
  "reg_inv r \<longleftrightarrow>
     distinct (reg_order r) \<and> set (reg_order r) = dom (reg_entries r) \<and>
     (\<forall>i e. reg_entries r i = Some e \<longrightarrow> entry_ok i e)"

lemma not_blank_artifact_id [simp]: "\<not> blank (''artifact-'' @ uuid)"
  by (rule not_blank_head) (simp_all add: space_heads_def)

lemma not_blank_artifact_id' [simp]:
  "\<not> blank (CHR ''a'' # CHR ''r'' # CHR ''t'' # CHR ''i'' # CHR ''f'' # CHR ''a'' # CHR ''c''
     # CHR ''t'' # CHR ''-'' # uuid)"
  using not_blank_artifact_id [of uuid] by simp

lemma reg_inv_cong:
  "reg_entries r = reg_entries r' \<Longrightarrow> reg_order r = reg_order r' \<Longrightarrow> reg_inv r = reg_inv r'"
  by (simp add: reg_inv_def)

lemma put_entry_simps [simp]:
  "reg_entries (put_entry i e r) = (reg_entries r)(i \<mapsto> e)"
  "reg_order (put_entry i e r) = reg_order r"
  "reg_paths (put_entry i e r) = reg_paths r"
  "reg_children (put_entry i e r) = reg_children r"
  "reg_retained (put_entry i e r) = reg_retained r"
  "reg_retained_evidence (put_entry i e r) = reg_retained_evidence r"
  by (simp_all add: put_entry_def)

lemma reg_inv_new [simp]: "reg_inv new_registry"
  by (simp add: reg_inv_def new_registry_def)

lemma reg_inv_update:
  "reg_inv r \<Longrightarrow> reg_entries r i \<noteq> None \<Longrightarrow> entry_ok i e \<Longrightarrow> reg_inv (put_entry i e r)"
  by (auto simp: reg_inv_def)

lemma reg_inv_add:
  "reg_inv r \<Longrightarrow> reg_entries r i = None \<Longrightarrow> entry_ok i e \<Longrightarrow>
     reg_entries r' = (reg_entries r)(i \<mapsto> e) \<Longrightarrow> reg_order r' = reg_order r @ [i] \<Longrightarrow> reg_inv r'"
  by (auto simp: reg_inv_def)

lemma entry_at_eq [simp]: "reg_entries r i = Some e \<Longrightarrow> entry_at r i = e"
  by (simp add: entry_at_def)

lemma reg_inv_entry: "reg_inv r \<Longrightarrow> reg_entries r i = Some e \<Longrightarrow> entry_ok i e"
  by (simp add: reg_inv_def)

lemma zero_entry_type [simp]: "rec_type (ent_record zero_entry) = ArtOther []"
  by (simp add: zero_entry_def)

lemma entry_at_type:
  "rec_type (ent_record (entry_at r i)) \<noteq> ArtOther [] \<Longrightarrow> reg_entries r i \<noteq> None"
  by (auto simp: entry_at_def split: option.splits)

lemma declared_validate_type:
  "declared_validate d = None \<Longrightarrow> decl_type d = ArtFile \<or> decl_type d = ArtDirectory"
  by (auto simp: declared_validate_def split: if_splits)

lemma declare_cases:
  assumes "declare_artifact os fs uuid ws d r = (res, r')"
  obtains (failed) e where "res = Inl e" "r' = r"
  | (known) i e where "reg_entries r i = Some e" "r' = put_entry i (e\<lparr>ent_record := (ent_record e)
         \<lparr>rec_name := decl_name d, rec_description := trim_space (decl_description d),
          rec_kind := KindArtifact, rec_type := decl_type d\<rparr>,
         ent_purposes := insert PurposeOutput (ent_purposes e)\<rparr>) r"
      "res = Inr (ent_record (entry_at r' i))"
  | (fresh) e path where "ent_purposes e = {PurposeOutput}" "rec_id (ent_record e) = ''artifact-'' @ uuid"
      "r' = (put_entry (''artifact-'' @ uuid) e r)
         \<lparr>reg_order := reg_order r @ [''artifact-'' @ uuid],
          reg_paths := (reg_paths r)(path_key os fs ws path \<mapsto> ''artifact-'' @ uuid)\<rparr>"
      "res = Inr (ent_record e)"
proof (cases "declared_validate d")
  case (Some e)
  with assms show ?thesis by (auto simp: declare_artifact_def intro: failed)
next
  case None
  note kinds = declared_validate_type [OF None]
  show ?thesis
  proof (cases "absolute_artifact_path os ws (decl_path d)")
    case (Inl e)
    with assms None show ?thesis by (auto simp: declare_artifact_def intro: failed)
  next
    case (Inr path)
    show ?thesis
    proof (cases "reg_paths r (path_key os fs ws path)")
      case None
      with assms Inr \<open>declared_validate d = None\<close> show ?thesis
        by (auto simp: declare_artifact_def Let_def intro!: fresh)
    next
      case (Some i)
      show ?thesis
      proof (cases "rec_type (ent_record (entry_at r i)) = decl_type d")
        case False
        with assms Inr Some \<open>declared_validate d = None\<close> show ?thesis
          by (auto simp: declare_artifact_def Let_def intro: failed)
      next
        case True
        with kinds have "reg_entries r i \<noteq> None" by (intro entry_at_type) auto
        then obtain e where "reg_entries r i = Some e" by auto
        with assms Inr Some True \<open>declared_validate d = None\<close> show ?thesis
          by (auto simp: declare_artifact_def Let_def intro!: known)
      qed
    qed
  qed
qed

definition evidence_ids :: "registry \<Rightarrow> string set" where
  "evidence_ids r = {i. has_purpose r i PurposeEvidence}"

lemma has_purpose_inv:
  "reg_inv r \<Longrightarrow> has_purpose r i p \<longleftrightarrow> (\<exists>e. reg_entries r i = Some e \<and> p \<in> ent_purposes e)"
  by (auto simp: has_purpose_def entry_has_purpose_def entry_ok_def dest: reg_inv_entry split: option.splits)

lemma declare_inv [inv_intros]:
  assumes "reg_inv r" and "reg_entries r (''artifact-'' @ uuid) = None"
    and "declare_artifact os fs uuid ws d r = (res, r')"
  shows "reg_inv r'"
  using assms(3)
proof (cases rule: declare_cases)
  case (known i e)
  with assms(1) reg_inv_entry [OF assms(1) known(1)] show ?thesis
    by (auto intro!: reg_inv_update simp: entry_ok_def)
next
  case (fresh e path)
  then show ?thesis
    using reg_inv_add [OF assms(1,2), of e r'] by (simp add: entry_ok_def)
qed (use assms in simp)

lemma evidence_ids_update:
  assumes "reg_entries r' = (reg_entries r)(i \<mapsto> e)" and "ent_purposes e \<noteq> {}"
  shows "evidence_ids r' =
    (if PurposeEvidence \<in> ent_purposes e then insert i (evidence_ids r) else evidence_ids r - {i})"
  using assms by (auto simp: evidence_ids_def has_purpose_def entry_has_purpose_def)

lemma evidence_ids_cong: "reg_entries r' = reg_entries r \<Longrightarrow> evidence_ids r' = evidence_ids r"
  by (simp add: evidence_ids_def has_purpose_def)

lemma evidence_ids_known:
  assumes "reg_inv r" and "reg_entries r i = Some e"
  shows "i \<in> evidence_ids r \<longleftrightarrow> PurposeEvidence \<in> ent_purposes e"
  using assms by (simp add: evidence_ids_def has_purpose_inv)

lemma evidence_ids_unknown: "reg_entries r i = None \<Longrightarrow> i \<notin> evidence_ids r"
  by (simp add: evidence_ids_def has_purpose_def)

lemma declare_evidence_ids:
  assumes "reg_inv r" and "reg_entries r (''artifact-'' @ uuid) = None"
    and "declare_artifact os fs uuid ws d r = (res, r')"
  shows "evidence_ids r' = evidence_ids r"
  using assms(3)
proof (cases rule: declare_cases)
  case (known i e)
  define e' where "e' = e\<lparr>ent_record := (ent_record e)
         \<lparr>rec_name := decl_name d, rec_description := trim_space (decl_description d),
          rec_kind := KindArtifact, rec_type := decl_type d\<rparr>,
         ent_purposes := insert PurposeOutput (ent_purposes e)\<rparr>"
  have "evidence_ids r' = (if PurposeEvidence \<in> ent_purposes e'
      then insert i (evidence_ids r) else evidence_ids r - {i})"
    by (rule evidence_ids_update) (simp_all add: known e'_def)
  then have "evidence_ids r' = (if PurposeEvidence \<in> ent_purposes e
      then insert i (evidence_ids r) else evidence_ids r - {i})" by (simp add: e'_def)
  with evidence_ids_known [OF assms(1) known(1)] show ?thesis by auto
next
  case (fresh e path)
  with evidence_ids_unknown [OF assms(2)] evidence_ids_update [of r' r _ e] show ?thesis by auto
qed simp

lemma find_evidence_path_frame:
  "find_evidence_path os fs ws logical resolved r = (found, r') \<Longrightarrow>
     reg_entries r' = reg_entries r \<and> reg_order r' = reg_order r"
  by (auto simp: find_evidence_path_def Let_def split: option.splits)

lemma index_evidence_cases:
  assumes "index_evidence os fs uuid ws path logical resolved source description r = (res, r')"
    and inv: "reg_inv r"
  obtains (unchanged) "reg_entries r' = reg_entries r" "reg_order r' = reg_order r"
      "\<forall>rec created. res = Inr (rec, created) \<longrightarrow> \<not> created \<and> rec_id rec \<in> evidence_ids r"
  | (known) i e e' where "reg_entries r i = Some e" "PurposeEvidence \<notin> ent_purposes e"
      "reg_entries r' = (reg_entries r)(i \<mapsto> e')" "reg_order r' = reg_order r"
      "ent_purposes e' = insert PurposeEvidence (ent_purposes e)" "rec_id (ent_record e') = i"
      "res = Inr (ent_record e', True)"
  | (fresh) e where "ent_purposes e = {PurposeEvidence}"
      "rec_id (ent_record e) = ''artifact-'' @ uuid"
      "reg_entries r' = (reg_entries r)(''artifact-'' @ uuid \<mapsto> e)"
      "reg_order r' = reg_order r @ [''artifact-'' @ uuid]"
      "res = Inr (ent_record e, True)"
proof -
  obtain found r1 where f: "find_evidence_path os fs ws logical resolved r = (found, r1)"
    by (cases "find_evidence_path os fs ws logical resolved r")
  note frame = find_evidence_path_frame [OF f]
  show ?thesis
  proof (cases found)
    case None
    with assms(1) f frame show ?thesis by (auto simp: index_evidence_def Let_def intro!: fresh)
  next
    case (Some i)
    show ?thesis
    proof (cases "rec_type (ent_record (entry_at r1 i)) = ArtFile")
      case False
      with assms(1) f frame Some show ?thesis
        by (auto simp: index_evidence_def Let_def intro!: unchanged)
    next
      case True
      then have "reg_entries r1 i \<noteq> None" by (intro entry_at_type) auto
      then obtain e where e: "reg_entries r i = Some e" "entry_at r1 i = e"
        using frame by auto
      with inv have ok: "rec_id (ent_record e) = i" "ent_purposes e \<noteq> {}"
        by (auto dest: reg_inv_entry simp: entry_ok_def)
      show ?thesis
      proof (cases "PurposeEvidence \<in> ent_purposes e")
        case True': True
        with assms(1) f frame Some True e ok show ?thesis
          by (intro unchanged) (auto simp: index_evidence_def Let_def evidence_ids_def has_purpose_inv [OF inv])
      next
        case False
        with assms(1) f frame Some True e ok show ?thesis
          by (auto simp: index_evidence_def Let_def intro!: known)
      qed
    qed
  qed
qed

lemma index_evidence_inv:
  assumes "reg_inv r" and "reg_entries r (''artifact-'' @ uuid) = None"
    and "index_evidence os fs uuid ws path logical resolved source description r = (res, r')"
  shows "reg_inv r'"
  using assms(3,1)
proof (cases rule: index_evidence_cases)
  case (known i e e')
  with reg_inv_entry [OF assms(1) known(1)] reg_inv_update [OF assms(1), of i e']
  show ?thesis
    by (auto simp: entry_ok_def elim!: reg_inv_cong [THEN iffD1, rotated -1])
next
  case (fresh e)
  then show ?thesis using reg_inv_add [OF assms(1,2), of e r'] by (simp add: entry_ok_def)
qed (use assms(1) reg_inv_cong in blast)

text \<open>
  What a caller may rely on: the created flag is set exactly when the returned ID was not
  evidence before and is now; every other outcome leaves the set of evidence IDs alone.
\<close>

lemma index_evidence_effect:
  assumes "reg_inv r" and "reg_entries r (''artifact-'' @ uuid) = None"
    and "index_evidence os fs uuid ws path logical resolved source description r = (res, r')"
  shows "(case res of
            Inr (rec, True) \<Rightarrow> rec_id rec \<notin> evidence_ids r \<and>
                               evidence_ids r' = insert (rec_id rec) (evidence_ids r)
          | Inr (rec, False) \<Rightarrow> rec_id rec \<in> evidence_ids r \<and> evidence_ids r' = evidence_ids r
          | Inl _ \<Rightarrow> evidence_ids r' = evidence_ids r)"
  using assms(3,1)
proof (cases rule: index_evidence_cases)
  case unchanged
  with evidence_ids_cong [of r' r] show ?thesis by (auto split: sum.splits bool.splits)
next
  case (known i e e')
  with evidence_ids_known [OF assms(1) known(1)] evidence_ids_update [of r' r i e']
  show ?thesis by simp
next
  case (fresh e)
  with evidence_ids_unknown [OF assms(2)] evidence_ids_update [of r' r _ e] show ?thesis by simp
qed

text \<open>The two registration operations inherit the law of \<open>index_evidence\<close>.\<close>

definition registration_effect ::
    "(error + art_record \<times> bool) \<Rightarrow> registry \<Rightarrow> registry \<Rightarrow> bool" where
  "registration_effect res r r' \<longleftrightarrow>
     (case res of
        Inr (rec, True) \<Rightarrow> rec_id rec \<notin> evidence_ids r \<and>
                           evidence_ids r' = insert (rec_id rec) (evidence_ids r)
      | Inr (rec, False) \<Rightarrow> evidence_ids r' = evidence_ids r
      | Inl _ \<Rightarrow> evidence_ids r' = evidence_ids r)"

lemma registration_effect_simps [simp]:
  "registration_effect (Inl e) r r' \<longleftrightarrow> evidence_ids r' = evidence_ids r"
  "registration_effect (Inr (rec, False)) r r' \<longleftrightarrow> evidence_ids r' = evidence_ids r"
  "registration_effect (Inr (rec, True)) r r' \<longleftrightarrow>
     rec_id rec \<notin> evidence_ids r \<and> evidence_ids r' = insert (rec_id rec) (evidence_ids r)"
  by (simp_all add: registration_effect_def)

lemma registration_effect_other:
  "registration_effect res r r' \<Longrightarrow> \<nexists>rec. res = Inr (rec, True) \<Longrightarrow> evidence_ids r' = evidence_ids r"
  by (auto simp: registration_effect_def split: sum.splits prod.splits bool.splits)

lemma registration_effect_cong:
  "evidence_ids r1 = evidence_ids r2 \<Longrightarrow> registration_effect res r r1 = registration_effect res r r2"
  by (auto simp: registration_effect_def split: sum.splits prod.splits bool.splits)

lemma register_evidence_cases:
  assumes "register_evidence os uuid ws path source description fs r = (res, fs', r')"
  obtains (failed) e where "res = Inl e" "r' = r"
  | (indexed) fs1 logical resolved header_source where
      "prepare_evidence os ws path source fs = (Inr (logical, resolved, header_source), fs1)"
      "index_evidence os fs1 uuid ws path logical resolved header_source description r = (res, r')"
  using assms
  by (auto simp: register_evidence_def split: prod.splits sum.splits intro: failed indexed)

lemma register_evidence_keeps:
  assumes "reg_inv r" and "reg_entries r (''artifact-'' @ uuid) = None"
    and "register_evidence os uuid ws path source description fs r = (res, fs', r')"
  shows "reg_inv r' \<and> registration_effect res r r'"
  using assms(3)
proof (cases rule: register_evidence_cases)
  case (indexed fs1 logical resolved header_source)
  with index_evidence_inv [OF assms(1,2)] index_evidence_effect [OF assms(1,2) indexed(2)]
  show ?thesis by (auto simp: registration_effect_def split: sum.splits bool.splits)
qed (use assms(1) in simp)

lemma register_evidence_retained:
  "register_evidence os uuid ws path source description fs r = (res, fs', r') \<Longrightarrow>
     reg_retained r' = reg_retained r \<and> reg_retained_evidence r' = reg_retained_evidence r"
  by (auto simp: register_evidence_def index_evidence_def find_evidence_path_def Let_def
      split: prod.splits sum.splits option.splits if_splits)

lemma register_retained_cases:
  assumes "register_retained_evidence os uuid ws call source description fs r = (res, fs', r')"
  obtains (failed) e where "res = Inl e" "r' = r"
  | (again) i rec where "map_of (go_entries (reg_retained_evidence r)) call = Some i" "record_of r i = Inr rec"
      "res = Inr (rec, False)" "r' = r" "fs' = fs"
  | (registered) path fs1 res1 fs2 r1 where
      "register_evidence os uuid ws path source description fs1 r = (res1, fs2, r1)"
      "res = res1 \<or> reg_retained_evidence r = None"
      "reg_entries r' = reg_entries r1" "reg_order r' = reg_order r1" "reg_retained r' = reg_retained r1"
      "reg_retained_evidence r' = None \<longleftrightarrow> reg_retained_evidence r = None"
proof (cases "blank call")
  case True
  with assms show ?thesis by (auto simp: register_retained_evidence_def intro: failed)
next
  case live: False
  show ?thesis
  proof (cases "map_of (go_entries (reg_retained_evidence r)) call")
    case (Some i)
    with assms live show ?thesis
      by (cases "record_of r i") (auto simp: register_retained_evidence_def intro: failed again)
  next
    case new: None
    show ?thesis
    proof (cases "map_of (go_entries (reg_retained r)) call")
      case None
      with assms live new show ?thesis
        by (auto simp: register_retained_evidence_def intro: failed)
    next
      case (Some content)
      obtain m fs1 where m: "materialize_retained os ws content fs = (m, fs1)" by force
      show ?thesis
      proof (cases m)
        case (Inl e)
        with assms live new Some m show ?thesis
          by (auto simp: register_retained_evidence_def intro: failed)
      next
        case (Inr path)
        obtain res1 fs2 r1 where reg:
          "register_evidence os uuid ws path source description fs1 r = (res1, fs2, r1)"
          by (metis prod_cases3)
        from assms live new Some m Inr reg register_evidence_retained [OF reg] show ?thesis
          by (intro registered [OF reg])
             (auto simp: register_retained_evidence_def go_assign_def split: sum.splits prod.splits option.splits)
      qed
    qed
  qed
qed

text \<open>The maps are made unless \<open>Restore\<close> has installed a nil one.\<close>

definition maps_made :: "registry \<Rightarrow> bool" where
  "maps_made r \<longleftrightarrow> reg_retained r \<noteq> None \<and> reg_retained_evidence r \<noteq> None"

definition reg_ready :: "registry \<Rightarrow> bool" where
  "reg_ready r \<longleftrightarrow> reg_inv r \<and> maps_made r"

lemma reg_ready_new [simp]: "reg_ready new_registry"
  by (simp add: reg_ready_def maps_made_def) (simp add: new_registry_def)

lemma register_retained_inv:
  assumes "reg_inv r" and "reg_entries r (''artifact-'' @ uuid) = None"
    and "register_retained_evidence os uuid ws call source description fs r = (res, fs', r')"
  shows "reg_inv r'"
  using assms(3)
proof (cases rule: register_retained_cases)
  case (registered path fs1 res1 fs2 r1)
  with register_evidence_keeps [OF assms(1,2) registered(1)] reg_inv_cong [of r' r1] show ?thesis by simp
qed (use assms(1) in simp_all)

lemma register_retained_keeps:
  assumes "reg_ready r" and "reg_entries r (''artifact-'' @ uuid) = None"
    and "register_retained_evidence os uuid ws call source description fs r = (res, fs', r')"
  shows "reg_ready r' \<and> registration_effect res r r'"
  using assms(3)
proof (cases rule: register_retained_cases)
  case (registered path fs1 res1 fs2 r1)
  have inv: "reg_inv r" "maps_made r" using assms(1) by (simp_all add: reg_ready_def)
  with registered(2) have "res = res1" by (auto simp: maps_made_def)
  moreover have "maps_made r'"
    using inv(2) registered(5,6) register_evidence_retained [OF registered(1)] by (simp add: maps_made_def)
  ultimately show ?thesis
    using register_evidence_keeps [OF inv(1) assms(2) registered(1)]
      register_retained_inv [OF inv(1) assms(2,3)]
      registration_effect_cong [OF evidence_ids_cong [OF registered(3)]]
    by (simp add: reg_ready_def)
qed (use assms(1) in simp_all)

lemma register_evidence_ready:
  assumes "reg_ready r" and "reg_entries r (''artifact-'' @ uuid) = None"
    and "register_evidence os uuid ws path source description fs r = (res, fs', r')"
  shows "reg_ready r' \<and> registration_effect res r r'"
  using assms(1) register_evidence_keeps [OF _ assms(2,3)] register_evidence_retained [OF assms(3)]
  by (auto simp: reg_ready_def maps_made_def)

section \<open>Lemmas on restoring and merging\<close>

lemma index_entry_simps [simp]:
  "reg_entries (index_entry os fs i e r) = (reg_entries r)(i \<mapsto> e)"
  "reg_order (index_entry os fs i e r) = reg_order r @ [i]"
  "reg_retained (index_entry os fs i e r) = reg_retained r"
  "reg_retained_evidence (index_entry os fs i e r) = reg_retained_evidence r"
  by (simp_all add: index_entry_def)

lemma reg_inv_index_entry [inv_intros]:
  "reg_inv r \<Longrightarrow> reg_entries r i = None \<Longrightarrow> entry_ok i e \<Longrightarrow> reg_inv (index_entry os fs i e r)"
  by (rule reg_inv_add) auto

lemma load_entry_ok:
  "\<not> blank (rec_id (se_record saved)) \<Longrightarrow> entry_ok (rec_id (se_record saved)) (load_entry saved)"
  by (simp add: entry_ok_def load_entry_def)

lemma load_save_entry: "entry_ok i e \<Longrightarrow> load_entry (save_entry e) = e"
  by (simp add: entry_ok_def load_entry_def save_entry_def)

lemma stage_entries_inv:
  "stage_entries os fs saved r = Inr r' \<Longrightarrow> reg_inv r \<Longrightarrow> reg_inv r'"
proof (induction saved arbitrary: r)
  case (Cons saved rest)
  then show ?case
    by (auto simp: Let_def split: if_splits intro: reg_inv_index_entry load_entry_ok)
qed simp

lemma stage_entries_contents:
  "stage_entries os fs saved r = Inr r' \<Longrightarrow>
     reg_order r' = reg_order r @ map (\<lambda>item. rec_id (se_record item)) saved \<and>
     (\<forall>i e. reg_entries r' i = Some e \<longrightarrow> reg_entries r i = Some e \<or> e \<in> load_entry ` set saved)"
proof (induction saved arbitrary: r)
  case (Cons saved rest)
  let ?r = "index_entry os fs (rec_id (se_record saved)) (load_entry saved) r"
  from Cons.prems have "stage_entries os fs rest ?r = Inr r'"
    by (auto simp: Let_def split: if_splits)
  from Cons.IH [OF this] show ?case by (auto split: if_splits)
qed simp

lemma reg_restore_inv [inv_intros]: "reg_restore os fs snap r = Inr r' \<Longrightarrow> reg_inv r'"
  unfolding reg_restore_def
  by (auto split: sum.splits dest!: stage_entries_inv [OF _ reg_inv_new]
      elim!: reg_inv_cong [THEN iffD1, rotated 2])

lemma reg_restore_indexes:
  assumes "reg_restore os fs snap r = Inr r1" and "reg_restore os fs snap r' = Inr r2"
  shows "reg_entries r1 = reg_entries r2" and "reg_order r1 = reg_order r2"
  using assms by (auto simp: reg_restore_def split: sum.splits)

text \<open>Staging the entries of a consistent registry rebuilds them in order.\<close>

lemma stage_entries_saved:
  assumes "\<forall>i \<in> set is. reg_entries r i = None" and "distinct is"
    and "\<forall>i \<in> set is. reg_entries s i \<noteq> None \<and> entry_ok i (entry_at s i)"
  shows "\<exists>r'. stage_entries os fs (map (\<lambda>i. save_entry (entry_at s i)) is) r = Inr r' \<and>
           reg_order r' = reg_order r @ is \<and>
           reg_entries r' = (\<lambda>i. if i \<in> set is then reg_entries s i else reg_entries r i)"
  using assms
proof (induction "is" arbitrary: r)
  case (Cons i "is")
  then obtain e where e: "reg_entries s i = Some e" "entry_ok i e" "i \<notin> set is" by auto
  then have ids: "rec_id (se_record (save_entry e)) = i" "\<not> blank i"
    by (simp_all add: entry_ok_def save_entry_def)
  let ?r = "index_entry os fs i e r"
  have "\<exists>r'. stage_entries os fs (map (\<lambda>i. save_entry (entry_at s i)) is) ?r = Inr r' \<and>
           reg_order r' = reg_order ?r @ is \<and>
           reg_entries r' = (\<lambda>i. if i \<in> set is then reg_entries s i else reg_entries ?r i)"
    by (rule Cons.IH) (use Cons.prems e in auto)
  with e ids Cons.prems show ?case by (auto simp: load_save_entry fun_eq_iff)
qed (simp add: fun_eq_iff)

lemma reg_inv_filter_order: "reg_inv r \<Longrightarrow> filter (\<lambda>i. \<exists>e. reg_entries r i = Some e) (reg_order r) = reg_order r"
  by (auto simp: reg_inv_def filter_id_conv)

lemma reg_restore_saved:
  assumes "reg_inv s"
  obtains r' where "reg_restore os fs (reg_snapshot_of s) r = Inr r'"
    "reg_order r' = reg_order s" "reg_entries r' = reg_entries s"
    "reg_retained r' = reg_retained s" "reg_retained_evidence r' = reg_retained_evidence s"
proof -
  have "\<exists>r'. stage_entries os fs (map (\<lambda>i. save_entry (entry_at s i)) (reg_order s)) new_registry = Inr r' \<and>
           reg_order r' = reg_order new_registry @ reg_order s \<and>
           reg_entries r' = (\<lambda>i. if i \<in> set (reg_order s) then reg_entries s i
                                  else reg_entries new_registry i)"
    by (rule stage_entries_saved)
       (use assms reg_inv_entry [OF assms] in \<open>auto simp: reg_inv_def new_registry_def\<close>)
  then obtain r1 where "stage_entries os fs (map (\<lambda>i. save_entry (entry_at s i)) (reg_order s)) new_registry = Inr r1"
      "reg_order r1 = reg_order s" "reg_entries r1 = reg_entries s"
    using assms by (fastforce simp: new_registry_def reg_inv_def fun_eq_iff)
  then show thesis
    using that by (simp add: reg_restore_def reg_snapshot_of_def reg_inv_filter_order [OF assms])
qed

text \<open>What \<open>RestoreWorkspace\<close> drops, and what it puts back.\<close>

definition owned_by :: "string \<Rightarrow> entry \<Rightarrow> bool" where
  "owned_by workspace e \<longleftrightarrow> clean (ent_workspace e) = clean workspace"

lemma drop_workspace_effect:
  assumes "drop_workspace os fs (clean ws) is r = (kept, r')" and "distinct is"
  shows "kept = filter (\<lambda>i. \<not> owned_by ws (entry_at r i)) is \<and>
    reg_entries r' = (\<lambda>i. if i \<in> set is \<and> owned_by ws (entry_at r i) then None else reg_entries r i) \<and>
    reg_retained r' = reg_retained r \<and> reg_retained_evidence r' = reg_retained_evidence r"
  using assms
proof (induction "is" arbitrary: r kept r')
  case (Cons i "is")
  show ?case
  proof (cases "owned_by ws (entry_at r i)")
    case False
    with Cons.prems obtain kept1 where
      rest: "drop_workspace os fs (clean ws) is r = (kept1, r')" "kept = i # kept1"
      by (auto simp: owned_by_def Let_def split: prod.splits)
    with Cons.IH [OF rest(1)] Cons.prems(2) False show ?thesis by (auto simp: fun_eq_iff)
  next
    case True
    define r1 where "r1 = r\<lparr>reg_entries := (reg_entries r)(i := None),
         reg_paths := (reg_paths r)
           (path_key os fs (ent_workspace (entry_at r i)) (rec_path (ent_record (entry_at r i))) := None),
         reg_children := (if has_child_key (entry_at r i)
                          then (reg_children r)(child_key os fs (entry_at r i) := None)
                          else reg_children r)\<rparr>"
    have r1: "reg_entries r1 = (reg_entries r)(i := None)" "reg_retained r1 = reg_retained r"
        "reg_retained_evidence r1 = reg_retained_evidence r"
      by (simp_all add: r1_def)
    have at: "entry_at r1 j = (if j = i then zero_entry else entry_at r j)" for j
      by (simp add: r1 entry_at_def)
    from Cons.prems True have rest: "drop_workspace os fs (clean ws) is r1 = (kept, r')"
      by (simp add: owned_by_def r1_def Let_def)
    have "filter (\<lambda>j. \<not> owned_by ws (entry_at r1 j)) is = filter (\<lambda>j. \<not> owned_by ws (entry_at r j)) is"
      using Cons.prems(2) by (intro filter_cong) (auto simp: at)
    with Cons.IH [OF rest] Cons.prems(2) True show ?thesis
      by (auto simp: fun_eq_iff at r1)
  qed
qed auto

lemma index_all_effect:
  assumes "distinct is" and "\<forall>i \<in> set is. reg_entries r i = None \<and> entry_ok i (f i)" and "reg_inv r"
  shows "reg_inv (fold (\<lambda>i. index_entry os fs i (f i)) is r) \<and>
    reg_order (fold (\<lambda>i. index_entry os fs i (f i)) is r) = reg_order r @ is \<and>
    reg_entries (fold (\<lambda>i. index_entry os fs i (f i)) is r) =
      (\<lambda>i. if i \<in> set is then Some (f i) else reg_entries r i)"
  using assms
proof (induction "is" arbitrary: r)
  case (Cons i "is")
  let ?r = "index_entry os fs i (f i) r"
  have "reg_inv ?r" using Cons.prems by (simp add: reg_inv_index_entry)
  moreover have "\<forall>j \<in> set is. reg_entries ?r j = None \<and> entry_ok j (f j)"
    using Cons.prems by auto
  ultimately have "reg_inv (fold (\<lambda>i. index_entry os fs i (f i)) is ?r) \<and>
    reg_order (fold (\<lambda>i. index_entry os fs i (f i)) is ?r) = reg_order ?r @ is \<and>
    reg_entries (fold (\<lambda>i. index_entry os fs i (f i)) is ?r) =
      (\<lambda>i. if i \<in> set is then Some (f i) else reg_entries ?r i)"
    using Cons.prems by (intro Cons.IH) simp_all
  with Cons.prems(1) show ?case by (auto simp: fun_eq_iff)
qed (auto simp: fun_eq_iff)

lemma restore_workspace_effect:
  assumes "reg_inv r" and "reg_restore_workspace os fs ws snap r = Inr r'"
  obtains staged where "reg_restore os fs snap new_registry = Inr staged"
    "reg_inv r'"
    "reg_order r' = filter (\<lambda>i. \<not> owned_by ws (entry_at r i)) (reg_order r) @ reg_order staged"
    "reg_entries r' = (\<lambda>i. if reg_entries staged i \<noteq> None then reg_entries staged i
       else if owned_by ws (entry_at r i) then None else reg_entries r i)"
proof -
  from assms(2) obtain staged where st: "reg_restore os fs snap new_registry = Inr staged"
    and free: "find (\<lambda>i. (case reg_entries r i of None \<Rightarrow> False
                 | Some existing \<Rightarrow> clean (ent_workspace existing) \<noteq> clean ws)) (reg_order staged) = None"
    by (auto simp: reg_restore_workspace_def Let_def split: option.splits sum.splits)
  note sinv = reg_restore_inv [OF st]
  obtain kept r1 where drop: "drop_workspace os fs (clean ws) (reg_order r) r = (kept, r1)" by force
  have r': "r' = fold (\<lambda>i. index_entry os fs i (entry_at staged i)) (reg_order staged)
                   (r1\<lparr>reg_order := kept\<rparr>)" (is "_ = fold _ _ ?r2")
    using assms(2) st free drop
    by (auto simp: reg_restore_workspace_def Let_def split: option.splits)
  have order: "distinct (reg_order r)" "set (reg_order r) = dom (reg_entries r)"
    and ok: "\<And>i e. reg_entries r i = Some e \<Longrightarrow> entry_ok i e"
    using assms(1) by (auto simp: reg_inv_def)
  note eff = drop_workspace_effect [OF drop order(1)]
  have entries: "reg_entries ?r2 =
      (\<lambda>i. if owned_by ws (entry_at r i) then None else reg_entries r i)"
    using eff order(2) by (auto simp: fun_eq_iff)
  have "reg_inv ?r2"
    using eff order ok entries by (auto simp: reg_inv_def split: if_splits)
  moreover have "\<forall>i \<in> set (reg_order staged). reg_entries ?r2 i = None \<and> entry_ok i (entry_at staged i)"
  proof
    fix i
    assume "i \<in> set (reg_order staged)"
    with sinv free entries show "reg_entries ?r2 i = None \<and> entry_ok i (entry_at staged i)"
      by (cases "reg_entries r i")
         (auto simp: reg_inv_def find_None_iff owned_by_def split: option.splits)
  qed
  moreover have "distinct (reg_order staged)" "set (reg_order staged) = dom (reg_entries staged)"
    using sinv by (auto simp: reg_inv_def)
  ultimately have result: "reg_inv r'" "reg_order r' = kept @ reg_order staged"
      "reg_entries r' = (\<lambda>i. if i \<in> dom (reg_entries staged) then Some (entry_at staged i)
                              else reg_entries ?r2 i)"
    using index_all_effect [of "reg_order staged" ?r2 "entry_at staged" os fs] r' by auto
  have "reg_entries r' = (\<lambda>i. if reg_entries staged i \<noteq> None then reg_entries staged i
       else if owned_by ws (entry_at r i) then None else reg_entries r i)"
    unfolding result(3) entries by (auto simp: fun_eq_iff)
  with that [OF st] result eff show thesis by simp
qed

lemma same_entry_iff: "same_entry a b \<longleftrightarrow> a = b"
  by (cases a; cases b) (simp add: same_entry_def)

lemma merge_entry_effect:
  assumes "merge_entry os fs i item r = (res, r')" and "reg_inv r" and "entry_ok i item"
  shows "reg_inv r' \<and> reg_entries r \<subseteq>\<^sub>m reg_entries r' \<and> prefix (reg_order r) (reg_order r') \<and>
    (res = None \<longrightarrow> reg_entries r' i = Some item) \<and>
    (\<forall>j. j \<noteq> i \<longrightarrow> reg_entries r' j = reg_entries r j)"
proof (cases "reg_entries r i")
  case None
  have "reg_inv r'" if "reg_entries r' = (reg_entries r)(i \<mapsto> item)" "reg_order r' = reg_order r @ [i]"
    using reg_inv_add [OF assms(2) None assms(3)] that by blast
  with None assms(1,2) show ?thesis
    by (auto simp: merge_entry_def Let_def map_le_def split: if_splits)
qed (use assms in \<open>auto simp: merge_entry_def same_entry_iff split: if_splits\<close>)

lemma merge_entries_effect:
  assumes "merge_entries os fs s is r = (res, r')" and "reg_inv r"
    and "\<forall>i \<in> set is. entry_ok i (entry_at s i)"
  shows "reg_inv r' \<and> reg_entries r \<subseteq>\<^sub>m reg_entries r' \<and> prefix (reg_order r) (reg_order r') \<and>
    (res = None \<longrightarrow> (\<forall>i \<in> set is. reg_entries r' i = Some (entry_at s i))) \<and>
    (\<forall>j. j \<notin> set is \<longrightarrow> reg_entries r' j = reg_entries r j)"
  using assms
proof (induction "is" arbitrary: r)
  case (Cons i "is")
  obtain res1 r1 where one: "merge_entry os fs i (entry_at s i) r = (res1, r1)" by force
  have ok: "entry_ok i (entry_at s i)" using Cons.prems by simp
  note eff = merge_entry_effect [OF one Cons.prems(2) ok]
  show ?case
  proof (cases res1)
    case (Some e)
    with Cons.prems one eff show ?thesis by auto
  next
    case None
    with Cons.prems one have "merge_entries os fs s is r1 = (res, r')" by simp
    from Cons.IH [OF this] eff Cons.prems(3) None show ?thesis
      by (auto intro: map_le_trans prefix_order.trans)
  qed
qed simp

lemma reg_merge_effect:
  assumes "reg_merge os fs snap r = (res, r')" and "reg_inv r"
  shows "reg_inv r' \<and> reg_entries r \<subseteq>\<^sub>m reg_entries r' \<and> prefix (reg_order r) (reg_order r')"
    and "res = None \<Longrightarrow> reg_restore os fs snap new_registry = Inr staged \<Longrightarrow>
           reg_entries r' = reg_entries r ++ reg_entries staged"
proof -
  show "reg_inv r' \<and> reg_entries r \<subseteq>\<^sub>m reg_entries r' \<and> prefix (reg_order r) (reg_order r')"
  proof (cases "reg_restore os fs snap new_registry")
    case (Inl e)
    with assms show ?thesis by (auto simp: reg_merge_def)
  next
    case (Inr staged)
    obtain res1 r1 where one: "merge_entries os fs staged (reg_order staged) r = (res1, r1)" by force
    from Inr assms(1) one have "reg_entries r' = reg_entries r1 \<and> reg_order r' = reg_order r1"
      by (auto simp: reg_merge_def split: option.splits prod.splits)
    moreover have "\<forall>i \<in> set (reg_order staged). entry_ok i (entry_at staged i)"
      using reg_restore_inv [OF Inr] by (auto simp: reg_inv_def)
    ultimately show ?thesis
      using merge_entries_effect [OF one assms(2)] reg_inv_cong [of r' r1] by simp
  qed
next
  assume ok: "res = None" and st: "reg_restore os fs snap new_registry = Inr staged"
  obtain res1 r1 where one: "merge_entries os fs staged (reg_order staged) r = (res1, r1)" by force
  from st assms(1) one ok have eq: "res1 = None \<and> reg_entries r' = reg_entries r1"
    by (auto simp: reg_merge_def split: option.splits prod.splits)
  have "\<forall>i \<in> set (reg_order staged). entry_ok i (entry_at staged i)"
    and dom: "set (reg_order staged) = dom (reg_entries staged)"
    using reg_restore_inv [OF st] by (auto simp: reg_inv_def)
  with merge_entries_effect [OF one assms(2)] eq
  have eff: "\<forall>i \<in> dom (reg_entries staged). reg_entries r' i = Some (entry_at staged i)"
      "\<forall>i. i \<notin> dom (reg_entries staged) \<longrightarrow> reg_entries r' i = reg_entries r i" by auto
  show "reg_entries r' = reg_entries r ++ reg_entries staged"
  proof
    fix i
    show "reg_entries r' i = (reg_entries r ++ reg_entries staged) i"
      using eff by (cases "reg_entries staged i") (auto simp: map_add_def domIff)
  qed
qed

text \<open>
  After \<open>Restore\<close> of a checkpoint that was decoded without retained results, retaining any
  result panics.
\<close>

lemma restore_without_retained_panics:
  assumes "reg_restore os fs snap r = Inr r'" and "rs_retained snap = None"
    and "\<not> blank call" and "\<not> blank result"
  shows "retain_tool_result call result r' = Inl panic_nil_map"
  using assms by (auto simp: reg_restore_def retain_tool_result_def go_assign_def split: sum.splits)

section \<open>The registry as a transition system\<close>

text \<open>
  Every operation that changes the registry, and the file system acting on its own. A fresh
  UUID is one whose artifact ID is not in use.
\<close>

datatype 'fs reg_op =
    OpDeclare string string declared
  | OpRetain string string
  | OpRegister string string string string string
  | OpRegisterRetained string string string string string
  | OpRestore reg_snapshot
  | OpRestoreWorkspace string reg_snapshot
  | OpMerge reg_snapshot
  | OpFiles 'fs

definition fresh_uuid :: "string \<Rightarrow> registry \<Rightarrow> bool" where
  "fresh_uuid uuid r \<longleftrightarrow> reg_entries r (''artifact-'' @ uuid) = None"

fun reg_step :: "'fs os \<Rightarrow> 'fs \<times> registry \<Rightarrow> 'fs reg_op \<Rightarrow> 'fs \<times> registry \<Rightarrow> bool" where
  "reg_step os (fs, r) (OpDeclare uuid ws d) (fs', r') \<longleftrightarrow>
     fresh_uuid uuid r \<and> fs' = fs \<and> r' = snd (declare_artifact os fs uuid ws d r)"
| "reg_step os (fs, r) (OpRetain call result) (fs', r') \<longleftrightarrow>
     fs' = fs \<and> r' = (case retain_tool_result call result r of Inl _ \<Rightarrow> r | Inr r1 \<Rightarrow> r1)"
| "reg_step os (fs, r) (OpRegister uuid ws path source description) (fs', r') \<longleftrightarrow>
     fresh_uuid uuid r \<and> (fs', r') = snd (register_evidence os uuid ws path source description fs r)"
| "reg_step os (fs, r) (OpRegisterRetained uuid ws call source description) (fs', r') \<longleftrightarrow>
     fresh_uuid uuid r \<and>
     (fs', r') = snd (register_retained_evidence os uuid ws call source description fs r)"
| "reg_step os (fs, r) (OpRestore snap) (fs', r') \<longleftrightarrow>
     fs' = fs \<and> r' = (case reg_restore os fs snap r of Inl _ \<Rightarrow> r | Inr r1 \<Rightarrow> r1)"
| "reg_step os (fs, r) (OpRestoreWorkspace ws snap) (fs', r') \<longleftrightarrow>
     fs' = fs \<and> r' = (case reg_restore_workspace os fs ws snap r of Inl _ \<Rightarrow> r | Inr r1 \<Rightarrow> r1)"
| "reg_step os (fs, r) (OpMerge snap) (fs', r') \<longleftrightarrow> fs' = fs \<and> r' = snd (reg_merge os fs snap r)"
| "reg_step os (fs, r) (OpFiles fs1) (fs', r') \<longleftrightarrow> fs' = fs1 \<and> r' = r"

lemma retain_tool_result_inv:
  "retain_tool_result call result r = Inr r' \<Longrightarrow> reg_inv r \<Longrightarrow> reg_inv r'"
  by (auto simp: retain_tool_result_def reg_inv_def split: if_splits sum.splits)

lemma reg_step_inv: "reg_inv (snd s) \<Longrightarrow> reg_step os s l t \<Longrightarrow> reg_inv (snd t)"
proof (induction os s l t rule: reg_step.induct)
  case (1 os fs r uuid ws d fs' r')
  then show ?case
    by (cases "declare_artifact os fs uuid ws d r") (auto simp: fresh_uuid_def intro: declare_inv)
next
  case (3 os fs r uuid ws path source description fs' r')
  then show ?case
    using register_evidence_keeps [of r uuid os ws path source description fs _ fs' r']
    by (cases "register_evidence os uuid ws path source description fs r") (auto simp: fresh_uuid_def)
next
  case (4 os fs r uuid ws call source description fs' r')
  then show ?case
    using register_retained_inv [of r uuid os ws call source description fs _ fs' r']
    by (cases "register_retained_evidence os uuid ws call source description fs r")
       (auto simp: fresh_uuid_def)
next
  case (6 os fs r ws snap fs' r')
  then show ?case by (auto split: sum.splits elim: restore_workspace_effect)
next
  case (7 os fs r snap fs' r')
  then show ?case
    using reg_merge_effect(1) [of os fs snap r] by (cases "reg_merge os fs snap r") auto
qed (auto split: sum.splits intro: retain_tool_result_inv reg_restore_inv)

definition reg_initial :: "'fs \<times> registry \<Rightarrow> bool" where
  "reg_initial s \<longleftrightarrow> snd s = new_registry"

interpretation reg: invariant_system reg_initial "reg_step os" "\<lambda>s. reg_inv (snd s)" for os
  by unfold_locales (auto simp: reg_initial_def intro: reg_step_inv)

section \<open>The contract a client of the registry relies on\<close>

text \<open>
  A client that keeps its own list of evidence IDs (the Collection context) registers through
  this interface: its list stays duplicate-free and below the registry's evidence if it
  appends the returned ID exactly when the created flag is set.
\<close>

locale evidence_store =
  fixes inv :: "'r \<Rightarrow> bool"
    and ids :: "'r \<Rightarrow> string set"
    and fresh :: "'r \<Rightarrow> bool"
    and register :: "'fs \<Rightarrow> 'r \<Rightarrow> (error + art_record \<times> bool) \<times> 'fs \<times> 'r"
  assumes register_inv:
      "inv r \<Longrightarrow> fresh r \<Longrightarrow> register fs r = (res, fs', r') \<Longrightarrow> inv r'"
    and register_created:
      "inv r \<Longrightarrow> fresh r \<Longrightarrow> register fs r = (Inr (rec, True), fs', r') \<Longrightarrow>
         rec_id rec \<notin> ids r \<and> ids r' = insert (rec_id rec) (ids r)"
    and register_other:
      "inv r \<Longrightarrow> fresh r \<Longrightarrow> register fs r = (res, fs', r') \<Longrightarrow> \<nexists>rec. res = Inr (rec, True) \<Longrightarrow>
         ids r' = ids r"
begin

lemma ledger_extends:
  assumes "inv r" and "fresh r" and "register fs r = (Inr (rec, True), fs', r')"
    and "distinct ledger" and "set ledger \<subseteq> ids r"
  shows "distinct (ledger @ [rec_id rec]) \<and> set (ledger @ [rec_id rec]) \<subseteq> ids r' \<and> rec_id rec \<notin> set ledger"
  using register_created [OF assms(1-3)] assms(4,5) by auto

lemma ledger_stays:
  assumes "inv r" and "fresh r" and "register fs r = (res, fs', r')" and "set ledger \<subseteq> ids r"
  shows "set ledger \<subseteq> ids r'"
  using register_created [OF assms(1,2)] register_other [OF assms(1-3)] assms(3,4) by blast

end

interpretation path_store:
  evidence_store reg_ready evidence_ids "fresh_uuid uuid" "register_evidence os uuid ws path source description"
  for os uuid ws path source description
proof unfold_locales
  fix r fs res fs' r' rec
  assume ready: "reg_ready r" and fresh: "fresh_uuid uuid r"
  note keeps = register_evidence_ready [OF ready fresh [unfolded fresh_uuid_def]]
  show "reg_ready r'" if "register_evidence os uuid ws path source description fs r = (res, fs', r')"
    using keeps [OF that] by blast
  show "rec_id rec \<notin> evidence_ids r \<and> evidence_ids r' = insert (rec_id rec) (evidence_ids r)"
    if "register_evidence os uuid ws path source description fs r = (Inr (rec, True), fs', r')"
    using keeps [OF that] by simp
  show "evidence_ids r' = evidence_ids r"
    if "register_evidence os uuid ws path source description fs r = (res, fs', r')" "\<nexists>rec. res = Inr (rec, True)"
    using keeps [OF that(1)] that(2) registration_effect_other by blast
qed

interpretation retained_store:
  evidence_store reg_ready evidence_ids "fresh_uuid uuid" "register_retained_evidence os uuid ws call source description"
  for os uuid ws call source description
proof unfold_locales
  fix r fs res fs' r' rec
  assume ready: "reg_ready r" and fresh: "fresh_uuid uuid r"
  note keeps = register_retained_keeps [OF ready fresh [unfolded fresh_uuid_def]]
  show "reg_ready r'" if "register_retained_evidence os uuid ws call source description fs r = (res, fs', r')"
    using keeps [OF that] by blast
  show "rec_id rec \<notin> evidence_ids r \<and> evidence_ids r' = insert (rec_id rec) (evidence_ids r)"
    if "register_retained_evidence os uuid ws call source description fs r = (Inr (rec, True), fs', r')"
    using keeps [OF that] by simp
  show "evidence_ids r' = evidence_ids r"
    if "register_retained_evidence os uuid ws call source description fs r = (res, fs', r')" "\<nexists>rec. res = Inr (rec, True)"
    using keeps [OF that(1)] that(2) registration_effect_other by blast
qed

section \<open>The source header is read back\<close>

definition solid_word :: "string \<Rightarrow> bool" where
  "solid_word w \<longleftrightarrow> w \<noteq> [] \<and> (\<forall>v. suffix v w \<longrightarrow> starts_with_any space_runes v = None)"

lemma take_word_solid:
  "take_word s = (w, r) \<Longrightarrow> suffix v w \<Longrightarrow> starts_with_any space_runes v = None"
proof (induction s arbitrary: w)
  case Nil
  then show ?case using space_runes_heads by (auto simp: starts_with_any_None)
next
  case (Cons c cs)
  show ?case
  proof (cases "starts_with_any space_runes (c # cs)")
    case (Some x)
    with Cons.prems show ?thesis
      using space_runes_heads by (auto simp: starts_with_any_None)
  next
    case None
    with Cons.prems obtain w' where w': "take_word cs = (w', r)" "w = c # w'"
      by (auto split: prod.splits)
    have "prefix w (c # cs)" using w' take_word_append [OF w'(1)] by simp
    with Cons.IH [OF w'(1)] Cons.prems(2) w' starts_with_any_antimono [OF None] show ?thesis
      by (auto simp: suffix_Cons)
  qed
qed

lemma fields_solid: "w \<in> set (strings_fields s) \<Longrightarrow> solid_word w"
proof (induction s rule: strings_fields.induct)
  case (1 s)
  show ?case
  proof (cases "trim_left s = []")
    case True
    with 1 show ?thesis by (simp add: strings_fields.simps [of s])
  next
    case False
    obtain v r where v: "take_word (trim_left s) = (v, r)" by force
    have "starts_with_any space_runes (trim_left s) = None"
      by (simp add: trim_left_def trim_front_stop)
    with False v have "v \<noteq> []" using take_word_Nil [of "trim_left s" r] by auto
    with v have "solid_word v" by (auto simp: solid_word_def intro: take_word_solid)
    moreover have "w = v \<or> w \<in> set (strings_fields r)"
      using 1(2) False v by (simp add: strings_fields.simps [of s])
    ultimately show ?thesis using 1(1) [OF refl False v [symmetric] refl] v by auto
  qed
qed

lemma rune_with_space: "x \<in> set space_runes \<Longrightarrow> CHR '' '' \<in> set x \<Longrightarrow> x = '' ''"
  by (auto simp: space_runes_def)

lemma newline_rune: "[CHR 0x0A] \<in> set space_runes" "'' '' \<in> set space_runes"
  by (simp_all add: space_runes_def)

lemma solid_word_no_newline: "solid_word w \<Longrightarrow> CHR 0x0A \<notin> set w"
proof
  assume "solid_word w" and "CHR 0x0A \<in> set w"
  then obtain u v where "w = u @ CHR 0x0A # v" by (meson split_list)
  then have "suffix (CHR 0x0A # v) w" by (simp add: suffix_def)
  with \<open>solid_word w\<close> have "starts_with_any space_runes (CHR 0x0A # v) = None"
    by (simp add: solid_word_def)
  with newline_rune show False by (force simp: starts_with_any_None)
qed

lemma trim_right_solid:
  assumes "solid_word w" and "u = [] \<or> last u = CHR '' ''"
  shows "trim_right (u @ w) = u @ w"
proof -
  have "\<not> suffix x (u @ w)" if x: "x \<in> set space_runes" for x
  proof
    assume suf: "suffix x (u @ w)"
    have ne: "x \<noteq> []" "w \<noteq> []" using x space_runes_heads assms(1) by (auto simp: solid_word_def)
    show False
    proof (cases "suffix x w")
      case True
      with assms(1) have "starts_with_any space_runes x = None" by (simp add: solid_word_def)
      with x ne show False by (auto simp: starts_with_any_None)
    next
      case False
      with suf obtain y where y: "x = y @ w" "suffix y u"
        unfolding suffix_append by metis
      with False have "y \<noteq> []" by auto
      note y = y this
      obtain z where "u = z @ y" using y(2) by (auto simp: suffix_def)
      with y(3) assms(2) have "last y = CHR '' ''" by simp
      with y have "CHR '' '' \<in> set x" using last_in_set [of y] by auto
      with x have "x = '' ''" by (rule rune_with_space)
      with y ne show False by (cases y) auto
    qed
  qed
  then have "\<forall>x \<in> set (map rev space_runes). \<not> prefix x (rev (u @ w))"
    by (auto simp: suffix_to_prefix)
  then show ?thesis
    unfolding trim_right_def using trim_front_idle by (simp add: starts_with_any_None del: rev_append)
qed

lemma join_with_last:
  "ws \<noteq> [] \<Longrightarrow> \<exists>u. join_with c ws = u @ last ws \<and> (u = [] \<or> last u = c)"
proof (induction ws)
  case (Cons w ws)
  show ?case
  proof (cases ws)
    case (Cons v vs)
    with Cons.IH obtain u where "join_with c ws = u @ last ws" "u = [] \<or> last u = c" by auto
    then show ?thesis using Cons by (intro exI [of _ "w @ c # u"]) auto
  qed (intro exI [of _ "[]"], simp)
qed simp

lemma normalize_source_shape:
  assumes "normalize_source source \<noteq> []"
  obtains u w where "normalize_source source = u @ w" "solid_word w" "u = [] \<or> last u = CHR '' ''"
    and "CHR 0x0A \<notin> set (normalize_source source)"
    and "starts_with_any space_runes (normalize_source source) = None"
proof -
  let ?ws = "strings_fields source"
  have ne: "?ws \<noteq> []" using assms by (auto simp: normalize_source_def)
  have solid: "\<forall>w \<in> set ?ws. solid_word w" using fields_solid by blast
  have nl: "CHR 0x0A \<notin> set (join_with CHR '' '' ws)" if "\<forall>w \<in> set ws. solid_word w" for ws
    using that solid_word_no_newline by (induction "CHR '' ''" ws rule: join_with.induct) auto
  obtain u where "normalize_source source = u @ last ?ws" "u = [] \<or> last u = CHR '' ''"
    using join_with_last [OF ne, of "CHR '' ''"] by (auto simp: normalize_source_def)
  moreover have "solid_word (last ?ws)" using solid ne by simp
  moreover have "starts_with_any space_runes (normalize_source source) = None"
  proof -
    obtain w ws where ws: "?ws = w # ws" using ne by (cases ?ws) auto
    then have w: "w \<noteq> []" "\<And>v. suffix v w \<Longrightarrow> starts_with_any space_runes v = None"
      using solid by (auto simp: solid_word_def)
    have "\<not> prefix x (w @ CHR '' '' # r)" if "x \<in> set space_runes" for x r
    proof
      assume "prefix x (w @ CHR '' '' # r)"
      then consider "prefix x w" | y where "x = w @ CHR '' '' # y"
        by (auto simp: prefix_append prefix_Cons)
      then show False
      proof cases
        case 1
        with that w(2) [of w] space_runes_heads show False by (auto simp: starts_with_any_None)
      next
        case 2
        with rune_with_space [OF that] w(1) show False by (cases w) auto
      qed
    qed
    with ws w(2) [of w] show ?thesis
      by (cases ws) (auto simp: normalize_source_def starts_with_any_None)
  qed
  ultimately show thesis using that nl [OF solid] by (auto simp: normalize_source_def)
qed

lemma header_line_value:
  assumes "normalize_source source \<noteq> []"
  shows "header_value [''- Source:'', ''- URL:''] (trim_space (''- Source: '' @ normalize_source source)) =
           Some (normalize_source source)"
proof -
  obtain u w where n: "normalize_source source = u @ w" and w: "solid_word w"
      and u: "u = [] \<or> last u = CHR '' ''"
      and start: "starts_with_any space_runes (normalize_source source) = None"
    using normalize_source_shape [OF assms] by metis
  have "trim_left (''- Source: '' @ normalize_source source) = ''- Source: '' @ normalize_source source"
    unfolding trim_left_def using space_runes_heads
    by (rule trim_front_head) (simp add: space_heads_def)
  moreover have "trim_right (''- Source: '' @ normalize_source source) = ''- Source: '' @ normalize_source source"
    using trim_right_solid [OF w, of "''- Source: '' @ u"] u n by (cases u) auto
  ultimately have line: "trim_space (''- Source: '' @ normalize_source source)
      = ''- Source: '' @ normalize_source source"
    by (simp add: trim_space_def)
  have "starts_with_any space_runes ('' '' @ normalize_source source) = Some '' ''"
    by (simp add: starts_with_any_def space_runes_def)
  then have "trim_left ('' '' @ normalize_source source) = normalize_source source"
    unfolding trim_left_def by (subst trim_front.simps) (simp add: trim_front_idle start)
  then have tail: "trim_space ('' '' @ normalize_source source) = normalize_source source"
    using trim_right_solid [OF w u] n by (simp add: trim_space_def)
  show ?thesis using line tail assms by (simp add: blank_def)
qed

lemma source_header_read_back:
  assumes "source_from_content content = []"
  shows "source_from_content (with_source_header content source) = normalize_source source"
proof (cases "normalize_source source = []")
  case False
  have nl: "CHR 0x0A \<notin> set (''- Source: '' @ normalize_source source)"
  proof -
    have "CHR 0x0A \<notin> set (normalize_source source)"
      using normalize_source_shape [OF False] by blast
    then show ?thesis by simp
  qed
  have "split_on CHR 0x0A ((''- Source: '' @ normalize_source source) @ CHR 0x0A # CHR 0x0A # content) =
      (''- Source: '' @ normalize_source source) # split_on CHR 0x0A (CHR 0x0A # content)"
    by (rule split_on_append [OF nl])
  with False assms header_line_value [OF False] show ?thesis
    by (simp add: source_from_content_def with_source_header_def Let_def take_Cons')
qed (use assms in \<open>simp add: with_source_header_def\<close>)

section \<open>A file system for the witnesses\<close>

text \<open>A flat in-memory file system without symbolic links, as a concrete \<open>os\<close>.\<close>

type_synonym mem_fs = "(string \<times> string) list"

definition mem_os :: "mem_fs os" where
  "mem_os =
     \<lparr>os_cwd = Inr ''/'',
      os_eval_symlinks = (\<lambda>fs p. Inr (clean p)),
      os_stat = (\<lambda>fs p. (case map_of fs p of
                    None \<Rightarrow> Inl (Text ''no such file'')
                  | Some c \<Rightarrow> Inr \<lparr>fi_dir = False, fi_regular = True, fi_size = int (length c)\<rparr>)),
      os_read_file = (\<lambda>fs p. (case map_of fs p of
                    None \<Rightarrow> Inl (Text ''no such file'') | Some c \<Rightarrow> Inr c)),
      os_write_file = (\<lambda>fs p c. (None, AList.update p c fs)),
      os_mkdir_all = (\<lambda>fs p. (None, fs)),
      os_create_temp = (\<lambda>fs d pat. (Inr (join_path d ''tool-1.md''),
                                     AList.update (join_path d ''tool-1.md'') [] fs)),
      os_write_string = (\<lambda>fs p c. (None, AList.update p c fs)),
      os_close = (\<lambda>fs p. (None, fs)),
      os_remove = (\<lambda>fs p. AList.delete p fs)\<rparr>"

definition sample_artifact :: declared where
  "sample_artifact =
     \<lparr>decl_name = ''report'', decl_type = ArtFile, decl_path = ''out.md'',
      decl_description = ''the report'', decl_required = True, decl_non_empty = True\<rparr>"

definition sample_fs :: mem_fs where
  "sample_fs = [(''/w/e.md'', ''facts'')]"

definition sample_registry :: registry where
  "sample_registry = snd (declare_artifact mem_os sample_fs ''1'' ''/w'' sample_artifact new_registry)"

lemma sample_declares:
  "\<exists>rec. declare_artifact mem_os sample_fs ''1'' ''/w'' sample_artifact new_registry = (Inr rec, sample_registry)"
proof -
  have "\<not> isl (fst (declare_artifact mem_os sample_fs ''1'' ''/w'' sample_artifact new_registry))"
    by code_simp
  then show ?thesis
    by (cases "fst (declare_artifact mem_os sample_fs ''1'' ''/w'' sample_artifact new_registry)")
       (auto simp: sample_registry_def prod_eq_iff)
qed

lemma sample_reachable: "reach reg_initial (reg_step mem_os) (sample_fs, sample_registry)"
proof (rule reach_step)
  show "reach reg_initial (reg_step mem_os) (sample_fs, new_registry)"
    by (rule reach_init) (simp add: reg_initial_def)
  show "reg_step mem_os (sample_fs, new_registry) (OpDeclare ''1'' ''/w'' sample_artifact)
          (sample_fs, sample_registry)"
    by (simp add: sample_registry_def fresh_uuid_def new_registry_def)
qed

lemma sample_inv [simp]: "reg_inv sample_registry"
  using reg.reach_inv [OF sample_reachable] by simp

lemma sample_ready [simp]: "reg_ready sample_registry"
proof -
  have "\<not> Option.is_none (reg_retained sample_registry) \<and> \<not> Option.is_none (reg_retained_evidence sample_registry)"
    by code_simp
  then show ?thesis by (simp add: reg_ready_def maps_made_def Option.is_none_def)
qed

lemma sample_fresh [simp]: "fresh_uuid ''2'' sample_registry"
proof -
  have "Option.is_none (reg_entries sample_registry ''artifact-2'')" by code_simp
  then show ?thesis by (simp add: fresh_uuid_def Option.is_none_def)
qed

section \<open>Properties of the registry\<close>



text \<open>
  A path has one artifact ID. Declaring an artifact for a path of a workspace that is
  already declared, with the same type but any name and description, succeeds, answers the
  ID of the first declaration and adds no entry.
\<close>

theorem redeclaring_keeps_the_id:
  assumes "reg_inv r" and "fresh_uuid u r"
    and "declare_artifact os fs u ws d r = (Inr rec, r1)"
    and "declared_validate d' = None" and "decl_path d' = decl_path d" and "decl_type d' = decl_type d"
  shows "\<exists>rec' r2. declare_artifact os fs u' ws d' r1 = (Inr rec', r2) \<and>
    rec_id rec' = rec_id rec \<and> rec_name rec' = decl_name d' \<and>
    reg_order r2 = reg_order r1 \<and> dom (reg_entries r2) = dom (reg_entries r1)"
proof -
  have val: "declared_validate d = None" using assms(3) by (auto simp: declare_artifact_def split: option.splits)
  obtain path where path: "absolute_artifact_path os ws (decl_path d) = Inr path"
    using assms(3) val by (auto simp: declare_artifact_def split: sum.splits)
  note ty = declared_validate_type [OF val]
  define key where "key = path_key os fs ws path"
  obtain i where i: "reg_paths r1 key = Some i" "rec_type (ent_record (entry_at r1 i)) = decl_type d"
      "rec_id rec = i" "rec_id (ent_record (entry_at r1 i)) = i"
  proof (cases "reg_paths r key")
    case None
    with assms(3) val path that [of "''artifact-'' @ u"] show thesis
      by (auto simp: declare_artifact_def key_def Let_def entry_at_def)
  next
    case (Some j)
    with assms(3) val path have type: "rec_type (ent_record (entry_at r j)) = decl_type d"
      by (auto simp: declare_artifact_def key_def Let_def split: if_splits)
    with ty obtain e where e: "reg_entries r j = Some e" using entry_at_type [of r j] by auto
    with reg_inv_entry [OF assms(1)] have "rec_id (ent_record e) = j" by (simp add: entry_ok_def)
    with assms(3) val path Some that [of j] e type show thesis
      by (auto simp: declare_artifact_def key_def Let_def entry_at_def)
  qed
  then have "reg_entries r1 i \<noteq> None" using ty entry_at_type [of r1 i] by auto
  with i assms(4,5,6) path show ?thesis
    by (auto simp: declare_artifact_def Let_def key_def)
qed

theorem redeclaring_keeps_the_id_witness:
  "\<exists>rec' r2. declare_artifact mem_os sample_fs ''2'' ''/w''
     (sample_artifact\<lparr>decl_name := ''final''\<rparr>) sample_registry = (Inr rec', r2) \<and>
     rec_name rec' = ''final'' \<and> reg_order r2 = reg_order sample_registry"
proof -
  obtain rec where d:
    "declare_artifact mem_os sample_fs ''1'' ''/w'' sample_artifact new_registry = (Inr rec, sample_registry)"
    using sample_declares by blast
  have "Option.is_none (declared_validate (sample_artifact\<lparr>decl_name := ''final''\<rparr>))" by code_simp
  with redeclaring_keeps_the_id [OF reg_inv_new _ d, of "sample_artifact\<lparr>decl_name := ''final''\<rparr>" "''2''"]
  show ?thesis by (auto simp: fresh_uuid_def new_registry_def Option.is_none_def)
qed

text \<open>
  The created flag of a registration is exact, for files and for retained tool results.
  It is true exactly when the returned ID was not evidence before, and then that ID is the
  only one that becomes evidence; an error or a repeated registration leaves the set of
  evidence IDs as it was. The Collection protocol counts unreviewed evidence by this flag.
\<close>

theorem created_flag_is_exact:
  assumes "reg_ready r" and "fresh_uuid u r"
    and "register_evidence os u ws path source description fs r = (res, fs', r') \<or>
         register_retained_evidence os u ws call source description fs r = (res, fs', r')"
  shows "(\<forall>rec. res = Inr (rec, True) \<longrightarrow> rec_id rec \<notin> evidence_ids r \<and>
            evidence_ids r' = insert (rec_id rec) (evidence_ids r)) \<and>
    ((\<nexists>rec. res = Inr (rec, True)) \<longrightarrow> evidence_ids r' = evidence_ids r)"
proof -
  have "registration_effect res r r'"
    using assms register_evidence_ready [OF assms(1), of u os ws path source description fs res fs' r']
      register_retained_keeps [OF assms(1), of u os ws call source description fs res fs' r']
    by (auto simp: fresh_uuid_def)
  then show ?thesis by (auto simp: registration_effect_def split: sum.splits bool.splits)
qed

theorem created_flag_is_exact_witness:
  "\<exists>rec fs' r'. register_evidence mem_os ''2'' ''/w'' ''e.md'' ''https://a.b'' ''note'' sample_fs sample_registry =
     (Inr (rec, True), fs', r') \<and> evidence_ids r' = insert (rec_id rec) (evidence_ids sample_registry)"
proof -
  obtain res fs' r' where reg: "register_evidence mem_os ''2'' ''/w'' ''e.md'' ''https://a.b'' ''note''
      sample_fs sample_registry = (res, fs', r')"
    by (metis prod_cases3)
  have "(case fst (register_evidence mem_os ''2'' ''/w'' ''e.md'' ''https://a.b'' ''note''
      sample_fs sample_registry) of Inr (rec, c) \<Rightarrow> c | Inl _ \<Rightarrow> False)"
    by code_simp
  with reg obtain rec where "res = Inr (rec, True)" by (auto split: sum.splits)
  with reg created_flag_is_exact [OF sample_ready sample_fresh disjI1 [OF reg]] show ?thesis by auto
qed

text \<open>
  Evidence never lies outside its workspace. When a registration by path makes new
  evidence, the recorded path has every element of the resolved workspace in front, so it is
  below the workspace after both have had their symbolic links resolved. The hypothesis on
  \<open>filepath.EvalSymlinks\<close> is its documented behaviour: the result is relative only if the
  argument is.
\<close>

theorem evidence_stays_in_the_workspace:
  assumes links: "\<And>p q. is_abs p \<Longrightarrow> os_eval_symlinks os fs p = Inr q \<Longrightarrow> is_abs q"
    and "is_abs ws"
    and "reg_inv r" and "fresh_uuid u r"
    and "register_evidence os u ws path source description fs r = (Inr (rec, True), fs', r')"
  shows "\<exists>root. os_eval_symlinks os fs ws = Inr root \<and>
    prefix (path_elems root) (path_elems (rec_path rec))"
proof -
  from assms(5) obtain logical resolved header fs1 where
    prep: "prepare_evidence os ws path source fs = (Inr (logical, resolved, header), fs1)" and
    idx: "index_evidence os fs1 u ws path logical resolved header description r = (Inr (rec, True), r')"
    by (auto simp: register_evidence_def split: prod.splits sum.splits)
  from prep have ev: "evidence_path os fs ws path = Inr resolved"
    by (auto simp: prepare_evidence_def Let_def split: sum.splits if_splits prod.splits option.splits)
  then obtain apath root where
    apath: "absolute_artifact_path os ws path = Inr apath" "os_eval_symlinks os fs apath = Inr resolved" and
    root: "os_eval_symlinks os fs ws = Inr root" "path_within root resolved"
    by (auto simp: evidence_path_def split: sum.splits if_splits)
  have "is_abs apath"
    using apath(1) assms(2) is_abs_clean
    by (auto simp: absolute_artifact_path_def os_abs_def Let_def split: if_splits)
  then have "prefix (path_elems root) (path_elems resolved)"
    using root path_within_iff links apath(2) assms(2) by blast
  moreover have "rec_path rec = resolved"
    using idx by (auto simp: index_evidence_def Let_def split: option.splits if_splits prod.splits)
  ultimately show ?thesis using root by auto
qed

theorem evidence_stays_in_the_workspace_witness:
  "\<exists>rec :: art_record. prefix (path_elems ''/w'') (path_elems (rec_path rec)) \<and> rec_path rec = ''/w/e.md''"
proof -
  have links: "\<And>p q. is_abs p \<Longrightarrow> os_eval_symlinks mem_os sample_fs p = Inr q \<Longrightarrow> is_abs q"
    by (auto simp: mem_os_def)
  obtain res fs' r' where reg: "register_evidence mem_os ''2'' ''/w'' ''e.md'' [] ''note''
      sample_fs sample_registry = (res, fs', r')"
    by (metis prod_cases3)
  have "(case fst (register_evidence mem_os ''2'' ''/w'' ''e.md'' [] ''note'' sample_fs sample_registry) of
      Inr (rec, c) \<Rightarrow> c \<and> rec_path rec = ''/w/e.md'' | Inl _ \<Rightarrow> False)"
    by code_simp
  with reg obtain rec where rec: "res = Inr (rec, True)" "rec_path rec = ''/w/e.md''"
    by (auto split: sum.splits)
  have root: "is_abs ''/w''" "clean ''/w'' = ''/w''"
    by code_simp+
  have "\<exists>root. os_eval_symlinks mem_os sample_fs ''/w'' = Inr root \<and>
      prefix (path_elems root) (path_elems (rec_path rec))"
    by (rule evidence_stays_in_the_workspace [OF _ root(1) sample_inv sample_fresh reg [unfolded rec(1)]])
       (rule links)
  with root have "prefix (path_elems ''/w'') (path_elems (rec_path rec))"
    by (auto simp: mem_os_def)
  with rec show ?thesis by blast
qed

text \<open>
  A checkpoint of a registry restores exactly. \<open>Restore\<close> accepts the \<open>Snapshot\<close> of any
  consistent registry, whatever the receiver held, and rebuilds the same entries (records,
  workspaces, purposes) in the same order, the retained results and the retained evidence.
\<close>

theorem registry_checkpoint_roundtrip:
  assumes "reach reg_initial (reg_step os) (fs, s)"
  shows "\<exists>r'. reg_restore os fs (reg_snapshot_of s) r = Inr r' \<and>
    reg_order r' = reg_order s \<and> reg_entries r' = reg_entries s \<and>
    reg_retained r' = reg_retained s \<and> reg_retained_evidence r' = reg_retained_evidence s"
  using reg_restore_saved [of s os fs r] reg.reach_inv [OF assms] by auto

theorem registry_checkpoint_roundtrip_witness:
  "\<exists>r'. reg_restore mem_os sample_fs (reg_snapshot_of sample_registry) new_registry = Inr r' \<and>
     reg_order r' = reg_order sample_registry"
  using registry_checkpoint_roundtrip [OF sample_reachable, of new_registry] by blast

text \<open>
  Resuming one dynamic task leaves the others alone. A successful \<open>RestoreWorkspace\<close>
  keeps every entry of another workspace untouched and in its relative order, and makes the
  entries of its own workspace exactly those of the snapshot, listed after them.
\<close>

theorem restore_workspace_is_local:
  assumes "reg_inv r" and "reg_restore_workspace os fs ws snap r = Inr r'"
  shows "(\<forall>i e. reg_entries r i = Some e \<and> \<not> owned_by ws e \<longrightarrow> reg_entries r' i = Some e) \<and>
    (\<forall>i e. reg_entries r' i = Some e \<and> owned_by ws e \<longrightarrow>
        e \<in> load_entry ` set (rs_entries snap)) \<and>
    reg_order r' = filter (\<lambda>i. \<not> owned_by ws (entry_at r i)) (reg_order r) @
      map (\<lambda>saved. rec_id (se_record saved)) (rs_entries snap)"
proof -
  obtain staged where st: "reg_restore os fs snap new_registry = Inr staged" and
    order: "reg_order r' = filter (\<lambda>i. \<not> owned_by ws (entry_at r i)) (reg_order r) @ reg_order staged" and
    entries: "reg_entries r' = (\<lambda>i. if reg_entries staged i \<noteq> None then reg_entries staged i
       else if owned_by ws (entry_at r i) then None else reg_entries r i)"
    using restore_workspace_effect [OF assms] by blast
  obtain s1 where s1: "stage_entries os fs (rs_entries snap) new_registry = Inr s1"
      "reg_entries staged = reg_entries s1" "reg_order staged = reg_order s1"
    using st by (auto simp: reg_restore_def split: sum.splits)
  note contents = stage_entries_contents [OF s1(1)]
  have free: "reg_entries staged i = None" if "reg_entries r i = Some e" "\<not> owned_by ws e" for i e
  proof (rule ccontr)
    assume "reg_entries staged i \<noteq> None"
    then have "i \<in> set (reg_order staged)"
      using reg_restore_inv [OF st] by (auto simp: reg_inv_def)
    with that assms(2) st show False
      by (auto simp: reg_restore_workspace_def Let_def owned_by_def find_None_iff split: option.splits)
  qed
  show ?thesis
    using entries free order contents s1
    by (auto simp: new_registry_def split: if_splits)
qed

theorem restore_workspace_is_local_witness:
  "\<exists>r'. reg_restore_workspace mem_os sample_fs ''/v''
     \<lparr>rs_entries = [], rs_retained = Some [], rs_retained_evidence = Some []\<rparr> sample_registry = Inr r' \<and>
     (\<forall>i e. reg_entries sample_registry i = Some e \<and> \<not> owned_by ''/v'' e \<longrightarrow> reg_entries r' i = Some e)"
proof -
  let ?snap = "\<lparr>rs_entries = [], rs_retained = Some [], rs_retained_evidence = Some []\<rparr>"
  obtain r' where "reg_restore_workspace mem_os sample_fs ''/v'' ?snap sample_registry = Inr r'"
    by (cases "drop_workspace mem_os sample_fs (clean ''/v'') (reg_order sample_registry) sample_registry")
       (simp add: reg_restore_workspace_def reg_restore_def new_registry_def Let_def)
  with restore_workspace_is_local [OF sample_inv this] show ?thesis by blast
qed

text \<open>
  Resuming several workflow blocks into one registry is conservative. \<open>Merge\<close> never
  changes or reorders an entry that was there, even when it fails half way, and a successful
  merge adds exactly the entries of the checkpoint.
\<close>

theorem merge_is_a_conservative_union:
  assumes "reg_inv r" and "reg_merge os fs snap r = (res, r')"
  shows "reg_entries r \<subseteq>\<^sub>m reg_entries r' \<and> prefix (reg_order r) (reg_order r') \<and>
    (res = None \<longrightarrow> (\<exists>staged. reg_restore os fs snap new_registry = Inr staged \<and>
       reg_entries r' = reg_entries r ++ reg_entries staged))"
proof -
  have "\<exists>staged. reg_restore os fs snap new_registry = Inr staged" if "res = None"
    using assms(2) that by (auto simp: reg_merge_def split: sum.splits)
  then show ?thesis
    using reg_merge_effect [OF assms(2,1)] by blast
qed

theorem merge_is_a_conservative_union_witness:
  "reg_entries sample_registry \<subseteq>\<^sub>m
     reg_entries (snd (reg_merge mem_os sample_fs (reg_snapshot_of sample_registry) sample_registry))"
  using merge_is_a_conservative_union [OF sample_inv,
      of mem_os sample_fs "reg_snapshot_of sample_registry"
         "fst (reg_merge mem_os sample_fs (reg_snapshot_of sample_registry) sample_registry)"
         "snd (reg_merge mem_os sample_fs (reg_snapshot_of sample_registry) sample_registry)"]
  by simp

text \<open>
  The source header survives the file. If a file has no source line among its first 64
  lines, then after registration with a source the source read back from the rewritten
  content is that source with its white space normalised (the content is left alone when the
  source has no word), and a second rewriting changes nothing.
\<close>

theorem source_header_roundtrip:
  assumes "source_from_content content = []"
  shows "source_from_content (with_source_header content source) = normalize_source source \<and>
    with_source_header (with_source_header content source) source = with_source_header content source"
  using source_header_read_back [OF assms, of source]
  by (auto simp: with_source_header_def Let_def)

theorem source_header_roundtrip_witness:
  "source_from_content (with_source_header ''facts'' ''https://a.b  x'') = ''https://a.b x''"
proof -
  have "source_from_content ''facts'' = []" and "normalize_source ''https://a.b  x'' = ''https://a.b x''"
    by code_simp+
  with source_header_roundtrip [of "''facts''" "''https://a.b  x''"] show ?thesis by simp
qed

end
