(* ===== verification/Collection_Needs.thy ===== *)
theory Collection_Needs
  imports R42_Prelude Spec_Response
begin

text \<open>
  The information needs of \<^verbatim>\<open>internal/collection/tools.go\<close>: the frozen search plan, the
  dispositions and assessments submitted about it, their validation, and the life cycle of a
  need under Collection QC. A Go map used as a set is a set; \<open>range\<close> over such a set has no
  specified order and the model takes the order of the list the set was built from.
\<close>

section \<open>Data\<close>

record stop_condition =
  sc_id :: string
  sc_condition :: string

record information_need =
  need_id :: string
  need_question :: string
  need_conditions :: "stop_condition list"

record condition_input =
  ci_condition :: string

record need_input =
  in_question :: string
  in_conditions :: "condition_input list"

datatype assessment_status = AssessmentSufficient | AssessmentNeedsMore | AssessmentOther string

datatype evidence_progress = ProgressMaterial | ProgressNone | ProgressOther string

datatype need_resolution = NeedSatisfied | NeedUnresolved | ResolutionOther string

datatype termination_reason =
  ReasonEmpty | TerminationSearchStalled | TerminationBudgetExhausted | ReasonOther string

datatype search_disposition = DispositionContinue | DispositionStalled | DispositionOther string

record qc_assessment =
  qa_need :: string
  qa_status :: assessment_status
  qa_unsatisfied :: "string list"
  qa_progress :: evidence_progress

record need_outcome =
  no_need :: string
  no_question :: string
  no_conditions :: "stop_condition list"
  no_resolution :: need_resolution
  no_reason :: termination_reason

record need_disposition =
  nd_need :: string
  nd_disposition :: search_disposition

record need_state =
  ns_need :: information_need
  ns_unsatisfied :: "string set"
  ns_assessed :: bool
  ns_stall :: int
  ns_outcome :: "need_outcome option"

record assessment_result =
  ar_accepted :: bool
  ar_issues :: "issue list"
  ar_outcomes :: "need_outcome list"
  ar_all_terminal :: bool

definition ReadInformationNeedsToolName :: string where
  "ReadInformationNeedsToolName = ''r42_read_information_needs''"

definition readInformationNeedsInstruction :: string where
  "readInformationNeedsInstruction =
     ''call '' @ ReadInformationNeedsToolName @
     '' to read active_information_need_states and use the returned canonical information-need IDs''"

section \<open>The search plan\<close>

fun condition_input_issues :: "int \<Rightarrow> int \<Rightarrow> condition_input list \<Rightarrow> issue list" where
  "condition_input_issues n j [] = []"
| "condition_input_issues n j (c # cs) =
     (if blank (ci_condition c)
      then [mk_issue ''stop_condition''
              (Format ''information_needs[%d].stop_conditions[%d].condition is required'' [IntArg n, IntArg j])]
      else []) @ condition_input_issues n (j + 1) cs"

fun need_input_issues :: "int \<Rightarrow> need_input list \<Rightarrow> issue list" where
  "need_input_issues n [] = []"
| "need_input_issues n (x # xs) =
     (if blank (in_question x)
      then [mk_issue ''information_need_question''
              (Format ''information_needs[%d].question is required'' [IntArg n])]
      else []) @
     (if in_conditions x = [] \<or> length (in_conditions x) > 5
      then [mk_issue ''stop_conditions''
              (Format ''information_needs[%d].stop_conditions must contain between 1 and 5 items'' [IntArg n])]
      else []) @
     condition_input_issues n 0 (in_conditions x) @ need_input_issues (n + 1) xs"

definition validate_information_needs :: "need_input list \<Rightarrow> issue list" where
  "validate_information_needs needs =
     (if needs = [] \<or> length needs > 10
      then [mk_issue ''information_needs'' (Text ''information_needs must contain between 1 and 10 items'')]
      else []) @ need_input_issues 0 needs"

fun freeze_conditions :: "string \<Rightarrow> int \<Rightarrow> condition_input list \<Rightarrow> stop_condition list" where
  "freeze_conditions nid j [] = []"
| "freeze_conditions nid j (c # cs) =
     \<lparr>sc_id = nid @ ''-SC-'' @ show_int03 (j + 1), sc_condition = trim_space (ci_condition c)\<rparr>
     # freeze_conditions nid (j + 1) cs"

fun freeze_needs :: "int \<Rightarrow> need_input list \<Rightarrow> information_need list" where
  "freeze_needs n [] = []"
| "freeze_needs n (x # xs) =
     (let nid = ''NEED-'' @ show_int03 (n + 1)
      in \<lparr>need_id = nid, need_question = trim_space (in_question x),
          need_conditions = freeze_conditions nid 0 (in_conditions x)\<rparr>) # freeze_needs (n + 1) xs"

definition new_need_state :: "information_need \<Rightarrow> need_state" where
  "new_need_state need =
     \<lparr>ns_need = need, ns_unsatisfied = {}, ns_assessed = False, ns_stall = 0, ns_outcome = None\<rparr>"

section \<open>Checking that a list covers a set of IDs exactly once\<close>

text \<open>
  \<open>validateNeedDispositions\<close> and \<open>validateAssessments\<close> run the same loop: an unknown ID is
  reported and skipped; a known one is reported when seen before, marked as seen, and its
  details are checked.
\<close>

fun check_each ::
    "('a \<Rightarrow> string) \<Rightarrow> (string \<Rightarrow> bool) \<Rightarrow> (int \<Rightarrow> 'a \<Rightarrow> issue) \<Rightarrow> (string \<Rightarrow> issue)
       \<Rightarrow> (int \<Rightarrow> 'a \<Rightarrow> issue list) \<Rightarrow> int \<Rightarrow> string set \<Rightarrow> 'a list \<Rightarrow> issue list \<times> string set" where
  "check_each key known unknown duplicate detail index seen [] = ([], seen)"
| "check_each key known unknown duplicate detail index seen (x # xs) =
     (if \<not> known (key x)
      then (case check_each key known unknown duplicate detail (index + 1) seen xs of
              (issues, seen') \<Rightarrow> (unknown index x # issues, seen'))
      else (case check_each key known unknown duplicate detail (index + 1) (insert (key x) seen) xs of
              (issues, seen') \<Rightarrow>
                ((if key x \<in> seen then [duplicate (key x)] else []) @ detail index x @ issues, seen')))"

definition duplicate_need :: "string \<Rightarrow> string \<Rightarrow> issue" where
  "duplicate_need code nid =
     mk_issue code (Format ''information need %q appears more than once'' [StrArg nid])"

section \<open>Dispositions\<close>

definition disposition_detail :: "int \<Rightarrow> need_disposition \<Rightarrow> issue list" where
  "disposition_detail index d =
     (if nd_disposition d \<noteq> DispositionContinue \<and> nd_disposition d \<noteq> DispositionStalled
      then [mk_issue ''search_disposition''
              (Format ''need_dispositions[%d].search_disposition must be continue or stalled'' [IntArg index])]
      else [])"

definition dispositions_incomplete :: issue where
  "dispositions_incomplete =
     mk_issue ''need_dispositions''
       (Text (''need_dispositions must contain every active information need exactly once; '' @
              readInformationNeedsInstruction))"

definition validate_need_dispositions :: "information_need list \<Rightarrow> need_disposition list \<Rightarrow> issue list" where
  "validate_need_dispositions needs ds =
     (if length ds \<noteq> length needs then [dispositions_incomplete]
      else (case check_each nd_need (\<lambda>i. i \<in> need_id ` set needs)
                 (\<lambda>index d. mk_issue ''need_dispositions''
                    (Format ''need_dispositions[%d].information_need_id %q is not an active frozen canonical information-need ID; %s''
                       [IntArg index, StrArg (nd_need d), StrArg readInformationNeedsInstruction]))
                 (duplicate_need ''need_dispositions'') disposition_detail 0 {} ds of
              (issues, seen) \<Rightarrow>
                (if issues \<noteq> [] then issues
                 else if list_ex (\<lambda>need. need_id need \<notin> seen) needs then [dispositions_incomplete]
                 else [])))"

section \<open>Assessments\<close>

definition condition_ids :: "information_need \<Rightarrow> string set" where
  "condition_ids need = sc_id ` set (need_conditions need)"

definition unsatisfied_issue :: "string \<Rightarrow> fmt_arg list \<Rightarrow> issue" where
  "unsatisfied_issue fmt args = mk_issue ''unsatisfied_condition_ids'' (Format fmt args)"

definition condition_issues :: "need_state \<Rightarrow> int \<Rightarrow> string \<Rightarrow> issue list" where
  "condition_issues st index cid =
     (if cid \<notin> condition_ids (ns_need st)
      then [unsatisfied_issue ''assessments[%d] names unknown condition %q'' [IntArg index, StrArg cid]]
      else []) @
     (if ns_assessed st \<and> cid \<notin> ns_unsatisfied st
      then [unsatisfied_issue ''assessments[%d] reopens or adds condition %q'' [IntArg index, StrArg cid]]
      else [])"

definition assessment_detail ::
    "(string \<Rightarrow> need_state option) \<Rightarrow> bool \<Rightarrow> int \<Rightarrow> qc_assessment \<Rightarrow> issue list" where
  "assessment_detail states has_new index a =
     (if qa_status a \<noteq> AssessmentSufficient \<and> qa_status a \<noteq> AssessmentNeedsMore
      then [mk_issue ''assessment_status''
              (Format ''assessments[%d].status must be sufficient or needs_more'' [IntArg index])]
      else []) @
     (if qa_progress a \<noteq> ProgressMaterial \<and> qa_progress a \<noteq> ProgressNone
      then [mk_issue ''evidence_progress''
              (Format ''assessments[%d].evidence_progress must be material or none'' [IntArg index])]
      else []) @
     (if \<not> has_new \<and> qa_progress a = ProgressMaterial
      then [mk_issue ''evidence_progress''
              (Format ''assessments[%d].evidence_progress must be none when the round added no evidence artifacts''
                 [IntArg index])]
      else []) @
     (if qa_status a = AssessmentSufficient \<and> qa_unsatisfied a \<noteq> []
      then [unsatisfied_issue ''assessments[%d] is sufficient and must not list unsatisfied conditions'' [IntArg index]]
      else []) @
     (if qa_status a = AssessmentNeedsMore \<and> qa_unsatisfied a = []
      then [unsatisfied_issue ''assessments[%d] needs_more and must list unsatisfied conditions'' [IntArg index]]
      else []) @
     (if card (set (qa_unsatisfied a)) \<noteq> length (qa_unsatisfied a)
      then [unsatisfied_issue ''assessments[%d] contains duplicate condition IDs'' [IntArg index]]
      else []) @
     (case states (qa_need a) of
        None \<Rightarrow> []
      | Some st \<Rightarrow> concat (map (condition_issues st index) (remdups (qa_unsatisfied a))))"

definition assessments_incomplete :: issue where
  "assessments_incomplete =
     mk_issue ''assessments''
       (Text (''assessments must contain every active information need exactly once; '' @
              readInformationNeedsInstruction))"

definition state_need_id :: "need_state \<Rightarrow> string" where
  "state_need_id st = need_id (ns_need st)"

definition validate_assessments :: "need_state list \<Rightarrow> qc_assessment list \<Rightarrow> bool \<Rightarrow> issue list" where
  "validate_assessments states as has_new =
     (if length as \<noteq> length states then [assessments_incomplete]
      else (let by_id = index_by state_need_id states
            in case check_each qa_need (\<lambda>i. by_id i \<noteq> None)
                 (\<lambda>index a. mk_issue ''assessments''
                    (Format ''assessments[%d].information_need_id %q is not an active frozen canonical information-need ID; %s''
                       [IntArg index, StrArg (qa_need a), StrArg readInformationNeedsInstruction]))
                 (duplicate_need ''assessments'') (assessment_detail by_id has_new) 0 {} as of
              (issues, seen) \<Rightarrow>
                (if issues \<noteq> [] then issues
                 else if list_ex (\<lambda>st. state_need_id st \<notin> seen) states then [assessments_incomplete]
                 else [])))"

section \<open>The life cycle of a need\<close>

definition active_need_states :: "need_state list \<Rightarrow> need_state list" where
  "active_need_states states = filter (\<lambda>st. ns_outcome st = None) states"

definition active_information_needs :: "need_state list \<Rightarrow> information_need list" where
  "active_information_needs states = map ns_need states"

definition new_outcome :: "information_need \<Rightarrow> need_resolution \<Rightarrow> termination_reason \<Rightarrow> need_outcome" where
  "new_outcome need resolution reason =
     \<lparr>no_need = need_id need, no_question = need_question need, no_conditions = need_conditions need,
      no_resolution = resolution, no_reason = reason\<rparr>"

text \<open>What reading a missing key of the two maps gives.\<close>

definition zero_assessment :: qc_assessment where
  "zero_assessment =
     \<lparr>qa_need = [], qa_status = AssessmentOther [], qa_unsatisfied = [], qa_progress = ProgressOther []\<rparr>"

definition zero_disposition :: need_disposition where
  "zero_disposition = \<lparr>nd_need = [], nd_disposition = DispositionOther []\<rparr>"

definition assess_need ::
    "(string \<Rightarrow> need_disposition option) \<Rightarrow> (string \<Rightarrow> qc_assessment option) \<Rightarrow> need_state \<Rightarrow> need_state" where
  "assess_need disposition_by_id assessment_by_id st =
     (if ns_outcome st \<noteq> None then st
      else (let a = (case assessment_by_id (state_need_id st) of None \<Rightarrow> zero_assessment | Some a \<Rightarrow> a)
            in if qa_status a = AssessmentSufficient
               then st\<lparr>ns_outcome := Some (new_outcome (ns_need st) NeedSatisfied ReasonEmpty)\<rparr>
               else (let current = set (qa_unsatisfied a);
                         shrank = (ns_assessed st \<and> card current < card (ns_unsatisfied st));
                         d = (case disposition_by_id (state_need_id st) of
                                None \<Rightarrow> zero_disposition | Some d \<Rightarrow> d);
                         streak = (if nd_disposition d = DispositionStalled
                                      \<and> qa_progress a = ProgressNone \<and> \<not> shrank
                                   then ns_stall st + 1 else 0);
                         st' = st\<lparr>ns_unsatisfied := current, ns_assessed := True, ns_stall := streak\<rparr>
                     in if streak \<ge> 2
                        then st'\<lparr>ns_outcome := Some (new_outcome (ns_need st) NeedUnresolved TerminationSearchStalled)\<rparr>
                        else st')))"

definition exhaust_need :: "need_state \<Rightarrow> need_state" where
  "exhaust_need st =
     (if ns_outcome st = None
      then st\<lparr>ns_outcome := Some (new_outcome (ns_need st) NeedUnresolved TerminationBudgetExhausted)\<rparr>
      else st)"

definition need_outcomes :: "need_state list \<Rightarrow> need_outcome list" where
  "need_outcomes states = List.map_filter ns_outcome states"

definition apply_qc_assessments ::
    "need_disposition list \<Rightarrow> qc_assessment list \<Rightarrow> bool \<Rightarrow> bool \<Rightarrow> need_state list
       \<Rightarrow> assessment_result \<times> need_state list" where
  "apply_qc_assessments ds as budget_exhausted has_new states =
     (let active = active_need_states states;
          disposition_issues = validate_need_dispositions (active_information_needs active) ds
      in if disposition_issues \<noteq> []
         then (\<lparr>ar_accepted = False, ar_issues = disposition_issues, ar_outcomes = [], ar_all_terminal = False\<rparr>, states)
         else
     (let assessment_issues = validate_assessments active as has_new
      in if assessment_issues \<noteq> []
         then (\<lparr>ar_accepted = False, ar_issues = assessment_issues, ar_outcomes = [], ar_all_terminal = False\<rparr>, states)
         else
     (let assessed = map (assess_need (index_by nd_need ds) (index_by qa_need as)) states;
          states' = (if budget_exhausted then map exhaust_need assessed else assessed);
          outcomes = need_outcomes states'
      in (\<lparr>ar_accepted = True, ar_issues = [], ar_outcomes = outcomes,
           ar_all_terminal = (length outcomes = length states')\<rparr>, states'))))"

section \<open>The contract of the coverage loop\<close>

locale exact_cover =
  fixes key :: "'a \<Rightarrow> string"
    and known :: "string \<Rightarrow> bool"
    and unknown :: "int \<Rightarrow> 'a \<Rightarrow> issue"
    and duplicate :: "string \<Rightarrow> issue"
    and detail :: "int \<Rightarrow> 'a \<Rightarrow> issue list"
    and ok :: "'a \<Rightarrow> bool"
  assumes detail_ok: "detail index x = [] \<longleftrightarrow> ok x"
begin

lemma check_each_clean:
  "check_each key known unknown duplicate detail index seen xs = (issues, seen') \<Longrightarrow>
     issues = [] \<longleftrightarrow> (\<forall>x \<in> set xs. known (key x) \<and> ok x) \<and> distinct (map key xs) \<and> key ` set xs \<inter> seen = {}"
proof (induction xs arbitrary: index seen issues)
  case (Cons x xs)
  show ?case
  proof (cases "known (key x)")
    case False
    with Cons.prems show ?thesis by (auto split: prod.splits)
  next
    case True
    with Cons.prems obtain rest where
      rest: "check_each key known unknown duplicate detail (index + 1) (insert (key x) seen) xs = (rest, seen')"
      "issues = (if key x \<in> seen then [duplicate (key x)] else []) @ detail index x @ rest"
      by (auto split: prod.splits)
    from Cons.IH [OF rest(1)] rest(2) True show ?thesis
      by (auto simp: detail_ok)
  qed
qed simp

lemma check_each_seen:
  "check_each key known unknown duplicate detail index seen xs = (issues, seen') \<Longrightarrow>
     \<forall>x \<in> set xs. known (key x) \<Longrightarrow> seen' = seen \<union> key ` set xs"
  by (induction xs arbitrary: index seen issues) (fastforce split: prod.splits)+

text \<open>A list passes the loop and the final look for missing IDs when it covers them exactly once.\<close>

lemma cover_iff:
  assumes "check_each key known unknown duplicate detail index {} xs = (issues, seen)"
    and "\<And>i. known i \<longleftrightarrow> i \<in> set ids"
  shows "issues = [] \<and> \<not> list_ex (\<lambda>i. i \<notin> seen) ids \<longleftrightarrow>
    (\<forall>x \<in> set xs. ok x) \<and> distinct (map key xs) \<and> key ` set xs = set ids"
  using check_each_clean [OF assms(1)] check_each_seen [OF assms(1)] assms(2)
  by (auto simp: list_ex_iff)

end

section \<open>What the two validations accept\<close>

definition disposition_ok :: "need_disposition \<Rightarrow> bool" where
  "disposition_ok d \<longleftrightarrow> nd_disposition d = DispositionContinue \<or> nd_disposition d = DispositionStalled"

definition assessment_ok :: "(string \<Rightarrow> need_state option) \<Rightarrow> bool \<Rightarrow> qc_assessment \<Rightarrow> bool" where
  "assessment_ok states has_new a \<longleftrightarrow>
     (qa_status a = AssessmentSufficient \<and> qa_unsatisfied a = [] \<or>
      qa_status a = AssessmentNeedsMore \<and> qa_unsatisfied a \<noteq> []) \<and>
     (qa_progress a = ProgressNone \<or> qa_progress a = ProgressMaterial \<and> has_new) \<and>
     distinct (qa_unsatisfied a) \<and>
     (\<forall>st. states (qa_need a) = Some st \<longrightarrow>
        set (qa_unsatisfied a) \<subseteq> condition_ids (ns_need st) \<and>
        (ns_assessed st \<longrightarrow> set (qa_unsatisfied a) \<subseteq> ns_unsatisfied st))"

lemma condition_issues_Nil:
  "condition_issues st index cid = [] \<longleftrightarrow>
     cid \<in> condition_ids (ns_need st) \<and> (ns_assessed st \<longrightarrow> cid \<in> ns_unsatisfied st)"
  by (simp add: condition_issues_def)

lemma assessment_detail_Nil:
  "assessment_detail states has_new index a = [] \<longleftrightarrow> assessment_ok states has_new a"
  unfolding assessment_detail_def assessment_ok_def
  by (cases "states (qa_need a)"; cases "qa_status a"; cases "qa_progress a")
     (auto simp: distinct_iff_card_set condition_issues_Nil)

interpretation disposition_cover:
  exact_cover nd_need known unknown duplicate disposition_detail disposition_ok
  for known unknown duplicate
  by unfold_locales (auto simp: disposition_detail_def disposition_ok_def)

interpretation assessment_cover:
  exact_cover qa_need known unknown duplicate "assessment_detail states has_new" "assessment_ok states has_new"
  for known unknown duplicate states has_new
  by unfold_locales (rule assessment_detail_Nil)

definition dispositions_ok :: "information_need list \<Rightarrow> need_disposition list \<Rightarrow> bool" where
  "dispositions_ok needs ds \<longleftrightarrow>
     length ds = length needs \<and> distinct (map nd_need ds) \<and>
     nd_need ` set ds = need_id ` set needs \<and> (\<forall>d \<in> set ds. disposition_ok d)"

definition assessments_ok :: "need_state list \<Rightarrow> qc_assessment list \<Rightarrow> bool \<Rightarrow> bool" where
  "assessments_ok states as has_new \<longleftrightarrow>
     length as = length states \<and> distinct (map qa_need as) \<and>
     qa_need ` set as = state_need_id ` set states \<and>
     (\<forall>a \<in> set as. assessment_ok (index_by state_need_id states) has_new a)"

lemma validate_need_dispositions_Nil:
  "validate_need_dispositions needs ds = [] \<longleftrightarrow> dispositions_ok needs ds"
proof -
  obtain issues seen where loop:
    "check_each nd_need (\<lambda>i. i \<in> need_id ` set needs)
       (\<lambda>index d. mk_issue ''need_dispositions''
          (Format ''need_dispositions[%d].information_need_id %q is not an active frozen canonical information-need ID; %s''
             [IntArg index, StrArg (nd_need d), StrArg readInformationNeedsInstruction]))
       (duplicate_need ''need_dispositions'') disposition_detail 0 {} ds = (issues, seen)"
    by force
  have "list_ex (\<lambda>need. need_id need \<notin> seen) needs = list_ex (\<lambda>i. i \<notin> seen) (map need_id needs)"
    by (simp add: list_ex_iff)
  with disposition_cover.cover_iff [OF loop, of "map need_id needs"]
  have "issues = [] \<and> \<not> list_ex (\<lambda>need. need_id need \<notin> seen) needs \<longleftrightarrow>
      (\<forall>d \<in> set ds. disposition_ok d) \<and> distinct (map nd_need ds) \<and> nd_need ` set ds = need_id ` set needs"
    by simp
  then show ?thesis
    unfolding validate_need_dispositions_def dispositions_ok_def loop prod.case
    by (cases "length ds = length needs"; cases issues) (simp_all, blast+)
qed

lemma validate_assessments_Nil:
  "validate_assessments states as has_new = [] \<longleftrightarrow> assessments_ok states as has_new"
proof -
  obtain issues seen where loop:
    "check_each qa_need (\<lambda>i. index_by state_need_id states i \<noteq> None)
       (\<lambda>index a. mk_issue ''assessments''
          (Format ''assessments[%d].information_need_id %q is not an active frozen canonical information-need ID; %s''
             [IntArg index, StrArg (qa_need a), StrArg readInformationNeedsInstruction]))
       (duplicate_need ''assessments'') (assessment_detail (index_by state_need_id states) has_new) 0 {} as
     = (issues, seen)"
    by force
  have "list_ex (\<lambda>st. state_need_id st \<notin> seen) states = list_ex (\<lambda>i. i \<notin> seen) (map state_need_id states)"
    by (simp add: list_ex_iff)
  with assessment_cover.cover_iff [OF loop, of "map state_need_id states"]
  have "issues = [] \<and> \<not> list_ex (\<lambda>st. state_need_id st \<notin> seen) states \<longleftrightarrow>
      (\<forall>a \<in> set as. assessment_ok (index_by state_need_id states) has_new a) \<and>
      distinct (map qa_need as) \<and> qa_need ` set as = state_need_id ` set states"
    by (simp add: index_by_None)
  then show ?thesis
    unfolding validate_assessments_def assessments_ok_def Let_def loop prod.case
    by (cases "length as = length states"; cases issues) (simp_all, blast+)
qed

section \<open>Canonical IDs\<close>

definition canonical_need_id :: "int \<Rightarrow> string" where
  "canonical_need_id n = ''NEED-'' @ show_int03 n"

definition canonical_condition_id :: "int \<times> int \<Rightarrow> string" where
  "canonical_condition_id nj = canonical_need_id (fst nj) @ ''-SC-'' @ show_int03 (snd nj)"

lemma canonical_need_ids_distinct: "distinct (map canonical_need_id [1..10])"
  by code_simp

lemma canonical_need_id_inj: "inj_on canonical_need_id {1..10}"
  using canonical_need_ids_distinct unfolding distinct_map set_upto by (rule conjunct2)

lemma canonical_need_id_length: "n \<in> {1..10} \<Longrightarrow> length (canonical_need_id n) = 8"
proof -
  have "\<forall>n \<in> set [1..10]. length (canonical_need_id n) = 8" by code_simp
  then show "n \<in> {1..10} \<Longrightarrow> length (canonical_need_id n) = 8" unfolding set_upto by blast
qed

lemma canonical_condition_id_inj: "inj_on canonical_condition_id ({1..10} \<times> {1..5})"
proof -
  have "distinct (map show_int03 [1..5])" by code_simp
  then have "inj_on show_int03 {1..5}" unfolding distinct_map set_upto by (rule conjunct2)
  then show ?thesis
    using canonical_need_id_inj
    by (auto simp: inj_on_def canonical_condition_id_def canonical_need_id_length)
qed

lemma freeze_conditions_ids:
  "map sc_id (freeze_conditions (canonical_need_id n) j cs) =
     map (\<lambda>k. canonical_condition_id (n, k)) [j + 1..j + int (length cs)]"
proof (induction cs arbitrary: j)
  case (Cons c cs)
  have "[j + 1..j + int (length (c # cs))] = (j + 1) # [j + 1 + 1..j + 1 + int (length cs)]"
    by (subst upto_rec1) (simp_all add: algebra_simps)
  with Cons.IH [of "j + 1"] show ?case by (simp add: canonical_condition_id_def)
qed simp

lemma freeze_conditions_texts:
  "map sc_condition (freeze_conditions nid j cs) = map (\<lambda>c. trim_space (ci_condition c)) cs"
  by (induction cs arbitrary: j) simp_all

lemma freeze_needs_ids:
  "map need_id (freeze_needs n xs) = map canonical_need_id [n + 1..n + int (length xs)]"
proof (induction xs arbitrary: n)
  case (Cons x xs)
  have "[n + 1..n + int (length (x # xs))] = (n + 1) # [n + 1 + 1..n + 1 + int (length xs)]"
    by (subst upto_rec1) (simp_all add: algebra_simps)
  with Cons.IH [of "n + 1"] show ?case by (simp add: canonical_need_id_def Let_def)
qed simp

lemma freeze_needs_questions:
  "map need_question (freeze_needs n xs) = map (\<lambda>x. trim_space (in_question x)) xs"
  by (induction xs arbitrary: n) (simp_all add: Let_def)

lemma condition_input_issues_Nil:
  "condition_input_issues n j cs = [] \<longleftrightarrow> (\<forall>c \<in> set cs. \<not> blank (ci_condition c))"
  by (induction cs arbitrary: j) auto

lemma need_input_issues_Nil:
  "need_input_issues n xs = [] \<longleftrightarrow>
     (\<forall>x \<in> set xs. \<not> blank (in_question x) \<and> in_conditions x \<noteq> [] \<and> length (in_conditions x) \<le> 5 \<and>
        (\<forall>c \<in> set (in_conditions x). \<not> blank (ci_condition c)))"
  by (induction xs arbitrary: n) (auto simp: condition_input_issues_Nil)

text \<open>What an accepted plan looks like.\<close>

definition plan_ok :: "need_input list \<Rightarrow> bool" where
  "plan_ok xs \<longleftrightarrow>
     1 \<le> length xs \<and> length xs \<le> 10 \<and>
     (\<forall>x \<in> set xs. \<not> blank (in_question x) \<and> 1 \<le> length (in_conditions x) \<and>
        length (in_conditions x) \<le> 5 \<and> (\<forall>c \<in> set (in_conditions x). \<not> blank (ci_condition c)))"

lemma validate_information_needs_Nil: "validate_information_needs xs = [] \<longleftrightarrow> plan_ok xs"
  by (auto simp: validate_information_needs_def plan_ok_def need_input_issues_Nil Suc_le_eq)

lemma plan_need_ids_distinct:
  assumes "plan_ok xs"
  shows "distinct (map need_id (freeze_needs 0 xs))"
proof -
  have "{1..int (length xs)} \<subseteq> {1..10}" using assms by (auto simp: plan_ok_def)
  with canonical_need_id_inj have "inj_on canonical_need_id {1..int (length xs)}"
    by (rule inj_on_subset)
  then show ?thesis unfolding freeze_needs_ids distinct_map by simp
qed

lemma freeze_needs_conditions:
  "need \<in> set (freeze_needs n xs) \<Longrightarrow>
     \<exists>x k. x \<in> set xs \<and> n < k \<and> k \<le> n + int (length xs) \<and> need_id need = canonical_need_id k \<and>
       need_conditions need = freeze_conditions (canonical_need_id k) 0 (in_conditions x)"
proof (induction xs arbitrary: n)
  case (Cons x xs)
  show ?case
  proof (cases "need \<in> set (freeze_needs (n + 1) xs)")
    case True
    with Cons.IH [OF this] obtain y k where "y \<in> set xs" "n + 1 < k" "k \<le> n + 1 + int (length xs)"
        "need_id need = canonical_need_id k"
        "need_conditions need = freeze_conditions (canonical_need_id k) 0 (in_conditions y)" by blast
    then show ?thesis by (intro exI [of _ y] exI [of _ k]) auto
  next
    case False
    with Cons.prems show ?thesis
      by (intro exI [of _ x] exI [of _ "n + 1"]) (auto simp: Let_def canonical_need_id_def)
  qed
qed simp

lemma plan_condition_ids_distinct:
  assumes "plan_ok xs"
  shows "distinct (concat (map (\<lambda>need. map sc_id (need_conditions need)) (freeze_needs 0 xs)))"
proof -
  note inj = canonical_condition_id_inj
  have "distinct (concat (map (\<lambda>need. map sc_id (need_conditions need)) (freeze_needs n ys))) \<and>
      (\<forall>need \<in> set (freeze_needs n ys). \<forall>c \<in> set (need_conditions need).
         \<exists>k j. n < k \<and> k \<le> 10 \<and> 1 \<le> j \<and> j \<le> 5 \<and> sc_id c = canonical_condition_id (k, j))"
    if "0 \<le> n" "n + int (length ys) \<le> 10" "\<forall>x \<in> set ys. length (in_conditions x) \<le> 5" for n ys
    using that
  proof (induction ys arbitrary: n)
    case (Cons y ys)
    let ?new = "map sc_id (freeze_conditions (canonical_need_id (n + 1)) 0 (in_conditions y))"
    have new: "?new = map (\<lambda>k. canonical_condition_id (n + 1, k)) [1..int (length (in_conditions y))]"
      using freeze_conditions_ids [of "n + 1" 0 "in_conditions y"] by simp
    have IH: "distinct (concat (map (\<lambda>need. map sc_id (need_conditions need)) (freeze_needs (n + 1) ys)))"
        "\<forall>need \<in> set (freeze_needs (n + 1) ys). \<forall>c \<in> set (need_conditions need).
           \<exists>k j. n + 1 < k \<and> k \<le> 10 \<and> 1 \<le> j \<and> j \<le> 5 \<and> sc_id c = canonical_condition_id (k, j)"
      using Cons.IH [of "n + 1"] Cons.prems by auto
    have "inj_on (\<lambda>k. canonical_condition_id (n + 1, k)) (set [1..int (length (in_conditions y))])"
      using Cons.prems by (intro inj_onI) (auto dest!: inj_onD [OF inj])
    then have "distinct ?new" by (simp add: new distinct_map)
    moreover have "set ?new \<inter> set (concat (map (\<lambda>need. map sc_id (need_conditions need)) (freeze_needs (n + 1) ys))) = {}"
      using IH(2) Cons.prems by (auto simp: new dest!: inj_onD [OF inj]) (fastforce dest: inj_onD [OF inj])
    moreover have "\<forall>i \<in> set ?new. \<exists>k j. n < k \<and> k \<le> 10 \<and> 1 \<le> j \<and> j \<le> 5 \<and> i = canonical_condition_id (k, j)"
    proof
      fix i
      assume "i \<in> set ?new"
      then obtain j where "1 \<le> j" "j \<le> int (length (in_conditions y))" "i = canonical_condition_id (n + 1, j)"
        by (auto simp: new)
      with Cons.prems show "\<exists>k j. n < k \<and> k \<le> 10 \<and> 1 \<le> j \<and> j \<le> 5 \<and> i = canonical_condition_id (k, j)"
        by (intro exI [of _ "n + 1"] exI [of _ j]) auto
    qed
    moreover obtain N where N: "freeze_needs n (y # ys) = N # freeze_needs (n + 1) ys"
        "need_conditions N = freeze_conditions (canonical_need_id (n + 1)) 0 (in_conditions y)"
      by (simp add: Let_def canonical_need_id_def)
    moreover have "\<forall>need \<in> set (freeze_needs (n + 1) ys). \<forall>c \<in> set (need_conditions need).
           \<exists>k j. n < k \<and> k \<le> 10 \<and> 1 \<le> j \<and> j \<le> 5 \<and> sc_id c = canonical_condition_id (k, j)"
      using IH(2) by (meson less_trans zless_add1_eq)
    ultimately show ?case using IH(1) by (simp add: N)
  qed simp
  from this [of 0 xs] assms show ?thesis by (auto simp: plan_ok_def)
qed

section \<open>The invariant of the need states\<close>

definition outcome_ok :: "need_state \<Rightarrow> need_outcome \<Rightarrow> bool" where
  "outcome_ok st out \<longleftrightarrow>
     (\<exists>resolution reason. out = new_outcome (ns_need st) resolution reason \<and>
        (resolution = NeedSatisfied \<and> reason = ReasonEmpty \<or>
         resolution = NeedUnresolved \<and> reason = TerminationSearchStalled \<and> ns_stall st = 2 \<or>
         resolution = NeedUnresolved \<and> reason = TerminationBudgetExhausted))"

definition need_state_ok :: "need_state \<Rightarrow> bool" where
  "need_state_ok st \<longleftrightarrow>
     finite (ns_unsatisfied st) \<and> ns_unsatisfied st \<subseteq> condition_ids (ns_need st) \<and>
     0 \<le> ns_stall st \<and> (\<not> ns_assessed st \<longrightarrow> ns_unsatisfied st = {} \<and> ns_stall st = 0) \<and>
     (ns_outcome st = None \<longrightarrow> ns_stall st < 2 \<and> (ns_assessed st \<longrightarrow> ns_unsatisfied st \<noteq> {})) \<and>
     (\<forall>out. ns_outcome st = Some out \<longrightarrow> outcome_ok st out)"

definition need_states_ok :: "need_state list \<Rightarrow> bool" where
  "need_states_ok states \<longleftrightarrow>
     distinct (map state_need_id states) \<and> (\<forall>st \<in> set states. need_state_ok st)"

lemma need_states_ok_plan:
  "plan_ok xs \<Longrightarrow> need_states_ok (map new_need_state (freeze_needs 0 xs))"
  using plan_need_ids_distinct [of xs]
  by (auto simp: need_states_ok_def need_state_ok_def new_need_state_def state_need_id_def comp_def)

text \<open>How one accepted round may change a need.\<close>

definition need_evolves :: "need_state \<Rightarrow> need_state \<Rightarrow> bool" where
  "need_evolves st st' \<longleftrightarrow>
     ns_need st' = ns_need st \<and> (ns_outcome st \<noteq> None \<longrightarrow> st' = st) \<and>
     (ns_assessed st \<longrightarrow> ns_assessed st' \<and> ns_unsatisfied st' \<subseteq> ns_unsatisfied st)"

lemma need_evolves_refl [simp]: "need_evolves st st"
  by (simp add: need_evolves_def)

lemma need_evolves_trans: "need_evolves a b \<Longrightarrow> need_evolves b c \<Longrightarrow> need_evolves a c"
  by (auto simp: need_evolves_def)

lemma exhaust_need_ok: "need_state_ok st \<Longrightarrow> need_state_ok (exhaust_need st)"
  by (auto simp: exhaust_need_def need_state_ok_def outcome_ok_def)

lemma exhaust_need_evolves: "need_evolves st (exhaust_need st)"
  by (auto simp: exhaust_need_def need_evolves_def)

lemma exhaust_need_terminal [simp]: "\<exists>out. ns_outcome (exhaust_need st) = Some out"
  by (auto simp: exhaust_need_def)

text \<open>An accepted assessment of an active need, looked up by its ID.\<close>

lemma active_assessment:
  assumes "need_states_ok states" and "assessments_ok (active_need_states states) as has_new"
    and "st \<in> set states" and "ns_outcome st = None"
  obtains a where "index_by qa_need as (state_need_id st) = Some a" "a \<in> set as"
    "qa_status a = AssessmentSufficient \<and> qa_unsatisfied a = [] \<or>
     qa_status a = AssessmentNeedsMore \<and> qa_unsatisfied a \<noteq> []"
    "set (qa_unsatisfied a) \<subseteq> condition_ids (ns_need st)"
    "ns_assessed st \<Longrightarrow> set (qa_unsatisfied a) \<subseteq> ns_unsatisfied st"
    "qa_progress a = ProgressMaterial \<Longrightarrow> has_new"
proof -
  have act: "st \<in> set (active_need_states states)"
    using assms(3,4) by (simp add: active_need_states_def)
  then have "state_need_id st \<in> qa_need ` set as" using assms(2) by (simp add: assessments_ok_def)
  then obtain a where a: "index_by qa_need as (state_need_id st) = Some a"
    using index_by_None [of qa_need as "state_need_id st"] by auto
  note found = index_by_SomeD [OF a]
  have "distinct (map state_need_id (active_need_states states))"
    using assms(1) by (auto simp: need_states_ok_def active_need_states_def distinct_map inj_on_def)
  then have "index_by state_need_id (active_need_states states) (qa_need a) = Some st"
    using index_by_distinct [OF _ act] found by simp
  with assms(2) found show thesis
    by (intro that [OF a]) (auto simp: assessments_ok_def assessment_ok_def)
qed

lemma assess_need_effect:
  assumes "need_states_ok states" and "assessments_ok (active_need_states states) as has_new"
    and "st \<in> set states"
  shows "need_state_ok (assess_need ds (index_by qa_need as) st) \<and>
    need_evolves st (assess_need ds (index_by qa_need as) st)"
proof (cases "ns_outcome st")
  case (Some out)
  with assms(1,3) show ?thesis by (simp add: assess_need_def need_states_ok_def)
next
  case None
  have ok: "need_state_ok st" using assms(1,3) by (simp add: need_states_ok_def)
  obtain a where a: "index_by qa_need as (state_need_id st) = Some a"
    "qa_status a = AssessmentSufficient \<and> qa_unsatisfied a = [] \<or>
     qa_status a = AssessmentNeedsMore \<and> qa_unsatisfied a \<noteq> []"
    "set (qa_unsatisfied a) \<subseteq> condition_ids (ns_need st)"
    "ns_assessed st \<Longrightarrow> set (qa_unsatisfied a) \<subseteq> ns_unsatisfied st"
    using active_assessment [OF assms None] by metis
  show ?thesis
  proof (cases "qa_status a = AssessmentSufficient")
    case True
    with None a(1) ok show ?thesis
      by (auto simp: assess_need_def need_state_ok_def need_evolves_def outcome_ok_def)
  next
    case False
    with None a ok show ?thesis
      by (auto simp: assess_need_def need_state_ok_def need_evolves_def outcome_ok_def Let_def)
  qed
qed

lemma apply_qc_rejected:
  "apply_qc_assessments ds as b has_new states = (res, states') \<Longrightarrow> \<not> ar_accepted res \<Longrightarrow>
     states' = states \<and> ar_issues res \<noteq> []"
  by (auto simp: apply_qc_assessments_def Let_def split: if_splits)

lemma apply_qc_accepted_iff:
  "ar_accepted (fst (apply_qc_assessments ds as b has_new states)) \<longleftrightarrow>
     dispositions_ok (active_information_needs (active_need_states states)) ds \<and>
     assessments_ok (active_need_states states) as has_new"
  by (simp add: apply_qc_assessments_def Let_def validate_need_dispositions_Nil [symmetric]
      validate_assessments_Nil [symmetric])

lemma apply_qc_states:
  assumes "apply_qc_assessments ds as b has_new states = (res, states')" and "ar_accepted res"
  obtains f where "states' = map f states" "ar_outcomes res = need_outcomes states'"
    "ar_all_terminal res \<longleftrightarrow> length (need_outcomes states') = length states'" "ar_issues res = []"
    "f = (if b then exhaust_need \<circ> assess_need (index_by nd_need ds) (index_by qa_need as)
          else assess_need (index_by nd_need ds) (index_by qa_need as))"
  using assms that [OF _ _ _ _ refl]
  by (auto simp: apply_qc_assessments_def Let_def split: if_splits)

lemma length_need_outcomes:
  "length (need_outcomes states) = length states \<longleftrightarrow> (\<forall>st \<in> set states. ns_outcome st \<noteq> None)"
proof (induction states)
  case (Cons st states)
  have "length (need_outcomes states) \<le> length states"
    by (induction states) (auto simp: need_outcomes_def List.map_filter_simps split: option.splits)
  with Cons show ?case
    by (auto simp: need_outcomes_def List.map_filter_simps split: option.splits)
qed (simp add: need_outcomes_def List.map_filter_simps)

lemma apply_qc_effect:
  assumes "need_states_ok states" and "apply_qc_assessments ds as b has_new states = (res, states')"
  shows "need_states_ok states' \<and> list_all2 need_evolves states states'"
proof (cases "ar_accepted res")
  case False
  with apply_qc_rejected [OF assms(2)] assms(1) show ?thesis by (simp add: list.rel_refl)
next
  case True
  obtain f where f: "states' = map f states"
    "f = (if b then exhaust_need \<circ> assess_need (index_by nd_need ds) (index_by qa_need as)
          else assess_need (index_by nd_need ds) (index_by qa_need as))"
    using apply_qc_states [OF assms(2) True] by metis
  have "assessments_ok (active_need_states states) as has_new"
    using True assms(2) apply_qc_accepted_iff [of ds as b has_new states] by simp
  from assess_need_effect [OF assms(1) this]
  have each: "need_state_ok (f st) \<and> need_evolves st (f st)" if "st \<in> set states" for st
    using that f(2) by (auto intro: exhaust_need_ok need_evolves_trans [OF _ exhaust_need_evolves] split: if_splits)
  then have "map state_need_id states' = map state_need_id states"
    using f(1) by (auto simp: need_evolves_def state_need_id_def)
  then have "distinct (map state_need_id states')"
    using assms(1) by (simp only: need_states_ok_def)
  then have "need_states_ok states'"
    using each f(1) by (simp only: need_states_ok_def) simp
  moreover have "list_all2 need_evolves states states'"
    using each f(1) by (auto simp: list_all2_map2 intro: list.rel_refl_strong)
  ultimately show ?thesis ..
qed

section \<open>Properties\<close>

text \<open>
  The search plan. \<open>validateInformationNeeds\<close> reports no issue exactly for the plans the
  tool describes (one to ten questions with one to five conditions each, none blank), and
  then the frozen plan carries every text trimmed, its need IDs are distinct and so are all
  condition IDs of the whole plan.
\<close>

theorem frozen_plan_is_canonical:
  "(validate_information_needs xs = [] \<longleftrightarrow> plan_ok xs) \<and>
   (plan_ok xs \<longrightarrow>
      map need_question (freeze_needs 0 xs) = map (\<lambda>x. trim_space (in_question x)) xs \<and>
      distinct (map need_id (freeze_needs 0 xs)) \<and>
      distinct (concat (map (\<lambda>need. map sc_id (need_conditions need)) (freeze_needs 0 xs))))"
  by (simp add: validate_information_needs_Nil freeze_needs_questions plan_need_ids_distinct
      plan_condition_ids_distinct)

definition sample_plan :: "need_input list" where
  "sample_plan =
     [\<lparr>in_question = ''who'', in_conditions = [\<lparr>ci_condition = ''a name''\<rparr>, \<lparr>ci_condition = '' a date ''\<rparr>]\<rparr>,
      \<lparr>in_question = ''why'', in_conditions = [\<lparr>ci_condition = ''a motive''\<rparr>]\<rparr>]"

lemma sample_plan_ok: "plan_ok sample_plan"
proof -
  have "validate_information_needs sample_plan = []" by code_simp
  then show ?thesis by (simp only: validate_information_needs_Nil)
qed

theorem frozen_plan_is_canonical_witness:
  "validate_information_needs sample_plan = [] \<and>
   map need_id (freeze_needs 0 sample_plan) = [''NEED-001'', ''NEED-002'']"
proof -
  have "map need_id (freeze_needs 0 sample_plan) = [''NEED-001'', ''NEED-002'']" by code_simp
  with frozen_plan_is_canonical [of sample_plan] sample_plan_ok show ?thesis by blast
qed

text \<open>
  C27: the checkpoint and the verdict cover the active needs exactly once. The two validators
  report no issue exactly when the submitted list is a permutation of the active needs with
  well-formed details: a need is \<open>sufficient\<close> with no open condition or \<open>needs_more\<close> with some,
  the open conditions are distinct conditions of that need and, after the first round, among
  those still open, and progress is claimed only if the round added evidence.
\<close>

theorem validators_accept_exact_covers:
  "(validate_need_dispositions needs ds = [] \<longleftrightarrow> dispositions_ok needs ds) \<and>
   (validate_assessments states as has_new = [] \<longleftrightarrow> assessments_ok states as has_new)"
  by (simp add: validate_need_dispositions_Nil validate_assessments_Nil)

text \<open>
  A need only ever moves forward. Whatever is submitted, applying a verdict keeps the
  needs and their order, never reopens or rewrites an outcome, and after a need's first
  assessment its open conditions only shrink; the invariant of the need states is kept. A
  verdict that is not accepted changes nothing.
\<close>

theorem needs_only_move_forward:
  assumes "need_states_ok states"
    and "apply_qc_assessments ds as budget has_new states = (res, states')"
  shows "need_states_ok states' \<and> list_all2 need_evolves states states' \<and>
    (\<not> ar_accepted res \<longrightarrow> states' = states)"
  using apply_qc_effect [OF assms] apply_qc_rejected [OF assms(2)] by blast

definition sample_states :: "need_state list" where
  "sample_states = map new_need_state (freeze_needs 0 sample_plan)"

definition sample_dispositions :: "need_disposition list" where
  "sample_dispositions =
     [\<lparr>nd_need = ''NEED-001'', nd_disposition = DispositionStalled\<rparr>,
      \<lparr>nd_need = ''NEED-002'', nd_disposition = DispositionContinue\<rparr>]"

definition sample_verdict :: "qc_assessment list" where
  "sample_verdict =
     [\<lparr>qa_need = ''NEED-001'', qa_status = AssessmentNeedsMore,
       qa_unsatisfied = [''NEED-001-SC-002''], qa_progress = ProgressNone\<rparr>,
      \<lparr>qa_need = ''NEED-002'', qa_status = AssessmentSufficient, qa_unsatisfied = [], qa_progress = ProgressMaterial\<rparr>]"

lemma sample_states_ok: "need_states_ok sample_states"
  unfolding sample_states_def by (rule need_states_ok_plan [OF sample_plan_ok])

lemma sample_verdict_accepted:
  "ar_accepted (fst (apply_qc_assessments sample_dispositions sample_verdict False True sample_states))"
  by code_simp

theorem needs_only_move_forward_witness:
  "list_all2 need_evolves sample_states
     (snd (apply_qc_assessments sample_dispositions sample_verdict False True sample_states))"
  using needs_only_move_forward [OF sample_states_ok,
      of sample_dispositions sample_verdict False True
         "fst (apply_qc_assessments sample_dispositions sample_verdict False True sample_states)"
         "snd (apply_qc_assessments sample_dispositions sample_verdict False True sample_states)"]
  by simp

text \<open>
  When the budget is spent every need is closed. An accepted verdict with an exhausted
  round budget leaves no need without an outcome, so it always reports \<open>AllTerminal\<close>; in
  general \<open>AllTerminal\<close> is reported exactly when every need has an outcome.
\<close>

theorem exhausted_budget_closes_every_need:
  assumes "apply_qc_assessments ds as budget has_new states = (res, states')" and "ar_accepted res"
  shows "(ar_all_terminal res \<longleftrightarrow> (\<forall>st \<in> set states'. ns_outcome st \<noteq> None)) \<and>
    (budget \<longrightarrow> ar_all_terminal res)"
proof -
  obtain f where "states' = map f states"
    "ar_all_terminal res \<longleftrightarrow> length (need_outcomes states') = length states'"
    "f = (if budget then exhaust_need \<circ> assess_need (index_by nd_need ds) (index_by qa_need as)
          else assess_need (index_by nd_need ds) (index_by qa_need as))"
    using apply_qc_states [OF assms] by metis
  moreover from this have "budget \<longrightarrow> (\<forall>st \<in> set states'. ns_outcome st \<noteq> None)"
    by auto
  ultimately show ?thesis using length_need_outcomes [of states'] by blast
qed

theorem exhausted_budget_closes_every_need_witness:
  "\<not> ar_all_terminal (fst (apply_qc_assessments sample_dispositions sample_verdict False True sample_states)) \<and>
   ar_all_terminal (fst (apply_qc_assessments sample_dispositions sample_verdict True True sample_states))"
proof -
  have "ar_accepted (fst (apply_qc_assessments sample_dispositions sample_verdict True True sample_states))"
    and "\<not> ar_all_terminal (fst (apply_qc_assessments sample_dispositions sample_verdict False True sample_states))"
    by code_simp+
  with exhausted_budget_closes_every_need [of sample_dispositions sample_verdict True True sample_states
      "fst (apply_qc_assessments sample_dispositions sample_verdict True True sample_states)"
      "snd (apply_qc_assessments sample_dispositions sample_verdict True True sample_states)"]
  show ?thesis by (metis prod.collapse)
qed

end
