(* ===== verification/Collection_Context.thy ===== *)
theory Collection_Context
  imports Collection_Needs Workflow_State Artifact_Registry
begin

text \<open>
  The protocol context of \<^verbatim>\<open>internal/collection/tools.go\<close>: one Collection phase, its
  workflow state, its evidence and its gates, with the three protocol tools as the handlers
  that change it. Every handler and gate holds the context's mutex from its first read to its
  last write, so each is one atomic step of the model. The registry the context points to is
  a field of the record; the file system is passed along separately. A pointer to a context
  is never nil here, so the nil guards of the methods are left out.
\<close>

section \<open>State\<close>

record artifact_target =
  at_path :: string
  at_directory :: bool

record coll_context =
  cc_workspace :: string
  cc_state :: wf_state
  cc_artifacts :: registry
  cc_batch :: int
  cc_evidence :: "string list"
  cc_reviewed :: "string set"
  cc_checkpointed :: "string set"
  cc_targets :: "artifact_target list"
  cc_needs :: "information_need list"
  cc_need_states :: "need_state list"
  cc_active_calls :: int
  cc_checkpoint_accepted :: bool
  cc_last_round_had :: bool

record need_state_snapshot =
  nss_need :: information_need
  nss_unsatisfied :: "string list"
  nss_assessed :: bool
  nss_stall :: int
  nss_outcome :: "need_outcome option"

record coll_snapshot =
  cs_workspace :: string
  cs_state :: wf_snapshot
  cs_evidence :: "string list"
  cs_reviewed :: "string list"
  cs_checkpointed :: "string list"
  cs_targets :: "artifact_target list"
  cs_needs :: "information_need list"
  cs_need_states :: "need_state_snapshot list"
  cs_checkpoint_accepted :: bool
  cs_last_round_had :: bool

definition new_context :: "string \<Rightarrow> int \<Rightarrow> int option \<Rightarrow> registry option \<Rightarrow> coll_context" where
  "new_context workspace batch_size max_rounds artifacts =
     (let batch = (if batch_size = 0 then DefaultBatchSize else batch_size)
      in \<lparr>cc_workspace = workspace,
          cc_state = wf_new \<lparr>cfg_max_rounds = max_rounds, cfg_batch_size = batch\<rparr>,
          cc_artifacts = (case artifacts of None \<Rightarrow> new_registry | Some r \<Rightarrow> r),
          cc_batch = batch, cc_evidence = [], cc_reviewed = {}, cc_checkpointed = {},
          cc_targets = [], cc_needs = [], cc_need_states = [], cc_active_calls = 0,
          cc_checkpoint_accepted = False, cc_last_round_had = False\<rparr>)"

section \<open>Checkpoints\<close>

definition save_need_state :: "need_state \<Rightarrow> need_state_snapshot" where
  "save_need_state st =
     \<lparr>nss_need = ns_need st, nss_unsatisfied = sorted_list_of_set (ns_unsatisfied st),
      nss_assessed = ns_assessed st, nss_stall = ns_stall st, nss_outcome = ns_outcome st\<rparr>"

definition load_need_state :: "need_state_snapshot \<Rightarrow> need_state" where
  "load_need_state saved =
     \<lparr>ns_need = nss_need saved, ns_unsatisfied = set (nss_unsatisfied saved),
      ns_assessed = nss_assessed saved, ns_stall = nss_stall saved, ns_outcome = nss_outcome saved\<rparr>"

definition coll_snapshot_of :: "coll_context \<Rightarrow> coll_snapshot" where
  "coll_snapshot_of c =
     \<lparr>cs_workspace = cc_workspace c, cs_state = wf_snapshot_of (cc_state c),
      cs_evidence = cc_evidence c, cs_reviewed = sorted_list_of_set (cc_reviewed c),
      cs_checkpointed = sorted_list_of_set (cc_checkpointed c), cs_targets = cc_targets c,
      cs_needs = cc_needs c, cs_need_states = map save_need_state (cc_need_states c),
      cs_checkpoint_accepted = cc_checkpoint_accepted c, cs_last_round_had = cc_last_round_had c\<rparr>"

definition coll_restore :: "coll_snapshot \<Rightarrow> coll_context \<Rightarrow> error + coll_context" where
  "coll_restore snap c =
     (if clean (cs_workspace snap) \<noteq> clean (cc_workspace c)
      then Inl (Format ''checkpoint collection workspace %q does not match %q''
             [StrArg (cs_workspace snap), StrArg (cc_workspace c)])
      else (case wf_restore (cc_state c) (cs_state snap) of
         Inl e \<Rightarrow> Inl (Format ''restore collection workflow state: %w'' [TextArg (wf_error_text e)])
       | Inr state \<Rightarrow>
           Inr (c\<lparr>cc_state := state, cc_evidence := cs_evidence snap,
                  cc_reviewed := set (cs_reviewed snap),
                  cc_checkpointed := set (cs_checkpointed snap), cc_targets := cs_targets snap,
                  cc_needs := cs_needs snap,
                  cc_need_states := map load_need_state (cs_need_states snap),
                  cc_active_calls := 0, cc_checkpoint_accepted := cs_checkpoint_accepted snap,
                  cc_last_round_had := cs_last_round_had snap\<rparr>)))"

section \<open>Evidence under review\<close>

definition mark_evidence_reviewed :: "string \<Rightarrow> coll_context \<Rightarrow> coll_context" where
  "mark_evidence_reviewed i c = c\<lparr>cc_reviewed := insert i (cc_reviewed c)\<rparr>"

definition reviewed_evidence_ids :: "coll_context \<Rightarrow> string list" where
  "reviewed_evidence_ids c = filter (\<lambda>i. i \<in> cc_reviewed c) (cc_evidence c)"

definition coll_validate :: "coll_context \<Rightarrow> error option" where
  "coll_validate c =
     (if cc_workspace c = [] then Some (Text ''collection workspace is required'')
      else if cc_batch c \<le> 0 then Some (Text ''collection batch size must be positive'')
      else None)"

definition begin_workflow :: "coll_context \<Rightarrow> error + coll_context" where
  "begin_workflow c =
     (case coll_validate c of
        Some e \<Rightarrow> Inl e
      | None \<Rightarrow>
          (case wf_begin (cc_state c) of
             Inl e \<Rightarrow> Inl (wf_error_text e)
           | Inr s \<Rightarrow> Inr (c\<lparr>cc_state := s\<rparr>)))"

text \<open>\<open>rejection\<close> and \<open>infrastructureRejection\<close>: one issue, from a text or from an error.\<close>

definition rejection :: "string \<Rightarrow> message \<Rightarrow> 'a tool_response" where
  "rejection code m = reject_issues [mk_issue code m]"

section \<open>The information-needs tool\<close>

definition set_information_needs ::
    "need_input list \<Rightarrow> coll_context \<Rightarrow> information_need list tool_response \<times> coll_context" where
  "set_information_needs args c0 =
     (case begin_workflow c0 of
        Inl e \<Rightarrow> (rejection ''context_validation'' e, c0)
      | Inr c \<Rightarrow>
          (if cc_needs c \<noteq> []
           then (rejection ''information_needs_frozen''
                   (Text ''information needs are already frozen and cannot be changed''), c)
           else (let issues = validate_information_needs args
                 in if issues \<noteq> [] then (reject_issues issues, c)
                    else (let needs = freeze_needs 0 args
                          in (accept needs,
                              c\<lparr>cc_needs := needs, cc_need_states := map new_need_state needs\<rparr>)))))"

section \<open>Gates\<close>

definition collectionRoundCompleteMessage :: string where
  "collectionRoundCompleteMessage =
     ''r42_collection_checkpoint already accepted for this round. '' @
     ''End your current assistant reply immediately without any further tool calls. '' @
     ''Ending this reply is how you wait for Collection QC: the host can start Collection QC only after this reply ends. '' @
     ''Do not poll for QC or call checkpoint again''"

definition needs_frozen :: "coll_context \<Rightarrow> bool" where
  "needs_frozen c \<longleftrightarrow> cc_needs c \<noteq> []"

definition collection_round_gate :: "coll_context \<Rightarrow> error option" where
  "collection_round_gate c =
     (if cc_checkpoint_accepted c then Some (Text collectionRoundCompleteMessage) else None)"

definition collection_tool_gate :: "coll_context \<Rightarrow> error option" where
  "collection_tool_gate c =
     (if \<not> needs_frozen c
      then Some (Text ''call r42_set_information_needs before any non-read-only Collection tool'')
      else if cc_checkpoint_accepted c then Some (Text collectionRoundCompleteMessage)
      else None)"

text \<open>
  A successful \<open>BeginCollectionToolCall\<close> hands out a release function guarded by a
  \<open>sync.Once\<close>; its captured state is a flag that says whether it has run.
\<close>

record lease =
  lease_done :: bool

definition begin_tool_call :: "coll_context \<Rightarrow> error + lease \<times> coll_context" where
  "begin_tool_call c =
     (case collection_tool_gate c of
        Some e \<Rightarrow> Inl e
      | None \<Rightarrow> Inr (\<lparr>lease_done = False\<rparr>, c\<lparr>cc_active_calls := cc_active_calls c + 1\<rparr>))"

definition release_tool_call :: "lease \<Rightarrow> coll_context \<Rightarrow> lease \<times> coll_context" where
  "release_tool_call l c =
     (if lease_done l then (l, c)
      else (l\<lparr>lease_done := True\<rparr>, c\<lparr>cc_active_calls := cc_active_calls c - 1\<rparr>))"

definition begin_next_round :: "coll_context \<Rightarrow> coll_context" where
  "begin_next_round c = c\<lparr>cc_checkpoint_accepted := False\<rparr>"

section \<open>Collection QC on the context\<close>

definition validate_qc_assessments :: "qc_assessment list \<Rightarrow> bool \<Rightarrow> coll_context \<Rightarrow> issue list" where
  "validate_qc_assessments as has_new c =
     validate_assessments (active_need_states (cc_need_states c)) as has_new"

definition apply_qc ::
    "need_disposition list \<Rightarrow> qc_assessment list \<Rightarrow> bool \<Rightarrow> bool \<Rightarrow> coll_context
       \<Rightarrow> assessment_result \<times> coll_context" where
  "apply_qc ds as budget_exhausted has_new c =
     (case apply_qc_assessments ds as budget_exhausted has_new (cc_need_states c) of
        (res, states) \<Rightarrow> (res, c\<lparr>cc_need_states := states\<rparr>))"

record active_need =
  an_need :: information_need
  an_unsatisfied :: "string list"

definition active_needs_of :: "coll_context \<Rightarrow> information_need list" where
  "active_needs_of c = active_information_needs (active_need_states (cc_need_states c))"

definition active_information_need_states :: "coll_context \<Rightarrow> active_need list" where
  "active_information_need_states c =
     map (\<lambda>st. \<lparr>an_need = ns_need st, an_unsatisfied = sorted_list_of_set (ns_unsatisfied st)\<rparr>)
       (active_need_states (cc_need_states c))"

section \<open>Artifact targets\<close>

definition add_artifact_target ::
    "'fs os \<Rightarrow> string \<Rightarrow> bool \<Rightarrow> coll_context \<Rightarrow> error + coll_context" where
  "add_artifact_target os path directory c =
     (case os_abs os path of
        Inl e \<Rightarrow> Inl (Format ''resolve artifact target: %w'' [TextArg e])
      | Inr resolved \<Rightarrow>
     (case os_abs os (cc_workspace c) of
        Inl e \<Rightarrow> Inl (Format ''resolve collection workspace: %w'' [TextArg e])
      | Inr workspace \<Rightarrow>
         (if \<not> path_within workspace resolved
          then Inl (Format ''artifact target %q is outside the collection workspace'' [StrArg path])
          else Inr (c\<lparr>cc_targets := cc_targets c @ [\<lparr>at_path = resolved, at_directory = directory\<rparr>]\<rparr>))))"

definition target_allows :: "string \<Rightarrow> artifact_target \<Rightarrow> bool" where
  "target_allows path t \<longleftrightarrow>
     (if at_directory t then path_within (at_path t) path else clean (at_path t) = clean path)"

definition allows_artifact_path :: "string \<Rightarrow> coll_context \<Rightarrow> bool" where
  "allows_artifact_path path c = list_ex (target_allows path) (cc_targets c)"

section \<open>The registration tool\<close>

record register_args =
  ra_path :: string
  ra_call :: string
  ra_source :: string
  ra_description :: string

record registration_output =
  ro_id :: string
  ro_path :: string
  ro_description :: string

definition register_tool ::
    "'fs os \<Rightarrow> string \<Rightarrow> register_args \<Rightarrow> 'fs \<Rightarrow> coll_context
       \<Rightarrow> registration_output tool_response \<times> 'fs \<times> coll_context" where
  "register_tool os uuid args fs c0 =
     (case begin_workflow c0 of
        Inl e \<Rightarrow> (rejection ''context_validation'' e, fs, c0)
      | Inr c \<Rightarrow>
     (if \<not> needs_frozen c
      then (rejection ''information_needs_required''
              (Text ''call r42_set_information_needs before collecting evidence''), fs, c)
      else if cc_checkpoint_accepted c
      then (rejection ''collection_round_complete'' (Text collectionRoundCompleteMessage), fs, c)
      else if (ra_path args \<noteq> []) = (ra_call args \<noteq> [])
      then (rejection ''exactly_one_source''
              (Text ''provide exactly one of path or source_tool_call_id''), fs, c)
      else (case (if ra_path args \<noteq> []
                  then register_evidence os uuid (cc_workspace c) (ra_path args) (ra_source args)
                         (ra_description args) fs (cc_artifacts c)
                  else register_retained_evidence os uuid (cc_workspace c) (ra_call args)
                         (ra_source args) (ra_description args) fs (cc_artifacts c)) of
        (Inl e, fs', artifacts) \<Rightarrow>
          (rejection ''invalid_evidence_artifact'' e, fs', c\<lparr>cc_artifacts := artifacts\<rparr>)
      | (Inr (record, created), fs', artifacts) \<Rightarrow>
          (let c1 = c\<lparr>cc_artifacts := artifacts\<rparr>;
               output = \<lparr>ro_id = rec_id record, ro_path = rec_path record,
                         ro_description = rec_description record\<rparr>
           in if created
              then (case wf_register_evidence (cc_state c1) of
                      Inl e \<Rightarrow> (rejection ''state_update'' (wf_error_text e), fs', c1)
                    | Inr s \<Rightarrow> (accept output, fs',
                                c1\<lparr>cc_state := s, cc_evidence := cc_evidence c1 @ [rec_id record]\<rparr>))
              else (accept output, fs', c1)))))"

section \<open>The checkpoint tool\<close>

record checkpoint_args =
  ca_empty_reason :: string
  ca_dispositions :: "need_disposition list"

record checkpoint_output =
  co_artifacts :: "string list"
  co_empty_reason :: string
  co_dispositions :: "need_disposition list"

definition pending_evidence :: "coll_context \<Rightarrow> string list" where
  "pending_evidence c = filter (\<lambda>i. i \<notin> cc_checkpointed c) (cc_evidence c)"

definition checkpoint_tool ::
    "checkpoint_args \<Rightarrow> coll_context \<Rightarrow> checkpoint_output tool_response \<times> coll_context" where
  "checkpoint_tool args c0 =
     (case begin_workflow c0 of
        Inl e \<Rightarrow> (rejection ''context_validation'' e, c0)
      | Inr c \<Rightarrow>
     (if \<not> needs_frozen c
      then (rejection ''information_needs_required''
              (Text ''call r42_set_information_needs before submitting a collection checkpoint''), c)
      else if cc_checkpoint_accepted c
      then (rejection ''collection_round_complete'' (Text collectionRoundCompleteMessage), c)
      else if cc_active_calls c > 0
      then (rejection ''collection_tools_in_flight''
              (Text ''wait for active Collection tool calls to finish before submitting the checkpoint''), c)
      else (let issues = validate_need_dispositions (active_needs_of c) (ca_dispositions args)
            in if issues \<noteq> [] then (reject_issues issues, c)
      else (let pending = pending_evidence c
            in if pending = [] \<and> blank (ca_empty_reason args)
               then (rejection ''empty_checkpoint''
                       (Text ''no evidence artifacts are pending; provide an empty_reason explaining why''), c)
               else if pending \<noteq> [] \<and> ca_empty_reason args \<noteq> []
               then (rejection ''empty_checkpoint''
                       (Text ''evidence artifacts are pending; empty_reason is only allowed for an empty checkpoint''), c)
               else (case (if pending \<noteq> [] then wf_checkpoint (cc_state c) else Inr (cc_state c)) of
                  Inl e \<Rightarrow> (rejection ''checkpoint_failed'' (wf_error_text e), c)
                | Inr s \<Rightarrow>
                    (accept \<lparr>co_artifacts = pending, co_empty_reason = ca_empty_reason args,
                             co_dispositions = ca_dispositions args\<rparr>,
                     c\<lparr>cc_state := s, cc_checkpointed := cc_checkpointed c \<union> set pending,
                       cc_checkpoint_accepted := True, cc_last_round_had := (pending \<noteq> [])\<rparr>))))))"

section \<open>The invariant\<close>

definition evidence_inv :: "coll_context \<Rightarrow> bool" where
  "evidence_inv c \<longleftrightarrow>
     distinct (cc_evidence c) \<and> set (cc_evidence c) \<subseteq> evidence_ids (cc_artifacts c) \<and>
     cc_checkpointed c \<subseteq> set (cc_evidence c) \<and>
     wf_unreviewed (cc_state c) = int (length (pending_evidence c)) \<and>
     (cc_checkpoint_accepted c \<longrightarrow> pending_evidence c = [])"

definition plan_inv :: "coll_context \<Rightarrow> bool" where
  "plan_inv c \<longleftrightarrow> map ns_need (cc_need_states c) = cc_needs c \<and> need_states_ok (cc_need_states c)"

definition coll_inv :: "coll_context \<Rightarrow> bool" where
  "coll_inv c \<longleftrightarrow>
     wf_inv (cc_state c) \<and> reg_ready (cc_artifacts c) \<and> wf_batch (cc_state c) = cc_batch c \<and>
     finite (cc_reviewed c) \<and> evidence_inv c \<and> plan_inv c \<and>
     (\<not> wf_begun (cc_state c) \<longrightarrow> cc_evidence c = [] \<and> cc_needs c = [] \<and> \<not> cc_checkpoint_accepted c)"

lemma coll_invD:
  assumes "coll_inv c"
  shows "wf_inv (cc_state c)" and "reg_ready (cc_artifacts c)" and "wf_batch (cc_state c) = cc_batch c"
    and "evidence_inv c" and "plan_inv c" and "finite (cc_reviewed c)"
  using assms by (simp_all add: coll_inv_def)

text \<open>An update that keeps what the invariant reads keeps the invariant.\<close>

lemma coll_inv_cong:
  assumes "coll_inv c"
    and "cc_state d = cc_state c" "cc_artifacts d = cc_artifacts c" "cc_batch d = cc_batch c"
    and "cc_evidence d = cc_evidence c" "cc_checkpointed d = cc_checkpointed c"
    and "cc_needs d = cc_needs c" "cc_need_states d = cc_need_states c"
    and "cc_checkpoint_accepted d \<longrightarrow> cc_checkpoint_accepted c"
    and "finite (cc_reviewed c) \<longrightarrow> finite (cc_reviewed d)"
  shows "coll_inv d"
  using assms by (auto simp: coll_inv_def evidence_inv_def plan_inv_def pending_evidence_def)

lemma coll_inv_new:
  assumes "\<And>r. artifacts = Some r \<Longrightarrow> reg_ready r"
  shows "coll_inv (new_context ws batch max_rounds artifacts)"
  using assms wf_inv_new
  by (cases artifacts)
     (simp_all add: new_context_def coll_inv_def evidence_inv_def plan_inv_def pending_evidence_def
       need_states_ok_def Let_def wf_new_def [of "\<lparr>cfg_max_rounds = max_rounds, cfg_batch_size = _\<rparr>"]
       DefaultBatchSize_def wf_inv_def split: if_split)

text \<open>A workflow operation on the state, where evidence and its count do not change.\<close>

lemma coll_inv_state:
  assumes "coll_inv c" and "wf_inv s" and "wf_batch s = wf_batch (cc_state c)"
    and "wf_unreviewed s = wf_unreviewed (cc_state c)"
    and "wf_begun (cc_state c) \<longrightarrow> wf_begun s"
  shows "coll_inv (c\<lparr>cc_state := s\<rparr>)"
  using assms by (auto simp: coll_inv_def evidence_inv_def plan_inv_def pending_evidence_def)

lemma wf_begin_frame:
  "wf_begin s = Inr t \<Longrightarrow> wf_begun t \<and> wf_batch t = wf_batch s \<and> wf_unreviewed t = wf_unreviewed s \<and>
     wf_max t = wf_max s \<and> 0 < wf_batch t \<and> (wf_begun s \<longrightarrow> t = s)"
  by (auto simp: wf_begin_def split: if_splits)

lemma begin_workflow_cases:
  assumes "begin_workflow c = Inr d"
  obtains s where "d = c\<lparr>cc_state := s\<rparr>" "wf_begin (cc_state c) = Inr s" "coll_validate c = None"
  using assms by (auto simp: begin_workflow_def split: option.splits sum.splits)

lemma begin_workflow_inv:
  assumes "coll_inv c" and "begin_workflow c = Inr d"
  shows "coll_inv d \<and> wf_begun (cc_state d) \<and> (wf_begun (cc_state c) \<longrightarrow> d = c)"
  using assms(2)
proof (cases rule: begin_workflow_cases)
  case (1 s)
  note frame = wf_begin_frame [OF 1(2)]
  have "coll_inv d"
    unfolding 1(1) using assms(1) coll_invD(1) [OF assms(1)] wf_begin_inv 1(2) frame
    by (intro coll_inv_state) auto
  with 1(1) frame show ?thesis by auto
qed

section \<open>Every operation keeps the invariant\<close>

lemma set_information_needs_inv:
  assumes "coll_inv c" and "set_information_needs args c = (res, d)"
  shows "coll_inv d"
proof (cases "begin_workflow c")
  case (Inl e)
  with assms show ?thesis by (simp add: set_information_needs_def)
next
  case (Inr b)
  note b = begin_workflow_inv [OF assms(1) Inr]
  show ?thesis
  proof (cases "cc_needs b = [] \<and> plan_ok args")
    case True
    then have "d = b\<lparr>cc_needs := freeze_needs 0 args,
                      cc_need_states := map new_need_state (freeze_needs 0 args)\<rparr>"
      using assms(2) Inr by (simp add: set_information_needs_def Let_def validate_information_needs_Nil)
    with True b need_states_ok_plan [of args] show ?thesis
      by (auto simp: coll_inv_def evidence_inv_def plan_inv_def pending_evidence_def comp_def new_need_state_def)
  next
    case False
    then have "d = b"
      using assms(2) Inr
      by (auto simp: set_information_needs_def Let_def validate_information_needs_Nil split: if_splits)
    with b show ?thesis by simp
  qed
qed

lemma wf_register_evidence_ok:
  assumes "wf_begun s" and "0 < wf_batch s"
  obtains t where "wf_register_evidence s = Inr t" "wf_unreviewed t = wf_unreviewed s + 1"
    "wf_begun t" "wf_batch t = wf_batch s"
  using assms that by (auto simp: wf_register_evidence_def Let_def)

text \<open>The registration tool's outcomes; the \<open>state_update\<close> rejection cannot occur.\<close>

lemma register_tool_cases:
  assumes "coll_inv c" and "fresh_uuid uuid (cc_artifacts c)"
    and "register_tool os uuid args fs c = (res, fs', d)"
  obtains (invalid) e where "begin_workflow c = Inl e" "d = c" "\<not> resp_accepted res"
  | (refused) b where "begin_workflow c = Inr b" "d = b" "\<not> resp_accepted res"
      "fs' = fs"
  | (failed) b artifacts where "begin_workflow c = Inr b" "d = b\<lparr>cc_artifacts := artifacts\<rparr>"
      "needs_frozen b" "\<not> cc_checkpoint_accepted b"
      "\<not> resp_accepted res" "reg_ready artifacts" "evidence_ids artifacts = evidence_ids (cc_artifacts b)"
  | (again) b artifacts where "begin_workflow c = Inr b" "d = b\<lparr>cc_artifacts := artifacts\<rparr>"
      "needs_frozen b" "\<not> cc_checkpoint_accepted b"
      "resp_accepted res" "reg_ready artifacts" "evidence_ids artifacts = evidence_ids (cc_artifacts b)"
  | (created) b artifacts s i where "begin_workflow c = Inr b"
      "d = b\<lparr>cc_artifacts := artifacts, cc_state := s, cc_evidence := cc_evidence b @ [i]\<rparr>"
      "needs_frozen b" "\<not> cc_checkpoint_accepted b"
      "wf_register_evidence (cc_state b) = Inr s"
      "resp_accepted res" "reg_ready artifacts" "i \<notin> evidence_ids (cc_artifacts b)"
      "evidence_ids artifacts = insert i (evidence_ids (cc_artifacts b))"
proof (cases "begin_workflow c")
  case (Inl e)
  with assms(3) show thesis by (intro invalid) (auto simp: register_tool_def rejection_def)
next
  case (Inr b)
  note b = begin_workflow_inv [OF assms(1) Inr]
  have fresh: "fresh_uuid uuid (cc_artifacts b)"
    using Inr assms(2) by (cases rule: begin_workflow_cases) simp
  show thesis
  proof (cases "needs_frozen b \<and> \<not> cc_checkpoint_accepted b \<and> (ra_path args \<noteq> []) \<noteq> (ra_call args \<noteq> [])")
    case False
    with assms(3) Inr show thesis
      by (intro refused [OF Inr]) (auto simp: register_tool_def rejection_def split: if_splits)
  next
    case True
    define out where "out = (if ra_path args \<noteq> []
                  then register_evidence os uuid (cc_workspace b) (ra_path args) (ra_source args)
                         (ra_description args) fs (cc_artifacts b)
                  else register_retained_evidence os uuid (cc_workspace b) (ra_call args)
                         (ra_source args) (ra_description args) fs (cc_artifacts b))"
    obtain reg fs1 artifacts where out: "out = (reg, fs1, artifacts)" by (metis prod_cases3)
    note binv = coll_invD [OF conjunct1 [OF b]]
    have keeps: "reg_ready artifacts \<and>
        (\<forall>rec. reg = Inr (rec, True) \<longrightarrow> rec_id rec \<notin> evidence_ids (cc_artifacts b) \<and>
            evidence_ids artifacts = insert (rec_id rec) (evidence_ids (cc_artifacts b))) \<and>
        ((\<nexists>rec. reg = Inr (rec, True)) \<longrightarrow> evidence_ids artifacts = evidence_ids (cc_artifacts b))"
    proof (cases "ra_path args \<noteq> []")
      case True
      with out have eq: "register_evidence os uuid (cc_workspace b) (ra_path args) (ra_source args)
                         (ra_description args) fs (cc_artifacts b) = (reg, fs1, artifacts)"
        by (simp add: out_def)
      show ?thesis
      proof (intro conjI allI impI)
        show "reg_ready artifacts" by (rule path_store.register_inv [OF binv(2) fresh eq])
        show "evidence_ids artifacts = evidence_ids (cc_artifacts b)" if "\<nexists>rec. reg = Inr (rec, True)"
          by (rule path_store.register_other [OF binv(2) fresh eq that])
        show "rec_id rec \<notin> evidence_ids (cc_artifacts b)"
            "evidence_ids artifacts = insert (rec_id rec) (evidence_ids (cc_artifacts b))"
          if "reg = Inr (rec, True)" for rec
          using path_store.register_created [OF binv(2) fresh eq [unfolded that]] by auto
      qed
    next
      case False
      with out have eq: "register_retained_evidence os uuid (cc_workspace b) (ra_call args) (ra_source args)
                         (ra_description args) fs (cc_artifacts b) = (reg, fs1, artifacts)"
        by (simp add: out_def)
      show ?thesis
      proof (intro conjI allI impI)
        show "reg_ready artifacts" by (rule retained_store.register_inv [OF binv(2) fresh eq])
        show "evidence_ids artifacts = evidence_ids (cc_artifacts b)" if "\<nexists>rec. reg = Inr (rec, True)"
          by (rule retained_store.register_other [OF binv(2) fresh eq that])
        show "rec_id rec \<notin> evidence_ids (cc_artifacts b)"
            "evidence_ids artifacts = insert (rec_id rec) (evidence_ids (cc_artifacts b))"
          if "reg = Inr (rec, True)" for rec
          using retained_store.register_created [OF binv(2) fresh eq [unfolded that]] by auto
      qed
    qed
    have gates: "needs_frozen b" "\<not> cc_checkpoint_accepted b" using True by auto
    have step: "register_tool os uuid args fs c =
       (case (reg, fs1, artifacts) of
        (Inl e, fs', artifacts) \<Rightarrow>
          (rejection ''invalid_evidence_artifact'' e, fs', b\<lparr>cc_artifacts := artifacts\<rparr>)
      | (Inr (record, created), fs', artifacts) \<Rightarrow>
          (let c1 = b\<lparr>cc_artifacts := artifacts\<rparr>;
               output = \<lparr>ro_id = rec_id record, ro_path = rec_path record,
                         ro_description = rec_description record\<rparr>
           in if created
              then (case wf_register_evidence (cc_state c1) of
                      Inl e \<Rightarrow> (rejection ''state_update'' (wf_error_text e), fs', c1)
                    | Inr s \<Rightarrow> (accept output, fs',
                                c1\<lparr>cc_state := s, cc_evidence := cc_evidence c1 @ [rec_id record]\<rparr>))
              else (accept output, fs', c1)))"
      using True Inr out [unfolded out_def] by (auto simp: register_tool_def)
    show thesis
    proof (cases reg)
      case (Inl e)
      with assms(3) step keeps gates show thesis
        by (intro failed [OF \<open>begin_workflow c = Inr b\<close>, where artifacts = artifacts]) (auto simp: rejection_def)
    next
      case (Inr rc)
      obtain rec created where rc: "rc = (rec, created)" by force
      show thesis
      proof (cases created)
        case False
        with assms(3) step keeps gates Inr rc show thesis
          by (intro again [OF \<open>begin_workflow c = Inr b\<close>, where artifacts = artifacts]) (auto simp: Let_def)
      next
        case True
        have "0 < wf_batch (cc_state b)"
          using b binv(1) wf_inv_begun by blast
        then obtain s where s: "wf_register_evidence (cc_state b) = Inr s"
          using wf_register_evidence_ok b by metis
        with True assms(3) step keeps gates Inr rc show thesis
          by (intro created [OF \<open>begin_workflow c = Inr b\<close>, where artifacts = artifacts and s = s and i = "rec_id rec"]) (auto simp: Let_def)
      qed
    qed
  qed
qed

lemma coll_inv_artifacts:
  assumes "coll_inv c" and "reg_ready artifacts" and "evidence_ids (cc_artifacts c) \<subseteq> evidence_ids artifacts"
  shows "coll_inv (c\<lparr>cc_artifacts := artifacts\<rparr>)"
  using assms by (auto simp: coll_inv_def evidence_inv_def plan_inv_def pending_evidence_def)

lemma coll_inv_new_evidence:
  assumes "coll_inv c" and "wf_begun (cc_state c)" and "\<not> cc_checkpoint_accepted c"
    and "reg_ready artifacts" and "i \<notin> evidence_ids (cc_artifacts c)"
    and "evidence_ids artifacts = insert i (evidence_ids (cc_artifacts c))"
    and "wf_register_evidence (cc_state c) = Inr s"
  shows "coll_inv (c\<lparr>cc_artifacts := artifacts, cc_state := s, cc_evidence := cc_evidence c @ [i]\<rparr>)"
proof -
  note inv = coll_invD [OF assms(1)]
  have s: "wf_inv s" "wf_unreviewed s = wf_unreviewed (cc_state c) + 1" "wf_begun s"
      "wf_batch s = wf_batch (cc_state c)"
    using wf_register_inv [OF inv(1) assms(7)] assms(2,7)
    by (auto simp: wf_register_evidence_def Let_def split: if_splits)
  have "i \<notin> set (cc_evidence c)" "i \<notin> cc_checkpointed c"
    using inv(4) assms(5) by (auto simp: evidence_inv_def)
  with s assms inv(4) show ?thesis
    by (auto simp: coll_inv_def evidence_inv_def plan_inv_def pending_evidence_def)
qed

lemma register_tool_inv:
  assumes "coll_inv c" and "fresh_uuid uuid (cc_artifacts c)"
    and "register_tool os uuid args fs c = (res, fs', d)"
  shows "coll_inv d"
  using assms
proof (cases rule: register_tool_cases)
  case (created b artifacts s i)
  note b = begin_workflow_inv [OF assms(1) created(1)]
  show ?thesis
    unfolding created(2)
    by (rule coll_inv_new_evidence) (use b created in simp_all)
qed (use assms(1) begin_workflow_inv [OF assms(1)] coll_inv_artifacts in auto)

text \<open>The checkpoint tool's outcomes; the \<open>checkpoint_failed\<close> rejection cannot occur.\<close>

lemma checkpoint_tool_cases:
  assumes "coll_inv c" and "checkpoint_tool args c = (res, d)"
  obtains (invalid) e where "begin_workflow c = Inl e" "d = c" "\<not> resp_accepted res"
  | (refused) b where "begin_workflow c = Inr b" "d = b" "\<not> resp_accepted res"
  | (accepted) b s where "begin_workflow c = Inr b" "needs_frozen b" "\<not> cc_checkpoint_accepted b"
      "cc_active_calls b \<le> 0" "dispositions_ok (active_needs_of b) (ca_dispositions args)"
      "pending_evidence b = [] \<longleftrightarrow> \<not> blank (ca_empty_reason args)"
      "res = accept \<lparr>co_artifacts = pending_evidence b, co_empty_reason = ca_empty_reason args,
                     co_dispositions = ca_dispositions args\<rparr>"
      "(if pending_evidence b \<noteq> [] then wf_checkpoint (cc_state b) else Inr (cc_state b)) = Inr s"
      "d = b\<lparr>cc_state := s, cc_checkpointed := cc_checkpointed b \<union> set (pending_evidence b),
             cc_checkpoint_accepted := True, cc_last_round_had := (pending_evidence b \<noteq> [])\<rparr>"
proof (cases "begin_workflow c")
  case (Inl e)
  with assms(2) show thesis by (intro invalid) (auto simp: checkpoint_tool_def rejection_def)
next
  case (Inr b)
  note b = begin_workflow_inv [OF assms(1) Inr]
  have "wf_unreviewed (cc_state b) = int (length (pending_evidence b))"
    using coll_invD(4) [OF conjunct1 [OF b]] by (simp add: evidence_inv_def)
  then have total: "\<exists>s. (if pending_evidence b \<noteq> [] then wf_checkpoint (cc_state b) else Inr (cc_state b)) = Inr s"
    using b by (auto simp: wf_checkpoint_def)
  then obtain s where s:
    "(if pending_evidence b \<noteq> [] then wf_checkpoint (cc_state b) else Inr (cc_state b)) = Inr s" by blast
  let ?go = "needs_frozen b \<and> \<not> cc_checkpoint_accepted b \<and> cc_active_calls b \<le> 0 \<and>
    dispositions_ok (active_needs_of b) (ca_dispositions args) \<and>
    (pending_evidence b = [] \<longrightarrow> \<not> blank (ca_empty_reason args)) \<and>
    (pending_evidence b \<noteq> [] \<longrightarrow> ca_empty_reason args = [])"
  show thesis
  proof (cases ?go)
    case False
    with assms(2) Inr have "d = b \<and> \<not> resp_accepted res"
      by (auto simp: checkpoint_tool_def rejection_def Let_def validate_need_dispositions_Nil split: if_splits)
    then show thesis by (intro refused [OF Inr]) auto
  next
    case True
    then have "pending_evidence b = [] \<longleftrightarrow> \<not> blank (ca_empty_reason args)" by auto
    with True assms(2) Inr s show thesis
      by (intro accepted [OF Inr])
         (auto simp: checkpoint_tool_def Let_def validate_need_dispositions_Nil split: if_splits)
  qed
qed

lemma checkpoint_tool_inv:
  assumes "coll_inv c" and "checkpoint_tool args c = (res, d)"
  shows "coll_inv d"
  using assms
proof (cases rule: checkpoint_tool_cases)
  case (accepted b s)
  note b = begin_workflow_inv [OF assms(1) accepted(1)]
  note inv = coll_invD [OF conjunct1 [OF b]]
  have s: "wf_inv s" "wf_unreviewed s = 0" "wf_batch s = wf_batch (cc_state b)" "wf_begun s"
    using accepted(8) inv(1,4) wf_checkpoint_inv [OF inv(1)] b
    by (auto simp: wf_checkpoint_def evidence_inv_def split: if_splits)
  have "pending_evidence d = []"
    by (auto simp: accepted(9) pending_evidence_def filter_empty_conv)
  with s inv b accepted(9) show ?thesis
    by (auto simp: coll_inv_def evidence_inv_def plan_inv_def pending_evidence_def)
qed (use assms(1) begin_workflow_inv [OF assms(1)] in auto)

lemma apply_qc_inv:
  assumes "coll_inv c" and "apply_qc ds as budget has_new c = (res, d)"
  shows "coll_inv d"
proof -
  obtain states where ap: "apply_qc_assessments ds as budget has_new (cc_need_states c) = (res, states)"
    "d = c\<lparr>cc_need_states := states\<rparr>"
    using assms(2) by (auto simp: apply_qc_def split: prod.splits)
  note plan = coll_invD(5) [OF assms(1)]
  have eff: "need_states_ok states" "list_all2 need_evolves (cc_need_states c) states"
    using apply_qc_effect [OF _ ap(1)] plan by (auto simp: plan_inv_def)
  have "map ns_need states = map ns_need (cc_need_states c)"
    using eff(2) by (auto simp: list_all2_conv_all_nth need_evolves_def intro: nth_equalityI)
  with plan eff(1) have "plan_inv d" by (simp add: plan_inv_def ap(2))
  with assms(1) show ?thesis
    by (auto simp: coll_inv_def evidence_inv_def pending_evidence_def ap(2))
qed

section \<open>The phase as a transition system\<close>

text \<open>
  The tools and gates the model session calls, what Collection QC does between rounds, the
  rest of the run changing the shared registry or the files, and the release functions of
  the tool calls in flight (\<open>leases\<close>, in the order they were handed out).
\<close>

type_synonym 'fs coll_system = "'fs \<times> lease list \<times> coll_context"

datatype 'fs coll_op =
    OpSetNeeds "need_input list"
  | OpRegisterTool string register_args
  | OpCheckpointTool checkpoint_args
  | OpBeginCall
  | OpReleaseCall nat
  | OpMarkReviewed string
  | OpApplyQC "need_disposition list" "qc_assessment list" bool
  | OpAdvancePhase event
  | OpNextRound
  | OpAddTarget string bool
  | OpSharedRegistry registry
  | OpSharedFiles 'fs

fun coll_step :: "'fs os \<Rightarrow> 'fs coll_system \<Rightarrow> 'fs coll_op \<Rightarrow> 'fs coll_system \<Rightarrow> bool" where
  "coll_step os (fs, ls, c) (OpSetNeeds args) t \<longleftrightarrow>
     t = (fs, ls, snd (set_information_needs args c))"
| "coll_step os (fs, ls, c) (OpRegisterTool uuid args) t \<longleftrightarrow>
     fresh_uuid uuid (cc_artifacts c) \<and>
     (case register_tool os uuid args fs c of (res, fs', d) \<Rightarrow> t = (fs', ls, d))"
| "coll_step os (fs, ls, c) (OpCheckpointTool args) t \<longleftrightarrow>
     t = (fs, ls, snd (checkpoint_tool args c))"
| "coll_step os (fs, ls, c) OpBeginCall t \<longleftrightarrow>
     (case begin_tool_call c of Inl e \<Rightarrow> t = (fs, ls, c) | Inr (l, d) \<Rightarrow> t = (fs, ls @ [l], d))"
| "coll_step os (fs, ls, c) (OpReleaseCall n) t \<longleftrightarrow>
     n < length ls \<and> (case release_tool_call (ls ! n) c of (l, d) \<Rightarrow> t = (fs, ls[n := l], d))"
| "coll_step os (fs, ls, c) (OpMarkReviewed i) t \<longleftrightarrow> t = (fs, ls, mark_evidence_reviewed i c)"
| "coll_step os (fs, ls, c) (OpApplyQC ds as has_new) t \<longleftrightarrow>
     t = (fs, ls, snd (apply_qc ds as (wf_limit_exhausted (cc_state c)) has_new c))"
| "coll_step os (fs, ls, c) (OpAdvancePhase e) t \<longleftrightarrow>
     (case wf_advance (cc_state c) e of
        Inl err \<Rightarrow> t = (fs, ls, c) | Inr s \<Rightarrow> t = (fs, ls, c\<lparr>cc_state := s\<rparr>))"
| "coll_step os (fs, ls, c) OpNextRound t \<longleftrightarrow> t = (fs, ls, begin_next_round c)"
| "coll_step os (fs, ls, c) (OpAddTarget path directory) t \<longleftrightarrow>
     (case add_artifact_target os path directory c of
        Inl err \<Rightarrow> t = (fs, ls, c) | Inr d \<Rightarrow> t = (fs, ls, d))"
| "coll_step os (fs, ls, c) (OpSharedRegistry r) t \<longleftrightarrow>
     reg_ready r \<and> evidence_ids (cc_artifacts c) \<subseteq> evidence_ids r \<and> t = (fs, ls, c\<lparr>cc_artifacts := r\<rparr>)"
| "coll_step os (fs, ls, c) (OpSharedFiles fs') t \<longleftrightarrow> t = (fs', ls, c)"

definition coll_initial :: "'fs coll_system \<Rightarrow> bool" where
  "coll_initial t \<longleftrightarrow>
     (case t of (fs, ls, c) \<Rightarrow> ls = [] \<and>
        (\<exists>ws batch rounds r. reg_ready r \<and> c = new_context ws batch rounds (Some r)))"

text \<open>The counter of calls in flight is the number of leases not yet released.\<close>

definition open_leases :: "lease list \<Rightarrow> lease list" where
  "open_leases ls = filter (\<lambda>l. \<not> lease_done l) ls"

definition coll_system_inv :: "'fs coll_system \<Rightarrow> bool" where
  "coll_system_inv t \<longleftrightarrow>
     (case t of (fs, ls, c) \<Rightarrow> coll_inv c \<and> cc_active_calls c = int (length (open_leases ls)))"

lemma open_leases_update:
  "n < length ls \<Longrightarrow> \<not> lease_done (ls ! n) \<Longrightarrow> lease_done l \<Longrightarrow>
     int (length (open_leases (ls[n := l]))) = int (length (open_leases ls)) - 1"
proof (induction ls arbitrary: n)
  case (Cons x xs)
  then show ?case by (cases n) (auto simp: open_leases_def)
qed simp

lemma begin_workflow_frame:
  "begin_workflow c = Inr d \<Longrightarrow>
     cc_active_calls d = cc_active_calls c \<and> cc_needs d = cc_needs c \<and> cc_artifacts d = cc_artifacts c \<and>
     cc_checkpoint_accepted d = cc_checkpoint_accepted c \<and> cc_evidence d = cc_evidence c \<and>
     cc_checkpointed d = cc_checkpointed c \<and> cc_need_states d = cc_need_states c"
  by (erule begin_workflow_cases) simp

lemma set_information_needs_cases:
  assumes "set_information_needs args c = (res, d)"
  obtains (invalid) e where "begin_workflow c = Inl e" "d = c" "\<not> resp_accepted res"
  | (refused) b where "begin_workflow c = Inr b" "d = b" "\<not> resp_accepted res"
  | (frozen) b where "begin_workflow c = Inr b" "cc_needs b = []" "plan_ok args"
      "res = accept (freeze_needs 0 args)"
      "d = b\<lparr>cc_needs := freeze_needs 0 args, cc_need_states := map new_need_state (freeze_needs 0 args)\<rparr>"
proof (cases "begin_workflow c")
  case (Inl e)
  with assms show thesis by (intro invalid) (auto simp: set_information_needs_def rejection_def)
next
  case (Inr b)
  show thesis
  proof (cases "cc_needs b = [] \<and> plan_ok args")
    case True
    with assms Inr show thesis
      by (intro frozen [OF Inr]) (auto simp: set_information_needs_def Let_def validate_information_needs_Nil)
  next
    case False
    with assms Inr have "d = b \<and> \<not> resp_accepted res"
      by (auto simp: set_information_needs_def Let_def rejection_def validate_information_needs_Nil split: if_splits)
    then show thesis by (intro refused [OF Inr]) auto
  qed
qed

lemma set_information_needs_calls:
  "set_information_needs args c = (res, d) \<Longrightarrow> cc_active_calls d = cc_active_calls c"
  by (erule set_information_needs_cases) (auto dest: begin_workflow_frame)

lemma checkpoint_tool_calls:
  "coll_inv c \<Longrightarrow> checkpoint_tool args c = (res, d) \<Longrightarrow> cc_active_calls d = cc_active_calls c"
  by (erule checkpoint_tool_cases) (auto dest: begin_workflow_frame)

lemma register_tool_calls:
  "coll_inv c \<Longrightarrow> fresh_uuid uuid (cc_artifacts c) \<Longrightarrow> register_tool os uuid args fs c = (res, fs', d) \<Longrightarrow>
     cc_active_calls d = cc_active_calls c"
  by (erule (2) register_tool_cases) (auto dest: begin_workflow_frame)

lemma apply_qc_calls: "apply_qc ds as budget has_new c = (res, d) \<Longrightarrow> cc_active_calls d = cc_active_calls c"
  by (auto simp: apply_qc_def split: prod.splits)

lemma wf_advance_keeps:
  "wf_advance s e = Inr t \<Longrightarrow> wf_batch t = wf_batch s \<and> wf_unreviewed t = wf_unreviewed s \<and> wf_begun t"
  by (auto simp: wf_advance_def split: if_splits phase.splits event.splits)

lemma advance_phase_inv:
  assumes "coll_inv c" and "wf_advance (cc_state c) e = Inr s"
  shows "coll_inv (c\<lparr>cc_state := s\<rparr>)"
  using assms(1) wf_advance_inv [OF coll_invD(1) [OF assms(1)] assms(2)] wf_advance_keeps [OF assms(2)]
  by (intro coll_inv_state) auto

lemma coll_step_inv: "coll_system_inv s \<Longrightarrow> coll_step os s l t \<Longrightarrow> coll_system_inv t"
proof (induction os s l t rule: coll_step.induct)
  case (1 os fs ls c args t)
  then show ?case
    using set_information_needs_inv [of c args] set_information_needs_calls [of args c]
    by (cases "set_information_needs args c") (auto simp: coll_system_inv_def)
next
  case (2 os fs ls c uuid args t)
  obtain res fs' d where r: "register_tool os uuid args fs c = (res, fs', d)" by (metis prod_cases3)
  with 2 show ?case
    using register_tool_inv [OF _ _ r] register_tool_calls [OF _ _ r] by (auto simp: coll_system_inv_def)
next
  case (3 os fs ls c args t)
  then show ?case
    using checkpoint_tool_inv [of c args] checkpoint_tool_calls [of c args]
    by (cases "checkpoint_tool args c") (auto simp: coll_system_inv_def)
next
  case (4 os fs ls c t)
  then show ?case
    by (auto simp: coll_system_inv_def begin_tool_call_def open_leases_def coll_invD(6)
        elim!: coll_inv_cong split: option.splits)
next
  case (5 os fs ls c n t)
  then show ?case
    by (auto simp: coll_system_inv_def release_tool_call_def open_leases_update list_update_same_conv
        elim!: coll_inv_cong split: if_splits)
next
  case (6 os fs ls c i t)
  then show ?case
    by (auto simp: coll_system_inv_def mark_evidence_reviewed_def elim!: coll_inv_cong)
next
  case (7 os fs ls c ds as has_new t)
  then show ?case
    using apply_qc_inv [of c ds as _ has_new] apply_qc_calls [of ds as _ has_new c]
    by (cases "apply_qc ds as (wf_limit_exhausted (cc_state c)) has_new c") (auto simp: coll_system_inv_def)
next
  case (8 os fs ls c e t)
  then show ?case
    by (auto simp: coll_system_inv_def intro: advance_phase_inv split: sum.splits)
next
  case (9 os fs ls c t)
  then show ?case
    by (auto simp: coll_system_inv_def begin_next_round_def elim!: coll_inv_cong)
next
  case (10 os fs ls c path directory t)
  then show ?case
    by (auto simp: coll_system_inv_def add_artifact_target_def elim!: coll_inv_cong
        split: sum.splits if_splits)
next
  case (11 os fs ls c r t)
  then show ?case
    by (auto simp: coll_system_inv_def intro: coll_inv_artifacts)
qed (auto simp: coll_system_inv_def)

lemma new_context_calls [simp]: "cc_active_calls (new_context ws batch rounds artifacts) = 0"
  by (simp add: new_context_def Let_def)

lemma coll_initial_inv: "coll_initial s \<Longrightarrow> coll_system_inv s"
  by (cases s) (auto simp: coll_initial_def coll_system_inv_def open_leases_def intro: coll_inv_new)

interpretation coll: invariant_system coll_initial "coll_step os" coll_system_inv for os
  by unfold_locales (rule coll_initial_inv, assumption, rule coll_step_inv)

section \<open>A sample round\<close>

definition sample_open :: coll_context where
  "sample_open = snd (set_information_needs sample_plan (new_context ''/w'' 0 (Some 3) (Some new_registry)))"

definition sample_register_args :: register_args where
  "sample_register_args =
     \<lparr>ra_path = ''e.md'', ra_call = [], ra_source = ''https://a.b'', ra_description = ''note''\<rparr>"

definition sample_collected :: coll_context where
  "sample_collected = snd (snd (register_tool mem_os ''2'' sample_register_args sample_fs sample_open))"

definition sample_checkpoint_args :: checkpoint_args where
  "sample_checkpoint_args = \<lparr>ca_empty_reason = [], ca_dispositions = sample_dispositions\<rparr>"

definition sample_checkpointed :: coll_context where
  "sample_checkpointed = snd (checkpoint_tool sample_checkpoint_args sample_collected)"

lemma sample_open_reachable: "reach coll_initial (coll_step mem_os) (sample_fs, [], sample_open)"
proof (rule reach_step)
  show "reach coll_initial (coll_step mem_os)
      (sample_fs, [], new_context ''/w'' 0 (Some 3) (Some new_registry))"
    by (rule reach_init, unfold coll_initial_def, simp only: prod.case simp_thms,
        intro exI conjI, rule reg_ready_new, rule refl)
  show "coll_step mem_os (sample_fs, [], new_context ''/w'' 0 (Some 3) (Some new_registry))
      (OpSetNeeds sample_plan) (sample_fs, [], sample_open)"
    by (simp add: sample_open_def)
qed

lemma sample_open_fresh: "fresh_uuid ''2'' (cc_artifacts sample_open)"
proof -
  have "Option.is_none (reg_entries (cc_artifacts sample_open) ''artifact-2'')" by code_simp
  then show ?thesis by (simp add: fresh_uuid_def Option.is_none_def)
qed

lemma sample_open_inv: "coll_inv sample_open"
  using coll.reach_inv [OF sample_open_reachable] by (simp add: coll_system_inv_def)

lemma sample_collected_reachable:
  "\<exists>fs. reach coll_initial (coll_step mem_os) (fs, [], sample_collected)"
proof -
  obtain res fs' where "register_tool mem_os ''2'' sample_register_args sample_fs sample_open
      = (res, fs', sample_collected)"
    by (metis prod.collapse sample_collected_def)
  then have "coll_step mem_os (sample_fs, [], sample_open) (OpRegisterTool ''2'' sample_register_args)
      (fs', [], sample_collected)"
    using sample_open_fresh by simp
  with sample_open_reachable show ?thesis by (blast intro: reach_step)
qed

lemma sample_collected_inv: "coll_inv sample_collected"
  using sample_collected_reachable coll.reach_inv by (fastforce simp: coll_system_inv_def)

lemma sample_checkpoint:
  "\<exists>res. checkpoint_tool sample_checkpoint_args sample_collected = (res, sample_checkpointed) \<and> resp_accepted res"
proof -
  have "resp_accepted (fst (checkpoint_tool sample_checkpoint_args sample_collected))" by code_simp
  then show ?thesis by (metis prod.collapse sample_checkpointed_def)
qed

section \<open>Properties\<close>

text \<open>
  C23: the books of a Collection phase balance. In every reachable state of the phase (any
  interleaving of the protocol tools, tool calls in flight, Collection QC and the rest of the
  run) the evidence list has no duplicates and names only evidence of the registry, the
  workflow's counter of unreviewed evidence is the number of IDs not yet submitted, the
  checkpoint gate is pending exactly when that number reaches the batch size (once the
  workflow has begun), and the counter of calls in flight is the number of unreleased leases.
\<close>

theorem collection_books_balance:
  assumes "reach coll_initial (coll_step os) (fs, ls, c)"
  shows "distinct (cc_evidence c) \<and> set (cc_evidence c) \<subseteq> evidence_ids (cc_artifacts c) \<and>
    wf_unreviewed (cc_state c) = int (length (filter (\<lambda>i. i \<notin> cc_checkpointed c) (cc_evidence c))) \<and>
    (wf_begun (cc_state c) \<longrightarrow>
       (wf_pending (cc_state c) \<longleftrightarrow> cc_batch c \<le> wf_unreviewed (cc_state c))) \<and>
    cc_active_calls c = int (length (filter (\<lambda>l. \<not> lease_done l) ls))"
proof -
  have "coll_inv c" and "cc_active_calls c = int (length (open_leases ls))"
    using coll.reach_inv [OF assms] by (auto simp: coll_system_inv_def)
  with coll_invD [of c] show ?thesis
    by (auto simp: evidence_inv_def pending_evidence_def open_leases_def wf_inv_begun)
qed

theorem collection_books_balance_witness:
  "wf_unreviewed (cc_state sample_collected) =
     int (length (filter (\<lambda>i. i \<notin> cc_checkpointed sample_collected) (cc_evidence sample_collected)))"
proof -
  obtain fs where "reach coll_initial (coll_step mem_os) (fs, [], sample_collected)"
    using sample_collected_reachable by blast
  from collection_books_balance [OF this] show ?thesis by blast
qed

text \<open>
  C24: no evidence is reviewed twice or skipped. An accepted checkpoint submits, in
  registration order and without repetition, exactly the evidence no earlier checkpoint
  submitted; afterwards everything registered has been submitted, the counter is zero and the
  acquisition gate is open again. It is accepted only when no tool call is in flight, with one
  disposition for each active need, and with a reason exactly when it submits nothing.
\<close>

theorem checkpoint_submits_each_evidence_once:
  assumes "coll_inv c" and "checkpoint_tool args c = (res, d)" and "resp_accepted res"
  shows "\<exists>out. resp_output res = Some out \<and>
    co_artifacts out = filter (\<lambda>i. i \<notin> cc_checkpointed c) (cc_evidence c) \<and> distinct (co_artifacts out) \<and>
    cc_evidence d = cc_evidence c \<and> cc_checkpointed d = set (cc_evidence c) \<and>
    wf_unreviewed (cc_state d) = 0 \<and> \<not> wf_pending (cc_state d) \<and>
    cc_active_calls c \<le> 0 \<and> dispositions_ok (active_needs_of c) (co_dispositions out) \<and>
    (co_artifacts out = [] \<longleftrightarrow> \<not> blank (co_empty_reason out)) \<and>
    cc_last_round_had d = (co_artifacts out \<noteq> [])"
  using assms(1,2)
proof (cases rule: checkpoint_tool_cases)
  case (accepted b s)
  note b = begin_workflow_inv [OF assms(1) accepted(1)]
  note frame = begin_workflow_frame [OF accepted(1)]
  note inv = coll_invD [OF conjunct1 [OF b]]
  have "wf_unreviewed s = 0 \<and> \<not> wf_pending s"
    using accepted(8) inv(1,4) b
    by (auto simp: wf_checkpoint_def evidence_inv_def wf_inv_begun split: if_splits)
  moreover have "cc_checkpointed b \<union> set (pending_evidence b) = set (cc_evidence b)"
    using inv(4) by (auto simp: evidence_inv_def pending_evidence_def)
  moreover have "distinct (pending_evidence b)"
    using inv(4) by (simp add: evidence_inv_def pending_evidence_def)
  ultimately show ?thesis
    using accepted frame by (auto simp: active_needs_of_def pending_evidence_def)
qed (use assms(3) in auto)

theorem checkpoint_submits_each_evidence_once_witness:
  "cc_checkpointed sample_checkpointed = set (cc_evidence sample_collected) \<and>
   wf_unreviewed (cc_state sample_checkpointed) = 0"
proof -
  obtain res where "checkpoint_tool sample_checkpoint_args sample_collected = (res, sample_checkpointed)"
      "resp_accepted res"
    using sample_checkpoint by blast
  from checkpoint_submits_each_evidence_once [OF sample_collected_inv this] show ?thesis by blast
qed



definition context_extends :: "coll_context \<Rightarrow> coll_context \<Rightarrow> bool" where
  "context_extends c d \<longleftrightarrow>
     (cc_needs c \<noteq> [] \<longrightarrow> cc_needs d = cc_needs c \<and>
        list_all2 need_evolves (cc_need_states c) (cc_need_states d)) \<and>
     prefix (cc_evidence c) (cc_evidence d) \<and> cc_checkpointed c \<subseteq> cc_checkpointed d"

lemma context_extends_same:
  "cc_needs d = cc_needs c \<Longrightarrow> cc_need_states d = cc_need_states c \<Longrightarrow> cc_evidence d = cc_evidence c \<Longrightarrow>
     cc_checkpointed d = cc_checkpointed c \<Longrightarrow> context_extends c d"
  by (simp add: context_extends_def list.rel_refl)

lemma begin_workflow_extends: "begin_workflow c = Inr b \<Longrightarrow> context_extends c b"
  by (rule context_extends_same) (auto dest: begin_workflow_frame)

lemma set_information_needs_extends:
  "set_information_needs args c = (res, d) \<Longrightarrow> context_extends c d"
  by (erule set_information_needs_cases)
     (auto dest: begin_workflow_frame simp: context_extends_def list.rel_refl)

lemma register_tool_extends:
  "coll_inv c \<Longrightarrow> fresh_uuid uuid (cc_artifacts c) \<Longrightarrow> register_tool os uuid args fs c = (res, fs', d) \<Longrightarrow>
     context_extends c d"
  by (erule (2) register_tool_cases)
     (auto dest: begin_workflow_frame simp: context_extends_def list.rel_refl)

lemma checkpoint_tool_extends:
  "coll_inv c \<Longrightarrow> checkpoint_tool args c = (res, d) \<Longrightarrow> context_extends c d"
  by (erule (1) checkpoint_tool_cases)
     (auto dest: begin_workflow_frame simp: context_extends_def list.rel_refl)

lemma apply_qc_extends:
  assumes "coll_inv c" and "apply_qc ds as budget has_new c = (res, d)"
  shows "context_extends c d"
proof -
  obtain states where ap: "apply_qc_assessments ds as budget has_new (cc_need_states c) = (res, states)"
    "d = c\<lparr>cc_need_states := states\<rparr>"
    using assms(2) by (auto simp: apply_qc_def split: prod.splits)
  with apply_qc_effect [OF _ ap(1)] coll_invD(5) [OF assms(1)] show ?thesis
    by (auto simp: context_extends_def plan_inv_def)
qed

text \<open>
  C26: what Collection has fixed stays fixed. No step of the phase changes a frozen plan,
  rewrites the outcome of a need, reopens a condition, or removes or reorders registered or
  submitted evidence.
\<close>

theorem collection_never_takes_back:
  assumes "reach coll_initial (coll_step os) (fs, ls, c)"
    and "coll_step os (fs, ls, c) l (fs', ls', d)"
  shows "context_extends c d"
proof -
  have inv: "coll_inv c" using coll.reach_inv [OF assms(1)] by (simp add: coll_system_inv_def)
  show ?thesis
  proof (cases l)
    case (OpSetNeeds args)
    with assms(2) set_information_needs_extends show ?thesis
      by (cases "set_information_needs args c") auto
  next
    case (OpRegisterTool uuid args)
    with assms(2) register_tool_extends [OF inv] show ?thesis
      by (cases "register_tool os uuid args fs c") auto
  next
    case (OpCheckpointTool args)
    with assms(2) checkpoint_tool_extends [OF inv] show ?thesis
      by (cases "checkpoint_tool args c") auto
  next
    case (OpApplyQC ds as has_new)
    with assms(2) apply_qc_extends [OF inv] show ?thesis
      by (cases "apply_qc ds as (wf_limit_exhausted (cc_state c)) has_new c") auto
  qed (use assms(2) in \<open>auto intro!: context_extends_same
        simp: begin_tool_call_def release_tool_call_def mark_evidence_reviewed_def begin_next_round_def
          add_artifact_target_def split: option.splits sum.splits if_splits\<close>)
qed

theorem collection_never_takes_back_witness:
  "context_extends sample_collected sample_checkpointed"
proof -
  obtain fs where reach: "reach coll_initial (coll_step mem_os) (fs, [], sample_collected)"
    using sample_collected_reachable by blast
  have "coll_step mem_os (fs, [], sample_collected) (OpCheckpointTool sample_checkpoint_args)
      (fs, [], sample_checkpointed)"
    by (simp add: sample_checkpointed_def)
  with collection_never_takes_back [OF reach] show ?thesis by blast
qed

lemma load_save_need_state: "finite (ns_unsatisfied st) \<Longrightarrow> load_need_state (save_need_state st) = st"
  by (simp add: load_need_state_def save_need_state_def)

text \<open>
  C28: a Collection checkpoint restores exactly. A fresh context for the same workspace with
  the same round limit accepts the snapshot of any reachable context that has begun, and then
  agrees with it on the plan, the state and outcome of every need, the evidence, what was
  reviewed and submitted, the targets and the workflow's counters; only the calls in flight
  are forgotten, and the registry is the one the caller has restored.
\<close>

theorem collection_snapshot_roundtrip:
  assumes "coll_inv c" and "wf_begun (cc_state c)"
    and "clean ws = clean (cc_workspace c)"
    and "d = new_context ws batch rounds (Some r)" and "wf_max (cc_state d) = wf_max (cc_state c)"
  shows "coll_restore (coll_snapshot_of c) d =
    Inr (c\<lparr>cc_workspace := ws, cc_artifacts := r, cc_batch := cc_batch d, cc_active_calls := 0,
           cc_state := (cc_state c)\<lparr>wf_batch := wf_batch (cc_state d)\<rparr>\<rparr>)"
proof -
  note inv = coll_invD [OF assms(1)]
  have max: "0 < wf_max (cc_state c)" using inv(1) assms(2) wf_inv_begun by fastforce
  have wf: "wf_restore (cc_state d) (wf_snapshot_of (cc_state c)) =
      Inr ((cc_state c)\<lparr>wf_max := wf_max (cc_state d), wf_batch := wf_batch (cc_state d)\<rparr>)"
    using inv(1) [unfolded wf_inv_begun [OF assms(2)]] assms(2,5) max
    by (auto simp: wf_restore_def wf_snapshot_of_def acquiring_def split: if_splits)
  have fin: "finite (cc_checkpointed c)"
    using inv(4) finite_subset by (auto simp: evidence_inv_def)
  have "map load_need_state (map save_need_state (cc_need_states c)) = cc_need_states c"
    using inv(5) by (auto simp: plan_inv_def need_states_ok_def need_state_ok_def load_save_need_state
        intro!: map_idI)
  moreover have "cc_workspace d = ws" "cc_artifacts d = r"
    using assms(4) by (simp_all add: new_context_def Let_def)
  ultimately show ?thesis
    using wf fin inv(6) assms(3,5)
    by (simp add: coll_restore_def coll_snapshot_of_def)
qed

theorem collection_snapshot_roundtrip_witness:
  "\<exists>d. coll_restore (coll_snapshot_of sample_collected) (new_context ''/w'' 4 (Some 3) (Some new_registry)) = Inr d \<and>
     cc_evidence d = cc_evidence sample_collected \<and> cc_need_states d = cc_need_states sample_collected"
proof -
  have "wf_begun (cc_state sample_collected)" "clean ''/w'' = clean (cc_workspace sample_collected)"
    "wf_max (cc_state (new_context ''/w'' 4 (Some 3) (Some new_registry))) = wf_max (cc_state sample_collected)"
    by code_simp+
  from collection_snapshot_roundtrip [OF sample_collected_inv this(1,2) refl this(3)]
  show ?thesis by simp
qed

end
