(* ===== verification/Protocol_Recorder.thy ===== *)
theory Protocol_Recorder
  imports R42_Prelude
begin

text \<open>
  What the protocol runners share: a prompt, the recorder into which the tool handlers put
  accepted calls while the model's turn runs, and the contract of such a recorder. The
  recorders of \<^verbatim>\<open>internal/collection/runner.go\<close> (\<open>CheckpointRecorder\<close>) and
  \<^verbatim>\<open>internal/collectionqc/runner.go\<close> (\<open>VerdictRecorder\<close>) have the same fields and the same
  \<open>RecordError\<close> and \<open>drain\<close>. A mutex makes each method one atomic step. \<open>RecordError(nil)\<close>
  does nothing, so the argument here is an error.

  A prompt is the list of the pieces written to it, each a text or a formatted text. A session
  is a parameter: \<open>SendAndWait\<close> takes the prompt and the state of the host, which the model's
  tool calls may change before the turn ends, possibly with an error.

  The recorders of Research and Final QC have more fields; \<open>drain\<close> leaves those as they are.
  They also count their outcomes in a \<open>uint64\<close>, here a 64-bit word.
\<close>

type_synonym prompt = "message list"

type_synonym 's session = "prompt \<Rightarrow> 's \<Rightarrow> error option \<times> 's"

record 'o recorder =
  rec_outputs :: "'o list"
  rec_failure :: "error option"

definition new_recorder :: "'o recorder" where
  "new_recorder = \<lparr>rec_outputs = [], rec_failure = None\<rparr>"

definition record_error :: "error \<Rightarrow> ('o, 'z) recorder_scheme \<Rightarrow> ('o, 'z) recorder_scheme" where
  "record_error e r = (if rec_failure r = None then r\<lparr>rec_failure := Some e\<rparr> else r)"

definition drain_recorder :: "('o, 'z) recorder_scheme \<Rightarrow> ('o list \<times> error option) \<times> ('o, 'z) recorder_scheme" where
  "drain_recorder r = ((rec_outputs r, rec_failure r), r\<lparr>rec_outputs := [], rec_failure := None\<rparr>)"

text \<open>
  The contract: draining returns what was recorded and leaves nothing behind, and of all
  errors the first one is kept.
\<close>

locale protocol_recorder =
  fixes pending :: "'r \<Rightarrow> 'a"
    and failure :: "'r \<Rightarrow> error option"
    and empty :: 'a
    and fail_with :: "error \<Rightarrow> 'r \<Rightarrow> 'r"
    and drain :: "'r \<Rightarrow> ('a \<times> error option) \<times> 'r"
  assumes drain_returns: "fst (drain r) = (pending r, failure r)"
    and drain_empties: "pending (snd (drain r)) = empty" "failure (snd (drain r)) = None"
    and record_keeps: "pending (fail_with e r) = pending r"
    and record_first: "failure (fail_with e r) = (case failure r of None \<Rightarrow> Some e | Some f \<Rightarrow> Some f)"
begin

lemma drain_twice: "fst (drain (snd (drain r))) = (empty, None)"
  by (simp add: drain_returns drain_empties)

lemma first_error_kept:
  "failure r = Some f \<Longrightarrow> failure (fold fail_with es r) = Some f"
  by (induction es arbitrary: r) (simp_all add: record_first)

lemma errors_keep_pending: "pending (fold fail_with es r) = pending r"
  by (induction es arbitrary: r) (simp_all add: record_keeps)

text \<open>Whatever happens later in the turn, the first error is what the runner sees.\<close>

lemma first_error_reported:
  assumes "failure r = None"
  shows "snd (fst (drain (fold fail_with (e # es) r))) = Some e"
proof -
  have "failure (fail_with e r) = Some e" using assms by (simp add: record_first)
  then have "failure (fold fail_with (e # es) r) = Some e" by (simp add: first_error_kept)
  then show ?thesis by (simp add: drain_returns)
qed

end

section \<open>The attempt loop\<close>

text \<open>
  The loop \<open>for attempt := 1; ; attempt++\<close> of the Collection, Collection QC and Final QC
  runners: send the prompt, drain the recorder, and either stop (the turn failed, a handler
  failed, a call was recorded, the attempts are used up) or send the retry prompt. The runners
  differ in their recorder and in the texts, which are the fields of \<open>protocol\<close>.
\<close>

record protocol =
  pr_max :: int
  pr_send_failed :: string
  pr_tool_failed :: string
  pr_exhausted :: string
  pr_retry :: "int \<Rightarrow> prompt"

function protocol_attempts ::
    "('r \<Rightarrow> ('o list \<times> error option) \<times> 'r) \<Rightarrow> protocol \<Rightarrow> ('r \<times> 'w) session \<Rightarrow> int \<Rightarrow> prompt
       \<Rightarrow> 'r \<times> 'w \<Rightarrow> (error + 'o) \<times> 'r \<times> 'w" where
  "protocol_attempts drain pr session attempt prompt s =
     (case session prompt s of
        (Some e, s1) \<Rightarrow> (Inl (Format (pr_send_failed pr) [TextArg e]), s1)
      | (None, (r1, w1)) \<Rightarrow>
     (case drain r1 of
        ((outputs, Some failure), r2) \<Rightarrow> (Inl (Format (pr_tool_failed pr) [TextArg failure]), (r2, w1))
      | ((out # outputs, None), r2) \<Rightarrow> (Inr out, (r2, w1))
      | (([], None), r2) \<Rightarrow>
          (if attempt \<ge> pr_max pr
           then (Inl (Format (pr_exhausted pr) [IntArg attempt, IntArg (pr_max pr)]), (r2, w1))
           else protocol_attempts drain pr session (attempt + 1) (pr_retry pr attempt) (r2, w1))))"
  by pat_completeness auto
termination by (relation "measure (\<lambda>(drain, pr, session, attempt, prompt, s). nat (pr_max pr - attempt))") auto

declare protocol_attempts.simps [simp del]

text \<open>The errors the loop itself may end with.\<close>

definition protocol_failure :: "protocol \<Rightarrow> error \<Rightarrow> bool" where
  "protocol_failure pr e \<longleftrightarrow>
     (\<exists>cause. e = Format (pr_send_failed pr) [TextArg cause]) \<or>
     (\<exists>cause. e = Format (pr_tool_failed pr) [TextArg cause]) \<or>
     (\<exists>n. e = Format (pr_exhausted pr) [IntArg n, IntArg (pr_max pr)])"

text \<open>A recorder of calls: what is pending is a list.\<close>

locale call_list_recorder = protocol_recorder pending failure "[]" fail_with drain
  for pending :: "'r \<Rightarrow> 'o list"
    and failure :: "'r \<Rightarrow> error option"
    and fail_with :: "error \<Rightarrow> 'r \<Rightarrow> 'r"
    and drain :: "'r \<Rightarrow> ('o list \<times> error option) \<times> 'r"
begin

lemma drain_eq: "drain r = ((pending r, failure r), snd (drain r))"
  by (metis drain_returns prod.collapse)

lemma attempts_unfold:
  assumes "session prompt s = (e, (r, w))"
  shows "protocol_attempts drain pr session attempt prompt s =
    (case e of
       Some err \<Rightarrow> (Inl (Format (pr_send_failed pr) [TextArg err]), (r, w))
     | None \<Rightarrow>
    (case failure r of
       Some f \<Rightarrow> (Inl (Format (pr_tool_failed pr) [TextArg f]), (snd (drain r), w))
     | None \<Rightarrow>
    (case pending r of
       out # outs \<Rightarrow> (Inr out, (snd (drain r), w))
     | [] \<Rightarrow>
        (if attempt \<ge> pr_max pr
         then (Inl (Format (pr_exhausted pr) [IntArg attempt, IntArg (pr_max pr)]), (snd (drain r), w))
         else protocol_attempts drain pr session (attempt + 1) (pr_retry pr attempt) (snd (drain r), w)))))"
  using drain_eq [of r]
  by (subst protocol_attempts.simps) (auto simp: assms split: option.splits list.splits prod.splits)

text \<open>
  What holds after every turn holds when the loop stops; on success the result is the first
  call recorded in the last turn, and the recorder is left empty.
\<close>

lemma attempts_result:
  assumes turn: "\<And>p s e t. good s \<Longrightarrow> session p s = (e, t) \<Longrightarrow> good t"
    and drained: "\<And>r w. good (r, w) \<Longrightarrow> pending r = [] \<Longrightarrow> good (snd (drain r), w)"
    and "good s" and "protocol_attempts drain pr session attempt prompt s = (res, (r', w'))"
  shows "\<exists>r. good (r, w') \<and>
    (case res of
       Inr out \<Rightarrow> r' = snd (drain r) \<and> failure r = None \<and> (\<exists>outs. pending r = out # outs)
     | Inl e \<Rightarrow> protocol_failure pr e \<and> (r' = r \<or> r' = snd (drain r)))"
  using assms(3,4)
proof (induction "nat (pr_max pr - attempt)" arbitrary: attempt prompt s rule: less_induct)
  case less
  obtain e r w where sent: "session prompt s = (e, (r, w))" by (metis prod_cases3)
  have inv: "good (r, w)" using turn [OF less.prems(1) sent] .
  note run = less.prems(2) [unfolded attempts_unfold [where session = session, OF sent]]
  show ?case
  proof (cases "e = None \<and> failure r = None \<and> pending r = [] \<and> attempt < pr_max pr")
    case True
    with run have "protocol_attempts drain pr session (attempt + 1) (pr_retry pr attempt) (snd (drain r), w) = (res, (r', w'))"
      by simp
    moreover have "nat (pr_max pr - (attempt + 1)) < nat (pr_max pr - attempt)" using True by simp
    ultimately show ?thesis using less.hyps drained [OF inv] True by blast
  next
    case False
    with run inv show ?thesis
      by (auto simp: protocol_failure_def split: option.splits list.splits if_splits)
  qed
qed

text \<open>The loop sends at most as many prompts as it has attempts left, and at least one.\<close>

lemma attempts_prompts:
  assumes turn: "\<And>p s e t. session p s = (e, t) \<Longrightarrow> count t = count s + (1 :: nat)"
    and drained: "\<And>r w. count (snd (drain r), w) = count (r, w)"
    and "protocol_attempts drain pr session attempt prompt s = (res, t)"
  shows "count s < count t \<and> count t \<le> count s + Suc (nat (pr_max pr - attempt))"
  using assms(3)
proof (induction "nat (pr_max pr - attempt)" arbitrary: attempt prompt s rule: less_induct)
  case less
  obtain e r w where sent: "session prompt s = (e, (r, w))" by (metis prod_cases3)
  have count: "count (r, w) = count s + 1" using turn [OF sent] .
  note run = less.prems [unfolded attempts_unfold [where session = session, OF sent]]
  show ?case
  proof (cases "e = None \<and> failure r = None \<and> pending r = [] \<and> attempt < pr_max pr")
    case True
    with run have "protocol_attempts drain pr session (attempt + 1) (pr_retry pr attempt) (snd (drain r), w) = (res, t)"
      by simp
    note again = less.hyps [OF _ this]
    have "Suc (nat (pr_max pr - (attempt + 1))) = nat (pr_max pr - attempt)" using True by arith
    with again True count drained [of r w] show ?thesis by simp
  next
    case False
    with run count drained [of r w] show ?thesis
      by (auto split: option.splits list.splits if_splits)
  qed
qed

end

interpretation call_recorder:
  call_list_recorder rec_outputs rec_failure record_error drain_recorder
  by unfold_locales (auto simp: drain_recorder_def record_error_def split: option.splits)

end
