(* ===== verification/Collection_Runner.thy ===== *)
theory Collection_Runner
  imports Collection_Context Protocol_Recorder
begin

text \<open>
  One Collection round: \<^verbatim>\<open>internal/collection/runner.go\<close>, and the handlers of
  \<^verbatim>\<open>internal/cli/runtime_workflow_tools.go\<close> through which the model's session reaches the
  Collection context. The host state of a round is the recorder of accepted checkpoints
  beside an arbitrary rest; the lemmas take the system of \<open>Collection_Context\<close> as that rest.
\<close>

section \<open>The checkpoint recorder\<close>

definition record_checkpoint ::
    "checkpoint_output \<Rightarrow> checkpoint_output recorder \<Rightarrow> error + checkpoint_output recorder" where
  "record_checkpoint out r =
     (if rec_outputs r \<noteq> []
      then Inl (Text ''r42_collection_checkpoint may be accepted exactly once in each Collection round'')
      else Inr (r\<lparr>rec_outputs := rec_outputs r @ [out]\<rparr>))"

section \<open>One round\<close>

record collection_run_config =
  rc_prompt :: prompt
  rc_max_attempts :: int
  rc_tool :: string
  rc_active :: "active_need list"
  rc_tools :: "string list"

definition active_condition_line :: "stop_condition list \<Rightarrow> string \<Rightarrow> prompt" where
  "active_condition_line conditions cid =
     (let condition = (case index_by sc_id conditions cid of None \<Rightarrow> [] | Some c \<Rightarrow> sc_condition c)
      in if condition \<noteq> [] then [Format ''    - %s: %s\<newline>'' [StrArg cid, StrArg condition]]
         else [Format ''    - %s\<newline>'' [StrArg cid]])"

definition active_need_lines :: "active_need \<Rightarrow> prompt" where
  "active_need_lines a =
     Format ''  - %s: %s\<newline>'' [StrArg (need_id (an_need a)), StrArg (need_question (an_need a))]
     # concat (map (active_condition_line (need_conditions (an_need a))) (an_unsatisfied a))"

definition checkpoint_retry_prompt :: "collection_run_config \<Rightarrow> int \<Rightarrow> prompt" where
  "checkpoint_retry_prompt config attempt =
     [Format ''Collection protocol retry %d: the previous response ended without an accepted %q checkpoint.\<newline>''
        [IntArg attempt, StrArg (rc_tool config)],
      Text ''Before ending this round, resolve the following protocol requirements:\<newline>''] @
     (if rc_active config = []
      then [Format (''- Call %q before choosing a search direction. If it reports no frozen plan, '' @
                    ''call r42_set_information_needs once and then call %q again.\<newline>'')
              [StrArg ReadInformationNeedsToolName, StrArg ReadInformationNeedsToolName]]
      else [Text ''- The following stop conditions are still unsatisfied; work only on these active needs:\<newline>'',
            Format ''  If the IDs or conditions are unclear after context compaction, call %q and use its canonical active states.\<newline>''
              [StrArg ReadInformationNeedsToolName]] @
           concat (map active_need_lines (rc_active config))) @
     (if rc_tools config \<noteq> []
      then [Format ''- Make a genuine search or source-reading attempt with the relevant configured Collection tool(s): %s.\<newline>''
              [StrArg (strings_join '', '' (rc_tools config))]]
      else [Text ''- No configured Collection acquisition tool is available. Do not invent a tool; '',
            Text (''call the checkpoint with search_disposition=stalled for each active need and explain the limitation '' @
                  ''in empty_reason.\<newline>'')]) @
     [Text (''- Persist every newly acquired source before another acquisition call: use r42_save_artifact for '' @
            ''new source content, '' @
            ''or r42_register_artifact for an existing workspace/retained result.\<newline>''),
      Format (''- Then call %q exactly once with one disposition for every active need. '' @
              ''Use search_disposition=continue only when a productive next search remains; after genuine effort '' @
              ''finds no productive next action, '' @
              ''use search_disposition=stalled and do not claim missing evidence.\<newline>'')
        [StrArg (rc_tool config)],
      Text ''- If this round added no evidence artifacts, include a non-empty empty_reason in the checkpoint.'']"

definition collection_protocol :: "collection_run_config \<Rightarrow> protocol" where
  "collection_protocol config =
     \<lparr>pr_max = rc_max_attempts config,
      pr_send_failed = ''send collection prompt: %w'',
      pr_tool_failed = ''collection checkpoint tool failed: %w'',
      pr_exhausted = ''collection checkpoint protocol attempts exhausted after %d attempts (maximum %d)'',
      pr_retry = checkpoint_retry_prompt config\<rparr>"

definition collection_run ::
    "(checkpoint_output recorder \<times> 'w) session \<Rightarrow> collection_run_config
       \<Rightarrow> checkpoint_output recorder \<times> 'w
       \<Rightarrow> (error + checkpoint_output) \<times> checkpoint_output recorder \<times> 'w" where
  "collection_run session config s =
     (if rc_max_attempts config \<le> 0
      then (Inl (Text ''collection maximum protocol attempts must be positive''), s)
      else if blank (rc_tool config)
      then (Inl (Text ''collection checkpoint tool name is required''), s)
      else protocol_attempts drain_recorder (collection_protocol config) session 1 (rc_prompt config) s)"

section \<open>The session's tools\<close>

text \<open>
  The handler of \<^verbatim>\<open>r42_collection_checkpoint\<close>: an accepted submission is recorded for the
  runner; a recorder that refuses makes the tool call fail.
\<close>

definition checkpoint_handler ::
    "checkpoint_args \<Rightarrow> checkpoint_output recorder \<Rightarrow> coll_context
       \<Rightarrow> (error + checkpoint_output tool_response) \<times> checkpoint_output recorder \<times> coll_context" where
  "checkpoint_handler args r c =
     (case checkpoint_tool args c of
        (response, d) \<Rightarrow>
          (case (if resp_accepted response then resp_output response else None) of
             None \<Rightarrow> (Inr response, r, d)
           | Some out \<Rightarrow>
               (case record_checkpoint out r of
                  Inl e \<Rightarrow> (Inl e, r, d)
                | Inr r' \<Rightarrow> (Inr response, r', d))))"

text \<open>
  \<open>wrapCollectionAcquisitionTools\<close>: the guards before the wrapped tool runs, and what is done
  with its result; the wrapped tool itself runs between the two with no lock held.
\<close>

definition acquisition_start :: "coll_context \<Rightarrow> (string tool_response + lease) \<times> coll_context" where
  "acquisition_start c =
     (case begin_workflow c of
        Inl e \<Rightarrow> (Inl (rejection ''context_validation'' e), c)
      | Inr c1 \<Rightarrow>
     (case begin_tool_call c1 of
        Inl e \<Rightarrow> (Inl (rejection ''collection_tool_gate'' e), c1)
      | Inr (l, c2) \<Rightarrow>
     (case wf_acquire_gate (cc_state c2) of
        Some e \<Rightarrow> (Inl (rejection ''checkpoint_pending'' (wf_error_text e)), snd (release_tool_call l c2))
      | None \<Rightarrow> (Inr l, c2))))"

definition acquisition_finish ::
    "string \<Rightarrow> (error + string \<times> bool) \<Rightarrow> lease \<Rightarrow> coll_context \<Rightarrow> (error + string) \<times> coll_context" where
  "acquisition_finish call_id result l c =
     (case result of
        Inl e \<Rightarrow> (Inl e, snd (release_tool_call l c))
      | Inr (content, success) \<Rightarrow>
          (if call_id \<noteq> [] \<and> success \<and> content \<noteq> []
           then (case retain_tool_result call_id content (cc_artifacts c) of
                   Inl e \<Rightarrow> (Inl e, snd (release_tool_call l c))
                 | Inr artifacts \<Rightarrow> (Inr content, snd (release_tool_call l (c\<lparr>cc_artifacts := artifacts\<rparr>))))
           else (Inr content, snd (release_tool_call l c))))"

text \<open>\<open>beginCollectionAcquisition\<close>, the gate of the built-in search tools.\<close>

definition begin_collection_acquisition :: "coll_context \<Rightarrow> (error + lease) \<times> coll_context" where
  "begin_collection_acquisition c =
     (case begin_tool_call c of
        Inl e \<Rightarrow> (Inl e, c)
      | Inr (l, c1) \<Rightarrow>
          (case wf_acquire_gate (cc_state c1) of
             Some e \<Rightarrow> (Inl (wf_error_text e), snd (release_tool_call l c1))
           | None \<Rightarrow> (Inr l, c1)))"

text \<open>\<open>wrapCollectionRoundTools\<close>: a refused call is a rejected response, else the tool runs.\<close>

definition round_tool :: "('c \<Rightarrow> 'a tool_response \<times> 'c) \<Rightarrow> ('c \<Rightarrow> coll_context) \<Rightarrow> 'c \<Rightarrow> 'a tool_response \<times> 'c" where
  "round_tool original context_of c =
     (case collection_round_gate (context_of c) of
        Some e \<Rightarrow> (rejection ''collection_round_complete'' e, c)
      | None \<Rightarrow> original c)"

section \<open>A turn of the session\<close>

text \<open>
  What may happen to the host while the model's turn runs: its tool calls, in any order and
  interleaved with tools in flight, the rest of the run, and tool handlers reporting a failure
  to the recorder.
\<close>

type_synonym 'fs round_state = "checkpoint_output recorder \<times> 'fs coll_system"

fun session_op :: "'fs coll_op \<Rightarrow> bool" where
  "session_op (OpSetNeeds _) = True"
| "session_op (OpRegisterTool _ _) = True"
| "session_op OpBeginCall = True"
| "session_op (OpReleaseCall _) = True"
| "session_op (OpAddTarget _ _) = True"
| "session_op (OpSharedRegistry _) = True"
| "session_op (OpSharedFiles _) = True"
| "session_op _ = False"

inductive collection_turn :: "'fs os \<Rightarrow> 'fs round_state \<Rightarrow> 'fs round_state \<Rightarrow> bool" for os where
  tool_call: "session_op op \<Longrightarrow> coll_step os s op t \<Longrightarrow> collection_turn os (r, s) (r, t)"
| checkpoint_call: "checkpoint_handler args r c = (res, r', d) \<Longrightarrow>
    collection_turn os (r, (fs, ls, c)) (r', (fs, ls, d))"
| acquire_call: "acquisition_start c = (res, d) \<Longrightarrow>
    ls' = (case res of Inl _ \<Rightarrow> ls | Inr l \<Rightarrow> ls @ [l]) \<Longrightarrow>
    collection_turn os (r, (fs, ls, c)) (r, (fs, ls', d))"
| builtin_call: "begin_collection_acquisition c = (res, d) \<Longrightarrow>
    ls' = (case res of Inl _ \<Rightarrow> ls | Inr l \<Rightarrow> ls @ [l]) \<Longrightarrow>
    collection_turn os (r, (fs, ls, c)) (r, (fs, ls', d))"
| finish_call: "n < length ls \<Longrightarrow> \<not> lease_done (ls ! n) \<Longrightarrow>
    acquisition_finish call_id result (ls ! n) c = (res, d) \<Longrightarrow>
    collection_turn os (r, (fs, ls, c)) (r, (fs, ls[n := \<lparr>lease_done = True\<rparr>], d))"
| tool_failure: "collection_turn os (r, s) (record_error e r, s)"

text \<open>What a recorded checkpoint says about the context it was accepted by.\<close>

definition submitted :: "coll_context \<Rightarrow> checkpoint_output \<Rightarrow> bool" where
  "submitted c out \<longleftrightarrow>
     cc_checkpoint_accepted c \<and> needs_frozen c \<and> wf_begun (cc_state c) \<and>
     cc_last_round_had c = (co_artifacts out \<noteq> []) \<and>
     dispositions_ok (active_needs_of c) (co_dispositions out)"

definition round_inv :: "'fs round_state \<Rightarrow> bool" where
  "round_inv s \<longleftrightarrow>
     (case s of (r, (fs, ls, c)) \<Rightarrow>
        coll_system_inv (fs, ls, c) \<and>
        (case rec_outputs r of
           [] \<Rightarrow> \<not> cc_checkpoint_accepted c
         | [out] \<Rightarrow> submitted c out
         | _ \<Rightarrow> False))"

text \<open>The part of the context a recorded checkpoint depends on.\<close>

definition same_round :: "coll_context \<Rightarrow> coll_context \<Rightarrow> bool" where
  "same_round c d \<longleftrightarrow>
     cc_checkpoint_accepted d = cc_checkpoint_accepted c \<and> cc_last_round_had d = cc_last_round_had c \<and>
     (wf_begun (cc_state c) \<longrightarrow> wf_begun (cc_state d) \<and> wf_phase (cc_state d) = wf_phase (cc_state c) \<and>
        wf_rounds (cc_state d) = wf_rounds (cc_state c) \<and> wf_max (cc_state d) = wf_max (cc_state c)) \<and>
     (cc_needs c \<noteq> [] \<longrightarrow> cc_needs d = cc_needs c \<and> cc_need_states d = cc_need_states c)"

lemma same_round_refl [simp]: "same_round c c"
  by (simp add: same_round_def)

lemma same_round_trans: "same_round c d \<Longrightarrow> same_round d e \<Longrightarrow> same_round c e"
  by (auto simp: same_round_def)

lemma same_round_submitted: "same_round c d \<Longrightarrow> submitted c out \<Longrightarrow> submitted d out"
  by (auto simp: same_round_def submitted_def needs_frozen_def active_needs_of_def)

lemma same_round_inv:
  assumes "round_inv (r, (fs, ls, c))" and "coll_system_inv (fs', ls', d)" and "same_round c d"
  shows "round_inv (r, (fs', ls', d))"
  using assms same_round_submitted [OF assms(3)]
  by (auto simp: round_inv_def same_round_def split: list.splits)

lemma begin_workflow_same_round: "begin_workflow c = Inr d \<Longrightarrow> same_round c d"
  by (erule begin_workflow_cases) (auto simp: same_round_def dest: wf_begin_frame)

lemma set_information_needs_same_round:
  "set_information_needs args c = (res, d) \<Longrightarrow> same_round c d"
  by (erule set_information_needs_cases)
     (auto dest: begin_workflow_same_round begin_workflow_frame simp: same_round_def)

lemma register_tool_same_round:
  "coll_inv c \<Longrightarrow> fresh_uuid uuid (cc_artifacts c) \<Longrightarrow> register_tool os uuid args fs c = (res, fs', d) \<Longrightarrow>
     same_round c d"
  by (erule (2) register_tool_cases)
     (auto dest!: begin_workflow_same_round simp: same_round_def wf_register_evidence_def Let_def split: if_splits)

lemma session_op_same_round:
  assumes "coll_system_inv (fs, ls, c)" and "session_op op" and "coll_step os (fs, ls, c) op (fs', ls', d)"
  shows "same_round c d"
proof -
  have inv: "coll_inv c" using assms(1) by (simp add: coll_system_inv_def)
  show ?thesis
  proof (cases op)
    case (OpSetNeeds args)
    with assms(3) set_information_needs_same_round show ?thesis
      by (cases "set_information_needs args c") auto
  next
    case (OpRegisterTool uuid args)
    with assms(3) register_tool_same_round [OF inv] show ?thesis
      by (cases "register_tool os uuid args fs c") auto
  qed (use assms(2,3) in \<open>auto simp: same_round_def begin_tool_call_def release_tool_call_def
        add_artifact_target_def split: option.splits sum.splits if_splits\<close>)
qed

text \<open>Leases: taking one and giving it back.\<close>

lemma begin_tool_call_inv:
  assumes "coll_system_inv (fs, ls, c)" and "begin_tool_call c = Inr (l, d)"
  shows "coll_system_inv (fs, ls @ [l], d) \<and> same_round c d \<and> \<not> lease_done l \<and> cc_state d = cc_state c \<and>
    (\<forall>l'. snd (release_tool_call l d) = c)"
proof -
  have "coll_step os (fs, ls, c) OpBeginCall (fs, ls @ [l], d)" for os :: "'a os"
    using assms(2) by simp
  then have "coll_system_inv (fs, ls @ [l], d)" using coll_step_inv assms(1) by blast
  with assms(2) show ?thesis
    by (auto simp: begin_tool_call_def same_round_def release_tool_call_def split: option.splits)
qed

lemma begin_workflow_system_inv:
  assumes "coll_system_inv (fs, ls, c)" and "begin_workflow c = Inr d"
  shows "coll_system_inv (fs, ls, d)"
  using assms begin_workflow_inv [OF _ assms(2)] begin_workflow_frame [OF assms(2)]
  by (auto simp: coll_system_inv_def)

lemma acquisition_start_inv:
  assumes "coll_system_inv (fs, ls, c)" and "acquisition_start c = (res, d)"
  shows "coll_system_inv (fs, (case res of Inl _ \<Rightarrow> ls | Inr l \<Rightarrow> ls @ [l]), d) \<and> same_round c d"
proof (cases "begin_workflow c")
  case (Inl e)
  with assms show ?thesis by (auto simp: acquisition_start_def)
next
  case (Inr c1)
  note c1 = begin_workflow_system_inv [OF assms(1) Inr] begin_workflow_same_round [OF Inr]
  show ?thesis
  proof (cases "begin_tool_call c1")
    case bad: (Inl e)
    with assms(2) Inr c1 show ?thesis by (auto simp: acquisition_start_def)
  next
    case ok: (Inr ld)
    obtain l c2 where ld: "ld = (l, c2)" by force
    note took = begin_tool_call_inv [OF c1(1) ok [unfolded ld]]
    show ?thesis
    proof (cases "wf_acquire_gate (cc_state c2)")
      case None
      with assms(2) Inr ok ld have "res = Inr l" "d = c2" by (simp_all add: acquisition_start_def)
      with took c1(2) same_round_trans show ?thesis by auto
    next
      case (Some e)
      with assms(2) Inr ok ld took have "d = c1" "\<exists>x. res = Inl x" by (auto simp: acquisition_start_def)
      with c1 show ?thesis by auto
    qed
  qed
qed

lemma begin_collection_acquisition_inv:
  assumes "coll_system_inv (fs, ls, c)" and "begin_collection_acquisition c = (res, d)"
  shows "coll_system_inv (fs, (case res of Inl _ \<Rightarrow> ls | Inr l \<Rightarrow> ls @ [l]), d) \<and> same_round c d"
proof (cases "begin_tool_call c")
  case (Inl e)
  with assms show ?thesis by (auto simp: begin_collection_acquisition_def)
next
  case (Inr ld)
  obtain l c2 where ld: "ld = (l, c2)" by force
  note took = begin_tool_call_inv [OF assms(1) Inr [unfolded ld]]
  show ?thesis
  proof (cases "wf_acquire_gate (cc_state c2)")
    case None
    with assms(2) Inr ld have "res = Inr l" "d = c2" by (simp_all add: begin_collection_acquisition_def)
    with took show ?thesis by auto
  next
    case (Some e)
    with assms(2) Inr ld took have "d = c" "\<exists>x. res = Inl x" by (auto simp: begin_collection_acquisition_def)
    with assms(1) show ?thesis by auto
  qed
qed

lemma retain_tool_result_keeps:
  assumes "retain_tool_result call result r = Inr r'" and "reg_ready r"
  shows "reg_ready r' \<and> evidence_ids r' = evidence_ids r"
  using assms retain_tool_result_inv [OF assms(1)]
  by (auto simp: reg_ready_def maps_made_def retain_tool_result_def go_assign_def evidence_ids_def has_purpose_def
      split: if_splits sum.splits option.splits)

lemma lease_released [simp]: "(l :: lease)\<lparr>lease_done := True\<rparr> = \<lparr>lease_done = True\<rparr>"
  by (cases l) simp

lemma acquisition_finish_inv:
  assumes "coll_system_inv (fs, ls, c)" and "n < length ls" and "\<not> lease_done (ls ! n)"
    and "acquisition_finish call_id result (ls ! n) c = (res, d)"
  shows "coll_system_inv (fs, ls[n := \<lparr>lease_done = True\<rparr>], d) \<and> same_round c d"
proof -
  have released: "coll_system_inv (fs, ls[n := \<lparr>lease_done = True\<rparr>], snd (release_tool_call (ls ! n) b)) \<and>
      same_round b (snd (release_tool_call (ls ! n) b))"
    if "coll_system_inv (fs, ls, b)" for b
  proof -
    have step: "coll_step os (fs, ls, b) (OpReleaseCall n)
        (fs, ls[n := \<lparr>lease_done = True\<rparr>], snd (release_tool_call (ls ! n) b))" for os
      using assms(2,3) by (simp add: release_tool_call_def)
    show ?thesis
      using coll_step_inv [OF that step] session_op_same_round [OF that _ step] by simp
  qed
  have retained: "coll_system_inv (fs, ls, c\<lparr>cc_artifacts := artifacts\<rparr>)"
    if "retain_tool_result call_id content (cc_artifacts c) = Inr artifacts" for content artifacts
  proof -
    have "coll_step os (fs, ls, c) (OpSharedRegistry artifacts) (fs, ls, c\<lparr>cc_artifacts := artifacts\<rparr>)" for os :: "'a os"
      using retain_tool_result_keeps [OF that] assms(1) coll_invD(2) by (auto simp: coll_system_inv_def)
    then show ?thesis using coll_step_inv assms(1) by blast
  qed
  have same: "same_round c (c\<lparr>cc_artifacts := artifacts\<rparr>)" for artifacts
    by (simp add: same_round_def)
  have kept: "coll_system_inv (fs, ls[n := \<lparr>lease_done = True\<rparr>],
        snd (release_tool_call (ls ! n) (c\<lparr>cc_artifacts := artifacts\<rparr>))) \<and>
      same_round c (snd (release_tool_call (ls ! n) (c\<lparr>cc_artifacts := artifacts\<rparr>)))"
    if "retain_tool_result call_id content (cc_artifacts c) = Inr artifacts" for content artifacts
    using released [OF retained [OF that]] same_round_trans [OF same] by blast
  show ?thesis
    using assms(4) released [OF assms(1)] kept
    by (auto simp: acquisition_finish_def split: sum.splits prod.splits if_splits)
qed

text \<open>The checkpoint handler: accepted and recorded, or nothing recorded.\<close>

lemma checkpoint_accepted_submitted:
  assumes "coll_inv c" and "checkpoint_tool args c = (res, d)" and "resp_accepted res"
  shows "\<exists>out. resp_output res = Some out \<and> submitted d out \<and> \<not> cc_checkpoint_accepted c"
  using assms(1,2)
proof (cases rule: checkpoint_tool_cases)
  case (accepted b s)
  note b = begin_workflow_inv [OF assms(1) accepted(1)]
  have "wf_begun s" using accepted(8) b by (auto simp: wf_checkpoint_def split: if_splits)
  moreover have "\<not> cc_checkpoint_accepted c"
    using accepted(3) begin_workflow_frame [OF accepted(1)] by simp
  ultimately show ?thesis
    using accepted(2,5,7,9) by (auto simp: submitted_def needs_frozen_def active_needs_of_def)
qed (use assms(3) in auto)

lemma checkpoint_refused_same_round:
  assumes "coll_inv c" and "checkpoint_tool args c = (res, d)" and "\<not> resp_accepted res"
  shows "same_round c d"
  using assms(1,2)
proof (cases rule: checkpoint_tool_cases)
  case (refused b)
  then show ?thesis using begin_workflow_same_round by blast
qed (use assms(3) in auto)

lemma checkpoint_handler_inv:
  assumes "round_inv (r, (fs, ls, c))" and "checkpoint_handler args r c = (res, r', d)"
  shows "round_inv (r', (fs, ls, d))"
proof -
  have inv: "coll_system_inv (fs, ls, c)" "coll_inv c"
    using assms(1) by (auto simp: round_inv_def coll_system_inv_def)
  obtain response d1 where cp: "checkpoint_tool args c = (response, d1)" by force
  have dinv: "coll_system_inv (fs, ls, d1)"
    using checkpoint_tool_inv [OF inv(2) cp] checkpoint_tool_calls [OF inv(2) cp] inv(1)
    by (simp add: coll_system_inv_def)
  show ?thesis
  proof (cases "resp_accepted response")
    case True
    then obtain out where out: "resp_output response = Some out" "submitted d1 out" "\<not> cc_checkpoint_accepted c"
      using checkpoint_accepted_submitted [OF inv(2) cp] by blast
    then have "rec_outputs r = []"
      using assms(1) by (auto simp: round_inv_def submitted_def split: list.splits)
    with assms(2) cp True out dinv show ?thesis
      by (auto simp: checkpoint_handler_def record_checkpoint_def round_inv_def)
  next
    case False
    with assms(2) cp have "r' = r" "d = d1" by (auto simp: checkpoint_handler_def)
    with same_round_inv [OF assms(1) dinv checkpoint_refused_same_round [OF inv(2) cp False]] show ?thesis
      by simp
  qed
qed

lemma collection_turn_inv: "collection_turn os s t \<Longrightarrow> round_inv s \<Longrightarrow> round_inv t"
proof (induction rule: collection_turn.induct)
  case (tool_call op s t r)
  obtain fs ls c fs' ls' d where st: "s = (fs, ls, c)" "t = (fs', ls', d)" by (metis prod_cases3)
  have inv: "coll_system_inv (fs, ls, c)" using tool_call(3) by (simp add: round_inv_def st)
  have step: "coll_step os (fs, ls, c) op (fs', ls', d)" using tool_call(2) by (simp add: st)
  have "round_inv (r, (fs', ls', d))"
    using tool_call(3) unfolding st
    by (rule same_round_inv [OF _ coll_step_inv [OF inv step] session_op_same_round [OF inv tool_call(1) step]])
  then show ?case by (simp add: st)
next
  case (checkpoint_call args r c res r' d fs ls)
  from checkpoint_call(2,1) show ?case by (rule checkpoint_handler_inv)
next
  case (acquire_call c res d ls' ls r fs)
  then have "coll_system_inv (fs, ls, c)" by (simp add: round_inv_def)
  note keeps = acquisition_start_inv [OF this acquire_call(1), folded acquire_call(2)]
  show ?case using acquire_call(3) conjunct1 [OF keeps] conjunct2 [OF keeps] by (rule same_round_inv)
next
  case (builtin_call c res d ls' ls r fs)
  then have "coll_system_inv (fs, ls, c)" by (simp add: round_inv_def)
  note keeps = begin_collection_acquisition_inv [OF this builtin_call(1), folded builtin_call(2)]
  show ?case using builtin_call(3) conjunct1 [OF keeps] conjunct2 [OF keeps] by (rule same_round_inv)
next
  case (finish_call n ls call_id result c res d r fs)
  then have "coll_system_inv (fs, ls, c)" by (simp add: round_inv_def)
  note keeps = acquisition_finish_inv [OF this finish_call(1-3)]
  show ?case using finish_call(4) conjunct1 [OF keeps] conjunct2 [OF keeps] by (rule same_round_inv)
next
  case (tool_failure r s e)
  then show ?case by (auto simp: round_inv_def record_error_def)
qed

lemma collection_turns_inv: "(collection_turn os)\<^sup>*\<^sup>* s t \<Longrightarrow> round_inv s \<Longrightarrow> round_inv t"
  by (induction rule: rtranclp_induct) (auto intro: collection_turn_inv)

text \<open>Whatever a turn does, it leaves the phase and the rounds alone.\<close>

definition same_stage :: "coll_context \<Rightarrow> coll_context \<Rightarrow> bool" where
  "same_stage c d \<longleftrightarrow>
     (wf_begun (cc_state c) \<longrightarrow> wf_begun (cc_state d) \<and> wf_phase (cc_state d) = wf_phase (cc_state c) \<and>
        wf_rounds (cc_state d) = wf_rounds (cc_state c) \<and> wf_max (cc_state d) = wf_max (cc_state c))"

lemma same_stage_refl [simp]: "same_stage c c"
  by (simp add: same_stage_def)

lemma same_stage_trans: "same_stage c d \<Longrightarrow> same_stage d e \<Longrightarrow> same_stage c e"
  by (auto simp: same_stage_def)

lemma same_round_stage: "same_round c d \<Longrightarrow> same_stage c d"
  by (auto simp: same_round_def same_stage_def)

lemma checkpoint_tool_stage:
  assumes "coll_inv c" and "checkpoint_tool args c = (res, d)"
  shows "same_stage c d"
  using assms
proof (cases rule: checkpoint_tool_cases)
  case (refused b)
  then show ?thesis using same_round_stage [OF begin_workflow_same_round] by blast
next
  case (accepted b st)
  have "same_stage b d"
    using accepted(8) by (auto simp: accepted(9) same_stage_def wf_checkpoint_def split: if_splits)
  then show ?thesis using same_stage_trans [OF same_round_stage [OF begin_workflow_same_round [OF accepted(1)]]] by blast
qed auto

abbreviation context_of :: "'fs round_state \<Rightarrow> coll_context" where
  "context_of s \<equiv> snd (snd (snd s))"

lemma collection_turn_stage: "collection_turn os s t \<Longrightarrow> round_inv s \<Longrightarrow> same_stage (context_of s) (context_of t)"
proof (induction rule: collection_turn.induct)
  case (tool_call op s t r)
  obtain fs ls c fs' ls' d where st: "s = (fs, ls, c)" "t = (fs', ls', d)" by (metis prod_cases3)
  have inv: "coll_system_inv (fs, ls, c)" using tool_call(3) by (simp add: round_inv_def st)
  have step: "coll_step os (fs, ls, c) op (fs', ls', d)" using tool_call(2) by (simp add: st)
  from same_round_stage [OF session_op_same_round [OF inv tool_call(1) step]] show ?case by (simp add: st)
next
  case (checkpoint_call args r c res r' d fs ls)
  then have "coll_inv c" "\<exists>response. checkpoint_tool args c = (response, d)"
    by (auto simp: round_inv_def coll_system_inv_def checkpoint_handler_def split: prod.splits option.splits sum.splits)
  then show ?case using checkpoint_tool_stage by auto
next
  case (acquire_call c res d ls' ls r fs)
  then have "coll_system_inv (fs, ls, c)" by (simp add: round_inv_def)
  from same_round_stage [OF conjunct2 [OF acquisition_start_inv [OF this acquire_call(1)]]] show ?case by simp
next
  case (builtin_call c res d ls' ls r fs)
  then have "coll_system_inv (fs, ls, c)" by (simp add: round_inv_def)
  from same_round_stage [OF conjunct2 [OF begin_collection_acquisition_inv [OF this builtin_call(1)]]] show ?case by simp
next
  case (finish_call n ls call_id result c res d r fs)
  then have "coll_system_inv (fs, ls, c)" by (simp add: round_inv_def)
  from same_round_stage [OF conjunct2 [OF acquisition_finish_inv [OF this finish_call(1-3)]]] show ?case by simp
qed simp

definition staged :: "coll_context \<Rightarrow> 'fs round_state \<Rightarrow> bool" where
  "staged b s \<longleftrightarrow> round_inv s \<and> same_stage b (context_of s)"

lemma collection_turns_staged: "(collection_turn os)\<^sup>*\<^sup>* s t \<Longrightarrow> staged b s \<Longrightarrow> staged b t"
proof (induction rule: rtranclp_induct)
  case (step y z)
  then show ?case
    using collection_turn_inv [OF step.hyps(2)] same_stage_trans [OF _ collection_turn_stage [OF step.hyps(2)]]
    by (simp add: staged_def)
qed

section \<open>The runner and the context agree\<close>

lemma collection_run_agrees:
  assumes driven: "\<And>p s e t. session p s = (e, t) \<Longrightarrow> (collection_turn os)\<^sup>*\<^sup>* s t"
    and "round_inv s" and "collection_run session config s = (Inr out, (r', w'))"
  shows "rec_outputs r' = [] \<and> coll_system_inv w' \<and> submitted (snd (snd w')) out \<and>
    same_stage (context_of s) (snd (snd w'))"
proof -
  let ?good = "staged (context_of s)"
  have start: "?good s" using assms(2) by (simp add: staged_def)
  have "protocol_attempts drain_recorder (collection_protocol config) session 1 (rc_prompt config) s
      = (Inr out, (r', w'))"
    using assms(3) by (simp add: collection_run_def split: if_splits)
  moreover have "?good t" if "?good s'" "session p s' = (e, t)" for p s' e t
    using collection_turns_staged [OF driven [OF that(2)] that(1)] .
  moreover have "?good (snd (drain_recorder r), w)"
    if "?good (r, w)" "rec_outputs r = []" for r and w :: "'a coll_system"
    using that by (simp add: staged_def round_inv_def drain_recorder_def split: prod.splits)
  ultimately have "\<exists>r. ?good (r, w') \<and> (case Inr out of
       Inr out \<Rightarrow> r' = snd (drain_recorder r) \<and> rec_failure r = None \<and> (\<exists>outs. rec_outputs r = out # outs)
     | Inl e \<Rightarrow> protocol_failure (collection_protocol config) e \<and> (r' = r \<or> r' = snd (drain_recorder r)))"
    using call_recorder.attempts_result [where good = ?good and session = session, OF _ _ start]
    by blast
  then obtain r outs
    where r: "?good (r, w')" "r' = snd (drain_recorder r)" "rec_outputs r = out # outs"
    by auto
  obtain fs ls c where w: "w' = (fs, ls, c)" by (metis prod_cases3)
  from r(1,3) have "coll_system_inv w'" "submitted c out" "same_stage (context_of s) c"
    by (auto simp: staged_def round_inv_def w split: list.splits)
  with r(2) show ?thesis by (simp add: w drain_recorder_def)
qed

section \<open>Properties\<close>

text \<open>A scripted session: silent at first, then a checkpoint in answer to the retry prompt.\<close>

definition sample_session :: "('fs round_state) session" where
  "sample_session prompt s =
     (case s of (r, (fs, ls, c)) \<Rightarrow>
        if length prompt \<le> 1 then (None, s)
        else (case checkpoint_handler sample_checkpoint_args r c of (res, r', d) \<Rightarrow> (None, (r', (fs, ls, d)))))"

definition sample_run_config :: collection_run_config where
  "sample_run_config =
     \<lparr>rc_prompt = [Text ''start''], rc_max_attempts = 2, rc_tool = ''r42_collection_checkpoint'',
      rc_active = [], rc_tools = [''web_search'']\<rparr>"

lemma sample_session_driven:
  "sample_session p s = (e, t) \<Longrightarrow> (collection_turn os)\<^sup>*\<^sup>* s t"
  by (auto simp: sample_session_def split: prod.splits if_splits intro: checkpoint_call)

text \<open>
  C33: the runner and the context agree on the round. If during the model's turns the host
  changes only through the session's tools, tools in flight and the rest of the run, then a
  round that starts open and succeeds returns the one checkpoint the context has accepted:
  the context is closed for the round, everything registered has been submitted, the returned
  artifacts are empty exactly if the context says the round had none, the dispositions cover
  the active needs, and the recorder is empty again.
\<close>

theorem round_returns_the_accepted_checkpoint:
  assumes "\<And>p s e t. session p s = (e, t) \<Longrightarrow> (collection_turn os)\<^sup>*\<^sup>* s t"
    and "coll_system_inv (fs, ls, c)" and "\<not> cc_checkpoint_accepted c" and "rec_outputs r = []"
    and "collection_run session config (r, (fs, ls, c)) = (Inr out, (r', (fs', ls', d)))"
  shows "submitted d out \<and> pending_evidence d = [] \<and> wf_unreviewed (cc_state d) = 0 \<and>
    rec_outputs r' = [] \<and> coll_system_inv (fs', ls', d)"
proof -
  have start: "round_inv (r, (fs, ls, c))" using assms(2-4) by (simp add: round_inv_def)
  from collection_run_agrees [OF assms(1) start assms(5)]
  have "coll_system_inv (fs', ls', d)" "rec_outputs r' = []" "submitted d out" by auto
  then show ?thesis
    using coll_invD(4) [of d] by (auto simp: coll_system_inv_def submitted_def evidence_inv_def)
qed

theorem round_returns_the_accepted_checkpoint_witness:
  "\<exists>out r d fs. collection_run sample_session sample_run_config (new_recorder, ([] :: mem_fs, [], sample_collected))
      = (Inr out, (r, (fs, [], d))) \<and> submitted d out \<and> pending_evidence d = []"
proof -
  have inv: "coll_system_inv ([] :: mem_fs, [], sample_collected)"
    using sample_collected_inv sample_collected_reachable coll.reach_inv
    by (fastforce simp: coll_system_inv_def)
  have opened: "\<not> cc_checkpoint_accepted sample_collected" by code_simp
  obtain res r fs ls d where run: "collection_run sample_session sample_run_config
      (new_recorder, ([] :: mem_fs, [], sample_collected)) = (res, (r, (fs, ls, d)))"
    by (metis prod_cases5)
  have "\<not> isl (fst (collection_run sample_session sample_run_config
      (new_recorder, ([] :: mem_fs, [], sample_collected)))) \<and>
    fst (snd (snd (snd (collection_run sample_session sample_run_config
      (new_recorder, ([] :: mem_fs, [], sample_collected)))))) = []"
    by code_simp
  with run obtain out where out: "res = Inr out" "ls = []" by (cases res) auto
  have "submitted d out \<and> pending_evidence d = [] \<and> wf_unreviewed (cc_state d) = 0 \<and>
      rec_outputs r = [] \<and> coll_system_inv (fs, ls, d)"
    by (rule round_returns_the_accepted_checkpoint
        [where session = sample_session and os = mem_os, OF _ inv opened _ run [unfolded out(1)]])
       (auto simp: new_recorder_def intro: sample_session_driven)
  with run out show ?thesis by blast
qed

end
