(* ===== verification/Collection_QC.thy ===== *)
theory Collection_QC
  imports Collection_Runner
begin

text \<open>
  Collection QC: \<^verbatim>\<open>internal/collectionqc/runner.go\<close>, and the verdict tool of
  \<^verbatim>\<open>internal/cli/runtime_workflow_tools.go\<close>. The Collection context is the part of the host
  state a review changes. \<open>json.Marshal\<close> is a parameter: its text goes to the model and to the
  stored outcomes and is read by neither. A criteria value is the map of its strings; \<open>None\<close>
  stands for a null or missing one.
\<close>

section \<open>Verdicts\<close>

record qc_verdict =
  qv_assessments :: "qc_assessment list"

fun assessments_error :: "int \<Rightarrow> string set \<Rightarrow> qc_assessment list \<Rightarrow> error option" where
  "assessments_error index seen [] = None"
| "assessments_error index seen (a # as) =
     (if blank (qa_need a)
      then Some (Format ''assessment %d: information_need_id is required'' [IntArg index])
      else if qa_need a \<in> seen
      then Some (Format ''assessment %d: information need %q appears more than once'' [IntArg index, StrArg (qa_need a)])
      else assessments_error (index + 1) (insert (qa_need a) seen) as)"

definition verdict_error :: "qc_verdict \<Rightarrow> error option" where
  "verdict_error v =
     (if qv_assessments v = []
      then Some (Text ''collection qc verdict must contain at least one assessment'')
      else assessments_error 0 {} (qv_assessments v))"

definition record_verdict :: "qc_verdict \<Rightarrow> qc_verdict recorder \<Rightarrow> error + qc_verdict recorder" where
  "record_verdict v r =
     (case verdict_error v of
        Some e \<Rightarrow> Inl e
      | None \<Rightarrow>
          (if rec_outputs r \<noteq> []
           then Inl (Text ''r42_collection_qc_verdict may be accepted exactly once in each Collection QC round'')
           else Inr (r\<lparr>rec_outputs := rec_outputs r @ [v]\<rparr>)))"

text \<open>The handler of \<^verbatim>\<open>r42_collection_qc_verdict\<close> after its arguments were decoded.\<close>

definition verdict_handler :: "qc_verdict \<Rightarrow> coll_context \<Rightarrow> qc_verdict recorder \<Rightarrow> unit tool_response \<times> qc_verdict recorder" where
  "verdict_handler v c r =
     (let issues = validate_qc_assessments (qv_assessments v) (cc_last_round_had c) c
      in if issues \<noteq> [] then (reject_issues issues, r)
         else (case record_verdict v r of
                 Inl e \<Rightarrow> (rejection ''invalid_verdict'' e, r)
               | Inr r' \<Rightarrow> (accept (), r')))"

section \<open>The review\<close>

record qc_task =
  qt_system_prompt :: string
  qt_prompt :: "string option"

record coll_qc_config =
  cq_task :: qc_task
  cq_criteria :: "(string \<rightharpoonup> string) option"
  cq_artifacts :: "string list"
  cq_empty_reason :: string
  cq_dispositions :: "need_disposition list"
  cq_max_attempts :: int
  cq_tool :: string

record coll_qc_result =
  cr_verdict :: qc_verdict
  cr_outcomes :: "need_outcome list"
  cr_active :: "information_need list"
  cr_active_states :: "active_need list"
  cr_limit_exhausted :: bool

record context_document =
  cd_task :: qc_task
  cd_criteria :: "string \<rightharpoonup> string"
  cd_artifacts :: "string list"
  cd_empty_reason :: string
  cd_needs :: "information_need list"
  cd_active :: "information_need list"
  cd_active_states :: "active_need list"
  cd_outcomes :: "need_outcome list"
  cd_rounds :: int

definition coll_qc_validate :: "coll_qc_config \<Rightarrow> coll_context \<Rightarrow> error option" where
  "coll_qc_validate config c =
     (case coll_validate c of
        Some e \<Rightarrow> Some e
      | None \<Rightarrow>
          (if wf_current_phase (cc_state c) \<noteq> PhaseCollectionQC
           then Some (Format ''collection qc requires phase %s'' [StrArg (phase_text PhaseCollectionQC)])
           else if cq_max_attempts config \<le> 0
           then Some (Text ''collection qc maximum protocol attempts must be positive'')
           else if blank (cq_tool config)
           then Some (Text ''collection qc verdict tool name is required'')
           else None))"

text \<open>The default criteria and the encoder are the callers': \<open>defaults\<close> and \<open>encode\<close>.\<close>

definition context_prompt ::
    "(string \<rightharpoonup> string) \<Rightarrow> (context_document \<Rightarrow> error + string) \<Rightarrow> coll_qc_config \<Rightarrow> coll_context \<Rightarrow> error + prompt" where
  "context_prompt defaults encode config c =
     (case encode
        \<lparr>cd_task = cq_task config,
         cd_criteria = (case cq_criteria config of None \<Rightarrow> defaults | Some m \<Rightarrow> m),
         cd_artifacts = cq_artifacts config, cd_empty_reason = cq_empty_reason config,
         cd_needs = cc_needs c, cd_active = active_needs_of c,
         cd_active_states = active_information_need_states c,
         cd_outcomes = need_outcomes (cc_need_states c), cd_rounds = wf_rounds (cc_state c)\<rparr> of
        Inl e \<Rightarrow> Inl (Format ''encode collection qc context: %w'' [TextArg e])
      | Inr encoded \<Rightarrow> Inr [Text encoded])"

definition coll_qc_protocol :: "coll_qc_config \<Rightarrow> protocol" where
  "coll_qc_protocol config =
     \<lparr>pr_max = cq_max_attempts config,
      pr_send_failed = ''send collection qc prompt: %w'',
      pr_tool_failed = ''collection qc verdict tool failed: %w'',
      pr_exhausted = ''collection qc verdict protocol attempts exhausted after %d attempts (maximum %d)'',
      pr_retry = (\<lambda>attempt. [Format ''You must call the %q tool before Collection QC can finish.'' [StrArg (cq_tool config)]])\<rparr>"

text \<open>What \<open>Review\<close> does with the verdict, from \<open>MarkEvidenceReviewed\<close> on.\<close>

definition apply_verdict ::
    "(need_outcome list \<Rightarrow> error + string) \<Rightarrow> coll_qc_config \<Rightarrow> qc_verdict \<Rightarrow> coll_context
       \<Rightarrow> (error + coll_qc_result) \<times> coll_context" where
  "apply_verdict encode config v c =
     (let c1 = fold mark_evidence_reviewed (cq_artifacts config) c
      in case apply_qc (cq_dispositions config) (qv_assessments v)
                (wf_limit_exhausted (cc_state c1)) (cq_artifacts config \<noteq> []) c1 of
         (assessment, c2) \<Rightarrow>
           (if \<not> ar_accepted assessment
            then (Inl (Format ''apply collection qc assessments: %s''
                         [TextArg (iss_message (hd (ar_issues assessment)))]), c2)
            else (let limit = list_ex (\<lambda>out. no_reason out = TerminationBudgetExhausted) (ar_outcomes assessment)
      in case (if ar_outcomes assessment = [] then Inr c2
               else (case encode (ar_outcomes assessment) of
                       Inl e \<Rightarrow> Inl (Format ''encode information need outcomes: %w'' [TextArg e])
                     | Inr bytes \<Rightarrow> Inr (c2\<lparr>cc_state := wf_set_outcomes bytes (cc_state c2)\<rparr>))) of
           Inl e \<Rightarrow> (Inl e, c2)
         | Inr c3 \<Rightarrow>
           (if ar_all_terminal assessment
            then (case wf_advance (cc_state c3) EventSufficient of
                    Inl e \<Rightarrow> (Inl (Format ''advance terminal collection qc verdict: %w'' [TextArg (wf_error_text e)]), c3)
                  | Inr s \<Rightarrow>
                      (let c4 = c3\<lparr>cc_state := s\<rparr>
                       in (Inr \<lparr>cr_verdict = v, cr_outcomes = ar_outcomes assessment, cr_active = active_needs_of c4,
                               cr_active_states = active_information_need_states c4, cr_limit_exhausted = limit\<rparr>, c4)))
            else (case wf_advance (cc_state c3) EventNeedsMore of
                    Inl e \<Rightarrow> (Inl (Format ''advance needs_more collection qc verdict: %w'' [TextArg (wf_error_text e)]), c3)
                  | Inr s \<Rightarrow>
                      (let c4 = begin_next_round (c3\<lparr>cc_state := s\<rparr>)
                       in (Inr \<lparr>cr_verdict = v, cr_outcomes = ar_outcomes assessment, cr_active = active_needs_of c4,
                               cr_active_states = active_information_need_states c4, cr_limit_exhausted = False\<rparr>, c4)))))))"

definition coll_qc_review ::
    "(string \<rightharpoonup> string) \<Rightarrow> (context_document \<Rightarrow> error + string) \<Rightarrow> (need_outcome list \<Rightarrow> error + string)
       \<Rightarrow> (qc_verdict recorder \<times> 'fs coll_system) session \<Rightarrow> coll_qc_config
       \<Rightarrow> qc_verdict recorder \<times> 'fs coll_system
       \<Rightarrow> (error + coll_qc_result) \<times> qc_verdict recorder \<times> 'fs coll_system" where
  "coll_qc_review defaults encode_context encode_outcomes session config s =
     (case s of (r, (fs, ls, c)) \<Rightarrow>
     (case coll_qc_validate config c of
        Some e \<Rightarrow> (Inl e, s)
      | None \<Rightarrow>
     (case context_prompt defaults encode_context config c of
        Inl e \<Rightarrow> (Inl e, s)
      | Inr prompt \<Rightarrow>
     (case protocol_attempts drain_recorder (coll_qc_protocol config) session 1 prompt s of
        (Inl e, s1) \<Rightarrow> (Inl e, s1)
      | (Inr v, (r1, (fs1, ls1, c1))) \<Rightarrow>
          (case apply_verdict encode_outcomes config v c1 of
             (res, c2) \<Rightarrow> (res, (r1, (fs1, ls1, c2))))))))"

section \<open>A turn of the QC session\<close>

text \<open>
  The QC session may call the verdict tool, its handlers may report a failure, and whatever a
  Collection session may still do, the rest of the run and tools finishing late included, may
  happen in between.
\<close>

type_synonym 'fs qc_state = "qc_verdict recorder \<times> 'fs coll_system"

inductive coll_qc_turn :: "'fs os \<Rightarrow> 'fs qc_state \<Rightarrow> 'fs qc_state \<Rightarrow> bool" for os where
  qc_other_call: "session_op op \<Longrightarrow> coll_step os s op t \<Longrightarrow> coll_qc_turn os (r, s) (r, t)"
| qc_verdict_call: "verdict_handler v c r = (res, r') \<Longrightarrow> coll_qc_turn os (r, (fs, ls, c)) (r', (fs, ls, c))"
| qc_tool_failure: "coll_qc_turn os (r, s) (record_error e r, s)"

definition verdict_fits :: "coll_context \<Rightarrow> qc_verdict \<Rightarrow> bool" where
  "verdict_fits c v \<longleftrightarrow> assessments_ok (active_need_states (cc_need_states c)) (qv_assessments v) (cc_last_round_had c)"

text \<open>During a review the context stays what it was at the start, for all the review reads.\<close>

definition review_inv :: "coll_context \<Rightarrow> 'fs qc_state \<Rightarrow> bool" where
  "review_inv b s \<longleftrightarrow>
     (case s of (r, (fs, ls, c)) \<Rightarrow>
        coll_system_inv (fs, ls, c) \<and> same_round b c \<and> (\<forall>v \<in> set (rec_outputs r). verdict_fits c v))"

lemma same_round_fits:
  "cc_needs c \<noteq> [] \<Longrightarrow> same_round c d \<Longrightarrow> verdict_fits d v = verdict_fits c v"
  by (simp add: same_round_def verdict_fits_def)

lemma same_round_needs: "cc_needs b \<noteq> [] \<Longrightarrow> same_round b c \<Longrightarrow> cc_needs c \<noteq> []"
  by (simp add: same_round_def)

lemma verdict_handler_records:
  assumes "verdict_handler v c r = (res, r')"
  shows "set (rec_outputs r') \<subseteq> set (rec_outputs r) \<union> {v} \<and> (rec_outputs r' \<noteq> rec_outputs r \<longrightarrow> verdict_fits c v)"
  using assms
  by (auto simp: verdict_handler_def record_verdict_def Let_def validate_qc_assessments_def verdict_fits_def
      validate_assessments_Nil [symmetric] split: option.splits if_splits sum.splits)

lemma coll_qc_turn_inv:
  "coll_qc_turn os s t \<Longrightarrow> cc_needs b \<noteq> [] \<Longrightarrow> review_inv b s \<Longrightarrow> review_inv b t"
proof (induction rule: coll_qc_turn.induct)
  case (qc_other_call op s t r)
  obtain fs ls c fs' ls' d where st: "s = (fs, ls, c)" "t = (fs', ls', d)" by (metis prod_cases3)
  have inv: "coll_system_inv (fs, ls, c)" "same_round b c" and fits: "\<forall>v \<in> set (rec_outputs r). verdict_fits c v"
    using qc_other_call(4) by (simp_all add: review_inv_def st)
  have step: "coll_step os (fs, ls, c) op (fs', ls', d)" using qc_other_call(2) by (simp add: st)
  note same = session_op_same_round [OF inv(1) qc_other_call(1) step]
  have "cc_needs c \<noteq> []" using same_round_needs [OF qc_other_call(3) inv(2)] .
  then show ?case
    using coll_step_inv [OF inv(1) step] same_round_trans [OF inv(2) same] fits same_round_fits [OF _ same]
    by (simp add: review_inv_def st)
next
  case (qc_verdict_call v c r res r' fs ls)
  then show ?case using verdict_handler_records [OF qc_verdict_call(1)]
    by (cases "rec_outputs r' = rec_outputs r") (auto simp: review_inv_def)
next
  case (qc_tool_failure r s e)
  then show ?case by (auto simp: review_inv_def record_error_def)
qed

lemma coll_qc_turns_inv:
  "(coll_qc_turn os)\<^sup>*\<^sup>* s t \<Longrightarrow> cc_needs b \<noteq> [] \<Longrightarrow> review_inv b s \<Longrightarrow> review_inv b t"
  by (induction rule: rtranclp_induct) (auto intro: coll_qc_turn_inv)

section \<open>A verdict that fits is applied\<close>

lemma mark_reviewed_all:
  "fold mark_evidence_reviewed is c = c\<lparr>cc_reviewed := cc_reviewed c \<union> set is\<rparr>"
  by (induction "is" arbitrary: c) (simp_all add: mark_evidence_reviewed_def)

text \<open>What a review decided: Research if every need is closed, else one more round.\<close>

definition round_decided :: "coll_context \<Rightarrow> coll_qc_result \<Rightarrow> coll_context \<Rightarrow> bool" where
  "round_decided c result d \<longleftrightarrow>
     (if active_need_states (cc_need_states d) = []
      then wf_phase (cc_state d) = PhaseResearch \<and> wf_rounds (cc_state d) = wf_rounds (cc_state c)
      else wf_phase (cc_state d) = PhaseCollection \<and> wf_rounds (cc_state d) = wf_rounds (cc_state c) + 1 \<and>
        wf_rounds (cc_state c) < wf_max (cc_state c) \<and> \<not> cc_checkpoint_accepted d) \<and>
     wf_max (cc_state d) = wf_max (cc_state c) \<and>
     cr_outcomes result = need_outcomes (cc_need_states d) \<and>
     cr_active_states result = active_information_need_states d \<and>
     list_all2 need_evolves (cc_need_states c) (cc_need_states d)"

lemma active_need_states_Nil: "active_need_states states = [] \<longleftrightarrow> (\<forall>st \<in> set states. ns_outcome st \<noteq> None)"
  by (simp add: active_need_states_def filter_empty_conv)

lemma advance_after_review:
  assumes "wf_begun s" and "wf_phase s = PhaseCollectionQC"
  shows "wf_advance s EventSufficient = Inr (s\<lparr>wf_phase := PhaseResearch, wf_cursor := wf_cursor s + 1\<rparr>)"
    and "\<not> wf_limit_exhausted s \<Longrightarrow> wf_advance s EventNeedsMore =
      Inr (s\<lparr>wf_phase := PhaseCollection, wf_rounds := wf_rounds s + 1, wf_cursor := wf_cursor s + 1\<rparr>)"
  using assms by (simp_all add: wf_advance_def wf_limit_exhausted_def)

lemma apply_verdict_decides:
  assumes inv: "coll_inv c" and "submitted c out" and phase: "wf_phase (cc_state c) = PhaseCollectionQC"
    and config: "cq_dispositions config = co_dispositions out" "cq_artifacts config = co_artifacts out"
    and fits: "verdict_fits c v" and encodes: "\<forall>outs. \<exists>bytes. encode outs = Inr bytes"
  shows "\<exists>result d. apply_verdict encode config v c = (Inr result, d) \<and> coll_inv d \<and>
    cc_active_calls d = cc_active_calls c \<and> cc_reviewed d = cc_reviewed c \<union> set (co_artifacts out) \<and>
    round_decided c result d"
proof -
  let ?c1 = "c\<lparr>cc_reviewed := cc_reviewed c \<union> set (co_artifacts out)\<rparr>"
  have c1: "fold mark_evidence_reviewed (co_artifacts out) c = ?c1" by (rule mark_reviewed_all)
  have inv1: "coll_inv ?c1" using inv by (rule coll_inv_cong) simp_all
  obtain a c2 where ap: "apply_qc (co_dispositions out) (qv_assessments v)
      (wf_limit_exhausted (cc_state c)) (co_artifacts out \<noteq> []) ?c1 = (a, c2)" by force
  obtain states where ap': "apply_qc_assessments (co_dispositions out) (qv_assessments v)
      (wf_limit_exhausted (cc_state c)) (cc_last_round_had c) (cc_need_states c) = (a, states)"
    and c2: "c2 = ?c1\<lparr>cc_need_states := states\<rparr>"
    using ap assms(2) by (auto simp: apply_qc_def submitted_def split: prod.splits)
  have "ar_accepted (fst (apply_qc_assessments (co_dispositions out) (qv_assessments v)
      (wf_limit_exhausted (cc_state c)) (cc_last_round_had c) (cc_need_states c)))"
    using assms(2) fits by (simp only: apply_qc_accepted_iff verdict_fits_def submitted_def active_needs_of_def)
  then have accepted: "ar_accepted a" by (simp add: ap')
  obtain f where f: "states = map f (cc_need_states c)" "ar_outcomes a = need_outcomes states"
    "ar_all_terminal a \<longleftrightarrow> length (need_outcomes states) = length states"
    "f = (if wf_limit_exhausted (cc_state c)
          then exhaust_need \<circ> assess_need (index_by nd_need (co_dispositions out)) (index_by qa_need (qv_assessments v))
          else assess_need (index_by nd_need (co_dispositions out)) (index_by qa_need (qv_assessments v)))"
    using apply_qc_states [OF ap' accepted] by metis
  have terminal: "ar_all_terminal a \<longleftrightarrow> active_need_states states = []"
    by (simp only: f(3) length_need_outcomes active_need_states_Nil)
  have within: "\<not> wf_limit_exhausted (cc_state c)" if "\<not> ar_all_terminal a"
  proof
    assume "wf_limit_exhausted (cc_state c)"
    then have "\<forall>st \<in> set states. ns_outcome st \<noteq> None" using f(1,4) by auto
    with that show False by (simp only: f(3) length_need_outcomes)
  qed
  have inv2: "coll_inv c2" using apply_qc_inv [OF inv1 ap] .
  have evolves: "list_all2 need_evolves (cc_need_states c) states"
    using apply_qc_effect [OF _ ap'] coll_invD(5) [OF inv] by (simp add: plan_inv_def)
  obtain c3 where c3: "(if ar_outcomes a = [] then Inr c2
        else (case encode (ar_outcomes a) of
            Inl e \<Rightarrow> Inl (Format ''encode information need outcomes: %w'' [TextArg e])
          | Inr bytes \<Rightarrow> Inr (c2\<lparr>cc_state := wf_set_outcomes bytes (cc_state c2)\<rparr>))) = (Inr c3 :: error + coll_context)"
    and inv3: "coll_inv c3" and same3: "c3 = c2\<lparr>cc_state := cc_state c3\<rparr>"
    and state3: "wf_phase (cc_state c3) = PhaseCollectionQC" "wf_begun (cc_state c3)"
      "wf_rounds (cc_state c3) = wf_rounds (cc_state c)" "wf_max (cc_state c3) = wf_max (cc_state c)"
  proof (cases "ar_outcomes a = []")
    case True
    show ?thesis
      by (rule that [of c2]) (use True inv2 assms(2) phase in \<open>simp_all add: c2 submitted_def\<close>)
  next
    case False
    obtain bytes where bytes: "encode (ar_outcomes a) = Inr bytes" using encodes by blast
    have outcomes_inv: "coll_inv (c2\<lparr>cc_state := wf_set_outcomes bytes (cc_state c2)\<rparr>)"
      using inv2 wf_set_outcomes_inv [OF coll_invD(1) [OF inv2]]
      by (intro coll_inv_state) (simp_all add: wf_set_outcomes_def)
    show ?thesis
      by (rule that [of "c2\<lparr>cc_state := wf_set_outcomes bytes (cc_state c2)\<rparr>"])
         (use False bytes outcomes_inv assms(2) phase in \<open>simp_all add: c2 submitted_def wf_set_outcomes_def\<close>)
  qed
  show ?thesis
  proof (cases "ar_all_terminal a")
    case True
    define s where "s = (cc_state c3)\<lparr>wf_phase := PhaseResearch, wf_cursor := wf_cursor (cc_state c3) + 1\<rparr>"
    have adv: "wf_advance (cc_state c3) EventSufficient = Inr s"
      using advance_after_review(1) [OF state3(2,1)] by (simp add: s_def)
    have "apply_verdict encode config v c = (Inr \<lparr>cr_verdict = v, cr_outcomes = ar_outcomes a,
        cr_active = active_needs_of (c3\<lparr>cc_state := s\<rparr>),
        cr_active_states = active_information_need_states (c3\<lparr>cc_state := s\<rparr>),
        cr_limit_exhausted = list_ex (\<lambda>out. no_reason out = TerminationBudgetExhausted) (ar_outcomes a)\<rparr>,
        c3\<lparr>cc_state := s\<rparr>)"
      by (simp add: apply_verdict_def Let_def config c1 ap accepted c3 True adv)
    moreover have "coll_inv (c3\<lparr>cc_state := s\<rparr>)" using advance_phase_inv [OF inv3 adv] .
    moreover have "cc_need_states c3 = states" "cc_reviewed c3 = cc_reviewed c \<union> set (co_artifacts out)"
      "cc_active_calls c3 = cc_active_calls c"
      by (subst same3, simp add: c2)+
    ultimately show ?thesis
      using True terminal state3 f(2) evolves by (auto simp: round_decided_def s_def)
  next
    case False
    define s where "s = (cc_state c3)\<lparr>wf_phase := PhaseCollection, wf_rounds := wf_rounds (cc_state c3) + 1,
      wf_cursor := wf_cursor (cc_state c3) + 1\<rparr>"
    have below: "wf_rounds (cc_state c) < wf_max (cc_state c)"
      using within [OF False] by (simp add: wf_limit_exhausted_def)
    have adv: "wf_advance (cc_state c3) EventNeedsMore = Inr s"
      using advance_after_review(2) [OF state3(2,1)] below state3(3,4) by (simp add: s_def wf_limit_exhausted_def)
    have "apply_verdict encode config v c = (Inr \<lparr>cr_verdict = v, cr_outcomes = ar_outcomes a,
        cr_active = active_needs_of (begin_next_round (c3\<lparr>cc_state := s\<rparr>)),
        cr_active_states = active_information_need_states (begin_next_round (c3\<lparr>cc_state := s\<rparr>)),
        cr_limit_exhausted = False\<rparr>, begin_next_round (c3\<lparr>cc_state := s\<rparr>))"
      by (simp add: apply_verdict_def Let_def config c1 ap accepted c3 False adv)
    moreover have "coll_inv (begin_next_round (c3\<lparr>cc_state := s\<rparr>))"
      using advance_phase_inv [OF inv3 adv] by (rule coll_inv_cong) (simp_all add: begin_next_round_def)
    moreover have "cc_need_states c3 = states" "cc_reviewed c3 = cc_reviewed c \<union> set (co_artifacts out)"
      "cc_active_calls c3 = cc_active_calls c"
      by (subst same3, simp add: c2)+
    ultimately show ?thesis
      using False terminal state3 f(2) evolves below by (auto simp: round_decided_def s_def begin_next_round_def)
  qed
qed

lemma review_attempts:
  fixes session :: "'fs qc_state session"
  assumes driven: "\<And>p s e t. session p s = (e, t) \<Longrightarrow> (coll_qc_turn os)\<^sup>*\<^sup>* s t"
    and needs: "cc_needs b \<noteq> []" and "review_inv b s"
    and "protocol_attempts drain_recorder pr session attempt prompt s = (res, (r', w))"
  shows "\<exists>r. review_inv b (r, w) \<and> (\<forall>v. res = Inr v \<longrightarrow> rec_outputs r' = [] \<and> v \<in> set (rec_outputs r))"
proof -
  have "review_inv b t" if "review_inv b s" "session p s = (e, t)" for p s e t
    using coll_qc_turns_inv [OF driven [OF that(2)] needs that(1)] .
  moreover have "review_inv b (snd (drain_recorder r), w)"
    if "review_inv b (r, w)" "rec_outputs r = []" for r and w :: "'fs coll_system"
    using that by (simp add: review_inv_def drain_recorder_def split: prod.splits)
  ultimately have "\<exists>r. review_inv b (r, w) \<and> (case res of
       Inr v \<Rightarrow> r' = snd (drain_recorder r) \<and> rec_failure r = None \<and> (\<exists>outs. rec_outputs r = v # outs)
     | Inl e \<Rightarrow> protocol_failure pr e \<and> (r' = r \<or> r' = snd (drain_recorder r)))"
    using call_recorder.attempts_result [where good = "review_inv b" and session = session, OF _ _ assms(3,4)]
    by blast
  then show ?thesis by (cases res) (auto simp: drain_recorder_def)
qed

lemma coll_qc_review_decides:
  assumes "\<And>p s e t. session p s = (e, t) \<Longrightarrow> (coll_qc_turn os)\<^sup>*\<^sup>* s t"
    and "\<forall>outs. \<exists>bytes. encode_outcomes outs = Inr bytes"
    and "coll_system_inv (fs, ls, c)" and "submitted c out" and "wf_phase (cc_state c) = PhaseCollectionQC"
    and "cq_dispositions config = co_dispositions out" and "cq_artifacts config = co_artifacts out"
    and "rec_outputs r = []"
    and "coll_qc_review defaults encode_context encode_outcomes session config (r, (fs, ls, c)) = (res, (r', (fs', ls', d)))"
  shows "coll_system_inv (fs', ls', d) \<and>
    (case res of
       Inl e \<Rightarrow> same_round c d
     | Inr result \<Rightarrow> round_decided c result d \<and> rec_outputs r' = [] \<and> set (co_artifacts out) \<subseteq> cc_reviewed d)"
proof (cases "coll_qc_validate config c")
  case (Some e)
  with assms(3,9) show ?thesis by (auto simp: coll_qc_review_def)
next
  case valid: None
  show ?thesis
  proof (cases "context_prompt defaults encode_context config c")
    case (Inl e)
    with assms(3,9) valid show ?thesis by (auto simp: coll_qc_review_def)
  next
    case prompt: (Inr prompt)
    have needs: "cc_needs c \<noteq> []" using assms(4) by (simp add: submitted_def needs_frozen_def)
    obtain vres r1 fs1 ls1 c1 where loop: "protocol_attempts drain_recorder (coll_qc_protocol config) session 1 prompt
        (r, (fs, ls, c)) = (vres, (r1, (fs1, ls1, c1)))" by (metis prod_cases3)
    have start: "review_inv c (r, (fs, ls, c))" using assms(3,8) by (simp add: review_inv_def)
    have "\<exists>r0. review_inv c (r0, (fs1, ls1, c1)) \<and>
        (\<forall>v. vres = Inr v \<longrightarrow> rec_outputs r1 = [] \<and> v \<in> set (rec_outputs r0))"
      by (rule review_attempts [where session = session, OF _ needs start loop]) (rule assms(1))
    then obtain r0 where r0: "review_inv c (r0, (fs1, ls1, c1))"
      "\<And>v. vres = Inr v \<Longrightarrow> rec_outputs r1 = [] \<and> v \<in> set (rec_outputs r0)"
      by blast
    have sys1: "coll_system_inv (fs1, ls1, c1)" and same: "same_round c c1" using r0(1) by (simp_all add: review_inv_def)
    show ?thesis
    proof (cases vres)
      case (Inl e)
      with assms(9) valid prompt loop sys1 same show ?thesis by (auto simp: coll_qc_review_def)
    next
      case (Inr v)
      with r0 have fits: "verdict_fits c1 v" and emptied: "rec_outputs r1 = []"
        by (auto simp: review_inv_def)
      have "submitted c1 out" using same_round_submitted [OF same assms(4)] .
      moreover have state: "wf_phase (cc_state c1) = PhaseCollectionQC"
          "wf_rounds (cc_state c1) = wf_rounds (cc_state c)" "wf_max (cc_state c1) = wf_max (cc_state c)"
        using same assms(4,5) by (simp_all add: same_round_def submitted_def)
      ultimately obtain result d' where applied: "apply_verdict encode_outcomes config v c1 = (Inr result, d')"
          "coll_inv d'" "cc_active_calls d' = cc_active_calls c1"
          "cc_reviewed d' = cc_reviewed c1 \<union> set (co_artifacts out)" "round_decided c1 result d'"
        using apply_verdict_decides [OF _ _ _ assms(6,7) fits assms(2)] sys1
        by (auto simp: coll_system_inv_def)
      have "res = Inr result" "d = d'" "r' = r1" "fs' = fs1" "ls' = ls1"
        using assms(9) valid prompt loop Inr applied(1) by (simp_all add: coll_qc_review_def)
      moreover have "round_decided c result d'"
        using applied(5) state same needs by (simp add: round_decided_def same_round_def split: if_splits)
      ultimately show ?thesis
        using applied sys1 emptied by (simp add: coll_system_inv_def)
    qed
  qed
qed

section \<open>Properties\<close>

text \<open>
  C34: a review decides the round or leaves it open, never half. Given the checkpoint that was
  accepted for this round, and a session that reaches the host only through its tools: whatever
  the verdict tool recorded is applied, so \<open>Review\<close> fails only if the turn or a tool handler
  failed or no verdict came, and then the context is still in Collection QC with every need as
  it was. When it succeeds, either every need is closed and Research is next, or a need is
  open, the budget had a round left, and the next Collection round has begun.
\<close>

theorem review_decides_or_changes_nothing:
  assumes "\<And>p s e t. session p s = (e, t) \<Longrightarrow> (coll_qc_turn os)\<^sup>*\<^sup>* s t"
    and "\<forall>outs. \<exists>bytes. encode_outcomes outs = Inr bytes"
    and "coll_system_inv (fs, ls, c)" and "submitted c out" and "wf_phase (cc_state c) = PhaseCollectionQC"
    and "cq_dispositions config = co_dispositions out" and "cq_artifacts config = co_artifacts out"
    and "rec_outputs r = []"
    and "coll_qc_review defaults encode_context encode_outcomes session config (r, (fs, ls, c)) = (res, (r', (fs', ls', d)))"
  shows "coll_system_inv (fs', ls', d) \<and>
    (case res of
       Inl e \<Rightarrow> same_round c d
     | Inr result \<Rightarrow> round_decided c result d \<and> rec_outputs r' = [] \<and> set (co_artifacts out) \<subseteq> cc_reviewed d)"
  by (rule coll_qc_review_decides [OF _ assms(2-9)]) (rule assms(1))

text \<open>A session that submits one verdict in its first turn.\<close>

definition sample_qc_session :: "('fs qc_state) session" where
  "sample_qc_session prompt s =
     (case s of (r, (fs, ls, c)) \<Rightarrow>
        (case verdict_handler \<lparr>qv_assessments = sample_verdict\<rparr> c r of (res, r') \<Rightarrow> (None, (r', (fs, ls, c)))))"

lemma sample_qc_session_driven:
  "sample_qc_session p s = (e, t) \<Longrightarrow> (coll_qc_turn os)\<^sup>*\<^sup>* s t"
  by (auto simp: sample_qc_session_def split: prod.splits intro: qc_verdict_call)

definition sample_qc_config :: coll_qc_config where
  "sample_qc_config =
     \<lparr>cq_task = \<lparr>qt_system_prompt = [], qt_prompt = None\<rparr>, cq_criteria = None,
      cq_artifacts = [''artifact-2''], cq_empty_reason = [], cq_dispositions = sample_dispositions,
      cq_max_attempts = 3, cq_tool = ''r42_collection_qc_verdict''\<rparr>"

definition sample_reviewing :: coll_context where
  "sample_reviewing =
     sample_checkpointed\<lparr>cc_state := (cc_state sample_checkpointed)\<lparr>wf_phase := PhaseCollectionQC\<rparr>\<rparr>"

definition sample_submission :: checkpoint_output where
  "sample_submission =
     \<lparr>co_artifacts = [''artifact-2''], co_empty_reason = [], co_dispositions = sample_dispositions\<rparr>"

lemma sample_reviewing_submitted: "submitted sample_reviewing sample_submission"
  unfolding submitted_def by code_simp

lemma sample_reviewing_inv: "coll_inv sample_reviewing"
proof -
  obtain res where "checkpoint_tool sample_checkpoint_args sample_collected = (res, sample_checkpointed)"
    using sample_checkpoint by blast
  from checkpoint_tool_inv [OF sample_collected_inv this] have inv: "coll_inv sample_checkpointed" .
  have "wf_phase (cc_state sample_checkpointed) = PhaseCollection" "wf_begun (cc_state sample_checkpointed)"
    by code_simp+
  then have "wf_advance (cc_state sample_checkpointed) EventCollectionCheckpoint
      = Inr ((cc_state sample_checkpointed)\<lparr>wf_phase := PhaseCollectionQC\<rparr>)"
    by (simp add: wf_advance_def)
  from advance_phase_inv [OF inv this] show ?thesis by (simp only: sample_reviewing_def)
qed

theorem review_decides_or_changes_nothing_witness:
  "\<exists>result r d. coll_qc_review Map.empty (\<lambda>doc. Inr []) (\<lambda>outs. Inr ''[]'') sample_qc_session sample_qc_config
      (new_recorder, ([] :: mem_fs, [], sample_reviewing)) = (Inr result, (r, ([], [], d))) \<and>
    round_decided sample_reviewing result d \<and> wf_phase (cc_state d) = PhaseCollection"
proof -
  let ?run = "coll_qc_review Map.empty (\<lambda>doc. Inr []) (\<lambda>outs. Inr ''[]'') sample_qc_session sample_qc_config
      (new_recorder, ([] :: mem_fs, [], sample_reviewing))"
  obtain res r fs ls d where run: "?run = (res, (r, (fs, ls, d)))" by (metis prod_cases5)
  have "\<not> isl (fst ?run) \<and> fst (snd (snd ?run)) = [] \<and> fst (snd (snd (snd ?run))) = [] \<and>
      wf_phase (cc_state (snd (snd (snd (snd ?run))))) = PhaseCollection"
    by code_simp
  with run obtain result where out: "res = Inr result" "fs = []" "ls = []" "wf_phase (cc_state d) = PhaseCollection"
    by (cases res) auto
  have sys: "coll_system_inv ([] :: mem_fs, [], sample_reviewing)"
  proof -
    have "cc_active_calls sample_reviewing = 0" by code_simp
    with sample_reviewing_inv show ?thesis by (simp add: coll_system_inv_def open_leases_def)
  qed
  have phase: "wf_phase (cc_state sample_reviewing) = PhaseCollectionQC" by (simp add: sample_reviewing_def)
  have "coll_system_inv (fs, ls, d) \<and> (case res of
       Inl e \<Rightarrow> same_round sample_reviewing d
     | Inr result \<Rightarrow> round_decided sample_reviewing result d \<and> rec_outputs r = [] \<and>
         set (co_artifacts sample_submission) \<subseteq> cc_reviewed d)"
    by (rule review_decides_or_changes_nothing [where session = sample_qc_session and os = mem_os,
          OF _ _ sys sample_reviewing_submitted phase _ _ _ run])
       (auto simp: sample_qc_config_def sample_submission_def new_recorder_def intro: sample_qc_session_driven)
  with run out show ?thesis by auto
qed

end
