(* ===== verification/Artifact_Validator.thy ===== *)
theory Artifact_Validator
  imports Artifact_Registry
begin

text \<open>
  \<^verbatim>\<open>internal/artifact/validator.go\<close>: the check of the declared artifacts of a block before its
  result is accepted. Beside the calls of \<open>os\<close> it reads directories and asks of an error
  whether it says that a path does not exist (\<open>errors.Is(err, fs.ErrNotExist)\<close>) or that a
  parent is no directory (\<open>syscall.ENOTDIR\<close>). The two recursions over the file system end only
  if the file system is finite, so they are partial functions: \<open>None\<close> is a run that never ends.
\<close>

section \<open>The file system\<close>

record dir_entry =
  de_name :: string
  de_dir :: bool
  de_info :: "error + file_info"

record 'fs dir_os = "'fs os" +
  os_read_dir :: "'fs \<Rightarrow> string \<Rightarrow> error + dir_entry list"
  os_not_exist :: "error \<Rightarrow> bool"
  os_not_dir :: "error \<Rightarrow> bool"

section \<open>The validator\<close>

definition artifact_issue :: "string \<Rightarrow> message \<Rightarrow> string \<Rightarrow> string \<Rightarrow> issue" where
  "artifact_issue code message path hint =
     \<lparr>iss_id = [], iss_code = code, iss_message = message, iss_path = Some path, iss_hint = Some hint\<rparr>"

definition resolve_path :: "('fs, 'z) os_scheme \<Rightarrow> string \<Rightarrow> string \<Rightarrow> error + string" where
  "resolve_path os workspace path =
     (let path' = (if \<not> is_abs path then join_path workspace path else path)
      in case (if is_abs path' then Inr (clean path')
               else (case os_cwd os of Inl e \<Rightarrow> Inl e | Inr cwd \<Rightarrow> Inr (join_path cwd path'))) of
           Inl e \<Rightarrow> Inl e
         | Inr resolved \<Rightarrow> Inr (clean resolved))"

text \<open>The loop of \<open>nonDirectoryAncestorWith\<close>; \<open>Inr None\<close> is \<open>("", false, nil)\<close>.\<close>

partial_function (option) non_directory_ancestor ::
    "'fs dir_os \<Rightarrow> 'fs \<Rightarrow> string \<Rightarrow> (error + string option) option" where
  "non_directory_ancestor os fs parent =
     (case os_stat os fs parent of
        Inr info \<Rightarrow> Some (Inr (if \<not> fi_dir info then Some parent else None))
      | Inl e \<Rightarrow>
          (if \<not> os_not_exist os e \<and> \<not> os_not_dir os e then Some (Inl e)
           else if dir_path parent = parent then Some (Inr None)
           else non_directory_ancestor os fs (dir_path parent)))"

text \<open>The body of \<open>directoryContainsRegularFile\<close> over the entries not yet looked at.\<close>

partial_function (option) contains_regular ::
    "'fs dir_os \<Rightarrow> 'fs \<Rightarrow> string \<Rightarrow> dir_entry list \<Rightarrow> (error + bool) option" where
  "contains_regular os fs directory es =
     (case es of
        [] \<Rightarrow> Some (Inr False)
      | e # rest \<Rightarrow>
          (if de_dir e
           then (case os_read_dir os fs (join_path directory (de_name e)) of
                   Inl err \<Rightarrow> Some (Inl err)
                 | Inr below \<Rightarrow>
                     Option.bind (contains_regular os fs (join_path directory (de_name e)) below)
                       (\<lambda>r. case r of
                          Inl err \<Rightarrow> Some (Inl err)
                        | Inr found \<Rightarrow>
                            (if found then Some (Inr True) else contains_regular os fs directory rest)))
           else (case de_info e of
                   Inl err \<Rightarrow> Some (Inl err)
                 | Inr info \<Rightarrow>
                     (if fi_regular info then Some (Inr True) else contains_regular os fs directory rest))))"

definition directory_contains_regular_file :: "'fs dir_os \<Rightarrow> 'fs \<Rightarrow> string \<Rightarrow> (error + bool) option" where
  "directory_contains_regular_file os fs directory =
     (case os_read_dir os fs directory of
        Inl e \<Rightarrow> Some (Inl e)
      | Inr es \<Rightarrow> contains_regular os fs directory es)"

definition validate_artifact ::
    "'fs dir_os \<Rightarrow> 'fs \<Rightarrow> string \<Rightarrow> declared \<Rightarrow> (error + issue list) option" where
  "validate_artifact os fs path a =
     (case os_stat os fs path of
        Inl e \<Rightarrow>
          map_option (\<lambda>r. case r of
             Inl pe \<Rightarrow> Inl (Format ''inspect artifact %s parent: %w'' [StrArg (decl_name a), TextArg pe])
           | Inr (Some parent) \<Rightarrow>
               Inr (if decl_required a
                    then [artifact_issue ''artifact_path_blocked''
                            (Format ''required artifact %q is blocked by non-directory parent %q''
                               [StrArg (decl_name a), StrArg parent]) path
                            ''replace the blocking parent with a directory and create the artifact'']
                    else [])
           | Inr None \<Rightarrow>
               (if os_not_exist os e
                then Inr (if decl_required a
                          then [artifact_issue ''artifact_missing''
                                  (Format ''required artifact %q does not exist'' [StrArg (decl_name a)]) path
                                  ''create the artifact at the declared path'']
                          else [])
                else Inl (Format ''inspect artifact %s: %w'' [StrArg (decl_name a), TextArg e])))
            (non_directory_ancestor os fs (dir_path path))
      | Inr info \<Rightarrow>
          (let type_matches = (if decl_type a = ArtDirectory then fi_dir info else fi_regular info)
           in if \<not> type_matches
              then Some (Inr [artifact_issue ''artifact_type_mismatch''
                     (Format ''artifact %q is not a %s'' [StrArg (decl_name a), StrArg (artifact_type_text (decl_type a))]) path
                     (''replace it with a '' @ artifact_type_text (decl_type a))])
              else if \<not> decl_non_empty a then Some (Inr [])
              else map_option (\<lambda>r. case r of
                 Inl e \<Rightarrow> Inl (Format ''inspect artifact %s directory: %w'' [StrArg (decl_name a), TextArg e])
               | Inr non_empty \<Rightarrow>
                   Inr (if non_empty then []
                        else [artifact_issue ''artifact_empty'' (Format ''artifact %q is empty'' [StrArg (decl_name a)]) path
                                ''write non-empty artifact content at the declared path'']))
                (if decl_type a = ArtDirectory then directory_contains_regular_file os fs path
                 else Some (Inr (fi_size info > 0)))))"

record validation =
  val_paths :: "string \<rightharpoonup> string"
  val_issues :: "issue list"

fun validate_each ::
    "'fs dir_os \<Rightarrow> 'fs \<Rightarrow> string \<Rightarrow> declared list \<Rightarrow> validation \<Rightarrow> (error + validation) option" where
  "validate_each os fs workspace [] result = Some (Inr result)"
| "validate_each os fs workspace (a # as) result =
     (case declared_validate a of
        Some e \<Rightarrow> Some (Inl e)
      | None \<Rightarrow>
     (if val_paths result (decl_name a) \<noteq> None
      then Some (Inl (Format ''duplicate artifact name %q'' [StrArg (decl_name a)]))
      else (case resolve_path os workspace (decl_path a) of
        Inl e \<Rightarrow> Some (Inl (Format ''resolve artifact %s path: %w'' [StrArg (decl_name a), TextArg e]))
      | Inr path \<Rightarrow>
          Option.bind (validate_artifact os fs path a)
            (\<lambda>r. case r of
               Inl e \<Rightarrow> Some (Inl e)
             | Inr issues \<Rightarrow>
                 validate_each os fs workspace as
                   \<lparr>val_paths = (val_paths result)(decl_name a \<mapsto> path), val_issues = val_issues result @ issues\<rparr>))))"

definition validate_artifacts ::
    "'fs dir_os \<Rightarrow> 'fs \<Rightarrow> string \<Rightarrow> declared list \<Rightarrow> (error + validation) option" where
  "validate_artifacts os fs workspace artifacts =
     (if blank workspace then Some (Inl (Text ''artifact workspace is required''))
      else validate_each os fs workspace artifacts \<lparr>val_paths = Map.empty, val_issues = []\<rparr>)"

section \<open>What the validator decides\<close>

text \<open>A regular file at any depth below a directory, given its entries.\<close>

inductive regular_below :: "'fs dir_os \<Rightarrow> 'fs \<Rightarrow> string \<Rightarrow> dir_entry list \<Rightarrow> bool" for os fs where
  regular_here: "e \<in> set es \<Longrightarrow> \<not> de_dir e \<Longrightarrow> de_info e = Inr info \<Longrightarrow> fi_regular info \<Longrightarrow>
    regular_below os fs directory es"
| regular_deeper: "e \<in> set es \<Longrightarrow> de_dir e \<Longrightarrow>
    os_read_dir os fs (join_path directory (de_name e)) = Inr below \<Longrightarrow>
    regular_below os fs (join_path directory (de_name e)) below \<Longrightarrow> regular_below os fs directory es"

inductive_cases regular_below_ConsE: "regular_below os fs directory (e # es)"
inductive_cases regular_below_NilE: "regular_below os fs directory []"

lemma regular_below_Cons:
  "regular_below os fs directory (e # es) \<longleftrightarrow>
     (if de_dir e
      then \<exists>below. os_read_dir os fs (join_path directory (de_name e)) = Inr below \<and>
             regular_below os fs (join_path directory (de_name e)) below
      else \<exists>info. de_info e = Inr info \<and> fi_regular info) \<or>
     regular_below os fs directory es"
  (is "?l \<longleftrightarrow> ?here \<or> ?rest")
proof
  assume ?l
  then show "?here \<or> ?rest"
    by (cases rule: regular_below_ConsE) (auto intro: regular_here regular_deeper)
next
  assume "?here \<or> ?rest"
  then show ?l
  proof
    assume ?here
    then show ?l by (auto intro: regular_here regular_deeper split: if_splits)
  next
    assume ?rest
    then show ?l by (cases rule: regular_below.cases) (auto intro: regular_here regular_deeper)
  qed
qed

lemma contains_regular_sound:
  assumes "contains_regular os fs directory es = Some (Inr found)"
  shows "found = regular_below os fs directory es"
proof -
  have "\<forall>found. r = Inr found \<longrightarrow> found = regular_below os fs directory es"
    if "contains_regular os fs directory es = Some r" for r
  proof (rule contains_regular.raw_induct [where P = "\<lambda>os fs directory es r. \<forall>found. r = Inr found \<longrightarrow>
      found = regular_below os fs directory es", OF _ that])
    fix rec :: "'a dir_os \<Rightarrow> 'a \<Rightarrow> string \<Rightarrow> dir_entry list \<Rightarrow> (error + bool) option" and os fs directory es r
    assume IH: "\<And>os fs directory es r. rec os fs directory es = Some r \<Longrightarrow>
        \<forall>found. r = Inr found \<longrightarrow> found = regular_below os fs directory es"
      and step: "(case es of
        [] \<Rightarrow> Some (Inr False)
      | e # rest \<Rightarrow>
          (if de_dir e
           then (case os_read_dir os fs (join_path directory (de_name e)) of
                   Inl err \<Rightarrow> Some (Inl err)
                 | Inr below \<Rightarrow>
                     Option.bind (rec os fs (join_path directory (de_name e)) below)
                       (\<lambda>r. case r of
                          Inl err \<Rightarrow> Some (Inl err)
                        | Inr found \<Rightarrow> (if found then Some (Inr True) else rec os fs directory rest)))
           else (case de_info e of
                   Inl err \<Rightarrow> Some (Inl err)
                 | Inr info \<Rightarrow> (if fi_regular info then Some (Inr True) else rec os fs directory rest)))) = Some r"
    show "\<forall>found. r = Inr found \<longrightarrow> found = regular_below os fs directory es"
    proof (cases es)
      case Nil
      with step show ?thesis by (auto elim: regular_below_NilE)
    next
      case (Cons e rest)
      with step show ?thesis
        by (auto simp: regular_below_Cons dest!: IH split: sum.splits if_splits bind_splits)
    qed
  qed
  with assms show ?thesis by blast
qed

text \<open>A directory whose tree has finite depth; then the search returns.\<close>

inductive finite_tree :: "'fs dir_os \<Rightarrow> 'fs \<Rightarrow> string \<Rightarrow> dir_entry list \<Rightarrow> bool" for os fs where
  finite_treeI: "(\<And>e below. e \<in> set es \<Longrightarrow> de_dir e \<Longrightarrow>
      os_read_dir os fs (join_path directory (de_name e)) = Inr below \<Longrightarrow>
      finite_tree os fs (join_path directory (de_name e)) below) \<Longrightarrow> finite_tree os fs directory es"

lemma contains_regular_returns:
  "finite_tree os fs directory es \<Longrightarrow> \<exists>r. contains_regular os fs directory es = Some r"
proof (induction rule: finite_tree.induct)
  case (finite_treeI es directory)
  have "set es' \<subseteq> set es \<Longrightarrow> \<exists>r. contains_regular os fs directory es' = Some r" for es'
  proof (induction es')
    case Nil
    then show ?case by (simp add: contains_regular.simps)
  next
    case (Cons e rest)
    then obtain later where later: "contains_regular os fs directory rest = Some later" by auto
    have "e \<in> set es" using Cons.prems by simp
    then show ?case
      using finite_treeI.IH [of e] later
      by (subst contains_regular.simps) (auto split: sum.splits if_splits)
  qed
  then show ?case by simp
qed

text \<open>The ancestors of a cleaned absolute path end at the root.\<close>

lemma non_directory_ancestor_returns:
  assumes "\<forall>e \<in> set es. plain_elem e"
  shows "\<exists>r. non_directory_ancestor os fs (CHR ''/'' # join_with CHR ''/'' es) = Some r"
  using assms
proof (induction es rule: rev_induct)
  case Nil
  have "dir_path ''/'' = ''/''" using dir_path_root [of "[]"] by simp
  then show ?case by (subst non_directory_ancestor.simps) (auto split: sum.splits)
next
  case (snoc e es)
  have "dir_path (CHR ''/'' # join_with CHR ''/'' (es @ [e])) = CHR ''/'' # join_with CHR ''/'' es"
    using dir_path_root [OF snoc.prems] by simp
  with snoc show ?case by (subst non_directory_ancestor.simps) (auto split: sum.splits)
qed

lemma non_directory_ancestor_abs:
  assumes "is_abs p" and "clean p = p"
  shows "\<exists>r. non_directory_ancestor os fs (dir_path p) = Some r"
proof -
  have plain: "\<forall>e \<in> set (path_elems p). plain_elem e" using path_elems_plain [OF assms(1)] by blast
  have "p = CHR ''/'' # join_with CHR ''/'' (path_elems p)" using assms by (simp add: clean_def)
  then have "dir_path p = CHR ''/'' # join_with CHR ''/'' (butlast (path_elems p))"
    using dir_path_root [OF plain] by simp
  then show ?thesis
    using non_directory_ancestor_returns [of "butlast (path_elems p)"] plain
    by (metis in_set_butlastD)
qed

lemma resolve_path_abs:
  assumes "resolve_path os workspace path = Inr p" and "\<And>cwd. os_cwd os = Inr cwd \<Longrightarrow> is_abs cwd"
  shows "is_abs p \<and> clean p = p"
  using assms by (auto simp: resolve_path_def Let_def clean_idem split: if_splits sum.splits)

section \<open>When an artifact is in order\<close>

text \<open>
  The specification: what exists has the declared type and, where that is asked for, content;
  what does not exist is not required.
\<close>

definition artifact_in_order :: "'fs dir_os \<Rightarrow> 'fs \<Rightarrow> string \<Rightarrow> declared \<Rightarrow> bool" where
  "artifact_in_order os fs path a \<longleftrightarrow>
     (case os_stat os fs path of
        Inl e \<Rightarrow> \<not> decl_required a
      | Inr info \<Rightarrow>
          (if decl_type a = ArtDirectory
           then fi_dir info \<and> (decl_non_empty a \<longrightarrow>
             (\<exists>es. os_read_dir os fs path = Inr es \<and> regular_below os fs path es))
           else fi_regular info \<and> (decl_non_empty a \<longrightarrow> fi_size info > 0)))"

lemma validate_artifact_issues:
  assumes "validate_artifact os fs path a = Some (Inr issues)"
  shows "issues = [] \<longleftrightarrow> artifact_in_order os fs path a"
proof (cases "os_stat os fs path")
  case (Inl e)
  with assms obtain r where r: "non_directory_ancestor os fs (dir_path path) = Some r"
    by (auto simp: validate_artifact_def)
  show ?thesis
  proof (cases r)
    case parent: (Inr parent)
    with Inl r assms show ?thesis
      by (cases parent) (auto simp: validate_artifact_def artifact_in_order_def split: if_splits)
  qed (use Inl r assms in \<open>simp add: validate_artifact_def\<close>)
next
  case (Inr info)
  show ?thesis
  proof (cases "decl_type a = ArtDirectory \<and> fi_dir info \<and> decl_non_empty a")
    case True
    with Inr assms obtain r where r: "directory_contains_regular_file os fs path = Some r"
      by (auto simp: validate_artifact_def)
    with True Inr assms obtain found where found: "r = Inr found"
      by (cases r) (auto simp: validate_artifact_def)
    with r obtain es where "os_read_dir os fs path = Inr es" "contains_regular os fs path es = Some (Inr found)"
      by (auto simp: directory_contains_regular_file_def split: sum.splits)
    with True Inr assms r found show ?thesis
      by (auto simp: validate_artifact_def artifact_in_order_def dest: contains_regular_sound)
  qed (use Inr assms in \<open>auto simp: validate_artifact_def artifact_in_order_def Let_def split: if_splits\<close>)
qed

lemma validate_each_result:
  assumes "validate_each os fs workspace as result = Some (Inr final)"
  shows "\<exists>path. val_paths final = val_paths result ++ map_of (map (\<lambda>a. (decl_name a, path a)) as) \<and>
    distinct (map decl_name as) \<and> decl_name ` set as \<inter> dom (val_paths result) = {} \<and>
    (\<forall>a \<in> set as. declared_validate a = None \<and> resolve_path os workspace (decl_path a) = Inr (path a)) \<and>
    (val_issues final = [] \<longleftrightarrow> val_issues result = [] \<and> (\<forall>a \<in> set as. artifact_in_order os fs (path a) a))"
  using assms
proof (induction as arbitrary: result)
  case Nil
  then show ?case by simp
next
  case (Cons a as)
  then obtain p issues where step: "declared_validate a = None" "val_paths result (decl_name a) = None"
      "resolve_path os workspace (decl_path a) = Inr p" "validate_artifact os fs p a = Some (Inr issues)"
      "validate_each os fs workspace as
         \<lparr>val_paths = (val_paths result)(decl_name a \<mapsto> p), val_issues = val_issues result @ issues\<rparr> = Some (Inr final)"
    by (auto split: option.splits if_splits sum.splits bind_splits)
  obtain path where path:
      "val_paths final = (val_paths result)(decl_name a \<mapsto> p) ++ map_of (map (\<lambda>a. (decl_name a, path a)) as)"
      "distinct (map decl_name as)" "decl_name ` set as \<inter> dom ((val_paths result)(decl_name a \<mapsto> p)) = {}"
      "\<forall>a \<in> set as. declared_validate a = None \<and> resolve_path os workspace (decl_path a) = Inr (path a)"
      "val_issues final = [] \<longleftrightarrow> val_issues result @ issues = [] \<and> (\<forall>a \<in> set as. artifact_in_order os fs (path a) a)"
    using Cons.IH [OF step(5)] unfolding validation.select_convs by blast
  have fresh: "decl_name a \<notin> decl_name ` set as" using path(3) by auto
  let ?path = "path(a := p)"
  have same: "map (\<lambda>a. (decl_name a, ?path a)) as = map (\<lambda>a. (decl_name a, path a)) as"
    using fresh by auto
  have maps: "val_paths final = val_paths result ++ map_of (map (\<lambda>a. (decl_name a, ?path a)) (a # as))"
    using path(1) fresh by (subst list.map(2), subst same) (auto simp: map_add_def map_of_eq_None_iff image_image
        fun_eq_iff split: option.splits dest: map_of_SomeD)
  have same_path: "\<forall>b \<in> set as. ?path b = path b" using fresh by auto
  show ?case
  proof (intro exI [of _ ?path] conjI)
    show "val_paths final = val_paths result ++ map_of (map (\<lambda>a. (decl_name a, ?path a)) (a # as))"
      by (rule maps)
    show "decl_name ` set (a # as) \<inter> dom (val_paths result) = {}" using path(3) step(2) by auto
  qed (use same_path path(2,4,5) step(1,3) fresh validate_artifact_issues [OF step(4)] in simp_all)
qed

lemma validate_artifact_returns:
  assumes "is_abs path" and "clean path = path"
    and "\<And>es. os_read_dir os fs path = Inr es \<Longrightarrow> finite_tree os fs path es"
  shows "\<exists>r. validate_artifact os fs path a = Some r"
proof -
  obtain r where "non_directory_ancestor os fs (dir_path path) = Some r"
    using non_directory_ancestor_abs [OF assms(1,2), of os fs] by blast
  moreover have "\<exists>r. directory_contains_regular_file os fs path = Some r"
    using contains_regular_returns [OF assms(3)]
    by (cases "os_read_dir os fs path") (auto simp: directory_contains_regular_file_def)
  ultimately show ?thesis
    by (auto simp: validate_artifact_def Let_def split: sum.splits)
qed

lemma validate_each_returns:
  assumes "\<And>cwd. os_cwd os = Inr cwd \<Longrightarrow> is_abs cwd"
    and "\<And>path es. os_read_dir os fs path = Inr es \<Longrightarrow> finite_tree os fs path es"
  shows "\<exists>r. validate_each os fs workspace as result = Some r"
proof (induction as arbitrary: result)
  case (Cons a as)
  show ?case
  proof (cases "resolve_path os workspace (decl_path a)")
    case (Inr path)
    have "is_abs path \<and> clean path = path" using resolve_path_abs [OF Inr assms(1)] .
    then obtain r where "validate_artifact os fs path a = Some r"
      using validate_artifact_returns [OF _ _ assms(2)] by blast
    with Inr Cons.IH show ?thesis by (cases r) (auto split: option.splits)
  qed (auto split: option.splits)
qed simp

section \<open>A small file system\<close>

text \<open>Files named by their absolute path; a directory is what has a file in it.\<close>

definition names_below :: "mem_fs \<Rightarrow> string \<Rightarrow> string list" where
  "names_below fs p = map (drop (Suc (length p))) (filter (prefix (p @ ''/'')) (map fst fs))"

definition mem_dir_os :: "mem_fs dir_os" where
  "mem_dir_os = os.extend
     (mem_os\<lparr>os_stat := (\<lambda>fs p. case map_of fs p of
                Some c \<Rightarrow> Inr \<lparr>fi_dir = False, fi_regular = True, fi_size = int (length c)\<rparr>
              | None \<Rightarrow> (if names_below fs p \<noteq> [] then Inr \<lparr>fi_dir = True, fi_regular = False, fi_size = 0\<rparr>
                         else Inl (Text ''no such file'')))\<rparr>)
     \<lparr>os_read_dir = (\<lambda>fs p. Inr (map (\<lambda>n. \<lparr>de_name = n, de_dir = False,
          de_info = Inr \<lparr>fi_dir = False, fi_regular = True, fi_size = 1\<rparr>\<rparr>)
          (filter (\<lambda>n. CHR ''/'' \<notin> set n) (names_below fs p)))),
      os_not_exist = (\<lambda>e. e = Text ''no such file''), os_not_dir = (\<lambda>e. False)\<rparr>"

definition sample_notes :: declared where
  "sample_notes =
     \<lparr>decl_name = ''notes'', decl_type = ArtDirectory, decl_path = ''notes'',
      decl_description = ''working notes'', decl_required = True, decl_non_empty = True\<rparr>"

definition sample_disk :: mem_fs where
  "sample_disk = [(''/w/out.md'', ''text''), (''/w/notes/a.md'', ''a'')]"

lemma mem_dir_finite: "os_read_dir mem_dir_os fs path = Inr es \<Longrightarrow> finite_tree mem_dir_os fs path es"
  by (rule finite_treeI) (auto simp: mem_dir_os_def os.extend_def)

lemma mem_dir_cwd: "os_cwd mem_dir_os = Inr cwd \<Longrightarrow> is_abs cwd"
  by (auto simp: mem_dir_os_def os.extend_def mem_os_def is_abs_def)

declare contains_regular.simps [code]
declare non_directory_ancestor.simps [code]

section \<open>Properties\<close>

text \<open>
  C35: the validator reports exactly what is not in order. If \<open>Validate\<close> returns without an
  error, every declaration is well-formed, the names are distinct, each path is the resolved
  path of its declaration, and there is no issue exactly if everything that exists has the
  declared type and, where asked for, content (a regular file at any depth for a directory),
  and everything required exists.
\<close>

theorem artifacts_validated_exactly:
  assumes "validate_artifacts os fs workspace as = Some (Inr v)"
  shows "\<exists>path. val_paths v = map_of (map (\<lambda>a. (decl_name a, path a)) as) \<and> distinct (map decl_name as) \<and>
    (\<forall>a \<in> set as. declared_validate a = None \<and> resolve_path os workspace (decl_path a) = Inr (path a)) \<and>
    (val_issues v = [] \<longleftrightarrow> (\<forall>a \<in> set as. artifact_in_order os fs (path a) a))"
  using assms validate_each_result [of os fs workspace as "\<lparr>val_paths = Map.empty, val_issues = []\<rparr>" v]
  by (simp add: validate_artifacts_def split: if_splits)

theorem artifacts_validated_exactly_witness:
  "\<exists>v. validate_artifacts mem_dir_os sample_disk ''/w'' [sample_artifact, sample_notes] = Some (Inr v) \<and>
     val_issues v = [] \<and>
     (\<exists>path. resolve_path mem_dir_os ''/w'' (decl_path sample_notes) = Inr (path sample_notes) \<and>
        artifact_in_order mem_dir_os sample_disk (path sample_notes) sample_notes)"
proof -
  have "case validate_artifacts mem_dir_os sample_disk ''/w'' [sample_artifact, sample_notes] of
      Some (Inr v) \<Rightarrow> val_issues v = [] | _ \<Rightarrow> False"
    by code_simp
  then obtain v where v: "validate_artifacts mem_dir_os sample_disk ''/w'' [sample_artifact, sample_notes] = Some (Inr v)"
    "val_issues v = []"
    by (auto split: option.splits sum.splits)
  with artifacts_validated_exactly [OF v(1)] show ?thesis by auto
qed

text \<open>
  The validator returns. On a file system whose directory trees have finite depth and with
  an absolute working directory, \<open>Validate\<close> ends with a result or an error, whatever is
  declared: the walk up to the nearest existing ancestor ends at the root, and the search for
  a regular file ends.
\<close>

theorem validation_terminates:
  assumes "\<And>cwd. os_cwd os = Inr cwd \<Longrightarrow> is_abs cwd"
    and "\<And>path es. os_read_dir os fs path = Inr es \<Longrightarrow> finite_tree os fs path es"
  shows "\<exists>r. validate_artifacts os fs workspace as = Some r"
  using validate_each_returns [OF assms] by (simp add: validate_artifacts_def)

theorem validation_terminates_witness:
  "\<exists>r. validate_artifacts mem_dir_os sample_disk ''/w'' [sample_artifact, sample_notes] = Some r"
  by (rule validation_terminates) (rule mem_dir_cwd mem_dir_finite, assumption)+

end
