(* ===== verification/Research_Runtime.thy ===== *)
theory Research_Runtime
  imports Artifact_Validator Protocol_Recorder "HOL-Library.Word"
begin

text \<open>
  The Research phase: \<^verbatim>\<open>internal/research/runtime/runtime.go\<close>. The host state of a run is the
  terminal recorder beside the file system, which the session's tools change. A run is
  \<open>None\<close> if the artifact validator does not return. \<open>context.WithTimeout\<close> only bounds the time
  of the session's calls, which may fail for any reason here.
\<close>

section \<open>The terminal recorder\<close>

record terminal_recorder = "string tool_response recorder" +
  tr_version :: "64 word"

definition new_terminal_recorder :: terminal_recorder where
  "new_terminal_recorder = \<lparr>rec_outputs = [], rec_failure = None, tr_version = 0\<rparr>"

definition record_terminal_error :: "error \<Rightarrow> terminal_recorder \<Rightarrow> terminal_recorder" where
  "record_terminal_error e r =
     (if rec_failure r = None then r\<lparr>rec_failure := Some e, tr_version := tr_version r + 1\<rparr> else r)"

definition record_terminal ::
    "string tool_response \<Rightarrow> terminal_recorder \<Rightarrow> error option \<times> terminal_recorder" where
  "record_terminal response r =
     (case response_validate response of
        Some e \<Rightarrow>
          (let failure = Format ''record terminal response: %w'' [TextArg e]
           in (Some failure, record_terminal_error failure r))
      | None \<Rightarrow>
          (None, r\<lparr>rec_outputs := rec_outputs r @ [response], tr_version := tr_version r + 1\<rparr>))"

interpretation terminal_recorder:
  call_list_recorder rec_outputs rec_failure record_terminal_error drain_recorder
  by unfold_locales (auto simp: drain_recorder_def record_terminal_error_def split: option.splits)

section \<open>Prompts\<close>

definition issue_line :: "issue \<Rightarrow> prompt" where
  "issue_line i =
     Format ''- [%s] %s'' [StrArg (iss_code i), TextArg (iss_message i)]
     # (case iss_path i of None \<Rightarrow> [] | Some p \<Rightarrow> [Format '' (path: %s)'' [StrArg p]])
     @ (case iss_hint i of None \<Rightarrow> [] | Some h \<Rightarrow> [Format '' Repair: %s'' [StrArg h]])"

fun format_issues :: "issue list \<Rightarrow> prompt" where
  "format_issues [] = []"
| "format_issues [i] = issue_line i"
| "format_issues (i # is) = issue_line i @ [Text ''\<newline>''] @ format_issues is"

definition terminal_prompt :: "string \<Rightarrow> issue list \<Rightarrow> prompt" where
  "terminal_prompt tool issues =
     (if issues = []
      then [Format ''You must call the %q tool before this research block can finish.'' [StrArg tool]]
      else Format ''The %q tool rejected its last call. Fix these issues and call the tool again:\<newline>'' [StrArg tool]
           # format_issues issues)"

definition repair_prompt :: "issue list \<Rightarrow> string \<Rightarrow> prompt" where
  "repair_prompt issues tool =
     [Text ''Required artifact validation failed:\<newline>''] @ format_issues issues @ [Text ''\<newline>''] @
     (if tool \<noteq> [] then [Format ''Call the %q tool again after repairing them.'' [StrArg tool]]
      else [Text ''Finish the research response after repairing them.''])"

section \<open>A run\<close>

record research_config =
  rs_prompt :: prompt
  rs_tool :: string
  rs_max_attempts :: int
  rs_timeout :: "int option"
  rs_workspace :: string
  rs_artifacts :: "declared list"

record research_result =
  rr_value :: "string option"
  rr_artifacts :: "(string \<rightharpoonup> string) option"
  rr_attempts :: int

fun first_accepted ::
    "string tool_response list \<Rightarrow> string tool_response option \<times> string tool_response list" where
  "first_accepted [] = (None, [])"
| "first_accepted (c # cs) =
     (if resp_accepted c then (Some c, [])
      else (case first_accepted cs of (accepted, rejected) \<Rightarrow> (accepted, c # rejected)))"

definition flatten_issues :: "string tool_response list \<Rightarrow> issue list" where
  "flatten_issues calls = concat (map resp_issues calls)"

definition protocol_exhausted :: "int \<Rightarrow> int \<Rightarrow> error" where
  "protocol_exhausted attempts maximum =
     Format ''research protocol attempts exhausted after %d attempts (maximum %d)'' [IntArg attempts, IntArg maximum]"

lemma first_accepted_none: "first_accepted cs = (None, rejected) \<Longrightarrow> rejected = cs"
  by (induction cs arbitrary: rejected) (auto split: if_splits prod.splits)

lemma first_accepted_some:
  "first_accepted cs = (Some c, rejected) \<Longrightarrow>
     resp_accepted c \<and> (\<exists>rest. cs = rejected @ c # rest) \<and> (\<forall>d \<in> set rejected. \<not> resp_accepted d)"
  by (induction cs arbitrary: rejected) (auto split: if_splits prod.splits)

definition has_terminal :: "research_config \<Rightarrow> bool" where
  "has_terminal config \<longleftrightarrow> \<not> blank (rs_tool config)"

text \<open>What one turn leads to: the end of the run, or the attempts so far and the next prompt.\<close>

datatype turn_result =
    Finished "error + research_result"
  | Again int prompt

text \<open>The part both kinds of run share: validate the artifacts, then finish or ask for repair.\<close>

definition finish_or_repair ::
    "'fs dir_os \<Rightarrow> research_config \<Rightarrow> int \<Rightarrow> string option \<Rightarrow> string \<Rightarrow> 'fs \<Rightarrow> turn_result option" where
  "finish_or_repair os config attempts out_val tool fs =
     map_option (\<lambda>r. case r of
        Inl e \<Rightarrow> Finished (Inl (Format ''validate research artifacts: %w'' [TextArg e]))
      | Inr v \<Rightarrow>
          (if val_issues v = []
           then Finished (Inr \<lparr>rr_value = out_val, rr_artifacts = Some (val_paths v), rr_attempts = attempts\<rparr>)
           else if attempts + 1 \<ge> rs_max_attempts config
           then Finished (Inl (protocol_exhausted (attempts + 1) (rs_max_attempts config)))
           else Again (attempts + 1) (repair_prompt (val_issues v) tool)))
       (validate_artifacts os fs (rs_workspace config) (rs_artifacts config))"

definition research_turn ::
    "'fs dir_os \<Rightarrow> research_config \<Rightarrow> int \<Rightarrow> terminal_recorder \<times> 'fs
       \<Rightarrow> (turn_result \<times> terminal_recorder \<times> 'fs) option" where
  "research_turn os config attempts s =
     (case s of (r, fs) \<Rightarrow>
       (if \<not> has_terminal config
        then map_option (\<lambda>t. (t, s)) (finish_or_repair os config attempts None [] fs)
        else (case drain_recorder r of
           ((calls, Some failure), r') \<Rightarrow>
             Some (Finished (Inl (Format ''terminal tool failed: %w'' [TextArg failure])), (r', fs))
         | ((calls, None), r') \<Rightarrow>
             (case first_accepted calls of
                (Some call, rejected) \<Rightarrow>
                  map_option (\<lambda>t. (t, (r', fs)))
                    (finish_or_repair os config (attempts + int (length rejected)) (resp_output call) (rs_tool config) fs)
              | (None, rejected) \<Rightarrow>
                  (let attempts' = attempts + int (length rejected) + (if calls = [] then 1 else 0)
                   in Some (if attempts' \<ge> rs_max_attempts config
                            then Finished (Inl (protocol_exhausted attempts' (rs_max_attempts config)))
                            else Again attempts' (terminal_prompt (rs_tool config) (flatten_issues rejected)),
                            (r', fs)))))))"

lemma finish_or_repair_cases:
  assumes "finish_or_repair os config attempts out_val tool fs = Some t"
  obtains (failed) e where "t = Finished (Inl e)"
  | (valid) v :: validation where "validate_artifacts os fs (rs_workspace config) (rs_artifacts config) = Some (Inr v)"
      "val_issues v = []"
      "t = Finished (Inr \<lparr>rr_value = out_val, rr_artifacts = Some (val_paths v), rr_attempts = attempts\<rparr>)"
  | (again) v :: validation where "attempts + 1 < rs_max_attempts config" "t = Again (attempts + 1) (repair_prompt (val_issues v) tool)"
proof -
  obtain r where r: "validate_artifacts os fs (rs_workspace config) (rs_artifacts config) = Some r"
    using assms by (auto simp: finish_or_repair_def)
  show ?thesis
  proof (cases r)
    case (Inl e)
    with assms r show ?thesis by (intro failed) (auto simp: finish_or_repair_def)
  next
    case (Inr v)
    with assms r valid failed again [of v] show ?thesis
      by (cases "val_issues v = []"; cases "attempts + 1 < rs_max_attempts config") (auto simp: finish_or_repair_def)
  qed
qed

lemma research_turn_cases:
  assumes "research_turn os config attempts (r, fs) = Some (turn, t)"
  obtains (plain) "\<not> has_terminal config" "finish_or_repair os config attempts None [] fs = Some turn" "t = (r, fs)"
  | (failed) e where "has_terminal config" "turn = Finished (Inl e)" "t = (r\<lparr>rec_outputs := [], rec_failure := None\<rparr>, fs)"
  | (accepted) call rejected where "has_terminal config" "rec_failure r = None"
      "first_accepted (rec_outputs r) = (Some call, rejected)"
      "finish_or_repair os config (attempts + int (length rejected)) (resp_output call) (rs_tool config) fs = Some turn"
      "t = (r\<lparr>rec_outputs := [], rec_failure := None\<rparr>, fs)"
  | (silent) attempts' prompt where "has_terminal config" "attempts < attempts'" "attempts' < rs_max_attempts config"
      "turn = Again attempts' prompt" "t = (r\<lparr>rec_outputs := [], rec_failure := None\<rparr>, fs)"
proof (cases "has_terminal config")
  case False
  with assms plain show ?thesis by (auto simp: research_turn_def)
next
  case True
  show ?thesis
  proof (cases "rec_failure r")
    case (Some f)
    with True assms show ?thesis by (intro failed) (auto simp: research_turn_def drain_recorder_def)
  next
    case ok: None
    obtain call rejected where fa: "first_accepted (rec_outputs r) = (call, rejected)" by force
    show ?thesis
    proof (cases call)
      case (Some c)
      with True ok fa assms accepted show ?thesis by (auto simp: research_turn_def drain_recorder_def)
    next
      case None
      define attempts' where "attempts' = attempts + int (length rejected) + (if rec_outputs r = [] then 1 else 0)"
      have "attempts < attempts'" using first_accepted_none [of "rec_outputs r" rejected] fa None by (auto simp: attempts'_def)
      moreover have "(turn, t) = (if attempts' \<ge> rs_max_attempts config
          then Finished (Inl (protocol_exhausted attempts' (rs_max_attempts config)))
          else Again attempts' (terminal_prompt (rs_tool config) (flatten_issues rejected)),
          (r\<lparr>rec_outputs := [], rec_failure := None\<rparr>, fs))"
        using assms True ok fa None by (auto simp: research_turn_def drain_recorder_def attempts'_def Let_def)
      ultimately show ?thesis
        using True failed silent by (cases "attempts' \<ge> rs_max_attempts config") auto
    qed
  qed
qed

text \<open>Every turn that asks again has used up an attempt, and attempts are left.\<close>

lemma research_turn_again:
  assumes "research_turn os config attempts s = Some (Again attempts' prompt, t)"
  shows "attempts < attempts' \<and> attempts' < rs_max_attempts config"
proof -
  obtain r fs where s: "s = (r, fs)" by force
  have repair: "attempts'' < attempts' \<and> attempts' < rs_max_attempts config"
    if "finish_or_repair os config attempts'' out_val tool fs = Some (Again attempts' prompt)" for attempts'' out_val tool
    using that by (cases rule: finish_or_repair_cases) auto
  from assms show ?thesis
    unfolding s by (cases rule: research_turn_cases) (auto dest!: repair)
qed

function research_attempts ::
    "'fs dir_os \<Rightarrow> (terminal_recorder \<times> 'fs) session \<Rightarrow> research_config \<Rightarrow> int \<Rightarrow> prompt
       \<Rightarrow> terminal_recorder \<times> 'fs \<Rightarrow> ((error + research_result) \<times> terminal_recorder \<times> 'fs) option" where
  "research_attempts os session config attempts prompt s =
     (case session prompt s of
        (Some e, s1) \<Rightarrow> Some (Inl (Format ''send research prompt: %w'' [TextArg e]), s1)
      | (None, s1) \<Rightarrow>
          (case research_turn os config attempts s1 of
             None \<Rightarrow> None
           | Some (Finished res, s2) \<Rightarrow> Some (res, s2)
           | Some (Again attempts' prompt', s2) \<Rightarrow> research_attempts os session config attempts' prompt' s2))"
  by pat_completeness auto
termination
  by (relation "measure (\<lambda>(os, session, config, attempts, prompt, s). nat (rs_max_attempts config - attempts))")
     (auto dest!: research_turn_again)

declare research_attempts.simps [simp del]

definition research_run ::
    "'fs dir_os \<Rightarrow> (terminal_recorder \<times> 'fs) session \<Rightarrow> research_config \<Rightarrow> terminal_recorder \<times> 'fs
       \<Rightarrow> ((error + research_result) \<times> terminal_recorder \<times> 'fs) option" where
  "research_run os session config s =
     (if rs_max_attempts config < 0
      then Some (Inl (Text ''maximum protocol attempts must not be negative''), s)
      else if (case rs_timeout config of None \<Rightarrow> False | Some t \<Rightarrow> t \<le> 0)
      then Some (Inl (Text ''research timeout must be positive''), s)
      else research_attempts os session config 0 (rs_prompt config) s)"

section \<open>What a successful run hands on\<close>

text \<open>A turn that was sent to the session and what the host was left in.\<close>

definition turn_of :: "(terminal_recorder \<times> 'fs) session \<Rightarrow> terminal_recorder \<times> 'fs \<Rightarrow> bool" where
  "turn_of session t \<longleftrightarrow> (\<exists>prompt s. session prompt s = (None, t))"

definition candidate_of ::
    "'fs dir_os \<Rightarrow> research_config \<Rightarrow> terminal_recorder \<times> 'fs \<Rightarrow> research_result \<Rightarrow> terminal_recorder \<times> 'fs \<Rightarrow> bool" where
  "candidate_of os config s out t \<longleftrightarrow>
     snd t = snd s \<and>
     (\<exists>v. validate_artifacts os (snd s) (rs_workspace config) (rs_artifacts config) = Some (Inr v) \<and>
        val_issues v = [] \<and> rr_artifacts out = Some (val_paths v)) \<and>
     (if has_terminal config
      then rec_failure (fst s) = None \<and> rec_outputs (fst t) = [] \<and>
        (\<exists>call rejected rest. rec_outputs (fst s) = rejected @ call # rest \<and> resp_accepted call \<and>
           (\<forall>c \<in> set rejected. \<not> resp_accepted c) \<and> rr_value out = resp_output call)
      else rr_value out = None)"

lemma research_turn_finished:
  assumes "research_turn os config attempts s = Some (Finished (Inr out), t)"
  shows "candidate_of os config s out t"
proof -
  obtain r fs where s: "s = (r, fs)" by force
  have valid: "(\<exists>v. validate_artifacts os fs (rs_workspace config) (rs_artifacts config) = Some (Inr v) \<and>
        val_issues v = [] \<and> rr_artifacts out = Some (val_paths v)) \<and> rr_value out = out_val"
    if "finish_or_repair os config n out_val tool fs = Some (Finished (Inr out))" for n out_val tool
    using that by (cases rule: finish_or_repair_cases) auto
  from assms [unfolded s] show ?thesis
  proof (cases rule: research_turn_cases)
    case (accepted call rejected)
    with valid [OF accepted(4)] first_accepted_some [OF accepted(3)] show ?thesis
      by (auto simp: candidate_of_def s)
  qed (auto simp: candidate_of_def s dest!: valid)
qed

lemma research_attempts_candidate:
  assumes "research_attempts os session config attempts prompt s = Some (Inr out, t)"
  shows "\<exists>s'. turn_of session s' \<and> candidate_of os config s' out t"
  using assms
proof (induction "nat (rs_max_attempts config - attempts)" arbitrary: attempts prompt s rule: less_induct)
  case less
  obtain e s1 where sent: "session prompt s = (e, s1)" by (cases "session prompt s")
  with less.prems have e: "e = None" by (subst (asm) research_attempts.simps) (auto split: option.splits)
  obtain turn s2 where turn: "research_turn os config attempts s1 = Some (turn, s2)"
    using less.prems sent e by (subst (asm) research_attempts.simps) (auto split: option.splits)
  note run = less.prems [unfolded research_attempts.simps [of os session config attempts prompt s]]
  show ?case
  proof (cases turn)
    case (Finished res)
    with run sent e turn have "res = Inr out" "t = s2" by auto
    with Finished turn research_turn_finished have "candidate_of os config s1 out t" by blast
    moreover have "turn_of session s1" using sent e unfolding turn_of_def by blast
    ultimately show ?thesis by blast
  next
    case (Again attempts' prompt')
    with run sent e turn have "research_attempts os session config attempts' prompt' s2 = Some (Inr out, t)" by simp
    moreover have "nat (rs_max_attempts config - attempts') < nat (rs_max_attempts config - attempts)"
      using research_turn_again [OF turn [unfolded Again]] by arith
    ultimately show ?thesis using less.hyps by blast
  qed
qed

lemma research_turn_returns:
  assumes "\<And>fs. \<exists>r. validate_artifacts os fs (rs_workspace config) (rs_artifacts config) = Some r"
  shows "\<exists>turn r'. research_turn os config attempts (r, fs) = Some (turn, (r', fs)) \<and>
    (r' = r \<or> r' = snd (drain_recorder r))"
proof -
  have fin: "\<exists>t. finish_or_repair os config n v tool fs = Some t" for n v tool
    using assms [of fs] by (auto simp: finish_or_repair_def)
  show ?thesis
  proof (cases "has_terminal config")
    case False
    with fin [of attempts None "[]"] show ?thesis by (auto simp: research_turn_def)
  next
    case True
    obtain call rejected where "first_accepted (rec_outputs r) = (call, rejected)" by force
    with True fin show ?thesis
      by (cases "rec_failure r"; cases call) (auto simp: research_turn_def drain_recorder_def Let_def dest: spec)
  qed
qed

text \<open>Every turn but the last uses up an attempt, so the prompts are bounded.\<close>

lemma research_attempts_returns:
  assumes "\<And>fs. \<exists>r. validate_artifacts os fs (rs_workspace config) (rs_artifacts config) = Some r"
    and count: "\<And>p s e t. session p s = (e, t) \<Longrightarrow> count t = count s + (1 :: nat)"
    and drained: "\<And>r fs. count (snd (drain_recorder r), fs) = count (r, fs)"
  shows "\<exists>res t. research_attempts os session config attempts prompt s = Some (res, t) \<and>
    count s < count t \<and> count t \<le> count s + max 1 (nat (rs_max_attempts config - attempts))"
proof (induction "nat (rs_max_attempts config - attempts)" arbitrary: attempts prompt s rule: less_induct)
  case less
  obtain e r fs where sent: "session prompt s = (e, (r, fs))" by (metis prod_cases3)
  have one: "count (r, fs) = count s + 1" using count [OF sent] .
  show ?case
  proof (cases e)
    case (Some err)
    with sent one show ?thesis by (subst research_attempts.simps) simp
  next
    case None
    obtain turn r' where turn: "research_turn os config attempts (r, fs) = Some (turn, (r', fs))"
        and r': "r' = r \<or> r' = snd (drain_recorder r)"
      using research_turn_returns [OF assms(1)] by blast
    define s2 where "s2 = (r', fs)"
    have s2: "count s2 = count (r, fs)" and turn: "research_turn os config attempts (r, fs) = Some (turn, s2)"
      using r' drained turn by (auto simp: s2_def)
    show ?thesis
    proof (cases turn)
      case (Finished res)
      with None sent turn s2 one show ?thesis by (subst research_attempts.simps) simp
    next
      case (Again attempts' prompt')
      note used = research_turn_again [OF turn [unfolded Again]]
      then have "nat (rs_max_attempts config - attempts') < nat (rs_max_attempts config - attempts)" by arith
      from less.hyps [OF this, of prompt' s2] obtain res t
        where later: "research_attempts os session config attempts' prompt' s2 = Some (res, t)"
          "count s2 < count t" "count t \<le> count s2 + max 1 (nat (rs_max_attempts config - attempts'))" by blast
      have "research_attempts os session config attempts prompt s = Some (res, t)"
        using None sent turn Again later(1) by (subst research_attempts.simps) simp
      moreover have "max 1 (nat (rs_max_attempts config - attempts')) + 1 \<le> max 1 (nat (rs_max_attempts config - attempts))"
        using used by arith
      ultimately show ?thesis using later s2 one by auto
    qed
  qed
qed

text \<open>Without the count of the prompts: a run returns.\<close>

lemma research_run_total:
  assumes "\<And>fs. \<exists>r. validate_artifacts os fs (rs_workspace config) (rs_artifacts config) = Some r"
  shows "\<exists>res t. research_run os session config s = Some (res, t)"
proof -
  have "\<exists>res t. research_attempts os session config attempts prompt s = Some (res, t)" for attempts prompt s
  proof (induction "nat (rs_max_attempts config - attempts)" arbitrary: attempts prompt s rule: less_induct)
    case less
    obtain e r fs where sent: "session prompt s = (e, (r, fs))" by (metis prod_cases3)
    obtain turn s2 where turn: "research_turn os config attempts (r, fs) = Some (turn, s2)"
      using research_turn_returns [OF assms] by blast
    show ?case
    proof (cases "e = None \<and> (\<exists>n p. turn = Again n p)")
      case True
      then obtain n p where again: "e = None" "turn = Again n p" by blast
      have "nat (rs_max_attempts config - n) < nat (rs_max_attempts config - attempts)"
        using research_turn_again [OF turn [unfolded again(2)]] by arith
      from less.hyps [OF this, of p s2] again sent turn show ?thesis by (subst research_attempts.simps) simp
    next
      case False
      with sent turn show ?thesis by (subst research_attempts.simps) (cases e; cases turn; cases s2; auto)
    qed
  qed
  then show ?thesis by (cases s) (auto simp: research_run_def split: option.splits)
qed

section \<open>Properties\<close>

text \<open>
  C36: Research hands on a checked candidate. If a run succeeds, the artifacts were valid on the
  file system as the last turn left it, which is the file system the run ends with, and the
  paths handed on are the validated ones. With a terminal tool the value is that of the first
  accepted call of that turn, no handler had failed, and the recorder is left empty; without
  one there is no value.
\<close>

theorem research_candidate_is_valid:
  assumes "research_run os session config s = Some (Inr out, t)"
  shows "\<exists>s'. turn_of session s' \<and> candidate_of os config s' out t"
  using assms research_attempts_candidate [of os session config 0 "rs_prompt config" s out t]
  by (simp add: research_run_def split: if_splits option.splits)

text \<open>
  A scripted session: the first turn only calls the terminal tool with a rejected response, the
  second writes the report and calls it again.
\<close>

definition sample_research_session :: "(terminal_recorder \<times> mem_fs) session" where
  "sample_research_session prompt s =
     (case s of (r, fs) \<Rightarrow>
        if prompt = [Text ''go'']
        then (None, (snd (record_terminal (reject_issues [mk_issue ''c'' (Text ''m'')]) r), fs))
        else (None, (snd (record_terminal (accept ''done'') r), (''/w/out.md'', ''text'') # fs)))"

definition sample_research_config :: research_config where
  "sample_research_config =
     \<lparr>rs_prompt = [Text ''go''], rs_tool = ''finish'', rs_max_attempts = 3, rs_timeout = None,
      rs_workspace = ''/w'', rs_artifacts = [sample_artifact]\<rparr>"

theorem research_candidate_is_valid_witness:
  "\<exists>out t. research_run mem_dir_os sample_research_session sample_research_config (new_terminal_recorder, [])
      = Some (Inr out, t) \<and> rr_value out = Some ''done'' \<and>
     (\<exists>s'. candidate_of mem_dir_os sample_research_config s' out t)"
proof -
  have "case research_run mem_dir_os sample_research_session sample_research_config (new_terminal_recorder, []) of
      Some (Inr out, t) \<Rightarrow> rr_value out = Some ''done'' | _ \<Rightarrow> False"
    by code_simp
  then obtain out t where run: "research_run mem_dir_os sample_research_session sample_research_config
      (new_terminal_recorder, []) = Some (Inr out, t)" "rr_value out = Some ''done''"
    by (auto split: option.splits prod.splits sum.splits)
  with research_candidate_is_valid [OF run(1)] show ?thesis by blast
qed


text \<open>For the witness a session that leaves one file for every prompt.\<close>

definition counting_session :: "(terminal_recorder \<times> mem_fs) session" where
  "counting_session prompt s = (case s of (r, fs) \<Rightarrow> (None, (r, (''/log'', ''x'') # fs)))"


end
