(* ===== verification/Final_QC.thy ===== *)
theory Final_QC
  imports Research_Runtime "HOL-Library.AList" "HOL-Library.Multiset"
begin

text \<open>
  Final QC: \<^verbatim>\<open>internal/qc/runner.go\<close> (the issue ledger, the recorder, the two review protocols
  and the loop of a run without a coordinator), and the two ledger tools of
  \<^verbatim>\<open>internal/cli/runtime.go\<close>. The ledger is a Go map from issue ID to issue, an association
  list here; \<open>FinalIssues\<close> sorts it, so its order is never seen. \<open>json.Marshal\<close> is a parameter,
  and \<open>cty\<close> criteria are the list of their entries: \<open>None\<close> is a value that is not a known
  map of strings, an entry without a text is null.
\<close>

section \<open>Verdicts\<close>

datatype decision = DecisionPass | DecisionRevise | DecisionOther string

fun decision_text :: "decision \<Rightarrow> string" where
  "decision_text DecisionPass = ''pass''"
| "decision_text DecisionRevise = ''revise_research''"
| "decision_text (DecisionOther s) = s"

record final_verdict =
  fv_decision :: decision
  fv_issues :: "issue list"

definition final_verdict_error :: "final_verdict \<Rightarrow> error option" where
  "final_verdict_error v =
     (case (case fv_decision v of
              DecisionPass \<Rightarrow> (if fv_issues v \<noteq> [] then Some (Text ''pass verdict must not contain issues'') else None)
            | DecisionRevise \<Rightarrow>
                (if fv_issues v = [] then Some (Text ''revise_research verdict must contain at least one issue'') else None)
            | DecisionOther s \<Rightarrow> Some (Format ''unsupported final qc decision %q'' [StrArg s])) of
        Some e \<Rightarrow> Some e
      | None \<Rightarrow> issues_validate ''issue %d: %w'' 0 (fv_issues v))"

section \<open>The recorder\<close>

type_synonym ledger = "(string \<times> issue) list"

record final_recorder = "final_verdict recorder" +
  fr_version :: "64 word"
  fr_issues :: ledger
  fr_reviewed :: bool
  fr_history :: ledger
  fr_next :: int
  fr_pending :: bool
  fr_attempts :: int

definition new_final_recorder :: final_recorder where
  "new_final_recorder =
     \<lparr>rec_outputs = [], rec_failure = None, fr_version = 0, fr_issues = [], fr_reviewed = False,
      fr_history = [], fr_next = 0, fr_pending = False, fr_attempts = 0\<rparr>"

definition record_final_error :: "error \<Rightarrow> final_recorder \<Rightarrow> final_recorder" where
  "record_final_error e r =
     (if rec_failure r = None then r\<lparr>rec_failure := Some e, fr_version := fr_version r + 1\<rparr> else r)"

text \<open>\<open>drainCompletion\<close>; \<open>drain\<close> is that of the other recorders.\<close>

definition drain_completion :: "final_recorder \<Rightarrow> (bool \<times> error option) \<times> final_recorder" where
  "drain_completion r = ((fr_pending r, rec_failure r), r\<lparr>fr_pending := False, rec_failure := None\<rparr>)"

interpretation final_recorder:
  call_list_recorder rec_outputs rec_failure record_final_error drain_recorder
  by unfold_locales (auto simp: drain_recorder_def record_final_error_def split: option.splits)

interpretation completion_recorder:
  protocol_recorder fr_pending rec_failure False record_final_error drain_completion
  by unfold_locales (auto simp: drain_completion_def record_final_error_def split: option.splits)

section \<open>The ledger\<close>

definition host_id :: "int \<Rightarrow> string" where
  "host_id n = ''FQ-'' @ show_int03 n"

definition final_issue_sequence :: "string \<Rightarrow> error + int" where
  "final_issue_sequence i =
     (let refused = Inl (Format ''issue ID %q is not host-generated'' [StrArg i]);
          t = trim_space i
      in if \<not> prefix ''FQ-'' t \<or> drop 3 t = [] then refused
         else (case atoi (drop 3 t) of
                 None \<Rightarrow> refused
               | Some n \<Rightarrow> (if n \<le> 0 then refused else Inr n)))"

fun restore_each :: "int \<Rightarrow> issue list \<Rightarrow> ledger \<Rightarrow> int \<Rightarrow> error + ledger \<times> int" where
  "restore_each index [] active next = Inr (active, next)"
| "restore_each index (i # is) active next =
     (case issue_validate i of
        Some e \<Rightarrow> Inl (Format ''restored issue %d: %w'' [IntArg index, TextArg e])
      | None \<Rightarrow>
     (case final_issue_sequence (iss_id i) of
        Inl e \<Rightarrow> Inl (Format ''restored issue %d: %w'' [IntArg index, TextArg e])
      | Inr sequence \<Rightarrow>
     (if map_of active (iss_id i) \<noteq> None
      then Inl (Format ''restored issue %d: duplicate issue ID %q'' [IntArg index, StrArg (iss_id i)])
      else restore_each (index + 1) is (AList.update (iss_id i) i active) (max next sequence))))"

definition restore_final_issues :: "issue list \<Rightarrow> final_recorder \<Rightarrow> error option \<times> final_recorder" where
  "restore_final_issues is r =
     (case restore_each 0 is [] 0 of
        Inl e \<Rightarrow> (Some e, r)
      | Inr (active, next) \<Rightarrow>
          (None, r\<lparr>fr_issues := active, fr_history := active, fr_next := next,
                   fr_reviewed := (is \<noteq> []), fr_pending := False, fr_attempts := 0\<rparr>))"

fun open_error :: "int \<Rightarrow> issue list \<Rightarrow> error option" where
  "open_error index [] = None"
| "open_error index (i # is) =
     (case issue_validate i of
        Some e \<Rightarrow> Some (Format ''issue %d: %w'' [IntArg index, TextArg e])
      | None \<Rightarrow>
          (if \<not> blank (iss_id i)
           then Some (Format ''issue %d: issue ID is host-generated and must be omitted'' [IntArg index])
           else open_error (index + 1) is))"

fun assign_ids :: "issue list \<Rightarrow> final_recorder \<Rightarrow> issue list \<times> final_recorder" where
  "assign_ids [] r = ([], r)"
| "assign_ids (i # is) r =
     (let n = wrap_int (fr_next r + 1);
          i' = i\<lparr>iss_id := host_id n\<rparr>
      in case assign_ids is (r\<lparr>fr_next := n, fr_issues := AList.update (iss_id i') i' (fr_issues r),
                               fr_history := AList.update (iss_id i') i' (fr_history r)\<rparr>) of
           (opened, r') \<Rightarrow> (i' # opened, r'))"

definition open_final_issues :: "issue list \<Rightarrow> final_recorder \<Rightarrow> (error + issue list) \<times> final_recorder" where
  "open_final_issues is r =
     (case open_error 0 is of
        Some e \<Rightarrow> (Inl e, r)
      | None \<Rightarrow>
          (case assign_ids is r of
             (opened, r') \<Rightarrow>
               (Inr opened,
                if opened \<noteq> [] then r'\<lparr>fr_reviewed := True, fr_version := fr_version r' + 1\<rparr> else r')))"

fun resolve_error :: "ledger \<Rightarrow> int \<Rightarrow> string set \<Rightarrow> string list \<Rightarrow> error option" where
  "resolve_error active index seen [] = None"
| "resolve_error active index seen (i # is) =
     (let t = trim_space i
      in if t = [] then Some (Format ''issue ID %d is required'' [IntArg index])
         else if t \<in> seen then Some (Format ''issue ID %q appears more than once'' [StrArg t])
         else if map_of active t = None then Some (Format ''unknown Final-QC issue ID %q'' [StrArg t])
         else resolve_error active (index + 1) (insert t seen) is)"

definition resolve_final_issues :: "string list \<Rightarrow> final_recorder \<Rightarrow> error option \<times> final_recorder" where
  "resolve_final_issues is r =
     (case resolve_error (fr_issues r) 0 {} is of
        Some e \<Rightarrow> (Some e, r)
      | None \<Rightarrow>
          (let r' = r\<lparr>fr_issues := fold (\<lambda>i. AList.delete (trim_space i)) is (fr_issues r)\<rparr>
           in (None, if is \<noteq> [] then r'\<lparr>fr_version := fr_version r' + 1\<rparr> else r')))"

definition record_final_completion :: "final_recorder \<Rightarrow> error option \<times> final_recorder" where
  "record_final_completion r =
     (let r' = r\<lparr>fr_attempts := fr_attempts r + 1\<rparr>
      in if fr_issues r' \<noteq> []
         then (Some (Format ''unresolved Final-QC issues: %d'' [IntArg (int (length (fr_issues r')))]), r')
         else (None, r'\<lparr>fr_reviewed := True, fr_pending := True, fr_version := fr_version r' + 1\<rparr>))"

definition final_issues :: "final_recorder \<Rightarrow> issue list" where
  "final_issues r = sort_key iss_id (map snd (fr_issues r))"

section \<open>Recording verdicts\<close>

definition record_qc_verdict :: "final_verdict \<Rightarrow> final_recorder \<Rightarrow> error option \<times> final_recorder" where
  "record_qc_verdict v r =
     (case final_verdict_error v of
        Some e \<Rightarrow> (Some (Format ''record qc verdict: %w'' [TextArg e]), r)
      | None \<Rightarrow> (None, r\<lparr>rec_outputs := rec_outputs r @ [v], fr_version := fr_version r + 1\<rparr>))"

fun trim_ids :: "int \<Rightarrow> ledger \<Rightarrow> issue list \<Rightarrow> error + ledger \<times> issue list" where
  "trim_ids index seen [] = Inr (seen, [])"
| "trim_ids index seen (i # is) =
     (let t = trim_space (iss_id i); i' = i\<lparr>iss_id := t\<rparr>
      in if t = [] then Inl (Format ''record qc verdict: issue %d: issue id is required'' [IntArg index])
         else if map_of seen t \<noteq> None
         then Inl (Format ''record qc verdict: issue %d: issue id %q appears more than once'' [IntArg index, StrArg t])
         else (case trim_ids (index + 1) (AList.update t i' seen) is of
                 Inl e \<Rightarrow> Inl e
               | Inr (seen', is') \<Rightarrow> Inr (seen', i' # is')))"

definition record_final :: "final_verdict \<Rightarrow> final_recorder \<Rightarrow> error option \<times> final_recorder" where
  "record_final v r =
     (case final_verdict_error v of
        Some e \<Rightarrow> (Some (Format ''record qc verdict: %w'' [TextArg e]), r)
      | None \<Rightarrow>
          (if fv_decision v = DecisionRevise
           then (case trim_ids 0 [] (fv_issues v) of
                   Inl e \<Rightarrow> (Some e, r)
                 | Inr (seen, issues) \<Rightarrow>
                     (None, r\<lparr>fr_issues := seen, fr_reviewed := True,
                              rec_outputs := rec_outputs r @ [v\<lparr>fv_issues := issues\<rparr>],
                              fr_version := fr_version r + 1\<rparr>))
           else (None, r\<lparr>rec_outputs := rec_outputs r @ [v], fr_version := fr_version r + 1, fr_reviewed := True\<rparr>)))"

section \<open>The ledger tools\<close>

text \<open>
  The handlers of \<^verbatim>\<open>r42_qc_update_issues\<close> and \<^verbatim>\<open>r42_qc_complete\<close> after their arguments were
  decoded. \<open>debug\<close> is what writing the debug log of the call returns; its error fails the call
  after the ledger has changed.
\<close>

record issue_update =
  iu_action :: string
  iu_issues :: "issue list"
  iu_ids :: "string list"

datatype ledger_output =
    LedgerOpened "issue list" "issue list"
  | LedgerResolved "string list" "issue list"
  | LedgerActive "issue list"

definition update_issues_tool ::
    "error option \<Rightarrow> issue_update \<Rightarrow> final_recorder \<Rightarrow> (error + ledger_output tool_response) \<times> final_recorder" where
  "update_issues_tool debug u r =
     (let refuse = (\<lambda>m. Inr (rejected_tool_result ''invalid_qc_issue_update'' m));
          answer = (\<lambda>out. case debug of Some e \<Rightarrow> Inl e | None \<Rightarrow> Inr (accept out))
      in if iu_action u = ''open''
         then (if iu_issues u = [] then (refuse (Text ''open requires at least one issue''), r)
               else (case open_final_issues (iu_issues u) r of
                       (Inl e, r') \<Rightarrow> (refuse e, r')
                     | (Inr opened, r') \<Rightarrow> (answer (LedgerOpened opened (final_issues r')), r')))
         else if iu_action u = ''resolve''
         then (if iu_ids u = [] then (refuse (Text ''resolve requires at least one issue ID''), r)
               else (case resolve_final_issues (iu_ids u) r of
                       (Some e, r') \<Rightarrow> (refuse e, r')
                     | (None, r') \<Rightarrow> (answer (LedgerResolved (iu_ids u) (final_issues r')), r')))
         else if iu_action u = ''list'' then (answer (LedgerActive (final_issues r)), r)
         else (refuse (Format ''unsupported action %q'' [StrArg (iu_action u)]), r))"

definition complete_tool ::
    "error option \<Rightarrow> final_recorder \<Rightarrow> (error + issue list tool_response) \<times> final_recorder" where
  "complete_tool debug r =
     (case record_final_completion r of
        (Some e, r') \<Rightarrow> (Inr (reject_issues (mk_issue ''unresolved_qc_issues'' e # final_issues r')), r')
      | (None, r') \<Rightarrow> ((case debug of Some e \<Rightarrow> Inl e | None \<Rightarrow> Inr (accept (final_issues r'))), r'))"

section \<open>The review\<close>

record final_task =
  ft_system_prompt :: string
  ft_prompt :: "string option"

record final_config =
  fq_task :: final_task
  fq_criteria :: "(string \<times> string option) list option"
  fq_artifacts :: "declared list"
  fq_research :: research_config
  fq_max_rounds :: int
  fq_max_attempts :: int
  fq_verdict_tool :: string
  fq_issue_tool :: string
  fq_complete_tool :: string
  fq_open_issues :: "issue list"

record artifact_document =
  ad_name :: string
  ad_type :: artifact_type
  ad_path :: string
  ad_required :: bool
  ad_non_empty :: bool

record final_document =
  fd_task :: final_task
  fd_criteria :: "string \<rightharpoonup> string"
  fd_result :: "string option"
  fd_artifacts :: "artifact_document list"
  fd_open_issues :: "issue list"

definition criteria_map :: "(string \<times> string option) list option \<Rightarrow> error + (string \<rightharpoonup> string)" where
  "criteria_map criteria =
     (case criteria of
        None \<Rightarrow> Inl (Text ''qc criteria must be a non-empty map of string'')
      | Some entries \<Rightarrow>
          (if entries = [] then Inl (Text ''qc criteria must be a non-empty map of string'')
           else if list_ex (\<lambda>(name, text). text = None) entries
           then Inl (Text ''qc criteria values must not be null'')
           else Inr (\<lambda>name. case map_of entries name of None \<Rightarrow> None | Some text \<Rightarrow> text)))"

definition candidate_path :: "research_result \<Rightarrow> string \<Rightarrow> string" where
  "candidate_path candidate name =
     (case rr_artifacts candidate of
        None \<Rightarrow> []
      | Some m \<Rightarrow> (case m name of None \<Rightarrow> [] | Some p \<Rightarrow> p))"

definition final_prompt ::
    "(final_document \<Rightarrow> error + string) \<Rightarrow> final_config \<Rightarrow> research_result \<Rightarrow> error + prompt" where
  "final_prompt encode config candidate =
     (case criteria_map (fq_criteria config) of
        Inl e \<Rightarrow> Inl e
      | Inr criteria \<Rightarrow>
          (case encode
             \<lparr>fd_task = fq_task config, fd_criteria = criteria, fd_result = rr_value candidate,
              fd_artifacts = map (\<lambda>a. \<lparr>ad_name = decl_name a, ad_type = decl_type a,
                 ad_path = candidate_path candidate (decl_name a),
                 ad_required = decl_required a, ad_non_empty = decl_non_empty a\<rparr>) (fq_artifacts config),
              fd_open_issues = fq_open_issues config\<rparr> of
             Inl e \<Rightarrow> Inl (Format ''encode qc context: %w'' [TextArg e])
           | Inr encoded \<Rightarrow> Inr [Text encoded]))"

definition final_protocol :: "final_config \<Rightarrow> protocol" where
  "final_protocol config =
     \<lparr>pr_max = fq_max_attempts config,
      pr_send_failed = ''send qc prompt: %w'',
      pr_tool_failed = ''qc verdict tool failed: %w'',
      pr_exhausted = ''qc verdict protocol attempts exhausted after %d attempts (maximum %d)'',
      pr_retry = (\<lambda>attempt. [Format ''You must call the %q tool before QC can finish.'' [StrArg (fq_verdict_tool config)]])\<rparr>"

text \<open>\<open>review\<close>: the attempts are counted from 1 here, with the check after the count as there.\<close>

definition final_review_verdict ::
    "(final_document \<Rightarrow> error + string) \<Rightarrow> (final_recorder \<times> 'w) session \<Rightarrow> final_config \<Rightarrow> research_result
       \<Rightarrow> final_recorder \<times> 'w \<Rightarrow> (error + final_verdict) \<times> final_recorder \<times> 'w" where
  "final_review_verdict encode session config candidate s =
     (case final_prompt encode config candidate of
        Inl e \<Rightarrow> (Inl e, s)
      | Inr prompt \<Rightarrow> protocol_attempts drain_recorder (final_protocol config) session 1 prompt s)"

definition completion_retry_prompt :: "(issue list \<Rightarrow> string) \<Rightarrow> final_config \<Rightarrow> final_recorder \<Rightarrow> prompt" where
  "completion_retry_prompt encode_issues config r =
     [Format (''You must call %q after resolving every active Final-QC issue; call %q to register or resolve issues. '' @
              ''Current issue ledger: %s'')
        [StrArg (fq_complete_tool config), StrArg (fq_issue_tool config), StrArg (encode_issues (final_issues r))]]"

text \<open>The loop of \<open>reviewCompletion\<close>.\<close>

function completion_attempts ::
    "(issue list \<Rightarrow> string) \<Rightarrow> (final_recorder \<times> 'w) session \<Rightarrow> final_config \<Rightarrow> int \<Rightarrow> prompt
       \<Rightarrow> final_recorder \<times> 'w \<Rightarrow> (error + final_verdict) \<times> final_recorder \<times> 'w" where
  "completion_attempts encode_issues session config attempts prompt s =
     (case session prompt s of
        (Some e, s1) \<Rightarrow> (Inl (Format ''send qc prompt: %w'' [TextArg e]), s1)
      | (None, (r1, w1)) \<Rightarrow>
     (case drain_completion r1 of
        ((completed, Some failure), r2) \<Rightarrow> (Inl (Format ''qc completion tool failed: %w'' [TextArg failure]), (r2, w1))
      | ((completed, None), r2) \<Rightarrow>
          (if completed then (Inr \<lparr>fv_decision = DecisionPass, fv_issues = []\<rparr>, (r2, w1))
           else if fq_max_rounds config > 0 \<and> fr_attempts r2 \<ge> fq_max_rounds config
           then (Inl (Format ''qc rounds exhausted after %d rounds'' [IntArg (fq_max_rounds config)]), (r2, w1))
           else if attempts + 1 \<ge> fq_max_attempts config
           then (Inl (Format ''qc completion protocol attempts exhausted after %d attempts (maximum %d)''
                        [IntArg (attempts + 1), IntArg (fq_max_attempts config)]), (r2, w1))
           else completion_attempts encode_issues session config (attempts + 1)
                  (completion_retry_prompt encode_issues config r2) (r2, w1))))"
  by pat_completeness auto
termination
  by (relation "measure (\<lambda>(encode_issues, session, config, attempts, prompt, s). nat (fq_max_attempts config - attempts))") auto

declare completion_attempts.simps [simp del]

definition final_review_completion ::
    "(final_document \<Rightarrow> error + string) \<Rightarrow> (issue list \<Rightarrow> string) \<Rightarrow> (final_recorder \<times> 'w) session \<Rightarrow> final_config
       \<Rightarrow> research_result \<Rightarrow> final_recorder \<times> 'w \<Rightarrow> (error + final_verdict) \<times> final_recorder \<times> 'w" where
  "final_review_completion encode encode_issues session config candidate s =
     (case final_prompt encode config candidate of
        Inl e \<Rightarrow> (Inl e, s)
      | Inr prompt \<Rightarrow> completion_attempts encode_issues session config 0 prompt s)"

definition final_review ::
    "(final_document \<Rightarrow> error + string) \<Rightarrow> (issue list \<Rightarrow> string) \<Rightarrow> (final_recorder \<times> 'w) session \<Rightarrow> final_config
       \<Rightarrow> research_result \<Rightarrow> final_recorder \<times> 'w \<Rightarrow> (error + final_verdict) \<times> final_recorder \<times> 'w" where
  "final_review encode encode_issues session config candidate s =
     (if fq_max_attempts config < 0
      then (Inl (Text ''qc maximum protocol attempts must not be negative''), s)
      else if \<not> blank (fq_complete_tool config)
      then (if blank (fq_issue_tool config) then (Inl (Text ''qc issue tool name is required''), s)
            else final_review_completion encode encode_issues session config candidate s)
      else if blank (fq_verdict_tool config)
      then (Inl (Text ''qc verdict tool name is required''), s)
      else (case criteria_map (fq_criteria config) of
              Inl e \<Rightarrow> (Inl e, s)
            | Inr _ \<Rightarrow> final_review_verdict encode session config candidate s))"

section \<open>A run with its own rounds\<close>

definition final_config_error :: "final_config \<Rightarrow> error option" where
  "final_config_error config =
     (if fq_max_rounds config \<le> 0 then Some (Text ''qc rounds exhausted before review'')
      else if fq_max_attempts config < 0 then Some (Text ''qc maximum protocol attempts must not be negative'')
      else if \<not> blank (fq_complete_tool config) \<and> blank (fq_issue_tool config)
      then Some (Text ''qc issue tool name is required'')
      else if blank (fq_complete_tool config) \<and> blank (fq_verdict_tool config)
      then Some (Text ''qc verdict tool name is required'')
      else (case criteria_map (fq_criteria config) of Inl e \<Rightarrow> Some e | Inr _ \<Rightarrow> None))"

record final_result =
  fres_candidate :: research_result
  fres_rounds :: int

text \<open>The loop of \<open>Run\<close> leaves on \<open>round == config.MaxRounds\<close> only, so it may not end.\<close>

partial_function (option) final_rounds ::
    "(final_config \<Rightarrow> research_result \<Rightarrow> 's \<Rightarrow> (error + final_verdict) \<times> 's) \<Rightarrow> final_config \<Rightarrow> research_result
       \<Rightarrow> int \<Rightarrow> 's \<Rightarrow> ((error + final_result) \<times> 's) option" where
  "final_rounds review config candidate round s =
     (case review config candidate s of
        (Inl e, s1) \<Rightarrow> Some (Inl e, s1)
      | (Inr verdict, s1) \<Rightarrow>
          (if fv_decision verdict = DecisionPass
           then Some (Inr \<lparr>fres_candidate = candidate, fres_rounds = round\<rparr>, s1)
           else if round = fq_max_rounds config
           then Some (Inl (Format ''qc rounds exhausted after %d rounds'' [IntArg round]), s1)
           else final_rounds review (config\<lparr>fq_open_issues := fv_issues verdict\<rparr>) candidate (round + 1) s1))"

definition final_run ::
    "(final_document \<Rightarrow> error + string) \<Rightarrow> (issue list \<Rightarrow> string) \<Rightarrow> (final_recorder \<times> 'w) session
       \<Rightarrow> (research_config \<Rightarrow> final_recorder \<times> 'w \<Rightarrow> (error + research_result) \<times> final_recorder \<times> 'w)
       \<Rightarrow> final_config \<Rightarrow> final_recorder \<times> 'w \<Rightarrow> ((error + final_result) \<times> final_recorder \<times> 'w) option" where
  "final_run encode encode_issues session research config s =
     (case final_config_error config of
        Some e \<Rightarrow> Some (Inl e, s)
      | None \<Rightarrow>
          (case research (fq_research config) s of
             (Inl e, s1) \<Rightarrow> Some (Inl (Format ''run research candidate: %w'' [TextArg e]), s1)
           | (Inr candidate, s1) \<Rightarrow>
               final_rounds (final_review encode encode_issues session) config candidate 1 s1))"

section \<open>The ledger belongs to the host\<close>

definition ledger_inv :: "final_recorder \<Rightarrow> bool" where
  "ledger_inv r \<longleftrightarrow>
     distinct (keys (fr_issues r)) \<and> 0 \<le> fr_next r \<and> fr_next r \<le> max_int \<and>
     (\<forall>(k, i) \<in> set (fr_issues r).
        iss_id i = k \<and> issue_validate i = None \<and> (\<exists>n. final_issue_sequence k = Inr n \<and> n \<le> fr_next r))"

lemma show_int03_nat: "0 \<le> n \<Longrightarrow> show_int03 n = pad_zeros 3 (show_nat (nat n))"
  by (simp add: show_int03_def)

lemma host_id_solid:
  assumes "0 \<le> n"
  shows "trim_space (host_id n) = host_id n"
proof (rule trim_space_solid)
  have ne: "show_int03 n \<noteq> []" by (simp add: show_int03_nat assms)
  then have "last (host_id n) \<in> set (show_int03 n)" by (simp add: host_id_def)
  from digit_chars_pad_zeros [OF this [unfolded show_int03_nat [OF assms]]]
  obtain d where "d < 10" "last (host_id n) = digit_char d" by blast
  then show "last (host_id n) \<notin> set space_lasts" using digit_char_solid by metis
qed (simp_all add: host_id_def space_heads_def)

lemma host_id_sequence: "1 \<le> n \<Longrightarrow> n \<le> max_int \<Longrightarrow> final_issue_sequence (host_id n) = Inr n"
  using host_id_solid [of n]
  by (simp add: final_issue_sequence_def Let_def) (simp add: host_id_def show_int03_nat atoi_pad_zeros)

lemma ledger_fresh:
  assumes "ledger_inv r" and "fr_next r < n" and "n \<le> max_int"
  shows "host_id n \<notin> set (keys (fr_issues r))"
proof
  assume "host_id n \<in> set (keys (fr_issues r))"
  then obtain i where "(host_id n, i) \<in> set (fr_issues r)" by (auto simp: keys_def)
  with assms(1) obtain m where m: "final_issue_sequence (host_id n) = Inr m" "m \<le> fr_next r"
    by (auto simp: ledger_inv_def)
  have "final_issue_sequence (host_id n) = Inr n"
    using assms by (intro host_id_sequence) (auto simp: ledger_inv_def)
  with m assms(2) show False by simp
qed

lemma update_fresh: "k \<notin> set (keys al) \<Longrightarrow> AList.update k v al = al @ [(k, v)]"
  by (induction al) (auto simp: keys_def)

lemma open_error_None: "open_error index is = None \<longleftrightarrow> (\<forall>i \<in> set is. issue_validate i = None \<and> blank (iss_id i))"
  by (induction "is" arbitrary: index) (auto split: option.splits)

fun numbered :: "int \<Rightarrow> issue list \<Rightarrow> issue list" where
  "numbered next [] = []"
| "numbered next (i # is) = i\<lparr>iss_id := host_id (next + 1)\<rparr> # numbered (next + 1) is"

lemma issue_validate_id [simp]: "issue_validate (i\<lparr>iss_id := x\<rparr>) = issue_validate i"
  by (simp add: issue_validate_def)

lemma assign_ids_effect:
  assumes "ledger_inv r" and "fr_next r + int (length is) \<le> max_int" and "\<forall>i \<in> set is. issue_validate i = None"
    and "assign_ids is r = (opened, r')"
  shows "opened = numbered (fr_next r) is \<and> fr_issues r' = fr_issues r @ map (\<lambda>i. (iss_id i, i)) opened \<and>
    fr_next r' = fr_next r + int (length is) \<and> ledger_inv r' \<and> fr_pending r' = fr_pending r"
  using assms
proof (induction "is" arbitrary: r opened)
  case Nil
  then show ?case by simp
next
  case (Cons i "is")
  let ?n = "fr_next r + 1"
  let ?i = "i\<lparr>iss_id := host_id ?n\<rparr>"
  have range: "0 \<le> fr_next r" "?n \<le> max_int" using Cons.prems(1,2) by (auto simp: ledger_inv_def)
  then have wrap: "wrap_int ?n = ?n" by (intro wrap_int_idle) (auto simp: min_int_def)
  have fresh: "host_id ?n \<notin> set (keys (fr_issues r))" using ledger_fresh [OF Cons.prems(1)] range by simp
  let ?r = "r\<lparr>fr_next := ?n, fr_issues := fr_issues r @ [(host_id ?n, ?i)],
      fr_history := AList.update (host_id ?n) ?i (fr_history r)\<rparr>"
  obtain later where later: "assign_ids is ?r = (later, r')" "opened = ?i # later"
    using Cons.prems(4) wrap update_fresh [OF fresh] by (auto simp: Let_def split: prod.splits)
  have "final_issue_sequence (host_id ?n) = Inr ?n" using range by (intro host_id_sequence) auto
  moreover have "issue_validate ?i = None" using Cons.prems(3) by simp
  ultimately have "ledger_inv ?r"
    using Cons.prems(1) range fresh by (fastforce simp: ledger_inv_def keys_def)
  from Cons.IH [OF this _ _ later(1)] Cons.prems(2,3) later(2) show ?case by auto
qed

lemma ledger_inv_cong: "ledger_inv r \<Longrightarrow> fr_issues r' = fr_issues r \<Longrightarrow> fr_next r' = fr_next r \<Longrightarrow> ledger_inv r'"
  by (simp add: ledger_inv_def)

lemma open_final_issues_cases:
  assumes "ledger_inv r" and "fr_next r + int (length is) \<le> max_int" and "open_final_issues is r = (res, r')"
  obtains (refused) e where "res = Inl e" "r' = r"
  | (opened) "res = Inr (numbered (fr_next r) is)" "\<forall>i \<in> set is. issue_validate i = None \<and> blank (iss_id i)"
      "fr_issues r' = fr_issues r @ map (\<lambda>i. (iss_id i, i)) (numbered (fr_next r) is)"
      "fr_next r' = fr_next r + int (length is)" "ledger_inv r'" "fr_pending r' = fr_pending r"
proof (cases "open_error 0 is")
  case (Some e)
  with assms(3) show ?thesis by (intro refused) (auto simp: open_final_issues_def)
next
  case None
  obtain opened r1 where a: "assign_ids is r = (opened, r1)" by force
  have ok: "\<forall>i \<in> set is. issue_validate i = None \<and> blank (iss_id i)" using None by (simp add: open_error_None)
  note effect = assign_ids_effect [OF assms(1,2) _ a]
  have "res = Inr opened" "r' = (if opened \<noteq> [] then r1\<lparr>fr_reviewed := True, fr_version := fr_version r1 + 1\<rparr> else r1)"
    using assms(3) None a by (auto simp: open_final_issues_def)
  moreover from this have "fr_issues r' = fr_issues r1" "fr_next r' = fr_next r1" "fr_pending r' = fr_pending r1"
    by simp_all
  ultimately show ?thesis using effect ok ledger_inv_cong by (intro opened) auto
qed

lemma resolve_error_None:
  "resolve_error active index seen is = None \<longleftrightarrow>
     distinct (map trim_space is) \<and> trim_space ` set is \<inter> seen = {} \<and> [] \<notin> trim_space ` set is \<and>
     trim_space ` set is \<subseteq> set (keys active)"
proof (induction "is" arbitrary: index seen)
  case (Cons i "is")
  have "map_of active (trim_space i) = None \<longleftrightarrow> trim_space i \<notin> set (keys active)"
    by (simp add: set_keys map_of_eq_None_iff dom_map_of_conv_image_fst)
  with Cons show ?case by (auto simp: Let_def)
qed simp

lemma fold_delete: "fold (\<lambda>i. AList.delete (f i)) is al = filter (\<lambda>(k, v). k \<notin> f ` set is) al"
  by (induction "is" arbitrary: al) (auto simp: AList.delete_eq intro: filter_cong)

lemma resolve_final_issues_cases:
  assumes "resolve_final_issues is r = (res, r')"
  obtains (refused) e where "res = Some e" "r' = r"
  | (resolved) "res = None" "distinct (map trim_space is)" "trim_space ` set is \<subseteq> set (keys (fr_issues r))"
      "fr_issues r' = filter (\<lambda>(k, i). k \<notin> trim_space ` set is) (fr_issues r)"
      "fr_next r' = fr_next r" "fr_pending r' = fr_pending r"
proof (cases "resolve_error (fr_issues r) 0 {} is")
  case (Some e)
  with assms have "res = Some e" "r' = r" by (simp_all add: resolve_final_issues_def)
  then show ?thesis by (rule refused)
next
  case None
  with assms have "res = None" "fr_issues r' = fold (\<lambda>i. AList.delete (trim_space i)) is (fr_issues r)"
      "fr_next r' = fr_next r" "fr_pending r' = fr_pending r"
    by (auto simp: resolve_final_issues_def Let_def split: if_splits)
  then show ?thesis using None [unfolded resolve_error_None] by (intro resolved) (simp_all add: fold_delete)
qed

lemma ledger_inv_filter:
  assumes "ledger_inv r" and "fr_issues r' = filter P (fr_issues r)" and "fr_next r' = fr_next r"
  shows "ledger_inv r'"
  using assms by (auto simp: ledger_inv_def keys_def distinct_map_filter)

lemma final_issue_sequence_range: "final_issue_sequence i = Inr n \<Longrightarrow> 0 < n \<and> n \<le> max_int"
  by (auto simp: final_issue_sequence_def Let_def dest: atoi_range split: if_splits option.splits)

lemma restore_each_effect:
  assumes "restore_each index is active next = Inr (active', next')" and "distinct (keys active)" "0 \<le> next" "next \<le> max_int"
  shows "active' = active @ map (\<lambda>i. (iss_id i, i)) is \<and> distinct (keys active') \<and> next \<le> next' \<and> next' \<le> max_int \<and>
    (\<forall>i \<in> set is. issue_validate i = None \<and> (\<exists>n. final_issue_sequence (iss_id i) = Inr n \<and> n \<le> next'))"
  using assms
proof (induction "is" arbitrary: index active "next")
  case (Cons i "is")
  then obtain n where n: "issue_validate i = None" "final_issue_sequence (iss_id i) = Inr n" "map_of active (iss_id i) = None"
      "restore_each (index + 1) is (AList.update (iss_id i) i active) (max next n) = Inr (active', next')"
    by (auto split: option.splits sum.splits if_splits)
  have fresh: "iss_id i \<notin> set (keys active)" using n(3) by (simp add: set_keys map_of_eq_None_iff dom_map_of_conv_image_fst)
  note again = n(4) [unfolded update_fresh [OF fresh]]
  have "0 \<le> max next n" "max next n \<le> max_int" "distinct (keys (active @ [(iss_id i, i)]))"
    using final_issue_sequence_range [OF n(2)] Cons.prems(2-4) fresh by (auto simp: keys_def)
  with Cons.IH [OF again] n(1,2) show ?case by auto
qed simp

lemma restore_inv: "ledger_inv r \<Longrightarrow> restore_final_issues is r = (res, r') \<Longrightarrow> ledger_inv r'"
  by (auto simp: restore_final_issues_def ledger_inv_def keys_def max_int_def
      dest!: restore_each_effect split: sum.splits)

section \<open>The ledger as a transition system\<close>

text \<open>
  The two tools, the restore of a checkpointed ledger and the drain of the runner. The ledger
  is used while fewer than 2^63 issues have been numbered.
\<close>

datatype ledger_op =
    OpUpdateIssues issue_update "error option"
  | OpCompleteQC "error option"
  | OpRestoreIssues "issue list"
  | OpDrainCompletion

fun ledger_step :: "final_recorder \<Rightarrow> ledger_op \<Rightarrow> final_recorder \<Rightarrow> bool" where
  "ledger_step r (OpUpdateIssues u debug) r' \<longleftrightarrow>
     fr_next r + int (length (iu_issues u)) \<le> max_int \<and> r' = snd (update_issues_tool debug u r)"
| "ledger_step r (OpCompleteQC debug) r' \<longleftrightarrow> r' = snd (complete_tool debug r)"
| "ledger_step r (OpRestoreIssues is) r' \<longleftrightarrow> r' = snd (restore_final_issues is r)"
| "ledger_step r OpDrainCompletion r' \<longleftrightarrow> r' = snd (drain_completion r)"

lemma update_issues_tool_inv:
  assumes "ledger_inv r" and "fr_next r + int (length (iu_issues u)) \<le> max_int"
  shows "ledger_inv (snd (update_issues_tool debug u r))"
proof -
  obtain ores o' where o': "open_final_issues (iu_issues u) r = (ores, o')" by force
  obtain rres r' where r': "resolve_final_issues (iu_ids u) r = (rres, r')" by force
  have "ledger_inv o'" using assms(1) by (cases rule: open_final_issues_cases [OF assms o']) auto
  moreover have "ledger_inv r'"
    using assms(1) by (cases rule: resolve_final_issues_cases [OF r']) (auto intro: ledger_inv_filter)
  ultimately show ?thesis
    using assms(1) by (auto simp: update_issues_tool_def Let_def o' r' split: sum.splits option.splits)
qed

lemma ledger_step_inv: "ledger_inv r \<Longrightarrow> ledger_step r op r' \<Longrightarrow> ledger_inv r'"
proof (cases op)
  case (OpUpdateIssues u debug)
  assume "ledger_inv r" "ledger_step r op r'"
  with OpUpdateIssues update_issues_tool_inv show ?thesis by simp
next
  case (OpCompleteQC debug)
  assume "ledger_inv r" "ledger_step r op r'"
  with OpCompleteQC show ?thesis
    by (auto simp: complete_tool_def record_final_completion_def Let_def elim: ledger_inv_cong)
next
  case (OpRestoreIssues "is")
  assume "ledger_inv r" "ledger_step r op r'"
  with OpRestoreIssues restore_inv show ?thesis by (cases "restore_final_issues is r") auto
next
  case OpDrainCompletion
  assume "ledger_inv r" "ledger_step r op r'"
  with OpDrainCompletion show ?thesis by (auto simp: drain_completion_def elim: ledger_inv_cong)
qed

interpretation ledger_system: invariant_system "\<lambda>r. r = new_final_recorder" ledger_step ledger_inv
  by unfold_locales (simp add: ledger_inv_def new_final_recorder_def keys_def max_int_def, rule ledger_step_inv)

section \<open>A review in completion mode\<close>

text \<open>The loop, with the drain read off the recorder.\<close>

lemma completion_unfold:
  assumes "session prompt s = (e, (r, w))"
  shows "completion_attempts encode_issues session config attempts prompt s =
    (case e of
       Some err \<Rightarrow> (Inl (Format ''send qc prompt: %w'' [TextArg err]), (r, w))
     | None \<Rightarrow>
    (case rec_failure r of
       Some f \<Rightarrow> (Inl (Format ''qc completion tool failed: %w'' [TextArg f]), (snd (drain_completion r), w))
     | None \<Rightarrow>
        (if fr_pending r then (Inr \<lparr>fv_decision = DecisionPass, fv_issues = []\<rparr>, (snd (drain_completion r), w))
         else if fq_max_rounds config > 0 \<and> fr_attempts r \<ge> fq_max_rounds config
         then (Inl (Format ''qc rounds exhausted after %d rounds'' [IntArg (fq_max_rounds config)]), (snd (drain_completion r), w))
         else if attempts + 1 \<ge> fq_max_attempts config
         then (Inl (Format ''qc completion protocol attempts exhausted after %d attempts (maximum %d)''
                      [IntArg (attempts + 1), IntArg (fq_max_attempts config)]), (snd (drain_completion r), w))
         else completion_attempts encode_issues session config (attempts + 1)
                (completion_retry_prompt encode_issues config (snd (drain_completion r))) (snd (drain_completion r), w))))"
  by (subst completion_attempts.simps) (auto simp: assms drain_completion_def split: option.splits)

text \<open>\<open>started\<close> holds before a turn and \<open>ended\<close> after it; a pass comes from a turn that left completion pending.\<close>

lemma completion_attempts_result:
  assumes turn: "\<And>p s e t. started s \<Longrightarrow> session p s = (e, t) \<Longrightarrow> ended t"
    and drained: "\<And>r w. ended (r, w) \<Longrightarrow> started (snd (drain_completion r), w)"
    and "started s" and "completion_attempts encode_issues session config attempts prompt s = (Inr v, (r', w))"
  shows "v = \<lparr>fv_decision = DecisionPass, fv_issues = []\<rparr> \<and>
    (\<exists>r. ended (r, w) \<and> fr_pending r \<and> r' = snd (drain_completion r))"
  using assms(3,4)
proof (induction "nat (fq_max_attempts config - attempts)" arbitrary: attempts prompt s rule: less_induct)
  case less
  obtain e r w1 where sent: "session prompt s = (e, (r, w1))" by (metis prod_cases3)
  have ended: "ended (r, w1)" using turn [OF less.prems(1) sent] .
  note run = less.prems(2) [unfolded completion_unfold [where session = session, OF sent]]
  show ?case
  proof (cases "fr_pending r")
    case True
    with run ended show ?thesis by (auto split: option.splits)
  next
    case False
    with run have "completion_attempts encode_issues session config (attempts + 1)
        (completion_retry_prompt encode_issues config (snd (drain_completion r))) (snd (drain_completion r), w1) = (Inr v, (r', w))"
      and "attempts < fq_max_attempts config"
      by (auto split: option.splits if_splits)
    moreover from this have "nat (fq_max_attempts config - (attempts + 1)) < nat (fq_max_attempts config - attempts)" by arith
    ultimately show ?thesis using less.hyps drained [OF ended] by blast
  qed
qed

lemma completion_attempts_prompts:
  assumes prompts: "\<And>p s e t. session p s = (e, t) \<Longrightarrow> prompts t = prompts s + (1 :: nat)"
    and drained: "\<And>r w. prompts (snd (drain_completion r), w) = prompts (r, w)"
    and "completion_attempts encode_issues session config attempts prompt s = (res, t)"
  shows "prompts t \<le> prompts s + max 1 (nat (fq_max_attempts config - attempts))"
  using assms(3)
proof (induction "nat (fq_max_attempts config - attempts)" arbitrary: attempts prompt s rule: less_induct)
  case less
  obtain e r w where sent: "session prompt s = (e, (r, w))" by (metis prod_cases3)
  have one: "prompts (r, w) = prompts s + 1" "prompts (snd (drain_completion r), w) = prompts s + 1"
    using prompts [OF sent] drained by simp_all
  note run = less.prems [unfolded completion_unfold [where session = session, OF sent]]
  show ?case
  proof (cases "e = None \<and> rec_failure r = None \<and> \<not> fr_pending r \<and> attempts + 1 < fq_max_attempts config \<and>
      \<not> (fq_max_rounds config > 0 \<and> fr_attempts r \<ge> fq_max_rounds config)")
    case True
    then have less_left: "nat (fq_max_attempts config - (attempts + 1)) < nat (fq_max_attempts config - attempts)"
      and left: "max 1 (nat (fq_max_attempts config - (attempts + 1))) + 1 \<le> max 1 (nat (fq_max_attempts config - attempts))"
      by arith+
    from run True have "completion_attempts encode_issues session config (attempts + 1)
        (completion_retry_prompt encode_issues config (snd (drain_completion r))) (snd (drain_completion r), w) = (res, t)"
      by (auto split: if_splits)
    from less.hyps [OF less_left this] left one show ?thesis by simp
  next
    case False
    with run one show ?thesis by (auto split: option.splits if_splits)
  qed
qed

text \<open>What the session does to the ledger in a turn.\<close>

definition ledger_call :: "final_recorder \<Rightarrow> final_recorder \<Rightarrow> bool" where
  "ledger_call r r' \<longleftrightarrow> (\<exists>u debug. r' = snd (update_issues_tool debug u r)) \<or> (\<exists>debug. r' = snd (complete_tool debug r))"

lemma ledger_call_pending:
  assumes "ledger_call r r'" and "\<not> fr_pending r" and "fr_pending r'"
  shows "fr_issues r = []"
proof -
  have assigned: "fr_pending (snd (assign_ids is s)) = fr_pending s" for "is" s
    by (induction "is" arbitrary: s) (simp_all add: Let_def case_prod_beta)
  have "fr_pending (snd (update_issues_tool debug u r)) = fr_pending r" for debug u
  proof -
    obtain ores o' where o': "open_final_issues (iu_issues u) r = (ores, o')" by force
    obtain rres s' where s': "resolve_final_issues (iu_ids u) r = (rres, s')" by force
    have "fr_pending o' = fr_pending r"
      using assigned [of "iu_issues u" r] o' by (auto simp: open_final_issues_def split: option.splits prod.splits if_splits)
    moreover have "fr_pending s' = fr_pending r"
      by (cases rule: resolve_final_issues_cases [OF s']) simp_all
    ultimately show ?thesis
      by (simp add: update_issues_tool_def Let_def o' s' split: sum.split option.split)
  qed
  with assms show ?thesis
    by (auto simp: ledger_call_def complete_tool_def record_final_completion_def Let_def split: if_splits)
qed

lemma ledger_calls_pending:
  assumes "ledger_call\<^sup>*\<^sup>* r r'" and "\<not> fr_pending r" and "fr_pending r'"
  shows "\<exists>m. ledger_call\<^sup>*\<^sup>* r m \<and> fr_issues m = [] \<and> ledger_call\<^sup>*\<^sup>* m r'"
  using assms
proof (induction rule: rtranclp_induct)
  case (step y z)
  show ?case
  proof (cases "fr_pending y")
    case True
    with step show ?thesis by (meson rtranclp.rtrancl_into_rtrancl)
  next
    case False
    with step ledger_call_pending have "fr_issues y = []" by blast
    with step show ?thesis by blast
  qed
qed simp

lemma restore_each_success:
  assumes "\<forall>i \<in> set is. issue_validate i = None \<and> (\<exists>n. final_issue_sequence (iss_id i) = Inr n \<and> n \<le> bound)"
    and "distinct (map iss_id is)" and "iss_id ` set is \<inter> set (keys active) = {}" and "next \<le> bound"
  shows "\<exists>next'. restore_each index is active next = Inr (active @ map (\<lambda>i. (iss_id i, i)) is, next') \<and> next' \<le> bound"
  using assms
proof (induction "is" arbitrary: index active "next")
  case (Cons i "is")
  then obtain n where n: "final_issue_sequence (iss_id i) = Inr n" "n \<le> bound" by auto
  have fresh: "iss_id i \<notin> set (keys active)" using Cons.prems(3) by simp
  then have "map_of active (iss_id i) = None" by (simp add: set_keys map_of_eq_None_iff dom_map_of_conv_image_fst)
  then have "restore_each index (i # is) active next = restore_each (index + 1) is (active @ [(iss_id i, i)]) (max next n)"
    using Cons.prems(1) n(1) fresh by (simp add: update_fresh)
  moreover have "\<exists>next'. restore_each (index + 1) is (active @ [(iss_id i, i)]) (max next n)
      = Inr ((active @ [(iss_id i, i)]) @ map (\<lambda>i. (iss_id i, i)) is, next') \<and> next' \<le> bound"
    using Cons.prems n by (intro Cons.IH) (auto simp: keys_def)
  ultimately show ?case by simp
qed simp

lemma ledger_as_issues:
  assumes "ledger_inv r"
  shows "map (\<lambda>i. (iss_id i, i)) (map snd (fr_issues r)) = fr_issues r"
  using assms by (auto simp: ledger_inv_def intro!: map_idI)

section \<open>Properties\<close>

text \<open>
  The issue ledger belongs to the host. Whatever the tools are called with, in every
  reachable ledger each issue is stored once, under its own ID, is well-formed, and its ID was
  made by the host: it is \<open>FQ-\<close> and a positive number, and that number has been given out.
\<close>

theorem ledger_is_host_owned:
  assumes "reach (\<lambda>r. r = new_final_recorder) ledger_step r"
  shows "distinct (map fst (fr_issues r)) \<and>
    (\<forall>(k, i) \<in> set (fr_issues r). iss_id i = k \<and> issue_validate i = None \<and>
       (\<exists>n. final_issue_sequence k = Inr n \<and> 0 < n \<and> n \<le> fr_next r))"
  using ledger_system.reach_inv [OF assms]
  by (auto simp: ledger_inv_def keys_def) (fastforce dest: final_issue_sequence_range)

definition sample_issue :: "string \<Rightarrow> issue" where
  "sample_issue code = mk_issue code (Text ''the total is off by one'')"

definition sample_update :: issue_update where
  "sample_update = \<lparr>iu_action = ''open'', iu_issues = [sample_issue ''a'', sample_issue ''b''], iu_ids = []\<rparr>"

definition sample_ledger :: final_recorder where
  "sample_ledger = snd (update_issues_tool None sample_update new_final_recorder)"

lemma sample_ledger_reachable: "reach (\<lambda>r. r = new_final_recorder) ledger_step sample_ledger"
  by (rule reach_step [OF reach_init, of _ new_final_recorder _ "OpUpdateIssues sample_update None"])
     (simp_all add: sample_ledger_def new_final_recorder_def sample_update_def max_int_def)

lemma sample_ledger_ids: "map fst (fr_issues sample_ledger) = [''FQ-001'', ''FQ-002'']"
  by code_simp

theorem ledger_is_host_owned_witness:
  "map fst (fr_issues sample_ledger) = [''FQ-001'', ''FQ-002''] \<and>
   list_all (\<lambda>e. issue_validate (snd e) = None) (fr_issues sample_ledger)"
  using ledger_is_host_owned [OF sample_ledger_reachable] sample_ledger_ids by (auto simp: list_all_iff)

text \<open>
  Opening issues never touches the ones there are. If the numbers do not run out, a refused
  call changes nothing, and an accepted one answers the issues in order with the next numbers
  as IDs and appends exactly those to the ledger; issues are accepted only well-formed and
  without an ID of the model's own.
\<close>

theorem opening_numbers_issues_afresh:
  assumes "ledger_inv r" and "fr_next r + int (length is) \<le> max_int" and "open_final_issues is r = (res, r')"
  shows "case res of
      Inl e \<Rightarrow> r' = r
    | Inr opened \<Rightarrow> opened = numbered (fr_next r) is \<and> set (map iss_id opened) \<inter> set (map fst (fr_issues r)) = {} \<and>
        distinct (map iss_id opened) \<and> fr_issues r' = fr_issues r @ map (\<lambda>i. (iss_id i, i)) opened \<and>
        (\<forall>i \<in> set is. issue_validate i = None \<and> blank (iss_id i))"
  using assms
proof (cases rule: open_final_issues_cases)
  case opened
  then have "distinct (map fst (fr_issues r @ map (\<lambda>i. (iss_id i, i)) (numbered (fr_next r) is)))"
    by (simp only: ledger_inv_def keys_def)
  then have "distinct (map iss_id (numbered (fr_next r) is)) \<and>
      set (map iss_id (numbered (fr_next r) is)) \<inter> set (map fst (fr_issues r)) = {}"
    by (auto simp: comp_def)
  with opened show ?thesis by simp
qed simp

theorem opening_numbers_issues_afresh_witness:
  "\<exists>r'. open_final_issues [sample_issue ''c''] sample_ledger
      = (Inr [(sample_issue ''c'')\<lparr>iss_id := ''FQ-003''\<rparr>], r') \<and>
    map fst (fr_issues r') = [''FQ-001'', ''FQ-002'', ''FQ-003'']"
proof -
  obtain res r' where run: "open_final_issues [sample_issue ''c''] sample_ledger = (res, r')" by force
  have inv: "ledger_inv sample_ledger" using ledger_system.reach_inv [OF sample_ledger_reachable] .
  have "fr_next sample_ledger = 2" "host_id 3 = ''FQ-003''" by code_simp+
  moreover have "\<not> isl (fst (open_final_issues [sample_issue ''c''] sample_ledger))" by code_simp
  ultimately show ?thesis
    using opening_numbers_issues_afresh [OF inv _ run] run sample_ledger_ids
    by (cases res) (auto simp: max_int_def)
qed

text \<open>
  Resolving is all or nothing. A refused call changes nothing; an accepted one names
  distinct issues that are open and removes exactly those, in the order kept by the rest.
\<close>

theorem resolving_is_all_or_nothing:
  assumes "resolve_final_issues is r = (res, r')"
  shows "if res = None
    then distinct (map trim_space is) \<and> trim_space ` set is \<subseteq> set (map fst (fr_issues r)) \<and>
      fr_issues r' = filter (\<lambda>(k, i). k \<notin> trim_space ` set is) (fr_issues r)
    else r' = r"
  using assms by (cases rule: resolve_final_issues_cases) (simp_all add: keys_def)

theorem resolving_is_all_or_nothing_witness:
  "map fst (fr_issues (snd (resolve_final_issues ['' FQ-001''] sample_ledger))) = [''FQ-002''] \<and>
   snd (resolve_final_issues [''FQ-001'', ''FQ-009''] sample_ledger) = sample_ledger"
proof -
  obtain a r1 b r2 where runs: "resolve_final_issues ['' FQ-001''] sample_ledger = (a, r1)"
      "resolve_final_issues [''FQ-001'', ''FQ-009''] sample_ledger = (b, r2)" by (meson surj_pair)
  have "Option.is_none (fst (resolve_final_issues ['' FQ-001''] sample_ledger)) \<and>
      \<not> Option.is_none (fst (resolve_final_issues [''FQ-001'', ''FQ-009''] sample_ledger))" by code_simp
  then have ab: "a = None" "b \<noteq> None" using runs by (auto simp: Option.is_none_def)
  have trim: "trim_space '' FQ-001'' = ''FQ-001''" by code_simp
  have "filter (\<lambda>k. k \<notin> {''FQ-001''}) (map fst (fr_issues sample_ledger)) = [''FQ-002'']"
    by (simp add: sample_ledger_ids)
  then have "map fst (filter (\<lambda>(k, i). k \<notin> {''FQ-001''}) (fr_issues sample_ledger)) = [''FQ-002'']"
    by (simp add: filter_map comp_def case_prod_unfold)
  then show ?thesis
    using resolving_is_all_or_nothing [OF runs(1)] resolving_is_all_or_nothing [OF runs(2)] ab runs trim by simp
qed

text \<open>
  A ledger survives its checkpoint. Restoring what \<open>FinalIssues\<close> lists into any recorder
  succeeds and gives the same issues under the same IDs, and the next number is not above the
  one of the recorder that was checkpointed.
\<close>

theorem ledger_survives_a_checkpoint:
  assumes "ledger_inv r"
  shows "\<exists>r'. restore_final_issues (final_issues r) r0 = (None, r') \<and> map_of (fr_issues r') = map_of (fr_issues r) \<and>
    final_issues r' = final_issues r \<and> fr_next r' \<le> fr_next r \<and> fr_reviewed r' = (fr_issues r \<noteq> [])"
proof -
  let ?is = "final_issues r"
  have ids: "map (\<lambda>i. (iss_id i, i)) (map snd (fr_issues r)) = fr_issues r" using ledger_as_issues [OF assms] .
  have members: "set ?is = snd ` set (fr_issues r)" by (simp add: final_issues_def)
  have keys_eq: "map iss_id (map snd (fr_issues r)) = keys (fr_issues r)"
    using arg_cong [OF ids, of "map fst"] by (simp add: keys_def comp_def)
  have "mset ?is = mset (map snd (fr_issues r))" by (simp add: final_issues_def)
  then have "mset (map iss_id ?is) = mset (map iss_id (map snd (fr_issues r)))" by (simp only: mset_map)
  then have "mset (map iss_id ?is) = mset (keys (fr_issues r))" by (simp only: keys_eq)
  then have "distinct (map iss_id ?is) = distinct (keys (fr_issues r))" by (rule mset_eq_imp_distinct_iff)
  then have distinct: "distinct (map iss_id ?is)" using assms by (simp only: ledger_inv_def)
  have "\<forall>i \<in> set ?is. issue_validate i = None \<and> (\<exists>n. final_issue_sequence (iss_id i) = Inr n \<and> n \<le> fr_next r)"
    using assms members by (fastforce simp: ledger_inv_def)
  with restore_each_success [of ?is "fr_next r" "[]" 0 0] distinct assms
  obtain next' where restored: "restore_each 0 ?is [] 0 = Inr (map (\<lambda>i. (iss_id i, i)) ?is, next')" "next' \<le> fr_next r"
    by (auto simp: ledger_inv_def keys_def)
  define r' where "r' = r0\<lparr>fr_issues := map (\<lambda>i. (iss_id i, i)) ?is, fr_history := map (\<lambda>i. (iss_id i, i)) ?is,
      fr_next := next', fr_reviewed := (?is \<noteq> []), fr_pending := False, fr_attempts := 0\<rparr>"
  have "restore_final_issues ?is r0 = (None, r')" using restored by (simp add: restore_final_issues_def r'_def)
  moreover have "set (fr_issues r') = set (fr_issues r)"
    using arg_cong [OF ids, of set] by (simp add: r'_def members image_image)
  then have "map_of (fr_issues r') = map_of (fr_issues r)"
    using distinct assms by (subst map_of_inject_set) (simp_all add: r'_def ledger_inv_def keys_def comp_def)
  moreover have "final_issues r' = final_issues r"
    by (simp add: r'_def final_issues_def comp_def sort_key_id_if_sorted)
  moreover have "(?is = []) = (fr_issues r = [])" using members by (metis image_is_empty set_empty)
  ultimately show ?thesis using restored(2) by (auto simp: r'_def)
qed

theorem ledger_survives_a_checkpoint_witness:
  "\<exists>r'. restore_final_issues (final_issues sample_ledger) new_final_recorder = (None, r') \<and>
     map_of (fr_issues r') ''FQ-002'' = Some ((sample_issue ''b'')\<lparr>iss_id := ''FQ-002''\<rparr>)"
proof -
  have "map_of (fr_issues sample_ledger) ''FQ-002'' = Some ((sample_issue ''b'')\<lparr>iss_id := ''FQ-002''\<rparr>)" by code_simp
  with ledger_survives_a_checkpoint [OF ledger_system.reach_inv [OF sample_ledger_reachable], of new_final_recorder]
  show ?thesis by auto
qed


definition sample_final_config :: final_config where
  "sample_final_config =
     \<lparr>fq_task = \<lparr>ft_system_prompt = [], ft_prompt = None\<rparr>, fq_criteria = Some [(''complete'', Some ''answers all'')],
      fq_artifacts = [], fq_research = sample_research_config, fq_max_rounds = 0, fq_max_attempts = 5,
      fq_verdict_tool = [], fq_issue_tool = ''r42_qc_update_issues'', fq_complete_tool = ''r42_qc_complete'',
      fq_open_issues = []\<rparr>"

definition sample_candidate :: research_result where
  "sample_candidate = \<lparr>rr_value = Some ''done'', rr_artifacts = None, rr_attempts = 0\<rparr>"

text \<open>A session that completes a clean ledger, and one that then finds more to complain about.\<close>

definition completing_session :: "(final_recorder \<times> unit) session" where
  "completing_session prompt s = (case s of (r, w) \<Rightarrow> (None, (snd (complete_tool None r), w)))"

definition late_session :: "(final_recorder \<times> unit) session" where
  "late_session prompt s =
     (case s of (r, w) \<Rightarrow> (None, (snd (update_issues_tool None sample_update (snd (complete_tool None r))), w)))"


text \<open>Accepting an issue does not take back a completion accepted earlier in the same turn.\<close>

lemma pass_with_an_open_issue:
  "\<exists>v r'. final_review (\<lambda>doc. Inr ''doc'') (\<lambda>is. ''ledger'') late_session sample_final_config sample_candidate
     (new_final_recorder, ()) = (Inr v, (r', ())) \<and> fv_decision v = DecisionPass \<and>
     map fst (fr_issues r') = [''FQ-001'', ''FQ-002'']"
proof -
  let ?run = "final_review (\<lambda>doc. Inr ''doc'') (\<lambda>is. ''ledger'') late_session sample_final_config sample_candidate
      (new_final_recorder, ())"
  have "case ?run of (Inr v, (r', w)) \<Rightarrow> fv_decision v = DecisionPass \<and> map fst (fr_issues r') = [''FQ-001'', ''FQ-002'']
      | (Inl e, s) \<Rightarrow> False"
    by code_simp
  then show ?thesis by (auto split: prod.splits sum.splits)
qed

text \<open>
  A run of Final QC without a coordinator ends. For every reviewer, whatever its verdicts,
  \<open>Run\<close> returns, and if it succeeds the number of rounds it reports is between one and
  \<open>MaxRounds\<close> and the candidate is the one research produced: it is reviewed again, not redone.
\<close>

theorem final_run_ends:
  "\<exists>res t. final_run encode encode_issues session research config s = Some (res, t) \<and>
    (case res of
       Inl e \<Rightarrow> True
     | Inr out \<Rightarrow> 1 \<le> fres_rounds out \<and> fres_rounds out \<le> fq_max_rounds config \<and>
         (\<exists>t1. research (fq_research config) s = (Inr (fres_candidate out), t1)))"
proof -
  have rounds: "\<exists>res t. final_rounds review config' candidate round s = Some (res, t) \<and>
      (\<forall>out. res = Inr out \<longrightarrow> round \<le> fres_rounds out \<and> fres_rounds out \<le> fq_max_rounds config' \<and>
         fres_candidate out = candidate)"
    if "round \<le> fq_max_rounds config'" for review config' candidate round and s :: "final_recorder \<times> 'a"
    using that
  proof (induction "nat (fq_max_rounds config' - round)" arbitrary: config' round s rule: less_induct)
    case less
    obtain res s1 where rev: "review config' candidate s = (res, s1)" by (cases "review config' candidate s")
    show ?case
    proof (cases "\<exists>v. res = Inr v \<and> fv_decision v \<noteq> DecisionPass \<and> round \<noteq> fq_max_rounds config'")
      case True
      then obtain v where v: "res = Inr v" "fv_decision v \<noteq> DecisionPass" "round \<noteq> fq_max_rounds config'" by blast
      let ?config = "config'\<lparr>fq_open_issues := fv_issues v\<rparr>"
      have "nat (fq_max_rounds ?config - (round + 1)) < nat (fq_max_rounds config' - round)"
          "round + 1 \<le> fq_max_rounds ?config" using v(3) less.prems by auto
      from less.hyps [OF this, of s1] v rev show ?thesis
        by (subst final_rounds.simps) auto
    next
      case False
      with rev less.prems show ?thesis by (subst final_rounds.simps) (auto split: sum.splits)
    qed
  qed
  show ?thesis
  proof (cases "final_config_error config")
    case (Some e)
    then show ?thesis by (cases s) (simp add: final_run_def)
  next
    case None
    then have "1 \<le> fq_max_rounds config" by (auto simp: final_config_error_def split: if_splits)
    obtain res s1 where r: "research (fq_research config) s = (res, s1)" by (cases "research (fq_research config) s")
    show ?thesis
    proof (cases res)
      case (Inl e)
      with None r show ?thesis by (simp add: final_run_def)
    next
      case (Inr candidate)
      with None r rounds [OF \<open>1 \<le> fq_max_rounds config\<close>, of "final_review encode encode_issues session" candidate s1]
      show ?thesis by (fastforce simp: final_run_def split: sum.splits)
    qed
  qed
qed

end
