(* ===== verification/Coordinator.thy ===== *)
theory Coordinator
  imports Collection_QC Final_QC
begin

text \<open>
  The workflow coordinator: \<^verbatim>\<open>internal/coordinator/coordinator.go\<close>. It composes the phases of
  one research workflow over its state machine. The phase runners, the observer and the
  checkpoint writer are interfaces there and fields of a record here, over an arbitrary host
  state \<open>'s\<close> that holds the workflow state (\<open>cn_get\<close>, \<open>cn_put\<close>). A missing observer does
  nothing and a missing writer never fails. A research runner that does not return is \<open>None\<close>,
  and so is the panic of a run that resumes in Final QC without a reviewer.
  \<open>json.Marshal\<close> of the round document and \<open>json.Valid\<close> are parameters; a \<open>json.RawMessage\<close> that
  is not valid makes the former fail.
\<close>

section \<open>Interfaces\<close>

datatype coord_action = ActionStarted | ActionDecision

record coord_event =
  ce_phase :: phase
  ce_action :: coord_action
  ce_decision :: string
  ce_rounds :: int
  ce_round :: int

record coord_checkpoint =
  ck_next :: phase
  ck_workflow :: wf_snapshot
  ck_collection_state :: "active_need list"
  ck_collection_qc :: checkpoint_output
  ck_candidate :: research_result
  ck_final_rounds :: int
  ck_open_issues :: "issue list"

record coord_config =
  cf_collection :: collection_run_config
  cf_collection_qc :: coll_qc_config
  cf_research :: research_config
  cf_final :: final_config
  cf_final_enabled :: bool
  cf_max_final :: int
  cf_resume :: "coord_checkpoint option"

record 's coord_runner =
  cn_get :: "'s \<Rightarrow> wf_state"
  cn_put :: "wf_state \<Rightarrow> 's \<Rightarrow> 's"
  cn_collect :: "collection_run_config \<Rightarrow> 's \<Rightarrow> (error + checkpoint_output) \<times> 's"
  cn_review :: "coll_qc_config \<Rightarrow> 's \<Rightarrow> (error + coll_qc_result) \<times> 's"
  cn_research :: "research_config \<Rightarrow> 's \<Rightarrow> ((error + research_result) \<times> 's) option"
  cn_final :: "(final_config \<Rightarrow> research_result \<Rightarrow> 's \<Rightarrow> (error + final_verdict) \<times> 's) option"
  cn_emit :: "coord_event \<Rightarrow> 's \<Rightarrow> 's"
  cn_commit :: "coord_checkpoint \<Rightarrow> 's \<Rightarrow> error option \<times> 's"
  cn_encode_round :: "active_need list \<Rightarrow> string \<Rightarrow> error + string"
  cn_json_valid :: "string \<Rightarrow> bool"

text \<open>The variables of the loop of \<open>Run\<close>.\<close>

record coord_loop =
  cl_config :: coord_config
  cl_state :: "active_need list"
  cl_candidate :: research_result
  cl_final_rounds :: int

section \<open>Prompts and decisions\<close>

definition collection_round_prompt ::
    "('s, 'z) coord_runner_scheme \<Rightarrow> prompt \<Rightarrow> active_need list \<Rightarrow> string \<Rightarrow> prompt" where
  "collection_round_prompt runner initial active outcomes =
     (if active = [] \<and> outcomes = [] then initial
      else (case cn_encode_round runner active outcomes of
              Inl e \<Rightarrow> initial
            | Inr encoded \<Rightarrow>
                initial @ [Text (''\<newline>\<newline>Collection QC state for the next round. Search only active needs and their '' @
                  ''remaining condition IDs; terminal outcomes are frozen and must not be reopened:\<newline>''), Text encoded]))"

definition research_outcomes_prompt :: "('s, 'z) coord_runner_scheme \<Rightarrow> prompt \<Rightarrow> string \<Rightarrow> prompt" where
  "research_outcomes_prompt runner initial outcomes =
     (if outcomes = [] then initial
      else if \<not> cn_json_valid runner outcomes then initial
      else initial @ [Text (''\<newline>\<newline>Complete information_need_outcomes from Collection QC (represent unresolved needs as '' @
        ''uncertainty, never as proven absence):\<newline>''), Text outcomes])"

definition collection_qc_decision :: "coll_qc_result \<Rightarrow> string" where
  "collection_qc_decision result =
     (if cr_limit_exhausted result then ''budget_exhausted''
      else if list_ex (\<lambda>out. no_resolution out = NeedUnresolved) (cr_outcomes result) then ''needs_more''
      else ''sufficient'')"

section \<open>The checkpoint of a handoff\<close>

definition handoff_checkpoint :: "('s, 'z) coord_runner_scheme \<Rightarrow> coord_loop \<Rightarrow> 's \<Rightarrow> coord_checkpoint" where
  "handoff_checkpoint runner l s =
     (let config = cl_config l
      in \<lparr>ck_next = wf_current_phase (cn_get runner s), ck_workflow = wf_snapshot_of (cn_get runner s),
          ck_collection_state = cl_state l,
          ck_collection_qc = \<lparr>co_artifacts = cq_artifacts (cf_collection_qc config),
            co_empty_reason = cq_empty_reason (cf_collection_qc config),
            co_dispositions = cq_dispositions (cf_collection_qc config)\<rparr>,
          ck_candidate = cl_candidate l, ck_final_rounds = cl_final_rounds l,
          ck_open_issues = fq_open_issues (cf_final config)\<rparr>)"

definition coord_commit :: "('s, 'z) coord_runner_scheme \<Rightarrow> coord_loop \<Rightarrow> 's \<Rightarrow> error option \<times> 's" where
  "coord_commit runner l s =
     (let checkpoint = handoff_checkpoint runner l s
      in case cn_commit runner checkpoint s of
           (Some e, s') \<Rightarrow>
             (Some (Format ''commit workflow checkpoint for next phase %s: %w''
                [StrArg (phase_text (ck_next checkpoint)), TextArg e]), s')
         | (None, s') \<Rightarrow> (None, s'))"

definition coord_advance :: "('s, 'z) coord_runner_scheme \<Rightarrow> event \<Rightarrow> 's \<Rightarrow> error option \<times> 's" where
  "coord_advance runner e s =
     (case wf_advance (cn_get runner s) e of
        Inl err \<Rightarrow> (Some (wf_error_text err), s)
      | Inr st \<Rightarrow> (None, cn_put runner st s))"

section \<open>One turn of the loop\<close>

text \<open>\<open>Inl\<close> is a return of \<open>Run\<close>, \<open>Inr\<close> the next turn.\<close>

type_synonym turn_exit = "(error + research_result) + coord_loop"

text \<open>An error of the last operation ends the run; otherwise the checkpoint is committed.\<close>

definition handoff ::
    "('s, 'z) coord_runner_scheme \<Rightarrow> coord_loop \<Rightarrow> error option \<times> 's \<Rightarrow> turn_exit \<times> 's" where
  "handoff runner l advanced =
     (case advanced of
        (Some e, s) \<Rightarrow> (Inl (Inl e), s)
      | (None, s) \<Rightarrow>
          (case coord_commit runner l s of
             (Some e, s') \<Rightarrow> (Inl (Inl e), s')
           | (None, s') \<Rightarrow> (Inr l, s')))"

definition collection_phase :: "('s, 'z) coord_runner_scheme \<Rightarrow> coord_loop \<Rightarrow> 's \<Rightarrow> turn_exit \<times> 's" where
  "collection_phase runner l s =
     (let config = cl_config l;
          run = (cf_collection config)
            \<lparr>rc_active := cl_state l,
             rc_prompt := collection_round_prompt runner (rc_prompt (cf_collection config)) (cl_state l)
                            (wf_outcomes (cn_get runner s))\<rparr>
      in case cn_collect runner run s of
           (Inl e, s1) \<Rightarrow> (Inl (Inl (Format ''run collection: %w'' [TextArg e])), s1)
         | (Inr out, s1) \<Rightarrow>
             (let qc = (cf_collection_qc config)
                    \<lparr>cq_artifacts := co_artifacts out, cq_empty_reason := co_empty_reason out,
                     cq_dispositions := co_dispositions out\<rparr>;
                  l1 = l\<lparr>cl_config := config\<lparr>cf_collection_qc := qc\<rparr>\<rparr>
              in handoff runner l1 (coord_advance runner EventCollectionCheckpoint s1)))"

definition collection_qc_phase :: "('s, 'z) coord_runner_scheme \<Rightarrow> coord_loop \<Rightarrow> 's \<Rightarrow> turn_exit \<times> 's" where
  "collection_qc_phase runner l s =
     (case cn_review runner (cf_collection_qc (cl_config l)) s of
        (Inl e, s1) \<Rightarrow> (Inl (Inl (Format ''run collection qc: %w'' [TextArg e])), s1)
      | (Inr result, s1) \<Rightarrow>
          (let rounds = wf_rounds (cn_get runner s1);
               s2 = cn_emit runner \<lparr>ce_phase = PhaseCollectionQC, ce_action = ActionDecision,
                      ce_decision = collection_qc_decision result, ce_rounds = rounds, ce_round = rounds\<rparr> s1
           in handoff runner (l\<lparr>cl_state := cr_active_states result\<rparr>) (None, s2)))"

definition research_phase ::
    "('s, 'z) coord_runner_scheme \<Rightarrow> coord_loop \<Rightarrow> 's \<Rightarrow> (turn_exit \<times> 's) option" where
  "research_phase runner l s =
     (let config = cl_config l;
          run = (cf_research config)\<lparr>rs_prompt := research_outcomes_prompt runner (rs_prompt (cf_research config))
                  (wf_outcomes (cn_get runner s))\<rparr>
      in map_option (\<lambda>(res, s1). case res of
           Inl e \<Rightarrow> (Inl (Inl (Format ''run research: %w'' [TextArg e])), s1)
         | Inr candidate \<Rightarrow>
             handoff runner (l\<lparr>cl_candidate := candidate\<rparr>)
               (coord_advance runner
                  (if cf_final_enabled config then EventResearchComplete else EventResearchCompleteWithoutQC) s1))
         (cn_research runner run s))"

text \<open>\<open>validate\<close> has made sure that the reviewer is there if Final QC is enabled.\<close>

definition final_qc_phase ::
    "('s, 'z) coord_runner_scheme \<Rightarrow> (final_config \<Rightarrow> research_result \<Rightarrow> 's \<Rightarrow> (error + final_verdict) \<times> 's)
       \<Rightarrow> coord_loop \<Rightarrow> 's \<Rightarrow> turn_exit \<times> 's" where
  "final_qc_phase runner review l s =
     (let config = cl_config l
      in case review (cf_final config) (cl_candidate l) s of
           (Inl e, s1) \<Rightarrow> (Inl (Inl (Format ''run final qc: %w'' [TextArg e])), s1)
         | (Inr verdict, s1) \<Rightarrow>
             (let s2 = cn_emit runner \<lparr>ce_phase = PhaseFinalQC, ce_action = ActionDecision,
                    ce_decision = decision_text (fv_decision verdict),
                    ce_rounds = wf_rounds (cn_get runner s1), ce_round = cl_final_rounds l\<rparr> s1
              in if fv_decision verdict = DecisionPass
                 then handoff runner l (coord_advance runner EventPass s2)
                 else if fv_decision verdict \<noteq> DecisionRevise
                 then (Inl (Inl (Format ''unsupported final qc decision %q'' [StrArg (decision_text (fv_decision verdict))])), s2)
                 else if cl_final_rounds l \<ge> cf_max_final config
                 then (Inl (Inl (Format ''final qc rounds exhausted after %d rounds'' [IntArg (cl_final_rounds l)])), s2)
                 else handoff runner
                        (l\<lparr>cl_config := config\<lparr>cf_final := (cf_final config)\<lparr>fq_open_issues := fv_issues verdict\<rparr>\<rparr>\<rparr>)
                        (coord_advance runner EventFinalQCRetry s2)))"

text \<open>The event at the start of a turn, with the round it names.\<close>

definition started_event :: "phase \<Rightarrow> int \<Rightarrow> int \<Rightarrow> coord_event" where
  "started_event phase rounds final_round =
     \<lparr>ce_phase = phase, ce_action = ActionStarted, ce_decision = [], ce_rounds = rounds,
      ce_round = (case phase of
         PhaseCollection \<Rightarrow> rounds | PhaseCollectionQC \<Rightarrow> rounds
       | PhaseResearch \<Rightarrow> 1 | PhaseFinalQC \<Rightarrow> final_round | _ \<Rightarrow> 0)\<rparr>"

definition coord_turn :: "('s, 'z) coord_runner_scheme \<Rightarrow> coord_loop \<Rightarrow> 's \<Rightarrow> (turn_exit \<times> 's) option" where
  "coord_turn runner l0 s0 =
     (let phase = wf_current_phase (cn_get runner s0);
          l = (if phase = PhaseFinalQC then l0\<lparr>cl_final_rounds := cl_final_rounds l0 + 1\<rparr> else l0);
          s = cn_emit runner (started_event phase (wf_rounds (cn_get runner s0)) (cl_final_rounds l)) s0
      in case wf_current_phase (cn_get runner s) of
           PhaseCollection \<Rightarrow> Some (collection_phase runner l s)
         | PhaseCollectionQC \<Rightarrow> Some (collection_qc_phase runner l s)
         | PhaseResearch \<Rightarrow> research_phase runner l s
         | PhaseFinalQC \<Rightarrow>
             (case cn_final runner of
                None \<Rightarrow> None
              | Some review \<Rightarrow> Some (final_qc_phase runner review l s))
         | PhaseComplete \<Rightarrow> Some (Inl (Inr (cl_candidate l)), s)
         | other \<Rightarrow> Some (Inl (Inl (Format ''unsupported workflow phase %q'' [StrArg (phase_text other)])), s))"

partial_function (option) coord_turns ::
    "'s coord_runner \<Rightarrow> coord_loop \<Rightarrow> 's \<Rightarrow> ((error + research_result) \<times> 's) option" where
  "coord_turns runner l s =
     (case coord_turn runner l s of
        None \<Rightarrow> None
      | Some (Inl res, s1) \<Rightarrow> Some (res, s1)
      | Some (Inr l1, s1) \<Rightarrow> coord_turns runner l1 s1)"

declare coord_turns.simps [code]

section \<open>Run\<close>

definition coord_validate :: "'s coord_runner \<Rightarrow> coord_config \<Rightarrow> error option" where
  "coord_validate runner config =
     (if cf_final_enabled config \<and> cn_final runner = None then Some (Text ''final qc runner is required'')
      else if cf_final_enabled config \<and> cf_max_final config \<le> 0
      then Some (Text ''final qc rounds exhausted before review'')
      else None)"

definition coord_begin :: "'s coord_runner \<Rightarrow> 's \<Rightarrow> error option \<times> 's" where
  "coord_begin runner s =
     (case wf_begin (cn_get runner s) of
        Inl e \<Rightarrow> (Some (wf_error_text e), s)
      | Inr st \<Rightarrow> (None, cn_put runner st s))"

definition no_candidate :: research_result where
  "no_candidate = \<lparr>rr_value = None, rr_artifacts = None, rr_attempts = 0\<rparr>"

definition coord_resume :: "'s coord_runner \<Rightarrow> coord_config \<Rightarrow> coord_checkpoint \<Rightarrow> 's \<Rightarrow> (error + coord_loop) \<times> 's" where
  "coord_resume runner config ck s =
     (case wf_restore (cn_get runner s) (ck_workflow ck) of
        Inl e \<Rightarrow> (Inl (Format ''restore workflow checkpoint: %w'' [TextArg (wf_error_text e)]), s)
      | Inr st \<Rightarrow>
          (let s1 = cn_put runner st s;
               qc = (cf_collection_qc config)
                 \<lparr>cq_artifacts := co_artifacts (ck_collection_qc ck), cq_empty_reason := co_empty_reason (ck_collection_qc ck),
                  cq_dispositions := co_dispositions (ck_collection_qc ck)\<rparr>;
               l = \<lparr>cl_config = config\<lparr>cf_collection_qc := qc,
                      cf_final := (cf_final config)\<lparr>fq_open_issues := ck_open_issues ck\<rparr>\<rparr>,
                    cl_state = ck_collection_state ck, cl_candidate = ck_candidate ck,
                    cl_final_rounds = ck_final_rounds ck\<rparr>
           in if wf_current_phase (cn_get runner s1) = PhaseNone
              then (case coord_begin runner s1 of
                      (Some e, s2) \<Rightarrow> (Inl e, s2)
                    | (None, s2) \<Rightarrow> (Inr l, s2))
              else (Inr l, s1)))"

definition coord_start :: "'s coord_runner \<Rightarrow> coord_config \<Rightarrow> 's \<Rightarrow> (error + coord_loop) \<times> 's" where
  "coord_start runner config s =
     (case cf_resume config of
        Some ck \<Rightarrow> coord_resume runner config ck s
      | None \<Rightarrow>
          (case coord_begin runner s of
             (Some e, s1) \<Rightarrow> (Inl e, s1)
           | (None, s1) \<Rightarrow>
               (Inr \<lparr>cl_config = config, cl_state = [], cl_candidate = no_candidate, cl_final_rounds = 0\<rparr>, s1)))"

definition coord_run :: "'s coord_runner \<Rightarrow> coord_config \<Rightarrow> 's \<Rightarrow> ((error + research_result) \<times> 's) option" where
  "coord_run runner config s =
     (case coord_validate runner config of
        Some e \<Rightarrow> Some (Inl e, s)
      | None \<Rightarrow>
          (case coord_start runner config s of
             (Inl e, s1) \<Rightarrow> Some (Inl e, s1)
           | (Inr l, s1) \<Rightarrow> coord_turns runner l s1))"


section \<open>The contract of the phases\<close>

text \<open>The part of a workflow state that a phase runner leaves alone.\<close>

definition same_progress :: "wf_state \<Rightarrow> wf_state \<Rightarrow> bool" where
  "same_progress st st' \<longleftrightarrow>
     wf_begun st' = wf_begun st \<and> wf_phase st' = wf_phase st \<and> wf_rounds st' = wf_rounds st \<and> wf_max st' = wf_max st"

text \<open>What Collection QC may have decided, seen in the workflow state.\<close>

definition qc_progress :: "wf_state \<Rightarrow> wf_state \<Rightarrow> bool" where
  "qc_progress st st' \<longleftrightarrow>
     wf_begun st' \<and> wf_max st' = wf_max st \<and>
     (wf_phase st' = PhaseResearch \<and> wf_rounds st' = wf_rounds st \<or>
      wf_phase st' = PhaseCollection \<and> wf_rounds st' = wf_rounds st + 1 \<and> wf_rounds st < wf_max st)"

definition carries :: "coll_qc_config \<Rightarrow> checkpoint_output \<Rightarrow> bool" where
  "carries config out \<longleftrightarrow> cq_artifacts config = co_artifacts out \<and> cq_dispositions config = co_dispositions out"

text \<open>
  The coordinator relies on its runners for more than their types say: \<open>good\<close> is what holds of
  the host between phases, \<open>handed out\<close> what a Collection round leaves for its QC, and
  \<open>made\<close> what Research says of a candidate.
\<close>

locale phase_contract =
  fixes runner :: "'s coord_runner"
    and good :: "'s \<Rightarrow> bool"
    and handed :: "checkpoint_output \<Rightarrow> 's \<Rightarrow> bool"
    and made :: "research_result \<Rightarrow> bool"
    and base :: research_config
  assumes get_put: "cn_get runner (cn_put runner st s) = st"
    and emit_keeps: "cn_get runner (cn_emit runner ev s) = cn_get runner s"
      "good (cn_emit runner ev s) = good s" "handed out (cn_emit runner ev s) = handed out s"
    and commit_keeps: "cn_commit runner ck s = (r, t) \<Longrightarrow>
      cn_get runner t = cn_get runner s \<and> (good s \<longrightarrow> good t) \<and> (\<forall>out. handed out s \<longrightarrow> handed out t)"
    and collect_hands: "good s \<Longrightarrow> wf_begun (cn_get runner s) \<Longrightarrow> wf_phase (cn_get runner s) = PhaseCollection \<Longrightarrow>
      cn_collect runner cc s = (Inr out, t) \<Longrightarrow> same_progress (cn_get runner s) (cn_get runner t) \<and> handed out t"
    and handed_on: "handed out s \<Longrightarrow> wf_advance (cn_get runner s) EventCollectionCheckpoint = Inr st \<Longrightarrow>
      handed out (cn_put runner st s)"
    and review_decides: "handed out s \<Longrightarrow> wf_begun (cn_get runner s) \<Longrightarrow>
      wf_phase (cn_get runner s) = PhaseCollectionQC \<Longrightarrow> carries qc out \<Longrightarrow>
      cn_review runner qc s = (Inr result, t) \<Longrightarrow> good t \<and> qc_progress (cn_get runner s) (cn_get runner t)"
    and research_returns: "good s \<Longrightarrow> wf_begun (cn_get runner s) \<Longrightarrow> wf_phase (cn_get runner s) = PhaseResearch \<Longrightarrow>
      \<exists>r t. cn_research runner (base\<lparr>rs_prompt := prompt\<rparr>) s = Some (r, t) \<and>
        (case r of Inl e \<Rightarrow> True
         | Inr candidate \<Rightarrow> good t \<and> same_progress (cn_get runner s) (cn_get runner t) \<and> made candidate)"
    and final_keeps: "cn_final runner = Some review \<Longrightarrow> good s \<Longrightarrow> wf_begun (cn_get runner s) \<Longrightarrow>
      wf_phase (cn_get runner s) = PhaseFinalQC \<Longrightarrow> review fc candidate s = (Inr verdict, t) \<Longrightarrow>
      good t \<and> same_progress (cn_get runner s) (cn_get runner t)"
    and closed_advance: "good s \<Longrightarrow> wf_phase (cn_get runner s) = PhaseResearch \<or> wf_phase (cn_get runner s) = PhaseFinalQC \<Longrightarrow>
      wf_phase st = PhaseFinalQC \<or> wf_phase st = PhaseComplete \<Longrightarrow>
      wf_advance (cn_get runner s) e = Inr st \<Longrightarrow> good (cn_put runner st s)"
begin

text \<open>What holds at the start of every turn of the loop.\<close>

definition loop_inv :: "coord_loop \<Rightarrow> 's \<Rightarrow> bool" where
  "loop_inv l s \<longleftrightarrow>
     wf_begun (cn_get runner s) \<and> cf_research (cl_config l) = base \<and>
     (cf_final_enabled (cl_config l) \<longrightarrow> cn_final runner \<noteq> None) \<and>
     (case wf_phase (cn_get runner s) of
        PhaseCollection \<Rightarrow> good s
      | PhaseCollectionQC \<Rightarrow> (\<exists>out. handed out s \<and> carries (cf_collection_qc (cl_config l)) out)
      | PhaseResearch \<Rightarrow> good s
      | PhaseFinalQC \<Rightarrow> good s \<and> made (cl_candidate l) \<and> cn_final runner \<noteq> None
      | PhaseComplete \<Rightarrow> good s \<and> made (cl_candidate l)
      | _ \<Rightarrow> False)"

text \<open>Rounds of Collection left, then rounds of Final QC left, bound the turns.\<close>

definition loop_measure :: "coord_loop \<Rightarrow> 's \<Rightarrow> nat" where
  "loop_measure l s =
     (let st = cn_get runner s;
          rounds = 2 * nat (wf_max st - wf_rounds st);
          reviews = nat (cf_max_final (cl_config l) - cl_final_rounds l)
      in case wf_phase st of
           PhaseCollection \<Rightarrow> rounds + reviews + 4
         | PhaseCollectionQC \<Rightarrow> rounds + reviews + 3
         | PhaseResearch \<Rightarrow> reviews + 2
         | PhaseFinalQC \<Rightarrow> reviews + 1
         | _ \<Rightarrow> 0)"

definition turn_ok :: "coord_loop \<Rightarrow> 's \<Rightarrow> turn_exit \<Rightarrow> 's \<Rightarrow> bool" where
  "turn_ok l s x t \<longleftrightarrow>
     (case x of
        Inl (Inl e) \<Rightarrow> True
      | Inl (Inr candidate) \<Rightarrow> wf_begun (cn_get runner t) \<and> wf_phase (cn_get runner t) = PhaseComplete \<and> good t \<and> made candidate
      | Inr l' \<Rightarrow> loop_inv l' t \<and> loop_measure l' t < loop_measure l s)"

lemma commit_turn:
  assumes "handoff runner l (None, s) = (x, t)"
  obtains (failed) e where "x = Inl (Inl e)"
  | (committed) "x = Inr l" "cn_get runner t = cn_get runner s" "good s \<longrightarrow> good t" "\<forall>out. handed out s \<longrightarrow> handed out t"
proof -
  obtain r t' where r: "coord_commit runner l s = (r, t')" by (cases "coord_commit runner l s")
  have "cn_get runner t' = cn_get runner s \<and> (good s \<longrightarrow> good t') \<and> (\<forall>out. handed out s \<longrightarrow> handed out t')"
    using r unfolding coord_commit_def Let_def
    by (auto split: prod.splits option.splits dest: commit_keeps)
  with assms r failed committed show thesis by (auto simp: handoff_def split: option.splits)
qed

lemma advance_turn:
  assumes "handoff runner l (coord_advance runner e s) = (x, t)"
  obtains (failed) err where "x = Inl (Inl err)"
  | (committed) st where "wf_advance (cn_get runner s) e = Inr st" "x = Inr l" "cn_get runner t = st"
      "good (cn_put runner st s) \<longrightarrow> good t" "\<forall>out. handed out (cn_put runner st s) \<longrightarrow> handed out t"
proof (cases "wf_advance (cn_get runner s) e")
  case (Inl err)
  with assms have "\<exists>err. x = Inl (Inl err)" by (auto simp: coord_advance_def handoff_def)
  with failed show thesis by blast
next
  case (Inr st)
  with assms have "handoff runner l (None, cn_put runner st s) = (x, t)" by (simp add: coord_advance_def)
  then show thesis
  proof (cases rule: commit_turn)
    case (failed e)
    then show thesis by (rule that(1))
  next
    case committed
    then show thesis using that(2) [OF Inr] by (simp add: get_put)
  qed
qed

text \<open>One lemma per phase: the turn ends the run, or the loop goes on with less to do.\<close>

lemma collection_turn_ok:
  assumes "loop_inv l s" and "wf_phase (cn_get runner s) = PhaseCollection" and "collection_phase runner l s = (x, t)"
  shows "turn_ok l s x t"
proof -
  define run where "run = (cf_collection (cl_config l))
    \<lparr>rc_active := cl_state l,
     rc_prompt := collection_round_prompt runner (rc_prompt (cf_collection (cl_config l))) (cl_state l)
                    (wf_outcomes (cn_get runner s))\<rparr>"
  obtain res s1 where col: "cn_collect runner run s = (res, s1)" by (cases "cn_collect runner run s")
  show ?thesis
  proof (cases res)
    case (Inl e)
    with assms(3) col show ?thesis by (auto simp: collection_phase_def turn_ok_def run_def Let_def)
  next
    case (Inr out)
    define l1 where "l1 = l\<lparr>cl_config := (cl_config l)\<lparr>cf_collection_qc := (cf_collection_qc (cl_config l))
      \<lparr>cq_artifacts := co_artifacts out, cq_empty_reason := co_empty_reason out, cq_dispositions := co_dispositions out\<rparr>\<rparr>\<rparr>"
    have rest: "handoff runner l1 (coord_advance runner EventCollectionCheckpoint s1) = (x, t)"
      using assms(3) col Inr by (simp add: collection_phase_def run_def l1_def Let_def)
    have same: "same_progress (cn_get runner s) (cn_get runner s1)" and handed: "handed out s1"
      using collect_hands [OF _ _ assms(2) col [unfolded Inr]] assms(1,2) by (auto simp: loop_inv_def)
    have carried: "carries (cf_collection_qc (cl_config l1)) out" by (simp add: carries_def l1_def)
    have const: "cf_research (cl_config l1) = cf_research (cl_config l)"
      "cf_final_enabled (cl_config l1) = cf_final_enabled (cl_config l)" "cl_final_rounds l1 = cl_final_rounds l"
      "cf_max_final (cl_config l1) = cf_max_final (cl_config l)"
      by (simp_all add: l1_def)
    show ?thesis
      using rest
    proof (cases rule: advance_turn)
      case (committed st)
      have st: "st = (cn_get runner s1)\<lparr>wf_phase := PhaseCollectionQC\<rparr>"
        using committed(1) same assms(1,2) by (simp add: wf_advance_def same_progress_def loop_inv_def)
      have "handed out t" using committed(5) handed_on [OF handed committed(1)] by blast
      then show ?thesis
        using committed(2,3) st same carried assms(1,2) const
        by (auto simp: turn_ok_def loop_inv_def loop_measure_def same_progress_def Let_def)
    qed (simp add: turn_ok_def)
  qed
qed

lemma collection_qc_turn_ok:
  assumes "loop_inv l s" and "wf_phase (cn_get runner s) = PhaseCollectionQC" and "collection_qc_phase runner l s = (x, t)"
  shows "turn_ok l s x t"
proof -
  obtain out where out: "handed out s" "carries (cf_collection_qc (cl_config l)) out"
    using assms(1,2) by (auto simp: loop_inv_def)
  obtain res s1 where rev: "cn_review runner (cf_collection_qc (cl_config l)) s = (res, s1)"
    by (cases "cn_review runner (cf_collection_qc (cl_config l)) s")
  show ?thesis
  proof (cases res)
    case (Inl e)
    with assms(3) rev show ?thesis by (auto simp: collection_qc_phase_def turn_ok_def Let_def)
  next
    case (Inr result)
    define ev where "ev = \<lparr>ce_phase = PhaseCollectionQC, ce_action = ActionDecision,
      ce_decision = collection_qc_decision result, ce_rounds = wf_rounds (cn_get runner s1),
      ce_round = wf_rounds (cn_get runner s1)\<rparr>"
    have rest: "handoff runner (l\<lparr>cl_state := cr_active_states result\<rparr>) (None, cn_emit runner ev s1) = (x, t)"
      using assms(3) rev Inr by (simp add: collection_qc_phase_def ev_def Let_def)
    have prog: "good s1" "qc_progress (cn_get runner s) (cn_get runner s1)"
      using review_decides [OF out(1) _ assms(2) out(2) rev [unfolded Inr]] assms(1) by (auto simp: loop_inv_def)
    show ?thesis
      using rest
    proof (cases rule: commit_turn)
      case committed
      then show ?thesis
        using prog assms(1,2)
        by (auto simp: turn_ok_def loop_inv_def loop_measure_def qc_progress_def Let_def emit_keeps)
    qed (simp add: turn_ok_def)
  qed
qed

lemma research_turn_ok:
  assumes "loop_inv l s" and "wf_phase (cn_get runner s) = PhaseResearch"
  shows "\<exists>x t. research_phase runner l s = Some (x, t) \<and> turn_ok l s x t"
proof -
  define run where "run = (cf_research (cl_config l))\<lparr>rs_prompt := research_outcomes_prompt runner
    (rs_prompt (cf_research (cl_config l))) (wf_outcomes (cn_get runner s))\<rparr>"
  have base: "cf_research (cl_config l) = base" using assms(1) by (simp add: loop_inv_def)
  have begun: "wf_begun (cn_get runner s)" and good: "good s" using assms by (simp_all add: loop_inv_def)
  obtain res s1 where res: "cn_research runner run s = Some (res, s1)"
    and made: "case res of Inl e \<Rightarrow> True
      | Inr candidate \<Rightarrow> good s1 \<and> same_progress (cn_get runner s) (cn_get runner s1) \<and> made candidate"
    using research_returns [OF good begun assms(2)] unfolding run_def base by blast
  show ?thesis
  proof (cases res)
    case (Inl e)
    with res show ?thesis by (simp add: research_phase_def turn_ok_def run_def Let_def)
  next
    case (Inr candidate)
    let ?e = "if cf_final_enabled (cl_config l) then EventResearchComplete else EventResearchCompleteWithoutQC"
    let ?l = "l\<lparr>cl_candidate := candidate\<rparr>"
    obtain x t where rest: "handoff runner ?l (coord_advance runner ?e s1) = (x, t)"
      by (cases "handoff runner ?l (coord_advance runner ?e s1)")
    have "research_phase runner l s = Some (x, t)"
      using res rest Inr by (simp add: research_phase_def run_def Let_def)
    moreover have "turn_ok l s x t"
      using rest
    proof (cases rule: advance_turn)
      case (committed st)
      have good1: "good s1" and same: "same_progress (cn_get runner s) (cn_get runner s1)" and "made candidate"
        using made Inr by simp_all
      have phase1: "wf_phase (cn_get runner s1) = PhaseResearch" "wf_begun (cn_get runner s1)"
        using same begun assms(2) by (simp_all add: same_progress_def)
      have st: "st = (cn_get runner s1)\<lparr>wf_phase := if cf_final_enabled (cl_config l) then PhaseFinalQC else PhaseComplete\<rparr>"
        using committed(1) phase1 by (auto simp: wf_advance_def split: if_splits)
      have "good t" using committed(4) closed_advance [OF good1 disjI1 [OF phase1(1)] _ committed(1)] st by auto
      then show ?thesis
        using committed(2,3) st same \<open>made candidate\<close> assms begun
        by (auto simp: turn_ok_def loop_inv_def loop_measure_def same_progress_def Let_def)
    qed (simp add: turn_ok_def)
    ultimately show ?thesis by blast
  qed
qed

lemma final_turn_ok:
  assumes "loop_inv l s" and "wf_phase (cn_get runner s) = PhaseFinalQC" and "cn_final runner = Some review"
    and "final_qc_phase runner review (l\<lparr>cl_final_rounds := cl_final_rounds l + 1\<rparr>) s = (x, t)"
  shows "turn_ok l s x t"
proof -
  define l0 where "l0 = l\<lparr>cl_final_rounds := cl_final_rounds l + 1\<rparr>"
  have begun: "wf_begun (cn_get runner s)" and good: "good s" and made: "made (cl_candidate l)"
    using assms(1,2) by (simp_all add: loop_inv_def)
  obtain res s1 where rev: "review (cf_final (cl_config l)) (cl_candidate l) s = (res, s1)"
    by (cases "review (cf_final (cl_config l)) (cl_candidate l) s")
  show ?thesis
  proof (cases res)
    case (Inl e)
    with assms(4) rev show ?thesis by (auto simp: final_qc_phase_def turn_ok_def Let_def)
  next
    case (Inr verdict)
    define s2 where "s2 = cn_emit runner \<lparr>ce_phase = PhaseFinalQC, ce_action = ActionDecision,
      ce_decision = decision_text (fv_decision verdict), ce_rounds = wf_rounds (cn_get runner s1),
      ce_round = cl_final_rounds l0\<rparr> s1"
    note keeps = final_keeps [OF assms(3) good begun assms(2) rev [unfolded Inr]]
    then have good2: "good s2" and same: "same_progress (cn_get runner s) (cn_get runner s2)"
      by (simp_all add: s2_def emit_keeps)
    have phase2: "wf_phase (cn_get runner s2) = PhaseFinalQC" "wf_begun (cn_get runner s2)"
      using same begun assms(2) by (simp_all add: same_progress_def)
    show ?thesis
    proof (cases "fv_decision verdict = DecisionPass")
      case True
      have "handoff runner l0 (coord_advance runner EventPass s2) = (x, t)"
        using assms(4) rev Inr True by (simp add: final_qc_phase_def s2_def l0_def Let_def)
      then show ?thesis
      proof (cases rule: advance_turn)
        case (committed st)
        have st: "st = (cn_get runner s2)\<lparr>wf_phase := PhaseComplete\<rparr>"
          using committed(1) phase2 by (simp add: wf_advance_def)
        have "good t" using committed(4) closed_advance [OF good2 disjI2 [OF phase2(1)] _ committed(1)] st by auto
        then show ?thesis
          using committed(2,3) st same made assms(1,2) begun
          by (auto simp: turn_ok_def loop_inv_def loop_measure_def same_progress_def l0_def Let_def)
      qed (simp add: turn_ok_def)
    next
      case retry: False
      show ?thesis
      proof (cases "fv_decision verdict = DecisionRevise \<and> cl_final_rounds l0 < cf_max_final (cl_config l)")
        case True
        define l1 where "l1 = l0\<lparr>cl_config := (cl_config l)\<lparr>cf_final := (cf_final (cl_config l))\<lparr>fq_open_issues := fv_issues verdict\<rparr>\<rparr>\<rparr>"
        have "handoff runner l1 (coord_advance runner EventFinalQCRetry s2) = (x, t)"
          using assms(4) rev Inr retry True by (simp add: final_qc_phase_def s2_def l0_def l1_def Let_def)
        then show ?thesis
        proof (cases rule: advance_turn)
          case (committed st)
          have st: "st = cn_get runner s2" using committed(1) phase2 by (simp add: wf_advance_def)
          have "good t" using committed(4) closed_advance [OF good2 disjI2 [OF phase2(1)] _ committed(1)] st phase2 by auto
          moreover have l1: "cl_final_rounds l1 = cl_final_rounds l + 1" "cl_candidate l1 = cl_candidate l"
              "cf_max_final (cl_config l1) = cf_max_final (cl_config l)" "cf_research (cl_config l1) = cf_research (cl_config l)"
            and "cl_final_rounds l + 1 < cf_max_final (cl_config l)"
            using True by (simp_all add: l1_def l0_def)
          moreover from l1(1,3) this have "nat (cf_max_final (cl_config l1) - cl_final_rounds l1) < nat (cf_max_final (cl_config l) - cl_final_rounds l)"
            by simp
          ultimately show ?thesis
            using committed(2,3) st same made assms(1-3) begun phase2
            by (auto simp: turn_ok_def loop_inv_def loop_measure_def same_progress_def Let_def)
        qed (simp add: turn_ok_def)
      next
        case False
        with assms(4) rev Inr retry have "\<exists>e. x = Inl (Inl e)"
          by (auto simp: final_qc_phase_def l0_def Let_def split: if_splits)
        then show ?thesis by (auto simp: turn_ok_def)
      qed
    qed
  qed
qed

lemma emitted:
  "loop_inv l (cn_emit runner ev s) = loop_inv l s"
  "loop_measure l (cn_emit runner ev s) = loop_measure l s"
  "turn_ok l (cn_emit runner ev s) x t = turn_ok l s x t"
proof -
  show "loop_inv l (cn_emit runner ev s) = loop_inv l s"
    by (cases "wf_phase (cn_get runner s)") (simp_all add: loop_inv_def emit_keeps)
  show measure: "loop_measure l (cn_emit runner ev s) = loop_measure l s"
    by (simp add: loop_measure_def emit_keeps)
  show "turn_ok l (cn_emit runner ev s) x t = turn_ok l s x t"
    by (simp only: turn_ok_def measure)
qed

lemma turn_progress:
  assumes inv: "loop_inv l s"
  shows "\<exists>x t. coord_turn runner l s = Some (x, t) \<and> turn_ok l s x t"
proof -
  define l' where "l' = (if wf_phase (cn_get runner s) = PhaseFinalQC then l\<lparr>cl_final_rounds := cl_final_rounds l + 1\<rparr> else l)"
  define s1 where "s1 = cn_emit runner (started_event (wf_phase (cn_get runner s)) (wf_rounds (cn_get runner s)) (cl_final_rounds l')) s"
  have get: "cn_get runner s1 = cn_get runner s" and inv1: "loop_inv l s1"
    and ok: "\<And>x t. turn_ok l s1 x t = turn_ok l s x t"
    using inv by (simp_all add: s1_def emit_keeps emitted)
  have phase: "wf_current_phase (cn_get runner s) = wf_phase (cn_get runner s)"
    using inv by (simp add: wf_current_phase_def loop_inv_def)
  have turn: "coord_turn runner l s = (case wf_phase (cn_get runner s) of
       PhaseCollection \<Rightarrow> Some (collection_phase runner l' s1)
     | PhaseCollectionQC \<Rightarrow> Some (collection_qc_phase runner l' s1)
     | PhaseResearch \<Rightarrow> research_phase runner l' s1
     | PhaseFinalQC \<Rightarrow> (case cn_final runner of None \<Rightarrow> None | Some review \<Rightarrow> Some (final_qc_phase runner review l' s1))
     | PhaseComplete \<Rightarrow> Some (Inl (Inr (cl_candidate l')), s1)
     | other \<Rightarrow> Some (Inl (Inl (Format ''unsupported workflow phase %q'' [StrArg (phase_text other)])), s1))"
    unfolding coord_turn_def Let_def phase l'_def [symmetric] s1_def [symmetric] get by (rule refl)
  have phase1: "wf_phase (cn_get runner s1) = wf_phase (cn_get runner s)" by (simp add: get)
  consider (collection) "wf_phase (cn_get runner s) = PhaseCollection"
    | (qc) "wf_phase (cn_get runner s) = PhaseCollectionQC"
    | (research) "wf_phase (cn_get runner s) = PhaseResearch"
    | (final) "wf_phase (cn_get runner s) = PhaseFinalQC"
    | (over) "wf_phase (cn_get runner s) = PhaseComplete"
    using inv by (cases "wf_phase (cn_get runner s)") (simp_all add: loop_inv_def)
  then show ?thesis
  proof cases
    case collection
    obtain x t where "collection_phase runner l s1 = (x, t)" by (cases "collection_phase runner l s1")
    with collection collection_turn_ok [OF inv1] phase1 ok turn show ?thesis by (simp add: l'_def)
  next
    case qc
    obtain x t where "collection_qc_phase runner l s1 = (x, t)" by (cases "collection_qc_phase runner l s1")
    with qc collection_qc_turn_ok [OF inv1] phase1 ok turn show ?thesis by (simp add: l'_def)
  next
    case research
    with research_turn_ok [OF inv1] phase1 ok turn show ?thesis by (simp add: l'_def)
  next
    case final
    then obtain review where review: "cn_final runner = Some review" using inv by (auto simp: loop_inv_def)
    obtain x t where "final_qc_phase runner review l' s1 = (x, t)" by (cases "final_qc_phase runner review l' s1")
    with final final_turn_ok [OF inv1 _ review] phase1 ok turn review show ?thesis by (simp add: l'_def)
  next
    case over
    with inv turn get phase1 ok [of "Inl (Inr (cl_candidate l'))" s1] inv1 show ?thesis
      by (simp add: turn_ok_def l'_def loop_inv_def)
  qed
qed

text \<open>The loop ends, and if it succeeds the workflow is complete.\<close>

lemma turns_end:
  assumes "loop_inv l s"
  shows "\<exists>res t. coord_turns runner l s = Some (res, t) \<and>
    (case res of
       Inl e \<Rightarrow> True
     | Inr candidate \<Rightarrow> wf_begun (cn_get runner t) \<and> wf_phase (cn_get runner t) = PhaseComplete \<and> good t \<and> made candidate)"
  using assms
proof (induction "loop_measure l s" arbitrary: l s rule: less_induct)
  case less
  obtain x t where turn: "coord_turn runner l s = Some (x, t)" and ok: "turn_ok l s x t"
    using turn_progress [OF less.prems] by blast
  show ?case
  proof (cases x)
    case (Inl res)
    with turn have "coord_turns runner l s = Some (res, t)" by (subst coord_turns.simps) simp
    with ok Inl show ?thesis by (auto simp: turn_ok_def split: sum.splits)
  next
    case (Inr l')
    with turn have "coord_turns runner l s = coord_turns runner l' t" by (subst coord_turns.simps) simp
    with less.hyps [of l' t] ok Inr show ?thesis by (simp add: turn_ok_def)
  qed
qed

lemma run_ends:
  assumes start: "\<And>l t. coord_validate runner config = None \<Longrightarrow> coord_start runner config s = (Inr l, t) \<Longrightarrow> loop_inv l t"
  shows "\<exists>res t. coord_run runner config s = Some (res, t) \<and>
    (case res of
       Inl e \<Rightarrow> True
     | Inr candidate \<Rightarrow> wf_begun (cn_get runner t) \<and> wf_phase (cn_get runner t) = PhaseComplete \<and> good t \<and> made candidate)"
proof (cases "coord_validate runner config")
  case (Some e)
  then show ?thesis by (simp add: coord_run_def)
next
  case valid: None
  obtain r t where started: "coord_start runner config s = (r, t)" by (cases "coord_start runner config s")
  show ?thesis
  proof (cases r)
    case (Inl e)
    with valid started show ?thesis by (simp add: coord_run_def)
  next
    case (Inr l)
    with valid started start turns_end [of l t] show ?thesis by (simp add: coord_run_def)
  qed
qed

end

section \<open>The bound on Final QC rounds\<close>

text \<open>A reviewer that only ever passes: then the bound plays no part in a run.\<close>

definition with_max_final :: "int \<Rightarrow> coord_loop \<Rightarrow> coord_loop" where
  "with_max_final n l = l\<lparr>cl_config := (cl_config l)\<lparr>cf_max_final := n\<rparr>\<rparr>"

definition only_passes :: "'s coord_runner \<Rightarrow> final_config \<Rightarrow> bool" where
  "only_passes runner config \<longleftrightarrow>
     (\<forall>review candidate s verdict t. cn_final runner = Some review \<longrightarrow> review config candidate s = (Inr verdict, t) \<longrightarrow>
        fv_decision verdict = DecisionPass)"

abbreviation rebound :: "int \<Rightarrow> turn_exit \<times> 's \<Rightarrow> turn_exit \<times> 's" where
  "rebound n xt \<equiv> (map_sum id (with_max_final n) (fst xt), snd xt)"

lemma with_max_final_simps [simp]:
  "cl_state (with_max_final n l) = cl_state l" "cl_candidate (with_max_final n l) = cl_candidate l"
  "cl_final_rounds (with_max_final n l) = cl_final_rounds l"
  "cl_config (with_max_final n l) = (cl_config l)\<lparr>cf_max_final := n\<rparr>"
  "(with_max_final n l)\<lparr>cl_final_rounds := k\<rparr> = with_max_final n (l\<lparr>cl_final_rounds := k\<rparr>)"
  "(with_max_final n l)\<lparr>cl_state := x\<rparr> = with_max_final n (l\<lparr>cl_state := x\<rparr>)"
  "(with_max_final n l)\<lparr>cl_candidate := y\<rparr> = with_max_final n (l\<lparr>cl_candidate := y\<rparr>)"
  "with_max_final m (with_max_final n l) = with_max_final m l"
  "with_max_final (cf_max_final (cl_config l)) l = l"
  by (simp_all add: with_max_final_def)

lemma commit_rebound: "coord_commit runner (with_max_final n l) s = coord_commit runner l s"
proof -
  have "handoff_checkpoint runner (with_max_final n l) s = handoff_checkpoint runner l s"
    by (simp add: handoff_checkpoint_def Let_def)
  then show ?thesis by (simp only: coord_commit_def)
qed

lemma handoff_rebound: "handoff runner (with_max_final n l) r = rebound n (handoff runner l r)"
  by (auto simp: handoff_def commit_rebound split: prod.splits option.splits)

lemma turn_rebound:
  assumes "only_passes runner (cf_final (cl_config l))"
  shows "coord_turn runner (with_max_final n l) s = map_option (rebound n) (coord_turn runner l s)"
proof -
  have commute: "c\<lparr>cf_max_final := n, cf_collection_qc := q\<rparr> = c\<lparr>cf_collection_qc := q, cf_max_final := n\<rparr>"
    for c :: coord_config and q by (cases c) simp
  have collection: "collection_phase runner (with_max_final n l') s' = rebound n (collection_phase runner l' s')" for l' s'
    unfolding collection_phase_def Let_def
    by (auto simp: handoff_rebound [symmetric] with_max_final_def commute split: prod.splits sum.splits)
  have qc: "collection_qc_phase runner (with_max_final n l') s' = rebound n (collection_qc_phase runner l' s')" for l' s'
    unfolding collection_qc_phase_def Let_def
    by (auto simp: handoff_rebound split: prod.splits sum.splits)
  have research: "research_phase runner (with_max_final n l') s' = map_option (rebound n) (research_phase runner l' s')" for l' s'
    unfolding research_phase_def Let_def
    by (auto simp: option.map_comp handoff_rebound split: prod.splits sum.splits intro!: map_option_cong)
  have final: "final_qc_phase runner review (with_max_final n l') s' = rebound n (final_qc_phase runner review l' s')"
    if "cf_final (cl_config l') = cf_final (cl_config l)" "cn_final runner = Some review" for l' s' review
  proof -
    have "fv_decision v = DecisionPass" if "review (cf_final (cl_config l')) c s' = (Inr v, t)" for c v t
      using assms that \<open>cn_final runner = Some review\<close> \<open>cf_final (cl_config l') = _\<close> unfolding only_passes_def by metis
    then show ?thesis
      unfolding final_qc_phase_def Let_def
      by (auto simp: handoff_rebound split: prod.splits sum.splits)
  qed
  show ?thesis
    unfolding coord_turn_def Let_def
    by (simp add: collection qc research final if_distrib [of "with_max_final n"] split: phase.splits option.splits)
qed

lemma handoff_same_final:
  "handoff runner l r = (Inr l', t) \<Longrightarrow> cf_final (cl_config l') = cf_final (cl_config l)"
  by (auto simp: handoff_def split: prod.splits option.splits)

lemma collection_same_final:
  "collection_phase runner l s = (Inr l', t) \<Longrightarrow> cf_final (cl_config l') = cf_final (cl_config l)"
  by (auto simp: collection_phase_def Let_def dest!: handoff_same_final split: prod.splits sum.splits)

lemma collection_qc_same_final:
  "collection_qc_phase runner l s = (Inr l', t) \<Longrightarrow> cf_final (cl_config l') = cf_final (cl_config l)"
  by (auto simp: collection_qc_phase_def Let_def dest!: handoff_same_final split: prod.splits sum.splits)

lemma research_same_final:
  assumes "research_phase runner l s = Some (Inr l', t)"
  shows "cf_final (cl_config l') = cf_final (cl_config l)"
proof -
  obtain res s1 where "(case res of
           Inl e \<Rightarrow> (Inl (Inl (Format ''run research: %w'' [TextArg e])), s1)
         | Inr candidate \<Rightarrow>
             handoff runner (l\<lparr>cl_candidate := candidate\<rparr>)
               (coord_advance runner
                  (if cf_final_enabled (cl_config l) then EventResearchComplete else EventResearchCompleteWithoutQC) s1)) = (Inr l', t)"
    using assms unfolding research_phase_def Let_def by (auto simp del: split_paired_Ex)
  then show ?thesis by (cases res) (auto dest: handoff_same_final)
qed

lemma final_same_final:
  assumes "only_passes runner (cf_final (cl_config l))" and "cn_final runner = Some review"
    and "final_qc_phase runner review l s = (Inr l', t)"
  shows "cf_final (cl_config l') = cf_final (cl_config l)"
proof -
  have "fv_decision v = DecisionPass" if "review (cf_final (cl_config l)) c s = (Inr v, t)" for c v t
    using assms(1,2) that unfolding only_passes_def by metis
  with assms(3) show ?thesis
    by (auto simp: final_qc_phase_def Let_def dest!: handoff_same_final split: prod.splits sum.splits)
qed

lemma turn_same_final:
  assumes "only_passes runner (cf_final (cl_config l))" and "coord_turn runner l s = Some (Inr l', t)"
  shows "cf_final (cl_config l') = cf_final (cl_config l)"
  using assms
  by (auto simp: coord_turn_def Let_def split: phase.splits option.splits if_splits
      dest: collection_same_final collection_qc_same_final research_same_final dest!: final_same_final [rotated 2])

lemma turns_rebound_some:
  assumes "coord_turns runner l s = Some r" and "only_passes runner (cf_final (cl_config l))"
  shows "coord_turns runner (with_max_final n l) s = Some r"
proof -
  have "only_passes runner (cf_final (cl_config l)) \<longrightarrow> coord_turns runner (with_max_final n l) s = Some r"
  proof (rule coord_turns.raw_induct [where P = "\<lambda>runner l s r. only_passes runner (cf_final (cl_config l)) \<longrightarrow>
      coord_turns runner (with_max_final n l) s = Some r", OF _ assms(1)])
    fix f runner l s r
    assume IH: "\<And>runner l s r. f runner l s = Some r \<Longrightarrow>
        only_passes runner (cf_final (cl_config l)) \<longrightarrow> coord_turns runner (with_max_final n l) s = Some r"
      and body: "(case coord_turn runner l s of None \<Rightarrow> None | Some (Inl res, s1) \<Rightarrow> Some (res, s1)
        | Some (Inr l1, s1) \<Rightarrow> f runner l1 s1) = Some r"
    show "only_passes runner (cf_final (cl_config l)) \<longrightarrow> coord_turns runner (with_max_final n l) s = Some r"
    proof
      assume passes: "only_passes runner (cf_final (cl_config l))"
      obtain x t where turn: "coord_turn runner l s = Some (x, t)" using body by (auto split: option.splits)
      have turn': "coord_turn runner (with_max_final n l) s = Some (map_sum id (with_max_final n) x, t)"
        using turn by (simp add: turn_rebound [OF passes])
      show "coord_turns runner (with_max_final n l) s = Some r"
      proof (cases x)
        case (Inl res)
        with body turn turn' show ?thesis by (subst coord_turns.simps) simp
      next
        case (Inr l1)
        then have "f runner l1 t = Some r" using body turn by simp
        moreover have "only_passes runner (cf_final (cl_config l1))"
          using turn_same_final [OF passes turn [unfolded Inr]] passes by simp
        ultimately show ?thesis using IH turn' Inr by (subst coord_turns.simps) simp
      qed
    qed
  qed
  with assms(2) show ?thesis by blast
qed

lemma turns_rebound:
  assumes "only_passes runner (cf_final (cl_config l))"
  shows "coord_turns runner (with_max_final n l) s = coord_turns runner l s"
proof (cases "coord_turns runner l s")
  case (Some r)
  with turns_rebound_some [OF Some assms, of n] show ?thesis by simp
next
  case none: None
  show ?thesis
  proof (cases "coord_turns runner (with_max_final n l) s")
    case (Some r)
    with turns_rebound_some [OF Some, of "cf_max_final (cl_config l)"] assms none show ?thesis by simp
  qed (simp add: none)
qed

end
