(* ===== verification/Workflow_Run.thy ===== *)
theory Workflow_Run
  imports Coordinator
begin

text \<open>
  One research workflow as \<^verbatim>\<open>newResearchBlock\<close> of \<^verbatim>\<open>internal/cli/runtime_workflow.go\<close>
  assembles it: the coordinator over the Collection, Collection QC, Research and Final QC
  runners, which share one host. The sessions, the file system and the JSON encoders are the
  fields of \<open>workflow_env\<close>. The phase runners meet the contract of the coordinator, so the
  lemmas of \<open>phase_contract\<close> are facts about the workflow.

  The host holds the Collection context with its file system, the recorders the tool handlers
  write to, and the events the observer saw (\<^verbatim>\<open>f.recorder.Record\<close>, whose error is ignored).
  What the other blocks of a run do to the shared artifact registry is part of the turns of
  Collection and Collection QC; during Research and Final QC the model leaves it alone. No
  checkpoint writer and no checkpoint to resume from is configured there.
\<close>

section \<open>The host and the sessions\<close>

record 'fs workflow_host =
  wh_system :: "'fs coll_system"
  wh_checkpoints :: "checkpoint_output recorder"
  wh_verdicts :: "qc_verdict recorder"
  wh_terminal :: terminal_recorder
  wh_final :: final_recorder
  wh_events :: "coord_event list"

record 'fs workflow_env =
  we_os :: "'fs dir_os"
  we_collection :: "(checkpoint_output recorder \<times> 'fs coll_system) session"
  we_collection_qc :: "(qc_verdict recorder \<times> 'fs coll_system) session"
  we_research :: "(terminal_recorder \<times> 'fs) session"
  we_final :: "(final_recorder \<times> 'fs) session option"
  we_criteria :: "string \<rightharpoonup> string"
  we_encode_context :: "context_document \<Rightarrow> error + string"
  we_encode_outcomes :: "need_outcome list \<Rightarrow> error + string"
  we_encode_round :: "active_need list \<Rightarrow> string \<Rightarrow> error + string"
  we_encode_final :: "final_document \<Rightarrow> error + string"
  we_encode_ledger :: "issue list \<Rightarrow> string"
  we_json_valid :: "string \<Rightarrow> bool"

definition wh_context :: "'fs workflow_host \<Rightarrow> coll_context" where
  "wh_context h = snd (snd (wh_system h))"

text \<open>\<^verbatim>\<open>researchEvidencePrompt\<close>, and \<^verbatim>\<open>phasedResearch.Run\<close> with the IDs Collection QC has reviewed.\<close>

definition research_evidence_prompt :: "prompt \<Rightarrow> string list \<Rightarrow> prompt" where
  "research_evidence_prompt configured ids =
     (if ids = [] then configured
      else configured @ [Text ''\<newline>\<newline>Authorized evidence artifact IDs for this Research phase:\<newline>- '',
                         Text (strings_join ''\<newline>- '' ids)])"

definition phased_research :: "coll_context \<Rightarrow> research_config \<Rightarrow> research_config" where
  "phased_research c config =
     config\<lparr>rs_prompt := research_evidence_prompt (rs_prompt config) (sort (reviewed_evidence_ids c))\<rparr>"

definition workflow_runner :: "'fs workflow_env \<Rightarrow> 'fs workflow_host coord_runner" where
  "workflow_runner env =
     \<lparr>cn_get = (\<lambda>h. cc_state (wh_context h)),
      cn_put = (\<lambda>st h. case wh_system h of (fs, ls, c) \<Rightarrow> h\<lparr>wh_system := (fs, ls, c\<lparr>cc_state := st\<rparr>)\<rparr>),
      cn_collect = (\<lambda>config h.
        case collection_run (we_collection env) config (wh_checkpoints h, wh_system h) of
          (res, (r, w)) \<Rightarrow> (res, h\<lparr>wh_checkpoints := r, wh_system := w\<rparr>)),
      cn_review = (\<lambda>config h.
        case coll_qc_review (we_criteria env) (we_encode_context env) (we_encode_outcomes env)
               (we_collection_qc env) config (wh_verdicts h, wh_system h) of
          (res, (r, w)) \<Rightarrow> (res, h\<lparr>wh_verdicts := r, wh_system := w\<rparr>)),
      cn_research = (\<lambda>config h.
        case wh_system h of (fs, ls, c) \<Rightarrow>
          map_option (\<lambda>(res, (r, fs')). (res, h\<lparr>wh_terminal := r, wh_system := (fs', ls, c)\<rparr>))
            (research_run (we_os env) (we_research env) (phased_research c config) (wh_terminal h, fs))),
      cn_final = map_option (\<lambda>session config candidate h.
        case wh_system h of (fs, ls, c) \<Rightarrow>
          (case final_review (we_encode_final env) (we_encode_ledger env) session config candidate (wh_final h, fs) of
             (res, (r, fs')) \<Rightarrow> (res, h\<lparr>wh_final := r, wh_system := (fs', ls, c)\<rparr>))) (we_final env),
      cn_emit = (\<lambda>event h. h\<lparr>wh_events := wh_events h @ [event]\<rparr>),
      cn_commit = (\<lambda>checkpoint h. (None, h)),
      cn_encode_round = we_encode_round env,
      cn_json_valid = we_json_valid env\<rparr>"

text \<open>The configuration \<^verbatim>\<open>newResearchBlock\<close> gives the coordinator, from the planned block.\<close>

record final_plan =
  fp_criteria :: "(string \<times> string option) list option"
  fp_max_rounds :: int

record workflow_plan =
  wp_system_prompt :: string
  wp_prompt :: "string option"
  wp_max_attempts :: int
  wp_collection_tools :: "string list"
  wp_criteria :: "(string \<rightharpoonup> string) option"
  wp_terminate :: "string option"
  wp_workspace :: string
  wp_artifacts :: "declared list"
  wp_final :: "final_plan option"

definition DefaultMaxProtocolAttempts :: int where
  "DefaultMaxProtocolAttempts = 10"

definition initial_research_prompt :: "string option \<Rightarrow> prompt" where
  "initial_research_prompt p = [Text (case p of None \<Rightarrow> ''Begin the configured research task.'' | Some t \<Rightarrow> t)]"

definition workflow_research_config :: "workflow_plan \<Rightarrow> research_config" where
  "workflow_research_config plan =
     \<lparr>rs_prompt = initial_research_prompt (wp_prompt plan),
      rs_tool = (case wp_terminate plan of None \<Rightarrow> [] | Some name \<Rightarrow> name),
      rs_max_attempts = wp_max_attempts plan, rs_timeout = None,
      rs_workspace = wp_workspace plan, rs_artifacts = wp_artifacts plan\<rparr>"

definition no_research_config :: research_config where
  "no_research_config = \<lparr>rs_prompt = [], rs_tool = [], rs_max_attempts = 0, rs_timeout = None, rs_workspace = [], rs_artifacts = []\<rparr>"

definition workflow_final_config :: "workflow_plan \<Rightarrow> final_config" where
  "workflow_final_config plan =
     (case wp_final plan of
        None \<Rightarrow>
          \<lparr>fq_task = \<lparr>ft_system_prompt = [], ft_prompt = None\<rparr>, fq_criteria = None, fq_artifacts = [],
           fq_research = no_research_config, fq_max_rounds = 0, fq_max_attempts = 0, fq_verdict_tool = [],
           fq_issue_tool = [], fq_complete_tool = [], fq_open_issues = []\<rparr>
      | Some final \<Rightarrow>
          \<lparr>fq_task = \<lparr>ft_system_prompt = wp_system_prompt plan, ft_prompt = wp_prompt plan\<rparr>,
           fq_criteria = fp_criteria final, fq_artifacts = wp_artifacts plan,
           fq_research = no_research_config, fq_max_rounds = 0,
           fq_max_attempts = DefaultMaxProtocolAttempts, fq_verdict_tool = [],
           fq_issue_tool = ''r42_qc_update_issues'', fq_complete_tool = ''r42_qc_complete'', fq_open_issues = []\<rparr>)"

definition workflow_config :: "workflow_plan \<Rightarrow> coord_config" where
  "workflow_config plan =
     \<lparr>cf_collection =
        \<lparr>rc_prompt = initial_research_prompt (wp_prompt plan), rc_max_attempts = wp_max_attempts plan,
         rc_tool = ''r42_collection_checkpoint'', rc_active = [], rc_tools = wp_collection_tools plan\<rparr>,
      cf_collection_qc =
        \<lparr>cq_task = \<lparr>qt_system_prompt = wp_system_prompt plan, qt_prompt = wp_prompt plan\<rparr>,
         cq_criteria = wp_criteria plan, cq_artifacts = [], cq_empty_reason = [], cq_dispositions = [],
         cq_max_attempts = DefaultMaxProtocolAttempts, cq_tool = ''r42_collection_qc_verdict''\<rparr>,
      cf_research = workflow_research_config plan,
      cf_final = workflow_final_config plan,
      cf_final_enabled = (wp_final plan \<noteq> None),
      cf_max_final = (case wp_final plan of None \<Rightarrow> 0 | Some final \<Rightarrow> fp_max_rounds final),
      cf_resume = None\<rparr>"

section \<open>The Collection context of a workflow\<close>

text \<open>
  \<^verbatim>\<open>declareResearchArtifacts\<close> and \<^verbatim>\<open>addCollectionArtifactTargets\<close>. A run of
  \<^verbatim>\<open>uuid.NewString\<close> is the argument \<open>uuid\<close>, which picks an identifier for a registry.
\<close>

fun declare_each ::
    "'fs os \<Rightarrow> 'fs \<Rightarrow> (registry \<Rightarrow> string) \<Rightarrow> string \<Rightarrow> declared list \<Rightarrow> (string \<rightharpoonup> string) \<Rightarrow> string list \<Rightarrow> registry
       \<Rightarrow> (error + (string \<rightharpoonup> string) \<times> string list) \<times> registry" where
  "declare_each os fs uuid workspace [] ids current r = (Inr (ids, current), r)"
| "declare_each os fs uuid workspace (d # ds) ids current r =
     (case declare_artifact os fs (uuid r) workspace d r of
        (Inl e, r1) \<Rightarrow> (Inl e, r1)
      | (Inr record, r1) \<Rightarrow>
          declare_each os fs uuid workspace ds (ids(decl_name d \<mapsto> rec_id record)) (current @ [rec_id record]) r1)"

definition declare_research_artifacts ::
    "'fs os \<Rightarrow> 'fs \<Rightarrow> (registry \<Rightarrow> string) \<Rightarrow> string \<Rightarrow> declared list \<Rightarrow> registry
       \<Rightarrow> (error + (string \<rightharpoonup> string) \<times> string list) \<times> registry" where
  "declare_research_artifacts os fs uuid workspace ds r = declare_each os fs uuid workspace ds Map.empty [] r"

fun add_collection_artifact_targets ::
    "'fs os \<Rightarrow> registry \<Rightarrow> (string \<rightharpoonup> string) \<Rightarrow> declared list \<Rightarrow> coll_context \<Rightarrow> error + coll_context" where
  "add_collection_artifact_targets os r ids [] c = Inr c"
| "add_collection_artifact_targets os r ids (d # ds) c =
     (if decl_type d \<noteq> ArtDirectory then add_collection_artifact_targets os r ids ds c
      else (case record_of r (case ids (decl_name d) of None \<Rightarrow> [] | Some i \<Rightarrow> i) of
              Inl e \<Rightarrow> Inl e
            | Inr record \<Rightarrow>
                (case add_artifact_target os (rec_path record) True c of
                   Inl e \<Rightarrow> Inl e
                 | Inr d' \<Rightarrow> add_collection_artifact_targets os r ids ds d')))"

text \<open>The steps of \<^verbatim>\<open>newResearchBlock\<close> that make the context, up to \<^verbatim>\<open>BeginWorkflow\<close>.\<close>

definition workflow_context ::
    "'fs os \<Rightarrow> 'fs \<Rightarrow> (registry \<Rightarrow> string) \<Rightarrow> workflow_plan \<Rightarrow> int \<Rightarrow> int option \<Rightarrow> registry \<Rightarrow> error + coll_context" where
  "workflow_context os fs uuid plan batch rounds r =
     (case declare_research_artifacts os fs uuid (wp_workspace plan) (wp_artifacts plan) r of
        (Inl e, r1) \<Rightarrow> Inl e
      | (Inr (ids, current), r1) \<Rightarrow>
          (case add_collection_artifact_targets os r1 ids (wp_artifacts plan)
                  (new_context (wp_workspace plan) batch rounds (Some r1)) of
             Inl e \<Rightarrow> Inl e
           | Inr c \<Rightarrow> begin_workflow c))"

definition workflow_host_at :: "'fs \<Rightarrow> coll_context \<Rightarrow> 'fs workflow_host" where
  "workflow_host_at fs c =
     \<lparr>wh_system = (fs, [], c), wh_checkpoints = new_recorder, wh_verdicts = new_recorder,
      wh_terminal = new_terminal_recorder, wh_final = new_final_recorder, wh_events = []\<rparr>"

section \<open>The contract holds\<close>

text \<open>
  What is assumed of the environment: the Collection and Collection QC sessions reach the host
  through their tools only, outcomes can be encoded, and the artifact validator returns.
\<close>

definition env_ok :: "'fs workflow_env \<Rightarrow> bool" where
  "env_ok env \<longleftrightarrow>
     (\<forall>p s e t. we_collection env p s = (e, t) \<longrightarrow> (collection_turn (os.truncate (we_os env)))\<^sup>*\<^sup>* s t) \<and>
     (\<forall>p s e t. we_collection_qc env p s = (e, t) \<longrightarrow> (coll_qc_turn (os.truncate (we_os env)))\<^sup>*\<^sup>* s t) \<and>
     (\<forall>outs. \<exists>bytes. we_encode_outcomes env outs = Inr bytes) \<and>
     (\<forall>fs ws as. \<exists>r. validate_artifacts (we_os env) fs ws as = Some r)"

lemma env_okD:
  assumes "env_ok env"
  shows "\<And>p s e t. we_collection env p s = (e, t) \<Longrightarrow> (collection_turn (os.truncate (we_os env)))\<^sup>*\<^sup>* s t"
    and "\<And>p s e t. we_collection_qc env p s = (e, t) \<Longrightarrow> (coll_qc_turn (os.truncate (we_os env)))\<^sup>*\<^sup>* s t"
    and "\<forall>outs. \<exists>bytes. we_encode_outcomes env outs = Inr bytes"
    and "\<And>fs ws as. \<exists>r. validate_artifacts (we_os env) fs ws as = Some r"
  using assms unfolding env_ok_def by blast+

definition needs_closed :: "coll_context \<Rightarrow> bool" where
  "needs_closed c \<longleftrightarrow> cc_needs c \<noteq> [] \<and> active_need_states (cc_need_states c) = []"

text \<open>Between the phases: the Collection round is open, or every need is closed for good.\<close>

definition workflow_good :: "'fs workflow_env \<Rightarrow> 'fs workflow_host \<Rightarrow> bool" where
  "workflow_good env h \<longleftrightarrow>
     env_ok env \<and> coll_system_inv (wh_system h) \<and> rec_outputs (wh_checkpoints h) = [] \<and> rec_outputs (wh_verdicts h) = [] \<and>
     (if wf_phase (cc_state (wh_context h)) = PhaseCollection then \<not> cc_checkpoint_accepted (wh_context h)
      else needs_closed (wh_context h))"

definition workflow_handed :: "'fs workflow_env \<Rightarrow> checkpoint_output \<Rightarrow> 'fs workflow_host \<Rightarrow> bool" where
  "workflow_handed env out h \<longleftrightarrow>
     env_ok env \<and> coll_system_inv (wh_system h) \<and> rec_outputs (wh_checkpoints h) = [] \<and> rec_outputs (wh_verdicts h) = [] \<and>
     submitted (wh_context h) out"

definition workflow_made :: "'fs workflow_env \<Rightarrow> research_config \<Rightarrow> research_result \<Rightarrow> bool" where
  "workflow_made env config candidate \<longleftrightarrow>
     (\<exists>s t. turn_of (we_research env) s \<and> candidate_of (we_os env) config s candidate t)"

lemma candidate_of_prompt [simp]: "candidate_of os (config\<lparr>rs_prompt := p\<rparr>) s out t = candidate_of os config s out t"
  by (simp add: candidate_of_def has_terminal_def)

lemma advance_fields:
  assumes "wf_advance st e = Inr st'"
  shows "wf_begun st' = wf_begun st"
  using assms by (auto simp: wf_advance_def split: if_splits phase.splits event.splits)

lemma workflow_collects:
  assumes "workflow_good env h" and "wf_begun (cc_state (wh_context h))" and "wf_phase (cc_state (wh_context h)) = PhaseCollection"
    and "cn_collect (workflow_runner env) config h = (Inr out, h')"
  shows "same_progress (cc_state (wh_context h)) (cc_state (wh_context h')) \<and> workflow_handed env out h'"
proof -
  obtain r w where run: "collection_run (we_collection env) config (wh_checkpoints h, wh_system h) = (Inr out, (r, w))"
    and h': "h' = h\<lparr>wh_checkpoints := r, wh_system := w\<rparr>"
    using assms(4) by (auto simp: workflow_runner_def split: prod.splits)
  have env: "env_ok env" using assms(1) by (simp add: workflow_good_def)
  have start: "round_inv (wh_checkpoints h, wh_system h)"
    using assms(1,3) by (auto simp: workflow_good_def round_inv_def wh_context_def split: prod.splits)
  from collection_run_agrees [OF env_okD(1) [OF env] start run] assms(1,2)
  show ?thesis
    by (auto simp: workflow_good_def workflow_handed_def same_progress_def same_stage_def wh_context_def h')
qed

lemma workflow_reviews:
  assumes "workflow_handed env out h" and "wf_begun (cc_state (wh_context h))"
    and "wf_phase (cc_state (wh_context h)) = PhaseCollectionQC" and "carries config out"
    and "cn_review (workflow_runner env) config h = (Inr result, h')"
  shows "workflow_good env h' \<and> qc_progress (cc_state (wh_context h)) (cc_state (wh_context h'))"
proof -
  obtain r w where run: "coll_qc_review (we_criteria env) (we_encode_context env) (we_encode_outcomes env)
      (we_collection_qc env) config (wh_verdicts h, wh_system h) = (Inr result, (r, w))"
    and h': "h' = h\<lparr>wh_verdicts := r, wh_system := w\<rparr>"
    using assms(5) by (auto simp: workflow_runner_def split: prod.splits)
  obtain fs ls c where sys: "wh_system h = (fs, ls, c)" by (metis prod_cases3)
  obtain fs' ls' d where w: "w = (fs', ls', d)" by (metis prod_cases3)
  have env: "env_ok env" and inv: "coll_system_inv (fs, ls, c)" and sub: "submitted c out" and "rec_outputs (wh_verdicts h) = []"
    using assms(1) by (simp_all add: workflow_handed_def sys wh_context_def)
  have phase: "wf_phase (cc_state c) = PhaseCollectionQC" using assms(3) by (simp add: sys wh_context_def)
  have conf: "cq_dispositions config = co_dispositions out" "cq_artifacts config = co_artifacts out"
    using assms(4) by (simp_all add: carries_def)
  have "coll_system_inv (fs', ls', d) \<and> (case Inr result :: error + coll_qc_result of Inl e \<Rightarrow> same_round c d
      | Inr result \<Rightarrow> round_decided c result d \<and> rec_outputs r = [] \<and> set (co_artifacts out) \<subseteq> cc_reviewed d)"
    by (rule coll_qc_review_decides [OF _ env_okD(3) [OF env] inv sub phase conf \<open>rec_outputs (wh_verdicts h) = []\<close> run [unfolded sys w]])
      (rule env_okD(2) [OF env])
  then have sys': "coll_system_inv (fs', ls', d)" and decided: "round_decided c result d" and "rec_outputs r = []"
    by auto
  from sys' have dinv: "coll_inv d" by (simp add: coll_system_inv_def)
  have "length (cc_need_states d) = length (cc_need_states c)"
    using decided by (auto simp: round_decided_def dest: list_all2_lengthD)
  moreover have "cc_need_states c \<noteq> []" using sub inv
    by (auto simp: submitted_def needs_frozen_def coll_system_inv_def coll_inv_def plan_inv_def)
  ultimately have "cc_needs d \<noteq> []" using coll_invD(5) [OF dinv] by (auto simp: plan_inv_def)
  moreover have "wf_begun (cc_state d)"
  proof (rule ccontr)
    assume "\<not> wf_begun (cc_state d)"
    then have "wf_phase (cc_state d) = PhaseNone" using coll_invD(1) [OF dinv] by (simp add: wf_inv_def)
    with decided show False by (auto simp: round_decided_def split: if_splits)
  qed
  ultimately show ?thesis
    using decided sys' \<open>rec_outputs r = []\<close> assms(1) env
    by (auto simp: workflow_good_def workflow_handed_def qc_progress_def round_decided_def needs_closed_def
        wh_context_def h' sys w split: if_splits)
qed

lemma put_system:
  "wh_system (cn_put (workflow_runner env) st h) =
     (fst (wh_system h), fst (snd (wh_system h)), (wh_context h)\<lparr>cc_state := st\<rparr>)"
  "wh_checkpoints (cn_put (workflow_runner env) st h) = wh_checkpoints h"
  "wh_verdicts (cn_put (workflow_runner env) st h) = wh_verdicts h"
  by (cases "wh_system h"; simp add: workflow_runner_def wh_context_def)+

lemma put_context [simp]: "wh_context (cn_put (workflow_runner env) st h) = (wh_context h)\<lparr>cc_state := st\<rparr>"
  by (simp add: wh_context_def [of "cn_put _ _ _"] put_system)

lemma get_state: "cn_get (workflow_runner env) h = cc_state (wh_context h)"
  by (simp add: workflow_runner_def)

lemma advanced_system:
  assumes "coll_system_inv (wh_system h)" and "wf_advance (cc_state (wh_context h)) e = Inr st"
  shows "coll_system_inv (wh_system (cn_put (workflow_runner env) st h))"
  using assms advance_phase_inv [of "wh_context h" e st]
  by (cases "wh_system h") (simp add: put_system coll_system_inv_def wh_context_def)

lemma workflow_researches:
  assumes "workflow_good env h" and "wf_phase (cc_state (wh_context h)) = PhaseResearch"
  shows "\<exists>r h'. cn_research (workflow_runner env) (base\<lparr>rs_prompt := prompt\<rparr>) h = Some (r, h') \<and>
    (case r of Inl e \<Rightarrow> True
     | Inr candidate \<Rightarrow> workflow_good env h' \<and> wh_context h' = wh_context h \<and> workflow_made env base candidate)"
proof -
  obtain fs ls c where sys: "wh_system h = (fs, ls, c)" by (metis prod_cases3)
  have env: "env_ok env" using assms(1) by (simp add: workflow_good_def)
  define config where "config = phased_research c (base\<lparr>rs_prompt := prompt\<rparr>)"
  have "\<exists>res t. research_run (we_os env) (we_research env) config (wh_terminal h, fs) = Some (res, t)"
    by (rule research_run_total) (rule env_okD(4) [OF env])
  then obtain res r fs' where run: "research_run (we_os env) (we_research env) config (wh_terminal h, fs) = Some (res, (r, fs'))"
    by (metis surj_pair)
  define h' where "h' = h\<lparr>wh_terminal := r, wh_system := (fs', ls, c)\<rparr>"
  have "cn_research (workflow_runner env) (base\<lparr>rs_prompt := prompt\<rparr>) h = Some (res, h')"
    using run by (simp add: workflow_runner_def sys config_def h'_def)
  moreover have "workflow_made env base candidate" if "res = Inr candidate" for candidate
  proof -
    have "\<exists>s'. turn_of (we_research env) s' \<and> candidate_of (we_os env) config s' candidate (r, fs')"
      using run research_attempts_candidate [of "we_os env" "we_research env" config 0 "rs_prompt config"] that
      by (simp add: research_run_def split: if_splits option.splits)
    then show ?thesis
      unfolding config_def phased_research_def candidate_of_prompt workflow_made_def by blast
  qed
  moreover have same: "wh_context h' = wh_context h" by (simp add: h'_def sys wh_context_def)
  moreover have "workflow_good env h'"
    using assms(1) unfolding workflow_good_def same by (simp add: h'_def sys coll_system_inv_def)
  ultimately show ?thesis by (cases res) auto
qed

lemma workflow_finals:
  assumes "cn_final (workflow_runner env) = Some review" and "workflow_good env h"
    and "review config candidate h = (Inr verdict, h')"
  shows "workflow_good env h' \<and> wh_context h' = wh_context h"
  using assms by (auto simp: workflow_runner_def workflow_good_def wh_context_def coll_system_inv_def split: prod.splits)

interpretation workflow: phase_contract "workflow_runner env" "workflow_good env" "workflow_handed env"
  "workflow_made env base" base for env base
proof unfold_locales
  fix st h ev out ck r t
  show "cn_get (workflow_runner env) (cn_put (workflow_runner env) st h) = st"
    by (simp add: get_state)
  show "cn_get (workflow_runner env) (cn_emit (workflow_runner env) ev h) = cn_get (workflow_runner env) h"
    "workflow_good env (cn_emit (workflow_runner env) ev h) = workflow_good env h"
    "workflow_handed env out (cn_emit (workflow_runner env) ev h) = workflow_handed env out h"
    by (simp_all add: workflow_runner_def workflow_good_def workflow_handed_def wh_context_def)
  assume "cn_commit (workflow_runner env) ck h = (r, t)"
  then show "cn_get (workflow_runner env) t = cn_get (workflow_runner env) h \<and>
      (workflow_good env h \<longrightarrow> workflow_good env t) \<and> (\<forall>out. workflow_handed env out h \<longrightarrow> workflow_handed env out t)"
    by (simp add: workflow_runner_def)
next
  fix h cc out t
  assume "workflow_good env h" "wf_begun (cn_get (workflow_runner env) h)"
    "wf_phase (cn_get (workflow_runner env) h) = PhaseCollection" "cn_collect (workflow_runner env) cc h = (Inr out, t)"
  then show "same_progress (cn_get (workflow_runner env) h) (cn_get (workflow_runner env) t) \<and> workflow_handed env out t"
    unfolding get_state by (rule workflow_collects)
next
  fix out h st
  assume handed: "workflow_handed env out h" and adv: "wf_advance (cn_get (workflow_runner env) h) EventCollectionCheckpoint = Inr st"
  have "wf_begun st" using handed advance_fields [OF adv] by (simp add: workflow_handed_def submitted_def get_state)
  then show "workflow_handed env out (cn_put (workflow_runner env) st h)"
    using handed advanced_system [OF _ adv [unfolded get_state]]
    by (auto simp: workflow_handed_def put_system(2,3) submitted_def needs_frozen_def active_needs_of_def)
next
  fix out h qc result t
  assume "workflow_handed env out h" "wf_begun (cn_get (workflow_runner env) h)"
    "wf_phase (cn_get (workflow_runner env) h) = PhaseCollectionQC" "carries qc out"
    "cn_review (workflow_runner env) qc h = (Inr result, t)"
  then show "workflow_good env t \<and> qc_progress (cn_get (workflow_runner env) h) (cn_get (workflow_runner env) t)"
    unfolding get_state by (rule workflow_reviews)
next
  fix h prompt
  assume "workflow_good env h" "wf_begun (cn_get (workflow_runner env) h)" "wf_phase (cn_get (workflow_runner env) h) = PhaseResearch"
  then show "\<exists>r t. cn_research (workflow_runner env) (base\<lparr>rs_prompt := prompt\<rparr>) h = Some (r, t) \<and>
      (case r of Inl e \<Rightarrow> True
       | Inr candidate \<Rightarrow> workflow_good env t \<and> same_progress (cn_get (workflow_runner env) h) (cn_get (workflow_runner env) t) \<and>
           workflow_made env base candidate)"
    unfolding get_state using workflow_researches [where base = base and prompt = prompt] by (fastforce simp: same_progress_def split: sum.splits)
next
  fix review h fc candidate verdict t
  assume "cn_final (workflow_runner env) = Some review" "workflow_good env h" "review fc candidate h = (Inr verdict, t)"
  from workflow_finals [OF this]
  show "workflow_good env t \<and> same_progress (cn_get (workflow_runner env) h) (cn_get (workflow_runner env) t)"
    by (simp add: get_state same_progress_def)
next
  fix h st e
  assume "workflow_good env h"
    and "wf_phase (cn_get (workflow_runner env) h) = PhaseResearch \<or> wf_phase (cn_get (workflow_runner env) h) = PhaseFinalQC"
    and "wf_phase st = PhaseFinalQC \<or> wf_phase st = PhaseComplete"
    and "wf_advance (cn_get (workflow_runner env) h) e = Inr st"
  then show "workflow_good env (cn_put (workflow_runner env) st h)"
    using advanced_system [of h e st env]
    by (auto simp: workflow_good_def get_state put_system(2,3) needs_closed_def)
qed

section \<open>The start\<close>

lemma declare_ready:
  assumes "reg_ready r" and "fresh_uuid uuid r" and "declare_artifact os fs uuid ws d r = (res, r')"
  shows "reg_ready r'"
proof -
  have "maps_made r'" using assms(1)
    by (cases rule: declare_cases [OF assms(3)]) (auto simp: reg_ready_def maps_made_def put_entry_def)
  with assms show ?thesis by (auto simp: reg_ready_def fresh_uuid_def intro: declare_inv)
qed

lemma declare_research_ready:
  assumes "\<And>r. reg_ready r \<Longrightarrow> fresh_uuid (uuid r) r"
  shows "reg_ready r \<Longrightarrow> declare_research_artifacts os fs uuid ws ds r = (res, r') \<Longrightarrow> reg_ready r'"
proof -
  have "reg_ready r'" if "reg_ready r" "declare_each os fs uuid ws ds ids current r = (res, r')" for ids current r
    using that
  proof (induction ds arbitrary: ids current r)
    case (Cons d ds)
    obtain rec r1 where decl: "declare_artifact os fs (uuid r) ws d r = (rec, r1)"
      by (cases "declare_artifact os fs (uuid r) ws d r")
    have "reg_ready r1" using declare_ready [OF Cons.prems(1) assms [OF Cons.prems(1)] decl] .
    with Cons decl show ?case by (auto split: sum.splits)
  qed simp
  then show "reg_ready r \<Longrightarrow> declare_research_artifacts os fs uuid ws ds r = (res, r') \<Longrightarrow> reg_ready r'"
    by (auto simp: declare_research_artifacts_def)
qed

lemma add_targets_keeps:
  "add_collection_artifact_targets os r ids ds c = Inr d \<Longrightarrow> d = c\<lparr>cc_targets := cc_targets d\<rparr>"
proof (induction ds arbitrary: c)
  case (Cons a ds)
  from Cons.prems show ?case
    by (auto simp: add_artifact_target_def split: if_splits sum.splits dest!: Cons.IH)
qed simp

lemma workflow_context_starts:
  assumes "reg_ready r" and "\<And>r. reg_ready r \<Longrightarrow> fresh_uuid (uuid r) r" and "workflow_context os fs uuid plan batch rounds r = Inr c"
  shows "coll_system_inv (fs, [], c) \<and> wf_begun (cc_state c) \<and> wf_phase (cc_state c) = PhaseCollection \<and>
    wf_rounds (cc_state c) = 1 \<and> \<not> cc_checkpoint_accepted c"
proof -
  obtain ids current r1 d where decl: "declare_research_artifacts os fs uuid (wp_workspace plan) (wp_artifacts plan) r
      = (Inr (ids, current), r1)"
    and targets: "add_collection_artifact_targets os r1 ids (wp_artifacts plan)
      (new_context (wp_workspace plan) batch rounds (Some r1)) = Inr d"
    and begun: "begin_workflow d = Inr c"
    using assms(3) by (auto simp: workflow_context_def split: prod.splits sum.splits)
  define c0 where "c0 = new_context (wp_workspace plan) batch rounds (Some r1)"
  have ready: "reg_ready r1" using declare_research_ready [OF assms(2,1) decl] .
  have inv0: "coll_inv c0" unfolding c0_def using ready by (intro coll_inv_new) simp
  have d: "d = c0\<lparr>cc_targets := cc_targets d\<rparr>" using add_targets_keeps [OF targets] by (simp add: c0_def)
  have inv: "coll_inv d" by (subst d) (rule coll_inv_cong [OF inv0]; simp)
  have fresh: "\<not> wf_begun (cc_state c0)" "\<not> cc_checkpoint_accepted c0" "cc_active_calls c0 = 0"
    by (simp_all add: c0_def new_context_def wf_new_def Let_def)
  then have fresh': "\<not> wf_begun (cc_state d)" "\<not> cc_checkpoint_accepted d" "cc_active_calls d = 0"
    by (subst d, simp)+
  obtain s where s: "c = d\<lparr>cc_state := s\<rparr>" "wf_begin (cc_state d) = Inr s"
    using begun by (rule begin_workflow_cases)
  have "wf_begun s" "wf_phase s = PhaseCollection" "wf_rounds s = 1"
    using s(2) fresh'(1) by (auto simp: wf_begin_def split: if_splits)
  with s begin_workflow_inv [OF inv begun] fresh' show ?thesis
    by (simp add: coll_system_inv_def open_leases_def)
qed

lemma workflow_loop_starts:
  assumes "env_ok env" and "coll_system_inv (fs, [], c)" and "wf_begun (cc_state c)"
    and "wf_phase (cc_state c) = PhaseCollection" and "\<not> cc_checkpoint_accepted c"
    and "coord_validate (workflow_runner env) (workflow_config plan) = None"
    and "coord_start (workflow_runner env) (workflow_config plan) (workflow_host_at fs c) = (Inr l, t)"
  shows "workflow.loop_inv env (workflow_research_config plan) l t"
proof -
  let ?h = "workflow_host_at fs c"
  have ctx: "wh_context ?h = c" by (simp add: wh_context_def workflow_host_at_def)
  have put: "cn_put (workflow_runner env) (cc_state c) ?h = ?h"
    by (simp add: workflow_runner_def workflow_host_at_def)
  have "wf_begin (cc_state c) = Inr (cc_state c)"
    using assms(3,7) by (auto simp: coord_start_def workflow_config_def coord_begin_def get_state ctx wf_begin_def split: if_splits)
  then have "l = \<lparr>cl_config = workflow_config plan, cl_state = [], cl_candidate = no_candidate, cl_final_rounds = 0\<rparr>" "t = ?h"
    using assms(7) by (auto simp: coord_start_def workflow_config_def coord_begin_def get_state ctx put)
  moreover have "cf_final_enabled (workflow_config plan) \<longrightarrow> cn_final (workflow_runner env) \<noteq> None"
    using assms(6) by (auto simp: coord_validate_def split: if_splits)
  moreover have "workflow_good env ?h"
    using assms(1-5) by (simp add: workflow_good_def ctx) (simp add: workflow_host_at_def new_recorder_def)
  ultimately show ?thesis
    using assms(3,4) by (simp add: workflow.loop_inv_def get_state ctx) (simp add: workflow_config_def)
qed

lemma workflow_completes:
  assumes "env_ok env" and "reg_ready r" and "\<And>r. reg_ready r \<Longrightarrow> fresh_uuid (uuid r) r"
    and "workflow_context (os.truncate (we_os env)) fs uuid plan batch rounds r = Inr c"
  shows "\<exists>res t. coord_run (workflow_runner env) (workflow_config plan) (workflow_host_at fs c) = Some (res, t) \<and>
    (case res of
       Inl e \<Rightarrow> True
     | Inr candidate \<Rightarrow> wf_begun (cc_state (wh_context t)) \<and> wf_phase (cc_state (wh_context t)) = PhaseComplete \<and>
         workflow_good env t \<and> workflow_made env (workflow_research_config plan) candidate)"
proof -
  note c = workflow_context_starts [OF assms(2-4)]
  have "\<exists>res t. coord_run (workflow_runner env) (workflow_config plan) (workflow_host_at fs c) = Some (res, t) \<and>
    (case res of
       Inl e \<Rightarrow> True
     | Inr candidate \<Rightarrow> wf_begun (cn_get (workflow_runner env) t) \<and> wf_phase (cn_get (workflow_runner env) t) = PhaseComplete \<and>
         workflow_good env t \<and> workflow_made env (workflow_research_config plan) candidate)"
    by (rule workflow.run_ends) (rule workflow_loop_starts [OF assms(1)]; use c in blast)
  then show ?thesis by (simp only: get_state)
qed

section \<open>The bound on Final QC rounds\<close>

lemma completion_passes:
  "completion_attempts encode_issues session config attempts prompt s = (Inr v, t) \<Longrightarrow> fv_decision v = DecisionPass"
proof (induction "nat (fq_max_attempts config - attempts)" arbitrary: attempts prompt s rule: less_induct)
  case less
  then show ?case
    by (subst (asm) (2) completion_attempts.simps)
      (auto split: prod.splits option.splits if_splits elim!: less.hyps [rotated])
qed

lemma workflow_only_passes: "only_passes (workflow_runner env) (workflow_final_config plan)"
proof -
  have named: "\<not> blank ''r42_qc_complete''"
    by (rule not_blank_solid) (simp_all add: space_heads_def space_lasts_def)
  have unnamed: "blank []" by (simp add: blank_def)
  have "fv_decision v = DecisionPass"
    if "final_review enc encl session (workflow_final_config plan) candidate s = (Inr v, t)" for enc encl session candidate s v t
    using that named unnamed
    by (cases "wp_final plan")
      (auto simp: final_review_def workflow_final_config_def final_review_completion_def
        split: if_splits sum.splits dest: completion_passes)
  then show ?thesis
    by (auto simp: only_passes_def workflow_runner_def split: prod.splits)
qed

lemma workflow_config_rebound:
  assumes "wp_final plan = Some final"
  shows "workflow_config (plan\<lparr>wp_final := Some (final\<lparr>fp_max_rounds := n\<rparr>)\<rparr>) = (workflow_config plan)\<lparr>cf_max_final := n\<rparr>"
  using assms by (simp add: workflow_config_def workflow_final_config_def workflow_research_config_def)

lemma coord_run_rebound:
  assumes "only_passes runner (cf_final config)" and "cf_resume config = None" and "0 < cf_max_final config" and "0 < n"
  shows "coord_run runner (config\<lparr>cf_max_final := n\<rparr>) s = coord_run runner config s"
proof -
  have "coord_validate runner (config\<lparr>cf_max_final := n\<rparr>) = coord_validate runner config"
    using assms(3,4) by (simp add: coord_validate_def)
  moreover obtain e s1 where begun: "coord_begin runner s = (e, s1)" by (cases "coord_begin runner s")
  let ?l = "\<lparr>cl_config = config, cl_state = [], cl_candidate = no_candidate, cl_final_rounds = 0\<rparr>"
  have "coord_turns runner (with_max_final n ?l) s1 = coord_turns runner ?l s1"
    by (rule turns_rebound) (simp add: assms(1))
  ultimately show ?thesis
    using begun assms(2) by (auto simp: coord_run_def coord_start_def with_max_final_def split: option.splits)
qed

section \<open>Properties\<close>

text \<open>
  C15: a workflow ends, and success means the whole job was done. Started the way
  \<^verbatim>\<open>newResearchBlock\<close> starts it, for any sessions that reach the Collection context through their
  tools only, \<open>Run\<close> returns. If it returns a candidate, the workflow is in the complete phase,
  the search plan was frozen and every information need of it has its outcome, the books of the
  Collection context balance, and the candidate is one that Research made for the configured
  artifacts: they were valid when Research handed it on.
\<close>

theorem workflow_run_completes:
  assumes "env_ok env" and "reg_ready r" and "\<And>r. reg_ready r \<Longrightarrow> fresh_uuid (uuid r) r"
    and "workflow_context (os.truncate (we_os env)) fs uuid plan batch rounds r = Inr c"
  shows "\<exists>res t. coord_run (workflow_runner env) (workflow_config plan) (workflow_host_at fs c) = Some (res, t) \<and>
    (case res of
       Inl e \<Rightarrow> True
     | Inr candidate \<Rightarrow> wf_current_phase (cc_state (wh_context t)) = PhaseComplete \<and>
         needs_closed (wh_context t) \<and> coll_system_inv (wh_system t) \<and>
         (\<exists>s s'. turn_of (we_research env) s \<and> candidate_of (we_os env) (workflow_research_config plan) s candidate s'))"
proof -
  obtain res t where run: "coord_run (workflow_runner env) (workflow_config plan) (workflow_host_at fs c) = Some (res, t)"
    and out: "case res of
       Inl e \<Rightarrow> True
     | Inr candidate \<Rightarrow> wf_begun (cc_state (wh_context t)) \<and> wf_phase (cc_state (wh_context t)) = PhaseComplete \<and>
         workflow_good env t \<and> workflow_made env (workflow_research_config plan) candidate"
    using workflow_completes [OF assms] by blast
  show ?thesis
    by (rule exI, rule exI, rule conjI, rule run)
      (use out in \<open>auto simp: workflow_good_def workflow_made_def wf_current_phase_def split: sum.splits\<close>)
qed

text \<open>
  For the witness: a Collection session that freezes a plan and reports that it found nothing,
  a Collection QC session that asks for more, which the budget of one round does not allow, and
  a Research session that writes the declared report.
\<close>

definition sample_uuid :: "registry \<Rightarrow> string" where
  "sample_uuid r = concat (reg_order r)"

definition stalled_dispositions :: "coll_context \<Rightarrow> need_disposition list" where
  "stalled_dispositions c = map (\<lambda>n. \<lparr>nd_need = need_id n, nd_disposition = DispositionStalled\<rparr>) (active_needs_of c)"

definition sample_collector :: "(checkpoint_output recorder \<times> mem_fs coll_system) session" where
  "sample_collector prompt s =
     (case s of (r, (fs, ls, c)) \<Rightarrow>
        (let c1 = snd (set_information_needs sample_plan c)
         in case checkpoint_handler \<lparr>ca_empty_reason = ''nothing found'', ca_dispositions = stalled_dispositions c1\<rparr> r c1 of
              (res, r', d) \<Rightarrow> (None, (r', (fs, ls, d)))))"

definition sample_doubter :: "(qc_verdict recorder \<times> mem_fs coll_system) session" where
  "sample_doubter prompt s =
     (case s of (r, (fs, ls, c)) \<Rightarrow>
        (case verdict_handler
             \<lparr>qv_assessments = map (\<lambda>st. \<lparr>qa_need = need_id (ns_need st), qa_status = AssessmentNeedsMore,
                 qa_unsatisfied = map sc_id (need_conditions (ns_need st)), qa_progress = ProgressNone\<rparr>)
               (active_need_states (cc_need_states c))\<rparr> c r of
           (res, r') \<Rightarrow> (None, (r', (fs, ls, c)))))"

definition sample_writer :: "(terminal_recorder \<times> mem_fs) session" where
  "sample_writer prompt s = (case s of (r, fs) \<Rightarrow> (None, (r, (''/w/out.md'', ''text'') # fs)))"

definition sample_env :: "mem_fs workflow_env" where
  "sample_env =
     \<lparr>we_os = mem_dir_os, we_collection = sample_collector, we_collection_qc = sample_doubter,
      we_research = sample_writer, we_final = None, we_criteria = Map.empty,
      we_encode_context = (\<lambda>doc. Inr ''context''), we_encode_outcomes = (\<lambda>outs. Inr ''[]''),
      we_encode_round = (\<lambda>active outcomes. Inr ''round''), we_encode_final = (\<lambda>doc. Inr ''final''),
      we_encode_ledger = (\<lambda>is. ''[]''), we_json_valid = (\<lambda>s. True)\<rparr>"

definition sample_workflow_plan :: workflow_plan where
  "sample_workflow_plan =
     \<lparr>wp_system_prompt = ''be brief'', wp_prompt = None, wp_max_attempts = 2, wp_collection_tools = [],
      wp_criteria = None, wp_terminate = None, wp_workspace = ''/w'', wp_artifacts = [sample_artifact], wp_final = None\<rparr>"

lemma sample_uuid_fresh: "reg_ready r \<Longrightarrow> fresh_uuid (sample_uuid r) r"
proof -
  assume ready: "reg_ready r"
  have "length i \<le> length (concat is)" if "i \<in> set is" for i and "is" :: "string list"
    using that by (induction "is") auto
  then have "''artifact-'' @ sample_uuid r \<notin> set (reg_order r)" by (fastforce simp: sample_uuid_def)
  with ready show ?thesis by (auto simp: fresh_uuid_def reg_ready_def reg_inv_def)
qed

lemma sample_env_ok: "env_ok sample_env"
proof -
  have "(collection_turn os)\<^sup>*\<^sup>* s t" if turn: "sample_collector p s = (e, t)" for os p s e t
  proof -
    obtain r fs ls c where s: "s = (r, (fs, ls, c))" by (metis prod_cases3)
    have "collection_turn os (r, (fs, ls, c)) (r, (fs, ls, snd (set_information_needs sample_plan c)))"
      by (rule tool_call [where op = "OpSetNeeds sample_plan"]) simp_all
    moreover have "collection_turn os (r, (fs, ls, snd (set_information_needs sample_plan c))) t"
      using turn by (auto simp: s sample_collector_def Let_def split: prod.splits intro: checkpoint_call)
    ultimately show ?thesis unfolding s by (rule converse_rtranclp_into_rtranclp [OF _ r_into_rtranclp])
  qed
  moreover have "(coll_qc_turn os)\<^sup>*\<^sup>* s t" if "sample_doubter p s = (e, t)" for os p s e t
    using that by (auto simp: sample_doubter_def split: prod.splits intro: qc_verdict_call)
  moreover have "\<exists>r. validate_artifacts mem_dir_os fs ws as = Some r" for fs ws as
    unfolding validate_artifacts_def
    by (auto intro!: validate_each_returns elim: mem_dir_cwd mem_dir_finite)
  ultimately show ?thesis by (simp add: env_ok_def sample_env_def)
qed

definition sample_workflow_run :: "((error + research_result) \<times> mem_fs workflow_host) option" where
  "sample_workflow_run =
     (case workflow_context (os.truncate mem_dir_os) [] sample_uuid sample_workflow_plan 0 (Some 1) new_registry of
        Inl e \<Rightarrow> None
      | Inr c \<Rightarrow> coord_run (workflow_runner sample_env) (workflow_config sample_workflow_plan) (workflow_host_at [] c))"

lemma sample_workflow_succeeds:
  "case sample_workflow_run of
     Some (Inr out, t) \<Rightarrow> rr_artifacts out \<noteq> None \<and>
       map ce_phase (wh_events t) = [PhaseCollection, PhaseCollectionQC, PhaseCollectionQC, PhaseResearch, PhaseComplete]
   | _ \<Rightarrow> False"
  by code_simp

theorem workflow_run_completes_witness:
  "\<exists>out t. sample_workflow_run = Some (Inr out, t) \<and> needs_closed (wh_context t) \<and>
     wf_current_phase (cc_state (wh_context t)) = PhaseComplete"
proof -
  obtain out t where run: "sample_workflow_run = Some (Inr out, t)"
    using sample_workflow_succeeds by (auto split: option.splits prod.splits sum.splits)
  then obtain c where c: "workflow_context (os.truncate mem_dir_os) [] sample_uuid sample_workflow_plan 0 (Some 1) new_registry = Inr c"
    by (auto simp: sample_workflow_run_def split: sum.splits)
  have "we_os sample_env = mem_dir_os" by (simp add: sample_env_def)
  with workflow_run_completes [OF sample_env_ok reg_ready_new sample_uuid_fresh, of "[]" sample_workflow_plan 0 "Some 1" c] c run
  show ?thesis by (auto simp: sample_workflow_run_def)
qed

text \<open>
  The rounds of Final QC are not counted in a full workflow. Its Final QC is the completion
  protocol, whose verdict is to pass or an error, and its \<open>MaxRounds\<close> is left at 0; so the
  \<open>max_rounds\<close> of the \<^verbatim>\<open>qc\<close> block, which becomes \<open>MaxFinalQCRounds\<close>, has no effect on any run as
  long as it is positive.
\<close>

theorem final_qc_rounds_not_counted:
  assumes "wp_final plan = Some final" and "0 < fp_max_rounds final" and "0 < n"
  shows "coord_run (workflow_runner env) (workflow_config (plan\<lparr>wp_final := Some (final\<lparr>fp_max_rounds := n\<rparr>)\<rparr>)) h
    = coord_run (workflow_runner env) (workflow_config plan) h"
proof -
  have "only_passes (workflow_runner env) (cf_final (workflow_config plan))"
    using workflow_only_passes by (simp add: workflow_config_def)
  moreover have "0 < cf_max_final (workflow_config plan)" "cf_resume (workflow_config plan) = None"
    using assms(1,2) by (simp_all add: workflow_config_def)
  ultimately show ?thesis
    using assms(3) by (simp add: workflow_config_rebound [OF assms(1)] coord_run_rebound)
qed

theorem final_qc_rounds_not_counted_witness:
  "coord_run (workflow_runner sample_env)
     (workflow_config (sample_workflow_plan\<lparr>wp_final := Some \<lparr>fp_criteria = None, fp_max_rounds = 5\<rparr>\<rparr>)) (workflow_host_at [] sample_collected)
   = coord_run (workflow_runner sample_env)
     (workflow_config (sample_workflow_plan\<lparr>wp_final := Some \<lparr>fp_criteria = None, fp_max_rounds = 1\<rparr>\<rparr>)) (workflow_host_at [] sample_collected)"
  using final_qc_rounds_not_counted [of "sample_workflow_plan\<lparr>wp_final := Some \<lparr>fp_criteria = None, fp_max_rounds = 1\<rparr>\<rparr>"
      "\<lparr>fp_criteria = None, fp_max_rounds = 1\<rparr>" 5 sample_env "workflow_host_at [] sample_collected"]
  by simp

end
