(* ===== verification/Tool_Quota.thy ===== *)
theory Tool_Quota
  imports Research_Runtime Collection_Runner
begin

text \<open>
  Call quotas of the tools of a session, and the handlers of typed tools: \<^verbatim>\<open>toolCallQuota\<close>,
  \<^verbatim>\<open>buildExternalTool\<close>, \<^verbatim>\<open>buildStarlarkTool\<close> of \<^verbatim>\<open>internal/cli/runtime.go\<close> and
  \<^verbatim>\<open>collectionBuiltInHooks\<close> of \<^verbatim>\<open>internal/cli/runtime_workflow_tools.go\<close>.

  A limit is the pair of a tool name and a number; a Go map of limits is the list of its pairs
  with distinct names. The mutex makes each method of the quota one atomic step. A handler
  reserves, runs the tool with no lock held, and then finishes, so it is two steps here.
  Decoding and validating arguments, running the program, evaluating postconditions and writing
  the debug log are parameters.
\<close>

section \<open>The quota\<close>

record tool_quota =
  tq_limits :: "(string \<times> int) list"
  tq_used :: "string \<rightharpoonup> int"

definition new_tool_quota :: "(string \<times> int) list \<Rightarrow> tool_quota" where
  "new_tool_quota limits = \<lparr>tq_limits = limits, tq_used = Map.empty\<rparr>"

definition used_calls :: "tool_quota \<Rightarrow> string \<Rightarrow> int" where
  "used_calls q name = (case tq_used q name of None \<Rightarrow> 0 | Some n \<Rightarrow> n)"

definition quota_snapshot :: "tool_quota \<Rightarrow> string \<rightharpoonup> int" where
  "quota_snapshot q = tq_used q"

definition quota_restore :: "(string \<rightharpoonup> int) \<Rightarrow> tool_quota \<Rightarrow> tool_quota" where
  "quota_restore saved q =
     q\<lparr>tq_used := (\<lambda>name. case saved name of None \<Rightarrow> None | Some n \<Rightarrow> if n > 0 then Some n else None)\<rparr>"

definition quota_reserve :: "string \<Rightarrow> tool_quota \<Rightarrow> error option \<times> tool_quota" where
  "quota_reserve name q =
     (case map_of (tq_limits q) name of
        None \<Rightarrow> (None, q)
      | Some limit \<Rightarrow>
          (if used_calls q name \<ge> limit
           then (Some (Format (''tool %q per-session call quota exhausted (limit %d successful calls); '' @
                   ''this quota will not reset during this session; do not call this tool again; '' @
                   ''continue with existing results or another available tool'')
                   [StrArg name, IntArg limit]), q)
           else (None, q\<lparr>tq_used := (tq_used q)(name \<mapsto> used_calls q name + 1)\<rparr>)))"

definition quota_describe :: "string \<Rightarrow> string \<Rightarrow> tool_quota \<Rightarrow> message" where
  "quota_describe tool description q =
     (case map_of (tq_limits q) tool of
        None \<Rightarrow> Text description
      | Some limit \<Rightarrow>
          Format (''%s\<newline>\<newline>r42 per-session call quota: at most %d accepted calls. '' @
            ''Invalid arguments, execution errors, and accepted=false responses do not consume this quota. '' @
            ''Once exhausted, this quota will not reset during this session; do not call this tool again.'')
            [StrArg description, IntArg limit])"

definition quota_rollback :: "string \<Rightarrow> tool_quota \<Rightarrow> tool_quota" where
  "quota_rollback tool q =
     (if map_of (tq_limits q) tool \<noteq> None \<and> used_calls q tool > 0
      then q\<lparr>tq_used := (tq_used q)(tool \<mapsto> used_calls q tool - 1)\<rparr>
      else q)"

definition StarlarkToolName :: string where
  "StarlarkToolName = ''r42_starlark''"

text \<open>\<^verbatim>\<open>plan.IsToolID\<close> is a regular expression and a parameter.\<close>

definition split_tool_quota ::
    "(string \<Rightarrow> bool) \<Rightarrow> (string \<times> int) list \<Rightarrow> (string \<times> int) list \<times> (string \<times> int) list" where
  "split_tool_quota is_tool_id limits =
     (let typed = (\<lambda>l. is_tool_id (fst l) \<or> fst l = StarlarkToolName)
      in (filter typed limits, filter (\<lambda>l. \<not> typed l) limits))"

definition defaultStarlarkToolCallQuota :: int where
  "defaultStarlarkToolCallQuota = 20"

definition starlark_tool_quota :: "(string \<times> int) list \<Rightarrow> (string \<times> int) list" where
  "starlark_tool_quota limits =
     (if map_of limits StarlarkToolName \<noteq> None then limits
      else limits @ [(StarlarkToolName, defaultStarlarkToolCallQuota)])"

datatype hook_decision = HookAllow | HookDeny error

definition quota_decision :: "tool_quota \<Rightarrow> string \<Rightarrow> hook_decision \<times> tool_quota" where
  "quota_decision q name =
     (case quota_reserve name q of
        (None, q') \<Rightarrow> (HookAllow, q')
      | (Some e, q') \<Rightarrow> (HookDeny e, q'))"

definition append_quota_prompt :: "prompt \<Rightarrow> (string \<times> int) list \<Rightarrow> prompt" where
  "append_quota_prompt system limits =
     (if limits = [] then system
      else system @ [Text ''\<newline>\<newline>r42 built-in tool call quotas for this session:\<newline>''] @
        map (\<lambda>name. Format ''- %s: at most %d successful calls.\<newline>''
               [StrArg name, IntArg (case map_of limits name of None \<Rightarrow> 0 | Some n \<Rightarrow> n)])
            (sort (map fst limits)) @
        [Text (''failed calls do not consume quota. Once a tool is exhausted, do not retry it; '' @
               ''continue with existing results or another available tool.'')])"

section \<open>Typed tools\<close>

text \<open>
  \<open>debug\<close> is what writing the debug log returns. A handler's state is the session's quota and
  the terminal recorder of Research.
\<close>

definition rejected_arguments ::
    "error option \<Rightarrow> bool \<Rightarrow> error \<Rightarrow> terminal_recorder \<Rightarrow> (error + string tool_response) \<times> terminal_recorder" where
  "rejected_arguments debug is_terminal cause r =
     (let response = reject_issues [mk_issue ''invalid_arguments'' cause]
      in case debug of
           Some e \<Rightarrow> (Inl e, r)
         | None \<Rightarrow>
             (if is_terminal
              then (case record_terminal response r of
                      (Some e, r') \<Rightarrow> (Inl e, r')
                    | (None, r') \<Rightarrow> (Inr response, r'))
              else (Inr response, r)))"

datatype 'v typed_start = TypedRefused "error + string tool_response" | TypedStarted 'v

text \<open>
  Up to the reservation, which both kinds of typed tools share. \<open>recoded\<close> is the error of
  encoding the validated arguments again, which only the calculator does.
\<close>

definition typed_tool_start ::
    "error option \<Rightarrow> bool \<Rightarrow> string \<Rightarrow> error + 'v \<Rightarrow> error option \<Rightarrow> tool_quota \<times> terminal_recorder
       \<Rightarrow> 'v typed_start \<times> tool_quota \<times> terminal_recorder" where
  "typed_tool_start debug is_terminal tool decoded recoded s =
     (case s of (q, r) \<Rightarrow>
     (case decoded of
        Inl cause \<Rightarrow>
          (case rejected_arguments debug is_terminal cause r of (res, r') \<Rightarrow> (TypedRefused res, q, r'))
      | Inr v \<Rightarrow>
          (case recoded of
             Some e \<Rightarrow> (TypedRefused (Inl e), q, r)
           | None \<Rightarrow>
               (case quota_reserve tool q of
                  (Some e, q') \<Rightarrow> (TypedRefused (Inl e), q', r)
                | (None, q') \<Rightarrow> (TypedStarted v, q', r)))))"

record 'o external_result =
  xr_accepted :: bool
  xr_output :: "'o option"
  xr_issues :: "issue list"

record ('v, 'o) external_tool =
  xt_id :: string
  xt_address :: string
  xt_terminal :: bool
  xt_postcondition :: "'v \<Rightarrow> 'o option \<Rightarrow> error option"
  xt_encode :: "'o \<Rightarrow> error + string"
  xt_decode :: "string \<Rightarrow> error + 'o"
  xt_text :: "'o \<Rightarrow> error + string"

text \<open>\<^verbatim>\<open>toTerminalResponse\<close>, with \<^verbatim>\<open>ctyjson.Unmarshal\<close> and the conversion to a string.\<close>

definition to_terminal_response :: "('v, 'o) external_tool \<Rightarrow> string tool_response \<Rightarrow> error + string tool_response" where
  "to_terminal_response tool response =
     (case resp_output response of
        None \<Rightarrow> Inr \<lparr>resp_accepted = resp_accepted response, resp_output = None, resp_issues = resp_issues response\<rparr>
      | Some raw \<Rightarrow>
          (case xt_decode tool raw of
             Inl e \<Rightarrow> Inl (Format ''decode terminal output: %w'' [TextArg e])
           | Inr v \<Rightarrow>
               (case xt_text tool v of
                  Inl e \<Rightarrow> Inl (Format ''convert terminal output to string: %w'' [TextArg e])
                | Inr t \<Rightarrow> Inr \<lparr>resp_accepted = resp_accepted response, resp_output = Some t,
                                resp_issues = resp_issues response\<rparr>)))"

text \<open>What the handler does with the response once it is encoded.\<close>

definition external_record ::
    "('v, 'o) external_tool \<Rightarrow> error option \<Rightarrow> string tool_response \<Rightarrow> terminal_recorder
       \<Rightarrow> (error + string tool_response) \<times> terminal_recorder" where
  "external_record tool debug wire r =
     (case debug of
        Some e \<Rightarrow> (Inl e, r)
      | None \<Rightarrow>
          (if xt_terminal tool
           then (case to_terminal_response tool wire of
                   Inl e \<Rightarrow> (Inl e, record_terminal_error e r)
                 | Inr recorded \<Rightarrow>
                     (case record_terminal recorded r of
                        (Some e, r') \<Rightarrow> (Inl e, r')
                      | (None, r') \<Rightarrow> (Inr wire, r')))
           else (Inr wire, r)))"

text \<open>After the program: \<open>outcome\<close> is what \<^verbatim>\<open>runner.Run\<close> returned.\<close>

definition external_finish ::
    "('v, 'o) external_tool \<Rightarrow> error option \<Rightarrow> 'v \<Rightarrow> error + 'o external_result \<Rightarrow> tool_quota \<times> terminal_recorder
       \<Rightarrow> (error + string tool_response) \<times> tool_quota \<times> terminal_recorder" where
  "external_finish tool debug v outcome s =
     (case s of (q, r) \<Rightarrow>
     (case outcome of
        Inl e \<Rightarrow>
          (Inl (case debug of None \<Rightarrow> e | Some d \<Rightarrow> Format ''%s\<newline>%s'' [TextArg e, TextArg d]), quota_rollback (xt_id tool) q, r)
      | Inr result \<Rightarrow>
          (let q' = (if xr_accepted result then q else quota_rollback (xt_id tool) q)
           in case xt_postcondition tool v (xr_output result) of
                Some e \<Rightarrow>
                  (Inl (Format ''%s postcondition failed: %w'' [StrArg (xt_address tool), TextArg e]), q',
                   if xt_terminal tool then record_terminal_error e r else r)
              | None \<Rightarrow>
                  (case (case xr_output result of
                           None \<Rightarrow> Inr None
                         | Some out \<Rightarrow> (case xt_encode tool out of Inl e \<Rightarrow> Inl e | Inr raw \<Rightarrow> Inr (Some raw))) of
                     Inl e \<Rightarrow> (Inl e, q', r)
                   | Inr raw \<Rightarrow>
                       (case external_record tool debug
                          \<lparr>resp_accepted = xr_accepted result, resp_output = raw, resp_issues = xr_issues result\<rparr> r of
                          (res, r') \<Rightarrow> (res, q', r'))))))"

section \<open>The calculator\<close>

record worker_error =
  wk_code :: string
  wk_message :: string
  wk_stdout :: string

text \<open>A Go string is its list of bytes, as everywhere in the model.\<close>

definition bounded_diagnostic :: "string \<Rightarrow> nat \<Rightarrow> string" where
  "bounded_diagnostic s limit =
     (let t = trim_space s in if length t \<le> limit then t else drop (length t - limit) t)"

definition starlark_tool_issue :: "worker_error \<Rightarrow> issue" where
  "starlark_tool_issue e =
     (let stdout = bounded_diagnostic (wk_stdout e) 2048;
          body = bounded_diagnostic (wk_message e) 4096 @ (if stdout \<noteq> [] then ''\<newline>stdout tail:\<newline>'' @ stdout else []);
          hint = (if wk_code e \<in> {''starlark_step_limit'', ''starlark_timeout'', ''starlark_output_limit''}
                  then ''Reduce the calculation size or output, then call the calculator again.''
                  else if wk_code e = ''starlark_data_json''
                  then ''Provide one valid JSON value in data_json, then call the calculator again.''
                  else ''Repair the Starlark source or input JSON, then call the calculator again.'')
      in (mk_issue (wk_code e) (Text body))\<lparr>iss_hint := Some hint\<rparr>)"

record 'o worker_response =
  wr_error :: "worker_error option"
  wr_result :: "'o option"

definition starlark_finish ::
    "string \<Rightarrow> error option \<Rightarrow> error + 'o worker_response \<Rightarrow> tool_quota \<Rightarrow> (error + 'o tool_response) \<times> tool_quota" where
  "starlark_finish tool debug outcome q =
     (let failed = (\<lambda>e. (Inl (case debug of None \<Rightarrow> e | Some d \<Rightarrow> Format ''%s\<newline>%s'' [TextArg e, TextArg d]), quota_rollback tool q));
          answer = (\<lambda>wire q'. ((case debug of Some e \<Rightarrow> Inl e | None \<Rightarrow> Inr wire), q'))
      in case outcome of
           Inl e \<Rightarrow> failed e
         | Inr response \<Rightarrow>
             (case wr_error response of
                Some worker \<Rightarrow> answer (reject_issues [starlark_tool_issue worker]) (quota_rollback tool q)
              | None \<Rightarrow>
                  (case wr_result response of
                     None \<Rightarrow> failed (Text ''starlark worker exited without a result or error'')
                   | Some out \<Rightarrow> answer (accept out) q)))"

section \<open>Hooks of the built-in tools\<close>

text \<open>
  The hooks of a Collection session. A lease of the Collection context is its place in the list
  of leases handed out; \<open>hk_leases\<close> keeps the open ones of every tool, oldest first. A hook is
  one atomic step: the context, the quota and the leases have a lock each, and the model does
  not interleave other calls between them.
\<close>

record 'fs hook_state =
  hk_quota :: tool_quota
  hk_leases :: "string \<Rightarrow> nat list"
  hk_system :: "'fs coll_system"

definition pre_tool_use :: "string \<Rightarrow> 'fs hook_state \<Rightarrow> hook_decision \<times> 'fs hook_state" where
  "pre_tool_use tool h =
     (case hk_system h of (fs, ls, c) \<Rightarrow>
     (case collection_round_gate c of
        Some e \<Rightarrow> (HookDeny e, h)
      | None \<Rightarrow>
          (if tool = ''web_search'' \<or> tool = ''web_fetch''
           then (case begin_collection_acquisition c of
                   (Inl e, d) \<Rightarrow> (HookDeny e, h\<lparr>hk_system := (fs, ls, d)\<rparr>)
                 | (Inr l, d) \<Rightarrow>
                     (case quota_decision (hk_quota h) tool of
                        (HookDeny e, q) \<Rightarrow>
                          (HookDeny e, h\<lparr>hk_quota := q, hk_system := (fs, ls, snd (release_tool_call l d))\<rparr>)
                      | (HookAllow, q) \<Rightarrow>
                          (HookAllow, h\<lparr>hk_quota := q, hk_system := (fs, ls @ [l], d),
                                      hk_leases := (hk_leases h)(tool := hk_leases h tool @ [length ls])\<rparr>)))
           else (case quota_decision (hk_quota h) tool of (decision, q) \<Rightarrow> (decision, h\<lparr>hk_quota := q\<rparr>)))))"

definition release_lease :: "string \<Rightarrow> 'fs hook_state \<Rightarrow> 'fs hook_state" where
  "release_lease tool h =
     (case hk_leases h tool of
        [] \<Rightarrow> h
      | n # rest \<Rightarrow>
          (case hk_system h of (fs, ls, c) \<Rightarrow>
             (case release_tool_call (ls ! n) c of
                (l, d) \<Rightarrow> h\<lparr>hk_system := (fs, ls[n := l], d), hk_leases := (hk_leases h)(tool := rest)\<rparr>)))"

definition post_tool_use :: "string \<Rightarrow> 'fs hook_state \<Rightarrow> 'fs hook_state" where
  "post_tool_use tool h = release_lease tool h"

definition post_tool_use_failure :: "string \<Rightarrow> 'fs hook_state \<Rightarrow> 'fs hook_state" where
  "post_tool_use_failure tool h = (let h' = release_lease tool h in h'\<lparr>hk_quota := quota_rollback tool (hk_quota h')\<rparr>)"

section \<open>Counting calls\<close>

lemma reserve_limits [simp]: "tq_limits (snd (quota_reserve name q)) = tq_limits q"
  by (simp add: quota_reserve_def split: option.splits)

lemma rollback_limits [simp]: "tq_limits (quota_rollback name q) = tq_limits q"
  by (simp add: quota_rollback_def)

lemma reserve_used:
  assumes "quota_reserve name q = (None, q')"
  shows "used_calls q' other = used_calls q other + (if other = name \<and> map_of (tq_limits q) name \<noteq> None then 1 else 0)"
  using assms by (auto simp: quota_reserve_def used_calls_def split: option.splits if_splits)

lemma reserve_refused: "quota_reserve name q = (Some e, q') \<Longrightarrow> q' = q"
  by (auto simp: quota_reserve_def split: option.splits if_splits)

lemma reserve_allowed_iff:
  "fst (quota_reserve name q) = None \<longleftrightarrow> (case map_of (tq_limits q) name of None \<Rightarrow> True | Some limit \<Rightarrow> used_calls q name < limit)"
  by (auto simp: quota_reserve_def split: option.splits)

lemma rollback_used:
  "used_calls (quota_rollback name q) other =
     used_calls q other - (if other = name \<and> map_of (tq_limits q) name \<noteq> None \<and> 0 < used_calls q name then 1 else 0)"
  by (auto simp: quota_rollback_def used_calls_def split: option.splits)

text \<open>
  A session whose typed tools are called in any order, several at a time: the calls in flight,
  and those whose program accepted, by tool name. Refused calls run no program. Values are their
  JSON texts here.
\<close>

record call_log =
  tl_quota :: tool_quota
  tl_terminal :: terminal_recorder
  tl_running :: "string list"
  tl_accepted :: "string list"

inductive typed_call :: "call_log \<Rightarrow> call_log \<Rightarrow> bool" where
  call_refused: "typed_tool_start debug is_terminal tool (decoded :: error + string) recoded (tl_quota s, tl_terminal s) = (TypedRefused res, (q, r)) \<Longrightarrow>
    typed_call s (s\<lparr>tl_quota := q, tl_terminal := r\<rparr>)"
| call_started: "typed_tool_start debug is_terminal tool (decoded :: error + string) recoded (tl_quota s, tl_terminal s) = (TypedStarted v, (q, r)) \<Longrightarrow>
    typed_call s (s\<lparr>tl_quota := q, tl_terminal := r, tl_running := tool # tl_running s\<rparr>)"
| external_ended: "xt_id tool \<in> set (tl_running s) \<Longrightarrow>
    external_finish (tool :: (string, string) external_tool) debug v outcome (tl_quota s, tl_terminal s) = (res, (q, r)) \<Longrightarrow>
    typed_call s (s\<lparr>tl_quota := q, tl_terminal := r, tl_running := remove1 (xt_id tool) (tl_running s),
      tl_accepted := (case outcome of Inl e \<Rightarrow> tl_accepted s
        | Inr result \<Rightarrow> if xr_accepted result then xt_id tool # tl_accepted s else tl_accepted s)\<rparr>)"
| starlark_ended: "tool \<in> set (tl_running s) \<Longrightarrow> starlark_finish tool debug (outcome :: error + string worker_response) (tl_quota s) = (res, q) \<Longrightarrow>
    typed_call s (s\<lparr>tl_quota := q, tl_running := remove1 tool (tl_running s),
      tl_accepted := (case outcome of Inl e \<Rightarrow> tl_accepted s
        | Inr response \<Rightarrow> if wr_error response = None \<and> wr_result response \<noteq> None then tool # tl_accepted s else tl_accepted s)\<rparr>)"

definition fresh_log :: "(string \<times> int) list \<Rightarrow> call_log \<Rightarrow> bool" where
  "fresh_log limits s \<longleftrightarrow> tl_quota s = new_tool_quota limits \<and> tl_running s = [] \<and> tl_accepted s = []"

definition log_inv :: "(string \<times> int) list \<Rightarrow> call_log \<Rightarrow> bool" where
  "log_inv limits s \<longleftrightarrow>
     tq_limits (tl_quota s) = limits \<and>
     (\<forall>tool limit. map_of limits tool = Some limit \<longrightarrow>
        used_calls (tl_quota s) tool = int (count_list (tl_running s) tool) + int (count_list (tl_accepted s) tool) \<and>
        int (count_list (tl_running s) tool) + int (count_list (tl_accepted s) tool) \<le> max 0 limit)"

lemma count_list_remove1:
  "x \<in> set xs \<Longrightarrow> count_list (remove1 x xs) y = count_list xs y - (if y = x then 1 else 0)"
  by (induction xs) (auto simp: count_list_0_iff)

lemma count_list_pos: "x \<in> set xs \<Longrightarrow> 0 < count_list xs x"
  by (metis count_list_0_iff gr0I)

lemma external_finish_quota:
  assumes "external_finish tool debug v outcome (q, r) = (res, (q', r'))"
  shows "q' = (case outcome of Inl e \<Rightarrow> quota_rollback (xt_id tool) q
    | Inr result \<Rightarrow> if xr_accepted result then q else quota_rollback (xt_id tool) q)"
  using assms by (auto simp: external_finish_def Let_def split: sum.splits option.splits prod.splits)

lemma starlark_finish_quota:
  assumes "starlark_finish tool debug outcome q = (res, q')"
  shows "q' = (case outcome of Inl e \<Rightarrow> quota_rollback tool q
    | Inr response \<Rightarrow> if wr_error response = None \<and> wr_result response \<noteq> None then q else quota_rollback tool q)"
  using assms by (auto simp: starlark_finish_def Let_def split: sum.splits option.splits)

lemma typed_tool_start_quota:
  assumes "typed_tool_start debug is_terminal tool decoded recoded (q, r) = (x, (q', r'))"
  shows "case x of TypedRefused res \<Rightarrow> q' = q | TypedStarted v \<Rightarrow> decoded = Inr v \<and> quota_reserve tool q = (None, q')"
  using assms reserve_refused
  by (auto simp: typed_tool_start_def split: sum.splits option.splits prod.splits)

text \<open>A call ends: what it held is given back, or is counted as accepted.\<close>

lemma log_inv_end:
  assumes "log_inv limits s" and "tool \<in> set (tl_running s)"
  shows "log_inv limits (s\<lparr>tl_quota := if kept then tl_quota s else quota_rollback tool (tl_quota s), tl_terminal := r,
    tl_running := remove1 tool (tl_running s), tl_accepted := if kept then tool # tl_accepted s else tl_accepted s\<rparr>)"
proof -
  have pos: "0 < count_list (tl_running s) tool" using count_list_pos [OF assms(2)] .
  have quota: "tq_limits (tl_quota s) = limits"
    and counted: "\<And>name limit. map_of limits name = Some limit \<Longrightarrow>
      used_calls (tl_quota s) name = int (count_list (tl_running s) name) + int (count_list (tl_accepted s) name) \<and>
      int (count_list (tl_running s) name) + int (count_list (tl_accepted s) name) \<le> max 0 limit"
    using assms(1) by (auto simp: log_inv_def)
  show ?thesis
    using quota counted pos
    by (cases kept) (fastforce simp: log_inv_def rollback_used count_list_remove1 [OF assms(2)])+
qed

lemma typed_call_inv: "typed_call s t \<Longrightarrow> log_inv limits s \<Longrightarrow> log_inv limits t"
proof (induction rule: typed_call.induct)
  case (call_refused debug is_terminal tool decoded recoded s res q r)
  then show ?case using typed_tool_start_quota [OF call_refused(1)] by (simp add: log_inv_def)
next
  case (call_started debug is_terminal tool decoded recoded s v q r)
  have res: "quota_reserve tool (tl_quota s) = (None, q)" using typed_tool_start_quota [OF call_started(1)] by simp
  have "tq_limits q = tq_limits (tl_quota s)" using reserve_limits [of tool "tl_quota s"] res by simp
  moreover have "used_calls (tl_quota s) tool < limit" if "map_of limits tool = Some limit" for limit
    using reserve_allowed_iff [of tool "tl_quota s"] res that call_started(2) by (simp add: log_inv_def)
  ultimately show ?case using call_started(2)
    by (auto simp: log_inv_def reserve_used [OF res] le_max_iff_disj)
next
  case (external_ended tool s debug v outcome res q r)
  define kept where "kept = (case outcome of Inl e \<Rightarrow> False | Inr result \<Rightarrow> xr_accepted result)"
  have "q = (if kept then tl_quota s else quota_rollback (xt_id tool) (tl_quota s))"
    using external_finish_quota [OF external_ended(2)] by (simp add: kept_def split: sum.splits)
  moreover have "(case outcome of Inl e \<Rightarrow> tl_accepted s
      | Inr result \<Rightarrow> if xr_accepted result then xt_id tool # tl_accepted s else tl_accepted s)
      = (if kept then xt_id tool # tl_accepted s else tl_accepted s)"
    by (simp add: kept_def split: sum.splits)
  ultimately show ?case using log_inv_end [OF external_ended(3,1), of kept r] by simp
next
  case (starlark_ended tool s debug outcome res q)
  define kept where "kept = (case outcome of Inl e \<Rightarrow> False | Inr response \<Rightarrow> wr_error response = None \<and> wr_result response \<noteq> None)"
  have "q = (if kept then tl_quota s else quota_rollback tool (tl_quota s))"
    using starlark_finish_quota [OF starlark_ended(2)] by (simp add: kept_def split: sum.splits)
  moreover have "(case outcome of Inl e \<Rightarrow> tl_accepted s
      | Inr response \<Rightarrow> if wr_error response = None \<and> wr_result response \<noteq> None then tool # tl_accepted s else tl_accepted s)
      = (if kept then tool # tl_accepted s else tl_accepted s)"
    by (simp add: kept_def split: sum.splits)
  ultimately show ?case using log_inv_end [OF starlark_ended(3,1), of kept "tl_terminal s"] by simp
qed

lemma fresh_log_inv: "fresh_log limits s \<Longrightarrow> log_inv limits s"
  by (auto simp: fresh_log_def log_inv_def new_tool_quota_def used_calls_def)

lemma typed_calls_inv: "typed_call\<^sup>*\<^sup>* s t \<Longrightarrow> log_inv limits s \<Longrightarrow> log_inv limits t"
  by (induction rule: rtranclp_induct) (auto intro: typed_call_inv)

section \<open>Leases of running searches\<close>

text \<open>
  Hooks and everything else that may happen to the context in between. Nobody but the hooks
  releases a lease they hold.
\<close>

definition held :: "'fs hook_state \<Rightarrow> nat set" where
  "held h = (\<Union>tool. set (hk_leases h tool))"

inductive hook_step :: "'fs os \<Rightarrow> 'fs hook_state \<Rightarrow> 'fs hook_state \<Rightarrow> bool" for os where
  hook_pre: "pre_tool_use tool h = (decision, h') \<Longrightarrow> hook_step os h h'"
| hook_post: "hook_step os h (post_tool_use tool h)"
| hook_failure: "hook_step os h (post_tool_use_failure tool h)"
| hook_other: "coll_step os (hk_system h) op s \<Longrightarrow> (\<forall>n \<in> held h. op \<noteq> OpReleaseCall n) \<Longrightarrow>
    hook_step os h (h\<lparr>hk_system := s\<rparr>)"

definition hook_start :: "'fs hook_state \<Rightarrow> bool" where
  "hook_start h \<longleftrightarrow> coll_initial (hk_system h) \<and> hk_leases h = (\<lambda>tool. [])"

definition hook_inv :: "'fs hook_state \<Rightarrow> bool" where
  "hook_inv h \<longleftrightarrow>
     coll_system_inv (hk_system h) \<and>
     (\<forall>n \<in> held h. n < length (fst (snd (hk_system h))) \<and> \<not> lease_done (fst (snd (hk_system h)) ! n)) \<and>
     (\<forall>tool. distinct (hk_leases h tool)) \<and>
     (\<forall>a b. a \<noteq> b \<longrightarrow> set (hk_leases h a) \<inter> set (hk_leases h b) = {})"

lemma coll_step_leases:
  assumes "coll_step os (fs, ls, c) op (fs', ls', d)"
  shows "ls' = ls \<or> (\<exists>l. ls' = ls @ [l]) \<or> (\<exists>n l. op = OpReleaseCall n \<and> ls' = ls[n := l])"
  using assms by (cases op) (auto split: prod.splits sum.splits option.splits if_splits)

lemma held_kept:
  assumes "\<forall>n \<in> held h. n < length ls \<and> \<not> lease_done (ls ! n)"
    and "coll_step os (fs, ls, c) op (fs', ls', d)" and "\<forall>n \<in> held h. op \<noteq> OpReleaseCall n"
  shows "\<forall>n \<in> held h. n < length ls' \<and> \<not> lease_done (ls' ! n)"
  using coll_step_leases [OF assms(2)] assms(1,3) by (auto simp: nth_append)

lemma hook_inv_other:
  assumes "hook_inv h" and "coll_step os (hk_system h) op s" and "\<forall>n \<in> held h. op \<noteq> OpReleaseCall n"
  shows "hook_inv (h\<lparr>hk_system := s\<rparr>)"
proof -
  obtain fs ls c fs' ls' d where sys: "hk_system h = (fs, ls, c)" "s = (fs', ls', d)" by (metis prod_cases3)
  have "coll_system_inv (hk_system h)" using assms(1) by (simp add: hook_inv_def)
  from coll_step_inv [OF this assms(2)] have "coll_system_inv s" .
  moreover have "held (h\<lparr>hk_system := s\<rparr>) = held h" by (simp add: held_def)
  moreover have "\<forall>n \<in> held h. n < length ls' \<and> \<not> lease_done (ls' ! n)"
    by (rule held_kept [OF _ assms(2) [unfolded sys] assms(3)]) (use assms(1) in \<open>simp add: hook_inv_def sys\<close>)
  ultimately show ?thesis using assms(1) by (simp add: hook_inv_def sys(2))
qed

lemma held_release:
  assumes "hook_inv h" and "hk_leases h tool = n # rest"
  shows "held (h\<lparr>hk_leases := (hk_leases h)(tool := rest)\<rparr>) = held h - {n}"
proof -
  have own: "distinct (n # rest)" using assms by (metis hook_inv_def)
  have "n \<notin> set (hk_leases h other)" if "other \<noteq> tool" for other
    using assms that unfolding hook_inv_def by (metis disjoint_iff list.set_intros(1))
  with own assms(2) show ?thesis by (auto simp: held_def split: if_splits) (metis set_ConsD)
qed

lemma release_lease_inv:
  assumes "hook_inv h"
  shows "hook_inv (release_lease tool h)"
proof (cases "hk_leases h tool")
  case Nil
  with assms show ?thesis by (simp add: release_lease_def)
next
  case (Cons n rest)
  obtain fs ls c where sys: "hk_system h = (fs, ls, c)" by (metis prod_cases3)
  obtain l d where rel: "release_tool_call (ls ! n) c = (l, d)" by force
  let ?h = "h\<lparr>hk_leases := (hk_leases h)(tool := rest)\<rparr>"
  have mem: "n \<in> held h" unfolding held_def using Cons by (intro UN_I [of tool]) simp_all
  have shrunk: "held ?h = held h - {n}" by (rule held_release [OF assms Cons])
  have "distinct (n # rest)" using assms Cons by (metis hook_inv_def)
  moreover have "set rest \<inter> set (hk_leases h other) = {}" if "other \<noteq> tool" for other
    using assms that Cons unfolding hook_inv_def by (metis disjoint_iff list.set_intros(2))
  ultimately have inv: "hook_inv ?h"
    using assms shrunk unfolding hook_inv_def by (auto simp: Int_commute)
  have "coll_step os (hk_system ?h) (OpReleaseCall n) (fs, ls[n := l], d)" for os :: "'a os"
    using assms mem rel by (auto simp: sys hook_inv_def)
  from hook_inv_other [OF inv this] shrunk
  have "hook_inv (?h\<lparr>hk_system := (fs, ls[n := l], d)\<rparr>)" by simp
  moreover have "?h\<lparr>hk_system := (fs, ls[n := l], d)\<rparr> =
      h\<lparr>hk_system := (fs, ls[n := l], d), hk_leases := (hk_leases h)(tool := rest)\<rparr>" by (cases h) simp
  ultimately show ?thesis using Cons sys rel by (simp add: release_lease_def)
qed

text \<open>The hook before a call, when it lets a search start, takes one new lease.\<close>

lemma pre_tool_use_started:
  assumes "hook_inv h" and "hk_system h = (fs, ls, c)" and "begin_collection_acquisition c = (Inr l, d)"
    and "quota_decision (hk_quota h) tool = (HookAllow, q)"
  shows "hook_inv (h\<lparr>hk_quota := q, hk_system := (fs, ls @ [l], d),
    hk_leases := (hk_leases h)(tool := hk_leases h tool @ [length ls])\<rparr>)" (is "hook_inv ?h")
proof -
  note inv = assms(1) [unfolded hook_inv_def assms(2), simplified]
  have call: "l = \<lparr>lease_done = False\<rparr>" "d = c\<lparr>cc_active_calls := cc_active_calls c + 1\<rparr>"
    using assms(3) by (auto simp: begin_collection_acquisition_def begin_tool_call_def split: option.splits sum.splits if_splits)
  have sys: "coll_system_inv (fs, ls @ [l], d)"
    using inv call by (auto simp: coll_system_inv_def open_leases_def coll_inv_def evidence_inv_def plan_inv_def pending_evidence_def)
  have fresh: "length ls \<notin> set (hk_leases h other)" for other
    using inv by (auto simp: held_def)
  have "held ?h = insert (length ls) (held h)" by (auto simp: held_def split: if_splits)
  moreover have "\<forall>n \<in> insert (length ls) (held h). n < length (ls @ [l]) \<and> \<not> lease_done ((ls @ [l]) ! n)"
    using inv call by (auto simp: nth_append)
  ultimately show ?thesis using inv sys fresh by (auto simp: hook_inv_def)
qed

lemma begin_release: "begin_tool_call c = Inr (l, d) \<Longrightarrow> snd (release_tool_call l d) = c"
  by (cases c) (auto simp: begin_tool_call_def release_tool_call_def split: option.splits)

lemma acquisition_release:
  "begin_collection_acquisition c = (Inr l, d) \<Longrightarrow> snd (release_tool_call l d) = c"
  "begin_collection_acquisition c = (Inl e, d) \<Longrightarrow> d = c"
  by (auto simp: begin_collection_acquisition_def begin_release split: sum.splits option.splits prod.splits)

lemma pre_tool_use_inv:
  assumes "hook_inv h" and "pre_tool_use tool h = (decision, h')"
  shows "hook_inv h'"
proof -
  obtain fs ls c where sys: "hk_system h = (fs, ls, c)" by (metis prod_cases3)
  have same: "hook_inv g" if "hk_system g = hk_system h" "hk_leases g = hk_leases h" for g
    using assms(1) that by (simp add: hook_inv_def held_def)
  show ?thesis
  proof (cases "\<exists>l d q. begin_collection_acquisition c = (Inr l, d) \<and> quota_decision (hk_quota h) tool = (HookAllow, q) \<and>
      collection_round_gate c = None \<and> (tool = ''web_search'' \<or> tool = ''web_fetch'')")
    case True
    then obtain l d q where go: "begin_collection_acquisition c = (Inr l, d)" "quota_decision (hk_quota h) tool = (HookAllow, q)"
      "collection_round_gate c = None" "tool = ''web_search'' \<or> tool = ''web_fetch''" by blast
    have "h' = h\<lparr>hk_quota := q, hk_system := (fs, ls @ [l], d),
        hk_leases := (hk_leases h)(tool := hk_leases h tool @ [length ls])\<rparr>"
      using assms(2) go unfolding pre_tool_use_def sys by auto
    with pre_tool_use_started [OF assms(1) sys go(1,2)] show ?thesis by simp
  next
    case False
    then have "hk_system h' = hk_system h \<and> hk_leases h' = hk_leases h"
      using assms(2) [unfolded pre_tool_use_def sys prod.case] acquisition_release sys
      by (auto split: prod.splits option.splits sum.splits hook_decision.splits if_splits)
    with same show ?thesis by blast
  qed
qed

lemma hook_step_inv: "hook_step os h h' \<Longrightarrow> hook_inv h \<Longrightarrow> hook_inv h'"
proof (induction rule: hook_step.induct)
  case (hook_failure h tool)
  from release_lease_inv [OF this, of tool] show ?case
    by (simp add: post_tool_use_failure_def Let_def hook_inv_def held_def)
qed (auto intro: pre_tool_use_inv release_lease_inv hook_inv_other simp: post_tool_use_def)

lemma hook_steps_inv:
  assumes "(hook_step os)\<^sup>*\<^sup>* h h'" and "hook_start h"
  shows "hook_inv h'"
  using assms(1)
proof (induction rule: rtranclp_induct)
  case base
  have "coll_system_inv (hk_system h)" by (rule coll_initial_inv) (use assms(2) in \<open>simp add: hook_start_def\<close>)
  then show ?case using assms(2) by (simp add: hook_start_def hook_inv_def held_def)
qed (rule hook_step_inv)

lemma open_lease_counts: "n < length ls \<Longrightarrow> \<not> lease_done (ls ! n) \<Longrightarrow> 0 < length (open_leases ls)"
  by (auto simp: open_leases_def filter_empty_conv)

section \<open>Properties\<close>


definition sample_log :: call_log where
  "sample_log = \<lparr>tl_quota = new_tool_quota [(''tool.a'', 1)], tl_terminal = new_terminal_recorder, tl_running = [], tl_accepted = []\<rparr>"



definition sample_hooks :: "'fs \<Rightarrow> 'fs hook_state" where
  "sample_hooks fs = \<lparr>hk_quota = new_tool_quota [(''web_search'', 1)], hk_leases = (\<lambda>tool. []),
     hk_system = (fs, [], new_context ''/w'' 0 (Some 3) (Some new_registry))\<rparr>"


end
