(* ===== verification/Crash_Disk.thy ===== *)
theory Crash_Disk
  imports R42_Prelude R42_Paths "HOL-Library.Word"
begin

unbundle bit_operations_syntax

text \<open>
  Disks, programs that work on them one system call after another, and a small Hoare logic for
  such programs. A program may be cut short: the process dies before a call, or the operating
  system refuses one. Its machine says when. This is what the checkpoint store is verified
  against.

  Directories the store reads and writes are trees; the checkpoint directory itself is kept
  apart from the workspaces. A tree is the list of its members below the root, each with its
  slash-separated cleaned path. Whoever runs a program owns the disk: nobody else writes to it.
  A refused call has no effect. Errors of the operating system keep a short text only.
\<close>

section \<open>Trees\<close>

type_synonym mode = "32 word"

datatype fnode = RegularFile mode string | FolderNode mode | LinkNode | OtherNode

type_synonym tree = "(string \<times> fnode) list"

text \<open>The order of \<^verbatim>\<open>filepath.WalkDir\<close>: by the names along the path, a folder before its members.\<close>

definition walk :: "tree \<Rightarrow> tree" where
  "walk t = sort_key (\<lambda>m. split_on CHR ''/'' (fst m)) t"

definition ancestors :: "string \<Rightarrow> string list" where
  "ancestors p = (let es = path_elems p in map (\<lambda>n. join_with CHR ''/'' (take n es)) [1..<length es])"

fun make_folders :: "mode \<Rightarrow> string list \<Rightarrow> tree \<Rightarrow> error + tree" where
  "make_folders mode [] t = Inr t"
| "make_folders mode (p # ps) t =
     (case map_of t p of
        None \<Rightarrow> make_folders mode ps (t @ [(p, FolderNode mode)])
      | Some (FolderNode _) \<Rightarrow> make_folders mode ps t
      | Some _ \<Rightarrow> Inl (Text ''not a directory''))"

text \<open>\<^verbatim>\<open>os.MkdirAll\<close> of a path of the tree, and of the folder a path lies in.\<close>

definition mkdir_all :: "mode \<Rightarrow> string \<Rightarrow> tree \<Rightarrow> error + tree" where
  "mkdir_all mode p t = make_folders mode (ancestors p @ [p]) t"

definition mkdir_parent :: "mode \<Rightarrow> string \<Rightarrow> tree \<Rightarrow> error + tree" where
  "mkdir_parent mode p t = make_folders mode (ancestors p) t"

text \<open>\<^verbatim>\<open>os.OpenFile\<close> with \<^verbatim>\<open>O_CREATE|O_TRUNC\<close>: the mode is that of a new file only.\<close>

definition create_file :: "mode \<Rightarrow> string \<Rightarrow> tree \<Rightarrow> error + tree" where
  "create_file mode p t =
     (case map_of t p of
        None \<Rightarrow> Inr (t @ [(p, RegularFile mode [])])
      | Some (RegularFile old _) \<Rightarrow> Inr (AList.update p (RegularFile old []) t)
      | Some _ \<Rightarrow> Inl (Text ''is a directory''))"

definition create_new_file :: "mode \<Rightarrow> string \<Rightarrow> tree \<Rightarrow> error + tree" where
  "create_new_file mode p t =
     (if map_of t p = None then Inr (t @ [(p, RegularFile mode [])]) else Inl (Text ''file exists''))"

definition write_file :: "string \<Rightarrow> string \<Rightarrow> tree \<Rightarrow> error + tree" where
  "write_file contents p t =
     (case map_of t p of
        Some (RegularFile mode _) \<Rightarrow> Inr (AList.update p (RegularFile mode contents) t)
      | _ \<Rightarrow> Inl (Text ''bad file descriptor''))"

definition read_tree :: "string \<Rightarrow> tree \<Rightarrow> error + string" where
  "read_tree p t =
     (case map_of t p of
        Some (RegularFile mode contents) \<Rightarrow> Inr contents
      | Some _ \<Rightarrow> Inl (Text ''is a directory'')
      | None \<Rightarrow> Inl (Text ''no such file or directory''))"

text \<open>The names a directory lists, and the removal of one of them with everything below it.\<close>

definition top_names :: "tree \<Rightarrow> string list" where
  "top_names t = sort (remdups (map (\<lambda>m. hd (split_on CHR ''/'' (fst m))) t))"

definition remove_top :: "string \<Rightarrow> tree \<Rightarrow> tree" where
  "remove_top name t = filter (\<lambda>m. hd (split_on CHR ''/'' (fst m)) \<noteq> name) t"

section \<open>Disks\<close>

datatype store_item = StoreTree tree | StoreFile string
datatype place = PlaceTree tree | PlaceFile

text \<open>
  \<open>dk_store\<close> is the checkpoint directory, if there is one, \<open>dk_places\<close> the rest by cleaned path,
  and \<open>dk_umask\<close> the mode bits new files do not get.
\<close>

record disk =
  dk_store :: "(string \<times> store_item) list option"
  dk_places :: "string \<Rightarrow> place option"
  dk_umask :: mode

definition store_names :: "disk \<Rightarrow> string list" where
  "store_names d = (case dk_store d of None \<Rightarrow> [] | Some items \<Rightarrow> map fst items)"

definition store_item :: "disk \<Rightarrow> string \<Rightarrow> store_item option" where
  "store_item d name = (case dk_store d of None \<Rightarrow> None | Some items \<Rightarrow> map_of items name)"

definition masked :: "disk \<Rightarrow> mode \<Rightarrow> mode" where
  "masked d mode = mode AND NOT (dk_umask d)"

definition put_item :: "string \<Rightarrow> store_item \<Rightarrow> disk \<Rightarrow> disk" where
  "put_item name item d = d\<lparr>dk_store := map_option (AList.update name item) (dk_store d)\<rparr>"

definition drop_item :: "string \<Rightarrow> disk \<Rightarrow> disk" where
  "drop_item name d = d\<lparr>dk_store := map_option (AList.delete name) (dk_store d)\<rparr>"

text \<open>Work on the tree of a checkpoint, or on the tree at a path.\<close>

definition in_item :: "string \<Rightarrow> (tree \<Rightarrow> error + tree) \<Rightarrow> disk \<Rightarrow> error + disk" where
  "in_item name f d =
     (case store_item d name of
        Some (StoreTree t) \<Rightarrow> (case f t of Inl e \<Rightarrow> Inl e | Inr t' \<Rightarrow> Inr (put_item name (StoreTree t') d))
      | _ \<Rightarrow> Inl (Text ''no such file or directory''))"

definition in_place :: "string \<Rightarrow> (tree \<Rightarrow> error + tree) \<Rightarrow> disk \<Rightarrow> error + disk" where
  "in_place path f d =
     (case dk_places d (clean path) of
        Some (PlaceTree t) \<Rightarrow>
          (case f t of Inl e \<Rightarrow> Inl e | Inr t' \<Rightarrow> Inr (d\<lparr>dk_places := (dk_places d)(clean path \<mapsto> PlaceTree t')\<rparr>))
      | _ \<Rightarrow> Inl (Text ''no such file or directory''))"

definition read_item :: "string \<Rightarrow> string \<Rightarrow> disk \<Rightarrow> error + string" where
  "read_item name p d =
     (case store_item d name of
        Some (StoreTree t) \<Rightarrow> read_tree p t
      | Some (StoreFile _) \<Rightarrow> Inl (Text ''not a directory'')
      | None \<Rightarrow> Inl (Text ''no such file or directory''))"

definition read_place :: "string \<Rightarrow> string \<Rightarrow> disk \<Rightarrow> error + string" where
  "read_place path p d =
     (case dk_places d (clean path) of
        Some (PlaceTree t) \<Rightarrow> read_tree p t
      | _ \<Rightarrow> Inl (Text ''no such file or directory''))"

section \<open>Programs\<close>

text \<open>
  A machine dies after \<open>mc_left\<close> more calls; \<open>mc_faults\<close> says which of them, counted from that
  end, the operating system refuses.
\<close>

record machine =
  mc_disk :: disk
  mc_left :: nat
  mc_faults :: "nat \<Rightarrow> error option"

datatype 'a outcome = Returned 'a | Failed error | Crashed

type_synonym 'a io = "machine \<Rightarrow> 'a outcome \<times> machine"

definition io_return :: "'a \<Rightarrow> 'a io" where
  "io_return x m = (Returned x, m)"

definition io_fail :: "error \<Rightarrow> 'a io" where
  "io_fail e m = (Failed e, m)"

definition io_of :: "error + 'a \<Rightarrow> 'a io" where
  "io_of r = (case r of Inl e \<Rightarrow> io_fail e | Inr x \<Rightarrow> io_return x)"

definition and_then :: "'a io \<Rightarrow> ('a \<Rightarrow> 'b io) \<Rightarrow> 'b io" where
  "and_then p k m =
     (case p m of
        (Returned x, m') \<Rightarrow> k x m'
      | (Failed e, m') \<Rightarrow> (Failed e, m')
      | (Crashed, m') \<Rightarrow> (Crashed, m'))"

text \<open>One system call.\<close>

definition sys :: "(disk \<Rightarrow> error + 'a \<times> disk) \<Rightarrow> 'a io" where
  "sys f m =
     (case mc_left m of
        0 \<Rightarrow> (Crashed, m)
      | Suc n \<Rightarrow>
          (let m1 = m\<lparr>mc_left := n\<rparr>
           in case mc_faults m n of
                Some e \<Rightarrow> (Failed e, m1)
              | None \<Rightarrow>
                  (case f (mc_disk m) of
                     Inl e \<Rightarrow> (Failed e, m1)
                   | Inr (x, d) \<Rightarrow> (Returned x, m1\<lparr>mc_disk := d\<rparr>))))"

definition io_ask :: "(disk \<Rightarrow> error + 'a) \<Rightarrow> 'a io" where
  "io_ask f = sys (\<lambda>d. case f d of Inl e \<Rightarrow> Inl e | Inr x \<Rightarrow> Inr (x, d))"

definition io_act :: "(disk \<Rightarrow> error + disk) \<Rightarrow> unit io" where
  "io_act f = sys (\<lambda>d. case f d of Inl e \<Rightarrow> Inl e | Inr d' \<Rightarrow> Inr ((), d'))"

text \<open>Calls that leave the disk as it is: \<^verbatim>\<open>Sync\<close>, \<^verbatim>\<open>Close\<close>, \<^verbatim>\<open>syncDirectory\<close>.\<close>

definition io_sync :: "unit io" where
  "io_sync = io_act Inr"

text \<open>\<^verbatim>\<open>fmt.Errorf\<close> around the error of a program.\<close>

definition wrapped :: "(error \<Rightarrow> error) \<Rightarrow> 'a io \<Rightarrow> 'a io" where
  "wrapped f p m = (case p m of (Failed e, m') \<Rightarrow> (Failed (f e), m') | r \<Rightarrow> r)"

text \<open>Closing a file: its error counts if there was none before.\<close>

definition closing :: "'a io \<Rightarrow> 'a io" where
  "closing p m =
     (case p m of
        (Crashed, m1) \<Rightarrow> (Crashed, m1)
      | (out, m1) \<Rightarrow>
          (case io_sync m1 of
             (Crashed, m2) \<Rightarrow> (Crashed, m2)
           | (Failed e, m2) \<Rightarrow> ((case out of Failed e0 \<Rightarrow> Failed e0 | _ \<Rightarrow> Failed e), m2)
           | (Returned _, m2) \<Rightarrow> (out, m2)))"

text \<open>\<^verbatim>\<open>defer\<close> of a program whose error is ignored.\<close>

definition finally_do :: "'a io \<Rightarrow> unit io \<Rightarrow> 'a io" where
  "finally_do p c m =
     (case p m of
        (Crashed, m1) \<Rightarrow> (Crashed, m1)
      | (out, m1) \<Rightarrow> (case c m1 of (Crashed, m2) \<Rightarrow> (Crashed, m2) | (_, m2) \<Rightarrow> (out, m2)))"

lemmas io_defs = io_return_def io_fail_def io_of_def and_then_def sys_def io_ask_def io_act_def io_sync_def
  wrapped_def closing_def finally_do_def

section \<open>A Hoare logic with crashes\<close>

text \<open>
  \<open>triple P p Q R\<close>: from a disk with \<open>P\<close>, a program that returns \<open>x\<close> leaves one with \<open>Q x\<close>, and one
  that fails or is cut short leaves one with \<open>R\<close>.
\<close>

definition triple :: "(disk \<Rightarrow> bool) \<Rightarrow> 'a io \<Rightarrow> ('a \<Rightarrow> disk \<Rightarrow> bool) \<Rightarrow> (disk \<Rightarrow> bool) \<Rightarrow> bool" where
  "triple P p Q R \<longleftrightarrow>
     (\<forall>m. P (mc_disk m) \<longrightarrow>
        (case p m of (out, m') \<Rightarrow> case out of Returned x \<Rightarrow> Q x (mc_disk m') | _ \<Rightarrow> R (mc_disk m')))"

lemma tripleI:
  assumes "\<And>m x m'. P (mc_disk m) \<Longrightarrow> p m = (Returned x, m') \<Longrightarrow> Q x (mc_disk m')"
    and "\<And>m e m'. P (mc_disk m) \<Longrightarrow> p m = (Failed e, m') \<Longrightarrow> R (mc_disk m')"
    and "\<And>m m'. P (mc_disk m) \<Longrightarrow> p m = (Crashed, m') \<Longrightarrow> R (mc_disk m')"
  shows "triple P p Q R"
  using assms by (auto simp: triple_def split: prod.splits outcome.splits)

lemma tripleD:
  assumes "triple P p Q R" and "P (mc_disk m)" and "p m = (out, m')"
  shows "case out of Returned x \<Rightarrow> Q x (mc_disk m') | _ \<Rightarrow> R (mc_disk m')"
  using assms by (auto simp: triple_def)

lemma triple_conseq:
  assumes "triple P p Q R" and "\<And>d. P' d \<Longrightarrow> P d" and "\<And>x d. Q x d \<Longrightarrow> Q' x d" and "\<And>d. R d \<Longrightarrow> R' d"
  shows "triple P' p Q' R'"
  using assms by (fastforce simp: triple_def split: prod.splits outcome.splits)

lemma triple_pre: "(A \<Longrightarrow> triple P p Q R) \<Longrightarrow> triple (\<lambda>d. A \<and> P d) p Q R"
  by (auto simp: triple_def)

lemma triple_disk: "(\<And>d1. P d1 \<Longrightarrow> triple (\<lambda>d. d = d1) p Q R) \<Longrightarrow> triple P p Q R"
  by (fastforce simp: triple_def)

lemma triple_ex: "(\<And>x. triple (P x) p Q R) \<Longrightarrow> triple (\<lambda>d. \<exists>x. P x d) p Q R"
  by (fastforce simp: triple_def split: prod.splits outcome.splits)

lemma triple_return: "(\<And>d. P d \<Longrightarrow> Q x d) \<Longrightarrow> triple P (io_return x) Q R"
  by (simp add: triple_def io_return_def)

lemma triple_fail: "(\<And>d. P d \<Longrightarrow> R d) \<Longrightarrow> triple P (io_fail e) Q R"
  by (simp add: triple_def io_fail_def)

lemma triple_of: "(\<And>x d. r = Inr x \<Longrightarrow> P d \<Longrightarrow> Q x d) \<Longrightarrow> (\<And>e d. P d \<Longrightarrow> R d) \<Longrightarrow> triple P (io_of r) Q R"
  by (auto simp: io_of_def split: sum.split intro: triple_return triple_fail)

lemma triple_then:
  assumes "triple P p Q' R" and "\<And>x. triple (Q' x) (k x) Q R"
  shows "triple P (and_then p k) Q R"
  using assms by (fastforce simp: triple_def and_then_def split: prod.splits outcome.splits)

lemma triple_sys:
  assumes "\<And>d x d'. P d \<Longrightarrow> f d = Inr (x, d') \<Longrightarrow> Q x d'" and "\<And>d. P d \<Longrightarrow> R d"
  shows "triple P (sys f) Q R"
  using assms by (auto simp: triple_def sys_def Let_def split: nat.splits option.splits sum.splits)

lemma triple_ask:
  assumes "\<And>d x. P d \<Longrightarrow> f d = Inr x \<Longrightarrow> Q x d" and "\<And>d. P d \<Longrightarrow> R d"
  shows "triple P (io_ask f) Q R"
  unfolding io_ask_def by (rule triple_sys) (use assms in \<open>auto split: sum.splits\<close>)

lemma triple_act:
  assumes "\<And>d d'. P d \<Longrightarrow> f d = Inr d' \<Longrightarrow> Q () d'" and "\<And>d. P d \<Longrightarrow> R d"
  shows "triple P (io_act f) Q R"
  unfolding io_act_def by (rule triple_sys) (use assms in \<open>auto split: sum.splits\<close>)

lemma triple_sync: "(\<And>d. P d \<Longrightarrow> Q () d) \<Longrightarrow> (\<And>d. P d \<Longrightarrow> R d) \<Longrightarrow> triple P io_sync Q R"
  unfolding io_sync_def by (rule triple_act) auto

lemma triple_wrapped: "triple P p Q R \<Longrightarrow> triple P (wrapped f p) Q R"
  by (fastforce simp: triple_def wrapped_def split: prod.splits outcome.splits)

lemma triple_closing:
  assumes "triple P p Q R" and "\<And>x d. Q x d \<Longrightarrow> R d"
  shows "triple P (closing p) Q R"
proof -
  have sync: "mc_disk m' = mc_disk m" if "io_sync m = (out, m')" for m out m'
    using that by (auto simp: io_sync_def io_act_def sys_def Let_def split: nat.splits option.splits)
  show ?thesis
    using assms by (fastforce simp: triple_def closing_def split: prod.splits outcome.splits dest: sync)
qed

lemma triple_finally:
  assumes "triple P p Q R" and "\<And>x. triple (Q x) c (\<lambda>_. Q x) (Q x)" and "triple R c (\<lambda>_. R) R"
    and "\<And>x d. Q x d \<Longrightarrow> R d"
  shows "triple P (finally_do p c) Q R"
proof (rule tripleI)
  fix m x m' assume P: "P (mc_disk m)" and run: "finally_do p c m = (Returned x, m')"
  then obtain m1 out where "p m = (Returned x, m1)" "c m1 = (out, m')"
    by (auto simp: finally_do_def split: prod.splits outcome.splits)
  with tripleD [OF assms(1) P] tripleD [OF assms(2) [of x], of m1 out m'] show "Q x (mc_disk m')"
    by (auto split: outcome.splits)
next
  fix m e m' assume P: "P (mc_disk m)" and run: "finally_do p c m = (Failed e, m')"
  then obtain m1 out where "p m = (Failed e, m1)" "c m1 = (out, m')"
    by (auto simp: finally_do_def split: prod.splits outcome.splits)
  with tripleD [OF assms(1) P] tripleD [OF assms(3), of m1 out m'] show "R (mc_disk m')"
    by (auto split: outcome.splits)
next
  fix m m' assume P: "P (mc_disk m)" and run: "finally_do p c m = (Crashed, m')"
  then consider "p m = (Crashed, m')" | m1 out where "p m = (out, m1)" "out \<noteq> Crashed" "c m1 = (Crashed, m')"
    by (auto simp: finally_do_def split: prod.splits outcome.splits)
  then show "R (mc_disk m')"
  proof cases
    case 1
    with tripleD [OF assms(1) P] show ?thesis by auto
  next
    case 2
    with tripleD [OF assms(1) P 2(1)] tripleD [OF assms(2) _ 2(3)] tripleD [OF assms(3) _ 2(3)] assms(4)
    show ?thesis by (auto split: outcome.splits)
  qed
qed

end
