(* ===== verification/Checkpoint_Store.thy ===== *)
theory Checkpoint_Store
  imports Artifact_Registry Crash_Disk
begin

text \<open>
  \<^verbatim>\<open>internal/checkpoint/store.go\<close> and \<^verbatim>\<open>internal/checkpoint/unit.go\<close>: checkpoints of a run on
  disk, and the two durable states of one research block or dynamic task.

  JSON and SHA-256 are parameters (\<open>codec\<close>), as are the fresh ID, the clock and the names of
  temporary files. The workspaces and session directories are places of the disk that lie outside
  the checkpoint directory and not in one another. \<open>Load\<close> only reads, and is one call here.
\<close>

section \<open>States\<close>

definition CurrentSchemaVersion :: int where
  "CurrentSchemaVersion = 1"

record checkpoint_file =
  kf_path :: string
  kf_directory :: bool
  kf_mode :: mode
  kf_sha :: string

record checkpoint_tree =
  kw_path :: string
  kw_archive :: string
  kw_entries :: "checkpoint_file list"

record checkpoint_session =
  ks_id :: string
  ks_archive :: string
  ks_entries :: "checkpoint_file list"

text \<open>Times are nanoseconds, the zero time 0.\<close>

record checkpoint_state =
  kp_schema :: int
  kp_id :: string
  kp_created :: int
  kp_registry :: reg_snapshot
  kp_payload :: string
  kp_session_store :: string
  kp_sessions :: "checkpoint_session list"
  kp_roots :: "string list"
  kp_workspaces :: "checkpoint_tree list"

datatype unit_status = UnitStarted | UnitCompleted | UnitOther string

record unit_state =
  us_status :: unit_status
  us_result :: string

text \<open>A manifest is a state and the checksum of its JSON.\<close>

record codec =
  cd_state :: "checkpoint_state \<Rightarrow> error + string"
  cd_manifest :: "checkpoint_state \<times> string \<Rightarrow> error + string"
  cd_load_manifest :: "string \<Rightarrow> error + checkpoint_state \<times> string"
  cd_sha :: "string \<Rightarrow> string"
  cd_unit :: "unit_state \<Rightarrow> error + string"
  cd_load_unit :: "string \<Rightarrow> error + unit_state"
  cd_valid :: "string \<Rightarrow> bool"

section \<open>Identifiers and paths\<close>

definition base_path :: "string \<Rightarrow> string" where
  "base_path p =
     (if p = [] then ''.''
      else (let q = rev (dropWhile (\<lambda>c. c = CHR ''/'') (rev p))
            in if q = [] then ''/'' else last (split_on CHR ''/'' q)))"

definition checkpoint_id_error :: "string \<Rightarrow> error option" where
  "checkpoint_id_error i =
     (if blank i \<or> base_path i \<noteq> i \<or> CHR ''/'' \<in> set i
      then Some (Format ''invalid checkpoint id %q'' [StrArg i]) else None)"

definition relative_path_error :: "string \<Rightarrow> error option" where
  "relative_path_error p =
     (if blank p \<or> is_abs p then Some (Format ''path %q is not relative'' [StrArg p])
      else (let c = clean p
            in if c = ''.'' \<or> c = ''..'' \<or> prefix ''../'' c
               then Some (Format ''path %q escapes checkpoint workspace'' [StrArg p]) else None))"

section \<open>Copying trees\<close>

text \<open>\<open>put\<close> says which tree of the disk is written.\<close>

type_synonym put = "(tree \<Rightarrow> error + tree) \<Rightarrow> disk \<Rightarrow> error + disk"

definition make_all :: "put \<Rightarrow> mode \<Rightarrow> string \<Rightarrow> unit io" where
  "make_all put mode p = io_act (\<lambda>d. put (mkdir_all (masked d mode) p) d)"

definition make_parent :: "put \<Rightarrow> string \<Rightarrow> unit io" where
  "make_parent put p = io_act (\<lambda>d. put (mkdir_parent (masked d 0x1C0) p) d)"

definition copy_file :: "codec \<Rightarrow> (disk \<Rightarrow> error + string) \<Rightarrow> put \<Rightarrow> mode \<Rightarrow> string \<Rightarrow> string io" where
  "copy_file cd source put mode target =
     and_then (io_ask source) (\<lambda>contents.
     and_then (io_act (\<lambda>d. put (create_file (masked d mode) target) d)) (\<lambda>_.
     closing (and_then (io_act (put (write_file contents target))) (\<lambda>_.
       and_then io_sync (\<lambda>_. io_return (cd_sha cd contents))))))"

definition copy_member :: "codec \<Rightarrow> string \<Rightarrow> string \<Rightarrow> string \<Rightarrow> string \<times> fnode \<Rightarrow> checkpoint_file io" where
  "copy_member cd source stage archive m =
     (let target = join_path archive (fst m); put = in_item stage
      in case snd m of
           LinkNode \<Rightarrow> io_fail (Format ''artifact workspace %q contains unsupported symlink %q'' [StrArg source, StrArg (fst m)])
         | FolderNode mode \<Rightarrow>
             and_then (make_all put mode target)
               (\<lambda>_. io_return \<lparr>kf_path = fst m, kf_directory = True, kf_mode = mode, kf_sha = []\<rparr>)
         | OtherNode \<Rightarrow> io_fail (Format ''artifact workspace %q contains unsupported file %q'' [StrArg source, StrArg (fst m)])
         | RegularFile mode contents \<Rightarrow>
             and_then (make_parent put target) (\<lambda>_.
             and_then (copy_file cd (read_place source (fst m)) put mode target)
               (\<lambda>digest. io_return \<lparr>kf_path = fst m, kf_directory = False, kf_mode = mode, kf_sha = digest\<rparr>)))"

fun copy_members :: "codec \<Rightarrow> string \<Rightarrow> string \<Rightarrow> string \<Rightarrow> tree \<Rightarrow> checkpoint_file list io" where
  "copy_members cd source stage archive [] = io_return []"
| "copy_members cd source stage archive (m # ms) =
     and_then (copy_member cd source stage archive m) (\<lambda>entry.
     and_then (copy_members cd source stage archive ms) (\<lambda>entries. io_return (entry # entries)))"

definition copy_workspace :: "codec \<Rightarrow> string \<Rightarrow> string \<Rightarrow> string \<Rightarrow> checkpoint_file list io" where
  "copy_workspace cd source stage archive =
     and_then (wrapped (\<lambda>e. Format ''stat artifact workspace %q: %w'' [StrArg source, TextArg e])
       (io_ask (\<lambda>d. case dk_places d (clean source) of
          None \<Rightarrow> Inl (Text ''no such file or directory'') | Some p \<Rightarrow> Inr p)))
     (\<lambda>p. case p of
        PlaceFile \<Rightarrow> io_fail (Format ''artifact workspace %q is not a directory'' [StrArg source])
      | PlaceTree t \<Rightarrow>
          wrapped (\<lambda>e. Format ''snapshot artifact workspace %q: %w'' [StrArg source, TextArg e])
            (copy_members cd source stage archive (walk t)))"

fun copy_workspaces :: "codec \<Rightarrow> string \<Rightarrow> nat \<Rightarrow> string list \<Rightarrow> checkpoint_tree list io" where
  "copy_workspaces cd stage n [] = io_return []"
| "copy_workspaces cd stage n (path # paths) =
     (let archive = join_path ''workspaces'' (show_int03 (int n))
      in and_then (copy_workspace cd path stage archive) (\<lambda>entries.
         and_then (copy_workspaces cd stage (n + 1) paths) (\<lambda>trees.
           io_return (\<lparr>kw_path = path, kw_archive = archive, kw_entries = entries\<rparr> # trees))))"

text \<open>The keys of a Go map, sorted.\<close>

definition workspace_paths :: "reg_snapshot \<Rightarrow> string list \<Rightarrow> error + string list" where
  "workspace_paths registry roots =
     (case find (\<lambda>e. blank (se_workspace e)) (rs_entries registry) of
        Some e \<Rightarrow> Inl (Format ''artifact %q has no workspace'' [StrArg (rec_id (se_record e))])
      | None \<Rightarrow>
          (if list_ex blank roots then Inl (Text ''checkpoint workspace root is required'')
           else Inr (sort (remdups (map se_workspace (rs_entries registry) @ roots)))))"

definition snapshot_workspaces :: "codec \<Rightarrow> string \<Rightarrow> reg_snapshot \<Rightarrow> string list \<Rightarrow> checkpoint_tree list io" where
  "snapshot_workspaces cd stage registry roots =
     and_then (io_of (workspace_paths registry roots)) (copy_workspaces cd stage 0)"

definition session_path :: "string \<Rightarrow> string \<Rightarrow> string" where
  "session_path store i = join_path (join_path store ''session-state'') i"

fun copy_sessions :: "codec \<Rightarrow> string \<Rightarrow> string \<Rightarrow> nat \<Rightarrow> checkpoint_session list \<Rightarrow> checkpoint_session list io" where
  "copy_sessions cd stage store n [] = io_return []"
| "copy_sessions cd stage store n (s # ss) =
     (case checkpoint_id_error (ks_id s) of
        Some e \<Rightarrow> io_fail (Format ''invalid checkpoint session id: %w'' [TextArg e])
      | None \<Rightarrow>
          (let archive = join_path ''sessions'' (show_int03 (int n))
           in and_then (wrapped (\<lambda>e. Format ''snapshot session %q: %w'' [StrArg (ks_id s), TextArg e])
                (copy_workspace cd (session_path store (ks_id s)) stage archive)) (\<lambda>entries.
              and_then (copy_sessions cd stage store (n + 1) ss) (\<lambda>rest.
                io_return (s\<lparr>ks_archive := archive, ks_entries := entries\<rparr> # rest)))))"

definition snapshot_sessions :: "codec \<Rightarrow> string \<Rightarrow> checkpoint_state \<Rightarrow> checkpoint_state io" where
  "snapshot_sessions cd stage st =
     (if kp_sessions st = [] then io_return st
      else if blank (kp_session_store st) then io_fail (Text ''checkpoint session store directory is required'')
      else and_then (copy_sessions cd stage (kp_session_store st) 0 (kp_sessions st))
             (\<lambda>ss. io_return (st\<lparr>kp_sessions := ss\<rparr>)))"

section \<open>Commit\<close>

definition manifest_file :: string where
  "manifest_file = ''manifest.json''"

definition latest_file :: string where
  "latest_file = ''latest''"

text \<open>\<open>temp\<close> chooses the random end of a temporary name, given the names there are.\<close>

type_synonym temp = "string \<Rightarrow> string list \<Rightarrow> string"

definition temp_ok :: "temp \<Rightarrow> bool" where
  "temp_ok temp \<longleftrightarrow> (\<forall>p names. p @ temp p names \<notin> set names)"

definition make_temp :: "temp \<Rightarrow> string \<Rightarrow> store_item \<Rightarrow> string io" where
  "make_temp temp pre item =
     sys (\<lambda>d. if dk_store d = None then Inl (Text ''no such file or directory'')
              else (let name = pre @ temp pre (store_names d) in Inr (name, put_item name item d)))"

definition store_has :: "string \<Rightarrow> disk \<Rightarrow> bool" where
  "store_has name d \<longleftrightarrow> name = ''.'' \<or> name = ''..'' \<or> store_item d name \<noteq> None"

definition rename_item :: "string \<Rightarrow> string \<Rightarrow> disk \<Rightarrow> error + disk" where
  "rename_item old new d =
     (case (store_item d old, store_item d new) of
        (None, _) \<Rightarrow> Inl (Text ''no such file or directory'')
      | (Some item, None) \<Rightarrow> Inr (put_item new item (drop_item old d))
      | (Some (StoreFile c), Some (StoreFile _)) \<Rightarrow> Inr (put_item new (StoreFile c) (drop_item old d))
      | _ \<Rightarrow> Inl (Text ''file exists''))"

definition write_pointer :: "string \<Rightarrow> string \<Rightarrow> disk \<Rightarrow> error + disk" where
  "write_pointer name contents d =
     (if store_item d name = None then Inl (Text ''bad file descriptor'') else Inr (put_item name (StoreFile contents) d))"

definition publish_latest :: "temp \<Rightarrow> string \<Rightarrow> unit io" where
  "publish_latest temp i =
     and_then (wrapped (\<lambda>e. Format ''create latest checkpoint pointer: %w'' [TextArg e]) (make_temp temp ''.latest-'' (StoreFile [])))
     (\<lambda>name. finally_do
       (and_then (wrapped (\<lambda>e. Format ''write latest checkpoint pointer: %w'' [TextArg e])
          (closing (and_then (io_act (write_pointer name (i @ ''\<newline>''))) (\<lambda>_. io_sync)))) (\<lambda>_.
        and_then (wrapped (\<lambda>e. Format ''publish latest checkpoint pointer: %w'' [TextArg e]) (io_act (rename_item name latest_file))) (\<lambda>_.
        wrapped (\<lambda>e. Format ''sync latest checkpoint pointer: %w'' [TextArg e]) io_sync)))
       (io_act (\<lambda>d. Inr (drop_item name d))))"

definition write_synced_file :: "put \<Rightarrow> string \<Rightarrow> string \<Rightarrow> mode \<Rightarrow> unit io" where
  "write_synced_file put path contents mode =
     and_then (io_act (\<lambda>d. put (create_new_file (masked d mode) path) d)) (\<lambda>_.
     closing (and_then (io_act (put (write_file contents path))) (\<lambda>_. io_sync)))"

text \<open>From the staging directory to the pointer.\<close>

definition publish_checkpoint :: "codec \<Rightarrow> temp \<Rightarrow> string \<Rightarrow> checkpoint_state \<Rightarrow> unit io" where
  "publish_checkpoint cd temp stage st0 =
     and_then (snapshot_workspaces cd stage (kp_registry st0) (kp_roots st0)) (\<lambda>workspaces.
     and_then (snapshot_sessions cd stage (st0\<lparr>kp_workspaces := workspaces\<rparr>)) (\<lambda>st.
     and_then (wrapped (\<lambda>e. Format ''encode checkpoint state: %w'' [TextArg e]) (io_of (cd_state cd st))) (\<lambda>encoded.
     and_then (wrapped (\<lambda>e. Format ''encode checkpoint manifest: %w'' [TextArg e])
       (io_of (cd_manifest cd (st, cd_sha cd encoded)))) (\<lambda>contents.
     and_then (wrapped (\<lambda>e. Format ''write checkpoint manifest: %w'' [TextArg e])
       (write_synced_file (in_item stage) manifest_file contents 0x180)) (\<lambda>_.
     and_then (wrapped (\<lambda>e. Format ''sync checkpoint staging directory: %w'' [TextArg e]) io_sync) (\<lambda>_.
     and_then (wrapped (\<lambda>e. Format ''stat checkpoint destination: %w'' [TextArg e])
       (io_ask (\<lambda>d. Inr (store_has (kp_id st) d)))) (\<lambda>exists.
     if exists then io_fail (Format ''checkpoint %q already exists'' [StrArg (kp_id st)])
     else
     and_then (wrapped (\<lambda>e. Format ''publish checkpoint: %w'' [TextArg e]) (io_act (rename_item stage (kp_id st)))) (\<lambda>_.
     and_then (wrapped (\<lambda>e. Format ''sync published checkpoint directory: %w'' [TextArg e]) io_sync) (\<lambda>_.
     publish_latest temp (kp_id st))))))))))"

definition make_store :: "disk \<Rightarrow> disk" where
  "make_store d = d\<lparr>dk_store := (case dk_store d of None \<Rightarrow> Some [] | s \<Rightarrow> s)\<rparr>"

definition default_schema :: "checkpoint_state \<Rightarrow> checkpoint_state" where
  "default_schema st = (if kp_schema st = 0 then st\<lparr>kp_schema := CurrentSchemaVersion\<rparr> else st)"

definition chosen_id :: "error + string \<Rightarrow> checkpoint_state \<Rightarrow> error + string" where
  "chosen_id new_id st = (if kp_id st = [] then new_id else Inr (kp_id st))"

definition stamped :: "string \<Rightarrow> int \<Rightarrow> checkpoint_state \<Rightarrow> checkpoint_state" where
  "stamped i now st = st\<lparr>kp_id := i, kp_created := (if kp_created st = 0 then now else kp_created st)\<rparr>"

definition commit_checkpoint ::
    "codec \<Rightarrow> temp \<Rightarrow> error + string \<Rightarrow> int \<Rightarrow> string \<Rightarrow> checkpoint_state \<Rightarrow> unit io" where
  "commit_checkpoint cd temp new_id now run state =
     (let st = default_schema state
      in if blank run then io_fail (Text ''checkpoint run directory is required'')
         else if kp_schema st \<noteq> CurrentSchemaVersion
         then io_fail (Format ''unsupported checkpoint schema version %d'' [IntArg (kp_schema st)])
         else
      and_then (io_of (chosen_id new_id st)) (\<lambda>i.
      and_then (wrapped (\<lambda>e. Format ''create checkpoint directory: %w'' [TextArg e]) (io_act (\<lambda>d. Inr (make_store d)))) (\<lambda>_.
      case checkpoint_id_error i of
        Some e \<Rightarrow> io_fail e
      | None \<Rightarrow>
          and_then (wrapped (\<lambda>e. Format ''create checkpoint staging directory: %w'' [TextArg e])
            (make_temp temp ''.staging-'' (StoreTree [])))
          (\<lambda>stage. finally_do (publish_checkpoint cd temp stage (stamped i now st)) (io_act (\<lambda>d. Inr (drop_item stage d)))))))"

section \<open>Load\<close>

fun verify_entries :: "codec \<Rightarrow> string \<Rightarrow> string \<Rightarrow> checkpoint_file list \<Rightarrow> disk \<Rightarrow> error option" where
  "verify_entries cd i archive [] d = None"
| "verify_entries cd i archive (e # es) d =
     (case relative_path_error (kf_path e) of
        Some err \<Rightarrow> Some (Format ''invalid checkpoint workspace entry: %w'' [TextArg err])
      | None \<Rightarrow>
          (if kf_directory e then verify_entries cd i archive es d
           else (case read_item i (join_path archive (kf_path e)) d of
                   Inl err \<Rightarrow> Some (Format ''verify checkpoint workspace file %q: %w'' [StrArg (kf_path e), TextArg err])
                 | Inr contents \<Rightarrow>
                     (if cd_sha cd contents \<noteq> kf_sha e
                      then Some (Format ''checkpoint workspace file integrity check failed for %q'' [StrArg (kf_path e)])
                      else verify_entries cd i archive es d))))"

fun verify_workspaces :: "codec \<Rightarrow> string \<Rightarrow> checkpoint_tree list \<Rightarrow> disk \<Rightarrow> error option" where
  "verify_workspaces cd i [] d = None"
| "verify_workspaces cd i (w # ws) d =
     (case relative_path_error (kw_archive w) of
        Some err \<Rightarrow> Some (Format ''invalid checkpoint workspace archive: %w'' [TextArg err])
      | None \<Rightarrow>
          (case verify_entries cd i (kw_archive w) (kw_entries w) d of
             Some err \<Rightarrow> Some err
           | None \<Rightarrow> verify_workspaces cd i ws d))"

text \<open>The code replaces the word \<open>workspace\<close> by \<open>session\<close> in the message of a failed check.\<close>

fun session_message :: "error \<Rightarrow> error" where
  "session_message (Format f args) =
     Format (if f = ''checkpoint workspace file integrity check failed for %q''
             then ''checkpoint session file integrity check failed for %q'' else f) args"
| "session_message e = e"

fun verify_sessions :: "codec \<Rightarrow> string \<Rightarrow> checkpoint_session list \<Rightarrow> disk \<Rightarrow> error option" where
  "verify_sessions cd i [] d = None"
| "verify_sessions cd i (s # ss) d =
     (case checkpoint_id_error (ks_id s) of
        Some err \<Rightarrow> Some (Format ''invalid checkpoint session id: %w'' [TextArg err])
      | None \<Rightarrow>
          (case verify_workspaces cd i [\<lparr>kw_path = [], kw_archive = ks_archive s, kw_entries = ks_entries s\<rparr>] d of
             Some err \<Rightarrow> Some (session_message err)
           | None \<Rightarrow> verify_sessions cd i ss d))"

definition read_pointer :: "disk \<Rightarrow> error + string" where
  "read_pointer d =
     (case store_item d latest_file of
        Some (StoreFile contents) \<Rightarrow> Inr contents
      | Some (StoreTree _) \<Rightarrow> Inl (Text ''is a directory'')
      | None \<Rightarrow> Inl (Text ''no such file or directory''))"

definition load_checkpoint :: "codec \<Rightarrow> string \<Rightarrow> disk \<Rightarrow> error + checkpoint_state" where
  "load_checkpoint cd run d =
     (if blank run then Inl (Text ''checkpoint run directory is required'') else
      case read_pointer d of
        Inl e \<Rightarrow> Inl (Format ''read latest checkpoint: %w'' [TextArg e])
      | Inr latest \<Rightarrow>
     (let i = trim_space latest
      in case checkpoint_id_error i of
           Some e \<Rightarrow> Inl e
         | None \<Rightarrow>
     (case read_item i manifest_file d of
        Inl e \<Rightarrow> Inl (Format ''read checkpoint manifest: %w'' [TextArg e])
      | Inr contents \<Rightarrow>
     (case cd_load_manifest cd contents of
        Inl e \<Rightarrow> Inl (Format ''decode checkpoint manifest: %w'' [TextArg e])
      | Inr (st, digest) \<Rightarrow>
     (case cd_state cd st of
        Inl e \<Rightarrow> Inl (Format ''encode checkpoint state for verification: %w'' [TextArg e])
      | Inr encoded \<Rightarrow>
     (if digest \<noteq> cd_sha cd encoded then Inl (Text ''checkpoint manifest integrity check failed'')
      else if kp_schema st \<noteq> CurrentSchemaVersion
      then Inl (Format ''unsupported checkpoint schema version %d'' [IntArg (kp_schema st)])
      else if kp_id st \<noteq> i then Inl (Text ''checkpoint manifest id does not match latest checkpoint'')
      else (case verify_workspaces cd i (kp_workspaces st) d of
              Some e \<Rightarrow> Inl e
            | None \<Rightarrow>
                (case verify_sessions cd i (kp_sessions st) d of
                   Some e \<Rightarrow> Inl e
                 | None \<Rightarrow> Inr st))))))))"

text \<open>Removing what interrupted commits left.\<close>

fun remove_stages :: "(string \<times> store_item) list \<Rightarrow> unit io" where
  "remove_stages [] = io_return ()"
| "remove_stages ((name, item) # items) =
     (case item of
        StoreFile _ \<Rightarrow> remove_stages items
      | StoreTree _ \<Rightarrow>
          (if \<not> prefix ''.staging-'' name then remove_stages items
           else and_then (wrapped (\<lambda>e. Format ''remove interrupted checkpoint staging directory: %w'' [TextArg e])
                  (io_act (\<lambda>d. Inr (drop_item name d)))) (\<lambda>_. remove_stages items)))"

definition cleanup_staging :: "string \<Rightarrow> unit io" where
  "cleanup_staging run =
     (if blank run then io_fail (Text ''checkpoint run directory is required'')
      else and_then (wrapped (\<lambda>e. Format ''read checkpoint directory: %w'' [TextArg e])
             (io_ask (\<lambda>d. Inr (dk_store d))))
           (\<lambda>items. case items of None \<Rightarrow> io_return () | Some items \<Rightarrow> remove_stages (sort_key fst items)))"

section \<open>Restore\<close>

definition make_place :: "string \<Rightarrow> disk \<Rightarrow> error + disk" where
  "make_place path d =
     (case dk_places d (clean path) of
        None \<Rightarrow> Inr (d\<lparr>dk_places := (dk_places d)(clean path \<mapsto> PlaceTree [])\<rparr>)
      | Some (PlaceTree _) \<Rightarrow> Inr d
      | Some PlaceFile \<Rightarrow> Inl (Text ''not a directory''))"

definition list_place :: "string \<Rightarrow> disk \<Rightarrow> error + string list" where
  "list_place path d =
     (case dk_places d (clean path) of
        Some (PlaceTree t) \<Rightarrow> Inr (top_names t)
      | _ \<Rightarrow> Inl (Text ''no such file or directory''))"

fun clear_place :: "string \<Rightarrow> string list \<Rightarrow> unit io" where
  "clear_place path [] = io_return ()"
| "clear_place path (name # names) =
     and_then (wrapped (\<lambda>e. Format ''clear artifact workspace %q: %w'' [StrArg path, TextArg e])
       (io_act (in_place path (\<lambda>t. Inr (remove_top name t))))) (\<lambda>_. clear_place path names)"

definition restore_entry :: "codec \<Rightarrow> string \<Rightarrow> string \<Rightarrow> string \<Rightarrow> checkpoint_file \<Rightarrow> unit io" where
  "restore_entry cd i archive path e =
     (case relative_path_error (kf_path e) of
        Some err \<Rightarrow> io_fail err
      | None \<Rightarrow>
          (let target = clean (kf_path e); put = in_place path
           in if kf_directory e
              then wrapped (\<lambda>err. Format ''restore artifact directory %q: %w'' [StrArg (kf_path e), TextArg err])
                     (make_all put (kf_mode e) target)
              else and_then (wrapped (\<lambda>err. Format ''restore artifact parent directory %q: %w'' [StrArg (kf_path e), TextArg err])
                     (make_parent put target)) (\<lambda>_.
                   wrapped (\<lambda>err. Format ''restore artifact file %q: %w'' [StrArg (kf_path e), TextArg err])
                     (and_then (copy_file cd (read_item i (join_path archive (kf_path e))) put (kf_mode e) target)
                       (\<lambda>_. io_return ())))))"

fun restore_entries :: "codec \<Rightarrow> string \<Rightarrow> string \<Rightarrow> string \<Rightarrow> checkpoint_file list \<Rightarrow> unit io" where
  "restore_entries cd i archive path [] = io_return ()"
| "restore_entries cd i archive path (e # es) =
     and_then (restore_entry cd i archive path e) (\<lambda>_. restore_entries cd i archive path es)"

definition restore_tree :: "codec \<Rightarrow> string \<Rightarrow> checkpoint_tree \<Rightarrow> unit io" where
  "restore_tree cd i w =
     (if blank (kw_path w) then io_fail (Text ''checkpoint workspace path is required'') else
      case relative_path_error (kw_archive w) of
        Some e \<Rightarrow> io_fail e
      | None \<Rightarrow>
          and_then (wrapped (\<lambda>e. Format ''create artifact workspace %q: %w'' [StrArg (kw_path w), TextArg e])
            (io_act (make_place (kw_path w)))) (\<lambda>_.
          and_then (wrapped (\<lambda>e. Format ''read artifact workspace %q: %w'' [StrArg (kw_path w), TextArg e])
            (io_ask (list_place (kw_path w)))) (\<lambda>names.
          and_then (clear_place (kw_path w) names) (\<lambda>_.
          restore_entries cd i (kw_archive w) (kw_path w) (kw_entries w)))))"

fun restore_trees :: "codec \<Rightarrow> string \<Rightarrow> checkpoint_tree list \<Rightarrow> unit io" where
  "restore_trees cd i [] = io_return ()"
| "restore_trees cd i (w # ws) = and_then (restore_tree cd i w) (\<lambda>_. restore_trees cd i ws)"

fun restore_sessions :: "codec \<Rightarrow> string \<Rightarrow> string \<Rightarrow> checkpoint_session list \<Rightarrow> unit io" where
  "restore_sessions cd i store [] = io_return ()"
| "restore_sessions cd i store (s # ss) =
     (case checkpoint_id_error (ks_id s) of
        Some e \<Rightarrow> io_fail (Format ''invalid checkpoint session id: %w'' [TextArg e])
      | None \<Rightarrow>
     (case relative_path_error (ks_archive s) of
        Some e \<Rightarrow> io_fail e
      | None \<Rightarrow>
          and_then (wrapped (\<lambda>e. Format ''restore session %q: %w'' [StrArg (ks_id s), TextArg e])
            (restore_tree cd i \<lparr>kw_path = session_path store (ks_id s), kw_archive = ks_archive s, kw_entries = ks_entries s\<rparr>))
          (\<lambda>_. restore_sessions cd i store ss)))"

text \<open>
  The registry comes back only from a restore that succeeds; the callers give up on any other.
  The registry reads the file system \<open>fs\<close> through \<open>os\<close>.
\<close>

definition restore_checkpoint ::
    "codec \<Rightarrow> 'fs os \<Rightarrow> 'fs \<Rightarrow> string \<Rightarrow> bool \<Rightarrow> registry \<Rightarrow> (checkpoint_state \<times> registry) io" where
  "restore_checkpoint cd os fs run merge registry =
     and_then (io_ask (load_checkpoint cd run)) (\<lambda>st.
     and_then (restore_trees cd (kp_id st) (kp_workspaces st)) (\<lambda>_.
     and_then (restore_sessions cd (kp_id st) (kp_session_store st) (kp_sessions st)) (\<lambda>_.
     if merge
     then (case reg_merge os fs (kp_registry st) registry of
             (Some e, r) \<Rightarrow> io_fail e | (None, r) \<Rightarrow> io_return (st, r))
     else (case reg_restore os fs (kp_registry st) registry of
             Inl e \<Rightarrow> io_fail e | Inr r \<Rightarrow> io_return (st, r)))))"

fun restore_owned :: "codec \<Rightarrow> 'fs os \<Rightarrow> 'fs \<Rightarrow> checkpoint_state \<Rightarrow> checkpoint_tree list \<Rightarrow> registry \<Rightarrow> registry io" where
  "restore_owned cd os fs st [] registry = io_return registry"
| "restore_owned cd os fs st (w # ws) registry =
     and_then (restore_tree cd (kp_id st) w) (\<lambda>_.
     and_then (io_of (reg_restore_workspace os fs (kw_path w) (kp_registry st) registry))
       (restore_owned cd os fs st ws))"

definition restore_workspace ::
    "codec \<Rightarrow> 'fs os \<Rightarrow> 'fs \<Rightarrow> string \<Rightarrow> registry \<Rightarrow> (checkpoint_state \<times> registry) io" where
  "restore_workspace cd os fs run registry =
     and_then (io_ask (load_checkpoint cd run)) (\<lambda>st.
     and_then (restore_owned cd os fs st (kp_workspaces st) registry) (\<lambda>r. io_return (st, r)))"

section \<open>Units\<close>

definition unit_commit ::
    "codec \<Rightarrow> temp \<Rightarrow> error + string \<Rightarrow> int \<Rightarrow> string \<Rightarrow> registry \<Rightarrow> string \<Rightarrow> unit_state \<Rightarrow> unit io" where
  "unit_commit cd temp new_id now run registry workspace us =
     and_then (wrapped (\<lambda>e. Format ''create unit workspace: %w'' [TextArg e]) (io_act (make_place workspace))) (\<lambda>_.
     and_then (wrapped (\<lambda>e. Format ''encode unit checkpoint: %w'' [TextArg e]) (io_of (cd_unit cd us))) (\<lambda>payload.
     wrapped (\<lambda>e. Format ''commit unit checkpoint: %w'' [TextArg e])
       (commit_checkpoint cd temp new_id now run
         \<lparr>kp_schema = 0, kp_id = [], kp_created = 0, kp_registry = reg_snapshot_workspace registry workspace,
          kp_payload = payload, kp_session_store = [], kp_sessions = [], kp_roots = [clean workspace], kp_workspaces = []\<rparr>)))"

definition unit_begin :: "codec \<Rightarrow> temp \<Rightarrow> error + string \<Rightarrow> int \<Rightarrow> string \<Rightarrow> registry \<Rightarrow> string \<Rightarrow> unit io" where
  "unit_begin cd temp new_id now run registry workspace =
     (if workspace = [] then io_fail (Text ''unit workspace is required'')
      else unit_commit cd temp new_id now run registry workspace \<lparr>us_status = UnitStarted, us_result = []\<rparr>)"

definition unit_complete ::
    "codec \<Rightarrow> temp \<Rightarrow> error + string \<Rightarrow> int \<Rightarrow> string \<Rightarrow> registry \<Rightarrow> string \<Rightarrow> string \<Rightarrow> unit io" where
  "unit_complete cd temp new_id now run registry workspace result =
     (if workspace = [] then io_fail (Text ''unit workspace is required'')
      else if \<not> cd_valid cd result then io_fail (Text ''unit result must be valid JSON'')
      else unit_commit cd temp new_id now run registry workspace \<lparr>us_status = UnitCompleted, us_result = result\<rparr>)"

fun unit_status_text :: "unit_status \<Rightarrow> string" where
  "unit_status_text UnitStarted = ''started''"
| "unit_status_text UnitCompleted = ''completed''"
| "unit_status_text (UnitOther s) = s"

definition unit_state_of :: "codec \<Rightarrow> checkpoint_state \<Rightarrow> error + unit_state" where
  "unit_state_of cd saved =
     (case cd_load_unit cd (kp_payload saved) of
        Inl e \<Rightarrow> Inl (Format ''decode unit checkpoint: %w'' [TextArg e])
      | Inr us \<Rightarrow>
          (if us_status us \<noteq> UnitStarted \<and> us_status us \<noteq> UnitCompleted
           then Inl (Format ''invalid unit checkpoint status %q'' [StrArg (unit_status_text (us_status us))])
           else if us_status us = UnitCompleted \<and> \<not> cd_valid cd (us_result us)
           then Inl (Text ''completed unit checkpoint has invalid result'')
           else Inr us))"

definition unit_load :: "codec \<Rightarrow> string \<Rightarrow> unit_state io" where
  "unit_load cd run =
     and_then (cleanup_staging run) (\<lambda>_.
     and_then (io_ask (load_checkpoint cd run)) (\<lambda>saved. io_of (unit_state_of cd saved)))"

definition unit_rollback :: "codec \<Rightarrow> 'fs os \<Rightarrow> 'fs \<Rightarrow> string \<Rightarrow> registry \<Rightarrow> (unit_state \<times> registry) io" where
  "unit_rollback cd os fs run registry =
     and_then (unit_load cd run) (\<lambda>us.
     if us_status us \<noteq> UnitStarted then io_fail (Text ''cannot roll back a completed unit'')
     else and_then (wrapped (\<lambda>e. Format ''restore unit start snapshot: %w'' [TextArg e])
            (restore_workspace cd os fs run registry)) (\<lambda>(st, r). io_return (us, r)))"

definition unit_restore_completed :: "codec \<Rightarrow> 'fs os \<Rightarrow> 'fs \<Rightarrow> string \<Rightarrow> registry \<Rightarrow> (unit_state \<times> registry) io" where
  "unit_restore_completed cd os fs run registry =
     and_then (unit_load cd run) (\<lambda>us.
     if us_status us \<noteq> UnitCompleted then io_fail (Text ''unit has not completed'')
     else and_then (wrapped (\<lambda>e. Format ''restore completed unit: %w'' [TextArg e])
            (restore_workspace cd os fs run registry)) (\<lambda>(st, r). io_return (us, r)))"

section \<open>Lookups\<close>

lemma store_item_put [simp]:
  "dk_store d \<noteq> None \<Longrightarrow> store_item (put_item name item d) = (store_item d)(name \<mapsto> item)"
  by (auto simp: store_item_def put_item_def update_conv split: option.splits)

lemma store_item_drop [simp]:
  "store_item (drop_item name d) = (store_item d)(name := None)"
  by (auto simp: store_item_def drop_item_def delete_conv split: option.splits)

lemma put_item_simps [simp]:
  "dk_places (put_item name item d) = dk_places d" "dk_umask (put_item name item d) = dk_umask d"
  "dk_store (put_item name item d) = None \<longleftrightarrow> dk_store d = None"
  by (simp_all add: put_item_def)

lemma drop_item_simps [simp]:
  "dk_places (drop_item name d) = dk_places d" "dk_umask (drop_item name d) = dk_umask d"
  "dk_store (drop_item name d) = None \<longleftrightarrow> dk_store d = None"
  by (simp_all add: drop_item_def)

lemma store_item_SomeD: "store_item d name = Some item \<Longrightarrow> dk_store d \<noteq> None"
  by (auto simp: store_item_def split: option.splits)

lemma store_names_None: "name \<notin> set (store_names d) \<longleftrightarrow> store_item d name = None"
  by (auto simp: store_names_def store_item_def map_of_eq_None_iff split: option.splits)

lemma in_item_InrE:
  assumes "in_item name f d = Inr d'"
  obtains t t' where "store_item d name = Some (StoreTree t)" "f t = Inr t'" "d' = put_item name (StoreTree t') d"
  using assms by (auto simp: in_item_def split: option.splits store_item.splits sum.splits)

text \<open>What a file of a tree holds is changed by nobody but its writer.\<close>

definition holds :: "(string \<Rightarrow> string option) \<Rightarrow> tree \<Rightarrow> bool" where
  "holds F t \<longleftrightarrow> (\<forall>p c. F p = Some c \<longrightarrow> read_tree p t = Inr c)"

lemma make_folders_keeps:
  "make_folders mode ps t = Inr t' \<Longrightarrow> map_of t p = Some node \<Longrightarrow> map_of t' p = Some node"
proof (induction mode ps t rule: make_folders.induct)
  case (2 mode q ps t)
  then show ?case by (auto split: option.splits fnode.splits simp: map_add_def)
qed simp

lemma read_tree_cong: "map_of t' p = map_of t p \<Longrightarrow> read_tree p t' = read_tree p t"
  by (simp add: read_tree_def)

lemma read_tree_Inr: "read_tree p t = Inr c \<longleftrightarrow> (\<exists>mode. map_of t p = Some (RegularFile mode c))"
  by (auto simp: read_tree_def split: option.splits fnode.splits)

lemma holds_folders: "make_folders mode ps t = Inr t' \<Longrightarrow> holds F t \<Longrightarrow> holds F t'"
  using make_folders_keeps by (fastforce simp: holds_def read_tree_Inr)

lemma create_file_effect:
  "create_file mode p t = Inr t' \<Longrightarrow> (\<forall>q. q \<noteq> p \<longrightarrow> map_of t' q = map_of t q)"
  by (auto simp: create_file_def update_conv map_add_def split: option.splits fnode.splits)

lemma create_new_file_effect:
  "create_new_file mode p t = Inr t' \<Longrightarrow> (\<forall>q. q \<noteq> p \<longrightarrow> map_of t' q = map_of t q)"
  by (auto simp: create_new_file_def map_add_def split: if_splits option.splits)

lemma write_file_effect:
  "write_file contents p t = Inr t' \<Longrightarrow> read_tree p t' = Inr contents \<and> (\<forall>q. q \<noteq> p \<longrightarrow> map_of t' q = map_of t q)"
  by (auto simp: write_file_def read_tree_def update_conv split: option.splits fnode.splits)

lemma holds_other:
  "\<forall>q. q \<noteq> p \<longrightarrow> map_of t' q = map_of t q \<Longrightarrow> holds F t \<Longrightarrow> holds (F(p := None)) t'"
  by (simp add: holds_def read_tree_def)

lemma holds_written:
  "holds (F(p := None)) t \<Longrightarrow> write_file contents p t = Inr t' \<Longrightarrow> holds (F(p \<mapsto> contents)) t'"
  using write_file_effect [of contents p t t'] by (auto simp: holds_def read_tree_def)

section \<open>The staging directory\<close>

text \<open>Everything on the disk but the item \<open>name\<close> is as in \<open>d0\<close>, and that item is a tree with \<open>T\<close>.\<close>

definition outside :: "disk \<Rightarrow> string \<Rightarrow> disk \<Rightarrow> bool" where
  "outside d0 name d \<longleftrightarrow>
     dk_places d = dk_places d0 \<and> dk_umask d = dk_umask d0 \<and> dk_store d \<noteq> None \<and>
     (\<forall>n. n \<noteq> name \<longrightarrow> store_item d n = store_item d0 n)"

definition staged :: "disk \<Rightarrow> string \<Rightarrow> (tree \<Rightarrow> bool) \<Rightarrow> disk \<Rightarrow> bool" where
  "staged d0 name T d \<longleftrightarrow> outside d0 name d \<and> (\<exists>t. store_item d name = Some (StoreTree t) \<and> T t)"

lemma staged_outside: "staged d0 name T d \<Longrightarrow> outside d0 name d"
  by (simp add: staged_def)

lemma staged_mono: "staged d0 name T d \<Longrightarrow> (\<And>t. T t \<Longrightarrow> T' t) \<Longrightarrow> staged d0 name T' d"
  by (auto simp: staged_def)

lemma staged_act:
  assumes "\<And>um t t'. T t \<Longrightarrow> f um t = Inr t' \<Longrightarrow> T' t'"
  shows "triple (staged d0 name T) (io_act (\<lambda>d. in_item name (f (dk_umask d)) d)) (\<lambda>_. staged d0 name T') (outside d0 name)"
proof (rule triple_act)
  fix d d' assume "staged d0 name T d" and "in_item name (f (dk_umask d)) d = Inr d'"
  with assms show "staged d0 name T' d'"
    by (elim in_item_InrE) (auto simp: staged_def outside_def dest: store_item_SomeD)
qed (rule staged_outside)

lemmas staged_act_plain = staged_act [where f = "\<lambda>_. f" for f, simplified]

lemma staged_make_all: 
  "triple (staged d0 name (holds F)) (make_all (in_item name) mode p) (\<lambda>_. staged d0 name (holds F)) (outside d0 name)"
  unfolding make_all_def masked_def
  by (rule staged_act [where f = "\<lambda>um. mkdir_all (mode AND NOT um) p"]) (auto simp: mkdir_all_def intro: holds_folders)

lemma staged_make_parent:
  "triple (staged d0 name (holds F)) (make_parent (in_item name) p) (\<lambda>_. staged d0 name (holds F)) (outside d0 name)"
  unfolding make_parent_def masked_def
  by (rule staged_act [where f = "\<lambda>um. mkdir_parent (0x1C0 AND NOT um) p"]) (auto simp: mkdir_parent_def intro: holds_folders)

lemma staged_sync: "triple (staged d0 name T) io_sync (\<lambda>_. staged d0 name T) (outside d0 name)"
  by (rule triple_sync) (auto intro: staged_outside)

lemma staged_write:
  "triple (staged d0 name (holds (F(p := None))))
     (closing (and_then (io_act (in_item name (write_file contents p))) (\<lambda>_. and_then io_sync (\<lambda>_. io_return x))))
     (\<lambda>y d. y = x \<and> staged d0 name (holds (F(p \<mapsto> contents))) d) (outside d0 name)"
  by (rule triple_closing, rule triple_then, rule staged_act_plain [where T' = "holds (F(p \<mapsto> contents))"],
      erule (1) holds_written, rule triple_then, rule staged_sync)
    (auto intro: triple_return staged_outside)

lemma staged_copy_file:
  assumes "\<And>d c. outside d0 name d \<Longrightarrow> source d = Inr c \<Longrightarrow> c = contents"
  shows "triple (staged d0 name (holds F)) (copy_file cd source (in_item name) mode p)
     (\<lambda>y d. y = cd_sha cd contents \<and> staged d0 name (holds (F(p \<mapsto> contents))) d) (outside d0 name)"
  unfolding copy_file_def
proof (rule triple_then)
  show "triple (staged d0 name (holds F)) (io_ask source) (\<lambda>c d. c = contents \<and> staged d0 name (holds F) d) (outside d0 name)"
    by (rule triple_ask) (auto intro: staged_outside assms)
next
  fix c
  have "triple (staged d0 name (holds F)) (io_act (\<lambda>d. in_item name (create_file (masked d mode) p) d))
      (\<lambda>_. staged d0 name (holds (F(p := None)))) (outside d0 name)"
    unfolding masked_def
    by (rule staged_act [where f = "\<lambda>um. create_file (mode AND NOT um) p"])
      (auto dest!: create_file_effect intro: holds_other)
  then show "triple (\<lambda>d. c = contents \<and> staged d0 name (holds F) d)
      (and_then (io_act (\<lambda>d. in_item name (create_file (masked d mode) p) d)) (\<lambda>_.
       closing (and_then (io_act (in_item name (write_file c p))) (\<lambda>_. and_then io_sync (\<lambda>_. io_return (cd_sha cd c))))))
      (\<lambda>y d. y = cd_sha cd contents \<and> staged d0 name (holds (F(p \<mapsto> contents))) d) (outside d0 name)"
    by (auto intro!: triple_pre triple_then [OF _ staged_write])
qed

text \<open>What a snapshot records of a member, and the files it leaves in the archive.\<close>

fun file_of :: "codec \<Rightarrow> string \<times> fnode \<Rightarrow> checkpoint_file" where
  "file_of cd (p, RegularFile mode c) = \<lparr>kf_path = p, kf_directory = False, kf_mode = mode, kf_sha = cd_sha cd c\<rparr>"
| "file_of cd (p, FolderNode mode) = \<lparr>kf_path = p, kf_directory = True, kf_mode = mode, kf_sha = []\<rparr>"
| "file_of cd (p, node) = \<lparr>kf_path = p, kf_directory = False, kf_mode = 0, kf_sha = []\<rparr>"

fun copied :: "string \<Rightarrow> string \<times> fnode \<Rightarrow> (string \<Rightarrow> string option) \<Rightarrow> string \<Rightarrow> string option" where
  "copied archive (p, RegularFile mode c) F = F(join_path archive p \<mapsto> c)"
| "copied archive (p, node) F = F"

definition copyable :: "fnode \<Rightarrow> bool" where
  "copyable node \<longleftrightarrow> node \<noteq> LinkNode \<and> node \<noteq> OtherNode"

lemma staged_copy_member:
  assumes "dk_places d0 (clean source) = Some (PlaceTree t)" and "map_of t (fst m) = Some (snd m)"
  shows "triple (staged d0 name (holds F)) (copy_member cd source name archive m)
     (\<lambda>e d. copyable (snd m) \<and> e = file_of cd m \<and> staged d0 name (holds (copied archive m F)) d) (outside d0 name)"
proof (cases "snd m")
  case (RegularFile mode c)
  then obtain p where m: "m = (p, RegularFile mode c)" by (cases m) auto
  have "read_place source p d = Inr c'  \<Longrightarrow> c' = c" if "outside d0 name d" for d c'
    using assms m that by (auto simp: read_place_def read_tree_def outside_def)
  then have "triple (staged d0 name (holds F)) (copy_file cd (read_place source p) (in_item name) mode (join_path archive p))
     (\<lambda>y d. y = cd_sha cd c \<and> staged d0 name (holds (F(join_path archive p \<mapsto> c))) d) (outside d0 name)"
    by (rule staged_copy_file)
  note copy = triple_then [OF this]
  show ?thesis
    by (auto simp: copy_member_def m copyable_def Let_def
        intro!: triple_then [OF staged_make_parent] copy triple_pre triple_return)
next
  case (FolderNode mode)
  then obtain p where m: "m = (p, FolderNode mode)" by (cases m) auto
  show ?thesis
    by (auto simp: copy_member_def m copyable_def Let_def intro!: triple_then [OF staged_make_all] triple_return)
qed (auto simp: copy_member_def intro!: triple_fail staged_outside)

lemma staged_copy_members:
  assumes "dk_places d0 (clean source) = Some (PlaceTree t)" and "list_all (\<lambda>m. map_of t (fst m) = Some (snd m)) ms"
  shows "triple (staged d0 name (holds F)) (copy_members cd source name archive ms)
     (\<lambda>es d. list_all (\<lambda>m. copyable (snd m)) ms \<and> es = map (file_of cd) ms \<and>
        staged d0 name (holds (fold (copied archive) ms F)) d) (outside d0 name)"
  using assms(2)
proof (induction ms arbitrary: F)
  case Nil
  show ?case by (auto intro: triple_return)
next
  case (Cons m ms)
  then have "map_of t (fst m) = Some (snd m)" by simp
  note one = staged_copy_member [OF assms(1) this]
  have "triple (staged d0 name (holds (copied archive m F))) (copy_members cd source name archive ms)
     (\<lambda>es d. list_all (\<lambda>m. copyable (snd m)) ms \<and> es = map (file_of cd) ms \<and>
        staged d0 name (holds (fold (copied archive) ms (copied archive m F))) d) (outside d0 name)"
    by (rule Cons.IH) (use Cons.prems in simp)
  then show ?case
    by (auto intro!: triple_then [OF one] triple_pre triple_then triple_return)
qed

section \<open>Keys of the archive\<close>

definition path_ok :: "string \<Rightarrow> bool" where
  "path_ok p \<longleftrightarrow> list_all plain_elem (split_on CHR ''/'' p) \<and> \<not> blank p"

lemma clean_plain:
  assumes "list_all plain_elem es" and "es \<noteq> []"
  shows "clean (join_with CHR ''/'' es) = join_with CHR ''/'' es" and "path_elems (join_with CHR ''/'' es) = es"
    and "\<not> is_abs (join_with CHR ''/'' es)"
proof -
  have free: "\<forall>w \<in> set es. CHR ''/'' \<notin> set w" using assms(1) by (auto simp: list_all_iff plain_elem_def)
  note split = split_join [OF assms(2) free]
  obtain e es' where es: "es = e # es'" using assms(2) by (cases es) auto
  have e: "e \<noteq> []" and "CHR ''/'' \<notin> set e" using assms(1) es by (auto simp: plain_elem_def)
  then have "hd e \<noteq> CHR ''/''" by (cases e) auto
  with e show rel: "\<not> is_abs (join_with CHR ''/'' es)" by (cases es') (auto simp: is_abs_def es)
  show elems: "path_elems (join_with CHR ''/'' es) = es"
    using assms(1) by (simp add: path_elems_def split clean_elems_idle list_all_iff)
  show "clean (join_with CHR ''/'' es) = join_with CHR ''/'' es"
    using rel elems assms(2) by (simp add: clean_def)
qed

lemma join_with_append:
  "as \<noteq> [] \<Longrightarrow> bs \<noteq> [] \<Longrightarrow> join_with c (as @ bs) = join_with c as @ c # join_with c bs"
  by (induction c as rule: join_with.induct) (auto simp: neq_Nil_conv)

lemma join_path_plain:
  assumes "list_all plain_elem as" "list_all plain_elem bs" "as \<noteq> []" "bs \<noteq> []"
  shows "join_path (join_with CHR ''/'' as) (join_with CHR ''/'' bs) = join_with CHR ''/'' (as @ bs)"
proof -
  have ne: "join_with CHR ''/'' cs \<noteq> []" if "list_all plain_elem cs" "cs \<noteq> []" for cs
    using that by (cases cs rule: remdups_adj.cases) (auto simp: plain_elem_def)
  have "clean (join_with CHR ''/'' (as @ bs)) = join_with CHR ''/'' (as @ bs)"
    by (rule clean_plain) (use assms in simp_all)
  then show ?thesis
    using ne [OF assms(1,3)] ne [OF assms(2,4)] by (simp add: join_path_def join_with_append [OF assms(3,4)])
qed

lemma path_ok_simps:
  assumes "path_ok p"
  shows "clean p = p" "path_elems p = split_on CHR ''/'' p" "relative_path_error p = None"
proof -
  have es: "list_all plain_elem (split_on CHR ''/'' p)" using assms by (simp add: path_ok_def)
  note plain = clean_plain [OF es split_on_not_Nil, unfolded join_split]
  show "clean p = p" "path_elems p = split_on CHR ''/'' p" by (rule plain)+
  have "p \<noteq> ''.''" using es by (auto simp: plain_elem_def)
  moreover have "p \<noteq> ''..'' \<and> \<not> prefix ''../'' p"
    using join_plain [of "split_on CHR ''/'' p"] es by (simp add: join_split list_all_iff)
  ultimately show "relative_path_error p = None"
    using assms plain by (simp add: relative_path_error_def path_ok_def)
qed

lemma show_int03_plain: "plain_elem (show_int03 (int n))"
proof -
  have digit: "c \<noteq> CHR ''/'' \<and> c \<noteq> CHR ''.''" if c: "c \<in> set (pad_zeros 3 (show_nat n))" for c
  proof -
    obtain d where "d < 10" "c = digit_char d" using digit_chars_pad_zeros [OF c] by blast
    then show ?thesis by (simp add: digit_char_eq_iff)
  qed
  then have "CHR ''/'' \<notin> set (show_int03 (int n))" "CHR ''.'' \<notin> set (show_int03 (int n))"
    by (auto simp: show_int03_def)
  moreover have "show_int03 (int n) \<noteq> []" by (simp add: show_int03_def)
  ultimately show ?thesis by (auto simp: plain_elem_def)
qed

lemma show_int03_nat_inj: "show_int03 (int m) = show_int03 (int n) \<Longrightarrow> m = n"
proof -
  have "parse_digits 0 (show_int03 (int k)) = Some k" for k
    by (simp add: show_int03_def pad_zeros_def parse_digits_zeros parse_digits_show_nat)
  then show "show_int03 (int m) = show_int03 (int n) \<Longrightarrow> m = n" by (metis option.inject)
qed

definition slot :: "string \<Rightarrow> nat \<Rightarrow> string" where
  "slot kind n = join_path kind (show_int03 (int n))"

lemma slot_key:
  assumes "plain_elem kind" and "hd kind \<notin> set space_heads"
  shows "split_on CHR ''/'' (slot kind n) = [kind, show_int03 (int n)]" "relative_path_error (slot kind n) = None"
    and "path_ok p \<Longrightarrow> split_on CHR ''/'' (join_path (slot kind n) p) = kind # show_int03 (int n) # split_on CHR ''/'' p"
proof -
  let ?ks = "[kind, show_int03 (int n)]"
  have ks: "list_all plain_elem ?ks" using assms(1) show_int03_plain by simp
  have free: "\<forall>w \<in> set es. CHR ''/'' \<notin> set w" if "list_all plain_elem es" for es
    using that by (auto simp: list_all_iff plain_elem_def)
  have slot: "slot kind n = join_with CHR ''/'' ?ks"
    using join_path_plain [of "[kind]" "[show_int03 (int n)]"] ks by (simp add: slot_def)
  show split: "split_on CHR ''/'' (slot kind n) = ?ks"
    unfolding slot by (rule split_join) (use free [OF ks] in simp_all)
  have "\<not> blank (slot kind n)"
    by (rule not_blank_head) (use assms in \<open>auto simp: slot plain_elem_def\<close>)
  then have "path_ok (slot kind n)" using ks split by (simp add: path_ok_def)
  then show "relative_path_error (slot kind n) = None" by (rule path_ok_simps)
  show "split_on CHR ''/'' (join_path (slot kind n) p) = kind # show_int03 (int n) # split_on CHR ''/'' p" if "path_ok p"
  proof -
    have es: "list_all plain_elem (split_on CHR ''/'' p)" using that by (simp add: path_ok_def)
    have "join_path (slot kind n) p = join_with CHR ''/'' (?ks @ split_on CHR ''/'' p)"
      using join_path_plain [OF ks es] by (simp add: slot join_split)
    also have "split_on CHR ''/'' \<dots> = ?ks @ split_on CHR ''/'' p"
      by (rule split_join) (use free [OF ks] free [OF es] in auto)
    finally show ?thesis by simp
  qed
qed

text \<open>
  A tree a workspace may be: every path once, plain and not blank, and every member in folders.
\<close>

definition tree_ok :: "tree \<Rightarrow> bool" where
  "tree_ok t \<longleftrightarrow> distinct (map fst t) \<and>
     (\<forall>p \<in> set (map fst t). path_ok p \<and> (\<forall>a \<in> set (ancestors p). \<exists>mode. map_of t a = Some (FolderNode mode)))"

definition places_ok :: "(string \<Rightarrow> place option) \<Rightarrow> bool" where
  "places_ok T \<longleftrightarrow> (\<forall>p t. T p = Some (PlaceTree t) \<longrightarrow> tree_ok t)"

lemma set_walk [simp]: "set (walk t) = set t"
  by (simp add: walk_def)

lemma map_of_walk: "tree_ok t \<Longrightarrow> map_of (walk t) = map_of t"
  by (subst map_of_inject_set) (simp_all add: tree_ok_def walk_def distinct_map)

text \<open>The archive holds the contents of every file of the tree.\<close>

definition archived :: "(string \<Rightarrow> string option) \<Rightarrow> string \<Rightarrow> tree \<Rightarrow> bool" where
  "archived F archive t \<longleftrightarrow> (\<forall>p mode c. (p, RegularFile mode c) \<in> set t \<longrightarrow> F (join_path archive p) = Some c)"

lemma archived_mono: "archived F archive t \<Longrightarrow> F \<subseteq>\<^sub>m G \<Longrightarrow> archived G archive t"
  unfolding archived_def map_le_def by (metis domI)

text \<open>The keys in use lie in slots of \<open>U\<close>.\<close>

definition within :: "string list set \<Rightarrow> (string \<Rightarrow> string option) \<Rightarrow> bool" where
  "within U F \<longleftrightarrow> (\<forall>p \<in> dom F. take 2 (split_on CHR ''/'' p) \<in> U)"

lemma copied_dom:
  assumes "plain_elem kind" "hd kind \<notin> set space_heads" "list_all (\<lambda>m. path_ok (fst m)) ms"
  shows "p \<in> dom (fold (copied (slot kind n)) ms F) \<Longrightarrow> p \<in> dom F \<or> take 2 (split_on CHR ''/'' p) = [kind, show_int03 (int n)]"
  using assms(3)
proof (induction ms arbitrary: F)
  case (Cons m ms)
  have "q \<in> dom (copied (slot kind n) m F) \<Longrightarrow> q \<in> dom F \<or> take 2 (split_on CHR ''/'' q) = [kind, show_int03 (int n)]" for q
    using Cons.prems(2) slot_key(3) [OF assms(1,2), of "fst m" n]
    by (cases "(slot kind n, m, F)" rule: copied.cases) (auto split: if_splits)
  moreover have "p \<in> dom (copied (slot kind n) m F) \<or> take 2 (split_on CHR ''/'' p) = [kind, show_int03 (int n)]"
    using Cons.IH [of "copied (slot kind n) m F"] Cons.prems by simp
  ultimately show ?case by blast
qed simp

lemma copied_keeps:
  "p \<notin> (\<lambda>m. join_path archive (fst m)) ` set ms \<Longrightarrow> fold (copied archive) ms F p = F p"
proof (induction ms arbitrary: F)
  case (Cons m ms)
  then show ?case by (cases "(archive, m, F)" rule: copied.cases) auto
qed simp

lemma fold_copied_archived:
  assumes "inj_on (\<lambda>m. join_path archive (fst m)) (set ms)" and "distinct ms"
  shows "archived (fold (copied archive) ms F) archive ms"
  using assms
proof (induction ms arbitrary: F)
  case (Cons m ms)
  have "archived (fold (copied archive) ms (copied archive m F)) archive ms" using Cons by (simp add: inj_on_def)
  moreover have "fold (copied archive) ms (copied archive m F) (join_path archive (fst m)) = copied archive m F (join_path archive (fst m))"
    by (rule copied_keeps) (use Cons.prems in \<open>auto simp: inj_on_def\<close>)
  ultimately show ?case by (auto simp: archived_def)
qed (simp add: archived_def)

lemma archive_slot:
  assumes "plain_elem kind" "hd kind \<notin> set space_heads" "tree_ok t" "within U F" "[kind, show_int03 (int n)] \<notin> U"
  defines "G \<equiv> fold (copied (slot kind n)) (walk t) F"
  shows "F \<subseteq>\<^sub>m G" and "within (insert [kind, show_int03 (int n)] U) G" and "archived G (slot kind n) t"
proof -
  have ok: "list_all (\<lambda>m. path_ok (fst m)) (walk t)" using assms(3) by (auto simp: tree_ok_def list_all_iff)
  note key = slot_key(3) [OF assms(1,2)]
  show "F \<subseteq>\<^sub>m G"
    unfolding map_le_def
  proof
    fix p assume p: "p \<in> dom F"
    then have "take 2 (split_on CHR ''/'' p) \<noteq> [kind, show_int03 (int n)]" using assms(4,5) unfolding within_def by metis
    then have "p \<notin> (\<lambda>m. join_path (slot kind n) (fst m)) ` set (walk t)" using ok key by (auto simp: list_all_iff)
    then show "F p = G p" unfolding G_def by (rule copied_keeps [symmetric])
  qed
  show "within (insert [kind, show_int03 (int n)] U) G"
    using copied_dom [OF assms(1,2) ok] assms(4) unfolding within_def G_def by (metis insert_iff)
  have "inj_on (\<lambda>m. join_path (slot kind n) (fst m)) (set (walk t))"
  proof (rule inj_onI)
    fix x y assume x: "x \<in> set (walk t)" and y: "y \<in> set (walk t)"
      and eq: "join_path (slot kind n) (fst x) = join_path (slot kind n) (fst y)"
    have "split_on CHR ''/'' (fst x) = split_on CHR ''/'' (fst y)"
      using key [of "fst x" n] key [of "fst y" n] eq ok x y by (simp add: list_all_iff)
    then have "fst x = fst y" by (metis join_split)
    then show "x = y" using x y assms(3) by (auto simp: tree_ok_def distinct_map inj_on_def)
  qed
  moreover have "distinct (walk t)" using assms(3) by (simp add: tree_ok_def walk_def distinct_map)
  ultimately show "archived G (slot kind n) t"
    using fold_copied_archived [of "slot kind n" "walk t" F] by (simp add: G_def archived_def)
qed

section \<open>What a snapshot captures\<close>

definition captured :: "codec \<Rightarrow> (string \<Rightarrow> place option) \<Rightarrow> (string \<Rightarrow> string option) \<Rightarrow> checkpoint_tree \<Rightarrow> bool" where
  "captured cd T F w \<longleftrightarrow> relative_path_error (kw_archive w) = None \<and>
     (\<exists>t. T (clean (kw_path w)) = Some (PlaceTree t) \<and> list_all (\<lambda>m. copyable (snd m)) t \<and>
          kw_entries w = map (file_of cd) (walk t) \<and> archived F (kw_archive w) t)"

lemma captured_mono: "captured cd T F w \<Longrightarrow> F \<subseteq>\<^sub>m G \<Longrightarrow> captured cd T G w"
  unfolding captured_def using archived_mono by blast

lemma staged_copy_workspace:
  assumes "places_ok (dk_places d0)" "plain_elem kind" "hd kind \<notin> set space_heads"
    and "within U F" "[kind, show_int03 (int n)] \<notin> U"
  shows "triple (staged d0 name (holds F)) (copy_workspace cd source name (slot kind n))
     (\<lambda>es d. \<exists>G. F \<subseteq>\<^sub>m G \<and> within (insert [kind, show_int03 (int n)] U) G \<and>
        captured cd (dk_places d0) G \<lparr>kw_path = source, kw_archive = slot kind n, kw_entries = es\<rparr> \<and>
        staged d0 name (holds G) d) (outside d0 name)"
  unfolding copy_workspace_def
proof (rule triple_then, rule triple_wrapped)
  show "triple (staged d0 name (holds F))
     (io_ask (\<lambda>d. case dk_places d (clean source) of
        None \<Rightarrow> Inl (Text ''no such file or directory'') | Some p \<Rightarrow> Inr p))
     (\<lambda>p d. dk_places d0 (clean source) = Some p \<and> staged d0 name (holds F) d) (outside d0 name)"
    by (rule triple_ask) (auto simp: staged_def outside_def split: option.splits)
next
  fix p
  show "triple (\<lambda>d. dk_places d0 (clean source) = Some p \<and> staged d0 name (holds F) d)
     (case p of
        PlaceTree t \<Rightarrow> wrapped (\<lambda>e. Format ''snapshot artifact workspace %q: %w'' [StrArg source, TextArg e])
            (copy_members cd source name (slot kind n) (walk t))
      | PlaceFile \<Rightarrow> io_fail (Format ''artifact workspace %q is not a directory'' [StrArg source]))
     (\<lambda>es d. \<exists>G. F \<subseteq>\<^sub>m G \<and> within (insert [kind, show_int03 (int n)] U) G \<and>
        captured cd (dk_places d0) G \<lparr>kw_path = source, kw_archive = slot kind n, kw_entries = es\<rparr> \<and>
        staged d0 name (holds G) d) (outside d0 name)" (is "triple _ ?c ?Q _")
  proof (rule triple_pre, cases p)
    fix t assume p: "p = PlaceTree t" and place: "dk_places d0 (clean source) = Some p"
    then have ok: "tree_ok t" using assms(1) by (auto simp: places_ok_def)
    have lookups: "list_all (\<lambda>m. map_of t (fst m) = Some (snd m)) (walk t)"
      using ok by (auto simp: list_all_iff tree_ok_def)
    note grown = archive_slot [OF assms(2,3) ok assms(4,5)]
    have "list_all (\<lambda>m. copyable (snd m)) (walk t) = list_all (\<lambda>m. copyable (snd m)) t" by (simp add: list_all_iff)
    with grown place p slot_key(2) [OF assms(2,3)] show "triple (staged d0 name (holds F)) ?c ?Q (outside d0 name)"
      by (auto intro!: triple_wrapped triple_conseq [OF staged_copy_members [OF place [unfolded p] lookups]] exI
          simp: captured_def)
  qed (auto intro: triple_fail staged_outside)
qed

definition slots :: "string \<Rightarrow> string list set" where
  "slots kind = range (\<lambda>n. [kind, show_int03 (int n)])"

lemma within_mono: "within U F \<Longrightarrow> U \<subseteq> V \<Longrightarrow> within V F"
  by (auto simp: within_def)

text \<open>The slots from \<open>n\<close> on are free, and the first is taken.\<close>

lemma slots_free:
  assumes "\<forall>i \<ge> n. [kind, show_int03 (int i)] \<notin> U"
  shows "\<forall>i \<ge> n + 1. [kind, show_int03 (int i)] \<notin> insert [kind, show_int03 (int n)] U"
  using assms by (auto dest: show_int03_nat_inj)

definition snapshot_post ::
    "codec \<Rightarrow> disk \<Rightarrow> string \<Rightarrow> string list set \<Rightarrow> (string \<Rightarrow> string option) \<Rightarrow> checkpoint_tree list \<Rightarrow> disk \<Rightarrow> bool" where
  "snapshot_post cd d0 name U F ws d \<longleftrightarrow>
     (\<exists>G. F \<subseteq>\<^sub>m G \<and> within U G \<and> list_all (captured cd (dk_places d0) G) ws \<and> staged d0 name (holds G) d)"

lemma snapshot_postE:
  assumes "\<And>G. F \<subseteq>\<^sub>m G \<Longrightarrow> within U G \<Longrightarrow> list_all (captured cd (dk_places d0) G) ws \<Longrightarrow>
    triple (staged d0 name (holds G)) p Q R"
  shows "triple (snapshot_post cd d0 name U F ws) p Q R"
  using assms by (fastforce simp: triple_def snapshot_post_def)

lemma snapshot_post_outside: "snapshot_post cd d0 name U F ws d \<Longrightarrow> outside d0 name d"
  by (auto simp: snapshot_post_def intro: staged_outside)

lemma snapshot_post_Cons:
  assumes "F \<subseteq>\<^sub>m G" "captured cd (dk_places d0) G w" "snapshot_post cd d0 name U G ws d"
  shows "snapshot_post cd d0 name U F (w # ws) d"
  using assms map_le_trans captured_mono unfolding snapshot_post_def by (metis list.pred_inject(2))

lemma staged_copy_workspaces:
  assumes "places_ok (dk_places d0)" and "within U F" "\<forall>i \<ge> n. [''workspaces'', show_int03 (int i)] \<notin> U"
  shows "triple (staged d0 name (holds F)) (copy_workspaces cd name n paths)
     (\<lambda>ws d. map kw_path ws = paths \<and> snapshot_post cd d0 name (U \<union> slots ''workspaces'') F ws d) (outside d0 name)"
  using assms(2,3)
proof (induction paths arbitrary: n U F)
  case Nil
  then show ?case
    by (auto simp: snapshot_post_def intro!: triple_return exI [of _ F] intro: within_mono)
next
  case (Cons path paths)
  have "plain_elem ''workspaces''" "hd ''workspaces'' \<notin> set space_heads" by code_simp+
  note one = staged_copy_workspace [OF assms(1) this Cons.prems(1) Cons.prems(2) [rule_format, OF order_refl], of name cd path]
  let ?U = "insert [''workspaces'', show_int03 (int n)] U"
  let ?post = "\<lambda>ws d. map kw_path ws = path # paths \<and> snapshot_post cd d0 name (U \<union> slots ''workspaces'') F ws d"
  have "triple (\<lambda>d. \<exists>G. F \<subseteq>\<^sub>m G \<and> within ?U G \<and>
      captured cd (dk_places d0) G \<lparr>kw_path = path, kw_archive = slot ''workspaces'' n, kw_entries = es\<rparr> \<and> staged d0 name (holds G) d)
    (and_then (copy_workspaces cd name (n + 1) paths)
      (\<lambda>trees. io_return (\<lparr>kw_path = path, kw_archive = slot ''workspaces'' n, kw_entries = es\<rparr> # trees)))
    ?post (outside d0 name)" for es
  proof (rule triple_ex)
    fix G
    let ?w = "\<lparr>kw_path = path, kw_archive = slot ''workspaces'' n, kw_entries = es\<rparr>"
    have slots: "?U \<union> slots ''workspaces'' = U \<union> slots ''workspaces''" by (auto simp: slots_def)
    show "triple (\<lambda>d. F \<subseteq>\<^sub>m G \<and> within ?U G \<and> captured cd (dk_places d0) G ?w \<and> staged d0 name (holds G) d)
      (and_then (copy_workspaces cd name (n + 1) paths) (\<lambda>trees. io_return (?w # trees))) ?post (outside d0 name)"
      by (intro triple_pre triple_then [OF Cons.IH] triple_return)
        (use slots_free [OF Cons.prems(2)] slots in \<open>auto intro: snapshot_post_Cons\<close>)
  qed
  then show ?case
    by (auto simp: Let_def slot_def [symmetric] intro!: triple_then [OF one])
qed

definition session_tree :: "string \<Rightarrow> checkpoint_session \<Rightarrow> checkpoint_tree" where
  "session_tree store s = \<lparr>kw_path = session_path store (ks_id s), kw_archive = ks_archive s, kw_entries = ks_entries s\<rparr>"

definition sessions_named :: "checkpoint_session list \<Rightarrow> checkpoint_session list \<Rightarrow> bool" where
  "sessions_named ss ss' \<longleftrightarrow> map ks_id ss' = map ks_id ss \<and> list_all (\<lambda>s. checkpoint_id_error (ks_id s) = None) ss'"

lemma staged_copy_sessions:
  assumes "places_ok (dk_places d0)" and "within U F" "\<forall>i \<ge> n. [''sessions'', show_int03 (int i)] \<notin> U"
  shows "triple (staged d0 name (holds F)) (copy_sessions cd name store n ss)
     (\<lambda>ss' d. sessions_named ss ss' \<and> snapshot_post cd d0 name (U \<union> slots ''sessions'') F (map (session_tree store) ss') d)
     (outside d0 name)"
  using assms(2,3)
proof (induction ss arbitrary: n U F)
  case Nil
  then show ?case
    by (auto simp: snapshot_post_def sessions_named_def intro!: triple_return exI [of _ F] intro: within_mono)
next
  case (Cons s ss)
  show ?case
  proof (cases "checkpoint_id_error (ks_id s)")
    case (Some e)
    then show ?thesis by (auto intro!: triple_fail intro: staged_outside)
  next
    case None
    have "plain_elem ''sessions''" "hd ''sessions'' \<notin> set space_heads" by code_simp+
    note one = staged_copy_workspace [OF assms(1) this Cons.prems(1) Cons.prems(2) [rule_format, OF order_refl],
        of name cd "session_path store (ks_id s)"]
    let ?U = "insert [''sessions'', show_int03 (int n)] U"
    let ?s = "\<lambda>es. s\<lparr>ks_archive := slot ''sessions'' n, ks_entries := es\<rparr>"
    let ?post = "\<lambda>ss' d. sessions_named (s # ss) ss' \<and>
      snapshot_post cd d0 name (U \<union> slots ''sessions'') F (map (session_tree store) ss') d"
    have "triple (\<lambda>d. \<exists>G. F \<subseteq>\<^sub>m G \<and> within ?U G \<and> captured cd (dk_places d0) G
        \<lparr>kw_path = session_path store (ks_id s), kw_archive = slot ''sessions'' n, kw_entries = es\<rparr> \<and> staged d0 name (holds G) d)
      (and_then (copy_sessions cd name store (n + 1) ss) (\<lambda>rest. io_return (?s es # rest)))
      ?post (outside d0 name)" for es
    proof (rule triple_ex)
      fix G
      let ?w = "\<lparr>kw_path = session_path store (ks_id s), kw_archive = slot ''sessions'' n, kw_entries = es\<rparr>"
      have slots: "?U \<union> slots ''sessions'' = U \<union> slots ''sessions''" by (auto simp: slots_def)
      have tree: "session_tree store (?s es) = ?w" by (simp add: session_tree_def)
      show "triple (\<lambda>d. F \<subseteq>\<^sub>m G \<and> within ?U G \<and> captured cd (dk_places d0) G ?w \<and> staged d0 name (holds G) d)
        (and_then (copy_sessions cd name store (n + 1) ss) (\<lambda>rest. io_return (?s es # rest))) ?post (outside d0 name)"
        by (intro triple_pre triple_then [OF Cons.IH] triple_return)
          (use slots_free [OF Cons.prems(2)] slots None in
            \<open>auto simp: sessions_named_def tree intro: snapshot_post_Cons [OF _ _]\<close>)
    qed
    then show ?thesis
      by (auto simp: Let_def None slot_def [symmetric] intro!: triple_then [OF triple_wrapped [OF one]])
  qed
qed

section \<open>Publishing\<close>

text \<open>
  A store whose pointer, if there is one, names a checkpoint. \<open>unpublished\<close>: what \<open>d0\<close> has, \<open>d\<close>
  still has, and it points to the same. \<open>published\<close>: it points to the new checkpoint \<open>i\<close> with the
  tree \<open>t\<close>.
\<close>

definition store_inv :: "disk \<Rightarrow> bool" where
  "store_inv d \<longleftrightarrow>
     (\<forall>item. store_item d latest_file = Some item \<longrightarrow>
        (\<exists>c t. item = StoreFile c \<and> store_item d (trim_space c) = Some (StoreTree t) \<and>
               \<not> prefix ''.staging-'' (trim_space c)))"

definition keeps_items :: "disk \<Rightarrow> disk \<Rightarrow> bool" where
  "keeps_items d0 d \<longleftrightarrow> dk_places d = dk_places d0 \<and> dk_umask d = dk_umask d0 \<and>
     (\<forall>n. n \<noteq> latest_file \<longrightarrow> store_item d0 n \<noteq> None \<longrightarrow> store_item d n = store_item d0 n)"

definition unpublished :: "disk \<Rightarrow> disk \<Rightarrow> bool" where
  "unpublished d0 d \<longleftrightarrow> keeps_items d0 d \<and> store_item d latest_file = store_item d0 latest_file"

definition published :: "disk \<Rightarrow> string \<Rightarrow> tree \<Rightarrow> disk \<Rightarrow> bool" where
  "published d0 i t d \<longleftrightarrow> keeps_items d0 d \<and> store_item d latest_file = Some (StoreFile (i @ ''\<newline>'')) \<and>
     store_item d i = Some (StoreTree t)"

definition ready :: "disk \<Rightarrow> string \<Rightarrow> tree \<Rightarrow> disk \<Rightarrow> bool" where
  "ready d0 i t d \<longleftrightarrow> unpublished d0 d \<and> store_item d i = Some (StoreTree t)"

lemmas publish_defs = keeps_items_def unpublished_def published_def ready_def

lemma outside_unpublished:
  "outside d0 name d \<Longrightarrow> store_item d0 name = None \<Longrightarrow> name \<noteq> latest_file \<Longrightarrow> unpublished d0 d"
  unfolding outside_def publish_defs by metis

lemma triple_drop:
  assumes "\<And>d. P d \<Longrightarrow> P (drop_item name d)"
  shows "triple P (io_act (\<lambda>d. Inr (drop_item name d))) (\<lambda>_. P) P"
  by (rule triple_act) (use assms in auto)

lemma publish_latest_triple:
  assumes "temp_ok temp" "i \<noteq> latest_file"
  shows "triple (ready d0 i t) (publish_latest temp i) (\<lambda>_. published d0 i t) (\<lambda>d. unpublished d0 d \<or> published d0 i t d)"
  unfolding publish_latest_def
proof (rule triple_then, rule triple_wrapped)
  let ?named = "\<lambda>name d. name \<noteq> latest_file \<and> name \<noteq> i \<and> store_item d0 name = None \<and> ready d0 i t d"
  show "triple (ready d0 i t) (make_temp temp ''.latest-'' (StoreFile [])) ?named (\<lambda>d. unpublished d0 d \<or> published d0 i t d)"
    unfolding make_temp_def
  proof (rule triple_sys)
    fix d name d' assume d: "ready d0 i t d" and go: "(if dk_store d = None then Inl (Text ''no such file or directory'')
        else let name = ''.latest-'' @ temp ''.latest-'' (store_names d) in Inr (name, put_item name (StoreFile []) d)) = Inr (name, d')"
    let ?name = "''.latest-'' @ temp ''.latest-'' (store_names d)"
    have name: "name = ?name" "d' = put_item ?name (StoreFile []) d" "dk_store d \<noteq> None"
      using go by (auto simp: Let_def split: if_splits)
    have "?name \<notin> set (store_names d)" using assms(1) unfolding temp_ok_def by blast
    then have "store_item d name = None" using name(1) by (simp only: store_names_None)
    moreover have "name \<noteq> latest_file" by (simp add: name latest_file_def)
    ultimately show "?named name d'"
      using d name by (auto simp: publish_defs)
  qed (auto simp: ready_def)
  fix name
  let ?fin = "\<lambda>d. name \<noteq> latest_file \<and> name \<noteq> i \<and> store_item d0 name = None \<and> published d0 i t d"
  let ?part = "\<lambda>d. name \<noteq> latest_file \<and> name \<noteq> i \<and> store_item d0 name = None \<and> (unpublished d0 d \<or> published d0 i t d)"
  let ?written = "\<lambda>d. ?named name d \<and> store_item d name = Some (StoreFile (i @ ''\<newline>''))"
  let ?wr = "wrapped (\<lambda>e. Format ''write latest checkpoint pointer: %w'' [TextArg e])
      (closing (and_then (io_act (write_pointer name (i @ ''\<newline>''))) (\<lambda>_. io_sync)))"
  let ?rename = "wrapped (\<lambda>e. Format ''publish latest checkpoint pointer: %w'' [TextArg e]) (io_act (rename_item name latest_file))"
  let ?sync = "wrapped (\<lambda>e. Format ''sync latest checkpoint pointer: %w'' [TextArg e]) io_sync"
  have wrote: "triple (?named name) ?wr (\<lambda>_. ?written) ?part"
  proof (intro triple_wrapped triple_closing triple_then [where Q' = "\<lambda>_. ?written"] triple_act triple_sync)
    fix d d' assume d: "?named name d" and go: "write_pointer name (i @ ''\<newline>'') d = Inr d'"
    then have "dk_store d \<noteq> None" using store_item_SomeD by (auto simp: ready_def)
    with d go show "?written d'" by (auto simp: write_pointer_def publish_defs split: if_splits)
  qed (auto simp: ready_def)
  have renamed: "triple ?written ?rename (\<lambda>_. ?fin) ?part"
  proof (intro triple_wrapped triple_act)
    fix d d' assume d: "?written d" and go: "rename_item name latest_file d = Inr d'"
    then have "dk_store d \<noteq> None" using store_item_SomeD by (auto simp: ready_def)
    with d go show "?fin d'"
      using assms(2) by (auto simp: rename_item_def publish_defs split: option.splits store_item.splits)
  qed (auto simp: ready_def)
  have synced: "triple ?fin ?sync (\<lambda>_. ?fin) ?part"
    by (intro triple_wrapped triple_sync) auto
  have "triple (?named name) (finally_do (and_then ?wr (\<lambda>_. and_then ?rename (\<lambda>_. ?sync)))
      (io_act (\<lambda>d. Inr (drop_item name d)))) (\<lambda>_. ?fin) ?part"
    by (intro triple_finally triple_then [OF wrote] triple_then [OF renamed] synced triple_drop)
      (auto simp: publish_defs)
  then show "triple (?named name) (finally_do (and_then ?wr (\<lambda>_. and_then ?rename (\<lambda>_. ?sync)))
      (io_act (\<lambda>d. Inr (drop_item name d)))) (\<lambda>_. published d0 i t) (\<lambda>d. unpublished d0 d \<or> published d0 i t d)"
    by (rule triple_conseq) auto
qed

text \<open>The tree of a published checkpoint: its manifest, and the archives of what it captured.\<close>

definition complete_tree :: "codec \<Rightarrow> (string \<Rightarrow> place option) \<Rightarrow> checkpoint_state \<Rightarrow> tree \<Rightarrow> bool" where
  "complete_tree cd T st t \<longleftrightarrow>
     (\<exists>F encoded contents. holds F t \<and>
        list_all (captured cd T F) (kp_workspaces st @ map (session_tree (kp_session_store st)) (kp_sessions st)) \<and>
        cd_state cd st = Inr encoded \<and> cd_manifest cd (st, cd_sha cd encoded) = Inr contents \<and>
        F manifest_file = Some contents)"

text \<open>The state a commit saves: the given one with what the snapshot added.\<close>

definition saves :: "checkpoint_state \<Rightarrow> checkpoint_state \<Rightarrow> bool" where
  "saves st st' \<longleftrightarrow>
     (\<exists>ws ss. st' = st\<lparr>kp_workspaces := ws, kp_sessions := ss\<rparr> \<and> sessions_named (kp_sessions st) ss \<and>
        workspace_paths (kp_registry st) (kp_roots st) = Inr (map kw_path ws))"

lemma snapshot_sessions_triple:
  assumes "places_ok (dk_places d0)" "within (slots ''workspaces'') F"
  shows "triple (staged d0 name (holds F)) (snapshot_sessions cd name st)
     (\<lambda>st' d. \<exists>ss. st' = st\<lparr>kp_sessions := ss\<rparr> \<and> sessions_named (kp_sessions st) ss \<and>
        snapshot_post cd d0 name (slots ''workspaces'' \<union> slots ''sessions'') F (map (session_tree (kp_session_store st)) ss) d)
     (outside d0 name)"
proof -
  have free: "\<forall>i \<ge> 0. [''sessions'', show_int03 (int i)] \<notin> slots ''workspaces''" by (auto simp: slots_def)
  note copy = staged_copy_sessions [OF assms free]
  show ?thesis
  proof (cases "kp_sessions st = []")
    case True
    then have "st = st\<lparr>kp_sessions := []\<rparr>" by simp
    with True assms(2) show ?thesis
      by (auto simp: snapshot_sessions_def snapshot_post_def sessions_named_def intro!: triple_return exI [of _ "[]"] exI [of _ F]
          intro: within_mono)
  next
    case False
    then show ?thesis
      by (auto simp: snapshot_sessions_def intro!: triple_fail triple_then [OF copy] triple_return intro: staged_outside)
  qed
qed

lemma snapshot_workspaces_triple:
  assumes "places_ok (dk_places d0)"
  shows "triple (staged d0 name (holds Map.empty)) (snapshot_workspaces cd name registry roots)
     (\<lambda>ws d. workspace_paths registry roots = Inr (map kw_path ws) \<and>
        snapshot_post cd d0 name (slots ''workspaces'') Map.empty ws d) (outside d0 name)"
  unfolding snapshot_workspaces_def
proof (rule triple_then [where Q' = "\<lambda>paths d. workspace_paths registry roots = Inr paths \<and> staged d0 name (holds Map.empty) d"])
  fix paths
  have copy: "triple (staged d0 name (holds Map.empty)) (copy_workspaces cd name 0 paths)
     (\<lambda>ws d. map kw_path ws = paths \<and> snapshot_post cd d0 name ({} \<union> slots ''workspaces'') Map.empty ws d) (outside d0 name)"
    by (rule staged_copy_workspaces [OF assms]) (simp_all add: within_def)
  show "triple (\<lambda>d. workspace_paths registry roots = Inr paths \<and> staged d0 name (holds Map.empty) d)
     (copy_workspaces cd name 0 paths) (\<lambda>ws d. workspace_paths registry roots = Inr (map kw_path ws) \<and>
        snapshot_post cd d0 name (slots ''workspaces'') Map.empty ws d) (outside d0 name)"
    by (rule triple_pre, rule triple_conseq [OF copy]) auto
qed (auto intro!: triple_of intro: staged_outside)

lemma staged_write_new:
  assumes "F p = None"
  shows "triple (staged d0 name (holds F)) (write_synced_file (in_item name) p contents mode)
     (\<lambda>_. staged d0 name (holds (F(p \<mapsto> contents)))) (outside d0 name)"
proof -
  have same: "F(p := None) = F" using assms by auto
  have "triple (staged d0 name (holds F)) (io_act (\<lambda>d. in_item name (create_new_file (masked d mode) p) d))
      (\<lambda>_. staged d0 name (holds F)) (outside d0 name)"
    unfolding masked_def
    by (rule staged_act [where f = "\<lambda>um. create_new_file (mode AND NOT um) p"])
      (use same in \<open>auto dest!: create_new_file_effect dest: holds_other\<close>)
  moreover have "triple (staged d0 name (holds F)) (io_act (in_item name (write_file contents p)))
      (\<lambda>_. staged d0 name (holds (F(p \<mapsto> contents)))) (outside d0 name)"
    by (rule staged_act_plain) (use same in \<open>auto intro: holds_written\<close>)
  ultimately show ?thesis
    unfolding write_synced_file_def
    by (intro triple_then triple_closing) (auto intro: triple_then staged_sync staged_outside)
qed

lemma snapshot_post_append:
  assumes "list_all (captured cd (dk_places d0) F) ws" "snapshot_post cd d0 name U F ss d"
  shows "snapshot_post cd d0 name U Map.empty (ws @ ss) d"
proof -
  obtain G where G: "F \<subseteq>\<^sub>m G" "within U G" "list_all (captured cd (dk_places d0) G) ss" "staged d0 name (holds G) d"
    using assms(2) by (auto simp: snapshot_post_def)
  have "list_all (captured cd (dk_places d0) G) ws"
    using assms(1) G(1) by (auto simp: list_all_iff intro: captured_mono)
  with G show ?thesis unfolding snapshot_post_def by (intro exI [of _ G]) simp
qed

definition snapped :: "codec \<Rightarrow> disk \<Rightarrow> string \<Rightarrow> checkpoint_state \<Rightarrow> checkpoint_state \<Rightarrow> disk \<Rightarrow> bool" where
  "snapped cd d0 name st st' d \<longleftrightarrow> saves st st' \<and>
     snapshot_post cd d0 name (slots ''workspaces'' \<union> slots ''sessions'') Map.empty
       (kp_workspaces st' @ map (session_tree (kp_session_store st')) (kp_sessions st')) d"

lemma snapped_triple:
  assumes "places_ok (dk_places d0)" "workspace_paths (kp_registry st) (kp_roots st) = Inr (map kw_path ws)"
  shows "triple (snapshot_post cd d0 name (slots ''workspaces'') Map.empty ws)
     (snapshot_sessions cd name (st\<lparr>kp_workspaces := ws\<rparr>)) (snapped cd d0 name st) (outside d0 name)"
proof (rule snapshot_postE)
  fix G assume G: "within (slots ''workspaces'') G" "list_all (captured cd (dk_places d0) G) ws"
  show "triple (staged d0 name (holds G)) (snapshot_sessions cd name (st\<lparr>kp_workspaces := ws\<rparr>))
      (snapped cd d0 name st) (outside d0 name)"
    by (rule triple_conseq [OF snapshot_sessions_triple [OF assms(1) G(1)]])
      (use assms(2) in \<open>auto simp: snapped_def saves_def intro!: snapshot_post_append [OF G(2)]\<close>)
qed

lemma manifest_triple:
  assumes "cd_state cd st' = Inr encoded" "cd_manifest cd (st', cd_sha cd encoded) = Inr contents"
  shows "triple (snapped cd d0 name st st') (write_synced_file (in_item name) manifest_file contents 0x180)
     (\<lambda>_ d. saves st st' \<and> staged d0 name (complete_tree cd (dk_places d0) st') d) (outside d0 name)"
  unfolding snapped_def
proof (rule triple_pre, rule snapshot_postE)
  fix G
  let ?trees = "kp_workspaces st' @ map (session_tree (kp_session_store st')) (kp_sessions st')"
  assume saves: "saves st st'" and within: "within (slots ''workspaces'' \<union> slots ''sessions'') G"
    and cap: "list_all (captured cd (dk_places d0) G) ?trees"
  have "take 2 (split_on CHR ''/'' manifest_file) = [manifest_file]" by code_simp
  then have new: "G manifest_file = None"
    using within by (fastforce simp: within_def slots_def dom_def)
  then have "G \<subseteq>\<^sub>m G(manifest_file \<mapsto> contents)" by (auto simp: map_le_def)
  with cap have cap': "list_all (captured cd (dk_places d0) (G(manifest_file \<mapsto> contents))) ?trees"
    unfolding list_all_iff using captured_mono by blast
  show "triple (staged d0 name (holds G)) (write_synced_file (in_item name) manifest_file contents 0x180)
     (\<lambda>_ d. saves st st' \<and> staged d0 name (complete_tree cd (dk_places d0) st') d) (outside d0 name)"
  proof (rule triple_conseq [OF staged_write_new [where F = G, OF new]])
    fix d assume "staged d0 name (holds (G(manifest_file \<mapsto> contents))) d"
    then show "saves st st' \<and> staged d0 name (complete_tree cd (dk_places d0) st') d"
    proof (rule conjI [OF saves staged_mono])
      fix t assume "holds (G(manifest_file \<mapsto> contents)) t"
      then show "complete_tree cd (dk_places d0) st' t"
        unfolding complete_tree_def using cap' assms by (intro exI [of _ "G(manifest_file \<mapsto> contents)"]) auto
    qed
  qed auto
qed

text \<open>Where a commit ends: with the old pointer, or with the new checkpoint.\<close>

definition newly_published :: "codec \<Rightarrow> disk \<Rightarrow> string \<Rightarrow> checkpoint_state \<Rightarrow> disk \<Rightarrow> bool" where
  "newly_published cd d0 name st d \<longleftrightarrow>
     (\<exists>st' t. saves st st' \<and> complete_tree cd (dk_places d0) st' t \<and> kp_id st \<noteq> name \<and> published d0 (kp_id st) t d)"

lemma saves_id: "saves st st' \<Longrightarrow> kp_id st' = kp_id st"
  by (auto simp: saves_def)

lemma publish_tail_triple:
  assumes "temp_ok temp" "store_item d0 name = None" "name \<noteq> latest_file" "i \<noteq> latest_file"
  shows "triple (\<lambda>d. staged d0 name T d \<and> \<not> store_has i d)
     (and_then (wrapped f (io_act (rename_item name i))) (\<lambda>_. and_then (wrapped g io_sync) (\<lambda>_. publish_latest temp i)))
     (\<lambda>_ d. \<exists>t. T t \<and> i \<noteq> name \<and> published d0 i t d) (\<lambda>d. unpublished d0 d \<or> (\<exists>t. T t \<and> i \<noteq> name \<and> published d0 i t d))"
proof -
  let ?ready = "\<lambda>d. \<exists>t. T t \<and> i \<noteq> name \<and> ready d0 i t d"
  let ?R = "\<lambda>d. unpublished d0 d \<or> (\<exists>t. T t \<and> i \<noteq> name \<and> published d0 i t d)"
  have renamed: "triple (\<lambda>d. staged d0 name T d \<and> \<not> store_has i d) (wrapped f (io_act (rename_item name i))) (\<lambda>_. ?ready) ?R"
  proof (rule triple_wrapped, rule triple_act)
    fix d d' assume d: "staged d0 name T d \<and> \<not> store_has i d" and go: "rename_item name i d = Inr d'"
    then obtain t where t: "store_item d name = Some (StoreTree t)" "T t" "outside d0 name d" and free: "store_item d i = None"
      by (auto simp: staged_def store_has_def)
    have d': "d' = put_item i (StoreTree t) (drop_item name d)" "dk_store d \<noteq> None"
      using go t free store_item_SomeD by (auto simp: rename_item_def)
    have "i \<noteq> name" using t free by auto
    moreover have "ready d0 i t d'"
      using t(1,3) free assms(2-4) unfolding d'(1) outside_def publish_defs by (simp add: d'(2)) (metis option.distinct(1))
    ultimately show "?ready d'" using t(2) by blast
  qed (auto intro: outside_unpublished [OF _ assms(2,3)] staged_outside)
  have latest: "triple ?ready (publish_latest temp i) (\<lambda>_ d. \<exists>t. T t \<and> i \<noteq> name \<and> published d0 i t d) ?R"
    by (intro triple_ex triple_pre, rule triple_conseq [OF publish_latest_triple [OF assms(1,4)]]) auto
  show ?thesis
    by (intro triple_then [OF renamed] triple_then [where Q' = "\<lambda>_. ?ready"] triple_wrapped triple_sync latest)
      (auto simp: ready_def)
qed

lemma publish_checkpoint_triple:
  assumes "temp_ok temp" "places_ok (dk_places d0)" "store_item d0 name = None" "name \<noteq> latest_file" "kp_id st \<noteq> latest_file"
  shows "triple (staged d0 name (holds Map.empty)) (publish_checkpoint cd temp name st)
     (\<lambda>_. newly_published cd d0 name st) (\<lambda>d. unpublished d0 d \<or> newly_published cd d0 name st d)"
proof -
  let ?Q = "newly_published cd d0 name st" and ?R = "\<lambda>d. unpublished d0 d \<or> newly_published cd d0 name st d"
  have away: "unpublished d0 d" if "outside d0 name d" for d by (rule outside_unpublished [OF that assms(3,4)])
  have weaken: "triple P p Q ?R" if "triple P p Q (outside d0 name)" for P and p :: "'x io" and Q
    by (rule triple_conseq [OF that]) (auto intro: away)
  have snapped: "triple (\<lambda>d. workspace_paths (kp_registry st) (kp_roots st) = Inr (map kw_path ws) \<and>
        snapshot_post cd d0 name (slots ''workspaces'') Map.empty ws d)
      (snapshot_sessions cd name (st\<lparr>kp_workspaces := ws\<rparr>)) (snapped cd d0 name st) (outside d0 name)" for ws
    by (rule triple_pre, rule snapped_triple [OF assms(2)])
  have pure: "triple P (wrapped f (io_of r)) (\<lambda>x d. r = Inr x \<and> P d) (outside d0 name)"
    if "\<And>d. P d \<Longrightarrow> outside d0 name d" for P f and r :: "error + 'x"
    by (rule triple_wrapped, rule triple_of) (use that in auto)
  have out: "snapped cd d0 name st st' d \<Longrightarrow> outside d0 name d" for st' d
    by (auto simp: snapped_def intro: snapshot_post_outside)
  let ?tail = "\<lambda>i. and_then (wrapped (\<lambda>e. Format ''publish checkpoint: %w'' [TextArg e]) (io_act (rename_item name i)))
      (\<lambda>_. and_then (wrapped (\<lambda>e. Format ''sync published checkpoint directory: %w'' [TextArg e]) io_sync) (\<lambda>_. publish_latest temp i))"
  have last: "triple (\<lambda>d. saves st st' \<and> staged d0 name (complete_tree cd (dk_places d0) st') d)
      (and_then (wrapped (\<lambda>e. Format ''sync checkpoint staging directory: %w'' [TextArg e]) io_sync) (\<lambda>_.
       and_then (wrapped (\<lambda>e. Format ''stat checkpoint destination: %w'' [TextArg e]) (io_ask (\<lambda>d. Inr (store_has (kp_id st') d)))) (\<lambda>exists.
       if exists then io_fail (Format ''checkpoint %q already exists'' [StrArg (kp_id st')]) else ?tail (kp_id st'))))
      (\<lambda>_. ?Q) ?R" for st'
  proof (rule triple_pre, rule triple_then [OF weaken [OF triple_wrapped [OF staged_sync]]], rule triple_then)
    assume saves: "saves st st'"
    let ?T = "complete_tree cd (dk_places d0) st'"
    show "triple (staged d0 name ?T) (wrapped (\<lambda>e. Format ''stat checkpoint destination: %w'' [TextArg e])
        (io_ask (\<lambda>d. Inr (store_has (kp_id st') d)))) (\<lambda>exists d. staged d0 name ?T d \<and> store_has (kp_id st') d = exists) ?R"
      by (rule triple_wrapped, rule triple_ask) (auto intro: away staged_outside)
    fix exists
    have fin: "triple (\<lambda>d. staged d0 name ?T d \<and> \<not> store_has (kp_id st') d) (?tail (kp_id st')) (\<lambda>_. ?Q) ?R"
      using saves saves_id [OF saves] assms(5)
      by (intro triple_conseq [OF publish_tail_triple [OF assms(1,3,4), of "kp_id st'" ?T]])
        (auto simp: newly_published_def)
    show "triple (\<lambda>d. staged d0 name ?T d \<and> store_has (kp_id st') d = exists)
        (if exists then io_fail (Format ''checkpoint %q already exists'' [StrArg (kp_id st')]) else ?tail (kp_id st')) (\<lambda>_. ?Q) ?R"
      using fin by (cases exists) (auto intro!: triple_fail intro: away staged_outside)
  qed
  show ?thesis
    unfolding publish_checkpoint_def
    by (rule triple_then [OF weaken [OF snapshot_workspaces_triple [OF assms(2)]]], rule triple_then [OF weaken [OF snapped]],
        rule triple_then [OF weaken [OF pure [OF out]]], assumption, rule triple_then [OF weaken [OF pure [OF out [OF conjunct2]]]], assumption,
        rule triple_pre, rule triple_pre, rule triple_then [OF weaken [OF triple_wrapped [OF manifest_triple]]], assumption, assumption, rule last)
qed

section \<open>Commit is atomic\<close>

text \<open>The ID reads back from the pointer, and is not a name the store uses itself.\<close>

definition id_ok :: "string \<Rightarrow> bool" where
  "id_ok i \<longleftrightarrow> trim_space (i @ ''\<newline>'') = i \<and> i \<noteq> latest_file \<and> \<not> prefix ''.staging-'' i"

definition codec_ok :: "codec \<Rightarrow> bool" where
  "codec_ok cd \<longleftrightarrow> (\<forall>x contents. cd_manifest cd x = Inr contents \<longrightarrow> cd_load_manifest cd contents = Inr x)"

text \<open>The checkpoint of \<open>st\<close> is on the disk, and holds the trees the places \<open>T\<close> had.\<close>

definition saved :: "codec \<Rightarrow> (string \<Rightarrow> place option) \<Rightarrow> checkpoint_state \<Rightarrow> disk \<Rightarrow> bool" where
  "saved cd T st d \<longleftrightarrow> (\<exists>t. store_item d (kp_id st) = Some (StoreTree t) \<and> complete_tree cd T st t)"

definition newly_saved ::
    "codec \<Rightarrow> error + string \<Rightarrow> int \<Rightarrow> string \<Rightarrow> checkpoint_state \<Rightarrow> disk \<Rightarrow> disk \<Rightarrow> bool" where
  "newly_saved cd new_id now run st d0 d \<longleftrightarrow>
     (\<exists>i st'. chosen_id new_id st = Inr i \<and> saves (stamped i now (default_schema st)) st' \<and> saved cd (dk_places d0) st' d \<and>
        load_checkpoint cd run d = Inr st')"

lemma make_store_simps [simp]:
  "store_item (make_store d) = store_item d" "dk_places (make_store d) = dk_places d" "dk_umask (make_store d) = dk_umask d"
  "dk_store (make_store d) \<noteq> None"
  by (auto simp: make_store_def store_item_def split: option.splits)

lemma unpublished_make_store: "unpublished d0 (make_store d0)"
  by (simp add: publish_defs)

lemma base_make_store [simp]:
  "unpublished (make_store d0) d = unpublished d0 d" "published (make_store d0) i t d = published d0 i t d"
  by (simp_all add: publish_defs)

lemma newly_published_make_store [simp]:
  "newly_published cd (make_store d0) name st = newly_published cd d0 name st"
  by (simp add: newly_published_def fun_eq_iff)

lemma chosen_default [simp]: "chosen_id new_id (default_schema st) = chosen_id new_id st"
  by (simp add: chosen_id_def default_schema_def)

definition committed :: "codec \<Rightarrow> error + string \<Rightarrow> int \<Rightarrow> string \<Rightarrow> checkpoint_state \<Rightarrow> disk \<Rightarrow> disk \<Rightarrow> bool" where
  "committed cd new_id now run st d0 d \<longleftrightarrow>
     \<not> blank run \<and> kp_schema (default_schema st) = CurrentSchemaVersion \<and>
     (\<exists>i name. chosen_id new_id st = Inr i \<and> checkpoint_id_error i = None \<and>
        newly_published cd d0 name (stamped i now (default_schema st)) d)"

lemma drop_unpublished: "unpublished d0 d \<Longrightarrow> store_item d0 name = None \<Longrightarrow> unpublished d0 (drop_item name d)"
  by (auto simp: publish_defs)

lemma drop_newly_published:
  "newly_published cd d0 name st d \<Longrightarrow> store_item d0 name = None \<Longrightarrow> name \<noteq> latest_file \<Longrightarrow>
     newly_published cd d0 name st (drop_item name d)"
  by (auto simp: newly_published_def publish_defs)

lemma commit_triple:
  assumes "temp_ok temp" "places_ok (dk_places d0)" "\<And>i. chosen_id new_id st = Inr i \<Longrightarrow> i \<noteq> latest_file"
  shows "triple (\<lambda>d. d = d0) (commit_checkpoint cd temp new_id now run st)
     (\<lambda>_. committed cd new_id now run st d0) (\<lambda>d. unpublished d0 d \<or> committed cd new_id now run st d0 d)"
    (is "triple _ _ _ ?R")
proof -
  let ?st = "default_schema st"
  have start: "unpublished d0 d0" by (simp add: publish_defs)
  have body: "triple (\<lambda>d. d = make_store d0) (and_then (wrapped f (make_temp temp ''.staging-'' (StoreTree [])))
      (\<lambda>stage. finally_do (publish_checkpoint cd temp stage (stamped i now ?st)) (io_act (\<lambda>d. Inr (drop_item stage d)))))
      (\<lambda>_. committed cd new_id now run st d0) ?R"
    if i: "chosen_id new_id st = Inr i" "checkpoint_id_error i = None" "\<not> blank run" "kp_schema ?st = CurrentSchemaVersion" for i f
  proof (rule triple_then, rule triple_wrapped)
    let ?staged = "\<lambda>name d. store_item d0 name = None \<and> name \<noteq> latest_file \<and> staged (make_store d0) name (holds Map.empty) d"
    show "triple (\<lambda>d. d = make_store d0) (make_temp temp ''.staging-'' (StoreTree [])) ?staged ?R"
      unfolding make_temp_def
    proof (rule triple_sys)
      fix d name d' assume d: "d = make_store d0" and go: "(if dk_store d = None then Inl (Text ''no such file or directory'')
        else let name = ''.staging-'' @ temp ''.staging-'' (store_names d) in Inr (name, put_item name (StoreTree []) d)) = Inr (name, d')"
      let ?name = "''.staging-'' @ temp ''.staging-'' (store_names d)"
      have name: "name = ?name" "d' = put_item ?name (StoreTree []) d" "dk_store d \<noteq> None"
        using go by (auto simp: Let_def split: if_splits)
      have "?name \<notin> set (store_names d)" using assms(1) unfolding temp_ok_def by blast
      then have "store_item d0 name = None" using name(1) d by (simp only: store_names_None make_store_simps)
      moreover have "name \<noteq> latest_file" by (simp add: name latest_file_def)
      ultimately show "?staged name d'"
        using d name by (auto simp: staged_def outside_def holds_def)
    qed (use start unpublished_make_store in auto)
    fix name
    have id: "kp_id (stamped i now ?st) \<noteq> latest_file" using assms(3) i(1) by (simp add: stamped_def)
    let ?new = "newly_published cd d0 name (stamped i now ?st)"
    have "triple (?staged name) (finally_do (publish_checkpoint cd temp name (stamped i now ?st)) (io_act (\<lambda>d. Inr (drop_item name d))))
        (\<lambda>_ d. store_item d0 name = None \<and> name \<noteq> latest_file \<and> ?new d)
        (\<lambda>d. store_item d0 name = None \<and> name \<noteq> latest_file \<and> (unpublished d0 d \<or> ?new d))"
    proof (intro triple_finally triple_drop triple_pre)
      assume "store_item d0 name = None" "name \<noteq> latest_file"
      with publish_checkpoint_triple [OF assms(1), of "make_store d0" name "stamped i now ?st" cd] assms(2) id
      show "triple (staged (make_store d0) name (holds Map.empty)) (publish_checkpoint cd temp name (stamped i now ?st))
        (\<lambda>_ d. store_item d0 name = None \<and> name \<noteq> latest_file \<and> ?new d)
        (\<lambda>d. store_item d0 name = None \<and> name \<noteq> latest_file \<and> (unpublished d0 d \<or> ?new d))"
        by simp
    qed (auto intro: drop_unpublished drop_newly_published)
    then show "triple (?staged name) (finally_do (publish_checkpoint cd temp name (stamped i now ?st)) (io_act (\<lambda>d. Inr (drop_item name d))))
        (\<lambda>_. committed cd new_id now run st d0) ?R"
      by (rule triple_conseq) (use i in \<open>auto simp: committed_def\<close>)
  qed
  have made: "triple (\<lambda>d. d = d0) (wrapped f (io_act (\<lambda>d. Inr (make_store d)))) (\<lambda>_ d. d = make_store d0) ?R" for f
    by (rule triple_wrapped, rule triple_act) (use start in auto)
  have id: "triple (\<lambda>d. d = d0) (io_of (chosen_id new_id ?st)) (\<lambda>i d. chosen_id new_id ?st = Inr i \<and> d = d0) ?R"
    by (rule triple_of) (use start in auto)
  show ?thesis
  proof (cases "blank run \<or> kp_schema ?st \<noteq> CurrentSchemaVersion")
    case True
    then show ?thesis unfolding commit_checkpoint_def Let_def by (auto intro!: triple_fail simp: start)
  next
    case False
    have rest: "triple (\<lambda>d. d = make_store d0) (case checkpoint_id_error i of
          Some e \<Rightarrow> io_fail e
        | None \<Rightarrow>
            and_then (wrapped (\<lambda>e. Format ''create checkpoint staging directory: %w'' [TextArg e])
              (make_temp temp ''.staging-'' (StoreTree [])))
            (\<lambda>stage. finally_do (publish_checkpoint cd temp stage (stamped i now ?st)) (io_act (\<lambda>d. Inr (drop_item stage d)))))
        (\<lambda>_. committed cd new_id now run st d0) ?R" if "chosen_id new_id ?st = Inr i" for i
      using body that False by (auto intro!: triple_fail simp: unpublished_make_store split: option.split)
    show ?thesis
      unfolding commit_checkpoint_def Let_def
      using False by (auto simp del: chosen_default intro!: triple_then [OF id] triple_pre triple_then [OF made] rest)
  qed
qed

section \<open>What Load reads\<close>

lemma verify_entries_cong:
  "store_item d i = store_item d' i \<Longrightarrow> verify_entries cd i archive es d = verify_entries cd i archive es d'"
  by (induction es) (simp_all add: read_item_def split: option.split sum.split)

lemma verify_workspaces_cong:
  "store_item d i = store_item d' i \<Longrightarrow> verify_workspaces cd i ws d = verify_workspaces cd i ws d'"
  by (induction ws) (simp_all add: verify_entries_cong [of d i d'] split: option.split)

lemma verify_sessions_cong:
  "store_item d i = store_item d' i \<Longrightarrow> verify_sessions cd i ss d = verify_sessions cd i ss d'"
  by (induction ss) (simp_all add: verify_entries_cong [of d i d'] split: option.split)

lemma load_cong:
  assumes "store_item d latest_file = store_item d' latest_file"
    and "\<And>c. store_item d latest_file = Some (StoreFile c) \<Longrightarrow> store_item d (trim_space c) = store_item d' (trim_space c)"
  shows "load_checkpoint cd run d = load_checkpoint cd run d'"
proof -
  have pointer: "read_pointer d = read_pointer d'" using assms(1) by (simp add: read_pointer_def)
  show ?thesis
  proof (cases "read_pointer d")
    case (Inr c)
    then have "store_item d latest_file = Some (StoreFile c)"
      by (auto simp: read_pointer_def split: option.splits store_item.splits)
    then have item: "store_item d (trim_space c) = store_item d' (trim_space c)" by (rule assms(2))
    then have "read_item (trim_space c) p d = read_item (trim_space c) p d'" for p by (simp add: read_item_def)
    then show ?thesis
      using Inr pointer verify_workspaces_cong [OF item] verify_sessions_cong [OF item]
      by (simp add: load_checkpoint_def Let_def cong: sum.case_cong option.case_cong prod.case_cong if_cong)
  qed (use pointer in \<open>simp add: load_checkpoint_def\<close>)
qed

lemma unpublished_same:
  assumes "unpublished d0 d" "store_inv d0"
  shows "store_inv d" and "load_checkpoint cd run d = load_checkpoint cd run d0"
proof -
  have latest: "store_item d latest_file = store_item d0 latest_file" using assms(1) by (simp add: unpublished_def)
  have same: "store_item d (trim_space c) = store_item d0 (trim_space c)" if "store_item d0 latest_file = Some (StoreFile c)" for c
  proof (cases "trim_space c = latest_file")
    case False
    then show ?thesis using assms that unfolding store_inv_def publish_defs by fastforce
  qed (use latest in simp)
  show "store_inv d"
    unfolding store_inv_def latest
  proof (intro allI impI)
    fix item assume "store_item d0 latest_file = Some item"
    with assms(2) obtain c t where "item = StoreFile c" "store_item d0 latest_file = Some (StoreFile c)"
        "store_item d0 (trim_space c) = Some (StoreTree t)" "\<not> prefix ''.staging-'' (trim_space c)"
      unfolding store_inv_def by blast
    with same show "\<exists>c t. item = StoreFile c \<and> store_item d (trim_space c) = Some (StoreTree t) \<and> \<not> prefix ''.staging-'' (trim_space c)"
      by auto
  qed
  show "load_checkpoint cd run d = load_checkpoint cd run d0"
    by (rule load_cong [OF latest]) (use same latest in simp)
qed

lemma verify_captured:
  assumes "captured cd T F w" "places_ok T" "store_item d i = Some (StoreTree t)" "holds F t"
  shows "verify_workspaces cd i [w] d = None"
proof -
  obtain t0 where t0: "relative_path_error (kw_archive w) = None" "T (clean (kw_path w)) = Some (PlaceTree t0)"
      "list_all (\<lambda>m. copyable (snd m)) t0" "kw_entries w = map (file_of cd) (walk t0)" "archived F (kw_archive w) t0"
    using assms(1) by (auto simp: captured_def)
  then have ok: "tree_ok t0" using assms(2) by (auto simp: places_ok_def)
  have "verify_entries cd i (kw_archive w) (map (file_of cd) ms) d = None" if "set ms \<subseteq> set t0" for ms
    using that
  proof (induction ms)
    case (Cons m ms)
    then have m: "path_ok (fst m)" "copyable (snd m)" using ok t0(3) by (auto simp: tree_ok_def list_all_iff)
    show ?case
    proof (cases "(cd, m)" rule: file_of.cases)
      case (1 cd' p mode c)
      then have "F (join_path (kw_archive w) p) = Some c" using t0(5) Cons.prems by (auto simp: archived_def)
      then have "read_item i (join_path (kw_archive w) p) d = Inr c"
        using assms(3,4) by (simp add: read_item_def holds_def)
      with 1 Cons m path_ok_simps(3) [OF m(1)] show ?thesis by simp
    qed (use Cons m path_ok_simps(3) [OF m(1)] in \<open>auto simp: copyable_def\<close>)
  qed simp
  with t0 show ?thesis by simp
qed

lemma verify_workspaces_all:
  "verify_workspaces cd i ws d = None \<longleftrightarrow> list_all (\<lambda>w. verify_workspaces cd i [w] d = None) ws"
  by (induction ws) (auto split: option.splits)

lemma verify_sessions_all:
  "verify_sessions cd i ss d = None \<longleftrightarrow>
     list_all (\<lambda>s. checkpoint_id_error (ks_id s) = None \<and> verify_workspaces cd i [session_tree store s] d = None) ss"
  by (induction ss) (auto simp: session_tree_def split: option.splits)

lemma load_saved:
  assumes "codec_ok cd" "places_ok T" "\<not> blank run" "saved cd T st d" "kp_schema st = CurrentSchemaVersion"
    and "checkpoint_id_error (kp_id st) = None" "list_all (\<lambda>s. checkpoint_id_error (ks_id s) = None) (kp_sessions st)"
    and "store_item d latest_file = Some (StoreFile c)" "trim_space c = kp_id st"
  shows "load_checkpoint cd run d = Inr st"
proof -
  obtain t F encoded contents where t: "store_item d (kp_id st) = Some (StoreTree t)" "holds F t"
      "list_all (captured cd T F) (kp_workspaces st @ map (session_tree (kp_session_store st)) (kp_sessions st))"
      "cd_state cd st = Inr encoded" "cd_manifest cd (st, cd_sha cd encoded) = Inr contents" "F manifest_file = Some contents"
    using assms(4) by (auto simp: saved_def complete_tree_def)
  have "read_item (kp_id st) manifest_file d = Inr contents" using t by (simp add: read_item_def holds_def)
  moreover have "cd_load_manifest cd contents = Inr (st, cd_sha cd encoded)" using assms(1) t(5) by (simp add: codec_ok_def)
  moreover have ok: "verify_workspaces cd (kp_id st) [w] d = None" if "captured cd T F w" for w
    by (rule verify_captured [OF that assms(2) t(1,2)])
  have "verify_workspaces cd (kp_id st) (kp_workspaces st) d = None"
    unfolding verify_workspaces_all [of cd "kp_id st" "kp_workspaces st"] using t(3) ok by (auto simp: list_all_iff)
  moreover have "verify_sessions cd (kp_id st) (kp_sessions st) d = None"
    unfolding verify_sessions_all [where store = "kp_session_store st"] using t(3) ok assms(7) by (auto simp: list_all_iff)
  ultimately show ?thesis
    using assms(3,5,6,8,9) t(4) by (simp add: load_checkpoint_def read_pointer_def)
qed

lemma committed_saved:
  assumes "codec_ok cd" "places_ok (dk_places d0)" "\<And>i. chosen_id new_id st = Inr i \<Longrightarrow> id_ok i"
    and "committed cd new_id now run st d0 d"
  shows "newly_saved cd new_id now run st d0 d" and "store_inv d"
proof -
  obtain i name st' t where i: "chosen_id new_id st = Inr i" "checkpoint_id_error i = None" and run: "\<not> blank run"
    and schema: "kp_schema (default_schema st) = CurrentSchemaVersion"
    and new: "saves (stamped i now (default_schema st)) st'" "complete_tree cd (dk_places d0) st' t" "published d0 i t d"
    using assms(4) by (auto simp: committed_def newly_published_def stamped_def)
  have st': "kp_id st' = i" "kp_schema st' = CurrentSchemaVersion" "list_all (\<lambda>s. checkpoint_id_error (ks_id s) = None) (kp_sessions st')"
    using new(1) schema by (auto simp: saves_def stamped_def sessions_named_def)
  have id: "trim_space (i @ ''\<newline>'') = i" "\<not> prefix ''.staging-'' i" using assms(3) [OF i(1)] by (simp_all add: id_ok_def)
  have pub: "store_item d latest_file = Some (StoreFile (i @ ''\<newline>''))" "store_item d i = Some (StoreTree t)"
    using new(3) by (simp_all add: published_def)
  have saved: "saved cd (dk_places d0) st' d" using new(2) pub(2) st'(1) by (auto simp: saved_def)
  have "load_checkpoint cd run d = Inr st'"
    by (rule load_saved [OF assms(1,2) run saved st'(2) _ st'(3) pub(1)]) (use i(2) id st'(1) in simp_all)
  then show "newly_saved cd new_id now run st d0 d"
    using i new(1) saved by (auto simp: newly_saved_def)
  show "store_inv d" using pub id by (simp add: store_inv_def)
qed

lemma commit_outcome:
  assumes "codec_ok cd" and "temp_ok temp" and "\<And>i. chosen_id new_id st = Inr i \<Longrightarrow> id_ok i"
    and "store_inv (mc_disk m)" and "places_ok (dk_places (mc_disk m))"
    and "commit_checkpoint cd temp new_id now run st m = (out, m')"
  shows "store_inv (mc_disk m') \<and> keeps_items (mc_disk m) (mc_disk m') \<and>
    (newly_saved cd new_id now run st (mc_disk m) (mc_disk m') \<or>
     out \<noteq> Returned () \<and> load_checkpoint cd run (mc_disk m') = load_checkpoint cd run (mc_disk m))"
proof -
  have "i \<noteq> latest_file" if "chosen_id new_id st = Inr i" for i using assms(3) [OF that] by (simp add: id_ok_def)
  from tripleD [OF commit_triple [OF assms(2,5) this] refl assms(6)]
  consider "committed cd new_id now run st (mc_disk m) (mc_disk m')" | "out \<noteq> Returned ()" "unpublished (mc_disk m) (mc_disk m')"
    by (auto split: outcome.splits)
  then show ?thesis
  proof cases
    case 1
    then have "keeps_items (mc_disk m) (mc_disk m')"
      by (auto simp: committed_def newly_published_def published_def)
    with committed_saved [OF assms(1,5,3) 1] show ?thesis by blast
  next
    case 2
    then have "keeps_items (mc_disk m) (mc_disk m')" by (simp add: unpublished_def)
    with unpublished_same [OF 2(2) assms(4)] 2 show ?thesis by blast
  qed
qed


section \<open>A sample\<close>

text \<open>
  A workspace of one folder and one file, two states of a unit, and a codec that knows just
  these. A fresh name is made of all the names there are.
\<close>

definition sample_temp :: temp where
  "sample_temp p names = concat names @ ''x''"

definition sample_places :: "string \<Rightarrow> place option" where
  "sample_places = [''/w'' \<mapsto> PlaceTree [(''d'', FolderNode 0x1ED), (''d/a'', RegularFile 0x1A4 ''alpha'')]]"

definition changed_places :: "string \<Rightarrow> place option" where
  "changed_places = [''/w'' \<mapsto> PlaceTree [(''b'', RegularFile 0x1A4 ''beta'')]]"

definition sample_machine :: machine where
  "sample_machine = \<lparr>mc_disk = \<lparr>dk_store = None, dk_places = sample_places, dk_umask = 0x12\<rparr>, mc_left = 100, mc_faults = (\<lambda>_. None)\<rparr>"

definition sample_payload :: "string \<Rightarrow> checkpoint_state" where
  "sample_payload p =
     \<lparr>kp_schema = 0, kp_id = [], kp_created = 0, kp_registry = reg_snapshot_workspace new_registry ''/w'',
      kp_payload = p, kp_session_store = [], kp_sessions = [], kp_roots = [''/w''], kp_workspaces = []\<rparr>"

definition begun_state :: checkpoint_state where
  "begun_state =
     (sample_payload ''started'')\<lparr>kp_schema := 1, kp_id := ''c1'', kp_created := 7,
      kp_workspaces := [\<lparr>kw_path = ''/w'', kw_archive = ''workspaces/000'',
         kw_entries = [\<lparr>kf_path = ''d'', kf_directory = True, kf_mode = 0x1ED, kf_sha = []\<rparr>,
           \<lparr>kf_path = ''d/a'', kf_directory = False, kf_mode = 0x1A4, kf_sha = ''alpha''\<rparr>]\<rparr>]\<rparr>"

definition completed_state :: checkpoint_state where
  "completed_state =
     (sample_payload ''{}'')\<lparr>kp_schema := 1, kp_id := ''c2'', kp_created := 9,
      kp_workspaces := [\<lparr>kw_path = ''/w'', kw_archive = ''workspaces/000'',
         kw_entries = [\<lparr>kf_path = ''b'', kf_directory = False, kf_mode = 0x1A4, kf_sha = ''beta''\<rparr>]\<rparr>]\<rparr>"

definition sample_codec :: codec where
  "sample_codec =
     \<lparr>cd_state = (\<lambda>st. Inr (kp_id st)),
      cd_manifest = (\<lambda>x. if x = (begun_state, ''c1'') then Inr ''m1''
        else if x = (completed_state, ''c2'') then Inr ''m2'' else Inl (Text ''unsupported'')),
      cd_load_manifest = (\<lambda>c. if c = ''m1'' then Inr (begun_state, ''c1'')
        else if c = ''m2'' then Inr (completed_state, ''c2'') else Inl (Text ''unexpected end of JSON input'')),
      cd_sha = (\<lambda>s. s),
      cd_unit = (\<lambda>us. if us = \<lparr>us_status = UnitStarted, us_result = []\<rparr> then Inr ''started''
        else if us = \<lparr>us_status = UnitCompleted, us_result = ''{}''\<rparr> then Inr ''{}'' else Inl (Text ''unsupported'')),
      cd_load_unit = (\<lambda>c. if c = ''started'' then Inr \<lparr>us_status = UnitStarted, us_result = []\<rparr>
        else if c = ''{}'' then Inr \<lparr>us_status = UnitCompleted, us_result = ''{}''\<rparr> else Inl (Text ''unexpected end of JSON input'')),
      cd_valid = (\<lambda>r. r = ''{}'')\<rparr>"

lemma sample_codec_ok: "codec_ok sample_codec"
  by (simp add: codec_ok_def sample_codec_def)

lemma sample_temp_ok: "temp_ok sample_temp"
  unfolding temp_ok_def
proof (intro allI notI)
  have shorter: "length n \<le> length (concat names)" if "n \<in> set names" for n and names :: "string list"
    using that by (induction names) auto
  fix p names assume "p @ sample_temp p names \<in> set names"
  from shorter [OF this] have "length (p @ sample_temp p names) \<le> length (concat names)" .
  then show False by (simp add: sample_temp_def)
qed

lemma sample_ids_ok: "id_ok ''c1''" "id_ok ''c2''"
  unfolding id_ok_def by code_simp+

lemma sample_places_ok: "places_ok sample_places" "places_ok changed_places"
proof -
  have "path_ok ''d''" "path_ok ''d/a''" "path_ok ''b''" unfolding path_ok_def by code_simp+
  moreover have "ancestors ''d'' = []" "ancestors ''b'' = []" "ancestors ''d/a'' = [''d'']" by code_simp+
  ultimately show "places_ok sample_places" "places_ok changed_places"
    by (auto simp: places_ok_def tree_ok_def sample_places_def changed_places_def split: if_splits)
qed


end
