(* ===== verification/Checkpoint_Restore.thy ===== *)
theory Checkpoint_Restore
  imports Checkpoint_Store
begin

unbundle bit_operations_syntax

text \<open>
  What restoring a checkpoint gives back, and the two durable states of a unit: the proofs about
  \<^verbatim>\<open>Restore\<close>, \<^verbatim>\<open>RestoreWorkspace\<close> and \<^verbatim>\<open>internal/checkpoint/unit.go\<close>, whose definitions are in
  \<^verbatim>\<open>Checkpoint_Store\<close>.
\<close>

section \<open>Restoring a tree\<close>

fun masked_node :: "mode \<Rightarrow> fnode \<Rightarrow> fnode" where
  "masked_node um (RegularFile mode c) = RegularFile (mode AND NOT um) c"
| "masked_node um (FolderNode mode) = FolderNode (mode AND NOT um)"
| "masked_node um node = node"

text \<open>The same members with the same contents; modes lose what the umask takes from new files.\<close>

definition same_tree :: "mode \<Rightarrow> tree \<Rightarrow> tree \<Rightarrow> bool" where
  "same_tree um t t' \<longleftrightarrow> (\<forall>p. map_of t' p = map_option (masked_node um) (map_of t p))"

definition elsewhere :: "disk \<Rightarrow> string \<Rightarrow> disk \<Rightarrow> bool" where
  "elsewhere d0 path d \<longleftrightarrow> dk_store d = dk_store d0 \<and> dk_umask d = dk_umask d0 \<and>
     (\<forall>p. p \<noteq> clean path \<longrightarrow> dk_places d p = dk_places d0 p)"

definition placed :: "disk \<Rightarrow> string \<Rightarrow> (tree \<Rightarrow> bool) \<Rightarrow> disk \<Rightarrow> bool" where
  "placed d0 path T d \<longleftrightarrow> elsewhere d0 path d \<and> (\<exists>t. dk_places d (clean path) = Some (PlaceTree t) \<and> T t)"

lemma placed_elsewhere: "placed d0 path T d \<Longrightarrow> elsewhere d0 path d"
  by (simp add: placed_def)

lemma placed_act:
  assumes "\<And>t t'. T t \<Longrightarrow> f (dk_umask d0) t = Inr t' \<Longrightarrow> T' t'"
  shows "triple (placed d0 path T) (io_act (\<lambda>d. in_place path (f (dk_umask d)) d)) (\<lambda>_. placed d0 path T') (elsewhere d0 path)"
proof (rule triple_act)
  fix d d' assume "placed d0 path T d" and "in_place path (f (dk_umask d)) d = Inr d'"
  with assms show "placed d0 path T' d'"
    by (auto simp: in_place_def placed_def elsewhere_def split: option.splits place.splits sum.splits)
qed (rule placed_elsewhere)

lemmas placed_act_plain = placed_act [where f = "\<lambda>_. f" for f, simplified]

lemma make_folders_append:
  "make_folders mode (ps @ qs) t = (case make_folders mode ps t of Inl e \<Rightarrow> Inl e | Inr t' \<Rightarrow> make_folders mode qs t')"
  by (induction mode ps t rule: make_folders.induct) (auto split: option.splits fnode.splits)

lemma make_folders_idle:
  "list_all (\<lambda>a. \<exists>mode. map_of t a = Some (FolderNode mode)) ps \<Longrightarrow> make_folders mode ps t = Inr t"
  by (induction ps) auto

lemma restored_file:
  assumes "\<And>d c'. elsewhere d0 path d \<Longrightarrow> source d = Inr c' \<Longrightarrow> c' = c"
    and "\<And>t. T t \<Longrightarrow> map_of t p = None" and "\<And>t. T t \<Longrightarrow> T' (t @ [(p, RegularFile (mode AND NOT (dk_umask d0)) c)])"
  shows "triple (placed d0 path T) (copy_file cd source (in_place path) mode p) (\<lambda>_. placed d0 path T') (elsewhere d0 path)"
  unfolding copy_file_def
proof (rule triple_then)
  show "triple (placed d0 path T) (io_ask source) (\<lambda>c' d. c' = c \<and> placed d0 path T d) (elsewhere d0 path)"
    by (rule triple_ask) (auto intro: placed_elsewhere assms(1))
next
  fix c'
  let ?new = "\<lambda>c t. \<exists>t0. T t0 \<and> t = t0 @ [(p, RegularFile (mode AND NOT (dk_umask d0)) c)]"
  have created: "triple (placed d0 path T) (io_act (\<lambda>d. in_place path (create_file (masked d mode) p) d))
      (\<lambda>_. placed d0 path (?new [])) (elsewhere d0 path)"
    unfolding masked_def
    by (rule placed_act [where f = "\<lambda>um. create_file (mode AND NOT um) p"]) (use assms(2) in \<open>auto simp: create_file_def\<close>)
  have update: "AList.update p x (t @ [(p, y)]) = t @ [(p, x)]" if "map_of t p = None" for x y :: fnode and t
    using that by (induction t) (auto split: if_splits)
  have wrote: "triple (placed d0 path (?new [])) (io_act (in_place path (write_file c p))) (\<lambda>_. placed d0 path T') (elsewhere d0 path)"
    by (rule placed_act_plain) (use assms(2,3) update in \<open>auto simp: write_file_def map_add_def\<close>)
  show "triple (\<lambda>d. c' = c \<and> placed d0 path T d)
      (and_then (io_act (\<lambda>d. in_place path (create_file (masked d mode) p) d)) (\<lambda>_.
       closing (and_then (io_act (in_place path (write_file c' p))) (\<lambda>_. and_then io_sync (\<lambda>_. io_return (cd_sha cd c'))))))
      (\<lambda>_. placed d0 path T') (elsewhere d0 path)"
    by (auto intro!: triple_pre triple_then [OF created] triple_closing triple_then [OF wrote] triple_then [where Q' = "\<lambda>_. placed d0 path T'"]
        triple_sync triple_return intro: placed_elsewhere)
qed

text \<open>A member is restored once the folders it lies in are.\<close>

lemma restored_member:
  assumes m: "path_ok (fst m)" "copyable (snd m)" "map_of dn (fst m) = None"
    and up: "list_all (\<lambda>a. \<exists>mode. map_of dn a = Some (FolderNode mode)) (ancestors (fst m))"
    and src: "store_item d0 i = Some (StoreTree t)" "holds F t" "archived F archive [m]"
  shows "triple (placed d0 path (same_tree (dk_umask d0) dn)) (restore_entry cd i archive path (file_of cd m))
     (\<lambda>_. placed d0 path (same_tree (dk_umask d0) (dn @ [m]))) (elsewhere d0 path)"
proof -
  let ?um = "dk_umask d0"
  have folders: "make_folders mode (ancestors (fst m)) t' = Inr t'" if "same_tree ?um dn t'" for mode t'
    by (rule make_folders_idle) (use up that in \<open>fastforce simp: same_tree_def list_all_iff\<close>)
  have free: "map_of t' (fst m) = None" if "same_tree ?um dn t'" for t' using that m(3) by (simp add: same_tree_def)
  have grown: "same_tree ?um (dn @ [m]) (t' @ [(fst m, masked_node ?um (snd m))])" if "same_tree ?um dn t'" for t'
    using that m(3) by (cases m) (auto simp: same_tree_def map_add_def split: option.split)
  note path = path_ok_simps [OF m(1)]
  show ?thesis
  proof (cases "snd m")
    case (RegularFile mode c)
    then obtain p where mm: "m = (p, RegularFile mode c)" by (cases m) auto
    have "F (join_path archive p) = Some c" using src(3) by (simp add: archived_def mm)
    then have "c' = c" if "elsewhere d0 path d" "read_item i (join_path archive p) d = Inr c'" for d c'
      using that src(1,2) by (auto simp: read_item_def holds_def elsewhere_def store_item_def)
    note copy = restored_file [where T = "same_tree ?um dn" and T' = "same_tree ?um (dn @ [m])" and p = p and mode = mode and cd = cd, OF this]
    have parent: "triple (placed d0 path (same_tree ?um dn)) (make_parent (in_place path) p)
        (\<lambda>_. placed d0 path (same_tree ?um dn)) (elsewhere d0 path)"
      unfolding make_parent_def masked_def
      by (rule placed_act [where f = "\<lambda>um. mkdir_parent (0x1C0 AND NOT um) p"]) (use folders mm in \<open>auto simp: mkdir_parent_def\<close>)
    have "triple (placed d0 path (same_tree ?um dn)) (copy_file cd (read_item i (join_path archive p)) (in_place path) mode p)
        (\<lambda>_. placed d0 path (same_tree ?um (dn @ [m]))) (elsewhere d0 path)"
      by (rule copy) (use free grown mm in auto)
    note copied = triple_then [OF this]
    show ?thesis
      using path
      by (auto simp: mm restore_entry_def Let_def intro!: triple_then [OF triple_wrapped [OF parent]] triple_wrapped
          copied [unfolded mm] triple_return)
  next
    case (FolderNode mode)
    then obtain p where mm: "m = (p, FolderNode mode)" by (cases m) auto
    have "triple (placed d0 path (same_tree ?um dn)) (make_all (in_place path) mode p)
        (\<lambda>_. placed d0 path (same_tree ?um (dn @ [m]))) (elsewhere d0 path)"
      unfolding make_all_def masked_def
    proof (rule placed_act [where f = "\<lambda>um. mkdir_all (mode AND NOT um) p"])
      fix t t' assume t: "same_tree ?um dn t" and go: "mkdir_all (mode AND NOT ?um) p t = Inr t'"
      have "t' = t @ [(p, FolderNode (mode AND NOT ?um))]"
        using go folders [OF t] free [OF t] by (simp add: mkdir_all_def make_folders_append mm)
      then show "same_tree ?um (dn @ [m]) t'" using grown [OF t] by (simp add: mm)
    qed
    then show ?thesis using path by (auto simp: mm restore_entry_def Let_def intro!: triple_wrapped)
  qed (use m(2) in \<open>auto simp: copyable_def\<close>)
qed

lemma ancestors_before:
  assumes "tree_ok t" and "walk t = dn @ m # ms"
  shows "list_all (\<lambda>a. \<exists>mode. map_of dn a = Some (FolderNode mode)) (ancestors (fst m))"
  unfolding list_all_iff
proof
  fix a assume a: "a \<in> set (ancestors (fst m))"
  let ?key = "\<lambda>m. split_on CHR ''/'' (fst m)"
  have mem: "m \<in> set t" using assms(2) set_walk [of t] by auto
  then have ok: "path_ok (fst m)" and "\<exists>mode. map_of t a = Some (FolderNode mode)"
    using assms(1) a by (auto simp: tree_ok_def)
  then obtain mode where "map_of (walk t) a = Some (FolderNode mode)" using map_of_walk [OF assms(1)] by auto
  moreover have "(a, node) \<notin> set (m # ms)" for node
  proof
    assume later: "(a, node) \<in> set (m # ms)"
    have "sorted (map ?key (walk t))" by (simp add: walk_def)
    then have le: "?key m \<le> ?key (a, node)" using later assms(2) by (auto simp: sorted_append)
    obtain n where n: "1 \<le> n" "n < length (split_on CHR ''/'' (fst m))" "a = join_with CHR ''/'' (take n (split_on CHR ''/'' (fst m)))"
      using a path_ok_simps(2) [OF ok] by (auto simp: ancestors_def Let_def)
    let ?es = "split_on CHR ''/'' (fst m)"
    have "\<forall>w \<in> set (take n ?es). CHR ''/'' \<notin> set w" by (meson in_set_takeD split_on_sep_free)
    moreover have "take n ?es \<noteq> []" using n by (cases n) auto
    ultimately have "split_on CHR ''/'' a = take n ?es" unfolding n(3) by (intro split_join)
    moreover have "take n ?es < ?es"
    proof -
      obtain e es where "drop n ?es = e # es" using n(2) by (cases "drop n ?es") auto
      then have "?es = take n ?es @ e # es" by (metis append_take_drop_id)
      then show ?thesis
        using lexord_append_rightI [of "e # es" "take n ?es"] unfolding list_less_def by (metis list.distinct(1))
    qed
    ultimately show False using le by simp
  qed
  then have "map_of (m # ms) a = None" by (metis map_of_SomeD not_None_eq)
  ultimately show "\<exists>mode. map_of dn a = Some (FolderNode mode)"
    by (auto simp: assms(2) map_add_def simp del: map_of.simps split: option.splits)
qed

lemma restored_members:
  assumes "tree_ok t0" "list_all (\<lambda>m. copyable (snd m)) t0" "archived F archive t0"
    and src: "store_item d0 i = Some (StoreTree t)" "holds F t"
  shows "walk t0 = dn @ ms \<Longrightarrow> triple (placed d0 path (same_tree (dk_umask d0) dn))
     (restore_entries cd i archive path (map (file_of cd) ms)) (\<lambda>_. placed d0 path (same_tree (dk_umask d0) t0)) (elsewhere d0 path)"
proof (induction ms arbitrary: dn)
  case Nil
  then have "map_of dn = map_of t0" using map_of_walk [OF assms(1)] by simp
  then show ?case by (auto intro!: triple_return simp: same_tree_def placed_def)
next
  case (Cons m ms)
  have mem: "m \<in> set t0" using Cons.prems set_walk [of t0] by auto
  have "distinct (map fst (walk t0))" using assms(1) by (simp add: tree_ok_def walk_def distinct_map)
  then have "map_of dn (fst m) = None" using Cons.prems by (auto simp: map_of_eq_None_iff)
  moreover have "path_ok (fst m)" "copyable (snd m)" "archived F archive [m]"
    using mem assms(1-3) by (auto simp: tree_ok_def list_all_iff archived_def)
  ultimately have "triple (placed d0 path (same_tree (dk_umask d0) dn)) (restore_entry cd i archive path (file_of cd m))
     (\<lambda>_. placed d0 path (same_tree (dk_umask d0) (dn @ [m]))) (elsewhere d0 path)"
    using ancestors_before [OF assms(1) Cons.prems] src by (intro restored_member)
  note one = triple_then [OF this]
  show ?case using Cons.IH [of "dn @ [m]"] Cons.prems by (auto intro!: one)
qed

definition tops :: "string list \<Rightarrow> tree \<Rightarrow> bool" where
  "tops names t \<longleftrightarrow> list_all (\<lambda>m. hd (split_on CHR ''/'' (fst m)) \<in> set names) t"

lemma tops_simps: "tops [] t \<Longrightarrow> t = []" "tops (top_names t) t" "tops (name # names) t \<Longrightarrow> tops names (remove_top name t)"
proof -
  show "tops [] t \<Longrightarrow> t = []" by (cases t) (simp_all add: tops_def)
  show "tops (top_names t) t" by (simp add: tops_def top_names_def list_all_iff)
  show "tops (name # names) t \<Longrightarrow> tops names (remove_top name t)"
    by (induction t) (auto simp: tops_def remove_top_def)
qed

lemma cleared_place:
  "triple (placed d0 path (tops names)) (clear_place path names) (\<lambda>_. placed d0 path (\<lambda>t. t = [])) (elsewhere d0 path)"
proof (induction names)
  case Nil
  then show ?case by (auto intro!: triple_return dest: tops_simps(1) simp: placed_def)
next
  case (Cons name names)
  have "triple (placed d0 path (tops (name # names))) (io_act (in_place path (\<lambda>t. Inr (remove_top name t))))
      (\<lambda>_. placed d0 path (tops names)) (elsewhere d0 path)"
    by (rule placed_act_plain) (auto intro: tops_simps(3))
  then show ?case by (auto intro!: triple_then [OF triple_wrapped] Cons.IH)
qed

lemma restored_tree:
  assumes "captured cd T F w" "places_ok T" "store_item d0 i = Some (StoreTree t)" "holds F t"
    and T: "T (clean (kw_path w)) = Some (PlaceTree t0)"
  shows "triple (\<lambda>d. d = d0) (restore_tree cd i w) (\<lambda>_. placed d0 (kw_path w) (same_tree (dk_umask d0) t0)) (elsewhere d0 (kw_path w))"
proof -
  let ?p = "kw_path w"
  have w: "relative_path_error (kw_archive w) = None" "list_all (\<lambda>m. copyable (snd m)) t0"
      "kw_entries w = map (file_of cd) (walk t0)" "archived F (kw_archive w) t0"
    using assms(1) T by (auto simp: captured_def)
  have ok: "tree_ok t0" using assms(2) T by (auto simp: places_ok_def)
  have start: "elsewhere d0 ?p d0" by (simp add: elsewhere_def)
  have made: "triple (\<lambda>d. d = d0) (io_act (make_place ?p)) (\<lambda>_. placed d0 ?p (\<lambda>t. True)) (elsewhere d0 ?p)"
    by (rule triple_act) (auto simp: make_place_def placed_def elsewhere_def split: option.splits place.splits)
  have listed: "triple (placed d0 ?p (\<lambda>t. True)) (io_ask (list_place ?p))
      (\<lambda>names. placed d0 ?p (tops names)) (elsewhere d0 ?p)"
    by (rule triple_ask) (auto simp: list_place_def placed_def split: option.splits place.splits intro: tops_simps(2))
  have "triple (placed d0 ?p (\<lambda>t. t = [])) (restore_entries cd i (kw_archive w) ?p (kw_entries w))
      (\<lambda>_. placed d0 ?p (same_tree (dk_umask d0) t0)) (elsewhere d0 ?p)"
    unfolding w(3)
    by (rule triple_conseq [OF restored_members [OF ok w(2,4) assms(3,4), where dn = "[]"]])
      (auto simp: placed_def same_tree_def)
  then show ?thesis
    unfolding restore_tree_def w(1)
    by (auto intro!: triple_fail start triple_then [OF triple_wrapped [OF made]] triple_then [OF triple_wrapped [OF listed]]
        triple_then [OF cleared_place])
qed

section \<open>Restoring a checkpoint\<close>

definition kept :: "disk \<Rightarrow> disk \<Rightarrow> bool" where
  "kept d0 d \<longleftrightarrow> dk_store d = dk_store d0 \<and> dk_umask d = dk_umask d0"

text \<open>The places of \<open>ws\<close> hold the trees they had in \<open>T\<close>.\<close>

definition brought :: "(string \<Rightarrow> place option) \<Rightarrow> mode \<Rightarrow> checkpoint_tree list \<Rightarrow> disk \<Rightarrow> bool" where
  "brought T um ws d \<longleftrightarrow>
     list_all (\<lambda>w. \<exists>t t'. T (clean (kw_path w)) = Some (PlaceTree t) \<and>
       dk_places d (clean (kw_path w)) = Some (PlaceTree t') \<and> same_tree um t t') ws"

lemma kept_item: "kept d0 d \<Longrightarrow> store_item d i = store_item d0 i"
  by (simp add: kept_def store_item_def)

lemma kept_saved:
  assumes "kept d0 d"
  shows "saved cd T st d = saved cd T st d0" and "load_checkpoint cd run d = load_checkpoint cd run d0"
  using kept_item [OF assms] by (auto simp: saved_def intro: load_cong)

lemma restored_step:
  assumes w: "captured cd T F w" and T: "places_ok T" and src: "store_item d0 i = Some (StoreTree t)" "holds F t"
  shows "triple (\<lambda>d. kept d0 d \<and> brought T (dk_umask d0) ws d) (restore_tree cd i w)
     (\<lambda>_ d. kept d0 d \<and> brought T (dk_umask d0) (ws @ [w]) d) (kept d0)"
proof (rule triple_disk)
  fix d1 assume d1: "kept d0 d1 \<and> brought T (dk_umask d0) ws d1"
  obtain t0 where t0: "T (clean (kw_path w)) = Some (PlaceTree t0)" using w by (auto simp: captured_def)
  have um: "dk_umask d1 = dk_umask d0" using d1 by (simp add: kept_def)
  have item: "store_item d1 i = Some (StoreTree t)" using d1 src kept_item [of d0 d1] by simp
  show "triple (\<lambda>d. d = d1) (restore_tree cd i w) (\<lambda>_ d. kept d0 d \<and> brought T (dk_umask d0) (ws @ [w]) d) (kept d0)"
  proof (rule triple_conseq [OF restored_tree [OF w T item src(2) t0]])
    fix d assume d: "placed d1 (kw_path w) (same_tree (dk_umask d1) t0) d"
    then obtain t' where t': "dk_places d (clean (kw_path w)) = Some (PlaceTree t')" "same_tree (dk_umask d0) t0 t'"
      and other: "\<And>p. p \<noteq> clean (kw_path w) \<Longrightarrow> dk_places d p = dk_places d1 p" and k: "kept d0 d"
      using d1 um by (auto simp: placed_def elsewhere_def kept_def)
    have "\<exists>t t'. T (clean (kw_path v)) = Some (PlaceTree t) \<and> dk_places d (clean (kw_path v)) = Some (PlaceTree t') \<and>
        same_tree (dk_umask d0) t t'" if "v \<in> set (ws @ [w])" for v
    proof (cases "clean (kw_path v) = clean (kw_path w)")
      case True
      with t0 t' show ?thesis by auto
    next
      case False
      with d1 that other show ?thesis by (fastforce simp: brought_def list_all_iff)
    qed
    with k show "kept d0 d \<and> brought T (dk_umask d0) (ws @ [w]) d" by (simp add: brought_def list_all_iff)
  qed (use d1 in \<open>auto simp: elsewhere_def kept_def\<close>)
qed

lemma restored_trees:
  assumes T: "places_ok T" and src: "store_item d0 i = Some (StoreTree t)" "holds F t"
  shows "list_all (captured cd T F) vs \<Longrightarrow> triple (\<lambda>d. kept d0 d \<and> brought T (dk_umask d0) ws d) (restore_trees cd i vs)
     (\<lambda>_ d. kept d0 d \<and> brought T (dk_umask d0) (ws @ vs) d) (kept d0)"
proof (induction vs arbitrary: ws)
  case (Cons v vs)
  then have "captured cd T F v" by simp
  note one = triple_then [OF restored_step [OF this T src]]
  show ?case using Cons.IH [of "ws @ [v]"] Cons.prems by (auto intro!: one)
qed (auto intro!: triple_return)

lemma restored_sessions:
  assumes T: "places_ok T" and src: "store_item d0 i = Some (StoreTree t)" "holds F t"
  shows "list_all (captured cd T F) (map (session_tree store) ss) \<Longrightarrow> triple (\<lambda>d. kept d0 d \<and> brought T (dk_umask d0) ws d)
     (restore_sessions cd i store ss) (\<lambda>_ d. kept d0 d \<and> brought T (dk_umask d0) (ws @ map (session_tree store) ss) d) (kept d0)"
proof (induction ss arbitrary: ws)
  case (Cons s ss)
  then have "captured cd T F (session_tree store s)" by simp
  note one = triple_then [OF triple_wrapped [OF restored_step [OF this T src, unfolded session_tree_def]]]
  show ?case
    using Cons.IH [of "ws @ [session_tree store s]"] Cons.prems
    by (auto intro!: one triple_fail simp: session_tree_def split: option.split)
qed (auto intro!: triple_return)

text \<open>
  C19: a restore brings back what was saved. Whatever has become of the workspaces and of the
  sessions' directories since the commit, and however often a restore was cut short, one that
  returns leaves each of them with exactly the members and contents it had (but for the mode
  bits the umask takes away) and gives the committed registry; one that does not return leaves
  the checkpoint to try again.
\<close>

theorem restore_brings_back_what_was_saved:
  assumes "places_ok T" and "load_checkpoint cd run (mc_disk m) = Inr st" and "saved cd T st (mc_disk m)"
    and "restore_checkpoint cd os fs run merge r m = (out, m')"
  shows "load_checkpoint cd run (mc_disk m') = Inr st \<and> saved cd T st (mc_disk m') \<and>
    (case out of
       Returned (st', r') \<Rightarrow> st' = st \<and>
         brought T (dk_umask (mc_disk m')) (kp_workspaces st @ map (session_tree (kp_session_store st)) (kp_sessions st)) (mc_disk m') \<and>
         (if merge then reg_merge os fs (kp_registry st) r = (None, r') else reg_restore os fs (kp_registry st) r = Inr r')
     | _ \<Rightarrow> True)"
proof -
  let ?d = "mc_disk m" and ?trees = "kp_workspaces st @ map (session_tree (kp_session_store st)) (kp_sessions st)"
  obtain t F where src: "store_item ?d (kp_id st) = Some (StoreTree t)" "holds F t"
    and cap: "list_all (captured cd T F) (kp_workspaces st)" "list_all (captured cd T F) (map (session_tree (kp_session_store st)) (kp_sessions st))"
    using assms(3) by (auto simp: saved_def complete_tree_def)
  have read: "triple (\<lambda>d. d = ?d) (io_ask (load_checkpoint cd run)) (\<lambda>st' d. st' = st \<and> kept ?d d \<and> brought T (dk_umask ?d) [] d) (kept ?d)"
    by (rule triple_ask) (use assms(2) in \<open>auto simp: kept_def brought_def\<close>)
  let ?registry = "\<lambda>r'. if merge then reg_merge os fs (kp_registry st) r = (None, r') else reg_restore os fs (kp_registry st) r = Inr r'"
  have "triple (\<lambda>d. d = ?d) (restore_checkpoint cd os fs run merge r)
      (\<lambda>(st', r') d. st' = st \<and> kept ?d d \<and> brought T (dk_umask ?d) ?trees d \<and> ?registry r') (kept ?d)"
    unfolding restore_checkpoint_def
    by (rule triple_then [OF read], rule triple_pre, simp only:, rule triple_then [OF restored_trees [OF assms(1) src cap(1)]],
        rule triple_then [OF restored_sessions [OF assms(1) src cap(2)]])
      (auto intro!: triple_return triple_fail split: prod.split option.split sum.split)
  from tripleD [OF this refl assms(4)]
  have "kept ?d (mc_disk m')" and "case out of Returned (st', r') \<Rightarrow> st' = st \<and> brought T (dk_umask ?d) ?trees (mc_disk m') \<and> ?registry r' | _ \<Rightarrow> True"
    by (auto split: outcome.splits prod.splits)
  then show ?thesis
    using kept_saved [of ?d "mc_disk m'"] assms(2,3) by (auto simp: kept_def split: outcome.splits prod.splits)
qed

section \<open>Units\<close>

text \<open>\<open>RestoreWorkspace\<close> of the registry, once for each spelling of the workspace's path.\<close>

fun owned_restored :: "'fs os \<Rightarrow> 'fs \<Rightarrow> reg_snapshot \<Rightarrow> string list \<Rightarrow> registry \<Rightarrow> error + registry" where
  "owned_restored os fs snap [] r = Inr r"
| "owned_restored os fs snap (p # ps) r =
     (case reg_restore_workspace os fs p snap r of Inl e \<Rightarrow> Inl e | Inr r' \<Rightarrow> owned_restored os fs snap ps r')"

lemma restored_owned:
  assumes T: "places_ok T" and src: "store_item d0 (kp_id st) = Some (StoreTree t)" "holds F t"
  shows "list_all (captured cd T F) vs \<Longrightarrow> triple (\<lambda>d. kept d0 d \<and> brought T (dk_umask d0) ws d) (restore_owned cd os fs st vs r)
     (\<lambda>r' d. kept d0 d \<and> brought T (dk_umask d0) (ws @ vs) d \<and> owned_restored os fs (kp_registry st) (map kw_path vs) r = Inr r') (kept d0)"
proof (induction vs arbitrary: ws r)
  case (Cons v vs)
  then have "captured cd T F v" by simp
  note one = triple_then [OF restored_step [OF this T src]]
  have reg: "triple (\<lambda>d. kept d0 d \<and> brought T (dk_umask d0) (ws @ [v]) d) (io_of (reg_restore_workspace os fs (kw_path v) (kp_registry st) r))
      (\<lambda>r' d. reg_restore_workspace os fs (kw_path v) (kp_registry st) r = Inr r' \<and> kept d0 d \<and> brought T (dk_umask d0) (ws @ [v]) d) (kept d0)"
    by (rule triple_of) auto
  have rest: "triple (\<lambda>d. reg_restore_workspace os fs (kw_path v) (kp_registry st) r = Inr r' \<and> kept d0 d \<and> brought T (dk_umask d0) (ws @ [v]) d)
      (restore_owned cd os fs st vs r')
      (\<lambda>r' d. kept d0 d \<and> brought T (dk_umask d0) (ws @ v # vs) d \<and> owned_restored os fs (kp_registry st) (map kw_path (v # vs)) r = Inr r')
      (kept d0)" for r'
  proof (rule triple_pre)
    assume "reg_restore_workspace os fs (kw_path v) (kp_registry st) r = Inr r'"
    with Cons.IH [of "ws @ [v]" r'] Cons.prems
    show "triple (\<lambda>d. kept d0 d \<and> brought T (dk_umask d0) (ws @ [v]) d) (restore_owned cd os fs st vs r')
      (\<lambda>r' d. kept d0 d \<and> brought T (dk_umask d0) (ws @ v # vs) d \<and> owned_restored os fs (kp_registry st) (map kw_path (v # vs)) r = Inr r')
      (kept d0)" by simp
  qed
  show ?case using rest by (auto intro!: one triple_then [OF reg])
qed (auto intro!: triple_return)

text \<open>The checkpoint of a unit, with the trees of \<open>T\<close>.\<close>

definition unit_saved ::
    "codec \<Rightarrow> string \<Rightarrow> string \<Rightarrow> (string \<Rightarrow> place option) \<Rightarrow> reg_snapshot \<Rightarrow> unit_state \<Rightarrow> checkpoint_state \<Rightarrow> disk \<Rightarrow> bool" where
  "unit_saved cd run workspace T snap us st d \<longleftrightarrow>
     load_checkpoint cd run d = Inr st \<and> saved cd T st d \<and> unit_state_of cd st = Inr us \<and>
     \<not> prefix ''.staging-'' (kp_id st) \<and> kp_registry st = snap \<and>
     kp_workspaces st \<noteq> [] \<and> list_all (\<lambda>w. clean (kw_path w) = clean workspace) (kp_workspaces st) \<and>
     (\<exists>c. store_item d latest_file = Some (StoreFile c) \<and> trim_space c = kp_id st)"

lemma unit_saved_items:
  assumes "unit_saved cd run workspace T snap us st d0"
    and "store_item d latest_file = store_item d0 latest_file" "store_item d (kp_id st) = store_item d0 (kp_id st)"
  shows "unit_saved cd run workspace T snap us st d"
proof -
  have "load_checkpoint cd run d = load_checkpoint cd run d0"
    by (rule load_cong) (use assms in \<open>auto simp: unit_saved_def\<close>)
  then show ?thesis using assms by (auto simp: unit_saved_def saved_def)
qed

lemma unit_saved_kept: "kept d0 d \<Longrightarrow> unit_saved cd run workspace T snap us st d0 \<Longrightarrow> unit_saved cd run workspace T snap us st d"
  using kept_item [of d0 d] by (blast intro: unit_saved_items)

lemma remove_stages_triple:
  "triple (unit_saved cd run workspace T snap us st) (remove_stages items) (\<lambda>_. unit_saved cd run workspace T snap us st)
     (unit_saved cd run workspace T snap us st)"
proof (induction items rule: remove_stages.induct)
  case (2 name item items)
  have "unit_saved cd run workspace T snap us st (drop_item name d)"
    if "prefix ''.staging-'' name" "unit_saved cd run workspace T snap us st d" for d
  proof (rule unit_saved_items [OF that(2)])
    have "name \<noteq> kp_id st" "name \<noteq> latest_file" using that by (auto simp: unit_saved_def latest_file_def)
    then show "store_item (drop_item name d) latest_file = store_item d latest_file"
      and "store_item (drop_item name d) (kp_id st) = store_item d (kp_id st)" by simp_all
  qed
  then have "triple (unit_saved cd run workspace T snap us st) (wrapped f (io_act (\<lambda>d. Inr (drop_item name d))))
      (\<lambda>_. unit_saved cd run workspace T snap us st) (unit_saved cd run workspace T snap us st)"
    if "prefix ''.staging-'' name" for f
    using that by (intro triple_wrapped triple_drop) auto
  note one = triple_then [OF this]
  from 2 show ?case by (auto split: store_item.split intro!: one)
qed (auto intro: triple_return)

lemma unit_load_triple:
  "triple (unit_saved cd run workspace T snap us st) (unit_load cd run)
     (\<lambda>us' d. us' = us \<and> unit_saved cd run workspace T snap us st d) (unit_saved cd run workspace T snap us st)"
proof -
  let ?P = "unit_saved cd run workspace T snap us st"
  have listed: "triple ?P (wrapped f (io_ask (\<lambda>d. Inr (dk_store d)))) (\<lambda>_. ?P) ?P" for f
    by (rule triple_wrapped, rule triple_ask) auto
  have cleanup: "triple ?P (cleanup_staging run) (\<lambda>_. ?P) ?P"
    unfolding cleanup_staging_def
    by (auto intro!: triple_fail triple_then [OF listed] triple_return remove_stages_triple split: option.split)
  have read: "triple ?P (io_ask (load_checkpoint cd run)) (\<lambda>st' d. st' = st \<and> ?P d) ?P"
    by (rule triple_ask) (auto simp: unit_saved_def)
  show ?thesis
    unfolding unit_load_def
    by (rule triple_then [OF cleanup], rule triple_then [OF read], rule triple_pre, rule triple_of) (auto simp: unit_saved_def)
qed

lemma unit_restore_workspace_triple:
  assumes "places_ok T"
  shows "triple (unit_saved cd run workspace T snap us st) (restore_workspace cd os fs run r)
     (\<lambda>(st', r') d. unit_saved cd run workspace T snap us st d \<and> brought T (dk_umask d) (kp_workspaces st) d \<and>
        owned_restored os fs snap (map kw_path (kp_workspaces st)) r = Inr r') (unit_saved cd run workspace T snap us st)"
proof (rule triple_disk)
  let ?P = "unit_saved cd run workspace T snap us st"
  fix d0 assume d0: "?P d0"
  then obtain t F where src: "store_item d0 (kp_id st) = Some (StoreTree t)" "holds F t" and cap: "list_all (captured cd T F) (kp_workspaces st)"
    and snap: "kp_registry st = snap"
    by (auto simp: unit_saved_def saved_def complete_tree_def)
  have read: "triple (\<lambda>d. d = d0) (io_ask (load_checkpoint cd run)) (\<lambda>st' d. st' = st \<and> kept d0 d \<and> brought T (dk_umask d0) [] d) (kept d0)"
    by (rule triple_ask) (use d0 in \<open>auto simp: unit_saved_def kept_def brought_def\<close>)
  have "triple (\<lambda>d. d = d0) (restore_workspace cd os fs run r)
     (\<lambda>(st', r') d. kept d0 d \<and> brought T (dk_umask d0) (kp_workspaces st) d \<and>
        owned_restored os fs snap (map kw_path (kp_workspaces st)) r = Inr r') (kept d0)"
    unfolding restore_workspace_def
    by (rule triple_then [OF read], rule triple_pre, simp only:, rule triple_then [OF restored_owned [OF assms src cap]])
      (auto intro!: triple_return simp: snap)
  then show "triple (\<lambda>d. d = d0) (restore_workspace cd os fs run r)
     (\<lambda>(st', r') d. ?P d \<and> brought T (dk_umask d) (kp_workspaces st) d \<and>
        owned_restored os fs snap (map kw_path (kp_workspaces st)) r = Inr r') ?P"
    by (rule triple_conseq) (use d0 in \<open>auto simp: kept_def intro: unit_saved_kept\<close>)
qed

text \<open>What a commit of a unit leaves: the new state, or everything as it was.\<close>

definition unit_valid :: "codec \<Rightarrow> unit_state \<Rightarrow> bool" where
  "unit_valid cd us \<longleftrightarrow>
     us_status us = UnitStarted \<or> us_status us = UnitCompleted \<and> cd_valid cd (us_result us)"

definition unit_codec_ok :: "codec \<Rightarrow> bool" where
  "unit_codec_ok cd \<longleftrightarrow> codec_ok cd \<and> (\<forall>us c. cd_unit cd us = Inr c \<longrightarrow> cd_load_unit cd c = Inr us)"

definition stays :: "disk \<Rightarrow> disk \<Rightarrow> bool" where
  "stays d0 d \<longleftrightarrow> (\<forall>n. store_item d0 n \<noteq> None \<longrightarrow> store_item d n = store_item d0 n)"

lemma unit_saved_stays:
  assumes "stays d0 d" "unit_saved cd run workspace T snap us st d0"
  shows "unit_saved cd run workspace T snap us st d"
  by (rule unit_saved_items [OF assms(2)]) (use assms in \<open>auto simp: stays_def unit_saved_def saved_def\<close>)

lemma owned_workspaces:
  assumes "workspace_paths (reg_snapshot_workspace registry workspace) [clean workspace] = Inr ps"
    and "clean (clean workspace) = clean workspace"
  shows "ps \<noteq> []" and "list_all (\<lambda>p. clean p = clean workspace) ps"
  using assms
  by (auto simp: workspace_paths_def reg_snapshot_workspace_def Let_def list_all_iff split: option.splits if_splits
      dest: arg_cong [where f = set])

lemma committed_unit:
  assumes cd: "unit_codec_ok cd" and us: "cd_unit cd us = Inr payload" "unit_valid cd us"
    and ids: "\<And>i. new_id = Inr i \<Longrightarrow> id_ok i" and places: "places_ok (dk_places d0)"
    and ws: "clean (clean workspace) = clean workspace"
    and st: "st = \<lparr>kp_schema = 0, kp_id = [], kp_created = 0, kp_registry = reg_snapshot_workspace registry workspace,
          kp_payload = payload, kp_session_store = [], kp_sessions = [], kp_roots = [clean workspace], kp_workspaces = []\<rparr>"
    and new: "committed cd new_id now run st d0 d"
  shows "\<exists>st'. unit_saved cd run workspace (dk_places d0) (reg_snapshot_workspace registry workspace) us st' d"
proof -
  have id: "id_ok i" if "chosen_id new_id st = Inr i" for i using ids that by (simp add: chosen_id_def st)
  have codec: "codec_ok cd" using cd by (simp add: unit_codec_ok_def)
  from committed_saved(1) [OF codec places id new] obtain i st' where
    st': "chosen_id new_id st = Inr i" "saves (stamped i now (default_schema st)) st'" "saved cd (dk_places d0) st' d"
      "load_checkpoint cd run d = Inr st'"
    by (auto simp: newly_saved_def)
  have parts: "kp_id st' = i" "kp_registry st' = reg_snapshot_workspace registry workspace" "kp_payload st' = payload"
      "workspace_paths (reg_snapshot_workspace registry workspace) [clean workspace] = Inr (map kw_path (kp_workspaces st'))"
    using st'(2) by (auto simp: saves_def stamped_def default_schema_def st)
  have latest: "store_item d latest_file = Some (StoreFile (i @ ''\<newline>''))"
    using new st'(1) by (auto simp: committed_def newly_published_def published_def stamped_def)
  have state: "unit_state_of cd st' = Inr us"
    using cd us parts(3) by (auto simp: unit_state_of_def unit_codec_ok_def unit_valid_def)
  show ?thesis
    using st'(3,4) state parts latest id [OF st'(1)] owned_workspaces [OF parts(4) ws]
    by (auto simp: unit_saved_def id_ok_def list_all_iff intro!: exI [of _ st'])
qed

lemma unit_commit_outcome:
  assumes cd: "unit_codec_ok cd" and us: "unit_valid cd us" and temp: "temp_ok temp"
    and ids: "\<And>i. new_id = Inr i \<Longrightarrow> id_ok i" and places: "places_ok (dk_places (mc_disk m))"
    and ws: "clean (clean workspace) = clean workspace"
    and run: "unit_commit cd temp new_id now run registry workspace us m = (out, m')"
  shows "places_ok (dk_places (mc_disk m')) \<and>
    ((\<exists>st. unit_saved cd run workspace (dk_places (mc_disk m')) (reg_snapshot_workspace registry workspace) us st (mc_disk m')) \<or>
     out \<noteq> Returned () \<and> stays (mc_disk m) (mc_disk m'))"
proof -
  let ?snap = "reg_snapshot_workspace registry workspace"
  let ?Q = "\<lambda>d :: disk. places_ok (dk_places d) \<and> (\<exists>st. unit_saved cd run workspace (dk_places d) ?snap us st d)"
  let ?R = "\<lambda>d :: disk. places_ok (dk_places d) \<and>
      ((\<exists>st. unit_saved cd run workspace (dk_places d) ?snap us st d) \<or> stays (mc_disk m) d)"
  let ?made = "\<lambda>d :: disk. places_ok (dk_places d) \<and> dk_store d = dk_store (mc_disk m)"
  have stays: "stays (mc_disk m) d" if "dk_store d = dk_store (mc_disk m)" for d
    using that by (simp add: stays_def store_item_def)
  have "tree_ok []" by (simp add: tree_ok_def)
  then have made: "triple (\<lambda>d. d = mc_disk m) (io_act (make_place workspace)) (\<lambda>_. ?made) ?R"
    by (intro triple_act) (use places stays in
        \<open>auto simp: make_place_def places_ok_def split: option.splits place.splits if_splits\<close>)
  have commit: "triple ?made (commit_checkpoint cd temp new_id now run
         \<lparr>kp_schema = 0, kp_id = [], kp_created = 0, kp_registry = ?snap,
          kp_payload = payload, kp_session_store = [], kp_sessions = [], kp_roots = [clean workspace], kp_workspaces = []\<rparr>)
      (\<lambda>_. ?Q) ?R"
    (is "triple _ (commit_checkpoint _ _ _ _ _ ?st) _ _")
    if payload: "cd_unit cd us = Inr payload" for payload
  proof (rule triple_disk)
    fix d0 assume d0: "?made d0"
    then have ok: "places_ok (dk_places d0)" by simp
    have id: "i \<noteq> latest_file" if "chosen_id new_id ?st = Inr i" for i
      using ids that by (auto simp: chosen_id_def id_ok_def)
    have saved: "?Q d" if "committed cd new_id now run ?st d0 d" for d
    proof -
      have "dk_places d = dk_places d0"
        using that by (auto simp: committed_def newly_published_def published_def keeps_items_def)
      then show ?thesis using committed_unit [OF cd payload us ids ok ws refl that] ok by simp
    qed
    have "stays (mc_disk m) d" "places_ok (dk_places d)" if "unpublished d0 d" for d
      using that d0 unfolding stays_def unpublished_def keeps_items_def store_item_def by metis+
    with saved show "triple (\<lambda>d. d = d0) (commit_checkpoint cd temp new_id now run ?st) (\<lambda>_. ?Q) ?R"
      by (intro triple_conseq [OF commit_triple [OF temp ok id]]) auto
  qed
  have payload: "triple ?made (wrapped f (io_of (cd_unit cd us))) (\<lambda>payload d. cd_unit cd us = Inr payload \<and> ?made d) ?R" for f
    by (rule triple_wrapped, rule triple_of) (auto intro: stays)
  have "triple (\<lambda>d. d = mc_disk m) (unit_commit cd temp new_id now run registry workspace us) (\<lambda>_. ?Q) ?R"
    unfolding unit_commit_def
    by (rule triple_then [OF triple_wrapped [OF made]], rule triple_then [OF payload], rule triple_pre, rule triple_wrapped)
      (rule commit)
  from tripleD [OF this refl run] show ?thesis by (auto split: outcome.splits)
qed

text \<open>What \<open>Rollback\<close> and \<open>RestoreCompleted\<close> leave, from the checkpoint of a unit.\<close>

definition unit_back ::
    "'fs os \<Rightarrow> 'fs \<Rightarrow> string \<Rightarrow> (string \<Rightarrow> place option) \<Rightarrow> reg_snapshot \<Rightarrow> registry \<Rightarrow> registry \<Rightarrow> disk \<Rightarrow> bool" where
  "unit_back os fs workspace T snap r r' d \<longleftrightarrow>
     (\<exists>t t'. T (clean workspace) = Some (PlaceTree t) \<and> dk_places d (clean workspace) = Some (PlaceTree t') \<and>
        same_tree (dk_umask d) t t') \<and>
     (\<exists>ps. ps \<noteq> [] \<and> list_all (\<lambda>p. clean p = clean workspace) ps \<and> owned_restored os fs snap ps r = Inr r')"

lemma brought_back:
  assumes "unit_saved cd run workspace T snap us st d" "brought T (dk_umask d) (kp_workspaces st) d"
    and "owned_restored os fs snap (map kw_path (kp_workspaces st)) r = Inr r'"
  shows "unit_back os fs workspace T snap r r' d"
proof -
  have "kp_workspaces st \<noteq> []" using assms(1) by (simp add: unit_saved_def)
  then obtain w ws where w: "kp_workspaces st = w # ws" by (cases "kp_workspaces st") auto
  then have "clean (kw_path w) = clean workspace" using assms(1) by (simp add: unit_saved_def)
  with w assms show ?thesis
    unfolding unit_back_def
    by (intro conjI exI [of _ "map kw_path (kp_workspaces st)"]) (auto simp: brought_def unit_saved_def list_all_iff)
qed

lemma unit_restore_triple:
  assumes "places_ok T"
  shows "triple (unit_saved cd run workspace T snap us st) (wrapped f (restore_workspace cd os fs run r))
     (\<lambda>(st', r') d. unit_saved cd run workspace T snap us st d \<and> unit_back os fs workspace T snap r r' d)
     (unit_saved cd run workspace T snap us st)"
  by (rule triple_wrapped, rule triple_conseq [OF unit_restore_workspace_triple [OF assms]])
    (auto intro: brought_back)

lemma unit_rollback_triple:
  assumes "places_ok T"
  shows "triple (unit_saved cd run workspace T snap us st) (unit_rollback cd os fs run r)
     (\<lambda>(us', r') d. us' = us \<and> us_status us = UnitStarted \<and> unit_back os fs workspace T snap r r' d) (unit_saved cd run workspace T snap us st)"
  unfolding unit_rollback_def
  by (rule triple_then [OF unit_load_triple], rule triple_pre)
    (auto intro!: triple_fail triple_then [OF unit_restore_triple [OF assms]] triple_return split: prod.split)

lemma unit_completed_triple:
  assumes "places_ok T"
  shows "triple (unit_saved cd run workspace T snap us st) (unit_restore_completed cd os fs run r)
     (\<lambda>(us', r') d. us' = us \<and> us_status us = UnitCompleted \<and> unit_back os fs workspace T snap r r' d) (unit_saved cd run workspace T snap us st)"
  unfolding unit_restore_completed_def
  by (rule triple_then [OF unit_load_triple], rule triple_pre)
    (auto intro!: triple_fail triple_then [OF unit_restore_triple [OF assms]] triple_return split: prod.split)

lemma unit_begun:
  assumes "unit_codec_ok cd" "temp_ok temp" "\<And>i. new_id = Inr i \<Longrightarrow> id_ok i" "places_ok (dk_places (mc_disk m))"
    and "clean (clean workspace) = clean workspace"
    and "unit_begin cd temp new_id now run registry workspace m = (Returned (), m')"
  shows "places_ok (dk_places (mc_disk m')) \<and>
    (\<exists>st. unit_saved cd run workspace (dk_places (mc_disk m')) (reg_snapshot_workspace registry workspace)
      \<lparr>us_status = UnitStarted, us_result = []\<rparr> st (mc_disk m'))"
proof -
  have run: "unit_commit cd temp new_id now run registry workspace \<lparr>us_status = UnitStarted, us_result = []\<rparr> m = (Returned (), m')"
    using assms(6) by (auto simp: unit_begin_def io_fail_def split: if_splits)
  show ?thesis
    using unit_commit_outcome [OF assms(1) _ assms(2,3,4,5) run] by (auto simp: unit_valid_def)
qed

lemma unit_completed:
  assumes "unit_codec_ok cd" "temp_ok temp" "\<And>i. new_id = Inr i \<Longrightarrow> id_ok i" "places_ok (dk_places (mc_disk m))"
    and "clean (clean workspace) = clean workspace"
    and "unit_complete cd temp new_id now run registry workspace result m = (out, m')"
  shows "places_ok (dk_places (mc_disk m')) \<and>
    ((\<exists>st. unit_saved cd run workspace (dk_places (mc_disk m')) (reg_snapshot_workspace registry workspace)
      \<lparr>us_status = UnitCompleted, us_result = result\<rparr> st (mc_disk m')) \<or> out \<noteq> Returned () \<and> stays (mc_disk m) (mc_disk m'))"
proof (cases "workspace = [] \<or> \<not> cd_valid cd result")
  case True
  then have "out \<noteq> Returned () \<and> m' = m" using assms(6) by (auto simp: unit_complete_def io_fail_def split: if_splits)
  then show ?thesis using assms(4) by (simp add: stays_def)
next
  case False
  then have run: "unit_commit cd temp new_id now run registry workspace \<lparr>us_status = UnitCompleted, us_result = result\<rparr> m = (out, m')"
    using assms(6) by (simp add: unit_complete_def)
  show ?thesis
    using unit_commit_outcome [OF assms(1) _ assms(2,3,4,5) run] False by (auto simp: unit_valid_def)
qed


section \<open>The sample restored\<close>

text \<open>
  The sample's unit begins, changes its workspace, and dies while it completes; afterwards it is
  rolled back. In the other sample the committed workspace is lost and restored.
\<close>

definition sample_os :: "unit os" where
  "sample_os =
     \<lparr>os_cwd = Inr ''/'', os_eval_symlinks = (\<lambda>_ p. Inr p), os_stat = (\<lambda>_ _. Inl (Text ''no such file or directory'')),
      os_read_file = (\<lambda>_ _. Inl (Text ''no such file or directory'')), os_write_file = (\<lambda>fs _ _. (None, fs)),
      os_mkdir_all = (\<lambda>fs _. (None, fs)), os_create_temp = (\<lambda>fs _ _. (Inl (Text ''refused''), fs)),
      os_write_string = (\<lambda>fs _ _. (None, fs)), os_close = (\<lambda>fs _. (None, fs)), os_remove = (\<lambda>fs _. fs)\<rparr>"

definition on_places :: "(string \<Rightarrow> place option) \<Rightarrow> nat \<Rightarrow> machine \<Rightarrow> machine" where
  "on_places T left m = \<lparr>mc_disk = (mc_disk m)\<lparr>dk_places := T\<rparr>, mc_left = left, mc_faults = (\<lambda>_. None)\<rparr>"

definition begun_machine :: machine where
  "begun_machine = snd (unit_begin sample_codec sample_temp (Inr ''c1'') 7 ''/run'' new_registry ''/w'' sample_machine)"

definition dead_machine :: machine where
  "dead_machine = snd (unit_complete sample_codec sample_temp (Inr ''c2'') 9 ''/run'' new_registry ''/w'' ''{}'' (on_places changed_places 20 begun_machine))"

lemma sample_unit_codec_ok: "unit_codec_ok sample_codec"
  using sample_codec_ok by (simp add: unit_codec_ok_def sample_codec_def)

lemma sample_begun:
  "unit_begin sample_codec sample_temp (Inr ''c1'') 7 ''/run'' new_registry ''/w'' sample_machine = (Returned (), begun_machine)"
proof -
  have "fst (unit_begin sample_codec sample_temp (Inr ''c1'') 7 ''/run'' new_registry ''/w'' sample_machine) = Returned ()"
    by code_simp
  then show ?thesis by (metis begun_machine_def prod.collapse)
qed

lemma sample_machine_places: "places_ok (dk_places (mc_disk sample_machine))"
  using sample_places_ok(1) by (simp add: sample_machine_def)

lemma sample_clean: "clean (clean ''/w'') = clean ''/w''"
  by code_simp

lemma on_places_kept: "kept (mc_disk m) (mc_disk (on_places T left m))"
  by (simp add: kept_def on_places_def)

lemma sample_ids: "Inr ''c1'' = Inr i \<Longrightarrow> id_ok i" "Inr ''c2'' = Inr i \<Longrightarrow> id_ok i"
  using sample_ids_ok by auto

lemmas sample_unit_begun = unit_begun [OF sample_unit_codec_ok sample_temp_ok sample_ids(1) sample_machine_places sample_clean sample_begun]

theorem restore_brings_back_what_was_saved_witness:
  "case restore_checkpoint sample_codec sample_os () ''/run'' False new_registry (on_places changed_places 100 begun_machine) of (out, m') \<Rightarrow>
     (\<exists>r'. out = Returned (begun_state, r')) \<and>
     brought (dk_places (mc_disk begun_machine)) 0x12 (kp_workspaces begun_state) (mc_disk m')"
proof -
  let ?m = "on_places changed_places 100 begun_machine"
  let ?run = "restore_checkpoint sample_codec sample_os () ''/run'' False new_registry ?m"
  obtain out m' where run: "?run = (out, m')" by (cases ?run)
  have "(case fst ?run of Returned x \<Rightarrow> True | _ \<Rightarrow> False) \<and> dk_umask (mc_disk (snd ?run)) = 0x12" by code_simp
  then obtain st r' where out: "out = Returned (st, r')" and um: "dk_umask (mc_disk m') = 0x12"
    by (auto simp: run split: outcome.splits)
  have load: "load_checkpoint sample_codec ''/run'' (mc_disk ?m) = Inr begun_state" by code_simp
  from sample_unit_begun obtain st1 where ok: "places_ok (dk_places (mc_disk begun_machine))" and
    "unit_saved sample_codec ''/run'' ''/w'' (dk_places (mc_disk begun_machine)) (reg_snapshot_workspace new_registry ''/w'')
      \<lparr>us_status = UnitStarted, us_result = []\<rparr> st1 (mc_disk begun_machine)" by blast
  from unit_saved_kept [OF on_places_kept this(2)] load
  have "saved sample_codec (dk_places (mc_disk begun_machine)) begun_state (mc_disk ?m)" by (simp add: unit_saved_def)
  from restore_brings_back_what_was_saved [OF ok load this run] out um run show ?thesis
    by (simp add: begun_state_def sample_payload_def)
qed


end
