(* ===== verification/R42_Runes.thy ===== *)
theory R42_Runes
  imports R42_Prelude
begin

text \<open>
  UTF-8 in Go strings: \<^verbatim>\<open>range\<close> over a string, \<^verbatim>\<open>utf8.ValidString\<close>, \<^verbatim>\<open>strings.Map\<close> with a function that
  keeps or drops runes, and \<^verbatim>\<open>unicode.IsSpace\<close> and \<^verbatim>\<open>unicode.IsControl\<close>. A rune is kept as its bytes,
  an invalid byte is a chunk of its own.
\<close>

section \<open>Splitting a string into runes\<close>

definition byte_in :: "int \<Rightarrow> int \<Rightarrow> char \<Rightarrow> bool" where
  "byte_in lo hi c \<longleftrightarrow> lo \<le> of_char c \<and> of_char c \<le> (hi :: int)"

text \<open>What may follow a first byte of a rune: ranges of the second byte and the number of bytes.\<close>

definition rune_head :: "char \<Rightarrow> (int \<times> int \<times> nat) option" where
  "rune_head c =
     (if byte_in 0x00 0x7F c then Some (0, 0, 1)
      else if byte_in 0xC2 0xDF c then Some (0x80, 0xBF, 2)
      else if byte_in 0xE0 0xE0 c then Some (0xA0, 0xBF, 3)
      else if byte_in 0xED 0xED c then Some (0x80, 0x9F, 3)
      else if byte_in 0xE1 0xEF c then Some (0x80, 0xBF, 3)
      else if byte_in 0xF0 0xF0 c then Some (0x90, 0xBF, 4)
      else if byte_in 0xF1 0xF3 c then Some (0x80, 0xBF, 4)
      else if byte_in 0xF4 0xF4 c then Some (0x80, 0x8F, 4)
      else None)"

text \<open>The length of the rune a string starts with, 0 if there is none.\<close>

fun rune_len :: "string \<Rightarrow> nat" where
  "rune_len [] = 0"
| "rune_len (c # cs) =
     (case rune_head c of
        None \<Rightarrow> 0
      | Some (lo, hi, n) \<Rightarrow>
          (if n = 1 then 1
           else if length cs + 1 < n then 0
           else if byte_in lo hi (hd cs) \<and> list_all (byte_in 0x80 0xBF) (take (n - 2) (tl cs)) then n
           else 0))"

lemma rune_head_len: "rune_head c = Some (lo, hi, n) \<Longrightarrow> 1 \<le> n \<and> n \<le> 4"
  by (auto simp: rune_head_def split: if_splits)

lemma rune_len_le: "rune_len s \<le> length s" "rune_len s \<le> 4"
  by (cases s; auto split: option.split dest: rune_head_len)+

function runes :: "string \<Rightarrow> string list" where
  "runes [] = []"
| "runes (c # cs) = (let n = max 1 (rune_len (c # cs)) in take n (c # cs) # runes (drop n (c # cs)))"
  by pat_completeness auto
termination
  by (relation "measure length") (auto simp: Let_def)

declare runes.simps(2) [simp del]

definition is_rune :: "string \<Rightarrow> bool" where
  "is_rune w \<longleftrightarrow> w \<noteq> [] \<and> rune_len w = length w"

definition valid_utf8 :: "string \<Rightarrow> bool" where
  "valid_utf8 s \<longleftrightarrow> list_all is_rune (runes s)"

lemma rune_len_append: "is_rune w \<Longrightarrow> rune_len (w @ s) = length w"
  by (cases w) (auto simp: is_rune_def hd_append split: option.splits if_splits)

lemma rune_len_prefix: "rune_len s \<noteq> 0 \<Longrightarrow> is_rune (take (rune_len s) s)"
  by (cases s) (auto simp: is_rune_def take_Cons' hd_append min_def tl_take numeral_2_eq_2 split: option.splits if_splits)

lemma runes_concat: "list_all is_rune ws \<Longrightarrow> runes (concat ws) = ws"
proof (induction ws)
  case (Cons w ws)
  then obtain c cs where w: "w = c # cs" by (cases w) (auto simp: is_rune_def)
  have "rune_len (concat (w # ws)) = length w" using Cons.prems by (simp add: rune_len_append)
  with Cons w show ?case by (simp add: runes.simps Let_def)
qed simp

lemma concat_runes: "concat (runes s) = s"
proof (induction s rule: runes.induct)
  case (2 c cs)
  then show ?case by (simp add: runes.simps Let_def)
qed simp

lemma valid_utf8_concat: "list_all is_rune ws \<Longrightarrow> valid_utf8 (concat ws)"
  by (simp add: valid_utf8_def runes_concat)

lemma valid_utf8_iff: "valid_utf8 s \<longleftrightarrow> (\<exists>ws. list_all is_rune ws \<and> s = concat ws)"
  using valid_utf8_concat concat_runes by (fastforce simp: valid_utf8_def)

section \<open>Classes of runes\<close>

definition is_space_rune :: "string \<Rightarrow> bool" where
  "is_space_rune w \<longleftrightarrow> w \<in> set space_runes"

definition is_control_rune :: "string \<Rightarrow> bool" where
  "is_control_rune w \<longleftrightarrow>
     (case w of
        [c] \<Rightarrow> byte_in 0x00 0x1F c \<or> c = CHR 0x7F
      | [c, d] \<Rightarrow> c = CHR 0xC2 \<and> byte_in 0x80 0x9F d
      | _ \<Rightarrow> False)"

text \<open>
  \<^verbatim>\<open>strings.Map\<close> of a function that keeps the runes of \<open>keep\<close>. An invalid byte is read as U+FFFD, and written so.
\<close>

definition replacement_rune :: string where
  "replacement_rune = [CHR 0xEF, CHR 0xBF, CHR 0xBD]"

definition keep_runes :: "(string \<Rightarrow> bool) \<Rightarrow> string \<Rightarrow> string" where
  "keep_runes keep s = concat (filter keep (map (\<lambda>w. if is_rune w then w else replacement_rune) (runes s)))"

lemma replacement_is_rune: "is_rune replacement_rune"
  by code_simp

lemma runes_keep_runes: "runes (keep_runes keep s) = filter keep (map (\<lambda>w. if is_rune w then w else replacement_rune) (runes s))"
  unfolding keep_runes_def by (rule runes_concat) (auto simp: list_all_iff replacement_is_rune)

lemma keep_runes_all: "list_all keep (runes (keep_runes keep s))"
  by (simp add: runes_keep_runes list_all_iff)

lemma keep_runes_valid: "valid_utf8 (keep_runes keep s)"
  unfolding valid_utf8_def runes_keep_runes by (auto simp: list_all_iff replacement_is_rune)

text \<open>Keeping less of what has been kept drops nothing that was dropped already.\<close>

lemma keep_runes_keeps:
  "list_all P (runes s) \<Longrightarrow> valid_utf8 s \<Longrightarrow> list_all P (runes (keep_runes keep s))"
  by (auto simp: runes_keep_runes list_all_iff valid_utf8_def)

section \<open>Cutting a string\<close>

text \<open>\<^verbatim>\<open>truncateUTF8\<close> of \<^verbatim>\<open>internal/progress/projector.go\<close>, with its loop.\<close>

function cut_invalid :: "string \<Rightarrow> string" where
  "cut_invalid s = (if s \<noteq> [] \<and> \<not> valid_utf8 s then cut_invalid (butlast s) else s)"
  by pat_completeness auto
termination
  by (relation "measure length") auto

declare cut_invalid.simps [simp del]

definition truncate_utf8 :: "string \<Rightarrow> nat \<Rightarrow> string" where
  "truncate_utf8 s m = (if length s \<le> m then s else cut_invalid (take m s))"

lemma valid_utf8_Nil [simp]: "valid_utf8 []"
  by (simp add: valid_utf8_def)

lemma cut_invalid_simps:
  "\<not> valid_utf8 s \<Longrightarrow> cut_invalid s = cut_invalid (butlast s)" "valid_utf8 s \<Longrightarrow> cut_invalid s = s"
  by (subst cut_invalid.simps; auto)+

lemma cut_invalid_prefix: "prefix (cut_invalid s) s"
proof (induction s rule: cut_invalid.induct)
  case (1 s)
  show ?case
  proof (cases "valid_utf8 s")
    case False
    with 1 have "prefix (cut_invalid (butlast s)) (butlast s)" by fastforce
    from prefix_order.trans [OF this prefixeq_butlast] False show ?thesis by (simp add: cut_invalid_simps)
  qed (simp add: cut_invalid_simps)
qed

lemma cut_invalid_valid: "valid_utf8 (cut_invalid s)"
proof (induction s rule: cut_invalid.induct)
  case (1 s)
  show ?case
  proof (cases "valid_utf8 s")
    case False
    then have "s \<noteq> []" by auto
    with 1 False have "valid_utf8 (cut_invalid (butlast s))" by simp
    then show ?thesis by (simp only: cut_invalid_simps(1) [OF False])
  qed (simp add: cut_invalid_simps(2))
qed

lemma cut_invalid_longest: "prefix p s \<Longrightarrow> valid_utf8 p \<Longrightarrow> prefix p (cut_invalid s)"
proof (induction s rule: cut_invalid.induct)
  case (1 s)
  show ?case
  proof (cases "valid_utf8 s")
    case False
    then obtain t x where s: "s = t @ [x]" by (cases s rule: rev_exhaust) auto
    have "p \<noteq> s" using 1 False by auto
    with 1(2) have "prefix p (butlast s)" by (simp add: s)
    with 1(1) [OF _ this 1(3)] False s have "prefix p (cut_invalid (butlast s))" by simp
    then show ?thesis by (simp only: cut_invalid_simps(1) [OF False])
  qed (use 1 in \<open>simp add: cut_invalid_simps\<close>)
qed

text \<open>Of a valid string at most three bytes more are lost than have to be.\<close>

lemma concat_cut:
  "list_all is_rune ws \<Longrightarrow> m \<le> length (concat ws) \<Longrightarrow>
   \<exists>us. list_all is_rune us \<and> prefix (concat us) (take m (concat ws)) \<and> m \<le> length (concat us) + 3"
proof (induction ws arbitrary: m)
  case (Cons w ws)
  have w: "length w \<le> 4" using Cons.prems(1) rune_len_le(2) [of w] by (simp add: is_rune_def)
  show ?case
  proof (cases "length w \<le> m")
    case True
    from Cons.prems have "list_all is_rune ws" "m - length w \<le> length (concat ws)" by auto
    from Cons.IH [OF this] obtain us where us: "list_all is_rune us" "prefix (concat us) (take (m - length w) (concat ws))"
        "m - length w \<le> length (concat us) + 3"
      by blast
    then have "list_all is_rune (w # us)" using Cons.prems by simp
    moreover have "prefix (concat (w # us)) (take m (concat (w # ws)))" using True us(2) by simp
    moreover have "m \<le> length (concat (w # us)) + 3" using True us(3) by simp
    ultimately show ?thesis by blast
  next
    case False
    with w show ?thesis by (intro exI [of _ "[]"]) simp
  qed
qed (intro exI [of _ "[]"], simp)

lemma truncate_utf8_bounds:
  shows "length (truncate_utf8 s m) \<le> m" and "prefix (truncate_utf8 s m) s"
    and "valid_utf8 s \<Longrightarrow> valid_utf8 (truncate_utf8 s m)"
    and "valid_utf8 s \<Longrightarrow> min m (length s) \<le> length (truncate_utf8 s m) + 3"
proof -
  have pre: "prefix (cut_invalid (take m s)) (take m s)" by (rule cut_invalid_prefix)
  from prefix_length_le [OF this] show "length (truncate_utf8 s m) \<le> m" by (simp add: truncate_utf8_def)
  show "prefix (truncate_utf8 s m) s"
    using prefix_order.trans [OF pre take_is_prefix] by (simp add: truncate_utf8_def)
  show "valid_utf8 s \<Longrightarrow> valid_utf8 (truncate_utf8 s m)" by (simp add: truncate_utf8_def cut_invalid_valid)
  assume s: "valid_utf8 s"
  show "min m (length s) \<le> length (truncate_utf8 s m) + 3"
  proof (cases "length s \<le> m")
    case False
    obtain ws where ws: "list_all is_rune ws" "s = concat ws" using s valid_utf8_iff by auto
    from concat_cut [OF this(1), of m] False obtain us where us: "list_all is_rune us" "prefix (concat us) (take m s)" "m \<le> length (concat us) + 3"
      using ws by auto
    from cut_invalid_longest [OF us(2) valid_utf8_concat [OF us(1)]] have "length (concat us) \<le> length (cut_invalid (take m s))"
      by (rule prefix_length_le)
    with us(3) False show ?thesis by (simp add: truncate_utf8_def)
  qed (simp add: truncate_utf8_def)
qed

text \<open>A prefix of a valid string that is valid itself has runes of the string only.\<close>

lemma runes_append: "valid_utf8 s \<Longrightarrow> runes (s @ t) = runes s @ runes t"
proof -
  assume "valid_utf8 s"
  then obtain ws where ws: "list_all is_rune ws" "s = concat ws" using valid_utf8_iff by auto
  from ws(1) have "runes (concat ws @ t) = ws @ runes t"
  proof (induction ws)
    case (Cons w ws)
    then obtain c cs where w: "w = c # cs" by (cases w) (auto simp: is_rune_def)
    have "rune_len (w @ concat ws @ t) = length w" using Cons.prems by (simp add: rune_len_append)
    with Cons w show ?case by (simp add: runes.simps Let_def)
  qed simp
  with ws show ?thesis by (simp add: runes_concat)
qed

lemma truncate_utf8_all:
  assumes "valid_utf8 s" "list_all P (runes s)"
  shows "list_all P (runes (truncate_utf8 s m))"
proof -
  obtain t where "s = truncate_utf8 s m @ t" using truncate_utf8_bounds(2) [of s m] by (auto simp: prefix_def)
  with runes_append [OF truncate_utf8_bounds(3) [OF assms(1)], of m t] have "runes s = runes (truncate_utf8 s m) @ runes t" by simp
  with assms(2) show ?thesis by simp
qed

end
