(* ===== verification/Progress_Projector.thy ===== *)
theory Progress_Projector
  imports R42_Runes
begin

text \<open>
  \<^verbatim>\<open>internal/progress/projector.go\<close> and the records of \<^verbatim>\<open>internal/progress/record.go\<close>: what a run
  tells a supervising process about its blocks. The projector follows the events of the run and
  keeps one sanitized projection per block.

  \<open>strip\<close> is \<^verbatim>\<open>ansi.Strip\<close> of a third-party package. A phase or status is kept as a datatype, the empty
  phase as \<open>None\<close>.
\<close>

section \<open>Projections and records\<close>

datatype node_status = NodeWaiting | NodeRunning | NodeSucceeded | NodeFailed | NodeCanceled
datatype node_activity = ActivityIdle | ActivityThinking | ActivityReplying | ActivityTool
datatype node_phase = NodeCollection | NodeCollectionQC | NodeResearch | NodeQC | NodeFinalQC | NodeRevision

record token_usage =
  tu_input :: int
  tu_output :: int
  tu_reasoning :: int
  tu_cache_read :: int
  tu_cache_write :: int

record projection =
  np_address :: string
  np_kind :: string
  np_parent :: string
  np_dependencies :: "string list"
  np_phase :: "node_phase option"
  np_status :: node_status
  np_activity :: node_activity
  np_tool :: string
  np_usage :: "token_usage option"
  np_summary :: string
  np_last_call :: string

datatype progress_record =
    SnapshotRecord "projection list"
  | MaterializedRecord string "projection list"
  | NodeRecord projection
  | TimelineRecord string node_activity string
  | CompletedRecord int int int
  | FailedRecord string
  | CanceledRecord string

definition valid_safe_name :: "string \<Rightarrow> bool" where
  "valid_safe_name s \<longleftrightarrow> s \<noteq> [] \<and> list_all (\<lambda>w. \<not> is_space_rune w \<and> \<not> is_control_rune w) (runes s)"

definition usage_error :: "token_usage option \<Rightarrow> error option" where
  "usage_error u =
     (case u of
        None \<Rightarrow> None
      | Some u \<Rightarrow>
          (if tu_input u < 0 \<or> tu_output u < 0 \<or> tu_reasoning u < 0 \<or> tu_cache_read u < 0 \<or> tu_cache_write u < 0
           then Some (Text ''usage tokens must be non-negative'') else None))"

definition projection_error :: "projection \<Rightarrow> error option" where
  "projection_error n =
     (if \<not> valid_safe_name (np_address n) then Some (Text ''block_address is required'')
      else if \<not> valid_safe_name (np_kind n) then Some (Text ''block_kind is required'')
      else if np_tool n \<noteq> [] \<and> \<not> valid_safe_name (np_tool n) then Some (Format ''invalid tool_name %q'' [StrArg (np_tool n)])
      else usage_error (np_usage n))"

fun nodes_error :: "nat \<Rightarrow> projection list \<Rightarrow> error option" where
  "nodes_error i [] = None"
| "nodes_error i (n # ns) =
     (case projection_error n of
        Some e \<Rightarrow> Some (Format ''nodes[%d]: %w'' [IntArg (int i), TextArg e])
      | None \<Rightarrow> nodes_error (i + 1) ns)"

fun progress_record_error :: "progress_record \<Rightarrow> error option" where
  "progress_record_error (SnapshotRecord ns) = nodes_error 0 ns"
| "progress_record_error (MaterializedRecord parent ns) =
     (if \<not> valid_safe_name parent then Some (Text ''parent_address is required'') else nodes_error 0 ns)"
| "progress_record_error (NodeRecord n) = projection_error n"
| "progress_record_error (TimelineRecord address activity summary) =
     (if \<not> valid_safe_name address then Some (Text ''block_address is required'')
      else if summary = [] then Some (Text ''summary is required'') else None)"
| "progress_record_error (CompletedRecord all succeeded failed) =
     (if all < 0 \<or> succeeded < 0 \<or> failed < 0 then Some (Text ''run counts must be non-negative'')
      else if failed \<noteq> 0 \<or> succeeded \<noteq> all
      then Some (Format ''run_completed counts must contain only %d succeeded nodes, got %d succeeded and %d failed''
             [IntArg all, IntArg succeeded, IntArg failed])
      else None)"
| "progress_record_error (FailedRecord summary) = (if summary = [] then Some (Text ''summary is required'') else None)"
| "progress_record_error (CanceledRecord summary) = (if summary = [] then Some (Text ''summary is required'') else None)"

section \<open>Sanitized text\<close>

definition plain_rune :: "string \<Rightarrow> bool" where
  "plain_rune w \<longleftrightarrow> w = [CHR 0x0A] \<or> w = [CHR 0x09] \<or> \<not> is_control_rune w"

definition terminal_text :: "(string \<Rightarrow> string) \<Rightarrow> string \<Rightarrow> string" where
  "terminal_text strip s = keep_runes plain_rune (strip s)"

definition maxSummaryBytes :: nat where
  "maxSummaryBytes = 4096"

definition sanitize_summary :: "(string \<Rightarrow> string) \<Rightarrow> string \<Rightarrow> string" where
  "sanitize_summary strip s = truncate_utf8 (terminal_text strip s) maxSummaryBytes"

definition sanitize_name :: "(string \<Rightarrow> string) \<Rightarrow> string \<Rightarrow> string" where
  "sanitize_name strip s = keep_runes (\<lambda>w. \<not> is_space_rune w) (terminal_text strip s)"

definition tool_summary :: "(string \<Rightarrow> string) \<Rightarrow> string \<Rightarrow> string \<Rightarrow> string" where
  "tool_summary strip verb name = sanitize_summary strip (verb @ '' '' @ (if name = [] then ''tool'' else name))"

section \<open>Events\<close>

record usage_event =
  ue_call :: string
  ue_tokens :: token_usage

record progress_event =
  pe_action :: string
  pe_status :: string
  pe_address :: string
  pe_session :: string
  pe_content :: string
  pe_tool :: string
  pe_paths :: "string list"
  pe_usage :: "usage_event option"

definition phase_from_session :: "string \<Rightarrow> node_phase option" where
  "phase_from_session s =
     (if s = ''collection'' then Some NodeCollection
      else if s = ''collection_qc'' then Some NodeCollectionQC
      else if s = ''research'' then Some NodeResearch
      else if s = ''qc'' then Some NodeQC
      else if s = ''final_qc'' then Some NodeFinalQC
      else if s = ''revision'' then Some NodeRevision
      else None)"

section \<open>The projector\<close>

record projector =
  pj_order :: "string list"
  pj_nodes :: "string \<Rightarrow> projection option"
  pj_children :: "string \<Rightarrow> string list option"

datatype plan_spec = PlanSpec (ps_address: string) (ps_kind: string) (ps_dependencies: "string list") (ps_child: "plan_spec list option")

definition canonical_address :: "string \<Rightarrow> string \<Rightarrow> string" where
  "canonical_address pre address = (if pre = [] then address else pre @ ''.'' @ address)"

definition waiting_node :: "string \<Rightarrow> string \<Rightarrow> string \<Rightarrow> string list \<Rightarrow> projection" where
  "waiting_node address kind parent deps =
     \<lparr>np_address = address, np_kind = kind, np_parent = parent, np_dependencies = deps, np_phase = None,
      np_status = NodeWaiting, np_activity = ActivityIdle, np_tool = [], np_usage = None, np_summary = [], np_last_call = []\<rparr>"

definition add_node :: "projection \<Rightarrow> projector \<Rightarrow> projector" where
  "add_node n p =
     p\<lparr>pj_order := pj_order p @ [np_address n], pj_nodes := (pj_nodes p)(np_address n \<mapsto> n)\<rparr>"

fun add_plan :: "string \<Rightarrow> string \<Rightarrow> plan_spec list \<Rightarrow> projector \<Rightarrow> projector" where
  "add_plan pre parent [] p = p"
| "add_plan pre parent (PlanSpec a kind deps child # specs) p =
     (let address = canonical_address pre a;
          p1 = add_node (waiting_node address kind parent (map (canonical_address pre) deps)) p;
          p2 = (case child of None \<Rightarrow> p1 | Some nodes \<Rightarrow> add_plan address address nodes p1)
      in add_plan pre parent specs p2)"

definition empty_projector :: projector where
  "empty_projector = \<lparr>pj_order = [], pj_nodes = Map.empty, pj_children = Map.empty\<rparr>"

definition new_projector :: "plan_spec list option \<Rightarrow> projector" where
  "new_projector plan = (case plan of None \<Rightarrow> empty_projector | Some specs \<Rightarrow> add_plan [] [] specs empty_projector)"

definition canonical_task_address :: "string \<Rightarrow> string \<Rightarrow> bool" where
  "canonical_task_address parent address =
     (let pre = parent @ ''.tasks[''
      in prefix pre address \<and> suffix '']'' (drop (length pre) address) \<and>
         (let index = butlast (drop (length pre) address)
          in index = ''0'' \<or>
             index \<noteq> [] \<and> byte_in 0x31 0x39 (hd index) \<and> list_all (byte_in 0x30 0x39) (tl index)))"

fun materialize_each :: "string \<Rightarrow> string list \<Rightarrow> projector \<Rightarrow> string list \<times> projector" where
  "materialize_each parent [] p = ([], p)"
| "materialize_each parent (a # as) p =
     (if \<not> canonical_task_address parent a \<or> pj_nodes p a \<noteq> None then materialize_each parent as p
      else (case materialize_each parent as (add_node (waiting_node a ''research'' parent []) p) of
              (children, p') \<Rightarrow> (a # children, p')))"

definition materialize_tasks :: "progress_event \<Rightarrow> projector \<Rightarrow> projector" where
  "materialize_tasks e p =
     (let parent = pe_address e
      in if pj_children p parent \<noteq> None \<or> pj_nodes p parent = None then p
         else (case materialize_each parent (pe_paths e) p of
                 (children, p') \<Rightarrow> p'\<lparr>pj_children := (pj_children p')(parent \<mapsto> children)\<rparr>))"

definition zero_usage :: token_usage where
  "zero_usage = \<lparr>tu_input = 0, tu_output = 0, tu_reasoning = 0, tu_cache_read = 0, tu_cache_write = 0\<rparr>"

definition plus_usage :: "token_usage \<Rightarrow> token_usage \<Rightarrow> token_usage" where
  "plus_usage u v =
     \<lparr>tu_input = wrap_int (tu_input u + tu_input v), tu_output = wrap_int (tu_output u + tu_output v),
      tu_reasoning = wrap_int (tu_reasoning u + tu_reasoning v), tu_cache_read = wrap_int (tu_cache_read u + tu_cache_read v),
      tu_cache_write = wrap_int (tu_cache_write u + tu_cache_write v)\<rparr>"

definition add_usage :: "usage_event option \<Rightarrow> projection \<Rightarrow> projection" where
  "add_usage usage n =
     (case usage of
        None \<Rightarrow> n
      | Some u \<Rightarrow>
          (if ue_call u \<noteq> [] \<and> ue_call u = np_last_call n then n
           else let n1 = (if ue_call u \<noteq> [] then n\<lparr>np_last_call := ue_call u\<rparr> else n);
                    old = (case np_usage n1 of None \<Rightarrow> zero_usage | Some t \<Rightarrow> t)
                in n1\<lparr>np_usage := Some (plus_usage old (ue_tokens u))\<rparr>))"

definition lifecycle :: "progress_event \<Rightarrow> projection \<Rightarrow> projection" where
  "lifecycle e n =
     (if pe_action e = ''block.apply''
      then (if pe_status e = ''started'' then n\<lparr>np_status := NodeRunning\<rparr>
            else if pe_status e = ''completed'' then n\<lparr>np_status := NodeSucceeded, np_activity := ActivityIdle\<rparr>
            else if pe_status e = ''failed'' then n\<lparr>np_status := NodeFailed, np_activity := ActivityIdle\<rparr>
            else n)
      else if pe_action e = ''block.factory'' \<and> pe_status e = ''failed''
      then n\<lparr>np_status := NodeFailed, np_activity := ActivityIdle\<rparr>
      else n)"

definition follow :: "(string \<Rightarrow> string) \<Rightarrow> progress_event \<Rightarrow> projection \<Rightarrow> projection" where
  "follow strip e n =
     (if pe_action e \<in> {''assistant.reasoning'', ''assistant.reasoning_delta''}
      then n\<lparr>np_activity := ActivityThinking, np_summary := sanitize_summary strip (pe_content e)\<rparr>
      else if pe_action e \<in> {''assistant.message'', ''assistant.message_delta''}
      then n\<lparr>np_activity := ActivityReplying, np_summary := sanitize_summary strip (pe_content e)\<rparr>
      else if pe_action e \<in> {''tool.execution_start'', ''tool.execution_progress'', ''tool.execution_partial_result''}
      then (let name = sanitize_name strip (pe_tool e)
            in n\<lparr>np_activity := ActivityTool, np_tool := name, np_summary := tool_summary strip ''Running'' name\<rparr>)
      else if pe_action e = ''tool.execution_complete''
      then (let name = sanitize_name strip (pe_tool e)
            in n\<lparr>np_activity := ActivityThinking, np_tool := name, np_summary := tool_summary strip ''Finished'' name\<rparr>)
      else if pe_action e = ''assistant.usage'' then add_usage (pe_usage e) n
      else n)"

definition node_after :: "(string \<Rightarrow> string) \<Rightarrow> progress_event \<Rightarrow> projection \<Rightarrow> projection" where
  "node_after strip e n = follow strip e ((lifecycle e n)\<lparr>np_phase := phase_from_session (pe_session e)\<rparr>)"

definition project_event :: "(string \<Rightarrow> string) \<Rightarrow> progress_event \<Rightarrow> projector \<Rightarrow> projector" where
  "project_event strip e p =
     (let p1 = (if pe_action e = ''dynamic.tasks.materialized'' then materialize_tasks e p else p)
      in case pj_nodes p1 (pe_address e) of
           None \<Rightarrow> p1
         | Some n \<Rightarrow> p1\<lparr>pj_nodes := (pj_nodes p1)(pe_address e \<mapsto> node_after strip e n)\<rparr>)"

definition nodes_at :: "string list \<Rightarrow> projector \<Rightarrow> projection list" where
  "nodes_at as p = List.map_filter (pj_nodes p) as"

definition snapshot_record :: "projector \<Rightarrow> progress_record" where
  "snapshot_record p = SnapshotRecord (nodes_at (pj_order p) p)"

definition materialized_record :: "string \<Rightarrow> projector \<Rightarrow> progress_record" where
  "materialized_record parent p =
     MaterializedRecord parent (nodes_at (case pj_children p parent of None \<Rightarrow> [] | Some cs \<Rightarrow> cs) p)"

definition timeline_record :: "string \<Rightarrow> projector \<Rightarrow> progress_record option" where
  "timeline_record address p =
     (case pj_nodes p address of
        None \<Rightarrow> None
      | Some n \<Rightarrow> (if np_summary n = [] then None else Some (TimelineRecord address (np_activity n) (np_summary n))))"

section \<open>What a projector keeps\<close>

text \<open>Each block is known under its own address, and a materialized task is known.\<close>

definition projector_inv :: "projector \<Rightarrow> bool" where
  "projector_inv p \<longleftrightarrow>
     set (pj_order p) = dom (pj_nodes p) \<and> (\<forall>a n. pj_nodes p a = Some n \<longrightarrow> np_address n = a) \<and>
     (\<forall>a cs. pj_children p a = Some cs \<longrightarrow> set cs \<subseteq> dom (pj_nodes p))"

lemma add_node_inv: "projector_inv p \<Longrightarrow> projector_inv (add_node n p)"
  unfolding projector_inv_def add_node_def by (simp add: subset_insertI2)

lemma put_known_inv:
  assumes "projector_inv p" "pj_nodes p a = Some n" "np_address n' = a"
  shows "projector_inv (p\<lparr>pj_nodes := (pj_nodes p)(a \<mapsto> n')\<rparr>)"
proof -
  have "dom ((pj_nodes p)(a \<mapsto> n')) = dom (pj_nodes p)" using assms(2) by auto
  then show ?thesis using assms(1,3) by (simp add: projector_inv_def)
qed

lemma add_plan_inv: "projector_inv p \<Longrightarrow> projector_inv (add_plan pre parent specs p)"
  by (induction pre parent specs p rule: add_plan.induct) (auto simp: Let_def add_node_inv split: option.split)

lemma new_projector_inv: "projector_inv (new_projector plan)"
proof -
  have "projector_inv empty_projector" by (simp add: projector_inv_def empty_projector_def)
  then show ?thesis by (simp add: new_projector_def add_plan_inv split: option.split)
qed

lemma node_after_address [simp]:
  "np_address (node_after strip e n) = np_address n" "np_kind (node_after strip e n) = np_kind n"
  by (simp_all add: node_after_def follow_def lifecycle_def add_usage_def Let_def split: option.split)

text \<open>What a materialization adds: waiting tasks, at addresses that were not known.\<close>

lemma materialize_each_effect:
  assumes "materialize_each parent as p = (children, p')"
  shows "(\<forall>a. pj_nodes p a \<noteq> None \<longrightarrow> pj_nodes p' a = pj_nodes p a) \<and> pj_children p' = pj_children p \<and>
    (\<forall>a. pj_nodes p a = None \<longrightarrow> pj_nodes p' a \<noteq> None \<longrightarrow> a \<in> set children \<and> pj_nodes p' a = Some (waiting_node a ''research'' parent [])) \<and>
    set children \<subseteq> dom (pj_nodes p') \<and> (projector_inv p \<longrightarrow> projector_inv p')"
  using assms
proof (induction parent as p arbitrary: children rule: materialize_each.induct)
  case (2 parent a as p)
  show ?case
  proof (cases "\<not> canonical_task_address parent a \<or> pj_nodes p a \<noteq> None")
    case True
    with 2(3) have "materialize_each parent as p = (children, p')" by simp
    from 2(1) [OF True this] show ?thesis .
  next
    case False
    let ?w = "\<lambda>a. waiting_node a ''research'' parent []"
    let ?q = "add_node (?w a) p"
    obtain cs where cs: "materialize_each parent as ?q = (cs, p')" "children = a # cs"
      using 2(3) False by (auto split: prod.splits)
    have q: "pj_nodes ?q = (pj_nodes p)(a \<mapsto> ?w a)" "pj_children ?q = pj_children p"
      by (simp_all add: add_node_def waiting_node_def)
    note IH = 2(2) [OF False cs(1)]
    have old: "pj_nodes p' b = pj_nodes ?q b" if "pj_nodes ?q b \<noteq> None" for b using IH that by blast
    have new: "b \<in> set cs \<and> pj_nodes p' b = Some (?w b)" if "pj_nodes ?q b = None" "pj_nodes p' b \<noteq> None" for b
      using IH that by blast
    have a: "pj_nodes p' a = Some (?w a)" using old [of a] q by simp
    have free: "pj_nodes p a = None" using False by simp
    show ?thesis
    proof (intro conjI allI impI)
      fix b assume "pj_nodes p b \<noteq> None"
      then show "pj_nodes p' b = pj_nodes p b" using old [of b] q free by (cases "b = a") auto
    next
      fix b assume b: "pj_nodes p b = None" "pj_nodes p' b \<noteq> None"
      show "b \<in> set children" "pj_nodes p' b = Some (?w b)"
        using new [of b] b q a cs(2) by (cases "b = a"; auto)+
    qed (use IH q a cs(2) in \<open>auto simp: add_node_inv\<close>)
  qed
qed auto

lemma materialize_tasks_effect:
  shows "pj_nodes p a \<noteq> None \<Longrightarrow> pj_nodes (materialize_tasks e p) a = pj_nodes p a"
    and "pj_nodes p a = None \<Longrightarrow> pj_nodes (materialize_tasks e p) a \<noteq> None \<Longrightarrow>
      pj_nodes (materialize_tasks e p) a = Some (waiting_node a ''research'' (pe_address e) []) \<and>
      (\<exists>cs. pj_children (materialize_tasks e p) (pe_address e) = Some cs \<and> a \<in> set cs)"
    and "projector_inv p \<Longrightarrow> projector_inv (materialize_tasks e p)"
    and "pj_nodes p (pe_address e) = None \<Longrightarrow> materialize_tasks e p = p"
proof -
  obtain children p' where m: "materialize_each (pe_address e) (pe_paths e) p = (children, p')"
    by (cases "materialize_each (pe_address e) (pe_paths e) p")
  note effect = materialize_each_effect [OF m]
  show "pj_nodes p a \<noteq> None \<Longrightarrow> pj_nodes (materialize_tasks e p) a = pj_nodes p a"
    using effect by (simp add: materialize_tasks_def Let_def m)
  show "pj_nodes p a = None \<Longrightarrow> pj_nodes (materialize_tasks e p) a \<noteq> None \<Longrightarrow>
      pj_nodes (materialize_tasks e p) a = Some (waiting_node a ''research'' (pe_address e) []) \<and>
      (\<exists>cs. pj_children (materialize_tasks e p) (pe_address e) = Some cs \<and> a \<in> set cs)"
    using effect by (auto simp: materialize_tasks_def Let_def m split: if_splits)
  show "projector_inv p \<Longrightarrow> projector_inv (materialize_tasks e p)"
    using effect by (auto simp: materialize_tasks_def Let_def m projector_inv_def)
  show "pj_nodes p (pe_address e) = None \<Longrightarrow> materialize_tasks e p = p"
    by (simp add: materialize_tasks_def)
qed

lemma project_event_inv:
  assumes "projector_inv p"
  shows "projector_inv (project_event strip e p)"
proof -
  obtain p1 where p1: "p1 = (if pe_action e = ''dynamic.tasks.materialized'' then materialize_tasks e p else p)" by simp
  then have inv: "projector_inv p1" using assms by (simp add: materialize_tasks_effect(3))
  show ?thesis
  proof (cases "pj_nodes p1 (pe_address e)")
    case (Some n)
    then have "np_address n = pe_address e" using inv by (simp add: projector_inv_def)
    with put_known_inv [OF inv Some] show ?thesis by (simp add: project_event_def Let_def Some flip: p1)
  qed (use inv in \<open>simp add: project_event_def Let_def flip: p1\<close>)
qed

section \<open>The privacy boundary\<close>

text \<open>Free text of a projection is short, and holds no control characters but line ends and tabs.\<close>

definition summary_clean :: "string \<Rightarrow> bool" where
  "summary_clean s \<longleftrightarrow> length s \<le> maxSummaryBytes \<and> valid_utf8 s \<and> list_all plain_rune (runes s)"

definition tool_clean :: "string \<Rightarrow> bool" where
  "tool_clean s \<longleftrightarrow> s = [] \<or> valid_safe_name s"

lemma sanitize_summary_clean: "summary_clean (sanitize_summary strip s)"
proof -
  have "valid_utf8 (terminal_text strip s)" "list_all plain_rune (runes (terminal_text strip s))"
    unfolding terminal_text_def by (rule keep_runes_valid, rule keep_runes_all)
  then show ?thesis
    unfolding summary_clean_def sanitize_summary_def
    by (intro conjI truncate_utf8_bounds(1,3) truncate_utf8_all)
qed

lemma sanitize_name_clean: "tool_clean (sanitize_name strip s)"
proof -
  let ?t = "terminal_text strip s" and ?n = "sanitize_name strip s"
  have "list_all plain_rune (runes ?t)" "valid_utf8 ?t"
    unfolding terminal_text_def by (rule keep_runes_all, rule keep_runes_valid)
  then have plain: "list_all plain_rune (runes ?n)"
    unfolding sanitize_name_def by (rule keep_runes_keeps)
  have space: "list_all (\<lambda>w. \<not> is_space_rune w) (runes ?n)"
    unfolding sanitize_name_def by (rule keep_runes_all)
  have breaks: "is_space_rune [CHR 0x0A]" "is_space_rune [CHR 0x09]" by (simp_all add: is_space_rune_def space_runes_def)
  have "\<not> is_space_rune w \<and> \<not> is_control_rune w" if "w \<in> set (runes ?n)" for w
    using plain space breaks that unfolding list_all_iff plain_rune_def by metis
  then show ?thesis by (simp add: tool_clean_def valid_safe_name_def list_all_iff)
qed

definition node_clean :: "projection \<Rightarrow> bool" where
  "node_clean n \<longleftrightarrow> summary_clean (np_summary n) \<and> tool_clean (np_tool n)"

lemma waiting_node_clean: "node_clean (waiting_node a k parent deps)"
  by (simp add: node_clean_def waiting_node_def summary_clean_def tool_clean_def)

lemma node_after_clean: "node_clean n \<Longrightarrow> node_clean (node_after strip e n)"
  by (simp add: node_clean_def node_after_def follow_def lifecycle_def add_usage_def Let_def tool_summary_def
      sanitize_summary_clean sanitize_name_clean split: option.split)

end
