(* ===== verification/Progress_Publisher.thy ===== *)
theory Progress_Publisher
  imports Progress_Projector
begin

text \<open>
  \<^verbatim>\<open>internal/progress/publisher.go\<close>: records wait in a bounded queue until a worker writes them. A
  critical section of the publisher's mutex is one step. \<open>Observe\<close> is two, for it derives its
  records before it locks; the event bus calls it for one event after the other. The caller
  (\<^verbatim>\<open>internal/cli/command.go\<close>) ends the events before it calls \<open>Finish\<close> and \<open>Close\<close>. The drain time
  limit of \<open>Close\<close> only ends the program early.

  Pending projections are a Go map: the worker takes any of them. The result of a write is the
  environment's.
\<close>

section \<open>The queue\<close>

record publisher =
  pb_run :: string
  pb_capacity :: nat
  pb_priority :: "progress_record list"
  pb_upserts :: "(string \<times> progress_record) list"
  pb_timelines :: "progress_record list"
  pb_seq :: int
  pb_started :: bool
  pb_closed :: bool
  pb_finished :: bool
  pb_stopped :: bool
  pb_warned :: bool

definition defaultPublisherCapacity :: nat where
  "defaultPublisherCapacity = 256"

definition new_publisher :: "string \<Rightarrow> nat \<Rightarrow> publisher" where
  "new_publisher run capacity =
     \<lparr>pb_run = run, pb_capacity = capacity, pb_priority = [], pb_upserts = [], pb_timelines = [], pb_seq = 0,
      pb_started = False, pb_closed = False, pb_finished = False, pb_stopped = False, pb_warned = False\<rparr>"

definition pending :: "publisher \<Rightarrow> nat" where
  "pending p = length (pb_priority p) + length (pb_upserts p) + length (pb_timelines p)"

definition over_capacity :: "publisher \<Rightarrow> bool" where
  "over_capacity p \<longleftrightarrow> pending p \<ge> pb_capacity p"

definition evict_oldest_timeline :: "publisher \<Rightarrow> publisher option" where
  "evict_oldest_timeline p =
     (case pb_timelines p of [] \<Rightarrow> None | _ # ts \<Rightarrow> Some (p\<lparr>pb_timelines := ts\<rparr>))"

text \<open>The loop that makes room for a structural or terminal record: whether there is room, and what is left.\<close>

function make_room :: "publisher \<Rightarrow> bool \<times> publisher" where
  "make_room p =
     (if over_capacity p
      then (case evict_oldest_timeline p of None \<Rightarrow> (False, p) | Some p' \<Rightarrow> make_room p')
      else (True, p))"
  by pat_completeness auto
termination
  by (relation "measure (\<lambda>p. length (pb_timelines p))") (auto simp: evict_oldest_timeline_def split: list.splits)

declare make_room.simps [simp del]

fun enqueue :: "progress_record \<Rightarrow> publisher \<Rightarrow> publisher" where
  "enqueue (NodeRecord n) p =
     (let address = np_address n; put = (\<lambda>p. p\<lparr>pb_upserts := AList.update address (NodeRecord n) (pb_upserts p)\<rparr>)
      in if map_of (pb_upserts p) address \<noteq> None then put p
         else if over_capacity p then (case evict_oldest_timeline p of None \<Rightarrow> p | Some p' \<Rightarrow> put p')
         else put p)"
| "enqueue (TimelineRecord a b c) p =
     (let put = (\<lambda>p. p\<lparr>pb_timelines := pb_timelines p @ [TimelineRecord a b c]\<rparr>)
      in if over_capacity p then (case evict_oldest_timeline p of None \<Rightarrow> p | Some p' \<Rightarrow> put p') else put p)"
| "enqueue r p =
     (case make_room p of (False, p') \<Rightarrow> p' | (True, p') \<Rightarrow> p'\<lparr>pb_priority := pb_priority p' @ [r]\<rparr>)"

definition start_publisher :: "projector \<Rightarrow> publisher \<Rightarrow> publisher" where
  "start_publisher pj p = (if pb_started p then p else enqueue (snapshot_record pj) (p\<lparr>pb_started := True\<rparr>))"

definition records_for_event :: "progress_event \<Rightarrow> projector \<Rightarrow> progress_record list" where
  "records_for_event e pj =
     (case pj_nodes pj (pe_address e) of
        None \<Rightarrow> []
      | Some n \<Rightarrow>
          (if pe_action e = ''dynamic.tasks.materialized'' then [materialized_record (pe_address e) pj]
           else NodeRecord n #
             (if pe_action e \<in> {''assistant.reasoning'', ''assistant.reasoning_delta'', ''assistant.message'', ''assistant.message_delta'',
                  ''tool.execution_start'', ''tool.execution_progress'', ''tool.execution_partial_result'', ''tool.execution_complete''}
              then (case timeline_record (pe_address e) pj of None \<Rightarrow> [] | Some r \<Rightarrow> [r]) else [])))"

definition enqueue_all :: "progress_record list \<Rightarrow> publisher \<Rightarrow> publisher" where
  "enqueue_all rs p = (if pb_closed p then p else fold enqueue rs p)"

datatype apply_result = ApplySucceeded | ApplyCanceled | ApplyFailed

definition terminal_record :: "int \<Rightarrow> apply_result \<Rightarrow> progress_record" where
  "terminal_record n result =
     (case result of
        ApplySucceeded \<Rightarrow> CompletedRecord n n 0
      | ApplyCanceled \<Rightarrow> CanceledRecord ''Apply canceled''
      | ApplyFailed \<Rightarrow> FailedRecord ''Apply failed'')"

definition finish_publisher :: "projector \<Rightarrow> apply_result \<Rightarrow> publisher \<Rightarrow> publisher" where
  "finish_publisher pj result p =
     (if pb_closed p \<or> pb_finished p then p
      else enqueue (terminal_record (int (length (nodes_at (pj_order pj) pj))) result) (p\<lparr>pb_finished := True\<rparr>))"

definition close_publisher :: "publisher \<Rightarrow> publisher" where
  "close_publisher p = p\<lparr>pb_closed := True\<rparr>"

section \<open>The worker\<close>

text \<open>\<open>k\<close> says which of the pending projections Go's map gives first.\<close>

definition next_pending :: "nat \<Rightarrow> publisher \<Rightarrow> progress_record option \<times> publisher" where
  "next_pending k p =
     (case pb_priority p of
        r # rs \<Rightarrow> (Some r, p\<lparr>pb_priority := rs\<rparr>)
      | [] \<Rightarrow>
          (if pb_upserts p \<noteq> []
           then (case pb_upserts p ! (k mod length (pb_upserts p)) of
                   (address, r) \<Rightarrow> (Some r, p\<lparr>pb_upserts := AList.delete address (pb_upserts p)\<rparr>))
           else (case pb_timelines p of
                   r # rs \<Rightarrow> (Some r, p\<lparr>pb_timelines := rs\<rparr>)
                 | [] \<Rightarrow> (None, p))))"

text \<open>\<open>failure\<close> is what encoding and writing the line came to, had the record been in order.\<close>

definition encode_record :: "string \<Rightarrow> error option \<Rightarrow> progress_record \<Rightarrow> error option" where
  "encode_record run failure r =
     (if blank run then Some (Text ''run_id is required'')
      else case progress_record_error r of Some e \<Rightarrow> Some e | None \<Rightarrow> failure)"

definition emit_record :: "error option \<Rightarrow> progress_record \<Rightarrow> publisher \<Rightarrow> (int \<times> progress_record) option \<times> publisher" where
  "emit_record failure r p =
     (if pb_stopped p then (None, p)
      else let p1 = p\<lparr>pb_seq := (pb_seq p + 1) mod 2 ^ 64\<rparr>
           in case encode_record (pb_run p) failure r of
                None \<Rightarrow> (Some (pb_seq p1, r), p1)
              | Some e \<Rightarrow> (None, p1\<lparr>pb_stopped := True, pb_warned := True\<rparr>))"

section \<open>Runs\<close>

record progress_system =
  py_projector :: projector
  py_publisher :: publisher
  py_inflight :: "progress_record list"
  py_written :: "(int \<times> progress_record) list"

datatype progress_label =
  DoStart | DoObserve progress_event | DoEnqueue | DoWrite nat "error option" | DoFinish apply_result | DoClose

text \<open>
  A materialization event carries the session its block has had, that is none: its block then sends no record of its own.
\<close>

definition quiet_event :: "progress_event \<Rightarrow> projector \<Rightarrow> bool" where
  "quiet_event e pj \<longleftrightarrow>
     (pe_action e = ''dynamic.tasks.materialized'' \<longrightarrow>
        (\<forall>n. pj_nodes pj (pe_address e) = Some n \<longrightarrow> np_phase n = phase_from_session (pe_session e)))"

inductive progress_step :: "(string \<Rightarrow> string) \<Rightarrow> progress_system \<Rightarrow> progress_label \<Rightarrow> progress_system \<Rightarrow> bool" for strip where
  step_start: "progress_step strip s DoStart (s\<lparr>py_publisher := start_publisher (py_projector s) (py_publisher s)\<rparr>)"
| step_observe: "py_inflight s = [] \<Longrightarrow> \<not> pb_closed (py_publisher s) \<Longrightarrow> quiet_event e (py_projector s) \<Longrightarrow>
    pj = project_event strip e (py_projector s) \<Longrightarrow>
    progress_step strip s (DoObserve e) (s\<lparr>py_projector := pj, py_inflight := records_for_event e pj\<rparr>)"
| step_enqueue: "progress_step strip s DoEnqueue
    (s\<lparr>py_publisher := enqueue_all (py_inflight s) (py_publisher s), py_inflight := []\<rparr>)"
| step_write: "pb_started (py_publisher s) \<Longrightarrow> next_pending k (py_publisher s) = (Some r, p1) \<Longrightarrow> emit_record failure r p1 = (line, p2) \<Longrightarrow>
    progress_step strip s (DoWrite k failure)
      (s\<lparr>py_publisher := p2, py_written := py_written s @ (case line of None \<Rightarrow> [] | Some l \<Rightarrow> [l])\<rparr>)"
| step_finish: "py_inflight s = [] \<Longrightarrow>
    progress_step strip s (DoFinish result) (s\<lparr>py_publisher := finish_publisher (py_projector s) result (py_publisher s)\<rparr>)"
| step_close: "py_inflight s = [] \<Longrightarrow>
    progress_step strip s DoClose (s\<lparr>py_publisher := close_publisher (py_publisher s)\<rparr>)"

definition progress_initial :: "plan_spec list option \<Rightarrow> string \<Rightarrow> nat \<Rightarrow> progress_system \<Rightarrow> bool" where
  "progress_initial plan run capacity s \<longleftrightarrow>
     s = \<lparr>py_projector = new_projector plan, py_publisher = new_publisher run capacity, py_inflight = [], py_written = []\<rparr>"

section \<open>Effects on the queue\<close>

lemma evict_simps:
  "evict_oldest_timeline p = None \<longleftrightarrow> pb_timelines p = []"
  "evict_oldest_timeline p = Some p' \<longleftrightarrow> pb_timelines p \<noteq> [] \<and> p' = p\<lparr>pb_timelines := tl (pb_timelines p)\<rparr>"
  by (auto simp: evict_oldest_timeline_def split: list.splits)

definition critical :: "publisher \<Rightarrow> nat" where
  "critical p = length (pb_priority p) + length (pb_upserts p)"

text \<open>What making room does: it drops the oldest timeline records.\<close>

lemma make_room_effect:
  "make_room p = (room, p') \<Longrightarrow>
     (\<exists>ts. p' = p\<lparr>pb_timelines := ts\<rparr> \<and> suffix ts (pb_timelines p)) \<and>
     (room \<longrightarrow> pending p' < pb_capacity p) \<and> (\<not> room \<longrightarrow> pb_capacity p \<le> critical p)"
proof (induction p rule: make_room.induct)
  case (1 p)
  show ?case
  proof (cases "over_capacity p \<and> pb_timelines p \<noteq> []")
    case True
    then obtain t ts where ts: "pb_timelines p = t # ts" by (cases "pb_timelines p") auto
    have e: "evict_oldest_timeline p = Some (p\<lparr>pb_timelines := ts\<rparr>)" by (simp add: evict_oldest_timeline_def ts)
    with 1(2) True have "make_room (p\<lparr>pb_timelines := ts\<rparr>) = (room, p')" by (simp add: make_room.simps [of p])
    from 1(1) [OF conjunct1 [OF True] e this] show ?thesis
      by (auto simp: critical_def ts intro: suffix_ConsI)
  next
    case False
    have "\<exists>ts. p = p\<lparr>pb_timelines := ts\<rparr> \<and> suffix ts (pb_timelines p)" by (intro exI [of _ "pb_timelines p"]) simp
    with False 1(2) show ?thesis
      by (auto simp: make_room.simps [of p] evict_simps over_capacity_def pending_def critical_def split: if_splits option.splits)
  qed
qed

definition same_status :: "publisher \<Rightarrow> publisher \<Rightarrow> bool" where
  "same_status p p' \<longleftrightarrow>
     pb_run p' = pb_run p \<and> pb_capacity p' = pb_capacity p \<and> pb_seq p' = pb_seq p \<and> pb_started p' = pb_started p \<and>
     pb_closed p' = pb_closed p \<and> pb_finished p' = pb_finished p \<and> pb_stopped p' = pb_stopped p \<and> pb_warned p' = pb_warned p"

text \<open>What a record does to the queue: the three kinds, each kept or dropped.\<close>

fun structural :: "progress_record \<Rightarrow> bool" where
  "structural (NodeRecord _) \<longleftrightarrow> False"
| "structural (TimelineRecord _ _ _) \<longleftrightarrow> False"
| "structural _ \<longleftrightarrow> True"

lemma enqueue_cases:
  obtains (dropped) ts where "enqueue r p = p\<lparr>pb_timelines := ts\<rparr>" "suffix ts (pb_timelines p)"
      "pb_capacity p \<le> critical p \<or> (\<exists>a b c. r = TimelineRecord a b c)"
  | (node) n ts where "r = NodeRecord n" "suffix ts (pb_timelines p)"
      "enqueue r p = p\<lparr>pb_timelines := ts, pb_upserts := AList.update (np_address n) r (pb_upserts p)\<rparr>"
      "map_of (pb_upserts p) (np_address n) = None \<longrightarrow> length ts + critical p < pb_capacity p \<or> length ts < length (pb_timelines p)"
  | (timeline) a b c ts where "r = TimelineRecord a b c" "suffix ts (pb_timelines p)" "enqueue r p = p\<lparr>pb_timelines := ts @ [r]\<rparr>"
      "length ts + critical p < pb_capacity p \<or> length ts < length (pb_timelines p)"
  | (structural) ts where "structural r" "suffix ts (pb_timelines p)" "enqueue r p = p\<lparr>pb_timelines := ts, pb_priority := pb_priority p @ [r]\<rparr>"
      "length ts + critical p < pb_capacity p"
proof -
  have same: "p\<lparr>pb_timelines := pb_timelines p\<rparr> = p" by simp
  have tl: "suffix (tl ts) ts" "ts \<noteq> [] \<Longrightarrow> length (tl ts) < length ts" for ts :: "'b list" by (simp_all add: suffix_tl)
  have over: "over_capacity p \<Longrightarrow> pb_timelines p = [] \<Longrightarrow> pb_capacity p \<le> critical p"
    "\<not> over_capacity p \<Longrightarrow> length (pb_timelines p) + critical p < pb_capacity p"
    by (simp_all add: over_capacity_def pending_def critical_def)
  show ?thesis
  proof (cases "structural r")
    case True
    obtain room p' where m: "make_room p = (room, p')" by (cases "make_room p")
    then have e: "enqueue r p = (if room then p'\<lparr>pb_priority := pb_priority p' @ [r]\<rparr> else p')"
      using True by (cases r) (auto split: bool.splits)
    from make_room_effect [OF m] obtain ts where ts: "p' = p\<lparr>pb_timelines := ts\<rparr>" "suffix ts (pb_timelines p)"
        "room \<longrightarrow> pending p' < pb_capacity p" "\<not> room \<longrightarrow> pb_capacity p \<le> critical p" by blast
    show ?thesis
    proof (cases room)
      case True
      with ts e \<open>structural r\<close> show ?thesis by (intro structural [of ts]) (auto simp: pending_def critical_def)
    next
      case False
      with ts e show ?thesis by (intro dropped [of ts]) auto
    qed
  next
    case False
    show ?thesis
    proof (cases r)
      case (NodeRecord n)
      consider "map_of (pb_upserts p) (np_address n) \<noteq> None \<or> \<not> over_capacity p"
        | "map_of (pb_upserts p) (np_address n) = None" "over_capacity p" "pb_timelines p = []"
        | "map_of (pb_upserts p) (np_address n) = None" "over_capacity p" "pb_timelines p \<noteq> []" by blast
      then show ?thesis
      proof cases
        case 1
        then show ?thesis
          using NodeRecord over(2) by (intro node [of n "pb_timelines p"]) (auto simp: Let_def)
      next
        case 2
        then show ?thesis
          using NodeRecord over(1) by (intro dropped [of "pb_timelines p"]) (auto simp: Let_def evict_oldest_timeline_def)
      next
        case 3
        then have "evict_oldest_timeline p = Some (p\<lparr>pb_timelines := tl (pb_timelines p)\<rparr>)" by (simp add: evict_simps)
        with 3 NodeRecord tl show ?thesis by (intro node [of n "tl (pb_timelines p)"]) (auto simp: Let_def)
      qed
    next
      case (TimelineRecord a b c)
      consider "\<not> over_capacity p" | "over_capacity p" "pb_timelines p = []" | "over_capacity p" "pb_timelines p \<noteq> []" by blast
      then show ?thesis
      proof cases
        case 1
        then show ?thesis using TimelineRecord over(2) by (intro timeline [of a b c "pb_timelines p"]) (auto simp: Let_def)
      next
        case 2
        then show ?thesis using TimelineRecord by (intro dropped [of "pb_timelines p"]) (auto simp: Let_def evict_oldest_timeline_def)
      next
        case 3
        then have "evict_oldest_timeline p = Some (p\<lparr>pb_timelines := tl (pb_timelines p)\<rparr>)" by (simp add: evict_simps)
        with 3 TimelineRecord tl show ?thesis by (intro timeline [of a b c "tl (pb_timelines p)"]) (auto simp: Let_def)
      qed
    qed (use False in auto)
  qed
qed

declare enqueue.simps [simp del]

lemma enqueue_status [simp]: "same_status p (enqueue r p)"
  by (cases rule: enqueue_cases [where r = r and p = p]) (simp_all add: same_status_def)

section \<open>The consumer\<close>

text \<open>What crosses the wire of a projection, and the blocks a consumer knows from the records it read.\<close>

definition wire :: "projection \<Rightarrow> projection" where
  "wire n = n\<lparr>np_summary := [], np_last_call := []\<rparr>"

definition put_nodes :: "projection list \<Rightarrow> (string \<Rightarrow> projection option) \<Rightarrow> string \<Rightarrow> projection option" where
  "put_nodes ns m = fold (\<lambda>n m. m(np_address n \<mapsto> wire n)) ns m"

fun consume :: "progress_record \<Rightarrow> (string \<Rightarrow> projection option) \<Rightarrow> string \<Rightarrow> projection option" where
  "consume (SnapshotRecord ns) m = put_nodes ns Map.empty"
| "consume (MaterializedRecord parent ns) m = put_nodes ns m"
| "consume (NodeRecord n) m = m(np_address n \<mapsto> wire n)"
| "consume _ m = m"

definition consumed :: "progress_record list \<Rightarrow> string \<Rightarrow> projection option" where
  "consumed rs = fold consume rs Map.empty"

definition known :: "projector \<Rightarrow> string \<Rightarrow> projection option" where
  "known pj a = map_option wire (pj_nodes pj a)"

definition upsert_map :: "(string \<times> progress_record) list \<Rightarrow> string \<Rightarrow> projection option" where
  "upsert_map us a = (case map_of us a of Some (NodeRecord n) \<Rightarrow> Some (wire n) | _ \<Rightarrow> None)"

lemma put_nodes_at:
  assumes "projector_inv pj"
  shows "put_nodes (nodes_at as pj) m = (\<lambda>a. if a \<in> set as \<and> pj_nodes pj a \<noteq> None then known pj a else m a)"
proof (induction as arbitrary: m)
  case Nil
  then show ?case by (simp add: put_nodes_def nodes_at_def map_filter_simps)
next
  case (Cons b as)
  show ?case
  proof (cases "pj_nodes pj b")
    case None
    then have "put_nodes (nodes_at (b # as) pj) m = put_nodes (nodes_at as pj) m" by (simp add: nodes_at_def map_filter_simps)
    with None show ?thesis by (auto simp: Cons fun_eq_iff)
  next
    case (Some n)
    then have b: "np_address n = b" using assms by (simp add: projector_inv_def)
    have "put_nodes (nodes_at (b # as) pj) m = put_nodes (nodes_at as pj) (m(b \<mapsto> wire n))"
      by (simp add: put_nodes_def nodes_at_def map_filter_simps Some b)
    also have "\<dots> = (\<lambda>a. if a \<in> set as \<and> pj_nodes pj a \<noteq> None then known pj a else (m(b \<mapsto> wire n)) a)"
      by (rule Cons)
    finally show ?thesis using Some by (auto simp: known_def fun_eq_iff)
  qed
qed

lemma consume_snapshot:
  assumes "projector_inv pj"
  shows "consume (snapshot_record pj) m = known pj"
proof
  fix a
  have "a \<in> set (pj_order pj) \<longleftrightarrow> pj_nodes pj a \<noteq> None" using assms by (auto simp: projector_inv_def)
  then show "consume (snapshot_record pj) m a = known pj a"
    by (simp add: snapshot_record_def put_nodes_at [OF assms] known_def)
qed

text \<open>A record of an event carries the blocks as the projector has them now.\<close>

fun current :: "projector \<Rightarrow> progress_record \<Rightarrow> bool" where
  "current pj (NodeRecord n) \<longleftrightarrow> pj_nodes pj (np_address n) = Some n"
| "current pj (MaterializedRecord parent ns) \<longleftrightarrow> (\<exists>as. ns = nodes_at as pj)"
| "current pj (SnapshotRecord ns) \<longleftrightarrow> False"
| "current pj _ \<longleftrightarrow> True"

text \<open>What an event's records may be: those of a materialization, or a projection and a line for the timeline.\<close>

definition event_records :: "progress_record list \<Rightarrow> bool" where
  "event_records rs \<longleftrightarrow>
     rs = [] \<or> (\<exists>parent ns. rs = [MaterializedRecord parent ns]) \<or>
     (\<exists>n ts. rs = NodeRecord n # ts \<and> (ts = [] \<or> (\<exists>a b c. ts = [TimelineRecord a b c])))"

lemma records_for_event_shape: "event_records (records_for_event e pj)"
  by (auto simp: event_records_def records_for_event_def materialized_record_def timeline_record_def split: option.split)

lemma records_for_event_current: "projector_inv pj \<Longrightarrow> r \<in> set (records_for_event e pj) \<Longrightarrow> current pj r"
  by (auto simp: records_for_event_def materialized_record_def timeline_record_def projector_inv_def split: option.splits if_splits)

lemma records_for_event_node:
  "pj_nodes pj (pe_address e) = Some n \<Longrightarrow> pe_action e \<noteq> ''dynamic.tasks.materialized'' \<Longrightarrow> NodeRecord n \<in> set (records_for_event e pj)"
  by (simp only: records_for_event_def option.case if_False list.set insert_iff simp_thms)

lemma node_after_materialized:
  "pe_action e = ''dynamic.tasks.materialized'' \<Longrightarrow> np_phase n = phase_from_session (pe_session e) \<Longrightarrow> node_after strip e n = n"
  by (cases n) (simp add: node_after_def follow_def lifecycle_def)

lemma project_event_nodes:
  assumes "quiet_event e pj"
  shows "pj_nodes (project_event strip e pj) =
    (if pe_action e = ''dynamic.tasks.materialized'' then pj_nodes (materialize_tasks e pj)
     else case pj_nodes pj (pe_address e) of None \<Rightarrow> pj_nodes pj | Some n \<Rightarrow> (pj_nodes pj)(pe_address e \<mapsto> node_after strip e n))"
proof (cases "pe_action e = ''dynamic.tasks.materialized''")
  case True
  show ?thesis
  proof (cases "pj_nodes pj (pe_address e)")
    case None
    with True show ?thesis by (simp add: project_event_def materialize_tasks_effect(4))
  next
    case (Some n)
    then have "pj_nodes (materialize_tasks e pj) (pe_address e) = Some n" using materialize_tasks_effect(1) [of pj "pe_address e" e] by simp
    moreover have "node_after strip e n = n"
      using assms True Some by (intro node_after_materialized) (auto simp: quiet_event_def)
    ultimately show ?thesis using True by (auto simp: project_event_def Let_def fun_upd_idem)
  qed
qed (simp add: project_event_def Let_def split: option.split)

text \<open>The records of an event tell a consumer all that the event changed.\<close>

lemma records_tell_all:
  assumes inv: "projector_inv pj" and quiet: "quiet_event e pj" and pj': "pj' = project_event strip e pj"
  shows "fold consume (records_for_event e pj') (known pj) = known pj'"
proof (cases "pe_action e = ''dynamic.tasks.materialized''")
  case False
  show ?thesis
  proof (cases "pj_nodes pj (pe_address e)")
    case None
    with False have "pj_nodes pj' = pj_nodes pj" using project_event_nodes [OF quiet] by (simp add: pj')
    with None False show ?thesis by (simp add: records_for_event_def known_def fun_eq_iff)
  next
    case (Some n)
    with False have new: "pj_nodes pj' = (pj_nodes pj)(pe_address e \<mapsto> node_after strip e n)"
      using project_event_nodes [OF quiet] by (simp add: pj')
    have address: "np_address (node_after strip e n) = pe_address e" using Some inv by (simp add: projector_inv_def)
    have "fold consume (records_for_event e pj') m = m(pe_address e \<mapsto> wire (node_after strip e n))" for m
      using new address False by (auto simp: records_for_event_def timeline_record_def split: option.split)
    with new show ?thesis by (auto simp: known_def fun_eq_iff)
  qed
next
  case True
  have nodes: "pj_nodes pj' = pj_nodes (materialize_tasks e pj)" using project_event_nodes [OF quiet] True by (simp add: pj')
  show ?thesis
  proof (cases "pj_nodes pj (pe_address e)")
    case None
    with True have "pj' = pj" by (simp add: pj' project_event_def materialize_tasks_effect(4))
    with None True show ?thesis by (simp add: records_for_event_def)
  next
    case (Some n)
    have inv': "projector_inv pj'" unfolding pj' by (rule project_event_inv [OF inv])
    have children: "pj_children pj' = pj_children (materialize_tasks e pj)"
      using True by (simp add: pj' project_event_def Let_def split: option.split)
    let ?cs = "case pj_children pj' (pe_address e) of None \<Rightarrow> [] | Some cs \<Rightarrow> cs"
    have "pj_nodes pj' (pe_address e) \<noteq> None"
      using materialize_tasks_effect(1) [of pj "pe_address e" e] Some nodes by simp
    then have "fold consume (records_for_event e pj') (known pj) = put_nodes (nodes_at ?cs pj') (known pj)"
      using True by (auto simp: records_for_event_def materialized_record_def)
    also have "\<dots> = (\<lambda>a. if a \<in> set ?cs \<and> pj_nodes pj' a \<noteq> None then known pj' a else known pj a)"
      by (rule put_nodes_at [OF inv'])
    also have "\<dots> = known pj'"
    proof
      fix a
      have "known pj a = known pj' a" if "\<not> (a \<in> set ?cs \<and> pj_nodes pj' a \<noteq> None)"
      proof (cases "pj_nodes pj a")
        case None
        with that materialize_tasks_effect(2) [OF None, of e] have "pj_nodes pj' a = None"
          by (fastforce simp: nodes children)
        with None show ?thesis by (simp add: known_def)
      next
        case (Some n)
        with materialize_tasks_effect(1) [of pj a e] show ?thesis by (simp add: known_def nodes)
      qed
      then show "(if a \<in> set ?cs \<and> pj_nodes pj' a \<noteq> None then known pj' a else known pj a) = known pj' a" by simp
    qed
    finally show ?thesis .
  qed
qed

section \<open>The consumer is told everything\<close>

definition upserts_ok :: "(string \<times> progress_record) list \<Rightarrow> bool" where
  "upserts_ok us \<longleftrightarrow> distinct (map fst us) \<and> list_all (\<lambda>u. \<exists>n. snd u = NodeRecord n \<and> np_address n = fst u) us"

lemma upserts_ok_update: "upserts_ok us \<Longrightarrow> upserts_ok (AList.update (np_address n) (NodeRecord n) us)"
  unfolding upserts_ok_def
proof (elim conjE, intro conjI)
  assume "list_all (\<lambda>u. \<exists>n. snd u = NodeRecord n \<and> np_address n = fst u) us"
  then show "list_all (\<lambda>u. \<exists>n. snd u = NodeRecord n \<and> np_address n = fst u) (AList.update (np_address n) (NodeRecord n) us)"
    by (induction us) auto
qed (rule distinct_update)

lemma upserts_ok_delete: "upserts_ok us \<Longrightarrow> upserts_ok (AList.delete a us)"
  by (auto simp: upserts_ok_def list_all_iff AList.delete_eq distinct_map inj_on_def)

lemma upsert_map_update: "upsert_map (AList.update (np_address n) (NodeRecord n) us) = (upsert_map us)(np_address n \<mapsto> wire n)"
  by (rule ext) (simp add: upsert_map_def update_conv)

lemma upsert_map_delete: "upsert_map (AList.delete a us) = (upsert_map us)(a := None)"
  by (rule ext) (simp add: upsert_map_def delete_conv)

lemma enqueue_calm:
  assumes "critical p < pb_capacity p"
  shows "structural r \<Longrightarrow> pb_priority (enqueue r p) = pb_priority p @ [r] \<and> pb_upserts (enqueue r p) = pb_upserts p"
    and "pb_priority (enqueue (NodeRecord n) p) = pb_priority p \<and>
      pb_upserts (enqueue (NodeRecord n) p) = AList.update (np_address n) (NodeRecord n) (pb_upserts p)"
proof -
  show "structural r \<Longrightarrow> pb_priority (enqueue r p) = pb_priority p @ [r] \<and> pb_upserts (enqueue r p) = pb_upserts p"
    by (cases rule: enqueue_cases [where r = r and p = p]) (use assms in auto)
  show "pb_priority (enqueue (NodeRecord n) p) = pb_priority p \<and>
      pb_upserts (enqueue (NodeRecord n) p) = AList.update (np_address n) (NodeRecord n) (pb_upserts p)"
    by (cases rule: enqueue_cases [where r = "NodeRecord n" and p = p]) (use assms in auto)
qed

definition timelines_ok :: "publisher \<Rightarrow> bool" where
  "timelines_ok p \<longleftrightarrow> list_all (\<lambda>r. \<exists>a b c. r = TimelineRecord a b c) (pb_timelines p)"

lemma timelines_ok_enqueue [simp]: "timelines_ok p \<Longrightarrow> timelines_ok (enqueue r p)"
  by (cases rule: enqueue_cases [where r = r and p = p]) (auto simp: timelines_ok_def suffix_def)

lemma timelines_ok_enqueue_all [simp]: "timelines_ok p \<Longrightarrow> timelines_ok (enqueue_all rs p)"
proof -
  have "timelines_ok p \<Longrightarrow> timelines_ok (fold enqueue rs p)" by (induction rs arbitrary: p) simp_all
  then show "timelines_ok p \<Longrightarrow> timelines_ok (enqueue_all rs p)" by (simp add: enqueue_all_def)
qed

lemma enqueue_timeline:
  "pb_priority (enqueue (TimelineRecord a b c) p) = pb_priority p \<and> pb_upserts (enqueue (TimelineRecord a b c) p) = pb_upserts p"
  by (cases rule: enqueue_cases [where r = "TimelineRecord a b c" and p = p]) auto

text \<open>What a consumer will know once everything pending and derived has been written.\<close>

definition will_know :: "progress_system \<Rightarrow> string \<Rightarrow> projection option" where
  "will_know s =
     fold consume (py_inflight s)
       (consumed (map snd (py_written s) @ pb_priority (py_publisher s)) ++ upsert_map (pb_upserts (py_publisher s)))"

definition fresh_upserts :: "progress_system \<Rightarrow> bool" where
  "fresh_upserts s \<longleftrightarrow>
     (\<forall>a n. map_of (pb_upserts (py_publisher s)) a = Some (NodeRecord n) \<longrightarrow>
        pj_nodes (py_projector s) a = Some n \<or> (\<exists>n'. NodeRecord n' \<in> set (py_inflight s) \<and> np_address n' = a))"

definition told_inv :: "progress_system \<Rightarrow> bool" where
  "told_inv s \<longleftrightarrow>
     projector_inv (py_projector s) \<and> upserts_ok (pb_upserts (py_publisher s)) \<and>
     event_records (py_inflight s) \<and> list_all (current (py_projector s)) (py_inflight s) \<and>
     (pb_closed (py_publisher s) \<longrightarrow> py_inflight s = []) \<and> fresh_upserts s \<and> timelines_ok (py_publisher s) \<and>
     (pb_started (py_publisher s) \<and> \<not> pb_stopped (py_publisher s) \<longrightarrow> will_know s = known (py_projector s))"

definition calm_step :: "(string \<Rightarrow> string) \<Rightarrow> progress_system \<Rightarrow> progress_label \<Rightarrow> progress_system \<Rightarrow> bool" where
  "calm_step strip s l t \<longleftrightarrow> progress_step strip s l t \<and> critical (py_publisher s) < pb_capacity (py_publisher s)"

lemma told_observe:
  assumes inv: "told_inv s" and none: "py_inflight s = []" and opened: "\<not> pb_closed (py_publisher s)" and quiet: "quiet_event e (py_projector s)"
    and pj: "pj = project_event strip e (py_projector s)"
  shows "told_inv (s\<lparr>py_projector := pj, py_inflight := records_for_event e pj\<rparr>)"
proof -
  have pinv: "projector_inv (py_projector s)" using inv by (simp add: told_inv_def)
  have pinv': "projector_inv pj" unfolding pj by (rule project_event_inv [OF pinv])
  have fresh: "pj_nodes pj a = Some n \<or> (\<exists>n'. NodeRecord n' \<in> set (records_for_event e pj) \<and> np_address n' = a)"
    if "map_of (pb_upserts (py_publisher s)) a = Some (NodeRecord n)" for a n
  proof -
    have old: "pj_nodes (py_projector s) a = Some n"
      using inv none that by (auto simp: told_inv_def fresh_upserts_def)
    show ?thesis
    proof (cases "pe_action e = ''dynamic.tasks.materialized'' \<or> pe_address e \<noteq> a")
      case True
      then have "pj_nodes pj a = Some n"
        using old materialize_tasks_effect(1) [of "py_projector s" a e]
        unfolding pj project_event_nodes [OF quiet] by (auto split: option.split)
      then show ?thesis ..
    next
      case False
      then have "pj_nodes pj a = Some (node_after strip e n)"
        using old unfolding pj project_event_nodes [OF quiet] by auto
      then have "NodeRecord (node_after strip e n) \<in> set (records_for_event e pj)"
        using False records_for_event_node [of pj e] by simp
      moreover have "np_address (node_after strip e n) = a" using pinv old by (simp add: projector_inv_def)
      ultimately show ?thesis by blast
    qed
  qed
  have "fold consume (records_for_event e pj) (known (py_projector s)) = known pj"
    by (rule records_tell_all [OF pinv quiet pj])
  then have "will_know (s\<lparr>py_projector := pj, py_inflight := records_for_event e pj\<rparr>) = known pj"
    if "pb_started (py_publisher s)" "\<not> pb_stopped (py_publisher s)"
    using inv none that by (simp add: told_inv_def will_know_def)
  then show ?thesis
    using inv opened fresh records_for_event_shape [of e pj] records_for_event_current [OF pinv'] pinv'
    unfolding told_inv_def by (auto simp: fresh_upserts_def list_all_iff)
qed

lemma consumed_append: "consumed (rs @ [r]) = consume r (consumed rs)"
  by (simp add: consumed_def)

text \<open>Pending projections are newer than what a structural record says, or the same.\<close>

lemma put_nodes_pending:
  assumes "projector_inv pj" "\<And>a n. map_of us a = Some (NodeRecord n) \<Longrightarrow> pj_nodes pj a = Some n" "upserts_ok us"
  shows "put_nodes (nodes_at as pj) m ++ upsert_map us = put_nodes (nodes_at as pj) (m ++ upsert_map us)"
proof
  fix a
  show "(put_nodes (nodes_at as pj) m ++ upsert_map us) a = put_nodes (nodes_at as pj) (m ++ upsert_map us) a"
  proof (cases "map_of us a")
    case None
    then show ?thesis by (auto simp: put_nodes_at [OF assms(1)] map_add_def upsert_map_def known_def)
  next
    case (Some r)
    then have "(a, r) \<in> set us" by (rule map_of_SomeD)
    with assms(3) obtain n where "r = NodeRecord n" by (auto simp: upserts_ok_def list_all_iff)
    with Some assms(2) [of a n] show ?thesis
      by (simp add: put_nodes_at [OF assms(1)] map_add_def upsert_map_def known_def)
  qed
qed

lemma told_enqueue:
  assumes inv: "told_inv s" and calm: "critical (py_publisher s) < pb_capacity (py_publisher s)"
  shows "told_inv (s\<lparr>py_publisher := enqueue_all (py_inflight s) (py_publisher s), py_inflight := []\<rparr>)"
proof -
  let ?p = "py_publisher s" and ?pj = "py_projector s" and ?W = "map snd (py_written s)"
  let ?t = "s\<lparr>py_publisher := enqueue_all (py_inflight s) ?p, py_inflight := []\<rparr>"
  have base: "projector_inv ?pj" "upserts_ok (pb_upserts ?p)" "list_all (current ?pj) (py_inflight s)" "fresh_upserts s"
    "pb_closed ?p \<longrightarrow> py_inflight s = []"
    "pb_started ?p \<and> \<not> pb_stopped ?p \<longrightarrow> will_know s = known ?pj" "event_records (py_inflight s)" "timelines_ok ?p"
    using inv by (simp_all add: told_inv_def)
  consider (none) "py_inflight s = []"
    | (tasks) parent ns where "py_inflight s = [MaterializedRecord parent ns]"
    | (block) n ts where "py_inflight s = NodeRecord n # ts" "ts = [] \<or> (\<exists>a b c. ts = [TimelineRecord a b c])"
    using base(7) by (auto simp: event_records_def)
  then show ?thesis
  proof cases
    case none
    then have "?t = s" by (simp add: enqueue_all_def)
    with inv show ?thesis by simp
  next
    case tasks
    then have opened: "\<not> pb_closed ?p" using base(5) by auto
    let ?q = "enqueue (MaterializedRecord parent ns) ?p"
    have q: "pb_priority ?q = pb_priority ?p @ [MaterializedRecord parent ns]" "pb_upserts ?q = pb_upserts ?p"
      using enqueue_calm(1) [OF calm] by simp_all
    obtain as where ns: "ns = nodes_at as ?pj" using base(3) tasks by auto
    have now: "pj_nodes ?pj a = Some n" if "map_of (pb_upserts ?p) a = Some (NodeRecord n)" for a n
      using base(4) that tasks by (auto simp: fresh_upserts_def)
    have "will_know ?t = will_know s"
      using tasks opened q put_nodes_pending [OF base(1) now base(2)]
      by (simp add: will_know_def enqueue_all_def consumed_append ns flip: append_assoc)
    then show ?thesis
      using base q opened now enqueue_status [of ?p "MaterializedRecord parent ns"]
      by (simp add: told_inv_def tasks enqueue_all_def event_records_def fresh_upserts_def same_status_def)
  next
    case block
    then have opened: "\<not> pb_closed ?p" using base(5) by auto
    let ?q = "enqueue_all (py_inflight s) ?p"
    have q: "pb_priority ?q = pb_priority ?p" "pb_upserts ?q = AList.update (np_address n) (NodeRecord n) (pb_upserts ?p)"
      using block enqueue_calm(2) [OF calm, of n] opened by (auto simp: enqueue_all_def enqueue_timeline)
    have status: "same_status ?p ?q"
      using block opened enqueue_status [of ?p "NodeRecord n"] enqueue_status [of "enqueue (NodeRecord n) ?p"]
      by (auto simp: enqueue_all_def same_status_def)
    have now: "pj_nodes ?pj (np_address n) = Some n" using base(3) block by simp
    have "fold consume ts m = m" for m using block(2) by auto
    then have "will_know ?t = will_know s"
      using q by (simp add: will_know_def block upsert_map_update)
    moreover have "fresh_upserts ?t"
      unfolding fresh_upserts_def
    proof (intro allI impI)
      fix a m assume "map_of (pb_upserts (py_publisher ?t)) a = Some (NodeRecord m)"
      then have "if a = np_address n then m = n else map_of (pb_upserts ?p) a = Some (NodeRecord m)"
        using q(2) by (simp add: update_conv split: if_splits)
      then have "pj_nodes ?pj a = Some m"
        using base(4) now block(2) by (fastforce simp: fresh_upserts_def block(1) split: if_splits)
      then show "pj_nodes (py_projector ?t) a = Some m \<or> (\<exists>n'. NodeRecord n' \<in> set (py_inflight ?t) \<and> np_address n' = a)"
        by simp
    qed
    ultimately show ?thesis
      using base q status by (simp add: told_inv_def event_records_def same_status_def upserts_ok_update)
  qed
qed

lemma told_start:
  assumes inv: "told_inv s" and calm: "critical (py_publisher s) < pb_capacity (py_publisher s)"
  shows "told_inv (s\<lparr>py_publisher := start_publisher (py_projector s) (py_publisher s)\<rparr>)"
proof (cases "pb_started (py_publisher s)")
  case True
  then have "s\<lparr>py_publisher := start_publisher (py_projector s) (py_publisher s)\<rparr> = s" by (simp add: start_publisher_def)
  with inv show ?thesis by simp
next
  case False
  let ?p = "(py_publisher s)\<lparr>pb_started := True\<rparr>" and ?pj = "py_projector s"
  let ?q = "enqueue (snapshot_record ?pj) ?p"
  let ?t = "s\<lparr>py_publisher := ?q\<rparr>"
  have base: "projector_inv ?pj" "upserts_ok (pb_upserts ?p)" "list_all (current ?pj) (py_inflight s)" "fresh_upserts s"
    "pb_closed ?p \<longrightarrow> py_inflight s = []" "event_records (py_inflight s)" "timelines_ok ?p"
    using inv by (simp_all add: told_inv_def timelines_ok_def)
  have "critical ?p < pb_capacity ?p" using calm by (simp add: critical_def)
  from enqueue_calm(1) [OF this, of "snapshot_record ?pj"]
  have q: "pb_priority ?q = pb_priority ?p @ [snapshot_record ?pj]" "pb_upserts ?q = pb_upserts ?p" by (simp_all add: snapshot_record_def)
  have told: "consumed (map snd (py_written s) @ pb_priority ?q) = known ?pj"
    by (simp add: q(1) consumed_append consume_snapshot [OF base(1)] flip: append_assoc)
  have "will_know ?t = known ?pj"
  proof
    fix a
    have up: "(known ?pj ++ upsert_map (pb_upserts ?p)) a = known ?pj a"
      if "\<And>n. map_of (pb_upserts ?p) a = Some (NodeRecord n) \<Longrightarrow> pj_nodes ?pj a = Some n"
    proof (cases "map_of (pb_upserts ?p) a")
      case (Some r)
      then have "(a, r) \<in> set (pb_upserts ?p)" by (rule map_of_SomeD)
      with base(2) obtain n where "r = NodeRecord n" by (auto simp: upserts_ok_def list_all_iff)
      with Some that [of n] show ?thesis by (simp add: map_add_def upsert_map_def known_def)
    qed (simp add: map_add_def upsert_map_def)
    have pending: "pj_nodes ?pj b = Some n \<or> (\<exists>n'. NodeRecord n' \<in> set (py_inflight s) \<and> np_address n' = b)"
      if "map_of (pb_upserts ?p) b = Some (NodeRecord n)" for b n
      using base(4) that by (auto simp: fresh_upserts_def)
    consider (none) "py_inflight s = []"
      | (tasks) parent ns where "py_inflight s = [MaterializedRecord parent ns]"
      | (block) n ts where "py_inflight s = NodeRecord n # ts" "ts = [] \<or> (\<exists>a b c. ts = [TimelineRecord a b c])"
      using base(6) by (auto simp: event_records_def)
    then show "will_know ?t a = known ?pj a"
    proof cases
      case none
      then show ?thesis using up pending told by (simp add: will_know_def q(2))
    next
      case tasks
      then obtain as where "ns = nodes_at as ?pj" using base(3) by auto
      with tasks show ?thesis using up pending told by (simp add: will_know_def q(2) put_nodes_at [OF base(1)])
    next
      case block
      then have n: "pj_nodes ?pj (np_address n) = Some n" using base(3) by simp
      have "fold consume ts m = m" for m using block(2) by auto
      then have t: "will_know ?t a = ((known ?pj ++ upsert_map (pb_upserts ?p))(np_address n \<mapsto> wire n)) a"
        by (simp add: will_know_def q(2) block(1) told)
      show ?thesis
      proof (cases "a = np_address n")
        case True
        then show ?thesis using t n by (simp add: known_def)
      next
        case False
        have "pj_nodes ?pj a = Some k" if "map_of (pb_upserts ?p) a = Some (NodeRecord k)" for k
          using pending [OF that] False block by auto
        with up t False show ?thesis by simp
      qed
    qed
  qed
  then have "told_inv ?t"
    using base q enqueue_status [of ?p "snapshot_record ?pj"]
    by (simp add: told_inv_def fresh_upserts_def same_status_def)
  with False show ?thesis by (simp add: start_publisher_def)
qed

lemma told_write:
  assumes inv: "told_inv s" and next_r: "next_pending k (py_publisher s) = (Some r, p1)" and emit: "emit_record failure r p1 = (line, p2)"
  shows "told_inv (s\<lparr>py_publisher := p2, py_written := py_written s @ (case line of None \<Rightarrow> [] | Some l \<Rightarrow> [l])\<rparr>)"
    (is "told_inv ?t")
proof -
  let ?p = "py_publisher s" and ?pj = "py_projector s" and ?W = "map snd (py_written s)"
  have base: "projector_inv ?pj" "upserts_ok (pb_upserts ?p)" "list_all (current ?pj) (py_inflight s)" "fresh_upserts s"
    "pb_closed ?p \<longrightarrow> py_inflight s = []" "event_records (py_inflight s)"
    "pb_started ?p \<and> \<not> pb_stopped ?p \<longrightarrow> will_know s = known ?pj" "timelines_ok ?p"
    using inv by (simp_all add: told_inv_def)
  have p2: "pb_upserts p2 = pb_upserts p1" "pb_priority p2 = pb_priority p1" "pb_closed p2 = pb_closed p1" "pb_started p2 = pb_started p1"
    "\<not> pb_stopped p2 \<Longrightarrow> \<not> pb_stopped p1 \<and> (\<exists>i. line = Some (i, r))"
    using emit by (auto simp: emit_record_def Let_def split: if_splits option.splits)
  consider (head) "pb_priority ?p = r # pb_priority p1" "pb_upserts p1 = pb_upserts ?p"
    | (block) n where "pb_priority ?p = []" "pb_priority p1 = []" "r = NodeRecord n" "map_of (pb_upserts ?p) (np_address n) = Some r"
        "pb_upserts p1 = AList.delete (np_address n) (pb_upserts ?p)"
    | (rest) "pb_priority p1 = pb_priority ?p" "pb_priority ?p = []" "pb_upserts p1 = pb_upserts ?p" "pb_upserts ?p = []"
  proof (cases "pb_priority ?p")
    case (Cons x xs)
    with next_r head show ?thesis by (auto simp: next_pending_def)
  next
    case Nil
    show ?thesis
    proof (cases "pb_upserts ?p = []")
      case True
      with Nil next_r rest show ?thesis by (auto simp: next_pending_def split: list.splits)
    next
      case False
      then have k: "k mod length (pb_upserts ?p) < length (pb_upserts ?p)" by simp
      obtain a x where ax: "pb_upserts ?p ! (k mod length (pb_upserts ?p)) = (a, x)" by fastforce
      then have mem: "(a, x) \<in> set (pb_upserts ?p)" using k by (metis nth_mem)
      then obtain n where n: "x = NodeRecord n" "np_address n = a" using base(2) by (auto simp: upserts_ok_def list_all_iff)
      have "map_of (pb_upserts ?p) a = Some x" using base(2) mem by (simp add: upserts_ok_def)
      with Nil False ax n next_r block show ?thesis by (auto simp: next_pending_def)
    qed
  qed
  note taken = this
  have p1: "pb_closed p1 = pb_closed ?p" "pb_started p1 = pb_started ?p" "pb_stopped p1 = pb_stopped ?p"
    using next_r by (auto simp: next_pending_def split: list.splits if_splits prod.splits)
  have ups: "upserts_ok (pb_upserts p1)"
    using taken by cases (use base(2) in \<open>auto intro: upserts_ok_delete\<close>)
  have fresh: "fresh_upserts ?t"
  proof -
    have "map_of (pb_upserts ?p) a = Some x" if "map_of (pb_upserts p1) a = Some x" for a x
      using taken by cases (use that in \<open>auto simp: delete_conv split: if_splits\<close>)
    with base(4) show ?thesis by (auto simp: fresh_upserts_def p2(1))
  qed
  have "will_know ?t = will_know s" if live: "\<not> pb_stopped p2"
  proof -
    obtain i where i: "line = Some (i, r)" using p2(5) [OF live] by auto
    show ?thesis
      using taken
    proof cases
      case block
      have "(consumed ?W)(np_address n \<mapsto> wire n) ++ (upsert_map (pb_upserts ?p))(np_address n := None) =
          consumed ?W ++ upsert_map (pb_upserts ?p)"
      proof
        fix a
        show "((consumed ?W)(np_address n \<mapsto> wire n) ++ (upsert_map (pb_upserts ?p))(np_address n := None)) a =
          (consumed ?W ++ upsert_map (pb_upserts ?p)) a"
          using block(3,4) by (cases "a = np_address n"; cases "upsert_map (pb_upserts ?p) a") (auto simp: map_add_def upsert_map_def)
      qed
      then show ?thesis using block by (simp add: will_know_def p2 i consumed_append upsert_map_delete)
    next
      case rest
      then have "consume r m = m" for m
        using next_r base(8) by (auto simp: next_pending_def timelines_ok_def split: list.splits)
      then show ?thesis using rest by (simp add: will_know_def p2 i consumed_append)
    qed (simp add: will_know_def p2 i)
  qed
  moreover have "timelines_ok p2"
    using next_r emit base(8)
    by (auto simp: next_pending_def emit_record_def timelines_ok_def Let_def split: list.splits if_splits prod.splits option.splits)
  ultimately show ?thesis
    using base ups fresh p1 p2 by (auto simp: told_inv_def)
qed

lemma told_finish:
  assumes inv: "told_inv s" and calm: "critical (py_publisher s) < pb_capacity (py_publisher s)"
  shows "told_inv (s\<lparr>py_publisher := finish_publisher (py_projector s) result (py_publisher s)\<rparr>)"
proof (cases "pb_closed (py_publisher s) \<or> pb_finished (py_publisher s)")
  case True
  then have "s\<lparr>py_publisher := finish_publisher (py_projector s) result (py_publisher s)\<rparr> = s" by (simp add: finish_publisher_def)
  with inv show ?thesis by simp
next
  case False
  let ?p = "(py_publisher s)\<lparr>pb_finished := True\<rparr>"
  obtain r where r: "finish_publisher (py_projector s) result (py_publisher s) = enqueue r ?p" "structural r" "\<And>m. consume r m = m"
    using False by (cases result) (auto simp: finish_publisher_def terminal_record_def)
  have "critical ?p < pb_capacity ?p" using calm by (simp add: critical_def)
  from enqueue_calm(1) [OF this r(2)]
  have q: "pb_priority (enqueue r ?p) = pb_priority ?p @ [r]" "pb_upserts (enqueue r ?p) = pb_upserts ?p" by simp_all
  have "will_know (s\<lparr>py_publisher := enqueue r ?p\<rparr>) = will_know s"
    by (simp add: will_know_def q consumed_append r(3) flip: append_assoc)
  moreover have "timelines_ok (enqueue r ?p)" using inv by (intro timelines_ok_enqueue) (simp add: told_inv_def timelines_ok_def)
  ultimately show ?thesis
    using inv q enqueue_status [of ?p r] unfolding r(1)
    by (simp add: told_inv_def fresh_upserts_def same_status_def)
qed

interpretation told: invariant_system "progress_initial plan run capacity" "calm_step strip" told_inv for plan run capacity strip
proof
  fix s assume "progress_initial plan run capacity s"
  then show "told_inv s"
    by (simp add: progress_initial_def told_inv_def new_projector_inv upserts_ok_def event_records_def fresh_upserts_def
        timelines_ok_def new_publisher_def)
next
  fix s l t assume inv: "told_inv s" and step: "calm_step strip s l t"
  from step have calm: "critical (py_publisher s) < pb_capacity (py_publisher s)" and "progress_step strip s l t"
    by (simp_all add: calm_step_def)
  from this(2) show "told_inv t"
  proof cases
    case step_close
    then show ?thesis using inv by (simp add: told_inv_def close_publisher_def fresh_upserts_def timelines_ok_def will_know_def)
  qed (use inv calm in \<open>auto intro: told_start told_observe told_enqueue told_write told_finish\<close>)
qed

text \<open>
  C30: a supervising process is told everything. As long as fewer projections, structural and
  terminal records wait than the queue holds, however events, the worker's writes and the start
  of publication interleave, and whichever pending projection the worker takes first: once
  nothing is pending and no write has failed, the records written give exactly the blocks and
  their state as the projector has them. Only lines for the timeline are ever dropped.
\<close>

theorem consumer_is_told_everything:
  assumes "reach (progress_initial plan run capacity) (calm_step strip) s"
    and "pb_started (py_publisher s)" and "\<not> pb_stopped (py_publisher s)"
    and "py_inflight s = []" and "pb_priority (py_publisher s) = []" and "pb_upserts (py_publisher s) = []"
  shows "consumed (map snd (py_written s)) = known (py_projector s)"
proof -
  have "will_know s = known (py_projector s)" using told.reach_inv [OF assms(1)] assms(2,3) by (simp add: told_inv_def)
  then show ?thesis using assms(4-6) by (simp add: will_know_def upsert_map_def map_add_def)
qed

section \<open>The queue is bounded\<close>

fun terminal :: "progress_record \<Rightarrow> bool" where
  "terminal (CompletedRecord _ _ _) \<longleftrightarrow> True"
| "terminal (FailedRecord _) \<longleftrightarrow> True"
| "terminal (CanceledRecord _) \<longleftrightarrow> True"
| "terminal _ \<longleftrightarrow> False"

definition numbered_frames :: "int list \<Rightarrow> bool" where
  "numbered_frames ns \<longleftrightarrow> ns = map (\<lambda>i. int i mod 2 ^ 64) [1..<Suc (length ns)]"

lemma numbered_simps: "numbered_frames []" "numbered_frames ns \<Longrightarrow> numbered_frames (ns @ [(int (length ns) + 1) mod 2 ^ 64])"
  by (simp_all add: numbered_frames_def add.commute)

definition queue_inv :: "nat \<Rightarrow> progress_system \<Rightarrow> bool" where
  "queue_inv capacity s \<longleftrightarrow>
     (let p = py_publisher s in
      pb_capacity p = capacity \<and> pending p \<le> capacity \<and>
      list_all (\<lambda>r. \<not> terminal r) (map snd (pb_upserts p) @ pb_timelines p @ py_inflight s) \<and>
      length (filter terminal (map snd (py_written s) @ pb_priority p)) \<le> of_bool (pb_finished p) \<and>
      numbered_frames (map fst (py_written s)) \<and>
      (\<not> pb_stopped p \<longrightarrow> pb_seq p = int (length (py_written s)) mod 2 ^ 64))"

definition kept_bounds :: "publisher \<Rightarrow> publisher \<Rightarrow> bool" where
  "kept_bounds p q \<longleftrightarrow> same_status p q \<and> (pending p \<le> pb_capacity p \<longrightarrow> pending q \<le> pb_capacity p)"

lemma length_update_le: "length (AList.update a x us) \<le> Suc (length us)" "map_of us a \<noteq> None \<Longrightarrow> length (AList.update a x us) = length us"
  by (induction us) auto

lemma enqueue_bounds: "kept_bounds p (enqueue r p)"
proof -
  have "pending p \<le> pb_capacity p \<longrightarrow> pending (enqueue r p) \<le> pb_capacity p"
  proof (cases rule: enqueue_cases [where r = r and p = p])
    case (dropped ts)
    then show ?thesis using suffix_length_le [of ts "pb_timelines p"] by (auto simp: pending_def)
  next
    case (node n ts)
    then show ?thesis
      using suffix_length_le [of ts "pb_timelines p"] length_update_le [where a = "np_address n" and x = r and us = "pb_upserts p"]
      by (cases "map_of (pb_upserts p) (np_address n)") (auto simp: pending_def critical_def)
  next
    case (timeline a b c ts)
    then show ?thesis using suffix_length_le [of ts "pb_timelines p"] by (auto simp: pending_def critical_def)
  next
    case (structural ts)
    then show ?thesis by (auto simp: pending_def critical_def)
  qed
  then show ?thesis by (simp add: kept_bounds_def)
qed

lemma enqueue_terminals:
  "filter terminal (pb_priority (enqueue r p)) = filter terminal (pb_priority p) \<or>
     terminal r \<and> filter terminal (pb_priority (enqueue r p)) = filter terminal (pb_priority p) @ [r]"
  "list_all (\<lambda>r. \<not> terminal r) (map snd (pb_upserts p) @ pb_timelines p) \<Longrightarrow> \<not> terminal r \<or> structural r \<Longrightarrow>
     list_all (\<lambda>r. \<not> terminal r) (map snd (pb_upserts (enqueue r p)) @ pb_timelines (enqueue r p))"
proof -
  show "filter terminal (pb_priority (enqueue r p)) = filter terminal (pb_priority p) \<or>
     terminal r \<and> filter terminal (pb_priority (enqueue r p)) = filter terminal (pb_priority p) @ [r]"
    by (cases rule: enqueue_cases [where r = r and p = p]) auto
  have update: "list_all P (map snd us) \<Longrightarrow> P x \<Longrightarrow> list_all P (map snd (AList.update a x us))" for P a and x :: progress_record and us
    by (induction us) auto
  have rest: "list_all P us \<Longrightarrow> suffix ts us \<Longrightarrow> list_all P ts" for P and ts us :: "progress_record list"
    by (auto simp: suffix_def)
  assume all: "list_all (\<lambda>r. \<not> terminal r) (map snd (pb_upserts p) @ pb_timelines p)" and r: "\<not> terminal r \<or> structural r"
  show "list_all (\<lambda>r. \<not> terminal r) (map snd (pb_upserts (enqueue r p)) @ pb_timelines (enqueue r p))"
  proof (cases rule: enqueue_cases [where r = r and p = p])
    case (dropped ts)
    then show ?thesis using all rest [OF _ dropped(2)] by simp
  next
    case (node n ts)
    then show ?thesis using all rest [OF _ node(2)] by (simp add: update)
  next
    case (timeline a b c ts)
    then show ?thesis using all rest [OF _ timeline(2)] by simp
  next
    case (structural ts)
    then show ?thesis using all rest [OF _ structural(2)] by simp
  qed
qed

lemma enqueue_all_bounds:
  assumes "list_all (\<lambda>r. \<not> terminal r) rs"
  shows "kept_bounds p (enqueue_all rs p) \<and> filter terminal (pb_priority (enqueue_all rs p)) = filter terminal (pb_priority p) \<and>
    (list_all (\<lambda>r. \<not> terminal r) (map snd (pb_upserts p) @ pb_timelines p) \<longrightarrow>
     list_all (\<lambda>r. \<not> terminal r) (map snd (pb_upserts (enqueue_all rs p)) @ pb_timelines (enqueue_all rs p)))"
proof -
  have "kept_bounds p (fold enqueue rs p) \<and> filter terminal (pb_priority (fold enqueue rs p)) = filter terminal (pb_priority p) \<and>
    (list_all (\<lambda>r. \<not> terminal r) (map snd (pb_upserts p) @ pb_timelines p) \<longrightarrow>
     list_all (\<lambda>r. \<not> terminal r) (map snd (pb_upserts (fold enqueue rs p)) @ pb_timelines (fold enqueue rs p)))"
    using assms
  proof (induction rs arbitrary: p)
    case (Cons r rs)
    have one: "kept_bounds p (enqueue r p)" by (rule enqueue_bounds)
    have two: "filter terminal (pb_priority (enqueue r p)) = filter terminal (pb_priority p)"
      using enqueue_terminals(1) [of r p] Cons.prems by auto
    have three: "list_all (\<lambda>r. \<not> terminal r) (map snd (pb_upserts p) @ pb_timelines p) \<longrightarrow>
        list_all (\<lambda>r. \<not> terminal r) (map snd (pb_upserts (enqueue r p)) @ pb_timelines (enqueue r p))"
      using enqueue_terminals(2) [of p r] Cons.prems by simp
    from Cons.IH [of "enqueue r p"] Cons.prems one two three show ?case
      by (auto simp: kept_bounds_def same_status_def)
  qed (simp add: kept_bounds_def same_status_def)
  then show ?thesis by (auto simp: enqueue_all_def kept_bounds_def same_status_def)
qed

lemma next_pending_cases:
  assumes "next_pending k p = (Some r, q)"
  obtains rs where "pb_priority p = r # rs" "q = p\<lparr>pb_priority := rs\<rparr>"
  | a where "pb_priority p = []" "pb_upserts p \<noteq> []" "(a, r) \<in> set (pb_upserts p)" "q = p\<lparr>pb_upserts := AList.delete a (pb_upserts p)\<rparr>"
  | rs where "pb_priority p = []" "pb_upserts p = []" "pb_timelines p = r # rs" "q = p\<lparr>pb_timelines := rs\<rparr>"
proof -
  have mem: "(a, x) \<in> set us" if "us ! (k mod length us) = (a, x)" "us \<noteq> []" for us :: "(string \<times> progress_record) list" and a x
    using that nth_mem [of "k mod length us" us] by simp
  show ?thesis
    using assms that by (auto simp: next_pending_def dest: mem split: list.splits if_splits prod.splits)
qed

lemma next_pending_bounds:
  assumes "next_pending k p = (Some r, q)"
  shows "same_status p q" and "pending q < pending p"
    and "filter terminal (pb_priority p) = (if terminal r \<and> pb_priority p \<noteq> [] then [r] else []) @ filter terminal (pb_priority q)"
    and "pb_priority p = [] \<Longrightarrow> r \<in> set (map snd (pb_upserts p) @ pb_timelines p)"
    and "set (map snd (pb_upserts q) @ pb_timelines q) \<subseteq> set (map snd (pb_upserts p) @ pb_timelines p)"
proof -
  have shorter: "length (AList.delete a us) < length us" if "(a, x) \<in> set us" for a and x :: progress_record and us
    using that by (induction us) (auto simp: AList.delete_eq intro: le_less_trans [OF length_filter_le])
  note cases = next_pending_cases [OF assms]
  show "same_status p q" by (rule cases; simp add: same_status_def)
  show "pending q < pending p" by (rule cases; use shorter in \<open>auto simp: pending_def\<close>)
  show "filter terminal (pb_priority p) = (if terminal r \<and> pb_priority p \<noteq> [] then [r] else []) @ filter terminal (pb_priority q)"
    by (rule cases; auto)
  show "pb_priority p = [] \<Longrightarrow> r \<in> set (map snd (pb_upserts p) @ pb_timelines p)"
    by (rule cases; force)
  show "set (map snd (pb_upserts q) @ pb_timelines q) \<subseteq> set (map snd (pb_upserts p) @ pb_timelines p)"
    by (rule cases; auto simp: AList.delete_eq)
qed

lemma queue_start:
  assumes "queue_inv capacity s" and "\<not> terminal r" and "structural r"
  shows "queue_inv capacity (s\<lparr>py_publisher := enqueue r (py_publisher s)\<rparr>)"
  using assms enqueue_bounds [of "py_publisher s" r] enqueue_terminals(1) [of r "py_publisher s"]
    enqueue_terminals(2) [of "py_publisher s" r]
  by (auto simp: queue_inv_def Let_def kept_bounds_def same_status_def)

lemma queue_write:
  assumes inv: "queue_inv capacity s" and next_r: "next_pending k (py_publisher s) = (Some r, p1)" and emit: "emit_record failure r p1 = (line, p2)"
  shows "queue_inv capacity (s\<lparr>py_publisher := p2, py_written := py_written s @ (case line of None \<Rightarrow> [] | Some l \<Rightarrow> [l])\<rparr>)"
    (is "queue_inv capacity ?t")
proof -
  let ?p = "py_publisher s"
  note taken = next_pending_bounds [OF next_r]
  have base: "pb_capacity ?p = capacity" "pending ?p \<le> capacity"
    "\<forall>x \<in> set (map snd (pb_upserts ?p) @ pb_timelines ?p @ py_inflight s). \<not> terminal x"
    "length (filter terminal (map snd (py_written s) @ pb_priority ?p)) \<le> of_bool (pb_finished ?p)"
    "numbered_frames (map fst (py_written s))"
    "\<not> pb_stopped ?p \<longrightarrow> pb_seq ?p = int (length (py_written s)) mod 2 ^ 64"
    using inv by (simp_all add: queue_inv_def Let_def list_all_iff)
  have r: "pb_priority ?p = [] \<Longrightarrow> \<not> terminal r" using taken(4) base(3) by auto
  have q: "pb_capacity p1 = capacity" "pending p1 \<le> capacity" "pb_finished p1 = pb_finished ?p" "pb_stopped p1 = pb_stopped ?p" "pb_seq p1 = pb_seq ?p"
    using taken(1,2) base(1,2) by (simp_all add: same_status_def)
  have calm: "\<forall>x \<in> set (map snd (pb_upserts p1) @ pb_timelines p1 @ py_inflight s). \<not> terminal x"
    using taken(5) base(3) unfolding set_append by blast
  have terminals: "length (filter terminal (map snd (py_written s) @ [r] @ pb_priority p1)) \<le> of_bool (pb_finished ?p)"
  proof -
    have "filter terminal (pb_priority ?p) = (if terminal r then [r] else []) @ filter terminal (pb_priority p1)"
      using taken(3) r by (cases "pb_priority ?p = []") auto
    with base(4) show ?thesis by (cases "terminal r"; cases "pb_finished ?p") auto
  qed
  consider "line = None" "pb_stopped p2" "p2 = p1\<lparr>pb_seq := pb_seq p2, pb_stopped := True, pb_warned := pb_warned p2\<rparr>"
    | "\<not> pb_stopped p1" "line = Some ((pb_seq p1 + 1) mod 2 ^ 64, r)" "p2 = p1\<lparr>pb_seq := (pb_seq p1 + 1) mod 2 ^ 64\<rparr>"
    using emit by (auto simp: emit_record_def Let_def split: if_splits option.splits)
  then show ?thesis
  proof cases
    case 1
    have "pb_capacity p2 = capacity" "pending p2 \<le> capacity" "pb_finished p2 = pb_finished ?p" "pb_priority p2 = pb_priority p1"
      "pb_upserts p2 = pb_upserts p1" "pb_timelines p2 = pb_timelines p1"
      by (subst 1(3), simp add: q pending_def; use q in \<open>simp add: pending_def\<close>)+
    moreover have "length (filter terminal (map snd (py_written s) @ pb_priority p1)) \<le> of_bool (pb_finished ?p)"
      using terminals by (cases "terminal r") auto
    ultimately show ?thesis
      using 1(1,2) base calm by (auto simp: queue_inv_def Let_def list_all_iff)
  next
    case 2
    have seq: "(pb_seq p1 + 1) mod 2 ^ 64 = (int (length (py_written s)) + 1) mod 2 ^ 64"
      using 2(1) q base(6) by (simp add: mod_add_left_eq)
    let ?line = "((pb_seq p1 + 1) mod 2 ^ 64, r)"
    have "numbered_frames (map fst (py_written s @ [?line]))"
      using numbered_simps(2) [OF base(5)] seq by simp
    moreover have "length (filter terminal (map snd (py_written s @ [?line]) @ pb_priority p1)) \<le> of_bool (pb_finished p1)"
      using terminals q(3) by simp
    moreover have "list_all (\<lambda>r. \<not> terminal r) (map snd (pb_upserts p1) @ pb_timelines p1 @ py_inflight s)"
      using calm by (simp add: list_all_iff)
    moreover have "(pb_seq p1 + 1) mod 2 ^ 64 = int (length (py_written s @ [?line])) mod 2 ^ 64"
      using seq by (simp add: add.commute)
    ultimately show ?thesis
      using q(1,2) unfolding queue_inv_def Let_def 2(2,3) by (simp only: pending_def) simp
  qed
qed

interpretation queue: invariant_system "progress_initial plan run capacity" "progress_step strip" "queue_inv capacity"
  for plan run capacity strip
proof
  fix s assume "progress_initial plan run capacity s"
  then show "queue_inv capacity s"
    by (simp add: progress_initial_def queue_inv_def new_publisher_def pending_def numbered_simps)
next
  fix s l t assume inv: "queue_inv capacity s" and step: "progress_step strip s l t"
  from step show "queue_inv capacity t"
  proof cases
    case step_start
    have "queue_inv capacity (s\<lparr>py_publisher := (py_publisher s)\<lparr>pb_started := True\<rparr>\<rparr>)"
      using inv by (simp add: queue_inv_def Let_def pending_def)
    from queue_start [OF this, of "snapshot_record (py_projector s)"] show ?thesis
      using inv by (simp add: step_start start_publisher_def snapshot_record_def)
  next
    case (step_observe e pj)
    have "list_all (\<lambda>r. \<not> terminal r) (records_for_event e pj)"
      using records_for_event_shape [of e pj] by (auto simp: event_records_def)
    then show ?thesis using inv step_observe by (simp add: queue_inv_def Let_def)
  next
    case step_enqueue
    have "list_all (\<lambda>r. \<not> terminal r) (py_inflight s)" using inv by (simp add: queue_inv_def Let_def)
    from enqueue_all_bounds [OF this, of "py_publisher s"] show ?thesis
      using inv by (simp add: step_enqueue queue_inv_def Let_def kept_bounds_def same_status_def)
  next
    case (step_write k r p1 failure line p2)
    then show ?thesis using queue_write [OF inv] by simp
  next
    case (step_finish result)
    let ?r = "terminal_record (int (length (nodes_at (pj_order (py_projector s)) (py_projector s)))) result"
    let ?p = "(py_publisher s)\<lparr>pb_finished := True\<rparr>"
    have r: "structural ?r" by (cases result) (simp_all add: terminal_record_def)
    show ?thesis
    proof (cases "pb_closed (py_publisher s) \<or> pb_finished (py_publisher s)")
      case True
      then show ?thesis using inv by (simp add: step_finish finish_publisher_def)
    next
      case False
      then show ?thesis
        using inv enqueue_bounds [of ?p ?r] enqueue_terminals(1) [of ?r ?p] enqueue_terminals(2) [of ?p ?r] r
        by (auto simp: step_finish finish_publisher_def queue_inv_def Let_def kept_bounds_def same_status_def pending_def)
    qed
  next
    case step_close
    then show ?thesis using inv by (simp add: queue_inv_def Let_def close_publisher_def pending_def)
  qed
qed

text \<open>
  C32: publication is bounded and in order. However events, writes, start, finish and close
  interleave: never more records wait than the capacity, the lines written carry the sequence
  numbers 1, 2, 3 and so on without a gap (in 64 bits), and at most one terminal record is ever
  written, none before \<open>Finish\<close>.
\<close>

theorem publication_is_bounded_and_ordered:
  assumes "reach (progress_initial plan run capacity) (progress_step strip) s"
  shows "pending (py_publisher s) \<le> capacity \<and>
    map fst (py_written s) = map (\<lambda>i. int i mod 2 ^ 64) [1..<Suc (length (py_written s))] \<and>
    length (filter terminal (map snd (py_written s))) \<le> of_bool (pb_finished (py_publisher s))"
proof -
  note inv = queue.reach_inv [OF assms]
  then have "numbered_frames (map fst (py_written s))" by (simp add: queue_inv_def Let_def)
  then show ?thesis using inv by (simp add: queue_inv_def Let_def numbered_frames_def)
qed

section \<open>Records are in order\<close>

text \<open>Addresses and kinds of the plan are text without blanks and control characters.\<close>

definition safe_text :: "string \<Rightarrow> bool" where
  "safe_text s \<longleftrightarrow> valid_utf8 s \<and> valid_safe_name s"

fun plan_safe :: "plan_spec \<Rightarrow> bool" where
  "plan_safe (PlanSpec address kind deps child) \<longleftrightarrow>
     safe_text address \<and> safe_text kind \<and> (case child of None \<Rightarrow> True | Some specs \<Rightarrow> list_all plan_safe specs)"

definition node_ok :: "projection \<Rightarrow> bool" where
  "node_ok n \<longleftrightarrow> safe_text (np_address n) \<and> safe_text (np_kind n) \<and> usage_error (np_usage n) = None \<and> node_clean n"

definition nodes_ok :: "projector \<Rightarrow> bool" where
  "nodes_ok pj \<longleftrightarrow> (\<forall>a n. pj_nodes pj a = Some n \<longrightarrow> node_ok n)"

text \<open>The tokens of an event do not bring a block's sums out of range.\<close>

definition usage_fits :: "progress_event \<Rightarrow> projector \<Rightarrow> bool" where
  "usage_fits e pj \<longleftrightarrow>
     (\<forall>u n. pe_usage e = Some u \<longrightarrow> pj_nodes pj (pe_address e) = Some n \<longrightarrow>
        usage_error (Some (plus_usage (case np_usage n of None \<Rightarrow> zero_usage | Some t \<Rightarrow> t) (ue_tokens u))) = None)"

lemma safe_text_append: "safe_text s \<Longrightarrow> safe_text t \<Longrightarrow> safe_text (s @ t)"
  by (auto simp: safe_text_def valid_safe_name_def valid_utf8_def runes_append)

lemma safe_text_dot: "safe_text ''.''" "safe_text ''research''" "safe_text ''.tasks[''" "safe_text '']''"
  unfolding safe_text_def by code_simp+

lemma safe_text_digit: "byte_in 0x30 0x39 d \<Longrightarrow> safe_text [d]"
proof -
  assume d: "byte_in 0x30 0x39 d"
  then have "rune_head d = Some (0, 0, 1)" by (simp add: rune_head_def byte_in_def)
  then have runes: "runes [d] = [[d]]" "is_rune [d]" by (simp_all add: runes.simps(2) is_rune_def)
  moreover have "\<not> is_space_rune [d]" "\<not> is_control_rune [d]"
    using d by (auto simp: is_space_rune_def space_runes_def is_control_rune_def byte_in_def)
  ultimately show ?thesis by (simp add: safe_text_def valid_utf8_def valid_safe_name_def)
qed

lemma safe_text_digits: "list_all (byte_in 0x30 0x39) ds \<Longrightarrow> ds \<noteq> [] \<Longrightarrow> safe_text ds"
proof (induction ds)
  case (Cons d ds)
  then show ?case using safe_text_append [of "[d]" ds] safe_text_digit [of d] by (cases ds) auto
qed simp

lemma canonical_task_safe:
  assumes "canonical_task_address parent a" "safe_text parent"
  shows "safe_text a"
proof -
  obtain index where index: "a = parent @ ''.tasks['' @ index @ '']''" "index \<noteq> []" "list_all (byte_in 0x30 0x39) index"
  proof -
    let ?d = "drop (length (parent @ ''.tasks['')) a"
    have a: "a = parent @ ''.tasks['' @ ?d" using assms(1) by (auto simp: canonical_task_address_def Let_def prefix_def)
    have d: "?d = butlast ?d @ '']''"
      using assms(1) unfolding canonical_task_address_def Let_def by (auto simp: suffix_def)
    have digits: "butlast ?d \<noteq> [] \<and> list_all (byte_in 0x30 0x39) (butlast ?d)"
      using assms(1) unfolding canonical_task_address_def Let_def
      by (cases "butlast ?d") (auto simp: byte_in_def)
    show ?thesis using that [of "butlast ?d"] a d digits by metis
  qed
  show ?thesis
    unfolding index(1) using assms(2) safe_text_digits [OF index(3,2)] safe_text_dot by (intro safe_text_append)
qed

lemma nodes_ok_add: "nodes_ok pj \<Longrightarrow> node_ok n \<Longrightarrow> nodes_ok (add_node n pj)"
  by (simp add: nodes_ok_def add_node_def)

lemma waiting_node_ok: "safe_text a \<Longrightarrow> safe_text k \<Longrightarrow> node_ok (waiting_node a k parent deps)"
  using waiting_node_clean [of a k parent deps] by (simp add: node_ok_def) (simp add: waiting_node_def usage_error_def)

lemma add_plan_ok:
  "list_all plan_safe specs \<Longrightarrow> pre = [] \<or> safe_text pre \<Longrightarrow> nodes_ok pj \<Longrightarrow> nodes_ok (add_plan pre parent specs pj)"
proof (induction pre parent specs pj rule: add_plan.induct)
  case (2 pre parent a kind deps child specs pj)
  let ?a = "canonical_address pre a"
  have a: "safe_text ?a"
  proof (cases "pre = []")
    case False
    with 2(4) have "safe_text pre" by simp
    then show ?thesis
      using 2(3) False safe_text_append [of pre "''.'' @ a"] safe_text_append [OF safe_text_dot(1), of a] by (simp add: canonical_address_def)
  qed (use 2(3) in \<open>simp add: canonical_address_def\<close>)
  have "node_ok (waiting_node ?a kind parent (map (canonical_address pre) deps))"
    using 2(3) a by (intro waiting_node_ok) simp_all
  then have one: "nodes_ok (add_node (waiting_node ?a kind parent (map (canonical_address pre) deps)) pj)"
    using 2(5) by (intro nodes_ok_add)
  have "nodes_ok (case child of None \<Rightarrow> add_node (waiting_node ?a kind parent (map (canonical_address pre) deps)) pj
      | Some nodes \<Rightarrow> add_plan ?a ?a nodes (add_node (waiting_node ?a kind parent (map (canonical_address pre) deps)) pj))"
    using 2(1) [OF refl refl] 2(3) a one by (auto split: option.split)
  then show ?case using 2(2) [OF refl refl refl] 2(3,4) by (simp add: Let_def)
qed simp

lemma materialize_each_ok:
  "materialize_each parent as pj = (children, pj') \<Longrightarrow> safe_text parent \<Longrightarrow> nodes_ok pj \<Longrightarrow> nodes_ok pj'"
proof (induction parent as pj arbitrary: children rule: materialize_each.induct)
  case (2 parent a as pj)
  show ?case
  proof (cases "\<not> canonical_task_address parent a \<or> pj_nodes pj a \<noteq> None")
    case True
    with 2(3) have "materialize_each parent as pj = (children, pj')" by simp
    from 2(1) [OF True this 2(4,5)] show ?thesis .
  next
    case False
    then have "nodes_ok (add_node (waiting_node a ''research'' parent []) pj)"
      using 2(4,5) canonical_task_safe safe_text_dot(2) by (intro nodes_ok_add waiting_node_ok) auto
    moreover obtain cs where "materialize_each parent as (add_node (waiting_node a ''research'' parent []) pj) = (cs, pj')"
      using 2(3) False by (auto split: prod.splits)
    ultimately show ?thesis using 2(2) [OF False _ 2(4)] by blast
  qed
qed simp

lemma node_after_ok:
  assumes "node_ok n" "\<And>u. pe_usage e = Some u \<Longrightarrow> usage_error (Some (plus_usage (case np_usage n of None \<Rightarrow> zero_usage | Some t \<Rightarrow> t) (ue_tokens u))) = None"
  shows "node_ok (node_after strip e n)"
proof -
  have "usage_error (np_usage (node_after strip e n)) = None"
    using assms by (auto simp: node_ok_def node_after_def follow_def lifecycle_def add_usage_def Let_def split: option.split)
  then show ?thesis using assms(1) node_after_clean by (simp add: node_ok_def)
qed

lemma project_event_ok:
  assumes ok: "nodes_ok pj" and inv: "projector_inv pj" and quiet: "quiet_event e pj" and fits: "usage_fits e pj"
  shows "nodes_ok (project_event strip e pj)"
proof -
  have tasks: "nodes_ok (materialize_tasks e pj)"
  proof (cases "pj_children pj (pe_address e) \<noteq> None \<or> pj_nodes pj (pe_address e) = None")
    case False
    then obtain n where "pj_nodes pj (pe_address e) = Some n" by auto
    then have parent: "safe_text (pe_address e)" using ok inv by (auto simp: nodes_ok_def node_ok_def projector_inv_def)
    obtain cs pj' where m: "materialize_each (pe_address e) (pe_paths e) pj = (cs, pj')"
      by (cases "materialize_each (pe_address e) (pe_paths e) pj")
    from materialize_each_ok [OF m parent ok] False show ?thesis by (auto simp: materialize_tasks_def Let_def m nodes_ok_def)
  qed (use ok in \<open>auto simp: materialize_tasks_def\<close>)
  have after: "node_ok (node_after strip e n)" if "pj_nodes pj (pe_address e) = Some n" for n
    using ok fits that by (intro node_after_ok) (auto simp: nodes_ok_def usage_fits_def)
  show ?thesis
    using ok tasks after unfolding nodes_ok_def project_event_nodes [OF quiet]
    by (auto split: if_splits option.splits)
qed

definition record_ok :: "progress_record \<Rightarrow> bool" where
  "record_ok r \<longleftrightarrow> progress_record_error r = None \<and>
     (case r of
        SnapshotRecord ns \<Rightarrow> list_all node_clean ns
      | MaterializedRecord _ ns \<Rightarrow> list_all node_clean ns
      | NodeRecord n \<Rightarrow> node_clean n
      | TimelineRecord _ _ summary \<Rightarrow> summary_clean summary
      | _ \<Rightarrow> True)"

lemma node_ok_record: "node_ok n \<Longrightarrow> projection_error n = None \<and> node_clean n"
  by (auto simp: node_ok_def projection_error_def safe_text_def node_clean_def tool_clean_def)

lemma nodes_error_ok: "list_all node_ok ns \<Longrightarrow> nodes_error i ns = None"
  by (induction i ns rule: nodes_error.induct) (simp_all add: node_ok_record)

lemma nodes_at_ok: "nodes_ok pj \<Longrightarrow> list_all node_ok (nodes_at as pj)"
  by (auto simp: nodes_at_def nodes_ok_def list_all_iff List.map_filter_def)

lemma nodes_clean: "list_all node_ok ns \<Longrightarrow> list_all node_clean ns"
  by (auto simp: list_all_iff node_ok_record)

lemma snapshot_ok: "nodes_ok pj \<Longrightarrow> record_ok (snapshot_record pj)"
  using nodes_at_ok [of pj "pj_order pj"] by (simp add: record_ok_def snapshot_record_def nodes_error_ok nodes_clean)

lemma terminal_ok: "0 \<le> n \<Longrightarrow> record_ok (terminal_record n result)"
  by (cases result) (simp_all add: record_ok_def terminal_record_def)

lemma records_for_event_ok:
  assumes "nodes_ok pj" "projector_inv pj"
  shows "list_all record_ok (records_for_event e pj)"
proof (cases "pj_nodes pj (pe_address e)")
  case (Some n)
  have ok: "node_ok n" "np_address n = pe_address e" using assms Some by (auto simp: nodes_ok_def projector_inv_def)
  then have safe: "valid_safe_name (pe_address e)" by (simp add: node_ok_def safe_text_def)
  have "record_ok (materialized_record (pe_address e) pj)"
    using nodes_at_ok [OF assms(1)] safe by (simp add: record_ok_def materialized_record_def nodes_error_ok nodes_clean)
  moreover have "record_ok (NodeRecord n)" using node_ok_record [OF ok(1)] by (simp add: record_ok_def)
  moreover have "record_ok r" if "timeline_record (pe_address e) pj = Some r" for r
    using that Some safe node_ok_record [OF ok(1)] by (auto simp: timeline_record_def record_ok_def node_clean_def split: if_splits)
  ultimately show ?thesis by (auto simp: records_for_event_def Some split: option.split)
qed (simp add: records_for_event_def)

definition pending_records :: "publisher \<Rightarrow> progress_record list" where
  "pending_records p = pb_priority p @ map snd (pb_upserts p) @ pb_timelines p"

lemma pending_enqueue: "set (pending_records (enqueue r p)) \<subseteq> insert r (set (pending_records p))"
proof -
  have update: "set (map snd (AList.update a x us)) \<subseteq> insert x (set (map snd us))" for a and x :: progress_record and us
    by (induction us) auto
  show ?thesis
  proof (cases rule: enqueue_cases [where r = r and p = p])
    case (dropped ts)
    then show ?thesis using set_mono_suffix [OF dropped(2)] by (auto simp: pending_records_def)
  next
    case (node n ts)
    then show ?thesis using set_mono_suffix [OF node(2)] update [of "np_address n" r "pb_upserts p"]
      by (auto simp: pending_records_def simp del: set_map)
  next
    case (timeline a b c ts)
    then show ?thesis using set_mono_suffix [OF timeline(2)] by (auto simp: pending_records_def)
  next
    case (structural ts)
    then show ?thesis using set_mono_suffix [OF structural(2)] by (auto simp: pending_records_def)
  qed
qed

lemma pending_enqueue_all: "set (pending_records (enqueue_all rs p)) \<subseteq> set rs \<union> set (pending_records p)"
proof -
  have "set (pending_records (fold enqueue rs p)) \<subseteq> set rs \<union> set (pending_records p)"
  proof (induction rs arbitrary: p)
    case (Cons r rs)
    then show ?case using Cons.IH [of "enqueue r p"] pending_enqueue [of r p] by fastforce
  qed simp
  then show ?thesis by (auto simp: enqueue_all_def)
qed

lemma pending_next:
  assumes "next_pending k p = (Some r, q)"
  shows "r \<in> set (pending_records p)" and "set (pending_records q) \<subseteq> set (pending_records p)"
  by (rule next_pending_cases [OF assms]; force simp: pending_records_def AList.delete_eq)+

text \<open>Runs of a plan with safe names, whose tokens can be counted.\<close>

definition sound_step :: "(string \<Rightarrow> string) \<Rightarrow> progress_system \<Rightarrow> progress_label \<Rightarrow> progress_system \<Rightarrow> bool" where
  "sound_step strip s l t \<longleftrightarrow> progress_step strip s l t \<and>
     (case l of DoObserve e \<Rightarrow> usage_fits e (py_projector s) | _ \<Rightarrow> True)"

definition records_inv :: "progress_system \<Rightarrow> bool" where
  "records_inv s \<longleftrightarrow>
     projector_inv (py_projector s) \<and> nodes_ok (py_projector s) \<and>
     list_all record_ok (pending_records (py_publisher s) @ py_inflight s @ map snd (py_written s))"

lemma records_enqueued:
  assumes "records_inv s" "set (pending_records q) \<subseteq> {r. record_ok r} \<union> set (pending_records (py_publisher s))"
  shows "records_inv (s\<lparr>py_publisher := q\<rparr>)"
  using assms by (auto simp: records_inv_def list_all_iff)

lemma sound_init:
  assumes "progress_initial plan run capacity s" "\<And>specs. plan = Some specs \<Longrightarrow> list_all plan_safe specs"
  shows "records_inv s"
proof -
  have "nodes_ok empty_projector" by (simp add: nodes_ok_def empty_projector_def)
  then have "nodes_ok (new_projector plan)"
    using assms(2) by (auto simp: new_projector_def intro: add_plan_ok split: option.split)
  then show ?thesis
    using assms(1) new_projector_inv by (simp add: records_inv_def progress_initial_def pending_records_def new_publisher_def)
qed

lemma sound_preserved:
  assumes inv: "records_inv s" and step: "sound_step strip s l t"
  shows "records_inv t"
proof -
  from step have "progress_step strip s l t" by (simp add: sound_step_def)
  then show ?thesis
  proof cases
    case step_start
    have "record_ok (snapshot_record (py_projector s))" using inv by (simp add: records_inv_def snapshot_ok)
    then show ?thesis
      unfolding step_start using pending_enqueue [of "snapshot_record (py_projector s)" "(py_publisher s)\<lparr>pb_started := True\<rparr>"]
      by (intro records_enqueued [OF inv]) (auto simp: start_publisher_def pending_records_def)
  next
    case (step_observe e pj)
    have fits: "usage_fits e (py_projector s)" using step step_observe by (simp add: sound_step_def)
    have ok: "nodes_ok pj" "projector_inv pj"
      using inv step_observe fits project_event_ok project_event_inv by (auto simp: records_inv_def)
    with records_for_event_ok [OF ok] inv show ?thesis unfolding step_observe by (simp add: records_inv_def)
  next
    case step_enqueue
    have "set (pending_records (enqueue_all (py_inflight s) (py_publisher s))) \<subseteq> {r. record_ok r} \<union> set (pending_records (py_publisher s))"
      using pending_enqueue_all [of "py_inflight s" "py_publisher s"] inv by (auto simp: records_inv_def list_all_iff)
    from records_enqueued [OF inv this] show ?thesis unfolding step_enqueue by (simp add: records_inv_def)
  next
    case (step_write k r p1 failure line p2)
    have p2: "pending_records p2 = pending_records p1" "line = None \<or> (\<exists>i. line = Some (i, r))"
      using step_write(5) by (auto simp: emit_record_def pending_records_def Let_def split: if_splits option.splits)
    from pending_next [OF step_write(4)] p2 inv show ?thesis
      unfolding step_write by (auto simp: records_inv_def list_all_iff)
  next
    case (step_finish result)
    let ?r = "terminal_record (int (length (nodes_at (pj_order (py_projector s)) (py_projector s)))) result"
    have "record_ok ?r" by (rule terminal_ok) simp
    then show ?thesis
      unfolding step_finish using pending_enqueue [of ?r "(py_publisher s)\<lparr>pb_finished := True\<rparr>"]
      by (intro records_enqueued [OF inv]) (auto simp: finish_publisher_def pending_records_def)
  next
    case step_close
    then show ?thesis using inv by (simp add: records_inv_def close_publisher_def pending_records_def)
  qed
qed

interpretation sound: invariant_system "\<lambda>s. progress_initial plan run capacity s \<and> (\<forall>specs. plan = Some specs \<longrightarrow> list_all plan_safe specs)"
    "sound_step strip" records_inv for plan run capacity strip
  by unfold_locales (auto intro: sound_init sound_preserved)


section \<open>What is lost\<close>

text \<open>
  The comments of the publisher say that structural and terminal records are never dropped. When
  projections fill the queue, as those of 256 blocks do if the consumer does not read, the
  terminal record is.
\<close>

lemma full_queue_drops_the_terminal_record:
  assumes "pb_capacity p \<le> critical p" and "pb_timelines p = []" and "\<not> pb_closed p"
  shows "finish_publisher pj result p = p\<lparr>pb_finished := True\<rparr>"
proof (cases "pb_finished p")
  case False
  let ?q = "p\<lparr>pb_finished := True\<rparr>"
  have "make_room ?q = (False, ?q)"
    using assms(1,2) by (simp add: make_room.simps [of ?q] over_capacity_def pending_def critical_def evict_oldest_timeline_def)
  then show ?thesis
    using assms(3) False by (cases result) (simp_all add: finish_publisher_def terminal_record_def enqueue.simps)
qed (simp add: finish_publisher_def)

text \<open>A blank in an address, as a key of \<open>for_each\<close> may have one, stops publication with its first record.\<close>

lemma improper_address_stops_publication:
  assumes "n \<in> set ns" and "\<not> valid_safe_name (np_address n)"
  shows "progress_record_error (SnapshotRecord ns) \<noteq> None" and "pb_stopped (snd (emit_record failure (SnapshotRecord ns) p))"
proof -
  have "nodes_error i ns \<noteq> None" for i
    using assms(1) by (induction i ns rule: nodes_error.induct) (use assms(2) in \<open>auto simp: projection_error_def split: option.split\<close>)
  from this [of 0] obtain e where e: "nodes_error 0 ns = Some e" by auto
  then show "progress_record_error (SnapshotRecord ns) \<noteq> None" by simp
  from e show "pb_stopped (snd (emit_record failure (SnapshotRecord ns) p))"
    by (simp add: emit_record_def encode_record_def Let_def)
qed

section \<open>A sample run\<close>

text \<open>Steps as a function, to run samples.\<close>

fun progress_next :: "(string \<Rightarrow> string) \<Rightarrow> progress_label \<Rightarrow> progress_system \<Rightarrow> progress_system option" where
  "progress_next strip DoStart s = Some (s\<lparr>py_publisher := start_publisher (py_projector s) (py_publisher s)\<rparr>)"
| "progress_next strip (DoObserve e) s =
     (if py_inflight s = [] \<and> \<not> pb_closed (py_publisher s) \<and> pe_action e \<noteq> ''dynamic.tasks.materialized''
      then let pj = project_event strip e (py_projector s)
           in Some (s\<lparr>py_projector := pj, py_inflight := records_for_event e pj\<rparr>)
      else None)"
| "progress_next strip DoEnqueue s = Some (s\<lparr>py_publisher := enqueue_all (py_inflight s) (py_publisher s), py_inflight := []\<rparr>)"
| "progress_next strip (DoWrite k failure) s =
     (case next_pending k (py_publisher s) of
        (Some r, p1) \<Rightarrow>
          (case emit_record failure r p1 of
             (line, p2) \<Rightarrow>
               (if pb_started (py_publisher s)
                then Some (s\<lparr>py_publisher := p2, py_written := py_written s @ (case line of None \<Rightarrow> [] | Some l \<Rightarrow> [l])\<rparr>)
                else None))
      | (None, _) \<Rightarrow> None)"
| "progress_next strip (DoFinish result) s =
     (if py_inflight s = [] then Some (s\<lparr>py_publisher := finish_publisher (py_projector s) result (py_publisher s)\<rparr>) else None)"
| "progress_next strip DoClose s =
     (if py_inflight s = [] then Some (s\<lparr>py_publisher := close_publisher (py_publisher s)\<rparr>) else None)"

lemma progress_next_step: "progress_next strip l s = Some t \<Longrightarrow> progress_step strip s l t"
proof (cases l)
  case (DoWrite k failure)
  assume run: "progress_next strip l s = Some t"
  then obtain r p1 line p2 where "next_pending k (py_publisher s) = (Some r, p1)" "emit_record failure r p1 = (line, p2)"
      "pb_started (py_publisher s)"
      "t = s\<lparr>py_publisher := p2, py_written := py_written s @ (case line of None \<Rightarrow> [] | Some l \<Rightarrow> [l])\<rparr>"
    by (auto simp: DoWrite split: if_splits prod.splits option.splits)
  then show ?thesis unfolding DoWrite by (auto intro: step_write)
qed (auto simp: quiet_event_def Let_def intro: progress_step.intros split: if_splits)

fun progress_run :: "(string \<Rightarrow> string) \<Rightarrow> (progress_label \<Rightarrow> progress_system \<Rightarrow> bool) \<Rightarrow> progress_label list \<Rightarrow> progress_system \<Rightarrow> progress_system option" where
  "progress_run strip ok [] s = Some s"
| "progress_run strip ok (l # ls) s =
     (if ok l s then (case progress_next strip l s of None \<Rightarrow> None | Some t \<Rightarrow> progress_run strip ok ls t) else None)"

lemma progress_run_reach:
  assumes "\<And>s l t. ok l s \<Longrightarrow> progress_step strip s l t \<Longrightarrow> step s l t"
  shows "progress_run strip ok ls s = Some t \<Longrightarrow> reach init step s \<Longrightarrow> reach init step t"
proof (induction ls arbitrary: s)
  case (Cons l ls)
  then obtain u where u: "ok l s" "progress_next strip l s = Some u" "progress_run strip ok ls u = Some t"
    by (auto split: if_splits option.splits)
  from Cons.IH [OF u(3) reach_step [OF Cons.prems(2) assms [OF u(1) progress_next_step [OF u(2)]]]] show ?case .
qed simp

definition sample_progress_plan :: "plan_spec list" where
  "sample_progress_plan = [PlanSpec ''research.static.a'' ''research'' [] None]"

definition sample_event :: "string \<Rightarrow> string \<Rightarrow> progress_event" where
  "sample_event action status =
     \<lparr>pe_action = action, pe_status = status, pe_address = ''research.static.a'', pe_session = ''research'', pe_content = ''thinking'',
      pe_tool = [], pe_paths = [], pe_usage = None\<rparr>"

definition sample_start :: progress_system where
  "sample_start = \<lparr>py_projector = new_projector (Some sample_progress_plan), py_publisher = new_publisher ''run-1'' 3, py_inflight = [], py_written = []\<rparr>"

definition sample_labels :: "progress_label list" where
  "sample_labels =
     [DoStart, DoObserve (sample_event ''block.apply'' ''started''), DoWrite 0 None, DoEnqueue,
      DoObserve (sample_event ''assistant.reasoning'' []), DoEnqueue, DoWrite 0 None, DoFinish ApplySucceeded, DoWrite 0 None, DoWrite 0 None]"

definition sample_run :: "(progress_label \<Rightarrow> progress_system \<Rightarrow> bool) \<Rightarrow> progress_system option" where
  "sample_run ok = progress_run (\<lambda>s. s) ok sample_labels sample_start"

lemma sample_initial: "progress_initial (Some sample_progress_plan) ''run-1'' 3 sample_start"
  by (simp add: progress_initial_def sample_start_def)

theorem consumer_is_told_everything_witness:
  "case sample_run (\<lambda>l s. critical (py_publisher s) < pb_capacity (py_publisher s)) of
     Some s \<Rightarrow> consumed (map snd (py_written s)) = known (py_projector s) \<and> length (py_written s) = 4
   | None \<Rightarrow> False"
proof -
  let ?run = "sample_run (\<lambda>l s. critical (py_publisher s) < pb_capacity (py_publisher s))"
  have "case ?run of
      Some s \<Rightarrow> pb_started (py_publisher s) \<and> \<not> pb_stopped (py_publisher s) \<and> py_inflight s = [] \<and>
        pb_priority (py_publisher s) = [] \<and> pb_upserts (py_publisher s) = [] \<and> length (py_written s) = 4
    | None \<Rightarrow> False"
    by code_simp
  then obtain s where s: "?run = Some s" "pb_started (py_publisher s)" "\<not> pb_stopped (py_publisher s)" "py_inflight s = []"
      "pb_priority (py_publisher s) = []" "pb_upserts (py_publisher s) = []" "length (py_written s) = 4"
    by (auto split: option.splits)
  have "reach (progress_initial (Some sample_progress_plan) ''run-1'' 3) (calm_step (\<lambda>s. s)) s"
    by (rule progress_run_reach [OF _ s(1) [unfolded sample_run_def] reach_init]) (simp_all add: calm_step_def sample_initial)
  from consumer_is_told_everything [OF this s(2-6)] s(1,7) show ?thesis by simp
qed

theorem publication_is_bounded_and_ordered_witness:
  "case sample_run (\<lambda>l s. True) of
     Some s \<Rightarrow> pending (py_publisher s) \<le> 3 \<and> map fst (py_written s) = map (\<lambda>i. int i mod 2 ^ 64) [1..<Suc (length (py_written s))]
   | None \<Rightarrow> False"
proof -
  have "sample_run (\<lambda>l s. True) \<noteq> None" by code_simp
  then obtain s where s: "sample_run (\<lambda>l s. True) = Some s" by auto
  have "reach (progress_initial (Some sample_progress_plan) ''run-1'' 3) (progress_step (\<lambda>s. s)) s"
    by (rule progress_run_reach [OF _ s [unfolded sample_run_def] reach_init]) (simp_all add: sample_initial)
  from publication_is_bounded_and_ordered [OF this] s show ?thesis by simp
qed

definition fits_label :: "progress_label \<Rightarrow> progress_system \<Rightarrow> bool" where
  "fits_label l s \<longleftrightarrow> (case l of DoObserve e \<Rightarrow> pe_usage e = None | _ \<Rightarrow> True)"


end
