(* ===== verification/Evidence_Text.thy ===== *)
theory Evidence_Text
  imports R42_Runes Artifact_Registry "HOL-Library.Signed_Division"
begin

text \<open>
  The text functions of \<^verbatim>\<open>internal/evidence/io.go\<close>: normalisation of white space with the line each
  part came from, ranges of lines, and excerpts of bounded length. Offsets and lines are Go's
  \<^verbatim>\<open>int\<close>; a slice or an index out of range is a panic, kept as a named error.
\<close>

section \<open>Slices and indexes\<close>

definition panic_slice_bounds :: error where
  "panic_slice_bounds = Text ''runtime error: slice bounds out of range''"

definition panic_index_range :: error where
  "panic_index_range = Text ''runtime error: index out of range''"

definition go_slice :: "'a list \<Rightarrow> int \<Rightarrow> int \<Rightarrow> error + 'a list" where
  "go_slice xs i j =
     (if 0 \<le> i \<and> i \<le> j \<and> j \<le> int (length xs) then Inr (take (nat (j - i)) (drop (nat i) xs))
      else Inl panic_slice_bounds)"

definition go_index :: "'a list \<Rightarrow> int \<Rightarrow> error + 'a" where
  "go_index xs i = (if 0 \<le> i \<and> i < int (length xs) then Inr (xs ! nat i) else Inl panic_index_range)"

text \<open>\<open>sort.Search\<close> over the indexes of a list: the first element with the property, else the length.\<close>

definition sort_search :: "('a \<Rightarrow> bool) \<Rightarrow> 'a list \<Rightarrow> int" where
  "sort_search p xs = int (length (takeWhile (\<lambda>x. \<not> p x) xs))"

lemma go_slice_Inr:
  "go_slice xs i j = Inr ys \<longleftrightarrow>
   0 \<le> i \<and> i \<le> j \<and> j \<le> int (length xs) \<and> ys = take (nat (j - i)) (drop (nat i) xs)"
  by (auto simp: go_slice_def)

lemma go_slice_parts:
  assumes "go_slice xs i j = Inr ys"
  shows "\<exists>us vs. xs = us @ ys @ vs \<and> int (length us) = i \<and> int (length ys) = j - i"
proof (intro exI conjI)
  from assms have i: "0 \<le> i" "i \<le> j" "j \<le> int (length xs)" and ys: "ys = take (nat (j - i)) (drop (nat i) xs)"
    by (auto simp: go_slice_Inr)
  show "xs = take (nat i) xs @ ys @ drop (nat (j - i)) (drop (nat i) xs)" unfolding ys by (simp only: append_take_drop_id)
  show "int (length (take (nat i) xs)) = i" using i by simp
  show "int (length ys) = j - i" using i by (simp add: ys)
qed

lemma go_slice_from_parts: "go_slice (us @ ys @ vs) (int (length us)) (int (length us + length ys)) = Inr ys"
  by (simp add: go_slice_def)

lemma go_index_Inr: "go_index xs i = Inr x \<longleftrightarrow> 0 \<le> i \<and> i < int (length xs) \<and> x = xs ! nat i"
  by (auto simp: go_index_def)

section \<open>Normalisation of white space\<close>

text \<open>\<open>range value\<close>: an invalid byte is read as U+FFFD.\<close>

definition range_runes :: "string \<Rightarrow> string list" where
  "range_runes s = map (\<lambda>w. if is_rune w then w else replacement_rune) (runes s)"

definition rune_count :: "string \<Rightarrow> int" where
  "rune_count s = int (length (runes s))"

definition normalize_whitespace :: "string \<Rightarrow> string" where
  "normalize_whitespace v = strings_join '' '' (strings_fields v)"

record norm_state =
  norm_out :: string
  norm_starts :: "(int \<times> int) list"
  norm_line :: int
  norm_pending :: bool
  norm_last :: int

definition norm_init :: norm_state where
  "norm_init = \<lparr>norm_out = [], norm_starts = [], norm_line = 1, norm_pending = False, norm_last = 0\<rparr>"

definition norm_rune :: "string \<Rightarrow> norm_state \<Rightarrow> norm_state" where
  "norm_rune w s0 =
     (let s1 = (if w = [CHR 0x0A] then s0\<lparr>norm_line := norm_line s0 + 1\<rparr> else s0)
      in if is_space_rune w then s1\<lparr>norm_pending := norm_out s1 \<noteq> []\<rparr>
         else
           let s2 = (if norm_pending s1
                     then s1\<lparr>norm_out := norm_out s1 @ '' '', norm_pending := False\<rparr> else s1);
               s3 = (if norm_line s2 \<noteq> norm_last s2
                     then s2\<lparr>norm_starts := norm_starts s2 @ [(int (length (norm_out s2)), norm_line s2)],
                             norm_last := norm_line s2\<rparr>
                     else s2)
           in s3\<lparr>norm_out := norm_out s3 @ w\<rparr>)"

definition norm_run :: "string list \<Rightarrow> norm_state" where
  "norm_run ws = fold norm_rune ws norm_init"

definition normalize_with_lines :: "string \<Rightarrow> string \<times> (int \<times> int) list" where
  "normalize_with_lines v = (norm_out (norm_run (range_runes v)), norm_starts (norm_run (range_runes v)))"

definition normalized_line_range :: "(int \<times> int) list \<Rightarrow> int \<Rightarrow> int \<Rightarrow> int \<Rightarrow> int \<times> int" where
  "normalized_line_range starts start_line end_line total_bytes =
     (let i = sort_search (\<lambda>(b, l). start_line \<le> l) starts;
          s = (if i < int (length starts) then fst (starts ! nat i) else total_bytes);
          j = sort_search (\<lambda>(b, l). end_line < l) starts;
          e = (if j < int (length starts) then fst (starts ! nat j) else total_bytes)
      in (s, e))"

section \<open>Excerpts\<close>

definition max_match_runes :: int where "max_match_runes = 2000"
definition max_excerpt_runes :: int where "max_excerpt_runes = 4000"

text \<open>Where the excerpt of a match from rune \<open>s\<close> to rune \<open>e\<close> in a text of \<open>n\<close> runes starts.\<close>

definition excerpt_start :: "int \<Rightarrow> int \<Rightarrow> int \<Rightarrow> int" where
  "excerpt_start s e n =
     (let available = max_excerpt_runes - (e - s);
          i = max 0 (s - available sdiv 2)
      in if i + max_excerpt_runes > n then n - max_excerpt_runes else i)"

definition bounded_excerpt :: "string \<Rightarrow> int \<Rightarrow> int \<Rightarrow> error + string" where
  "bounded_excerpt t match_start match_end =
     (let rs = range_runes t; n = int (length rs)
      in if n \<le> max_excerpt_runes then Inr t
         else case go_slice t 0 match_start of
           Inl e \<Rightarrow> Inl e
         | Inr ahead \<Rightarrow>
             (case go_slice t match_start match_end of
                Inl e \<Rightarrow> Inl e
              | Inr matched \<Rightarrow>
                  (let s = rune_count ahead;
                       i = excerpt_start s (s + rune_count matched) n
                   in map_sum id concat (go_slice rs i (i + max_excerpt_runes)))))"

section \<open>Runes of slices\<close>

lemma range_runes_rune: "list_all is_rune (range_runes s)"
  by (auto simp: range_runes_def list_all_iff replacement_is_rune)

lemma range_runes_valid: "valid_utf8 s \<Longrightarrow> range_runes s = runes s"
  by (auto simp: range_runes_def valid_utf8_def list_all_iff intro: map_idI)

lemma valid_utf8_append: "valid_utf8 s \<Longrightarrow> valid_utf8 (s @ t) \<longleftrightarrow> valid_utf8 t"
  by (simp add: valid_utf8_def runes_append)

lemma rune_count_append: "valid_utf8 s \<Longrightarrow> rune_count (s @ t) = rune_count s + rune_count t"
  by (simp add: rune_count_def runes_append)

lemma rune_count_nonneg [simp]: "0 \<le> rune_count s"
  by (simp add: rune_count_def)

lemma valid_rune: "is_rune w \<Longrightarrow> valid_utf8 w"
  using valid_utf8_concat [of "[w]"] by simp

lemma sublist_concat: "sublist (concat ys) (concat (us @ ys @ vs))"
  by (auto simp: sublist_def)

text \<open>
  The excerpt of a text shows the match, is part of the text, and has at most 4000 runes, when the match lies in the text.
\<close>

lemma sdiv_two: "0 \<le> (a :: int) \<Longrightarrow> a sdiv 2 = a div 2"
  by (cases "a = 0") (simp_all add: signed_divide_int_def)

lemma bounded_excerpt_window:
  assumes t: "t = ahead @ matched @ rest" and valid: "valid_utf8 ahead" "valid_utf8 matched" "valid_utf8 rest"
    and short: "rune_count matched \<le> max_match_runes"
  shows "\<exists>x. bounded_excerpt t (int (length ahead)) (int (length ahead + length matched)) = Inr x \<and>
             sublist matched x \<and> sublist x t \<and> rune_count x \<le> max_excerpt_runes"
proof (cases "rune_count t \<le> max_excerpt_runes")
  case True
  moreover have "int (length (range_runes t)) = rune_count t" by (simp add: range_runes_def rune_count_def)
  moreover have "sublist matched t" by (auto simp: t sublist_def)
  ultimately show ?thesis by (simp add: bounded_excerpt_def Let_def)
next
  case False
  have rs: "runes t = runes ahead @ runes matched @ runes rest" using valid by (simp add: t runes_append)
  have "valid_utf8 t" using valid by (simp add: t valid_utf8_append)
  then have range: "range_runes t = runes t" by (rule range_runes_valid)
  let ?s = "rune_count ahead" and ?m = "rune_count matched" and ?n = "rune_count t"
  let ?a = "max_excerpt_runes - ?m"
  have a: "0 \<le> ?a" "?a sdiv 2 = ?a div 2" using short by (simp_all add: max_match_runes_def max_excerpt_runes_def sdiv_two)
  have n: "?n = ?s + ?m + rune_count rest" using valid by (simp add: t rune_count_append)
  define i where "i = excerpt_start ?s (?s + ?m) ?n"
  have i: "0 \<le> i" "i \<le> ?s" "?s + ?m \<le> i + max_excerpt_runes" "i + max_excerpt_runes \<le> ?n"
    using a n False short by (auto simp: i_def excerpt_start_def Let_def max_match_runes_def max_excerpt_runes_def)
  obtain ys where ys: "go_slice (runes t) i (i + max_excerpt_runes) = Inr ys"
    using i(1,4) by (auto simp: go_slice_def rune_count_def max_excerpt_runes_def)
  have x: "bounded_excerpt t (int (length ahead)) (int (length ahead + length matched)) = Inr (concat ys)"
  proof -
    have "int (length (range_runes t)) = ?n" by (simp add: range rune_count_def)
    moreover have "go_slice t 0 (int (length ahead)) = Inr ahead" by (simp add: go_slice_def t)
    moreover have "go_slice t (int (length ahead)) (int (length ahead + length matched)) = Inr matched"
      unfolding t by (rule go_slice_from_parts)
    ultimately show ?thesis using False ys by (simp add: bounded_excerpt_def Let_def range flip: i_def)
  qed
  obtain us vs where uv: "runes t = us @ ys @ vs" "int (length us) = i" "int (length ys) = max_excerpt_runes"
    using go_slice_parts [OF ys] by auto
  have "list_all is_rune ys" using \<open>valid_utf8 t\<close> uv(1) by (simp add: valid_utf8_def)
  then have "runes (concat ys) = ys" by (rule runes_concat)
  moreover have "sublist (concat ys) t" using concat_runes [of t] sublist_concat [of ys us vs] uv(1) by simp
  moreover have "sublist (runes matched) ys"
  proof -
    have "nat (?s - i) = nat ?s - length us" using i uv(2) by arith
    have "runes matched = take (nat ?m) (drop (nat (?s - i)) ys)"
    proof -
      have "drop (nat (?s - i)) ys = take (length ys - nat (?s - i)) (drop (nat ?s) (runes t))"
        using i uv(2) \<open>nat (?s - i) = nat ?s - length us\<close> by (simp add: uv(1) drop_take)
      also have "drop (nat ?s) (runes t) = runes matched @ runes rest" by (simp add: rs rune_count_def)
      also have "take (nat ?m) (take (length ys - nat (?s - i)) (runes matched @ runes rest)) = runes matched"
        using i uv(3) by (simp add: rune_count_def min_def)
      finally show ?thesis by simp
    qed
    then show ?thesis using sublist_order.order_trans [OF sublist_take sublist_drop] by metis
  qed
  then obtain ps qs where "ys = ps @ runes matched @ qs" by (auto simp: sublist_def)
  then have "sublist matched (concat ys)" using concat_runes [of matched] by (auto simp: sublist_def)
  ultimately show ?thesis using x uv(3) by (auto simp: rune_count_def)
qed

section \<open>What normalisation keeps\<close>

definition newline_rune :: string where "newline_rune = [CHR 0x0A]"

text \<open>The line a rune is on, after the runes before it.\<close>

definition source_line :: "string list \<Rightarrow> int" where
  "source_line us = 1 + int (count_list us newline_rune)"

text \<open>
  The rune \<open>w\<close> of the text \<open>v\<close>, after the runes \<open>us\<close>, takes the bytes from \<open>b\<close> to \<open>e\<close> of the normalised text.
\<close>

definition comes_from :: "string \<Rightarrow> string list \<Rightarrow> string \<Rightarrow> int \<Rightarrow> int \<Rightarrow> bool" where
  "comes_from v us w b e \<longleftrightarrow>
     prefix (us @ [w]) (range_runes v) \<and> \<not> is_space_rune w \<and>
     e = int (length (norm_out (norm_run (us @ [w])))) \<and> b = e - int (length w)"

lemma norm_run_Nil [simp]: "norm_run [] = norm_init"
  by (simp add: norm_run_def)

lemma norm_run_snoc: "norm_run (us @ [w]) = norm_rune w (norm_run us)"
  by (simp add: norm_run_def)

lemma newline_is_space: "is_space_rune newline_rune"
  by code_simp

lemma norm_line_run: "norm_line (norm_run us) = source_line us"
  by (induction us rule: rev_induct)
     (auto simp: norm_run_snoc norm_rune_def norm_init_def source_line_def newline_rune_def Let_def)

definition starts_inv :: "norm_state \<Rightarrow> bool" where
  "starts_inv s \<longleftrightarrow>
     sorted_wrt (\<lambda>p q. fst p < fst q \<and> snd p < snd q) (norm_starts s) \<and>
     list_all (\<lambda>p. 0 \<le> fst p \<and> fst p < int (length (norm_out s)) \<and> 1 \<le> snd p \<and> snd p \<le> norm_last s) (norm_starts s) \<and>
     norm_last s = (if norm_starts s = [] then 0 else snd (last (norm_starts s))) \<and>
     norm_last s \<le> norm_line s \<and> 1 \<le> norm_line s \<and>
     (norm_starts s = [] \<longleftrightarrow> norm_out s = []) \<and> (norm_pending s \<longrightarrow> norm_out s \<noteq> []) \<and>
     (norm_starts s \<noteq> [] \<longrightarrow> fst (hd (norm_starts s)) = 0)"

lemma starts_inv_rune: "starts_inv s \<Longrightarrow> w \<noteq> [] \<Longrightarrow> starts_inv (norm_rune w s)"
  by (auto simp: starts_inv_def norm_rune_def Let_def sorted_wrt_append list_all_iff hd_append)

lemma starts_inv_run: "list_all is_rune us \<Longrightarrow> starts_inv (norm_run us)"
proof (induction us rule: rev_induct)
  case Nil
  then show ?case by (simp add: starts_inv_def norm_init_def)
next
  case (snoc w us)
  then show ?case by (auto simp: norm_run_snoc is_rune_def intro: starts_inv_rune)
qed

text \<open>Later runes only extend the text and the list of lines.\<close>

lemma norm_rune_extends:
  "\<exists>x more. norm_out (norm_rune w s) = norm_out s @ x \<and> norm_starts (norm_rune w s) = norm_starts s @ more \<and>
     list_all (\<lambda>p. int (length (norm_out s)) \<le> fst p) more"
  by (auto simp: norm_rune_def Let_def)

lemma norm_fold_extends:
  "\<exists>x more. norm_out (fold norm_rune ws s) = norm_out s @ x \<and> norm_starts (fold norm_rune ws s) = norm_starts s @ more \<and>
     list_all (\<lambda>p. int (length (norm_out s)) \<le> fst p) more"
proof (induction ws arbitrary: s)
  case (Cons w ws)
  obtain x more where x: "norm_out (norm_rune w s) = norm_out s @ x" "norm_starts (norm_rune w s) = norm_starts s @ more"
      "list_all (\<lambda>p. int (length (norm_out s)) \<le> fst p) more"
    using norm_rune_extends [of w s] by blast
  obtain y more' where y: "norm_out (fold norm_rune ws (norm_rune w s)) = norm_out (norm_rune w s) @ y"
      "norm_starts (fold norm_rune ws (norm_rune w s)) = norm_starts (norm_rune w s) @ more'"
      "list_all (\<lambda>p. int (length (norm_out (norm_rune w s))) \<le> fst p) more'"
    using Cons.IH [of "norm_rune w s"] by blast
  have "list_all (\<lambda>p. int (length (norm_out s)) \<le> fst p) more'" using y(3) x(1) by (auto simp: list_all_iff)
  with x y show ?case by auto
qed simp

text \<open>The rune itself is written, and the list of lines ends with its line.\<close>

lemma norm_rune_solid:
  assumes "\<not> is_space_rune w" "starts_inv s"
  shows "\<exists>x. norm_out (norm_rune w s) = x @ w \<and> norm_starts (norm_rune w s) \<noteq> [] \<and>
             snd (last (norm_starts (norm_rune w s))) = norm_line s \<and>
             list_all (\<lambda>p. fst p \<le> int (length x)) (norm_starts (norm_rune w s))"
proof -
  have "w \<noteq> [CHR 0x0A]" using assms(1) newline_is_space by (auto simp: newline_rune_def)
  then show ?thesis using assms
    by (auto simp: norm_rune_def Let_def starts_inv_def list_all_iff; fastforce)
qed

text \<open>
  A rune that is not white space is found at its bytes, and the list of lines gives its line
  at every byte from its first to the start of what comes after it.
\<close>

lemma comes_from_line:
  assumes "comes_from v us w b e" and n: "normalize_with_lines v = (normalized, starts)"
  shows "\<exists>x y early late. normalized = x @ w @ y \<and> int (length x) = b \<and> int (length (x @ w)) = e \<and>
           starts = early @ late \<and> early \<noteq> [] \<and> snd (last early) = source_line us \<and>
           list_all (\<lambda>p. fst p \<le> b) early \<and> list_all (\<lambda>p. e \<le> fst p) late"
proof -
  from assms(1) obtain vs where v: "range_runes v = us @ w # vs" and w: "\<not> is_space_rune w"
    and e: "e = int (length (norm_out (norm_run (us @ [w]))))" and b: "b = e - int (length w)"
    by (auto simp: comes_from_def prefix_def)
  let ?s = "norm_rune w (norm_run us)"
  have "list_all is_rune us" using range_runes_rune [of v] v by simp
  from norm_rune_solid [OF w starts_inv_run [OF this]] obtain x where
    x: "norm_out ?s = x @ w" "norm_starts ?s \<noteq> []" "snd (last (norm_starts ?s)) = source_line us"
      "list_all (\<lambda>p. fst p \<le> int (length x)) (norm_starts ?s)"
    by (auto simp: norm_line_run)
  obtain y more where y: "norm_out (fold norm_rune vs ?s) = norm_out ?s @ y"
      "norm_starts (fold norm_rune vs ?s) = norm_starts ?s @ more" "list_all (\<lambda>p. int (length (norm_out ?s)) \<le> fst p) more"
    using norm_fold_extends by blast
  have "norm_run (range_runes v) = fold norm_rune vs ?s" by (simp add: v norm_run_def)
  then have "normalized = x @ w @ y" "starts = norm_starts ?s @ more"
    using n x(1) y(1,2) by (auto simp: normalize_with_lines_def)
  moreover have "e = int (length (x @ w))" using e x(1) by (simp only: norm_run_snoc)
  ultimately show ?thesis using x(2-4) y(3) b x(1)
    by (intro exI [of _ x] exI [of _ y] exI [of _ "norm_starts ?s"] exI [of _ more]) simp
qed

lemma normalized_starts:
  assumes "normalize_with_lines v = (normalized, starts)"
  shows "sorted_wrt (\<lambda>p q. fst p < fst q \<and> snd p < snd q) starts"
    and "list_all (\<lambda>p. 0 \<le> fst p \<and> fst p < int (length normalized) \<and> 1 \<le> snd p) starts"
    and "normalized = [] \<longleftrightarrow> starts = []" and "starts \<noteq> [] \<Longrightarrow> fst (hd starts) = 0"
  using assms starts_inv_run [OF range_runes_rune, of v]
  by (auto simp: normalize_with_lines_def starts_inv_def list_all_iff)

section \<open>Normalised text is UTF-8 without double blanks\<close>

lemma norm_run_valid: "list_all is_rune us \<Longrightarrow> valid_utf8 (norm_out (norm_run us))"
proof (induction us rule: rev_induct)
  case (snoc w us)
  then have "valid_utf8 (norm_out (norm_run us))" "valid_utf8 w" "valid_utf8 '' ''"
    by (simp_all add: valid_rune) code_simp
  then show ?case by (auto simp: norm_run_snoc norm_rune_def Let_def valid_utf8_append)
qed (simp add: norm_init_def)

lemma normalized_valid: "normalize_with_lines v = (normalized, starts) \<Longrightarrow> valid_utf8 normalized"
  using norm_run_valid [OF range_runes_rune, of v] by (simp add: normalize_with_lines_def)

text \<open>The words of a list of runes.\<close>

function rune_words :: "string list \<Rightarrow> string list list" where
  "rune_words ws =
     (let us = dropWhile is_space_rune ws
      in if us = [] then []
         else takeWhile (\<lambda>w. \<not> is_space_rune w) us # rune_words (dropWhile (\<lambda>w. \<not> is_space_rune w) us))"
  by pat_completeness auto
termination
proof (relation "measure length")
  fix ws us :: "string list"
  assume us: "us = dropWhile is_space_rune ws" "us \<noteq> []"
  then have "\<not> is_space_rune (hd us)" using hd_dropWhile by metis
  with us(2) have "length (dropWhile (\<lambda>w. \<not> is_space_rune w) us) < length us"
    by (cases us) (auto intro: le_imp_less_Suc length_dropWhile_le)
  also have "length us \<le> length ws" by (simp add: us length_dropWhile_le)
  finally show "(dropWhile (\<lambda>w. \<not> is_space_rune w) us, ws) \<in> measure length" by simp
qed simp

declare rune_words.simps [simp del]

lemma space_runes_runes: "list_all is_rune space_runes"
  by code_simp

lemma rune_prefix_unique: "is_rune x \<Longrightarrow> is_rune w \<Longrightarrow> prefix x (w @ s) \<Longrightarrow> x = w"
proof (elim prefixE)
  fix z assume "is_rune x" "is_rune w" and eq: "w @ s = x @ z"
  then have "length w = length x" using rune_len_append [of w s] rune_len_append [of x z] by simp
  with eq show "x = w" by simp
qed

lemma starts_with_rune:
  assumes "is_rune w"
  shows "starts_with_any space_runes (w @ s) = (if is_space_rune w then Some w else None)"
proof -
  have *: "x = w" if "x \<in> set space_runes" "prefix x (w @ s)" for x
    using rune_prefix_unique [OF _ assms that(2)] that(1) space_runes_runes by (auto simp: list_all_iff)
  show ?thesis
  proof (cases "starts_with_any space_runes (w @ s)")
    case None
    then have "\<not> is_space_rune w" using assms by (auto simp: starts_with_any_None is_space_rune_def is_rune_def)
    with None show ?thesis by simp
  next
    case (Some x)
    with starts_with_any_SomeD [OF Some] * [of x] show ?thesis by (auto simp: is_space_rune_def)
  qed
qed

lemma trim_left_runes: "list_all is_rune ws \<Longrightarrow> trim_left (concat ws) = concat (dropWhile is_space_rune ws)"
proof (induction ws)
  case Nil
  show ?case by code_simp
next
  case (Cons w ws)
  then show ?case by (simp add: trim_left_def trim_front.simps [of _ "w @ concat ws"] starts_with_rune)
qed

lemma rune_tail: "is_rune (c # cs) \<Longrightarrow> list_all (byte_in 0x80 0xBF) cs"
proof (cases cs)
  case (Cons d ds)
  assume "is_rune (c # cs)"
  then show ?thesis using Cons by (auto simp: is_rune_def rune_head_def byte_in_def split: if_splits)
qed simp

lemma space_heads_ascii: "list_all (\<lambda>x. x \<noteq> [] \<and> \<not> byte_in 0x80 0xBF (hd x)) space_runes"
  by code_simp

lemma take_word_tail:
  "list_all (byte_in 0x80 0xBF) cs \<Longrightarrow> take_word (cs @ s) = (cs @ fst (take_word s), snd (take_word s))"
proof (induction cs)
  case (Cons d ds)
  have "starts_with_any space_runes (d # ds @ s) = None"
  proof (cases "starts_with_any space_runes (d # ds @ s)")
    case (Some x)
    from starts_with_any_SomeD [OF this] have "x \<in> set space_runes" "hd x = d" by (auto simp: prefix_def Cons_eq_append_conv)
    with space_heads_ascii Cons.prems show ?thesis by (auto simp: list_all_iff)
  qed
  with Cons show ?case by (simp add: split_beta)
qed simp

lemma take_word_rune:
  assumes "is_rune w" "\<not> is_space_rune w"
  shows "take_word (w @ s) = (w @ fst (take_word s), snd (take_word s))"
proof -
  obtain c cs where w: "w = c # cs" using assms(1) by (cases w) (auto simp: is_rune_def)
  have "starts_with_any space_runes (c # cs @ s) = None" using starts_with_rune [OF assms(1), of s] assms(2) w by simp
  moreover have "take_word (cs @ s) = (cs @ fst (take_word s), snd (take_word s))"
    by (rule take_word_tail [OF rune_tail]) (use assms(1) w in simp)
  ultimately show ?thesis by (simp add: w split_beta)
qed

lemma take_word_runes:
  "list_all is_rune ws \<Longrightarrow>
   take_word (concat ws) = (concat (takeWhile (\<lambda>w. \<not> is_space_rune w) ws), concat (dropWhile (\<lambda>w. \<not> is_space_rune w) ws))"
proof (induction ws)
  case (Cons w ws)
  show ?case
  proof (cases "is_space_rune w")
    case True
    obtain c cs where w: "w = c # cs" using Cons.prems by (cases w) (auto simp: is_rune_def)
    have "starts_with_any space_runes (c # cs @ concat ws) \<noteq> None"
      using starts_with_rune [of w "concat ws"] Cons.prems True w by simp
    with True show ?thesis by (simp add: w)
  next
    case False
    with Cons show ?thesis by (simp add: take_word_rune)
  qed
qed simp

lemma strings_fields_runes: "list_all is_rune ws \<Longrightarrow> strings_fields (concat ws) = map concat (rune_words ws)"
proof (induction ws rule: rune_words.induct)
  case (1 ws)
  let ?solid = "\<lambda>w. \<not> is_space_rune w"
  define us where "us = dropWhile is_space_rune ws"
  define word rest where "word = takeWhile ?solid us" and "rest = dropWhile ?solid us"
  have us: "list_all is_rune us" using 1(2) by (auto simp: us_def list_all_iff dest: set_dropWhileD)
  have words: "rune_words ws = (if us = [] then [] else word # rune_words rest)"
    by (subst rune_words.simps) (simp only: Let_def us_def word_def rest_def)
  have trim: "trim_left (concat ws) = concat us" using trim_left_runes [OF 1(2)] by (simp only: us_def)
  have take: "take_word (concat us) = (concat word, concat rest)" using take_word_runes [OF us] by (simp only: word_def rest_def)
  show ?case
  proof (cases "us = []")
    case True
    then show ?thesis by (subst strings_fields.simps) (simp add: trim words)
  next
    case False
    have "list_all is_rune rest" using us by (auto simp: rest_def list_all_iff dest: set_dropWhileD)
    with 1(1) [OF us_def False] have "strings_fields (concat rest) = map concat (rune_words rest)" by (simp add: rest_def)
    moreover obtain w vs where "us = w # vs" using False by (cases us) auto
    with us have "concat us \<noteq> []" by (auto simp: is_rune_def)
    ultimately show ?thesis by (subst strings_fields.simps) (simp add: trim words take False del: concat_eq_Nil_conv)
  qed
qed

lemma strings_join_Cons: "strings_join sep (x # xs) = (if xs = [] then x else x @ sep @ strings_join sep xs)"
  by (cases xs) auto

lemma norm_fold_spaces:
  "list_all is_space_rune ws \<Longrightarrow>
   norm_out (fold norm_rune ws s) = norm_out s \<and>
   norm_pending (fold norm_rune ws s) = (if ws = [] then norm_pending s else norm_out s \<noteq> [])"
  by (induction ws arbitrary: s) (auto simp: norm_rune_def Let_def)

lemma norm_fold_solid:
  "list_all (\<lambda>w. \<not> is_space_rune w) ws \<Longrightarrow> ws \<noteq> [] \<Longrightarrow>
   norm_out (fold norm_rune ws s) = norm_out s @ (if norm_pending s then '' '' else []) @ concat ws \<and>
   \<not> norm_pending (fold norm_rune ws s)"
proof (induction ws arbitrary: s)
  case (Cons w ws)
  have step: "norm_out (norm_rune w s) = norm_out s @ (if norm_pending s then '' '' else []) @ w" "\<not> norm_pending (norm_rune w s)"
    using Cons.prems by (auto simp: norm_rune_def Let_def)
  show ?case
  proof (cases "ws = []")
    case False
    with Cons.IH [of "norm_rune w s"] Cons.prems step show ?thesis by simp
  qed (use step in simp)
qed simp

lemma norm_out_words:
  assumes "norm_pending s \<longrightarrow> norm_out s \<noteq> []" "norm_pending s \<or> norm_out s = [] \<or> ws = [] \<or> is_space_rune (hd ws)"
    and "[] \<notin> set ws"
  shows "norm_out (fold norm_rune ws s) =
    norm_out s @ (if norm_out s \<noteq> [] \<and> rune_words ws \<noteq> [] then '' '' else []) @ strings_join '' '' (map concat (rune_words ws))"
  using assms
proof (induction ws arbitrary: s rule: rune_words.induct)
  case (1 ws)
  let ?solid = "\<lambda>w. \<not> is_space_rune w"
  define sp us where "sp = takeWhile is_space_rune ws" and "us = dropWhile is_space_rune ws"
  define word rest where "word = takeWhile ?solid us" and "rest = dropWhile ?solid us"
  define s1 where "s1 = fold norm_rune sp s"
  have ws: "ws = sp @ us" "us = word @ rest" by (simp_all add: sp_def us_def word_def rest_def)
  have "list_all is_space_rune sp" by (auto simp: sp_def list_all_iff dest: set_takeWhileD)
  from norm_fold_spaces [OF this, of s] have s1: "norm_out s1 = norm_out s" "norm_pending s1 = (if sp = [] then norm_pending s else norm_out s \<noteq> [])"
    by (simp_all add: s1_def)
  show ?case
  proof (cases "us = []")
    case True
    then have "rune_words ws = []" by (subst rune_words.simps) (simp add: us_def)
    with True show ?thesis using s1(1) ws by (simp add: s1_def)
  next
    case False
    then have "\<not> is_space_rune (hd us)" unfolding us_def by (rule hd_dropWhile)
    with False have word: "word \<noteq> []" by (cases us) (auto simp: word_def)
    have split: "rune_words ws = word # rune_words rest" using False by (subst rune_words.simps) (simp add: us_def word_def rest_def Let_def)
    define s2 where "s2 = fold norm_rune word s1"
    have "list_all ?solid word" by (auto simp: word_def list_all_iff dest: set_takeWhileD)
    from norm_fold_solid [OF this word, of s1] have s2: "norm_out s2 = norm_out s @ (if norm_pending s1 then '' '' else []) @ concat word" "\<not> norm_pending s2"
      by (simp_all add: s1 s2_def)
    have pending: "norm_pending s1 \<longleftrightarrow> norm_out s \<noteq> []"
      using 1(2,3) s1(2) False \<open>\<not> is_space_rune (hd us)\<close> ws(1) by (cases "sp = []") auto
    have "set word \<subseteq> set ws" by (subst ws(1)) (use ws(2) in auto)
    then have solid: "concat word \<noteq> []" using word 1(4) by (cases word) auto
    have rest: "rest = [] \<or> is_space_rune (hd rest)" using hd_dropWhile [of ?solid us] by (auto simp: rest_def)
    have "norm_out (fold norm_rune rest s2) =
      norm_out s2 @ (if norm_out s2 \<noteq> [] \<and> rune_words rest \<noteq> [] then '' '' else []) @ strings_join '' '' (map concat (rune_words rest))"
    proof (unfold rest_def, rule 1(1) [OF us_def False], fold rest_def)
      show "norm_pending s2 \<longrightarrow> norm_out s2 \<noteq> []" using s2(2) by simp
      show "norm_pending s2 \<or> norm_out s2 = [] \<or> rest = [] \<or> is_space_rune (hd rest)" using rest by simp
      have "set ws = set sp \<union> set word \<union> set rest" by (simp only: ws(1)) (simp add: ws(2) Un_assoc)
      then show "[] \<notin> set rest" using 1(4) by simp
    qed
    moreover have "fold norm_rune ws s = fold norm_rune rest s2" by (simp add: ws(1) s1_def s2_def) (simp add: ws(2))
    moreover have "norm_out s2 = norm_out s @ (if norm_out s \<noteq> [] then '' '' else []) @ concat word"
      unfolding s2(1) pending ..
    moreover have "norm_out s2 \<noteq> []" using solid s2(1) by simp
    ultimately show ?thesis unfolding split
      by (cases "norm_out s = []"; cases "rune_words rest = []") (simp_all add: strings_join_Cons)
  qed
qed

text \<open>The text of the two normalisations is the same for valid UTF-8.\<close>

lemma normalisations_agree_text:
  assumes "valid_utf8 v"
  shows "fst (normalize_with_lines v) = normalize_whitespace v"
proof -
  have v: "range_runes v = runes v" "list_all is_rune (runes v)"
    using assms by (simp_all add: range_runes_valid valid_utf8_def)
  have "[] \<notin> set (runes v)" using v(2) by (auto simp: list_all_iff is_rune_def)
  then have "norm_out (fold norm_rune (runes v) norm_init) = strings_join '' '' (map concat (rune_words (runes v)))"
    using norm_out_words [of norm_init "runes v"] by (simp add: norm_init_def)
  moreover have "strings_fields v = map concat (rune_words (runes v))" using strings_fields_runes [OF v(2)] by (simp add: concat_runes)
  ultimately show ?thesis by (simp add: normalize_with_lines_def normalize_whitespace_def norm_run_def v(1))
qed

section \<open>Offsets between runes\<close>

definition rune_offset :: "string \<Rightarrow> int \<Rightarrow> bool" where
  "rune_offset s k \<longleftrightarrow> 0 \<le> k \<and> k \<le> int (length s) \<and> valid_utf8 (take (nat k) s)"

lemma rune_offset_end: "valid_utf8 s \<Longrightarrow> rune_offset s (int (length s))"
  by (simp add: rune_offset_def)

lemma rune_offset_append: "rune_offset s k \<Longrightarrow> rune_offset (s @ t) k"
  by (auto simp: rune_offset_def)

lemma rune_offsets_split:
  assumes s: "valid_utf8 s" and i: "rune_offset s i" and j: "rune_offset s j" and le: "i \<le> j"
  shows "\<exists>x y z. s = x @ y @ z \<and> valid_utf8 x \<and> valid_utf8 y \<and> valid_utf8 z \<and>
           int (length x) = i \<and> int (length y) = j - i \<and> go_slice s i j = Inr y"
proof -
  obtain y where y: "go_slice s i j = Inr y" using i j le by (auto simp: rune_offset_def go_slice_def)
  from go_slice_parts [OF y] obtain x z where p: "s = x @ y @ z" "int (length x) = i" "int (length y) = j - i" by blast
  have "take (nat i) s = x" "take (nat j) s = x @ y" using p using p by auto
  with i j have x: "valid_utf8 x" and "valid_utf8 (x @ y)" by (auto simp: rune_offset_def)
  then have "valid_utf8 y" by (simp add: valid_utf8_append)
  with s x have "valid_utf8 z" by (simp add: p(1) valid_utf8_append)
  with \<open>valid_utf8 y\<close> x p y show ?thesis by blast
qed

lemma starts_offsets_rune:
  assumes "list_all (\<lambda>p. rune_offset (norm_out s) (fst p)) (norm_starts s)" "valid_utf8 (norm_out s)"
  shows "list_all (\<lambda>p. rune_offset (norm_out (norm_rune w s)) (fst p)) (norm_starts (norm_rune w s))"
proof -
  have "valid_utf8 '' ''" by code_simp
  with assms(2) have out: "rune_offset (norm_out s @ x) (int (length (norm_out s)))"
      "rune_offset (norm_out s @ CHR '' '' # x) (1 + int (length (norm_out s)))" for x
    by (auto simp: rune_offset_def valid_utf8_append nat_add_distrib)
  show ?thesis
    using assms out [of w] by (auto simp: norm_rune_def Let_def list_all_iff intro: rune_offset_append)
qed

lemma starts_offsets:
  assumes "normalize_with_lines v = (normalized, starts)"
  shows "list_all (\<lambda>p. rune_offset normalized (fst p)) starts"
proof -
  have "list_all is_rune us \<Longrightarrow> list_all (\<lambda>p. rune_offset (norm_out (norm_run us)) (fst p)) (norm_starts (norm_run us))" for us
    by (induction us rule: rev_induct)
       (auto simp: norm_run_snoc norm_init_def intro: starts_offsets_rune norm_run_valid)
  from this [OF range_runes_rune] assms show ?thesis by (auto simp: normalize_with_lines_def)
qed

text \<open>Offsets and slices of a slice.\<close>

lemma rune_offset_slice:
  assumes "valid_utf8 pre" "rune_offset (pre @ around @ post) i" "int (length pre) \<le> i" "i \<le> int (length pre + length around)"
  shows "rune_offset around (i - int (length pre))"
proof -
  have "take (nat i) (pre @ around @ post) = pre @ take (nat (i - int (length pre))) around"
    using assms(3,4) by (simp add: nat_diff_distrib)
  with assms show ?thesis by (auto simp: rune_offset_def valid_utf8_append)
qed

lemma go_slice_slice:
  assumes "int (length pre) \<le> i" "j \<le> int (length pre + length around)"
  shows "go_slice (pre @ around @ post) i j = go_slice around (i - int (length pre)) (j - int (length pre))"
  using assms by (auto simp: go_slice_def nat_diff_distrib)

lemma range_runes_length: "int (length (range_runes t)) = rune_count t"
  by (simp add: range_runes_def rune_count_def)

text \<open>No line is further down than there are bytes.\<close>

lemma length_runes: "length (runes v) \<le> length v"
proof (induction v rule: runes.induct)
  case (2 c cs)
  let ?n = "max 1 (rune_len (c # cs))"
  have "length (runes (drop ?n (c # cs))) \<le> length (drop ?n (c # cs))" by (rule 2) simp
  also have "\<dots> \<le> length cs" by auto
  finally show ?case by (simp add: runes.simps Let_def)
qed simp

lemma lines_bounded:
  assumes "normalize_with_lines v = (normalized, starts)" "p \<in> set starts"
  shows "1 \<le> snd p" and "snd p \<le> 1 + int (length v)"
proof -
  let ?us = "range_runes v"
  have inv: "starts_inv (norm_run ?us)" "norm_line (norm_run ?us) = source_line ?us"
    by (rule starts_inv_run [OF range_runes_rune]) (rule norm_line_run)
  have "source_line ?us \<le> 1 + int (length ?us)" using count_le_length [of ?us] by (simp add: source_line_def)
  also have "length ?us \<le> length v" by (simp add: range_runes_def length_runes)
  finally show "1 \<le> snd p" "snd p \<le> 1 + int (length v)"
    using inv assms by (auto simp: normalize_with_lines_def starts_inv_def list_all_iff)
qed

end
