(* ===== verification/Artifact_Search.thy ===== *)
theory Artifact_Search
  imports Evidence_Text
begin

text \<open>
  \<^verbatim>\<open>internal/evidence/artifact.go\<close>: search in registered artifacts, and the access to evidence
  artifacts that are allowed to a session.

  The regular expressions of Go's \<^verbatim>\<open>regexp\<close> are a parameter: \<open>rx_compile\<close> is \<^verbatim>\<open>Compile\<close> and \<open>rx_find_all\<close> is
  \<^verbatim>\<open>FindAllStringIndex\<close>. SHA-256 in hexadecimal is the parameter \<open>sha\<close>. A file does not change between the \<^verbatim>\<open>Stat\<close>
  and the \<^verbatim>\<open>ReadFile\<close> of one search.
\<close>

section \<open>Regular expressions\<close>

record 'x regexp =
  rx_compile :: "string \<Rightarrow> error + 'x"
  rx_match :: "'x \<Rightarrow> string \<Rightarrow> bool"
  rx_find_all :: "'x \<Rightarrow> string \<Rightarrow> int \<Rightarrow> (int \<times> int) list"

definition rune_span :: "string \<Rightarrow> int \<times> int \<Rightarrow> bool" where
  "rune_span s p \<longleftrightarrow>
     (\<exists>ahead matched rest. s = ahead @ matched @ rest \<and>
        valid_utf8 ahead \<and> valid_utf8 matched \<and> valid_utf8 rest \<and>
        p = (int (length ahead), int (length ahead + length matched)))"

text \<open>As documented: the matches in a text of valid UTF-8 are parts of it, from rune to rune.\<close>

definition regexp_ok :: "'x regexp \<Rightarrow> bool" where
  "regexp_ok rx \<longleftrightarrow> (\<forall>x s n. valid_utf8 s \<longrightarrow> list_all (rune_span s) (rx_find_all rx x s n))"

section \<open>Search\<close>

record search_match =
  sm_quote_ref :: string
  sm_submit_ready :: bool
  sm_line :: int
  sm_end_line :: int
  sm_matched :: string
  sm_excerpt :: string
  sm_digest :: string
  sm_start :: int
  sm_end :: int

record search_result =
  sr_matches :: "search_match list"
  sr_truncated :: bool

definition max_search_bytes :: int where "max_search_bytes = 33554432"

definition validate_search_size :: "int \<Rightarrow> error option" where
  "validate_search_size n =
     (if n > max_search_bytes
      then Some (Format ''artifact search size %d exceeds maximum %d bytes'' [IntArg n, IntArg max_search_bytes])
      else None)"

definition match_at :: "string \<Rightarrow> (int \<times> int) list \<Rightarrow> string \<Rightarrow> int \<Rightarrow> int \<times> int \<Rightarrow> error + search_match" where
  "match_at normalized starts digest context p =
     (case go_index starts (sort_search (\<lambda>q. fst q > fst p) starts - 1) of
        Inl e \<Rightarrow> Inl e
      | Inr first \<Rightarrow>
     (case go_index starts (max 0 (sort_search (\<lambda>q. fst q \<ge> snd p) starts - 1)) of
        Inl e \<Rightarrow> Inl e
      | Inr final \<Rightarrow>
     (let line = snd first;
          r = normalized_line_range starts (max 1 (wrap_int (line - context))) (wrap_int (line + context))
                (int (length normalized))
      in case go_slice normalized (fst p) (snd p) of
        Inl e \<Rightarrow> Inl e
      | Inr matched \<Rightarrow>
     (case go_slice normalized (fst r) (snd r) of
        Inl e \<Rightarrow> Inl e
      | Inr around \<Rightarrow>
     (case bounded_excerpt around (fst p - fst r) (snd p - fst r) of
        Inl e \<Rightarrow> Inl e
      | Inr excerpt \<Rightarrow>
          Inr \<lparr>sm_quote_ref = [], sm_submit_ready = False, sm_line = line, sm_end_line = snd final,
               sm_matched = matched, sm_excerpt = excerpt, sm_digest = digest,
               sm_start = fst p, sm_end = snd p\<rparr>)))))"

definition invalid_match :: error where
  "invalid_match = Text ''evidence artifact search pattern produced an invalid match''"

definition check_match :: "string \<Rightarrow> int \<times> int \<Rightarrow> error + unit" where
  "check_match normalized p =
     (if fst p = snd p then Inl invalid_match
      else case go_slice normalized (fst p) (snd p) of
        Inl e \<Rightarrow> Inl e
      | Inr matched \<Rightarrow> (if rune_count matched > max_match_runes then Inl invalid_match else Inr ()))"

definition search_text ::
  "'x regexp \<Rightarrow> (string \<Rightarrow> string) \<Rightarrow> string \<Rightarrow> string \<Rightarrow> bool \<Rightarrow> int \<Rightarrow> int \<Rightarrow> error + search_result" where
  "search_text rx sha content pattern case_sensitive max_matches context =
     (let (normalized, starts) = normalize_with_lines content; digest = sha content;
          expression = (if case_sensitive then pattern else ''(?i:'' @ pattern @ '')'')
      in case rx_compile rx expression of
        Inl e \<Rightarrow> Inl (Format ''compile evidence artifact search pattern: %w'' [TextArg e])
      | Inr x \<Rightarrow>
     (if rx_match rx x [] then Inl (Text ''evidence artifact search pattern must not match empty text'')
      else
      let indices = rx_find_all rx x normalized (wrap_int (max_matches + 1));
          truncated = int (length indices) > max_matches
      in case all_ok (check_match normalized) indices of
        Inl e \<Rightarrow> Inl e
      | Inr _ \<Rightarrow>
     (case (if truncated then go_slice indices 0 max_matches else Inr indices) of
        Inl e \<Rightarrow> Inl e
      | Inr kept \<Rightarrow>
     (case all_ok (match_at normalized starts digest context) kept of
        Inl e \<Rightarrow> Inl e
      | Inr ms \<Rightarrow> Inr \<lparr>sr_matches = ms, sr_truncated = truncated\<rparr>))))"

definition search_artifact ::
  "'fs os \<Rightarrow> 'x regexp \<Rightarrow> (string \<Rightarrow> string) \<Rightarrow> 'fs \<Rightarrow> registry \<Rightarrow> string \<Rightarrow> string \<Rightarrow> bool \<Rightarrow> int \<Rightarrow> int \<Rightarrow>
   error + search_result" where
  "search_artifact os rx sha fs r i pattern case_sensitive max_matches context =
     (case record_of r i of
        Inl e \<Rightarrow> Inl e
      | Inr rec \<Rightarrow>
     (if rec_type rec \<noteq> ArtFile then Inl (Format ''artifact %q is not a file'' [StrArg i])
      else case os_stat os fs (rec_path rec) of
        Inl e \<Rightarrow> Inl e
      | Inr info \<Rightarrow>
     (case validate_search_size (fi_size info) of
        Some e \<Rightarrow> Inl e
      | None \<Rightarrow>
     (case os_read_file os fs (rec_path rec) of
        Inl e \<Rightarrow> Inl e
      | Inr content \<Rightarrow> search_text rx sha content pattern case_sensitive max_matches context))))"

section \<open>Access to evidence\<close>

record evidence_access =
  ea_registry :: registry
  ea_allowed :: "string list"

fun allow_evidence :: "registry \<Rightarrow> string list \<Rightarrow> string list \<Rightarrow> error + string list" where
  "allow_evidence r [] allowed = Inr allowed"
| "allow_evidence r (i # is) allowed =
     (case record_of r i of
        Inl e \<Rightarrow> Inl e
      | Inr _ \<Rightarrow> allow_evidence r is (if has_purpose r i PurposeEvidence then List.insert i allowed else allowed))"

definition new_evidence_access :: "registry \<Rightarrow> string list \<Rightarrow> error + evidence_access" where
  "new_evidence_access r is =
     map_sum id (\<lambda>allowed. \<lparr>ea_registry = r, ea_allowed = allowed\<rparr>) (allow_evidence r is [])"

definition has_artifact :: "evidence_access \<Rightarrow> string \<Rightarrow> bool" where
  "has_artifact a i \<longleftrightarrow> i \<in> set (ea_allowed a)"

definition unknown_evidence :: "string \<Rightarrow> error" where
  "unknown_evidence i = Format ''unknown evidence artifact %q'' [StrArg i]"

definition access_source :: "evidence_access \<Rightarrow> string \<Rightarrow> error + string" where
  "access_source a i =
     (if \<not> has_artifact a i then Inl (unknown_evidence i)
      else case record_of (ea_registry a) i of
        Inl e \<Rightarrow> Inl e
      | Inr rec \<Rightarrow>
          (if blank (rec_source rec) then Inl (Format ''evidence artifact %q has no source'' [StrArg i])
           else Inr (rec_source rec)))"

definition contains_normalized :: "'fs os \<Rightarrow> 'fs \<Rightarrow> evidence_access \<Rightarrow> string \<Rightarrow> string \<Rightarrow> error + bool" where
  "contains_normalized os fs a i quote =
     (if \<not> has_artifact a i then Inl (unknown_evidence i)
      else case record_of (ea_registry a) i of
        Inl e \<Rightarrow> Inl e
      | Inr rec \<Rightarrow>
     (case os_read_file os fs (rec_path rec) of
        Inl e \<Rightarrow> Inl (Format ''read evidence artifact %q: %w'' [StrArg i, TextArg e])
      | Inr content \<Rightarrow>
          (let normalized = normalize_whitespace quote
           in Inr (normalized \<noteq> [] \<and> sublist normalized (normalize_whitespace content)))))"

definition access_search ::
  "'fs os \<Rightarrow> 'x regexp \<Rightarrow> (string \<Rightarrow> string) \<Rightarrow> 'fs \<Rightarrow> evidence_access \<Rightarrow> string \<Rightarrow> string \<Rightarrow> bool \<Rightarrow> int \<Rightarrow> int \<Rightarrow>
   error + search_result" where
  "access_search os rx sha fs a i pattern case_sensitive max_matches context =
     (if \<not> has_artifact a i then Inl (unknown_evidence i)
      else search_artifact os rx sha fs (ea_registry a) i pattern case_sensitive max_matches context)"

lemma allow_evidence_Inr:
  "allow_evidence r is allowed = Inr allowed' \<Longrightarrow>
   set allowed' = set allowed \<union> {i \<in> set is. has_purpose r i PurposeEvidence} \<and> list_all (\<lambda>i. is_ok (record_of r i)) is"
  by (induction r "is" allowed rule: allow_evidence.induct) (auto split: sum.splits if_splits)

lemma new_evidence_access_Inr:
  "new_evidence_access r is = Inr a \<Longrightarrow>
   ea_registry a = r \<and> (has_artifact a i \<longleftrightarrow> i \<in> set is \<and> has_purpose r i PurposeEvidence)"
  by (cases "allow_evidence r is []") (auto simp: new_evidence_access_def has_artifact_def dest: allow_evidence_Inr)

section \<open>What a match says is so\<close>

lemma takeWhile_append_all: "list_all P xs \<Longrightarrow> list_all (\<lambda>y. \<not> P y) ys \<Longrightarrow> takeWhile P (xs @ ys) = xs"
  by (cases ys) (auto simp: list_all_iff takeWhile_tail)

lemma sort_search_split:
  "list_all (\<lambda>x. \<not> p x) xs \<Longrightarrow> list_all p ys \<Longrightarrow> sort_search p (xs @ ys) = int (length xs)"
  unfolding sort_search_def by (subst takeWhile_append_all) (auto simp: list_all_iff)

lemma sort_search_bounds: "0 \<le> sort_search p xs \<and> sort_search p xs \<le> int (length xs)"
  by (simp add: sort_search_def length_takeWhile_le)

lemma sort_search_before: "int i < sort_search p xs \<Longrightarrow> \<not> p (xs ! i)"
  unfolding sort_search_def using nth_mem set_takeWhileD takeWhile_nth by (metis of_nat_less_iff)

lemma sort_search_at: "i = sort_search p xs \<Longrightarrow> i < int (length xs) \<Longrightarrow> p (xs ! nat i)"
  unfolding sort_search_def using nth_length_takeWhile [of "\<lambda>x. \<not> p x" xs] by simp

lemma sort_search_in: "sort_search p xs < int (length xs) \<Longrightarrow> xs ! nat (sort_search p xs) \<in> set xs"
  by (rule nth_mem) (simp add: sort_search_def)

lemma sort_search_le_iff:
  assumes "\<And>m n. m \<le> n \<Longrightarrow> n < length xs \<Longrightarrow> p (xs ! m) \<Longrightarrow> p (xs ! n)" "k < length xs"
  shows "sort_search p xs \<le> int k \<longleftrightarrow> p (xs ! k)"
proof
  assume le: "sort_search p xs \<le> int k"
  then have "sort_search p xs < int (length xs)" using assms(2) by simp
  from sort_search_at [OF refl this] show "p (xs ! k)"
    using assms(1) [of "nat (sort_search p xs)" k] le assms(2) sort_search_bounds [of p xs] by (simp add: nat_le_iff)
next
  assume "p (xs ! k)"
  then show "sort_search p xs \<le> int k" using sort_search_before [of k p xs] by fastforce
qed

text \<open>A match of a text, against the text itself.\<close>

definition match_true :: "(string \<Rightarrow> string) \<Rightarrow> string \<Rightarrow> search_match \<Rightarrow> bool" where
  "match_true sha content m \<longleftrightarrow>
     (let normalized = fst (normalize_with_lines content) in
       sm_digest m = sha content \<and> sm_start m < sm_end m \<and>
       go_slice normalized (sm_start m) (sm_end m) = Inr (sm_matched m) \<and>
       rune_count (sm_matched m) \<le> max_match_runes \<and>
       1 \<le> sm_line m \<and> sm_line m \<le> sm_end_line m \<and>
       (\<forall>us w b e. comes_from content us w b e \<longrightarrow> b \<le> sm_start m \<and> sm_start m < e \<longrightarrow> sm_line m = source_line us) \<and>
       (\<forall>us w b e. comes_from content us w b e \<longrightarrow> b < sm_end m \<and> sm_end m \<le> e \<longrightarrow> sm_end_line m = source_line us))"

text \<open>Where the bytes of a match are in the list of lines.\<close>

lemma line_index:
  assumes n: "normalize_with_lines v = (normalized, starts)" and i: "0 \<le> i" and x: "go_index starts (sort_search (\<lambda>q. i < fst q) starts - 1) = Inr x"
  shows "x \<in> set starts" and "fst x \<le> i"
    and "comes_from v us w b e \<Longrightarrow> b \<le> i \<Longrightarrow> i < e \<Longrightarrow> snd x = source_line us"
proof -
  let ?k = "sort_search (\<lambda>q. i < fst q) starts"
  from x have k: "0 < ?k" "x = starts ! nat (?k - 1)" "?k - 1 < int (length starts)" by (auto simp: go_index_Inr)
  then show "x \<in> set starts" by simp
  have "\<not> i < fst (starts ! nat (?k - 1))" using k(1) by (intro sort_search_before) simp
  with k(2) show "fst x \<le> i" by simp
  assume src: "comes_from v us w b e" and "b \<le> i" "i < e"
  from comes_from_line [OF src n] obtain early late where
    l: "starts = early @ late" "early \<noteq> []" "snd (last early) = source_line us"
      "list_all (\<lambda>p. fst p \<le> b) early" "list_all (\<lambda>p. e \<le> fst p) late"
    by blast
  have "?k = int (length early)"
    unfolding l(1) using l(4,5) \<open>b \<le> i\<close> \<open>i < e\<close> by (intro sort_search_split) (auto simp: list_all_iff)
  with k(2) l(1-3) show "snd x = source_line us"
    by (cases early rule: rev_cases) (auto simp: nth_append)
qed

lemma end_line_index:
  assumes n: "normalize_with_lines v = (normalized, starts)" and j: "0 < j" and x: "go_index starts (max 0 (sort_search (\<lambda>q. j \<le> fst q) starts - 1)) = Inr x"
  shows "x \<in> set starts"
    and "comes_from v us w b e \<Longrightarrow> b < j \<Longrightarrow> j \<le> e \<Longrightarrow> snd x = source_line us"
proof -
  let ?k = "sort_search (\<lambda>q. j \<le> fst q) starts"
  from x have k: "x = starts ! nat (max 0 (?k - 1))" "max 0 (?k - 1) < int (length starts)" by (auto simp: go_index_Inr)
  have "nat (max 0 (?k - 1)) < length starts" using k(2) by linarith
  then show "x \<in> set starts" unfolding k(1) by (rule nth_mem)
  assume src: "comes_from v us w b e" and "b < j" "j \<le> e"
  from comes_from_line [OF src n] obtain early late where
    l: "starts = early @ late" "early \<noteq> []" "snd (last early) = source_line us"
      "list_all (\<lambda>p. fst p \<le> b) early" "list_all (\<lambda>p. e \<le> fst p) late"
    by blast
  have "?k = int (length early)"
    unfolding l(1) using l(4,5) \<open>b < j\<close> \<open>j \<le> e\<close> by (intro sort_search_split) (auto simp: list_all_iff)
  with k(1) l(1-3) show "snd x = source_line us"
    by (cases early rule: rev_cases) (auto simp: nth_append)
qed

lemma starts_mono:
  "normalize_with_lines v = (normalized, starts) \<Longrightarrow> i \<le> j \<Longrightarrow> j < length starts \<Longrightarrow>
   fst (starts ! i) \<le> fst (starts ! j) \<and> snd (starts ! i) \<le> snd (starts ! j)"
  using normalized_starts(1) [of v normalized starts]
  by (cases "i = j") (auto simp: sorted_wrt_iff_nth_less less_imp_le)

lemma sort_search_mono:
  assumes "\<And>x. x \<in> set xs \<Longrightarrow> q x \<Longrightarrow> p x"
  shows "sort_search p xs \<le> sort_search q xs"
proof -
  have "prefix (takeWhile (\<lambda>x. \<not> p x) xs) (takeWhile (\<lambda>x. \<not> q x) xs)" using assms by (induction xs) auto
  then show ?thesis by (simp add: sort_search_def prefix_length_le)
qed

text \<open>A match always has a line, and the range of lines around it starts before it and ends after its first byte.\<close>

lemma line_index_total:
  assumes n: "normalize_with_lines v = (normalized, starts)" and i: "0 \<le> i" "i < int (length normalized)"
  shows "\<exists>x. go_index starts (sort_search (\<lambda>q. i < fst q) starts - 1) = Inr x"
    and "\<exists>x. go_index starts (max 0 (sort_search (\<lambda>q. i < fst q) starts - 1)) = Inr x"
    and "\<exists>x. go_index starts (max 0 (sort_search (\<lambda>q. i \<le> fst q) starts - 1)) = Inr x"
proof -
  have ne: "starts \<noteq> []" using normalized_starts(3) [OF n] i by auto
  have "0 < sort_search (\<lambda>q. i < fst q) starts"
    using ne normalized_starts(4) [OF n] i(1) by (cases starts) (auto simp: sort_search_def)
  moreover note sort_search_bounds [of "\<lambda>q. i < fst q" starts] sort_search_bounds [of "\<lambda>q. i \<le> fst q" starts]
  ultimately show "\<exists>x. go_index starts (sort_search (\<lambda>q. i < fst q) starts - 1) = Inr x"
      "\<exists>x. go_index starts (max 0 (sort_search (\<lambda>q. i < fst q) starts - 1)) = Inr x"
      "\<exists>x. go_index starts (max 0 (sort_search (\<lambda>q. i \<le> fst q) starts - 1)) = Inr x"
    using ne by (auto simp: go_index_def)
qed

lemma line_range_around:
  assumes n: "normalize_with_lines v = (normalized, starts)" and i: "0 \<le> i" "i < int (length normalized)"
    and x: "go_index starts (sort_search (\<lambda>q. i < fst q) starts - 1) = Inr x" and ab: "a \<le> snd x" "snd x \<le> b"
    and r: "normalized_line_range starts a b (int (length normalized)) = (s, e)"
  shows "s \<le> i" "i < e" "rune_offset normalized s" "rune_offset normalized e"
proof -
  let ?k = "sort_search (\<lambda>q. i < fst q) starts" and ?p = "sort_search (\<lambda>q. a \<le> snd q) starts" and ?q = "sort_search (\<lambda>q. b < snd q) starts"
  have k: "x = starts ! nat (?k - 1)" "0 < ?k" "?k - 1 < int (length starts)" using x by (auto simp: go_index_Inr)
  have off: "list_all (\<lambda>p. rune_offset normalized (fst p)) starts" by (rule starts_offsets [OF n])
  have "rune_offset normalized (int (length normalized))" using normalized_valid [OF n] by (rule rune_offset_end)
  have s: "s = (if ?p < int (length starts) then fst (starts ! nat ?p) else int (length normalized))"
    and e: "e = (if ?q < int (length starts) then fst (starts ! nat ?q) else int (length normalized))"
    using r by (auto simp: normalized_line_range_def Let_def case_prod_unfold)
  show "rune_offset normalized s" "rune_offset normalized e"
    using off \<open>rune_offset normalized (int (length normalized))\<close> by (auto simp: s e list_all_iff intro: sort_search_in)
  have "\<not> ?k - 1 < ?p"
    using sort_search_before [of "nat (?k - 1)" "\<lambda>q. a \<le> snd q" starts] k ab(1) by auto
  then have p: "?p \<le> ?k - 1" by simp
  then have "fst (starts ! nat ?p) \<le> fst x"
    using starts_mono [OF n, of "nat ?p" "nat (?k - 1)"] k by (simp add: nat_mono nat_less_iff)
  also have "fst x \<le> i" by (rule line_index(2) [OF n i(1) x])
  finally show "s \<le> i" using p k by (simp add: s)
  have "?k \<le> ?q"
  proof (rule ccontr)
    assume "\<not> ?k \<le> ?q"
    then have q: "?q \<le> ?k - 1" "?q < int (length starts)" using k by auto
    have "b < snd (starts ! nat ?q)" by (rule sort_search_at [OF refl q(2)])
    also have "\<dots> \<le> snd x" using starts_mono [OF n, of "nat ?q" "nat (?k - 1)"] k q sort_search_bounds [of "\<lambda>q. b < snd q" starts]
      by (simp add: nat_mono nat_less_iff)
    finally show False using ab(2) by simp
  qed
  show "i < e"
  proof (cases "?q < int (length starts)")
    case True
    with \<open>?k \<le> ?q\<close> have "?k < int (length starts)" by simp
    then have "i < fst (starts ! nat ?k)" by (rule sort_search_at [OF refl])
    also have "\<dots> \<le> fst (starts ! nat ?q)" using starts_mono [OF n, of "nat ?k" "nat ?q"] k True \<open>?k \<le> ?q\<close>
      by (simp add: nat_mono nat_less_iff)
    finally show ?thesis using True by (simp add: e)
  qed (use i(2) in \<open>simp add: e\<close>)
qed

lemma rune_span_offsets:
  "rune_span s (i, j) \<Longrightarrow> rune_offset s i \<and> rune_offset s j \<and> i \<le> j"
  by (auto simp: rune_span_def rune_offset_def valid_utf8_append nat_int_add simp flip: append_assoc)

text \<open>What \<open>match_at\<close> returns is true of the text, whatever the number of context lines.\<close>

lemma match_at_true:
  assumes n: "normalize_with_lines v = (normalized, starts)" and span: "rune_span normalized (i, j)" "i < j"
    and short: "check_match normalized (i, j) = Inr u" and m: "match_at normalized starts (sha v) context (i, j) = Inr m"
  shows "match_true sha v m" and "sm_start m = i" and "sm_end m = j"
proof -
  have ij: "0 \<le> i" "j \<le> int (length normalized)" using rune_span_offsets [OF span(1)] by (auto simp: rune_offset_def)
  from m obtain x y where x: "go_index starts (sort_search (\<lambda>q. i < fst q) starts - 1) = Inr x"
    and y: "go_index starts (max 0 (sort_search (\<lambda>q. j \<le> fst q) starts - 1)) = Inr y"
    and f: "sm_line m = snd x" "sm_end_line m = snd y" "go_slice normalized i j = Inr (sm_matched m)"
      "sm_digest m = sha v" and f': "sm_start m = i" "sm_end m = j"
    by (auto simp: match_at_def Let_def split: sum.splits)
  then show "sm_start m = i" "sm_end m = j" by simp_all
  have j: "0 < j" using ij(1) span(2) by simp
  have "rune_count (sm_matched m) \<le> max_match_runes" using short f(3) by (auto simp: check_match_def split: if_splits)
  moreover have "1 \<le> snd x" by (rule lines_bounded(1) [OF n line_index(1) [OF n ij(1) x]])
  moreover have "snd x \<le> snd y"
  proof -
    have "sort_search (\<lambda>q. i < fst q) starts \<le> sort_search (\<lambda>q. j \<le> fst q) starts"
      using span(2) by (intro sort_search_mono) auto
    with x y show ?thesis
      using starts_mono [OF n, of "nat (sort_search (\<lambda>q. i < fst q) starts - 1)" "nat (max 0 (sort_search (\<lambda>q. j \<le> fst q) starts - 1))"]
      by (auto simp: go_index_Inr nat_less_iff)
  qed
  moreover have "snd x = source_line us" if "comes_from v us w b e" "b \<le> i \<and> i < e" for us w b e
    using line_index(3) [OF n ij(1) x that(1)] that(2) by blast
  moreover have "snd y = source_line us" if "comes_from v us w b e" "b < j \<and> j \<le> e" for us w b e
    using end_line_index(2) [OF n j y that(1)] that(2) by blast
  ultimately show "match_true sha v m" using f f' span(2) by (simp add: match_true_def n)
qed

text \<open>
  With a sound number of context lines, a match is returned, and its excerpt shows it, if the match
  ends within the lines around its first line. If it ends later, the excerpt is cut short; and if
  those lines have more than 4000 runes then, the search panics.
\<close>

definition around_match :: "string \<Rightarrow> int \<Rightarrow> search_match \<Rightarrow> int \<times> int" where
  "around_match v context m =
     (let (normalized, starts) = normalize_with_lines v
      in normalized_line_range starts (max 1 (sm_line m - context)) (sm_line m + context) (int (length normalized)))"

lemma match_at_outcome:
  assumes n: "normalize_with_lines v = (normalized, starts)" and span: "rune_span normalized (i, j)" "i < j"
    and short: "check_match normalized (i, j) = Inr u" and c: "0 \<le> context" "int (length v) + context < max_int"
    and x: "go_index starts (sort_search (\<lambda>q. i < fst q) starts - 1) = Inr x"
    and r: "normalized_line_range starts (max 1 (snd x - context)) (snd x + context) (int (length normalized)) = (s, e)"
  shows "\<exists>around. go_slice normalized s e = Inr around \<and>
    (j \<le> e \<or> rune_count around \<le> max_excerpt_runes \<longrightarrow>
      (\<exists>m. match_at normalized starts digest context (i, j) = Inr m \<and> sublist (sm_excerpt m) around \<and>
         rune_count (sm_excerpt m) \<le> max_excerpt_runes \<and> (j \<le> e \<longrightarrow> sublist (sm_matched m) (sm_excerpt m)))) \<and>
    (\<not> (j \<le> e \<or> rune_count around \<le> max_excerpt_runes) \<longrightarrow>
      match_at normalized starts digest context (i, j) = Inl panic_slice_bounds)"
proof -
  note off = rune_span_offsets [OF span(1)]
  then have ij: "0 \<le> i" "j \<le> int (length normalized)" by (auto simp: rune_offset_def)
  have line: "1 \<le> snd x" "snd x \<le> 1 + int (length v)"
    using lines_bounded [OF n line_index(1) [OF n ij(1) x]] by auto
  then have wrap: "wrap_int (snd x - context) = snd x - context" "wrap_int (snd x + context) = snd x + context"
    using c by (auto intro!: wrap_int_idle simp: min_int_def max_int_def)
  have i: "i < int (length normalized)" using span(2) ij(2) by simp
  have "max 1 (snd x - context) \<le> snd x" "snd x \<le> snd x + context" using line c(1) by auto
  note range = line_range_around [OF n ij(1) i x this r]
  have "s \<le> e" using range(1,2) by simp
  from rune_offsets_split [OF normalized_valid [OF n] range(3,4) this] obtain pre around post where
    p: "normalized = pre @ around @ post" "valid_utf8 pre" "valid_utf8 around" "int (length pre) = s" "int (length around) = e - s"
      "go_slice normalized s e = Inr around"
    by blast
  have "\<exists>y. go_index starts (max 0 (sort_search (\<lambda>q. j \<le> fst q) starts - 1)) = Inr y"
  proof (cases "j = int (length normalized)")
    case False
    with ij span(2) line_index_total(3) [OF n, of j] show ?thesis by simp
  next
    case True
    have "list_all (\<lambda>q. \<not> j \<le> fst q) starts" using normalized_starts(2) [OF n] True by (auto simp: list_all_iff)
    then have "sort_search (\<lambda>q. j \<le> fst q) starts = int (length starts)"
      using sort_search_split [of "\<lambda>q. j \<le> fst q" starts "[]"] by simp
    moreover have "starts \<noteq> []" using normalized_starts(3) [OF n] i ij(1) by auto
    ultimately show ?thesis by (auto simp: go_index_def)
  qed
  then obtain y where y: "go_index starts (max 0 (sort_search (\<lambda>q. j \<le> fst q) starts - 1)) = Inr y" ..
  from rune_offsets_split [OF normalized_valid [OF n], of i j] off obtain matched where matched: "go_slice normalized i j = Inr matched"
    by blast
  let ?x = "bounded_excerpt around (i - s) (j - s)"
  have result: "match_at normalized starts digest context (i, j) =
      map_sum id (\<lambda>t. \<lparr>sm_quote_ref = [], sm_submit_ready = False, sm_line = snd x, sm_end_line = snd y, sm_matched = matched,
        sm_excerpt = t, sm_digest = digest, sm_start = i, sm_end = j\<rparr>) ?x"
    by (simp add: match_at_def x y wrap r matched p(6) Let_def split: sum.split)
  show ?thesis
  proof (rule exI [of _ around], intro conjI impI)
    show "go_slice normalized s e = Inr around" by (rule p(6))
  next
    assume *: "j \<le> e \<or> rune_count around \<le> max_excerpt_runes"
    have "\<exists>t. ?x = Inr t \<and> sublist t around \<and> rune_count t \<le> max_excerpt_runes \<and> (j \<le> e \<longrightarrow> sublist matched t)"
    proof (cases "j \<le> e")
      case True
      have "rune_offset around (i - s)" "rune_offset around (j - s)"
        using rune_offset_slice [OF p(2), of around post] off p(1,4,5) range(1) span(2) True by auto
      from rune_offsets_split [OF p(3) this] span(2) obtain b y c where b: "around = b @ y @ c" "valid_utf8 b" "valid_utf8 y" "valid_utf8 c"
          "int (length b) = i - s" "int (length y) = j - i" "go_slice around (i - s) (j - s) = Inr y"
        by auto
      have "y = matched" using go_slice_slice [of pre i j around post] p(1,4,5) range(1) True matched b(7) by simp
      moreover have "rune_count matched \<le> max_match_runes" using short matched by (auto simp: check_match_def split: if_splits)
      moreover have "i - s = int (length b)" "j - s = int (length b + length y)" using b(5,6) by simp_all
      ultimately show ?thesis using bounded_excerpt_window [OF b(1-4)] by auto
    next
      case False
      with * have "?x = Inr around" by (simp add: bounded_excerpt_def range_runes_length)
      with False * show ?thesis by simp
    qed
    then show "\<exists>m. match_at normalized starts digest context (i, j) = Inr m \<and> sublist (sm_excerpt m) around \<and>
         rune_count (sm_excerpt m) \<le> max_excerpt_runes \<and> (j \<le> e \<longrightarrow> sublist (sm_matched m) (sm_excerpt m))"
      using result by auto
  next
    assume *: "\<not> (j \<le> e \<or> rune_count around \<le> max_excerpt_runes)"
    have "?x = Inl panic_slice_bounds"
    proof -
      have "go_slice around 0 (i - s) \<noteq> Inl f" for f using p(5) range(1,2) by (simp add: go_slice_def)
      moreover have "go_slice around (i - s) (j - s) = Inl panic_slice_bounds" using * p(5) by (simp add: go_slice_def)
      moreover have "go_slice around 0 (i - s) = Inl f \<Longrightarrow> f = panic_slice_bounds" for f by (auto simp: go_slice_def split: if_splits)
      ultimately show ?thesis using * by (simp add: bounded_excerpt_def range_runes_length split: sum.split)
    qed
    then show "match_at normalized starts digest context (i, j) = Inl panic_slice_bounds" using result by simp
  qed
qed

section \<open>What a search returns\<close>

lemma check_match_Inr: "check_match s p = Inr u \<Longrightarrow> fst p \<noteq> snd p"
  by (auto simp: check_match_def)

definition excerpt_true :: "string \<Rightarrow> int \<Rightarrow> search_match \<Rightarrow> bool" where
  "excerpt_true content context m \<longleftrightarrow>
     sublist (sm_excerpt m) (fst (normalize_with_lines content)) \<and>
     rune_count (sm_excerpt m) \<le> max_excerpt_runes \<and>
     (sm_end m \<le> snd (around_match content context m) \<longrightarrow> sublist (sm_matched m) (sm_excerpt m))"

lemma match_at_excerpt:
  assumes n: "normalize_with_lines v = (normalized, starts)" and span: "rune_span normalized (i, j)" "i < j"
    and short: "check_match normalized (i, j) = Inr u" and c: "0 \<le> context" "int (length v) + context < max_int"
    and m: "match_at normalized starts digest context (i, j) = Inr m"
  shows "excerpt_true v context m"
proof -
  from m obtain x where x: "go_index starts (sort_search (\<lambda>q. i < fst q) starts - 1) = Inr x" and f: "sm_line m = snd x" "sm_end m = j"
    by (auto simp: match_at_def Let_def split: sum.splits)
  obtain s e where r: "normalized_line_range starts (max 1 (snd x - context)) (snd x + context) (int (length normalized)) = (s, e)"
    by force
  from match_at_outcome [OF n span short c x r, of digest] m obtain around where
    a: "go_slice normalized s e = Inr around" "sublist (sm_excerpt m) around" "rune_count (sm_excerpt m) \<le> max_excerpt_runes"
      "j \<le> e \<longrightarrow> sublist (sm_matched m) (sm_excerpt m)"
    by auto
  have "sublist around normalized" using go_slice_parts [OF a(1)] by (auto simp: sublist_def)
  with a f r show ?thesis
    by (auto simp: excerpt_true_def around_match_def n intro: sublist_order.order_trans)
qed

lemma search_text_Inr:
  assumes rx: "regexp_ok rx" and res: "search_text rx sha content pattern case_sensitive max_matches context = Inr res"
  shows "list_all (match_true sha content) (sr_matches res)" and "int (length (sr_matches res)) \<le> max_matches"
    and "0 \<le> context \<Longrightarrow> int (length content) + context < max_int \<Longrightarrow> list_all (excerpt_true content context) (sr_matches res)"
proof -
  obtain normalized starts where n: "normalize_with_lines content = (normalized, starts)" by force
  let ?found = "\<lambda>x. rx_find_all rx x normalized (wrap_int (max_matches + 1))"
  from res n obtain x kept where
    ok: "is_ok (all_ok (check_match normalized) (?found x))"
    and kept: "(if int (length (?found x)) > max_matches then go_slice (?found x) 0 max_matches else Inr (?found x)) = Inr kept"
    and ms: "all_ok (match_at normalized starts (sha content) context) kept = Inr (sr_matches res)"
    by (fastforce simp: search_text_def Let_def is_ok_iff split: sum.splits if_splits)
  define indices where ix: "indices = ?found x"
  note ok = ok [folded ix] and kept = kept [folded ix]
  have len: "int (length kept) \<le> max_matches" and sub: "set kept \<subseteq> set indices"
    using kept by (auto simp: go_slice_def split: if_splits dest: in_set_takeD)
  have all: "rune_span normalized p \<and> fst p < snd p \<and> (\<exists>u. check_match normalized p = Inr u)" if "p \<in> set kept" for p
  proof -
    have p: "p \<in> set indices" using that sub by blast
    then have span: "rune_span normalized p" using rx normalized_valid [OF n] unfolding regexp_ok_def ix list_all_iff by blast
    from ok obtain us where us: "all_ok (check_match normalized) indices = Inr us" by (auto simp: is_ok_iff)
    from all_ok_each(1) [OF us p] obtain u where u: "check_match normalized p = Inr u" ..
    have "fst p \<le> snd p" using rune_span_offsets [of normalized "fst p" "snd p"] span by simp
    with span u check_match_Inr [OF u] show ?thesis by auto
  qed
  have both: "list_all2 (\<lambda>p m. match_at normalized starts (sha content) context p = Inr m) kept (sr_matches res)"
    using ms by (simp add: all_ok_Inr)
  show "int (length (sr_matches res)) \<le> max_matches" using len list_all2_lengthD [OF both] by simp
  have from_kept: "\<exists>i j u. match_at normalized starts (sha content) context (i, j) = Inr m \<and> rune_span normalized (i, j) \<and> i < j \<and> check_match normalized (i, j) = Inr u"
    if m: "m \<in> set (sr_matches res)" for m
  proof -
    from all_ok_each(2) [OF ms m] obtain p where "p \<in> set kept" "match_at normalized starts (sha content) context p = Inr m" by blast
    with all [of p] show ?thesis by (cases p) auto
  qed
  show "list_all (match_true sha content) (sr_matches res)"
    unfolding list_all_iff using from_kept match_at_true(1) [OF n] by blast
  assume "0 \<le> context" "int (length content) + context < max_int"
  then show "list_all (excerpt_true content context) (sr_matches res)"
    unfolding list_all_iff using from_kept match_at_excerpt [OF n] by blast
qed

text \<open>Without panics, a search ends in matches when its pattern is sound and its matches are short.\<close>

lemma search_text_succeeds:
  assumes rx: "regexp_ok rx" and c: "0 \<le> max_matches" "0 \<le> context" "int (length content) + context < max_int"
    and n: "normalize_with_lines content = (normalized, starts)"
    and pattern: "rx_compile rx (if case_sensitive then pattern else ''(?i:'' @ pattern @ '')'') = Inr x" "\<not> rx_match rx x []"
    and ok: "is_ok (all_ok (check_match normalized) (rx_find_all rx x normalized (wrap_int (max_matches + 1))))"
    and inside: "\<And>p line s e around. p \<in> set (rx_find_all rx x normalized (wrap_int (max_matches + 1))) \<Longrightarrow>
       normalized_line_range starts (max 1 (line - context)) (line + context) (int (length normalized)) = (s, e) \<Longrightarrow>
       go_slice normalized s e = Inr around \<Longrightarrow> snd p \<le> e \<or> rune_count around \<le> max_excerpt_runes"
  shows "is_ok (search_text rx sha content pattern case_sensitive max_matches context)"
proof -
  define indices where "indices = rx_find_all rx x normalized (wrap_int (max_matches + 1))"
  obtain kept where kept: "(if int (length indices) > max_matches then go_slice indices 0 max_matches else Inr indices) = Inr kept"
      "set kept \<subseteq> set indices"
    using c(1) by (cases "int (length indices) > max_matches") (auto simp: go_slice_def dest: in_set_takeD)
  have "is_ok (all_ok (match_at normalized starts (sha content) context) kept)"
  proof (rule all_ok_total)
    fix p assume "p \<in> set kept"
    then have p: "p \<in> set indices" using kept(2) by blast
    obtain i j where ij: "p = (i, j)" by force
    have span: "rune_span normalized (i, j)"
      using rx normalized_valid [OF n] p unfolding regexp_ok_def indices_def list_all_iff ij by blast
    from ok obtain us where us: "all_ok (check_match normalized) indices = Inr us" by (auto simp: is_ok_iff indices_def)
    from all_ok_each(1) [OF us p] obtain u where short: "check_match normalized (i, j) = Inr u" by (auto simp: ij)
    then have lt: "i < j" using rune_span_offsets [OF span] check_match_Inr [OF short] by simp
    have "0 \<le> i" "i < int (length normalized)" using rune_span_offsets [OF span] lt by (auto simp: rune_offset_def)
    from line_index_total(1) [OF n this] obtain y where y: "go_index starts (sort_search (\<lambda>q. i < fst q) starts - 1) = Inr y" ..
    obtain s e where r: "normalized_line_range starts (max 1 (snd y - context)) (snd y + context) (int (length normalized)) = (s, e)"
      by force
    from match_at_outcome [OF n span lt short c(2,3) y r] inside [of p "snd y" s e] p r
    show "is_ok (match_at normalized starts (sha content) context p)" by (auto simp: ij indices_def is_ok_iff)
  qed
  then show ?thesis using n pattern ok kept(1) by (auto simp: search_text_def Let_def is_ok_iff simp flip: indices_def)
qed

section \<open>A literal pattern\<close>

text \<open>An engine whose patterns are texts, found from left to right without overlap.\<close>

fun find_runes :: "string list \<Rightarrow> nat \<Rightarrow> int \<Rightarrow> string list \<Rightarrow> (int \<times> int) list" where
  "find_runes pat skip pos [] = []"
| "find_runes pat (Suc skip) pos (w # ws) = find_runes pat skip (pos + int (length w)) ws"
| "find_runes pat 0 pos (w # ws) =
     (if pat \<noteq> [] \<and> prefix pat (w # ws)
      then (pos, pos + int (length (concat pat))) # find_runes pat (length pat - 1) (pos + int (length w)) ws
      else find_runes pat 0 (pos + int (length w)) ws)"

definition literal_regexp :: "string regexp" where
  "literal_regexp =
     \<lparr>rx_compile = Inr, rx_match = (\<lambda>x s. prefix x s),
      rx_find_all = (\<lambda>x s n. let found = find_runes (runes x) 0 0 (runes s) in if 0 \<le> n then take (nat n) found else found)\<rparr>"

lemma find_runes_spans:
  "list_all is_rune (pre @ ws) \<Longrightarrow> pos = int (length (concat pre)) \<Longrightarrow>
   list_all (rune_span (concat (pre @ ws))) (find_runes pat skip pos ws)"
proof (induction pat skip pos ws arbitrary: pre rule: find_runes.induct)
  case (2 pat skip pos w ws)
  from 2(1) [of "pre @ [w]"] 2(2,3) show ?case by simp
next
  case (3 pat pos w ws)
  have rest: "list_all (rune_span (concat (pre @ w # ws))) (find_runes pat k (pos + int (length w)) ws)"
    if "pat \<noteq> [] \<and> prefix pat (w # ws) \<Longrightarrow> k = length pat - 1" "\<not> (pat \<noteq> [] \<and> prefix pat (w # ws)) \<Longrightarrow> k = 0" for k
    using 3(1,2) [of "pre @ [w]"] 3(3,4) that by (cases "pat \<noteq> [] \<and> prefix pat (w # ws)") auto
  show ?case
  proof (cases "pat \<noteq> [] \<and> prefix pat (w # ws)")
    case True
    then obtain vs where vs: "w # ws = pat @ vs" by (auto simp: prefix_def)
    have "list_all is_rune pat" "list_all is_rune vs" using 3(3) vs by (auto simp: list_all_iff)
    then have "rune_span (concat (pre @ w # ws)) (pos, pos + int (length (concat pat)))"
      unfolding rune_span_def vs using 3(3,4)
      by (intro exI [of _ "concat pre"] exI [of _ "concat pat"] exI [of _ "concat vs"]) (auto intro: valid_utf8_concat)
    with rest [of "length pat - 1"] True show ?thesis by simp
  qed (use rest [of 0] in auto)
qed simp

lemma literal_regexp_ok: "regexp_ok literal_regexp"
proof -
  have "list_all (rune_span s) (find_runes p 0 0 (runes s))" if "valid_utf8 s" for s p
    using find_runes_spans [of "[]" "runes s" 0 p 0] that by (simp add: valid_utf8_def concat_runes)
  then show ?thesis by (auto simp: regexp_ok_def literal_regexp_def Let_def list_all_iff dest: in_set_takeD)
qed

section \<open>Searches that panic\<close>

text \<open>
  A match that starts at the end of a long line and goes on in the next is past the end of its excerpt, and the
  search panics: here a first line of 4000 runes or more without blanks, then a line \<open>b\<close>, and a match from the last
  byte of the first line to the end of the second.
\<close>

lemma norm_fold_line:
  "list_all (\<lambda>w. \<not> is_space_rune w) ws \<Longrightarrow> \<not> norm_pending s \<Longrightarrow> norm_line s = norm_last s \<Longrightarrow>
   fold norm_rune ws s = s\<lparr>norm_out := norm_out s @ concat ws\<rparr>"
proof (induction ws arbitrary: s)
  case (Cons w ws)
  have "\<not> is_space_rune w" "w \<noteq> [CHR 0x0A]" using Cons.prems newline_is_space by (auto simp: newline_rune_def)
  then have "norm_rune w s = s\<lparr>norm_out := norm_out s @ w\<rparr>" using Cons.prems by (simp add: norm_rune_def)
  with Cons.IH [of "s\<lparr>norm_out := norm_out s @ w\<rparr>"] Cons.prems show ?case by simp
qed simp

lemma long_line_normalized:
  assumes line: "list_all (\<lambda>w. is_rune w \<and> \<not> is_space_rune w) (w # ws)"
  shows "normalize_with_lines (concat (w # ws) @ [CHR 0x0A, CHR ''b'']) =
         (concat (w # ws) @ '' b'', [(0, 1), (int (length (concat (w # ws))) + 1, 2)])"
proof -
  let ?vs = "(w # ws) @ [[CHR 0x0A], [CHR ''b'']]"
  have ascii: "is_rune [CHR 0x0A]" "is_rune [CHR ''b'']" "is_space_rune [CHR 0x0A]" "\<not> is_space_rune [CHR ''b'']" by code_simp+
  have ok: "list_all is_rune ?vs" using line ascii by (auto simp: list_all_iff)
  have eq: "concat (w # ws) @ [CHR 0x0A, CHR ''b''] = concat ?vs" by simp
  have runes: "range_runes (concat (w # ws) @ [CHR 0x0A, CHR ''b'']) = ?vs"
    unfolding eq range_runes_valid [OF valid_utf8_concat [OF ok]] runes_concat [OF ok] ..
  have w: "w \<noteq> []" "w \<noteq> [CHR 0x0A]" using line ascii(3) by (auto simp: is_rune_def)
  define s1 where "s1 = norm_rune w norm_init"
  have s1: "norm_out s1 = w" "norm_starts s1 = [(0, 1)]" "norm_line s1 = 1" "norm_last s1 = 1" "\<not> norm_pending s1"
    using line w by (auto simp: s1_def norm_rune_def norm_init_def Let_def)
  have "list_all (\<lambda>w. \<not> is_space_rune w) ws" using line by (simp add: list_all_iff)
  from norm_fold_line [OF this, of s1] s1 have "fold norm_rune ws s1 = s1\<lparr>norm_out := w @ concat ws\<rparr>" by simp
  then have "norm_run ?vs = norm_rune [CHR ''b''] (norm_rune [CHR 0x0A] (s1\<lparr>norm_out := w @ concat ws\<rparr>))"
    by (simp add: norm_run_def s1_def)
  then show ?thesis
    unfolding normalize_with_lines_def runes using s1 w ascii by (simp add: norm_rune_def Let_def)
qed

lemma long_line_panics:
  assumes line: "list_all (\<lambda>w. is_rune w \<and> \<not> is_space_rune w) (w # ws)" and long: "4000 \<le> length (w # ws)"
    and n: "normalize_with_lines (concat (w # ws) @ [CHR 0x0A, CHR ''b'']) = (normalized, starts)"
  shows "match_at normalized starts digest 0 (int (length (concat (w # ws))) - 1, int (length (concat (w # ws))) + 2) = Inl panic_slice_bounds"
proof -
  define t where "t = concat (w # ws)"
  let ?k = "int (length t)"
  have nn: "normalized = t @ '' b''" "starts = [(0, 1), (?k + 1, 2)]"
    using n unfolding long_line_normalized [OF line] by (auto simp: t_def)
  have k: "0 < ?k" using line by (cases w) (auto simp: is_rune_def t_def)
  have i: "go_index starts (sort_search (\<lambda>q. ?k - 1 < fst q) starts - 1) = Inr (0, 1)"
    using k by (auto simp: nn(2) sort_search_def go_index_def)
  have j: "go_index starts (max 0 (sort_search (\<lambda>q. ?k + 2 \<le> fst q) starts - 1)) = Inr (?k + 1, 2)"
    using k by (auto simp: nn(2) sort_search_def go_index_def)
  have r: "normalized_line_range starts 1 1 (int (length normalized)) = (0, ?k + 1)"
    by (simp add: nn(2) normalized_line_range_def sort_search_def)
  have slices: "go_slice normalized (?k - 1) (?k + 2) = Inr (drop (nat (?k - 1)) normalized)" "go_slice normalized 0 (?k + 1) = Inr (t @ '' '')"
    using k by (auto simp: nn(1) go_slice_def nat_diff_distrib nat_add_distrib)
  have "list_all is_rune (w # ws)" using line by (auto simp: list_all_iff)
  then have "valid_utf8 t" "runes t = w # ws" unfolding t_def by (rule valid_utf8_concat runes_concat)+
  moreover have "runes '' '' = ['' '']" by code_simp
  ultimately have count: "rune_count (t @ '' '') = int (length (w # ws)) + 1" by (simp only: rune_count_def runes_append) simp
  have "bounded_excerpt (t @ '' '') (?k - 1) (?k + 2) = Inl panic_slice_bounds"
  proof -
    have "int (length (range_runes (t @ '' ''))) > max_excerpt_runes"
      using long by (simp only: range_runes_length count max_excerpt_runes_def)
    moreover have "go_slice (t @ '' '') 0 (?k - 1) = Inr (take (nat (?k - 1)) t)" using k by (simp add: go_slice_def nat_diff_distrib)
    moreover have "go_slice (t @ '' '') (?k - 1) (?k + 2) = Inl panic_slice_bounds" by (simp add: go_slice_def)
    ultimately show ?thesis by (simp add: bounded_excerpt_def)
  qed
  moreover have "wrap_int 1 = 1" by code_simp
  ultimately show ?thesis unfolding t_def [symmetric] match_at_def Let_def using i j r slices by simp
qed

text \<open>
  The tool does not check the bounds its schema states. A search for at most -5 matches, or with -1 lines of context, panics.
\<close>

lemma negative_arguments_panic:
  "search_text literal_regexp (\<lambda>s. s) ''one'' ''o'' True (-5) 0 = Inl panic_slice_bounds"
  "search_text literal_regexp (\<lambda>s. s) (''one'' @ [CHR 0x0A] @ ''two'') ''one'' True 5 (-1) = Inl panic_slice_bounds"
  by code_simp+

section \<open>Properties\<close>


definition searched_notes :: mem_fs where
  "searched_notes = [(''/w/out.md'', ''one'' @ [CHR 0x0A] @ ''two  words'' @ [CHR 0x0A, CHR 0x0A] @ ''end'')]"

definition sample_search :: "error + search_result" where
  "sample_search = search_artifact mem_os literal_regexp (\<lambda>s. ''d'') searched_notes sample_registry ''artifact-1'' ''words end'' True 3 1"

lemma sample_search_finds:
  "(case sample_search of Inl _ \<Rightarrow> False
    | Inr res \<Rightarrow> map (\<lambda>m. (sm_line m, sm_end_line m, sm_matched m)) (sr_matches res) = [(2, 4, ''words end'')])"
  by code_simp


end
