(* ===== verification/Quote_Registry.thy ===== *)
theory Quote_Registry
  imports Artifact_Search "HOL-Library.Multiset"
begin

text \<open>
  \<^verbatim>\<open>internal/evidence/quote.go\<close>: the registry of quotes that sessions cite. A quote is captured from a
  match of a search or expanded to whole lines of the same artifact; its reference is a hash of the
  place it was taken from. The registry is saved at the end of a phase and restored or merged on a resume.

  SHA-256 is the parameter \<open>sum256\<close>, from bytes to bytes. The two maps of the registry are an association list, as one
  of them is listed, and a map. \<^verbatim>\<open>Merge\<close> ranges over a Go map, whose order is a parameter of the model.
\<close>

section \<open>Quotes\<close>

record quote =
  qu_ref :: string
  qu_submit_ready :: bool
  qu_artifact :: string
  qu_digest :: string
  qu_title :: string
  qu_url :: string
  qu_locator :: string
  qu_exact :: string
  qu_start_line :: int
  qu_end_line :: int
  qu_start :: int
  qu_end :: int

record saved_quote =
  sq_ref :: string
  sq_submit_ready :: bool
  sq_artifact :: string
  sq_digest :: string
  sq_title :: string
  sq_url :: string
  sq_locator :: string
  sq_exact :: string
  sq_start_line :: int
  sq_end_line :: int
  sq_start :: int
  sq_end :: int

record quote_registry =
  qr_by_ref :: "(string \<times> quote) list"
  qr_by_range :: "string \<Rightarrow> string option"

definition new_quote_registry :: quote_registry where
  "new_quote_registry = \<lparr>qr_by_ref = [], qr_by_range = Map.empty\<rparr>"

definition hex_digit :: "nat \<Rightarrow> char" where
  "hex_digit n = (if n < 10 then digit_char n else char_of (87 + n))"

text \<open>The verb \<open>%x\<close> of bytes.\<close>

definition hex_string :: "string \<Rightarrow> string" where
  "hex_string s = concat (map (\<lambda>c. let n = of_char c in [hex_digit (n div 16), hex_digit (n mod 16)]) s)"

definition digest_hex :: "(string \<Rightarrow> string) \<Rightarrow> string \<Rightarrow> string" where
  "digest_hex sum256 content = hex_string (sum256 content)"

definition range_key :: "quote \<Rightarrow> string" where
  "range_key q =
     qu_artifact q @ [CHR 0x00] @ qu_digest q @ [CHR 0x00] @ show_int (qu_start q) @ [CHR 0x00] @ show_int (qu_end q)"

definition key_ref :: "(string \<Rightarrow> string) \<Rightarrow> string \<Rightarrow> string" where
  "key_ref sum256 key = ''quote-ref-'' @ hex_string (take 16 (sum256 key))"

definition line_locator :: "int \<Rightarrow> int \<Rightarrow> string" where
  "line_locator i j =
     (if i = j then ''line '' @ show_int i else ''lines '' @ show_int i @ ''-'' @ show_int j)"

definition zero_quote :: quote where
  "zero_quote =
     \<lparr>qu_ref = [], qu_submit_ready = False, qu_artifact = [], qu_digest = [], qu_title = [], qu_url = [],
      qu_locator = [], qu_exact = [], qu_start_line = 0, qu_end_line = 0, qu_start = 0, qu_end = 0\<rparr>"

section \<open>Capturing and expanding\<close>

definition resolve_quote :: "string \<Rightarrow> quote_registry \<Rightarrow> quote option" where
  "resolve_quote ref r = map_of (qr_by_ref r) (trim_space ref)"

definition store_quote :: "(string \<Rightarrow> string) \<Rightarrow> quote \<Rightarrow> quote_registry \<Rightarrow> quote \<times> quote_registry" where
  "store_quote sum256 q r =
     (let key = range_key q; ref = key_ref sum256 key
      in case qr_by_range r key of
           Some existing \<Rightarrow> (case map_of (qr_by_ref r) existing of Some old \<Rightarrow> (old, r) | None \<Rightarrow> (zero_quote, r))
         | None \<Rightarrow>
             (let q1 = q\<lparr>qu_ref := ref\<rparr>
              in (q1, r\<lparr>qr_by_ref := AList.update ref q1 (qr_by_ref r), qr_by_range := (qr_by_range r)(key \<mapsto> ref)\<rparr>)))"

definition capture_match ::
  "(string \<Rightarrow> string) \<Rightarrow> registry \<Rightarrow> string \<Rightarrow> search_match \<Rightarrow> quote_registry \<Rightarrow> (error + quote) \<times> quote_registry" where
  "capture_match sum256 artifacts i m r =
     (if sm_digest m = [] \<or> sm_start m < 0 \<or> sm_end m \<le> sm_start m
      then (Inl (Text ''quote must originate from an artifact search result''), r)
      else case record_of artifacts i of
        Inl e \<Rightarrow> (Inl e, r)
      | Inr rec \<Rightarrow>
          (let q = \<lparr>qu_ref = [], qu_submit_ready = True, qu_artifact = i, qu_digest = sm_digest m,
                    qu_title = rec_description rec, qu_url = rec_source rec,
                    qu_locator = line_locator (sm_line m) (sm_end_line m), qu_exact = sm_matched m,
                    qu_start_line = sm_line m, qu_end_line = sm_end_line m,
                    qu_start = sm_start m, qu_end = sm_end m\<rparr>
           in apfst Inr (store_quote sum256 q r)))"

definition max_quote_runes :: int where "max_quote_runes = 12000"

text \<open>The quote of whole lines of the content of an artifact around a quote of it.\<close>

definition expand_text :: "quote \<Rightarrow> string \<Rightarrow> int \<Rightarrow> int \<Rightarrow> error + quote" where
  "expand_text base content before_lines after_lines =
     (let (normalized, starts) = normalize_with_lines content
      in case go_index starts (int (length starts) - 1) of
           Inl e \<Rightarrow> Inl e
         | Inr final \<Rightarrow>
     (let start_line = max 1 (wrap_int (qu_start_line base - before_lines));
          end_line = min (wrap_int (qu_end_line base + after_lines)) (snd final);
          (i, j) = normalized_line_range starts start_line end_line (int (length normalized))
      in if i \<ge> j then Inl (Text ''expanded quote is empty'')
         else case go_slice normalized i j of
           Inl e \<Rightarrow> Inl e
         | Inr t \<Rightarrow>
     (let exact = trim_space t
      in if rune_count exact > max_quote_runes
         then Inl (Format ''expanded quote exceeds maximum %d characters'' [IntArg max_quote_runes])
         else Inr \<lparr>qu_ref = [], qu_submit_ready = True, qu_artifact = qu_artifact base, qu_digest = qu_digest base,
                   qu_title = qu_title base, qu_url = qu_url base,
                   qu_locator = line_locator start_line end_line, qu_exact = exact,
                   qu_start_line = start_line, qu_end_line = end_line, qu_start = i, qu_end = j\<rparr>)))"

definition expand_quote ::
  "'fs os \<Rightarrow> (string \<Rightarrow> string) \<Rightarrow> 'fs \<Rightarrow> registry \<Rightarrow> string \<Rightarrow> int \<Rightarrow> int \<Rightarrow> quote_registry \<Rightarrow>
   (error + quote) \<times> quote_registry" where
  "expand_quote os sum256 fs artifacts ref before_lines after_lines r =
     (if before_lines < 0 \<or> after_lines < 0 \<or> before_lines > 20 \<or> after_lines > 20
      then (Inl (Text ''quote context lines must be between 0 and 20''), r)
      else case resolve_quote ref r of
        None \<Rightarrow> (Inl (Format ''unknown quote reference %q'' [StrArg ref]), r)
      | Some base \<Rightarrow>
     (case record_of artifacts (qu_artifact base) of
        Inl e \<Rightarrow> (Inl e, r)
      | Inr rec \<Rightarrow>
     (case os_read_file os fs (rec_path rec) of
        Inl e \<Rightarrow> (Inl (Format ''read evidence artifact %q: %w'' [StrArg (qu_artifact base), TextArg e]), r)
      | Inr content \<Rightarrow>
     (if digest_hex sum256 content \<noteq> qu_digest base
      then (Inl (Format ''artifact changed after quote %q was captured'' [StrArg ref]), r)
      else case expand_text base content before_lines after_lines of
        Inl e \<Rightarrow> (Inl e, r)
      | Inr q \<Rightarrow> apfst Inr (store_quote sum256 q r)))))"

definition capture_with_context ::
  "'fs os \<Rightarrow> (string \<Rightarrow> string) \<Rightarrow> 'fs \<Rightarrow> registry \<Rightarrow> string \<Rightarrow> search_match \<Rightarrow> int \<Rightarrow> int \<Rightarrow> quote_registry \<Rightarrow>
   (error + quote) \<times> quote_registry" where
  "capture_with_context os sum256 fs artifacts i m before_lines after_lines r =
     (case capture_match sum256 artifacts i m r of
        (Inl e, r1) \<Rightarrow> (Inl e, r1)
      | (Inr base, r1) \<Rightarrow>
          (if before_lines = 0 \<and> after_lines = 0 then (Inr base, r1)
           else expand_quote os sum256 fs artifacts (qu_ref base) before_lines after_lines r1))"

text \<open>The loop of the search tools over the matches; the first error ends it.\<close>

fun capture_all ::
  "'fs os \<Rightarrow> (string \<Rightarrow> string) \<Rightarrow> 'fs \<Rightarrow> registry \<Rightarrow> int \<Rightarrow> (string \<times> search_match) list \<Rightarrow> quote_registry \<Rightarrow>
   (error + (string \<times> search_match) list) \<times> quote_registry" where
  "capture_all os sum256 fs artifacts context [] r = (Inr [], r)"
| "capture_all os sum256 fs artifacts context ((i, m) # ms) r =
     (case capture_with_context os sum256 fs artifacts i m context context r of
        (Inl e, r1) \<Rightarrow> (Inl e, r1)
      | (Inr q, r1) \<Rightarrow>
          apfst (map_sum id (Cons (i, m\<lparr>sm_quote_ref := qu_ref q, sm_submit_ready := qu_submit_ready q\<rparr>)))
            (capture_all os sum256 fs artifacts context ms r1))"

section \<open>Checkpoints\<close>

definition save_quote :: "quote \<Rightarrow> saved_quote" where
  "save_quote q =
     \<lparr>sq_ref = qu_ref q, sq_submit_ready = qu_submit_ready q, sq_artifact = qu_artifact q, sq_digest = qu_digest q,
      sq_title = qu_title q, sq_url = qu_url q, sq_locator = qu_locator q, sq_exact = qu_exact q,
      sq_start_line = qu_start_line q, sq_end_line = qu_end_line q, sq_start = qu_start q, sq_end = qu_end q\<rparr>"

definition load_fields :: "saved_quote \<Rightarrow> quote" where
  "load_fields s =
     \<lparr>qu_ref = sq_ref s, qu_submit_ready = sq_submit_ready s, qu_artifact = sq_artifact s, qu_digest = sq_digest s,
      qu_title = sq_title s, qu_url = sq_url s, qu_locator = sq_locator s, qu_exact = sq_exact s,
      qu_start_line = sq_start_line s, qu_end_line = sq_end_line s, qu_start = sq_start s, qu_end = sq_end s\<rparr>"

definition load_quote :: "(string \<Rightarrow> string) \<Rightarrow> saved_quote \<Rightarrow> error + quote" where
  "load_quote sum256 s =
     (if \<not> sq_submit_ready s \<or> blank (sq_artifact s) \<or> blank (sq_digest s) \<or> blank (sq_exact s) \<or>
         sq_start_line s \<le> 0 \<or> sq_end_line s < sq_start_line s \<or> sq_start s < 0 \<or> sq_end s \<le> sq_start s
      then Inl (Text ''invalid quote snapshot'')
      else let q = load_fields s
           in if qu_ref q \<noteq> key_ref sum256 (range_key q)
              then Inl (Format ''quote reference integrity check failed for %q'' [StrArg (qu_ref q)])
              else Inr q)"

definition quote_snapshot :: "quote_registry \<Rightarrow> saved_quote list" where
  "quote_snapshot r = sort_key sq_ref (map (\<lambda>(ref, q). save_quote q) (qr_by_ref r))"

text \<open>\<^verbatim>\<open>quoteSnapshotMaps\<close>: the loop over the records, with the index it reports.\<close>

fun load_quotes :: "(string \<Rightarrow> string) \<Rightarrow> int \<Rightarrow> saved_quote list \<Rightarrow> quote_registry \<Rightarrow> error + quote_registry" where
  "load_quotes sum256 n [] r = Inr r"
| "load_quotes sum256 n (s # ss) r =
     (case load_quote sum256 s of
        Inl e \<Rightarrow> Inl (Format ''restore quote %d: %w'' [IntArg n, TextArg e])
      | Inr q \<Rightarrow>
     (if map_of (qr_by_ref r) (qu_ref q) \<noteq> None
      then Inl (Format ''restore quote %d: duplicate quote reference %q'' [IntArg n, StrArg (qu_ref q)])
      else if qr_by_range r (range_key q) \<noteq> None
      then Inl (Format ''restore quote %d: duplicate quote range'' [IntArg n])
      else load_quotes sum256 (n + 1) ss
             (r\<lparr>qr_by_ref := AList.update (qu_ref q) q (qr_by_ref r),
                qr_by_range := (qr_by_range r)(range_key q \<mapsto> qu_ref q)\<rparr>)))"

definition quote_restore ::
  "(string \<Rightarrow> string) \<Rightarrow> saved_quote list \<Rightarrow> quote_registry \<Rightarrow> error option \<times> quote_registry" where
  "quote_restore sum256 snapshot r =
     (case load_quotes sum256 0 snapshot new_quote_registry of Inl e \<Rightarrow> (Some e, r) | Inr r1 \<Rightarrow> (None, r1))"

fun merge_quotes :: "(string \<times> quote) list \<Rightarrow> quote_registry \<Rightarrow> error option \<times> quote_registry" where
  "merge_quotes [] r = (None, r)"
| "merge_quotes ((ref, q) # qs) r =
     (case map_of (qr_by_ref r) ref of
        Some existing \<Rightarrow>
          (if existing \<noteq> q then (Some (Format ''quote checkpoint conflicts with reference %q'' [StrArg ref]), r)
           else merge_quotes qs r)
      | None \<Rightarrow>
          (if (case qr_by_range r (range_key q) of None \<Rightarrow> False | Some existing \<Rightarrow> existing \<noteq> ref)
           then (Some (Text ''quote checkpoint conflicts with captured range''), r)
           else merge_quotes qs
                  (r\<lparr>qr_by_ref := AList.update ref q (qr_by_ref r),
                     qr_by_range := (qr_by_range r)(range_key q \<mapsto> ref)\<rparr>)))"

definition quote_merge ::
  "(string \<Rightarrow> string) \<Rightarrow> ((string \<times> quote) list \<Rightarrow> (string \<times> quote) list) \<Rightarrow> saved_quote list \<Rightarrow> quote_registry \<Rightarrow>
   error option \<times> quote_registry" where
  "quote_merge sum256 order snapshot r =
     (case load_quotes sum256 0 snapshot new_quote_registry of
        Inl e \<Rightarrow> (Some e, r)
      | Inr loaded \<Rightarrow> merge_quotes (order (qr_by_ref loaded)) r)"

section \<open>What a quote says is so\<close>

text \<open>Whole lines: their runes are those of the quote, no more and no less.\<close>

definition whole_lines :: "string \<Rightarrow> int \<Rightarrow> int \<Rightarrow> int \<Rightarrow> int \<Rightarrow> bool" where
  "whole_lines content first final i j \<longleftrightarrow>
     (\<forall>us w b e. comes_from content us w b e \<longrightarrow> (i \<le> b \<and> e \<le> j \<longleftrightarrow> first \<le> source_line us \<and> source_line us \<le> final))"

definition on_lines :: "string \<Rightarrow> int \<Rightarrow> int \<Rightarrow> int \<Rightarrow> int \<Rightarrow> bool" where
  "on_lines content first final i j \<longleftrightarrow>
     (\<forall>us w b e. comes_from content us w b e \<longrightarrow> b \<le> i \<and> i < e \<longrightarrow> first = source_line us) \<and>
     (\<forall>us w b e. comes_from content us w b e \<longrightarrow> b < j \<and> j \<le> e \<longrightarrow> final = source_line us)"

definition quote_true :: "(string \<Rightarrow> string) \<Rightarrow> string \<Rightarrow> quote \<Rightarrow> bool" where
  "quote_true sum256 content q \<longleftrightarrow>
     (\<exists>t. go_slice (fst (normalize_with_lines content)) (qu_start q) (qu_end q) = Inr t \<and>
        (qu_exact q = t \<and> on_lines content (qu_start_line q) (qu_end_line q) (qu_start q) (qu_end q) \<or>
         qu_exact q = trim_space t \<and> whole_lines content (qu_start_line q) (qu_end_line q) (qu_start q) (qu_end q))) \<and>
     qu_digest q = digest_hex sum256 content \<and> qu_submit_ready q \<and>
     qu_locator q = line_locator (qu_start_line q) (qu_end_line q) \<and>
     1 \<le> qu_start_line q \<and> qu_start_line q \<le> qu_end_line q \<and> 0 \<le> qu_start q \<and> qu_start q < qu_end q"

lemma line_range_whole:
  assumes n: "normalize_with_lines v = (normalized, starts)"
    and r: "normalized_line_range starts first final (int (length normalized)) = (i, j)" and ij: "i < j"
  shows "whole_lines v first final i j" and "first \<le> final"
proof -
  let ?p = "sort_search (\<lambda>q. first \<le> snd q) starts" and ?q = "sort_search (\<lambda>q. final < snd q) starts"
  have i: "i = (if ?p < int (length starts) then fst (starts ! nat ?p) else int (length normalized))"
    and j: "j = (if ?q < int (length starts) then fst (starts ! nat ?q) else int (length normalized))"
    using r by (auto simp: normalized_line_range_def Let_def case_prod_unfold)
  note bounds = sort_search_bounds [of "\<lambda>q. first \<le> snd q" starts] sort_search_bounds [of "\<lambda>q. final < snd q" starts]
  have below: "fst p \<le> int (length normalized)" if "p \<in> set starts" for p
    using normalized_starts(2) [OF n] that by (auto simp: list_all_iff)
  have pq: "?p < ?q"
  proof (rule ccontr)
    assume "\<not> ?p < ?q"
    then have "j \<le> i"
      using starts_mono [OF n, of "nat ?q" "nat ?p"] bounds below [OF sort_search_in [of "\<lambda>q. final < snd q" starts]]
      by (auto simp: i j nat_mono nat_less_iff)
    with ij show False by simp
  qed
  then have p: "?p < int (length starts)" using bounds by simp
  have "first \<le> snd (starts ! nat ?p)" by (rule sort_search_at [OF refl p])
  moreover have "\<not> final < snd (starts ! nat ?p)" using pq bounds by (intro sort_search_before) simp
  ultimately show "first \<le> final" by simp
  show "whole_lines v first final i j" unfolding whole_lines_def
  proof (intro allI impI)
    fix us w b e
    assume src: "comes_from v us w b e"
    from comes_from_line [OF src n] obtain x y early late where
      w: "normalized = x @ w @ y" "int (length x) = b" "int (length (x @ w)) = e" and
      l: "starts = early @ late" "early \<noteq> []" "snd (last early) = source_line us"
        "list_all (\<lambda>p. fst p \<le> b) early" "list_all (\<lambda>p. e \<le> fst p) late"
      by blast
    let ?k = "length early - 1"
    have k: "starts ! ?k = last early" "?k < length starts" using l(1,2) by (cases early rule: rev_cases; simp add: nth_append)+
    have be: "b < e" "e \<le> int (length normalized)"
    proof -
      have "w \<noteq> []" using src range_runes_rune [of v] by (auto simp: comes_from_def prefix_def is_rune_def)
      then show "b < e" using w(2,3) by (cases w) auto
      show "e \<le> int (length normalized)" using w(1,3) by simp
    qed
    have start: "fst (starts ! m) \<le> b \<longleftrightarrow> m \<le> ?k" "e \<le> fst (starts ! m) \<longleftrightarrow> ?k < m" if "m < length starts" for m
    proof -
      have "m \<le> ?k \<longleftrightarrow> m < length early" using l(2) by (cases early) auto
      then have "m \<le> ?k \<Longrightarrow> starts ! m \<in> set early" "?k < m \<Longrightarrow> starts ! m \<in> set late" using that l(1,2) by (auto simp: nth_append)
      with l(4,5) be(1) show "fst (starts ! m) \<le> b \<longleftrightarrow> m \<le> ?k" "e \<le> fst (starts ! m) \<longleftrightarrow> ?k < m"
        by (fastforce simp: list_all_iff)+
    qed
    have "i \<le> b \<longleftrightarrow> ?p \<le> int ?k" using p start(1) [of "nat ?p"] bounds by (auto simp: i nat_less_iff)
    also have "\<dots> \<longleftrightarrow> first \<le> snd (starts ! ?k)"
      by (rule sort_search_le_iff [OF _ k(2)]) (use starts_mono [OF n] in \<open>blast intro: order_trans\<close>)
    also have "\<dots> \<longleftrightarrow> first \<le> source_line us" using k(1) l(3) by simp
    finally have 1: "i \<le> b \<longleftrightarrow> first \<le> source_line us" .
    have "e \<le> j \<longleftrightarrow> int ?k < ?q" using start(2) [of "nat ?q"] bounds be(2) k(2) by (auto simp: j nat_less_iff)
    also have "\<dots> \<longleftrightarrow> \<not> ?q \<le> int ?k" by auto
    also have "?q \<le> int ?k \<longleftrightarrow> final < snd (starts ! ?k)"
      by (rule sort_search_le_iff [OF _ k(2)]) (use starts_mono [OF n] in \<open>blast intro: less_le_trans\<close>)
    also have "\<not> final < snd (starts ! ?k) \<longleftrightarrow> source_line us \<le> final" using k(1) l(3) by auto
    finally show "i \<le> b \<and> e \<le> j \<longleftrightarrow> first \<le> source_line us \<and> source_line us \<le> final" using 1 by blast
  qed
qed

lemma expand_text_true:
  assumes q: "expand_text base content before_lines after_lines = Inr q" and d: "qu_digest base = digest_hex sum256 content"
  shows "quote_true sum256 content q" and "qu_artifact q = qu_artifact base"
proof -
  obtain normalized starts where n: "normalize_with_lines content = (normalized, starts)" by force
  from q n obtain first final i j t where
    r: "normalized_line_range starts first final (int (length normalized)) = (i, j)" and ij: "i < j" and f: "1 \<le> first"
    and t: "go_slice normalized i j = Inr t"
    and eq: "q = \<lparr>qu_ref = [], qu_submit_ready = True, qu_artifact = qu_artifact base, qu_digest = qu_digest base,
                   qu_title = qu_title base, qu_url = qu_url base,
                   qu_locator = line_locator first final, qu_exact = trim_space t,
                   qu_start_line = first, qu_end_line = final, qu_start = i, qu_end = j\<rparr>"
    by (auto simp: expand_text_def Let_def not_le split: sum.splits prod.splits if_splits)
  show "qu_artifact q = qu_artifact base" by (simp add: eq)
  show "quote_true sum256 content q"
    using line_range_whole [OF n r ij] t f ij d by (auto simp: quote_true_def eq n go_slice_Inr)
qed

section \<open>The maps of the registry\<close>

definition quotes_consistent :: "(string \<Rightarrow> string) \<Rightarrow> quote_registry \<Rightarrow> bool" where
  "quotes_consistent sum256 r \<longleftrightarrow>
     distinct (keys (qr_by_ref r)) \<and>
     (\<forall>ref q. map_of (qr_by_ref r) ref = Some q \<longrightarrow>
        qu_ref q = ref \<and> ref = key_ref sum256 (range_key q) \<and> qr_by_range r (range_key q) = Some ref) \<and>
     (\<forall>key ref. qr_by_range r key = Some ref \<longrightarrow> (\<exists>q. map_of (qr_by_ref r) ref = Some q \<and> range_key q = key))"

lemma quotes_consistentD:
  assumes "quotes_consistent sum256 r"
  shows "distinct (keys (qr_by_ref r))"
    and "map_of (qr_by_ref r) ref = Some q \<Longrightarrow>
      qu_ref q = ref \<and> ref = key_ref sum256 (range_key q) \<and> qr_by_range r (range_key q) = Some ref"
    and "qr_by_range r key = Some ref \<Longrightarrow> \<exists>q. map_of (qr_by_ref r) ref = Some q \<and> range_key q = key"
  using assms unfolding quotes_consistent_def by blast+

lemma new_quotes_consistent: "quotes_consistent sum256 new_quote_registry"
  by (simp add: quotes_consistent_def new_quote_registry_def keys_def)

lemma range_key_ref [simp]: "range_key (q\<lparr>qu_ref := ref\<rparr>) = range_key q"
  by (simp add: range_key_def)

text \<open>A new quote under its own reference, which no other quote has.\<close>

lemma add_quote_consistent:
  assumes "quotes_consistent sum256 r" "qu_ref q = ref" "ref = key_ref sum256 (range_key q)"
    and "map_of (qr_by_ref r) ref = None" "qr_by_range r (range_key q) = None"
  shows "quotes_consistent sum256
     (r\<lparr>qr_by_ref := AList.update ref q (qr_by_ref r), qr_by_range := (qr_by_range r)(range_key q \<mapsto> ref)\<rparr>)"
proof -
  have other: "range_key p \<noteq> range_key q" if "map_of (qr_by_ref r) k = Some p" for k p
  proof -
    have "qr_by_range r (range_key p) = Some k" using quotes_consistentD(2) [OF assms(1) that] by simp
    with assms(5) show ?thesis by auto
  qed
  let ?r = "r\<lparr>qr_by_ref := AList.update ref q (qr_by_ref r), qr_by_range := (qr_by_range r)(range_key q \<mapsto> ref)\<rparr>"
  show ?thesis unfolding quotes_consistent_def
  proof (intro conjI allI impI)
    show "distinct (keys (qr_by_ref ?r))" using assms(1) by (simp add: quotes_consistent_def distinct_keys_update)
  next
    fix k p assume "map_of (qr_by_ref ?r) k = Some p"
    then consider "k = ref" "p = q" | "k \<noteq> ref" "map_of (qr_by_ref r) k = Some p" by (auto simp: update_conv' split: if_splits)
    then have "qu_ref p = k \<and> k = key_ref sum256 (range_key p) \<and> qr_by_range ?r (range_key p) = Some k"
    proof cases
      case 2
      with other [OF 2(2)] assms(1) show ?thesis by (simp add: quotes_consistent_def)
    qed (use assms(2,3) in simp)
    then show "qu_ref p = k" "k = key_ref sum256 (range_key p)" "qr_by_range ?r (range_key p) = Some k" by auto
  next
    fix key k assume k: "qr_by_range ?r key = Some k"
    show "\<exists>p. map_of (qr_by_ref ?r) k = Some p \<and> range_key p = key"
    proof (cases "key = range_key q")
      case False
      with k have "qr_by_range r key = Some k" by simp
      from quotes_consistentD(3) [OF assms(1) this] obtain p where "map_of (qr_by_ref r) k = Some p" "range_key p = key" by blast
      with assms(4) show ?thesis by (auto simp: update_conv')
    qed (use k in \<open>simp add: update_conv'\<close>)
  qed
qed

lemma store_consistent:
  assumes r: "quotes_consistent sum256 r" and inj: "inj_on (key_ref sum256) (insert (range_key q) (dom (qr_by_range r)))"
  shows "quotes_consistent sum256 (snd (store_quote sum256 q r))"
proof (cases "qr_by_range r (range_key q)")
  case None
  let ?ref = "key_ref sum256 (range_key q)"
  have "map_of (qr_by_ref r) ?ref = None"
  proof (cases "map_of (qr_by_ref r) ?ref")
    case (Some p)
    with r have "key_ref sum256 (range_key p) = ?ref" "range_key p \<in> dom (qr_by_range r)" by (auto simp: quotes_consistent_def)
    from inj_onD [OF inj this(1)] this(2) have "range_key p = range_key q" by blast
    with \<open>range_key p \<in> dom (qr_by_range r)\<close> None show ?thesis by auto
  qed
  with add_quote_consistent [OF r, of "q\<lparr>qu_ref := ?ref\<rparr>" ?ref] None show ?thesis by (simp add: store_quote_def Let_def)
next
  case (Some ref)
  with r show ?thesis by (auto simp: store_quote_def Let_def split: option.split)
qed

lemma store_dom: "dom (qr_by_range (snd (store_quote sum256 q r))) = insert (range_key q) (dom (qr_by_range r))"
  by (auto simp: store_quote_def Let_def split: option.split)

text \<open>What is in the registry after storing a quote was there, or is that quote.\<close>

lemma store_from:
  "map_of (qr_by_ref (snd (store_quote sum256 q r))) ref = Some p \<Longrightarrow>
   map_of (qr_by_ref r) ref = Some p \<or> (\<exists>ref. p = q\<lparr>qu_ref := ref\<rparr>)"
  by (auto simp: store_quote_def Let_def update_conv' split: option.splits if_splits)

section \<open>Loading a snapshot\<close>

definition storable :: "quote \<Rightarrow> bool" where
  "storable q \<longleftrightarrow> \<not> blank (qu_artifact q) \<and> \<not> blank (qu_digest q) \<and> \<not> blank (qu_exact q)"

lemma load_save [simp]: "load_fields (save_quote q) = q"
  by (simp add: load_fields_def save_quote_def)

lemma load_fields_simps [simp]:
  "qu_ref (load_fields s) = sq_ref s"
  "qu_submit_ready (load_fields s) = sq_submit_ready s"
  "qu_artifact (load_fields s) = sq_artifact s"
  "qu_digest (load_fields s) = sq_digest s"
  "qu_title (load_fields s) = sq_title s"
  "qu_url (load_fields s) = sq_url s"
  "qu_locator (load_fields s) = sq_locator s"
  "qu_exact (load_fields s) = sq_exact s"
  "qu_start_line (load_fields s) = sq_start_line s"
  "qu_end_line (load_fields s) = sq_end_line s"
  "qu_start (load_fields s) = sq_start s"
  "qu_end (load_fields s) = sq_end s"
  by (simp_all add: load_fields_def)

lemma load_quote_Inr: "load_quote sum256 s = Inr q \<Longrightarrow>
   q = load_fields s \<and> storable q \<and> qu_submit_ready q \<and> qu_ref q = key_ref sum256 (range_key q) \<and>
   1 \<le> qu_start_line q \<and> qu_start_line q \<le> qu_end_line q \<and> 0 \<le> qu_start q \<and> qu_start q < qu_end q"
  by (auto simp: load_quote_def storable_def Let_def split: if_splits)

lemma load_quote_saved:
  "quote_true sum256 content q \<Longrightarrow> storable q \<Longrightarrow> qu_ref q = key_ref sum256 (range_key q) \<Longrightarrow> load_quote sum256 (save_quote q) = Inr q"
  by (auto simp: load_quote_def quote_true_def storable_def Let_def) (simp_all add: save_quote_def)

lemma load_quotes_consistent:
  "load_quotes sum256 n ss r = Inr r' \<Longrightarrow> quotes_consistent sum256 r \<Longrightarrow>
   quotes_consistent sum256 r' \<and> list_all (\<lambda>s. storable (load_fields s)) ss \<and>
   (\<forall>ref q. map_of (qr_by_ref r') ref = Some q \<longrightarrow> map_of (qr_by_ref r) ref = Some q \<or> q \<in> load_fields ` set ss)"
proof (induction sum256 n ss r rule: load_quotes.induct)
  case (2 sum256 n s ss r)
  obtain q where q: "load_quote sum256 s = Inr q" using 2(2) by (auto split: sum.splits)
  note f = load_quote_Inr [OF q]
  let ?r = "r\<lparr>qr_by_ref := AList.update (qu_ref q) q (qr_by_ref r), qr_by_range := (qr_by_range r)(range_key q \<mapsto> qu_ref q)\<rparr>"
  have fresh: "map_of (qr_by_ref r) (qu_ref q) = None" "qr_by_range r (range_key q) = None" and rest: "load_quotes sum256 (n + 1) ss ?r = Inr r'"
    using 2(2) q by (auto split: if_splits)
  have "quotes_consistent sum256 ?r" using f fresh by (intro add_quote_consistent [OF 2(3)]) auto
  from 2(1) [OF q _ _ rest this] fresh f show ?case by (auto simp: update_conv' split: if_splits)
qed simp

lemma load_quotes_total:
  assumes "\<And>s. s \<in> set ss \<Longrightarrow> load_quote sum256 s = Inr (load_fields s)"
    and "distinct (map sq_ref ss)" "distinct (map (range_key \<circ> load_fields) ss)"
    and "\<And>s. s \<in> set ss \<Longrightarrow> map_of (qr_by_ref r) (sq_ref s) = None \<and> qr_by_range r (range_key (load_fields s)) = None"
  shows "\<exists>r'. load_quotes sum256 n ss r = Inr r' \<and>
    map_of (qr_by_ref r') = map_of (qr_by_ref r) ++ map_of (map (\<lambda>s. (sq_ref s, load_fields s)) ss) \<and>
    qr_by_range r' = qr_by_range r ++ map_of (map (\<lambda>s. (range_key (load_fields s), sq_ref s)) ss)"
  using assms
proof (induction ss arbitrary: n r)
  case (Cons s ss)
  let ?q = "load_fields s"
  have ref: "qu_ref ?q = sq_ref s" by (simp add: load_fields_def)
  let ?r = "r\<lparr>qr_by_ref := AList.update (sq_ref s) ?q (qr_by_ref r), qr_by_range := (qr_by_range r)(range_key ?q \<mapsto> sq_ref s)\<rparr>"
  have "map_of (qr_by_ref ?r) (sq_ref t) = None \<and> qr_by_range ?r (range_key (load_fields t)) = None" if "t \<in> set ss" for t
    using Cons.prems(2-4) that by (auto simp: update_conv' rev_image_eqI)
  from Cons.IH [of ?r "n + 1", OF _ _ _ this] Cons.prems(1-3) have "\<exists>r'. load_quotes sum256 (n + 1) ss ?r = Inr r' \<and>
      map_of (qr_by_ref r') = map_of (qr_by_ref ?r) ++ map_of (map (\<lambda>s. (sq_ref s, load_fields s)) ss) \<and>
      qr_by_range r' = qr_by_range ?r ++ map_of (map (\<lambda>s. (range_key (load_fields s), sq_ref s)) ss)"
    by (simp del: fun_upd_apply)
  then obtain r' where
    r': "load_quotes sum256 (n + 1) ss ?r = Inr r'"
      "map_of (qr_by_ref r') = map_of (qr_by_ref ?r) ++ map_of (map (\<lambda>s. (sq_ref s, load_fields s)) ss)"
      "qr_by_range r' = qr_by_range ?r ++ map_of (map (\<lambda>s. (range_key (load_fields s), sq_ref s)) ss)"
    by blast
  have shift: "m(k \<mapsto> v) ++ m' = (m ++ m')(k \<mapsto> v)" if "m' k = None" for m m' :: "'x \<Rightarrow> 'y option" and k v
    using that by (auto simp: fun_eq_iff map_add_def split: option.splits)
  have "map_of (map (\<lambda>s. (sq_ref s, load_fields s)) ss) (sq_ref s) = None"
      "map_of (map (\<lambda>s. (range_key (load_fields s), sq_ref s)) ss) (range_key ?q) = None"
    using Cons.prems(2,3) by (auto simp: map_of_eq_None_iff)
  with r' Cons.prems(1) [of s] Cons.prems(4) [of s] show ?case by (simp add: ref update_conv' shift del: fun_upd_apply)
qed simp

text \<open>
  A consistent registry is read back from its snapshot if the text of every quote can be stored. A quote that can not be
  stored makes the whole snapshot unreadable.
\<close>

lemma distinct_map_mset: "mset xs = mset ys \<Longrightarrow> distinct (map f xs) \<longleftrightarrow> distinct (map f ys)"
  by (rule mset_eq_imp_distinct_iff) simp

lemma restore_snapshot:
  assumes r: "quotes_consistent sum256 r"
    and true: "\<And>ref q. map_of (qr_by_ref r) ref = Some q \<Longrightarrow> \<exists>content. quote_true sum256 content q"
  shows "(\<exists>r'. quote_restore sum256 (quote_snapshot r) r0 = (None, r') \<and>
           map_of (qr_by_ref r') = map_of (qr_by_ref r) \<and> qr_by_range r' = qr_by_range r) \<longleftrightarrow>
         (\<forall>ref q. map_of (qr_by_ref r) ref = Some q \<longrightarrow> storable q)"
    and "\<not> (\<forall>ref q. map_of (qr_by_ref r) ref = Some q \<longrightarrow> storable q) \<Longrightarrow>
         \<exists>e. quote_restore sum256 (quote_snapshot r) r0 = (Some e, r0)"
proof -
  let ?ss = "quote_snapshot r"
  have d: "distinct (map fst (qr_by_ref r))" using quotes_consistentD(1) [OF r] by (simp add: keys_def)
  have set: "set ?ss = {save_quote q |ref q. map_of (qr_by_ref r) ref = Some q}"
    using d by (force simp: quote_snapshot_def)
  have refs: "sq_ref (save_quote q) = ref" if "map_of (qr_by_ref r) ref = Some q" for ref q
    using quotes_consistentD(2) [OF r that] by (simp add: save_quote_def)
  have snapshot: "mset ?ss = mset (map (\<lambda>p. save_quote (snd p)) (qr_by_ref r))"
    by (simp add: quote_snapshot_def case_prod_unfold mset_sort)
  have m: "map (\<lambda>p. sq_ref (save_quote (snd p))) (qr_by_ref r) = map fst (qr_by_ref r)"
    using refs d by (auto intro!: map_cong)
  have 1: "distinct (map sq_ref ?ss)"
    using d distinct_map_mset [OF snapshot, of sq_ref] by (simp add: comp_def m)
  have "inj_on (\<lambda>p. range_key (snd p)) (set (qr_by_ref r))"
  proof (rule inj_onI, clarify)
    fix k p l q
    assume "(k, p) \<in> set (qr_by_ref r)" "(l, q) \<in> set (qr_by_ref r)" and eq: "range_key (snd (k, p)) = range_key (snd (l, q))"
    then have pq: "map_of (qr_by_ref r) k = Some p" "map_of (qr_by_ref r) l = Some q" using d by auto
    have "qr_by_range r (range_key p) = Some k" "qr_by_range r (range_key q) = Some l"
      using quotes_consistentD(2) [OF r pq(1)] quotes_consistentD(2) [OF r pq(2)] by blast+
    with eq have "k = l" by simp
    with pq show "k = l \<and> p = q" by simp
  qed
  then have "distinct (map (\<lambda>p. range_key (snd p)) (qr_by_ref r))" using d by (simp add: distinct_map)
  then have 2: "distinct (map (range_key \<circ> load_fields) ?ss)"
    using distinct_map_mset [OF snapshot, of "range_key \<circ> load_fields"] by (simp add: comp_def)
  have only: "storable q" if "load_quotes sum256 0 ?ss new_quote_registry = Inr r'" "map_of (qr_by_ref r) ref = Some q" for r' ref q
  proof -
    have "save_quote q \<in> set ?ss" using that(2) set by blast
    then show ?thesis using load_quotes_consistent [OF that(1) new_quotes_consistent] by (auto simp: list_all_iff)
  qed
  show "(\<exists>r'. quote_restore sum256 ?ss r0 = (None, r') \<and>
           map_of (qr_by_ref r') = map_of (qr_by_ref r) \<and> qr_by_range r' = qr_by_range r) \<longleftrightarrow>
         (\<forall>ref q. map_of (qr_by_ref r) ref = Some q \<longrightarrow> storable q)"
  proof
    assume ok: "\<forall>ref q. map_of (qr_by_ref r) ref = Some q \<longrightarrow> storable q"
    have load: "load_quote sum256 s = Inr (load_fields s)" if s: "s \<in> set ?ss" for s
    proof -
      from s obtain q ref where q: "s = save_quote q" "map_of (qr_by_ref r) ref = Some q" by (auto simp: set)
      from true [OF q(2)] obtain content where "quote_true sum256 content q" ..
      from load_quote_saved [OF this] ok q quotes_consistentD(2) [OF r q(2)] show ?thesis by simp
    qed
    from load_quotes_total [OF load 1 2, of new_quote_registry 0] obtain r' where
      r': "load_quotes sum256 0 ?ss new_quote_registry = Inr r'"
        "map_of (qr_by_ref r') = map_of (map (\<lambda>s. (sq_ref s, load_fields s)) ?ss)"
        "qr_by_range r' = map_of (map (\<lambda>s. (range_key (load_fields s), sq_ref s)) ?ss)"
      by (auto simp: new_quote_registry_def)
    have "map_of (map (\<lambda>s. (sq_ref s, load_fields s)) ?ss) = map_of (qr_by_ref r)"
    proof (rule map_of_inject_set [THEN iffD2])
      show "distinct (map fst (map (\<lambda>s. (sq_ref s, load_fields s)) ?ss))" using 1 by (simp add: comp_def)
      show "distinct (map fst (qr_by_ref r))" by (rule d)
      show "set (map (\<lambda>s. (sq_ref s, load_fields s)) ?ss) = set (qr_by_ref r)"
        using refs d by (fastforce simp: set)
    qed
    moreover have "map_of (map (\<lambda>s. (range_key (load_fields s), sq_ref s)) ?ss) = qr_by_range r"
    proof
      fix key
      have "map_of (map (\<lambda>s. (range_key (load_fields s), sq_ref s)) ?ss) key = Some ref \<longleftrightarrow> qr_by_range r key = Some ref" for ref
      proof -
        have "map_of (map (\<lambda>s. (range_key (load_fields s), sq_ref s)) ?ss) key = Some ref \<longleftrightarrow>
            (\<exists>s \<in> set ?ss. range_key (load_fields s) = key \<and> sq_ref s = ref)"
          using 2 by (subst map_of_eq_Some_iff) (auto simp: comp_def)
        also have "\<dots> \<longleftrightarrow> (\<exists>q. map_of (qr_by_ref r) ref = Some q \<and> range_key q = key)"
          using refs by (force simp: set)
        also have "\<dots> \<longleftrightarrow> qr_by_range r key = Some ref"
          using quotes_consistentD(2,3) [OF r] by blast
        finally show ?thesis .
      qed
      then show "map_of (map (\<lambda>s. (range_key (load_fields s), sq_ref s)) ?ss) key = qr_by_range r key"
        by (metis not_Some_eq)
    qed
    ultimately show "\<exists>r'. quote_restore sum256 ?ss r0 = (None, r') \<and>
           map_of (qr_by_ref r') = map_of (qr_by_ref r) \<and> qr_by_range r' = qr_by_range r"
      using r' by (simp add: quote_restore_def)
  qed (auto simp: quote_restore_def split: sum.splits intro: only)
  assume "\<not> (\<forall>ref q. map_of (qr_by_ref r) ref = Some q \<longrightarrow> storable q)"
  with only show "\<exists>e. quote_restore sum256 ?ss r0 = (Some e, r0)"
    by (cases "load_quotes sum256 0 ?ss new_quote_registry") (auto simp: quote_restore_def)
qed

section \<open>A registry in use\<close>

text \<open>
  A run with its files and artifacts, which may change between any two calls; the snapshots saved so far; and, for the
  statements only, the contents \<open>qw_seen\<close> that artifacts had whenever the registry was used.
\<close>

record 'fs quote_world =
  qw_fs :: 'fs
  qw_artifacts :: registry
  qw_quotes :: quote_registry
  qw_seen :: "(string \<times> string) set"
  qw_saved :: "saved_quote list set"

datatype 'fs quote_op =
    SearchOp string string bool int int
  | ExpandOp string int int
  | SaveOp
  | RestoreOp "saved_quote list"
  | MergeOp "(string \<times> quote) list \<Rightarrow> (string \<times> quote) list" "saved_quote list"
  | WorldOp 'fs registry

definition contents_of :: "'fs os \<Rightarrow> 'fs \<Rightarrow> registry \<Rightarrow> (string \<times> string) set" where
  "contents_of os fs artifacts =
     {(i, c). \<exists>rec. record_of artifacts i = Inr rec \<and> os_read_file os fs (rec_path rec) = Inr c}"

definition search_op ::
  "'fs os \<Rightarrow> 'x regexp \<Rightarrow> (string \<Rightarrow> string) \<Rightarrow> 'fs \<Rightarrow> registry \<Rightarrow> string \<Rightarrow> string \<Rightarrow> bool \<Rightarrow> int \<Rightarrow> int \<Rightarrow>
   quote_registry \<Rightarrow> quote_registry" where
  "search_op os rx sum256 fs artifacts i pattern case_sensitive max_matches context r =
     (case search_artifact os rx (digest_hex sum256) fs artifacts i pattern case_sensitive max_matches context of
        Inl e \<Rightarrow> r
      | Inr res \<Rightarrow> snd (capture_all os sum256 fs artifacts context (map (Pair i) (sr_matches res)) r))"

fun quote_step ::
  "'fs os \<Rightarrow> 'x regexp \<Rightarrow> (string \<Rightarrow> string) \<Rightarrow> 'fs quote_world \<Rightarrow> 'fs quote_op \<Rightarrow> 'fs quote_world \<Rightarrow> bool" where
  "quote_step os rx sum256 w (SearchOp i pattern case_sensitive max_matches context) w' \<longleftrightarrow>
     w' = w\<lparr>qw_quotes := search_op os rx sum256 (qw_fs w) (qw_artifacts w) i pattern case_sensitive max_matches context (qw_quotes w),
            qw_seen := qw_seen w \<union> contents_of os (qw_fs w) (qw_artifacts w)\<rparr>"
| "quote_step os rx sum256 w (ExpandOp ref before_lines after_lines) w' \<longleftrightarrow>
     w' = w\<lparr>qw_quotes := snd (expand_quote os sum256 (qw_fs w) (qw_artifacts w) ref before_lines after_lines (qw_quotes w)),
            qw_seen := qw_seen w \<union> contents_of os (qw_fs w) (qw_artifacts w)\<rparr>"
| "quote_step os rx sum256 w SaveOp w' \<longleftrightarrow> w' = w\<lparr>qw_saved := insert (quote_snapshot (qw_quotes w)) (qw_saved w)\<rparr>"
| "quote_step os rx sum256 w (RestoreOp snapshot) w' \<longleftrightarrow>
     snapshot \<in> qw_saved w \<and> w' = w\<lparr>qw_quotes := snd (quote_restore sum256 snapshot (qw_quotes w))\<rparr>"
| "quote_step os rx sum256 w (MergeOp order snapshot) w' \<longleftrightarrow>
     snapshot \<in> qw_saved w \<and> (\<forall>qs. mset (order qs) = mset qs) \<and>
     w' = w\<lparr>qw_quotes := snd (quote_merge sum256 order snapshot (qw_quotes w))\<rparr>"
| "quote_step os rx sum256 w (WorldOp fs artifacts) w' \<longleftrightarrow> w' = w\<lparr>qw_fs := fs, qw_artifacts := artifacts\<rparr>"

definition quote_initial :: "'fs quote_world \<Rightarrow> bool" where
  "quote_initial w \<longleftrightarrow> qw_quotes w = new_quote_registry \<and> qw_seen w = {} \<and> qw_saved w = {}"

definition vouched :: "(string \<Rightarrow> string) \<Rightarrow> (string \<times> string) set \<Rightarrow> quote \<Rightarrow> bool" where
  "vouched sum256 seen q \<longleftrightarrow> (\<exists>content. (qu_artifact q, content) \<in> seen \<and> quote_true sum256 content q)"

definition quotes_good :: "(string \<Rightarrow> string) \<Rightarrow> (string \<times> string) set \<Rightarrow> quote_registry \<Rightarrow> bool" where
  "quotes_good sum256 seen r \<longleftrightarrow>
     distinct (keys (qr_by_ref r)) \<and>
     (\<forall>ref q. map_of (qr_by_ref r) ref = Some q \<longrightarrow> vouched sum256 seen q) \<and>
     (inj_on (key_ref sum256) (dom (qr_by_range r)) \<longrightarrow> quotes_consistent sum256 r)"

lemma vouched_ref [simp]: "vouched sum256 seen (q\<lparr>qu_ref := ref\<rparr>) = vouched sum256 seen q"
  by (simp add: vouched_def quote_true_def)

lemma vouched_mono: "vouched sum256 seen q \<Longrightarrow> seen \<subseteq> seen' \<Longrightarrow> vouched sum256 seen' q"
  by (auto simp: vouched_def)

lemma quotes_good_mono: "quotes_good sum256 seen r \<Longrightarrow> seen \<subseteq> seen' \<Longrightarrow> quotes_good sum256 seen' r"
  by (auto simp: quotes_good_def intro: vouched_mono)

lemma store_good:
  assumes "quotes_good sum256 seen r" "vouched sum256 seen q"
  shows "quotes_good sum256 seen (snd (store_quote sum256 q r))"
  unfolding quotes_good_def
proof (intro conjI allI impI)
  show "distinct (keys (qr_by_ref (snd (store_quote sum256 q r))))"
    using assms(1) by (auto simp: quotes_good_def store_quote_def Let_def distinct_keys_update split: option.split)
next
  fix ref p assume "map_of (qr_by_ref (snd (store_quote sum256 q r))) ref = Some p"
  from store_from [OF this] assms show "vouched sum256 seen p" by (auto simp: quotes_good_def)
next
  assume "inj_on (key_ref sum256) (dom (qr_by_range (snd (store_quote sum256 q r))))"
  then have inj: "inj_on (key_ref sum256) (insert (range_key q) (dom (qr_by_range r)))" by (simp only: store_dom)
  then have "quotes_consistent sum256 r" using assms(1) by (auto simp: quotes_good_def dest: inj_on_subset)
  from store_consistent [OF this inj] show "quotes_consistent sum256 (snd (store_quote sum256 q r))" .
qed

lemma match_quote_true:
  assumes "match_true (digest_hex sum256) content m" "0 \<le> sm_start m"
  shows "quote_true sum256 content
    \<lparr>qu_ref = ref, qu_submit_ready = True, qu_artifact = i, qu_digest = sm_digest m, qu_title = t, qu_url = u,
     qu_locator = line_locator (sm_line m) (sm_end_line m), qu_exact = sm_matched m,
     qu_start_line = sm_line m, qu_end_line = sm_end_line m, qu_start = sm_start m, qu_end = sm_end m\<rparr>"
  using assms by (auto simp: quote_true_def match_true_def on_lines_def Let_def)

lemma capture_good:
  assumes "quotes_good sum256 seen r" "match_true (digest_hex sum256) content m" "(i, content) \<in> seen"
  shows "quotes_good sum256 seen (snd (capture_match sum256 artifacts i m r))"
  using assms match_quote_true [OF assms(2)]
  by (auto simp: capture_match_def vouched_def split: sum.split intro!: store_good exI [of _ content])

lemma expand_good:
  assumes "quotes_good sum256 seen r" "contents_of os fs artifacts \<subseteq> seen"
  shows "quotes_good sum256 seen (snd (expand_quote os sum256 fs artifacts ref before_lines after_lines r))"
proof -
  have "vouched sum256 seen q"
    if "record_of artifacts (qu_artifact base) = Inr rec" "os_read_file os fs (rec_path rec) = Inr content"
      "digest_hex sum256 content = qu_digest base" "expand_text base content before_lines after_lines = Inr q" for base rec content q
  proof -
    have "(qu_artifact base, content) \<in> seen" using that(1,2) assms(2) by (auto simp: contents_of_def)
    with expand_text_true [OF that(4) that(3) [symmetric]] show ?thesis by (auto simp: vouched_def)
  qed
  with assms(1) show ?thesis
    by (auto simp: expand_quote_def split: option.split sum.split intro!: store_good)
qed

lemma capture_with_context_good:
  assumes "quotes_good sum256 seen r" "match_true (digest_hex sum256) content m" "(i, content) \<in> seen" "contents_of os fs artifacts \<subseteq> seen"
  shows "quotes_good sum256 seen (snd (capture_with_context os sum256 fs artifacts i m before_lines after_lines r))"
  using capture_good [OF assms(1-3), of artifacts] assms(4)
  by (auto simp: capture_with_context_def split: prod.split sum.split intro!: expand_good)

lemma capture_all_good:
  "quotes_good sum256 seen r \<Longrightarrow> contents_of os fs artifacts \<subseteq> seen \<Longrightarrow>
   list_all (\<lambda>p. \<exists>content. (fst p, content) \<in> seen \<and> match_true (digest_hex sum256) content (snd p)) ms \<Longrightarrow>
   quotes_good sum256 seen (snd (capture_all os sum256 fs artifacts context ms r))"
proof (induction os sum256 fs artifacts "context" ms r rule: capture_all.induct)
  case (2 os sum256 fs artifacts c i m ms r)
  then obtain content where m: "(i, content) \<in> seen" "match_true (digest_hex sum256) content m" by auto
  obtain x r1 where x: "capture_with_context os sum256 fs artifacts i m c c r = (x, r1)" by force
  have "quotes_good sum256 seen r1" using capture_with_context_good [OF 2(2) m(2,1) 2(3), of c c] x by simp
  with 2 x show ?case by (cases x) auto
qed simp

lemma search_op_good:
  assumes "regexp_ok rx" "quotes_good sum256 seen r" "contents_of os fs artifacts \<subseteq> seen"
  shows "quotes_good sum256 seen (search_op os rx sum256 fs artifacts i pattern case_sensitive max_matches context r)"
proof (cases "search_artifact os rx (digest_hex sum256) fs artifacts i pattern case_sensitive max_matches context")
  case (Inr res)
  then obtain rec content where c: "record_of artifacts i = Inr rec" "os_read_file os fs (rec_path rec) = Inr content"
      and res: "search_text rx (digest_hex sum256) content pattern case_sensitive max_matches context = Inr res"
    by (auto simp: search_artifact_def split: sum.splits if_splits option.splits)
  have "(i, content) \<in> seen" using c assms(3) by (auto simp: contents_of_def)
  with search_text_Inr(1) [OF assms(1) res] have "list_all (\<lambda>p. \<exists>content. (fst p, content) \<in> seen \<and>
      match_true (digest_hex sum256) content (snd p)) (map (Pair i) (sr_matches res))"
    by (auto simp: list_all_iff)
  from capture_all_good [OF assms(2,3) this] Inr show ?thesis by (simp add: search_op_def)
qed (use assms(2) in \<open>simp add: search_op_def\<close>)

text \<open>Saved quotes that are vouched for, and registries that are loaded from them.\<close>

definition saved_good :: "(string \<Rightarrow> string) \<Rightarrow> (string \<times> string) set \<Rightarrow> saved_quote list \<Rightarrow> bool" where
  "saved_good sum256 seen snapshot \<longleftrightarrow> list_all (\<lambda>s. vouched sum256 seen (load_fields s)) snapshot"

lemma snapshot_good: "quotes_good sum256 seen r \<Longrightarrow> saved_good sum256 seen (quote_snapshot r)"
  by (auto simp: saved_good_def quotes_good_def quote_snapshot_def list_all_iff keys_def)

lemma load_good:
  assumes "load_quotes sum256 0 snapshot new_quote_registry = Inr r" "saved_good sum256 seen snapshot"
  shows "quotes_good sum256 seen r" and "quotes_consistent sum256 r"
proof -
  from load_quotes_consistent [OF assms(1) new_quotes_consistent] have
    c: "quotes_consistent sum256 r" and
    q: "\<And>ref q. map_of (qr_by_ref r) ref = Some q \<Longrightarrow> q \<in> load_fields ` set snapshot"
    by (auto simp: new_quote_registry_def)
  from c show "quotes_consistent sum256 r" .
  have "vouched sum256 seen p" if "map_of (qr_by_ref r) ref = Some p" for ref p
    using q [OF that] assms(2) by (auto simp: saved_good_def list_all_iff)
  with c quotes_consistentD(1) [OF c] show "quotes_good sum256 seen r" by (auto simp: quotes_good_def)
qed

lemma restore_good:
  "quotes_good sum256 seen r \<Longrightarrow> saved_good sum256 seen snapshot \<Longrightarrow> quotes_good sum256 seen (snd (quote_restore sum256 snapshot r))"
  by (auto simp: quote_restore_def split: sum.split intro: load_good)

text \<open>A merge keeps what the registry has, and adds what the other has, if the two do not contradict each other.\<close>

lemma merge_step:
  assumes "quotes_consistent sum256 r" "map_of (qr_by_ref r) ref = None" "qu_ref q = ref" "ref = key_ref sum256 (range_key q)"
    and "\<not> (case qr_by_range r (range_key q) of None \<Rightarrow> False | Some existing \<Rightarrow> existing \<noteq> ref)"
  shows "qr_by_range r (range_key q) = None"
    and "quotes_consistent sum256 (r\<lparr>qr_by_ref := AList.update ref q (qr_by_ref r), qr_by_range := (qr_by_range r)(range_key q \<mapsto> ref)\<rparr>)"
proof -
  show none: "qr_by_range r (range_key q) = None"
  proof (cases "qr_by_range r (range_key q)")
    case (Some k)
    with quotes_consistentD(3) [OF assms(1) Some] assms(2,5) show ?thesis by auto
  qed
  show "quotes_consistent sum256 (r\<lparr>qr_by_ref := AList.update ref q (qr_by_ref r), qr_by_range := (qr_by_range r)(range_key q \<mapsto> ref)\<rparr>)"
    by (rule add_quote_consistent [OF assms(1,3,4,2) none])
qed

lemma merge_keeps:
  "map_of (qr_by_ref r) ref = Some q \<Longrightarrow> map_of (qr_by_ref (snd (merge_quotes qs r))) ref = Some q"
proof (induction qs r rule: merge_quotes.induct)
  case (2 k p qs r)
  then have "map_of (qr_by_ref r) k = None \<Longrightarrow> k \<noteq> ref" by auto
  with 2 show ?case by (auto simp: update_conv' split: option.split)
qed simp

lemma merge_adds:
  "fst (merge_quotes qs r) = None \<Longrightarrow> (ref, q) \<in> set qs \<Longrightarrow> map_of (qr_by_ref (snd (merge_quotes qs r))) ref = Some q"
proof (induction qs r rule: merge_quotes.induct)
  case (2 k p qs r)
  show ?case
  proof (cases "map_of (qr_by_ref r) k")
    case None
    with 2 show ?thesis by (cases "(ref, q) = (k, p)") (auto simp: update_conv' merge_keeps split: if_splits)
  next
    case (Some x)
    with 2 show ?thesis by (cases "(ref, q) = (k, p)") (auto simp: merge_keeps split: if_splits)
  qed
qed simp

lemma merge_good:
  "quotes_good sum256 seen r \<Longrightarrow>
   list_all (\<lambda>(ref, q). vouched sum256 seen q \<and> qu_ref q = ref \<and> ref = key_ref sum256 (range_key q)) qs \<Longrightarrow>
   quotes_good sum256 seen (snd (merge_quotes qs r))"
proof (induction qs r rule: merge_quotes.induct)
  case (2 ref q qs r)
  show ?case
  proof (cases "map_of (qr_by_ref r) ref")
    case (Some existing)
    with 2 show ?thesis by auto
  next
    case None
    let ?r = "r\<lparr>qr_by_ref := AList.update ref q (qr_by_ref r), qr_by_range := (qr_by_range r)(range_key q \<mapsto> ref)\<rparr>"
    show ?thesis
    proof (cases "case qr_by_range r (range_key q) of None \<Rightarrow> False | Some existing \<Rightarrow> existing \<noteq> ref")
      case False
      have "quotes_good sum256 seen ?r" unfolding quotes_good_def
      proof (intro conjI allI impI)
        show "distinct (keys (qr_by_ref ?r))" using 2(3) by (simp add: quotes_good_def distinct_keys_update)
      next
        fix k p assume "map_of (qr_by_ref ?r) k = Some p"
        with 2(3,4) show "vouched sum256 seen p" by (auto simp: update_conv' quotes_good_def split: if_splits)
      next
        assume "inj_on (key_ref sum256) (dom (qr_by_range ?r))"
        then have "quotes_consistent sum256 r" using 2(3) by (auto simp: quotes_good_def dest: inj_on_subset)
        from merge_step(2) [OF this None _ _ False] 2(4) show "quotes_consistent sum256 ?r" by auto
      qed
      with 2(1) [OF None False] 2(3,4) None False show ?thesis by simp
    next
      case True
      with 2(3) None show ?thesis by simp
    qed
  qed
qed simp

definition quote_world_inv :: "(string \<Rightarrow> string) \<Rightarrow> 'fs quote_world \<Rightarrow> bool" where
  "quote_world_inv sum256 w \<longleftrightarrow>
     quotes_good sum256 (qw_seen w) (qw_quotes w) \<and> (\<forall>snapshot \<in> qw_saved w. saved_good sum256 (qw_seen w) snapshot)"

lemma saved_good_mono: "saved_good sum256 seen s \<Longrightarrow> seen \<subseteq> seen' \<Longrightarrow> saved_good sum256 seen' s"
  by (auto simp: saved_good_def list_all_iff intro: vouched_mono)

lemma quote_world_step:
  assumes rx: "regexp_ok rx" and inv: "quote_world_inv sum256 w" and step: "quote_step os rx sum256 w l w'"
  shows "quote_world_inv sum256 w'"
proof -
  let ?seen = "qw_seen w \<union> contents_of os (qw_fs w) (qw_artifacts w)"
  have good: "quotes_good sum256 (qw_seen w) (qw_quotes w)" "quotes_good sum256 ?seen (qw_quotes w)"
    and saved: "\<And>s. s \<in> qw_saved w \<Longrightarrow> saved_good sum256 (qw_seen w) s" "\<And>s. s \<in> qw_saved w \<Longrightarrow> saved_good sum256 ?seen s"
    using inv by (auto simp: quote_world_inv_def intro: quotes_good_mono saved_good_mono)
  show ?thesis
  proof (cases l)
    case (MergeOp order snapshot)
    with step have s: "snapshot \<in> qw_saved w" and order: "mset (order qs) = mset qs" for qs by auto
    have "quotes_good sum256 (qw_seen w) (snd (quote_merge sum256 order snapshot (qw_quotes w)))"
    proof (cases "load_quotes sum256 0 snapshot new_quote_registry")
      case (Inr r)
      have "set (order (qr_by_ref r)) = set (qr_by_ref r)" by (rule mset_eq_setD [OF order])
      moreover have "distinct (map fst (qr_by_ref r))" "quotes_consistent sum256 r" "quotes_good sum256 (qw_seen w) r"
        using load_good [OF Inr saved(1) [OF s]] by (auto simp: quotes_consistent_def keys_def)
      ultimately have "list_all (\<lambda>(ref, q). vouched sum256 (qw_seen w) q \<and> qu_ref q = ref \<and> ref = key_ref sum256 (range_key q)) (order (qr_by_ref r))"
        by (fastforce simp: list_all_iff quotes_good_def dest: quotes_consistentD(2))
      from merge_good [OF good(1) this] Inr show ?thesis by (simp add: quote_merge_def)
    qed (use good in \<open>simp add: quote_merge_def\<close>)
    with step MergeOp saved show ?thesis by (simp add: quote_world_inv_def)
  qed (use step good saved rx in \<open>auto simp: quote_world_inv_def intro!: search_op_good expand_good snapshot_good restore_good\<close>)
qed

interpretation quotes: invariant_system quote_initial "quote_step os rx sum256" "\<lambda>w. regexp_ok rx \<longrightarrow> quote_world_inv sum256 w" for os rx sum256
proof unfold_locales
  fix w :: "'a quote_world"
  assume "quote_initial w"
  then show "regexp_ok rx \<longrightarrow> quote_world_inv sum256 w"
    using new_quotes_consistent [of sum256]
    by (simp add: quote_initial_def quote_world_inv_def quotes_good_def) (simp add: new_quote_registry_def keys_def)
qed (use quote_world_step in blast)

section \<open>Properties\<close>

text \<open>
  C12: no quote can be made up. Whatever the tools are asked, in whatever order, while files and artifacts change and
  registries are saved, restored and merged: a reference that resolves to a quote gives a part of a content its artifact really
  had, with the digest of that content, and either the text of a match with the lines of its first and last rune, or exactly the runes of
  the lines it names.
\<close>

theorem quotes_come_from_their_artifacts:
  assumes "regexp_ok rx" "reach quote_initial (quote_step os rx sum256) w" "resolve_quote ref (qw_quotes w) = Some q"
  shows "\<exists>content. (qu_artifact q, content) \<in> qw_seen w \<and> quote_true sum256 content q"
proof -
  have "quote_world_inv sum256 w" using quotes.reach_inv [OF assms(2)] assms(1) by blast
  with assms(3) show ?thesis by (auto simp: quote_world_inv_def quotes_good_def resolve_quote_def vouched_def)
qed

text \<open>
  C14: a registry is read back from its checkpoint, with every reference and every range, exactly if the text of each
  of its quotes is not blank; otherwise reading fails and leaves the registry it is read into as it was.
  No two ranges in use may have the same hash.
\<close>

theorem quote_checkpoint_roundtrip:
  assumes "regexp_ok rx" "reach quote_initial (quote_step os rx sum256) w"
    and "inj_on (key_ref sum256) (dom (qr_by_range (qw_quotes w)))"
  shows "((\<exists>r. quote_restore sum256 (quote_snapshot (qw_quotes w)) r0 = (None, r) \<and>
            map_of (qr_by_ref r) = map_of (qr_by_ref (qw_quotes w)) \<and> qr_by_range r = qr_by_range (qw_quotes w)) \<longleftrightarrow>
          (\<forall>ref q. map_of (qr_by_ref (qw_quotes w)) ref = Some q \<longrightarrow> storable q)) \<and>
         (\<not> (\<forall>ref q. map_of (qr_by_ref (qw_quotes w)) ref = Some q \<longrightarrow> storable q) \<longrightarrow>
          (\<exists>e. quote_restore sum256 (quote_snapshot (qw_quotes w)) r0 = (Some e, r0)))"
proof -
  have inv: "quote_world_inv sum256 w" using quotes.reach_inv [OF assms(2)] assms(1) by blast
  with assms(3) have "quotes_consistent sum256 (qw_quotes w)" by (simp add: quote_world_inv_def quotes_good_def)
  moreover have "\<exists>content. quote_true sum256 content q" if "map_of (qr_by_ref (qw_quotes w)) ref = Some q" for ref q
  proof -
    have "vouched sum256 (qw_seen w) q" using inv that by (auto simp: quote_world_inv_def quotes_good_def)
    then show ?thesis by (auto simp: vouched_def)
  qed
  ultimately show ?thesis using restore_snapshot [of sum256 "qw_quotes w" r0] by blast
qed

section \<open>A run\<close>

definition sample_quotes :: "int \<Rightarrow> quote_registry" where
  "sample_quotes c = search_op mem_os literal_regexp rev searched_notes sample_registry ''artifact-1'' ''words end'' True 3 c new_quote_registry"

definition quote_world_0 :: "mem_fs quote_world" where
  "quote_world_0 = \<lparr>qw_fs = searched_notes, qw_artifacts = sample_registry, qw_quotes = new_quote_registry, qw_seen = {}, qw_saved = {}\<rparr>"

definition quote_world_1 :: "int \<Rightarrow> mem_fs quote_world" where
  "quote_world_1 c = quote_world_0\<lparr>qw_quotes := sample_quotes c, qw_seen := contents_of mem_os searched_notes sample_registry\<rparr>"

lemma quote_world_reached: "reach quote_initial (quote_step mem_os literal_regexp rev) (quote_world_1 c)"
proof (rule reach_step)
  show "reach quote_initial (quote_step mem_os literal_regexp rev) quote_world_0"
    by (rule reach_init) (simp add: quote_initial_def quote_world_0_def)
  show "quote_step mem_os literal_regexp rev quote_world_0 (SearchOp ''artifact-1'' ''words end'' True 3 c) (quote_world_1 c)"
    by (simp add: quote_world_0_def quote_world_1_def sample_quotes_def)
qed

lemma sample_quotes_exact:
  "(case resolve_quote ''quote-ref-37310030006636653635366130343737'' (sample_quotes 1) of
      None \<Rightarrow> False | Some q \<Rightarrow> qu_exact q = ''one two words end'')"
  by code_simp

theorem quotes_come_from_their_artifacts_witness:
  "\<exists>q content. resolve_quote ''quote-ref-37310030006636653635366130343737'' (sample_quotes 1) = Some q \<and> qu_exact q = ''one two words end'' \<and>
     (qu_artifact q, content) \<in> contents_of mem_os searched_notes sample_registry \<and> quote_true rev content q"
proof -
  from sample_quotes_exact obtain q where q: "resolve_quote ''quote-ref-37310030006636653635366130343737'' (sample_quotes 1) = Some q"
      "qu_exact q = ''one two words end''"
    by (auto split: option.splits)
  have "resolve_quote ''quote-ref-37310030006636653635366130343737'' (qw_quotes (quote_world_1 1)) = Some q"
    using q(1) by (simp add: quote_world_1_def)
  from quotes_come_from_their_artifacts [OF literal_regexp_ok quote_world_reached this] q show ?thesis
    by (auto simp: quote_world_1_def)
qed

text \<open>One match without context is one range.\<close>

lemma capture_match_dom: "\<exists>k. dom (qr_by_range (snd (capture_match sum256 artifacts i m r))) \<subseteq> insert k (dom (qr_by_range r))"
  by (auto simp: capture_match_def store_dom split: sum.split)

lemma sample_quotes_single: "\<exists>k. dom (qr_by_range (sample_quotes 0)) \<subseteq> {k}"
proof -
  let ?res = "search_artifact mem_os literal_regexp (digest_hex rev) searched_notes sample_registry ''artifact-1'' ''words end'' True 3 0"
  have "(case ?res of Inl _ \<Rightarrow> False | Inr res \<Rightarrow> length (sr_matches res) = 1)" by code_simp
  then obtain res m where res: "?res = Inr res" "sr_matches res = [m]" by (auto simp: length_Suc_conv split: sum.splits)
  obtain x r1 where x: "capture_match rev sample_registry ''artifact-1'' m new_quote_registry = (x, r1)" by force
  have "sample_quotes 0 = r1" using res x by (cases x) (simp_all add: sample_quotes_def search_op_def capture_with_context_def)
  moreover obtain k where "dom (qr_by_range r1) \<subseteq> insert k (dom (qr_by_range new_quote_registry))"
    using capture_match_dom [of rev sample_registry "''artifact-1''" m new_quote_registry] x by auto
  ultimately show ?thesis by (auto simp: new_quote_registry_def)
qed

theorem quote_checkpoint_roundtrip_witness:
  "qr_by_ref (sample_quotes 0) \<noteq> [] \<and>
   (\<exists>r. quote_restore rev (quote_snapshot (sample_quotes 0)) new_quote_registry = (None, r) \<and>
      map_of (qr_by_ref r) = map_of (qr_by_ref (sample_quotes 0)))"
proof -
  obtain k where "dom (qr_by_range (qw_quotes (quote_world_1 0))) \<subseteq> {k}"
    using sample_quotes_single by (auto simp: quote_world_1_def)
  then have inj: "inj_on (key_ref rev) (dom (qr_by_range (qw_quotes (quote_world_1 0))))" by (rule inj_on_subset [rotated]) simp
  have "let r = sample_quotes 0 in fst (quote_restore rev (quote_snapshot r) new_quote_registry) = None \<and> length (qr_by_ref r) = 1"
    by code_simp
  then have "fst (quote_restore rev (quote_snapshot (sample_quotes 0)) new_quote_registry) = None" "length (qr_by_ref (sample_quotes 0)) = 1"
    by (simp_all add: Let_def)
  with quote_checkpoint_roundtrip [OF literal_regexp_ok quote_world_reached inj, of new_quote_registry]
  show ?thesis by (auto simp: quote_world_1_def)
qed

text \<open>
  A search for white space stores quotes of white space only. Their registry can be saved, but its snapshot is refused.
\<close>

lemma blank_match_breaks_the_checkpoint:
  "(let r = search_op mem_os literal_regexp rev searched_notes sample_registry ''artifact-1'' '' '' True 1 0 new_quote_registry
    in fst (quote_restore rev (quote_snapshot r) new_quote_registry)) =
   Some (Format ''restore quote %d: %w'' [IntArg 0, TextArg (Text ''invalid quote snapshot'')])"
  by code_simp

end
