(* ===== verification/Tool_Arguments.thy ===== *)
theory Tool_Arguments
  imports Quote_Registry Research_Runtime
begin

text \<open>
  The guards that the arguments of a typed tool pass before the tool sees them, in \<^verbatim>\<open>internal/cli/runtime_workflow_tools.go\<close>:
  references to quotes are replaced by what the host knows of them (\<^verbatim>\<open>bindQuoteReferences\<close>), references to artifacts are checked
  (\<^verbatim>\<open>enforceArtifactIDReferences\<close>), and artifacts bound by the configuration are turned into paths (\<^verbatim>\<open>materializeArtifactPaths\<close>).

  The fields of a JSON object are in the order in which Go ranges over them, which is left open. The encoding of JSON is a
  parameter.
\<close>

section \<open>JSON\<close>

datatype json = J_Null | J_Bool bool | J_Number string | J_String string | J_Array "json list" | J_Object "(string \<times> json) list"

record json_codec =
  jc_marshal :: "json \<Rightarrow> error + string"
  jc_unmarshal_object :: "string \<Rightarrow> error + (string \<times> json) list"

definition string_field :: "string \<Rightarrow> (string \<times> json) list \<Rightarrow> string option" where
  "string_field k kvs = (case map_of kvs k of Some (J_String s) \<Rightarrow> Some s | _ \<Rightarrow> None)"

text \<open>A string field with something in it.\<close>

definition solid_field :: "string \<Rightarrow> (string \<times> json) list \<Rightarrow> string option" where
  "solid_field k kvs = (case string_field k kvs of Some s \<Rightarrow> if blank s then None else Some s | None \<Rightarrow> None)"

fun json_string :: "json \<Rightarrow> string option" where
  "json_string (J_String s) = Some s"
| "json_string _ = None"

lemma json_array_size [termination_simp]: "x \<in> set xs \<Longrightarrow> size x < Suc (size_list size xs)"
  by (induction xs) auto

lemma json_object_size [termination_simp]: "p \<in> set kvs \<Longrightarrow> size (snd p) < Suc (size_list (size_prod (\<lambda>_. 0) size) kvs)"
  by (induction kvs) auto

fun objects_of :: "json \<Rightarrow> (string \<times> json) list list" where
  "objects_of (J_Array vs) = concat (map objects_of vs)"
| "objects_of (J_Object kvs) = kvs # concat (map (\<lambda>p. objects_of (snd p)) kvs)"
| "objects_of _ = []"

section \<open>References to quotes\<close>

text \<open>\<^verbatim>\<open>CanonicalMap\<close>\<close>

definition canonical_map :: "quote \<Rightarrow> (string \<times> json) list" where
  "canonical_map q =
     [(''_r42_quote'', J_Bool True), (''quote_ref'', J_String (qu_ref q)), (''artifact_id'', J_String (qu_artifact q)),
      (''artifact_digest'', J_String (qu_digest q)), (''source_title'', J_String (qu_title q)), (''url'', J_String (qu_url q)),
      (''locator'', J_String (qu_locator q)), (''exact_quote'', J_String (qu_exact q))]"

text \<open>The reference that a string stands for: the string itself, or the one in the JSON of a resolved quote.\<close>

definition quote_ref_of :: "json_codec \<Rightarrow> string \<Rightarrow> error + string" where
  "quote_ref_of c raw =
     (let trimmed = trim_space raw in
      if \<not> prefix ''{'' trimmed then Inr trimmed
      else case jc_unmarshal_object c trimmed of
             Inl e \<Rightarrow> Inl (Format ''invalid resolved Quote JSON: %w'' [TextArg e])
           | Inr payload \<Rightarrow>
               (if map_of payload ''_r42_quote'' \<noteq> Some (J_Bool True)
                then Inl (Text ''resolved Quote JSON is missing _r42_quote marker'')
                else case solid_field ''quote_ref'' payload of
                       None \<Rightarrow> Inl (Text ''resolved Quote JSON is missing quote_ref'')
                     | Some ref \<Rightarrow> Inr ref))"

definition materialize_quote_string :: "json_codec \<Rightarrow> quote_registry \<Rightarrow> string \<Rightarrow> error + string \<times> string list" where
  "materialize_quote_string c r raw =
     (case quote_ref_of c raw of
        Inl e \<Rightarrow> Inl e
      | Inr ref \<Rightarrow>
          (case resolve_quote ref r of
             None \<Rightarrow> Inr (raw, [ref])
           | Some q \<Rightarrow>
               (case jc_marshal c (J_Object (canonical_map q)) of
                  Inl e \<Rightarrow> Inl (Format ''encode resolved Quote: %w'' [TextArg e])
                | Inr s \<Rightarrow> Inr (s, []))))"

definition quote_like :: "string \<Rightarrow> bool" where
  "quote_like raw \<longleftrightarrow> prefix ''{'' (trim_space raw) \<or> prefix ''quote-ref-'' (trim_space raw)"

definition resolve_quote_string :: "json_codec \<Rightarrow> quote_registry \<Rightarrow> string \<Rightarrow> error + string \<times> string list" where
  "resolve_quote_string c r raw = (if \<not> quote_like raw then Inr (raw, []) else materialize_quote_string c r raw)"

text \<open>An error leaves the string as it is.\<close>

definition resolve_leaf :: "json_codec \<Rightarrow> quote_registry \<Rightarrow> string \<Rightarrow> json \<times> string list" where
  "resolve_leaf c r raw =
     (case resolve_quote_string c r raw of Inl _ \<Rightarrow> (J_String raw, []) | Inr (s, unknown) \<Rightarrow> (J_String s, unknown))"

definition set_field :: "string \<Rightarrow> string \<Rightarrow> (string \<times> json) list \<Rightarrow> (string \<times> json) list" where
  "set_field k s kvs = AList.update k (J_String s) kvs"

definition fill_quote :: "quote \<Rightarrow> (string \<times> json) list \<Rightarrow> (string \<times> json) list" where
  "fill_quote q kvs =
     set_field ''exact_quote'' (qu_exact q) (set_field ''locator'' (qu_locator q) (set_field ''url'' (qu_url q)
       (set_field ''source_title'' (qu_title q) (set_field ''artifact_digest'' (qu_digest q)
         (set_field ''artifact_id'' (qu_artifact q) (set_field ''quote_ref'' (qu_ref q) kvs))))))"

definition fill_object :: "quote_registry \<Rightarrow> (string \<times> json) list \<Rightarrow> (string \<times> json) list \<times> string list" where
  "fill_object r kvs =
     (case solid_field ''quote_ref'' kvs of
        None \<Rightarrow> (kvs, [])
      | Some ref \<Rightarrow> (case resolve_quote ref r of None \<Rightarrow> (kvs, [ref]) | Some q \<Rightarrow> (fill_quote q kvs, [])))"

lemma in_set_field: "p \<in> set (set_field k s kvs) \<Longrightarrow> p \<in> set kvs \<or> snd p = J_String s"
  unfolding set_field_def by (induction kvs) (auto split: if_splits)

lemma in_fill_object:
  assumes "p \<in> set (fst (fill_object r kvs))" "json_string (snd p) = None"
  shows "p \<in> set kvs"
proof -
  have "p \<in> set (fill_quote q kvs) \<Longrightarrow> p \<in> set kvs" for q
    unfolding fill_quote_def using assms(2) by (auto dest!: in_set_field)
  with assms(1) show ?thesis by (auto simp: fill_object_def split: option.splits)
qed

function resolve_references :: "json_codec \<Rightarrow> quote_registry \<Rightarrow> json \<Rightarrow> json \<times> string list" where
  "resolve_references c r (J_Object kvs) =
     (let (filled, missing) = fill_object r kvs;
          rs = map (\<lambda>p. if fst p = ''quote_ref'' then (snd p, [])
                        else if json_string (snd p) \<noteq> None then resolve_leaf c r (the (json_string (snd p)))
                        else resolve_references c r (snd p)) filled
      in (J_Object (zip (map fst filled) (map fst rs)), missing @ concat (map snd rs)))"
| "resolve_references c r (J_Array vs) =
     (let rs = map (\<lambda>v. if json_string v \<noteq> None then resolve_leaf c r (the (json_string v)) else resolve_references c r v) vs
      in (J_Array (map fst rs), concat (map snd rs)))"
| "resolve_references c r J_Null = (J_Null, [])"
| "resolve_references c r (J_Bool b) = (J_Bool b, [])"
| "resolve_references c r (J_Number n) = (J_Number n, [])"
| "resolve_references c r (J_String s) = (J_String s, [])"
  by pat_completeness auto
termination
proof (relation "measure (\<lambda>(c, r, v). size v)", goal_cases)
  case (2 c r kvs fm filled missing p)
  then have "p \<in> set (fst (fill_object r kvs))" "json_string (snd p) = None" by (metis fst_conv, metis)
  then have "p \<in> set kvs" by (rule in_fill_object)
  then show ?case by (simp add: json_object_size)
qed (auto simp: json_array_size)

section \<open>References to artifacts\<close>

definition trusted_quote :: "(string \<times> json) list \<Rightarrow> bool" where
  "trusted_quote kvs \<longleftrightarrow> solid_field ''quote_ref'' kvs \<noteq> None"

text \<open>Sources that are claimed for an artifact.\<close>

definition object_sources :: "(string \<times> json) list \<Rightarrow> (string \<times> string) list" where
  "object_sources kvs =
     (if trusted_quote kvs then []
      else case solid_field ''artifact_id'' kvs of
             None \<Rightarrow> []
           | Some i \<Rightarrow> map (Pair i) (List.map_filter (\<lambda>k. solid_field k kvs) [''source'', ''url'', ''source_url'']))"

definition artifact_sources :: "json \<Rightarrow> (string \<times> string) list" where
  "artifact_sources v = concat (map object_sources (objects_of v))"

definition source_invalid :: "evidence_access \<Rightarrow> string \<times> string \<Rightarrow> error + string list" where
  "source_invalid a p =
     (case access_source a (fst p) of
        Inl e \<Rightarrow> Inl e
      | Inr expected \<Rightarrow> Inr (if trim_space (snd p) \<noteq> trim_space expected then [fst p] else []))"

definition invalid_sources :: "evidence_access \<Rightarrow> json \<Rightarrow> error + string list" where
  "invalid_sources a v = map_sum id concat (all_ok (source_invalid a) (artifact_sources v))"

text \<open>Quotes that are claimed to be in an artifact, each with what the message about it names.\<close>

record quote_reference =
  qf_artifact :: string
  qf_quote :: string
  qf_record :: string
  qf_label :: string
  qf_field :: string

definition append_path :: "string \<Rightarrow> string \<Rightarrow> string" where
  "append_path path field = (if path = [] then field else path @ ''.'' @ field)"

definition record_label :: "string \<Rightarrow> string \<Rightarrow> string" where
  "record_label key label =
     (if key = ''cards'' \<or> key = ''claims'' then ''claim_id'' else if key = ''quotes'' then ''quote_id'' else label)"

definition object_quote :: "string \<Rightarrow> string \<Rightarrow> (string \<times> json) list \<Rightarrow> quote_reference list" where
  "object_quote path label kvs =
     (if trusted_quote kvs then []
      else case (solid_field ''artifact_id'' kvs, solid_field ''exact_quote'' kvs) of
             (Some i, Some q) \<Rightarrow>
               [\<lparr>qf_artifact = i, qf_quote = q,
                 qf_record = (case string_field ''id'' kvs of Some s \<Rightarrow> s | None \<Rightarrow> []),
                 qf_label = label, qf_field = append_path path ''exact_quote''\<rparr>]
           | _ \<Rightarrow> [])"

fun quotes_at :: "string \<Rightarrow> string \<Rightarrow> json \<Rightarrow> quote_reference list"
  and quotes_in :: "string \<Rightarrow> string \<Rightarrow> int \<Rightarrow> json list \<Rightarrow> quote_reference list"
  and quotes_under :: "string \<Rightarrow> string \<Rightarrow> (string \<times> json) list \<Rightarrow> quote_reference list" where
  "quotes_at path label (J_Object kvs) = object_quote path label kvs @ quotes_under path label kvs"
| "quotes_at path label (J_Array vs) = quotes_in path label 0 vs"
| "quotes_at path label J_Null = []"
| "quotes_at path label (J_Bool _) = []"
| "quotes_at path label (J_Number _) = []"
| "quotes_at path label (J_String _) = []"
| "quotes_in path label n [] = []"
| "quotes_in path label n (v # vs) = quotes_at (path @ ''['' @ show_int n @ '']'') label v @ quotes_in path label (n + 1) vs"
| "quotes_under path label [] = []"
| "quotes_under path label ((k, v) # kvs) = quotes_at (append_path path k) (record_label k label) v @ quotes_under path label kvs"

definition artifact_quotes :: "json \<Rightarrow> quote_reference list" where
  "artifact_quotes v = quotes_at [] ''record_id'' v"

text \<open>
  The text near a quote that was not found only words the message about it (\<^verbatim>\<open>nearbyArtifactText\<close>); it is the
  argument \<open>nearby\<close>.
\<close>

definition quote_detail :: "(quote_reference \<Rightarrow> string) \<Rightarrow> quote_reference \<Rightarrow> message" where
  "quote_detail nearby f =
     (let base = Format ''%s=%s artifact_id=%s field=%s''
            [StrArg (qf_label f), StrArg (qf_record f), StrArg (qf_artifact f), StrArg (qf_field f)]
      in if nearby f = [] then base else Format ''%s nearby_text=%q'' [TextArg base, StrArg (nearby f)])"

definition quote_invalid :: "'fs os \<Rightarrow> 'fs \<Rightarrow> evidence_access \<Rightarrow> (quote_reference \<Rightarrow> string) \<Rightarrow> quote_reference \<Rightarrow> error + message list" where
  "quote_invalid os fs a nearby f =
     (case contains_normalized os fs a (qf_artifact f) (qf_quote f) of
        Inl e \<Rightarrow> Inl e
      | Inr found \<Rightarrow> Inr (if found then [] else [quote_detail nearby f]))"

definition invalid_quotes :: "'fs os \<Rightarrow> 'fs \<Rightarrow> evidence_access \<Rightarrow> (quote_reference \<Rightarrow> string) \<Rightarrow> json \<Rightarrow> error + message list" where
  "invalid_quotes os fs a nearby v = map_sum id concat (all_ok (quote_invalid os fs a nearby) (artifact_quotes v))"

text \<open>The artifacts that are named: by \<^verbatim>\<open>artifact_id\<close>, unless a reference to a quote is there too, and by \<^verbatim>\<open>artifact_ids\<close>.\<close>

definition solid_string :: "json \<Rightarrow> string option" where
  "solid_string v = (case v of J_String s \<Rightarrow> (if blank s then None else Some s) | _ \<Rightarrow> None)"

definition listed_ids :: "json \<Rightarrow> string list" where
  "listed_ids v = (case v of J_Array vs \<Rightarrow> List.map_filter solid_string vs | _ \<Rightarrow> [])"

fun artifact_ids :: "json \<Rightarrow> string list" where
  "artifact_ids (J_Object kvs) =
     concat (map (\<lambda>p. if fst p = ''artifact_id'' then (if trusted_quote kvs then [] else List.map_filter solid_string [snd p])
                      else if fst p = ''artifact_ids'' then listed_ids (snd p)
                      else artifact_ids (snd p)) kvs)"
| "artifact_ids (J_Array vs) = concat (map artifact_ids vs)"
| "artifact_ids _ = []"

definition output_artifact_id :: "json \<Rightarrow> string" where
  "output_artifact_id v =
     (case v of
        J_Object kvs \<Rightarrow>
          (case (map_of kvs ''_r42_artifact_path'', string_field ''artifact_id'' kvs) of
             (Some _, Some i) \<Rightarrow> trim_space i
           | _ \<Rightarrow> [])
      | _ \<Rightarrow> [])"

definition unknown_ids :: "evidence_access \<Rightarrow> json \<Rightarrow> string list" where
  "unknown_ids a v =
     sort (filter (\<lambda>i. i \<noteq> output_artifact_id v \<and> \<not> has_artifact a i) (remdups (artifact_ids v)))"

fun artifact_paths :: "json \<Rightarrow> string list" where
  "artifact_paths (J_Object kvs) =
     concat (map (\<lambda>p. if fst p = ''artifact_path'' then List.map_filter solid_string [snd p] else artifact_paths (snd p)) kvs)"
| "artifact_paths (J_Array vs) = concat (map artifact_paths vs)"
| "artifact_paths _ = []"

definition within_the_workspace :: "'fs os \<Rightarrow> string \<Rightarrow> string \<Rightarrow> bool" where
  "within_the_workspace os workspace p =
     (case (os_abs os workspace, os_abs os p) of (Inr root, Inr candidate) \<Rightarrow> path_within root candidate | _ \<Rightarrow> False)"

definition foreign_paths :: "'fs os \<Rightarrow> string \<Rightarrow> json \<Rightarrow> string list" where
  "foreign_paths os workspace v = filter (\<lambda>p. \<not> within_the_workspace os workspace p) (artifact_paths v)"

section \<open>The guards\<close>

text \<open>A rejection is a code with a message.\<close>

type_synonym guard_rejection = "string \<times> message"

definition listing :: "string \<Rightarrow> string list \<Rightarrow> message" where
  "listing label xs = Text (label @ strings_join '', '' xs)"

definition enforce_references ::
  "'fs os \<Rightarrow> 'fs \<Rightarrow> error + evidence_access \<Rightarrow> (quote_reference \<Rightarrow> string) \<Rightarrow> string \<Rightarrow> json \<Rightarrow> guard_rejection option" where
  "enforce_references os fs access nearby workspace v =
     (case access of
        Inl e \<Rightarrow> Some (''artifact_read_failed'', e)
      | Inr a \<Rightarrow>
          if foreign_paths os workspace v \<noteq> []
          then Some (''artifact_path_not_allowed'',
                 listing ''use artifact_id for cross-block evidence references; paths are outside this research task workspace: ''
                   (foreign_paths os workspace v))
          else if unknown_ids a v \<noteq> []
          then Some (''unknown_artifact_id'',
                 listing ''artifact IDs are not authorized for this research task: '' (unknown_ids a v))
          else case invalid_quotes os fs a nearby v of
                 Inl e \<Rightarrow> Some (''artifact_read_failed'', e)
               | Inr (d # ds) \<Rightarrow>
                   Some (''artifact_quote_not_found'',
                     Format ''exact_quote is not present in its referenced artifact_id after whitespace normalization: %s''
                       (map TextArg (d # ds)))
               | Inr [] \<Rightarrow>
                   (case invalid_sources a v of
                      Inl e \<Rightarrow> Some (''artifact_read_failed'', e)
                    | Inr [] \<Rightarrow> None
                    | Inr is \<Rightarrow>
                        Some (''artifact_source_mismatch'',
                          listing ''source must match the Source header recorded in its referenced artifact_id: '' is)))"

text \<open>\<^verbatim>\<open>bindQuoteReferences\<close> around \<^verbatim>\<open>enforceArtifactIDReferences\<close>: a rejection, or the arguments for the tool.\<close>

definition guard_arguments ::
  "'fs os \<Rightarrow> 'fs \<Rightarrow> json_codec \<Rightarrow> quote_registry \<Rightarrow> error + evidence_access \<Rightarrow> (quote_reference \<Rightarrow> string) \<Rightarrow> string \<Rightarrow> json \<Rightarrow>
   guard_rejection + json" where
  "guard_arguments os fs c r access nearby workspace v =
     (let (v', unknown) = resolve_references c r v in
      if unknown \<noteq> [] then Inl (''unknown_quote_ref'', listing ''unknown quote_ref values: '' unknown)
      else case enforce_references os fs access nearby workspace v' of
             Some rejected \<Rightarrow> Inl rejected
           | None \<Rightarrow> Inr v')"

text \<open>A rejection answers the call, and is recorded if the call was of the terminal tool.\<close>

definition rejected_reference ::
  "string \<Rightarrow> string \<Rightarrow> guard_rejection \<Rightarrow> terminal_recorder option \<Rightarrow> (error + string tool_response) \<times> terminal_recorder option" where
  "rejected_reference tool_name terminal_name rejected terminal =
     (let response = rejected_tool_result (fst rejected) (snd rejected) in
      case terminal of
        Some t \<Rightarrow>
          if tool_name = terminal_name
          then (case record_terminal response t of
                  (Some e, t') \<Rightarrow> (Inl e, Some t')
                | (None, t') \<Rightarrow> (Inr response, Some t'))
          else (Inr response, Some t)
      | None \<Rightarrow> (Inr response, None))"

section \<open>Paths of artifacts\<close>

definition cut_suffix :: "string \<Rightarrow> string \<Rightarrow> string option" where
  "cut_suffix sfx s = (if suffix sfx s then Some (take (length s - length sfx) s) else None)"

definition path_id_field :: "string \<Rightarrow> string" where
  "path_id_field f =
     (if \<not> prefix ''_r42_'' f then []
      else let name = drop 5 f in
        if name = ''artifact_path'' then ''artifact_id''
        else case cut_suffix ''_paths'' name of
               Some p \<Rightarrow> p @ ''_artifact_ids''
             | None \<Rightarrow> (case cut_suffix ''_path'' name of Some p \<Rightarrow> p @ ''_artifact_id'' | None \<Rightarrow> []))"

definition file_path :: "registry \<Rightarrow> message \<Rightarrow> string \<Rightarrow> error + string" where
  "file_path r not_file i =
     (case record_of r i of
        Inl e \<Rightarrow> Inl e
      | Inr rec \<Rightarrow> (if rec_type rec \<noteq> ArtFile then Inl not_file else Inr (rec_path rec)))"

fun path_items :: "registry \<Rightarrow> int \<Rightarrow> json list \<Rightarrow> error + json list" where
  "path_items r n [] = Inr []"
| "path_items r n (v # vs) =
     (case solid_string v of
        None \<Rightarrow> Inl (Format ''item %d must be an artifact ID'' [IntArg n])
      | Some i \<Rightarrow>
          (case file_path r (Format ''artifact ID %q must name a file artifact'' [StrArg i]) i of
             Inl e \<Rightarrow> Inl e
           | Inr p \<Rightarrow> (case path_items r (n + 1) vs of Inl e \<Rightarrow> Inl e | Inr ps \<Rightarrow> Inr (J_String p # ps))))"

definition path_list :: "json option \<Rightarrow> registry \<Rightarrow> error + json list" where
  "path_list v r =
     (case v of Some (J_Array vs) \<Rightarrow> path_items r 0 vs | _ \<Rightarrow> Inl (Text ''must be a list of artifact IDs''))"

definition path_value :: "registry \<Rightarrow> (string \<times> json) list \<Rightarrow> string \<Rightarrow> error + json" where
  "path_value r kvs f =
     (let id_field = path_id_field f in
      if suffix ''_paths'' f
      then (case path_list (map_of kvs id_field) r of
              Inl e \<Rightarrow> Inl (Format ''%s: %w'' [StrArg id_field, TextArg e])
            | Inr ps \<Rightarrow> Inr (J_Array ps))
      else
        case solid_field id_field kvs of
          None \<Rightarrow> Inl (Format ''%s is required'' [StrArg id_field])
        | Some i \<Rightarrow>
            (case file_path r (Format ''%s %q must name a file artifact'' [StrArg id_field, StrArg i]) i of
               Inl e \<Rightarrow> Inl e
             | Inr p \<Rightarrow>
                 (if f = ''_r42_artifact_path'' \<and> \<not> has_purpose r i PurposeOutput
                  then Inl (Format ''artifact_id %q must name a declared file output artifact'' [StrArg i])
                  else Inr (J_String p))))"

fun fill_paths :: "registry option \<Rightarrow> string list \<Rightarrow> (string \<times> json) list \<Rightarrow> error + (string \<times> json) list" where
  "fill_paths r [] kvs = Inr kvs"
| "fill_paths None (f # fs) kvs = Inl (Text ''artifact registry is required'')"
| "fill_paths (Some r) (f # fs) kvs =
     (case path_value r kvs f of
        Inl e \<Rightarrow> Inl e
      | Inr v \<Rightarrow> fill_paths (Some r) fs (AList.update f v kvs))"

definition materialize_paths :: "registry option \<Rightarrow> (string \<times> json) list \<Rightarrow> error + (string \<times> json) list" where
  "materialize_paths r kvs = fill_paths r (sort (filter (\<lambda>f. path_id_field f \<noteq> []) (keys kvs))) kvs"

section \<open>What passes\<close>

definition resolve_field :: "json_codec \<Rightarrow> quote_registry \<Rightarrow> string \<times> json \<Rightarrow> json \<times> string list" where
  "resolve_field c r p =
     (if fst p = ''quote_ref'' then (snd p, [])
      else if json_string (snd p) \<noteq> None then resolve_leaf c r (the (json_string (snd p)))
      else resolve_references c r (snd p))"

lemma zip_fields: "zip (map fst xs) (map f xs) = map (\<lambda>p. (fst p, f p)) xs"
  by (induction xs) simp_all

lemma resolve_object:
  "resolve_references c r (J_Object kvs) =
     (J_Object (map (\<lambda>p. (fst p, fst (resolve_field c r p))) (fst (fill_object r kvs))),
      snd (fill_object r kvs) @ concat (map (snd \<circ> resolve_field c r) (fst (fill_object r kvs))))"
  by (cases "fill_object r kvs") (simp add: resolve_field_def [abs_def] zip_fields Let_def comp_def)

declare resolve_references.simps(1) [simp del]

lemma map_of_fields: "map_of (map (\<lambda>p. (fst p, f p)) xs) k = map_option (\<lambda>v. f (k, v)) (map_of xs k)"
  by (induction xs) auto

definition fields_distinct :: "json \<Rightarrow> bool" where
  "fields_distinct v \<longleftrightarrow> list_all (distinct \<circ> keys) (objects_of v)"

text \<open>No reference is an object or an array itself.\<close>

definition references_flat :: "json \<Rightarrow> bool" where
  "references_flat v \<longleftrightarrow>
     list_all (\<lambda>kvs. case map_of kvs ''quote_ref'' of None \<Rightarrow> True | Some x \<Rightarrow> objects_of x = []) (objects_of v)"

text \<open>No quote reads like a reference.\<close>

definition quotes_plain :: "quote_registry \<Rightarrow> bool" where
  "quotes_plain r \<longleftrightarrow> list_all (\<lambda>p. \<not> quote_like (qu_artifact (snd p)) \<and> \<not> quote_like (qu_exact (snd p))) (qr_by_ref r)"

definition genuine_object :: "quote_registry \<Rightarrow> (string \<times> json) list \<Rightarrow> bool" where
  "genuine_object r kvs \<longleftrightarrow>
     (trusted_quote kvs \<longrightarrow>
        (\<exists>ref q. resolve_quote ref r = Some q \<and> string_field ''artifact_id'' kvs = Some (qu_artifact q) \<and>
           string_field ''exact_quote'' kvs = Some (qu_exact q)))"

lemma resolve_leaf_objects [simp]: "objects_of (fst (resolve_leaf c r s)) = []"
  by (auto simp: resolve_leaf_def split: sum.splits prod.splits)

lemma resolve_leaf_plain: "\<not> quote_like s \<Longrightarrow> resolve_leaf c r s = (J_String s, [])"
  by (simp add: resolve_leaf_def resolve_quote_string_def)

lemma fill_quote_fields:
  "map_of (fill_quote q kvs) ''artifact_id'' = Some (J_String (qu_artifact q))"
  "map_of (fill_quote q kvs) ''exact_quote'' = Some (J_String (qu_exact q))"
  by (simp_all add: fill_quote_def set_field_def update_conv')

lemma json_string_Some: "json_string v = Some s \<longleftrightarrow> v = J_String s"
  by (cases v) simp_all

text \<open>The object itself: it is trusted only if its reference was resolved, and then it says what the registry says.\<close>

lemma resolved_object_genuine:
  assumes "snd (fill_object r kvs) = []" "quotes_plain r"
  shows "genuine_object r (map (\<lambda>p. (fst p, fst (resolve_field c r p))) (fst (fill_object r kvs)))" (is "genuine_object r ?kvs")
  unfolding genuine_object_def
proof
  assume trusted: "trusted_quote ?kvs"
  show "\<exists>ref q. resolve_quote ref r = Some q \<and> string_field ''artifact_id'' ?kvs = Some (qu_artifact q) \<and>
    string_field ''exact_quote'' ?kvs = Some (qu_exact q)"
  proof (cases "solid_field ''quote_ref'' kvs")
    case None
    then have "fst (fill_object r kvs) = kvs" by (simp add: fill_object_def)
    then have "string_field ''quote_ref'' ?kvs = string_field ''quote_ref'' kvs"
      by (simp add: string_field_def map_of_fields resolve_field_def split: option.split)
    with None trusted show ?thesis by (simp add: trusted_quote_def solid_field_def)
  next
    case (Some ref)
    with assms(1) obtain q where q: "resolve_quote ref r = Some q" "fst (fill_object r kvs) = fill_quote q kvs"
      by (auto simp: fill_object_def split: option.splits)
    from map_of_SomeD [OF q(1) [unfolded resolve_quote_def]] assms(2)
    have "\<not> quote_like (qu_artifact q)" "\<not> quote_like (qu_exact q)" by (auto simp: quotes_plain_def list_all_iff)
    then have "string_field ''artifact_id'' ?kvs = Some (qu_artifact q) \<and> string_field ''exact_quote'' ?kvs = Some (qu_exact q)"
      by (simp add: q(2) string_field_def map_of_fields fill_quote_fields resolve_field_def resolve_leaf_plain)
    with q(1) show ?thesis by blast
  qed
qed

lemma resolved_genuine:
  "snd (resolve_references c r v) = [] \<Longrightarrow> references_flat v \<Longrightarrow> fields_distinct v \<Longrightarrow> quotes_plain r \<Longrightarrow>
   kvs \<in> set (objects_of (fst (resolve_references c r v))) \<Longrightarrow> genuine_object r kvs"
proof (induction v rule: measure_induct_rule [of size])
  case (less v)
  show ?case
  proof (cases v)
    case (J_Object ovs)
    note v = less.prems(1) [unfolded J_Object resolve_object, simplified]
    from less.prems(5) J_Object consider
        "kvs = map (\<lambda>p. (fst p, fst (resolve_field c r p))) (fst (fill_object r ovs))"
      | p where "p \<in> set (fst (fill_object r ovs))" "kvs \<in> set (objects_of (fst (resolve_field c r p)))"
      by (auto simp: resolve_object)
    then show ?thesis
    proof cases
      case 1
      with v less.prems(4) show ?thesis using resolved_object_genuine by blast
    next
      case (2 p)
      show ?thesis
      proof (cases "json_string (snd p) = None")
        case False
        then have "objects_of (fst (resolve_field c r p)) = []"
          by (cases "snd p") (auto simp: resolve_field_def)
        with 2 show ?thesis by simp
      next
        case True
        with 2(1) have p: "p \<in> set ovs" by (rule in_fill_object)
        have sub: "list_all P (objects_of v) \<Longrightarrow> list_all P (objects_of (snd p))" for P
          using p J_Object by (auto simp: list_all_iff)
        show ?thesis
        proof (cases "fst p = ''quote_ref''")
          case key: True
          from less.prems(3) J_Object have "distinct (map fst ovs)" by (simp add: fields_distinct_def keys_def)
          with p key have "map_of ovs ''quote_ref'' = Some (snd p)" by (metis map_of_is_SomeI prod.collapse)
          with less.prems(2) J_Object have "objects_of (snd p) = []" by (simp add: references_flat_def)
          with 2 key show ?thesis by (simp add: resolve_field_def)
        next
          case other: False
          then have field: "resolve_field c r p = resolve_references c r (snd p)" using True by (simp add: resolve_field_def)
          have "snd (resolve_field c r p) = []" using v 2(1) by auto
          moreover have "size (snd p) < size v" using json_object_size [OF p] J_Object by simp
          ultimately show ?thesis
            using less.IH [of "snd p"] less.prems(2-4) sub 2(2) field by (simp add: references_flat_def fields_distinct_def)
        qed
      qed
    qed
  next
    case (J_Array vs)
    with less.prems(5) obtain x where x: "x \<in> set vs" "kvs \<in> set (objects_of (fst
        (if json_string x \<noteq> None then resolve_leaf c r (the (json_string x)) else resolve_references c r x)))"
      by (auto simp: Let_def)
    show ?thesis
    proof (cases "json_string x = None")
      case False
      with x show ?thesis by simp
    next
      case True
      have "snd (resolve_references c r x) = []" using less.prems(1) J_Array x(1) True by (auto simp: Let_def)
      moreover have "size x < size v" using json_array_size [OF x(1)] J_Array by simp
      moreover have "list_all P (objects_of v) \<Longrightarrow> list_all P (objects_of x)" for P
        using x(1) J_Array by (auto simp: list_all_iff)
      ultimately show ?thesis
        using less.IH [of x] less.prems(2-4) x(2) True by (simp add: references_flat_def fields_distinct_def)
    qed
  qed (use less.prems in auto)
qed

lemma quotes_found:
  "kvs \<in> set (objects_of v) \<Longrightarrow> \<not> trusted_quote kvs \<Longrightarrow> solid_field ''artifact_id'' kvs = Some i \<Longrightarrow>
     solid_field ''exact_quote'' kvs = Some t \<Longrightarrow> \<exists>f \<in> set (quotes_at path label v). qf_artifact f = i \<and> qf_quote f = t"
  "kvs \<in> (\<Union>v \<in> set vs. set (objects_of v)) \<Longrightarrow> \<not> trusted_quote kvs \<Longrightarrow> solid_field ''artifact_id'' kvs = Some i \<Longrightarrow>
     solid_field ''exact_quote'' kvs = Some t \<Longrightarrow> \<exists>f \<in> set (quotes_in path label n vs). qf_artifact f = i \<and> qf_quote f = t"
  "kvs \<in> (\<Union>p \<in> set ovs. set (objects_of (snd p))) \<Longrightarrow> \<not> trusted_quote kvs \<Longrightarrow> solid_field ''artifact_id'' kvs = Some i \<Longrightarrow>
     solid_field ''exact_quote'' kvs = Some t \<Longrightarrow> \<exists>f \<in> set (quotes_under path label ovs). qf_artifact f = i \<and> qf_quote f = t"
proof (induction path label v and path label n vs and path label ovs rule: quotes_at_quotes_in_quotes_under.induct)
  case (1 path label ovs)
  from 1(2) consider "kvs = ovs" | "kvs \<in> (\<Union>p \<in> set ovs. set (objects_of (snd p)))" by auto
  then show ?case
  proof cases
    case 1
    then show ?thesis using "1.prems" by (simp add: object_quote_def)
  next
    case 2
    with 1 show ?thesis by auto
  qed
qed (simp; blast)+

text \<open>What the check of the quotes lets through was found in the artifact that was read.\<close>

definition found_in :: "'fs os \<Rightarrow> 'fs \<Rightarrow> evidence_access \<Rightarrow> string \<Rightarrow> string \<Rightarrow> bool" where
  "found_in os fs a i t \<longleftrightarrow>
     has_artifact a i \<and>
     (\<exists>rec content. record_of (ea_registry a) i = Inr rec \<and> os_read_file os fs (rec_path rec) = Inr content \<and>
        sublist (normalize_whitespace t) (normalize_whitespace content))"

lemma enforced_quotes:
  assumes "enforce_references os fs (Inr a) nearby workspace v = None" "kvs \<in> set (objects_of v)" "\<not> trusted_quote kvs"
    "solid_field ''artifact_id'' kvs = Some i" "solid_field ''exact_quote'' kvs = Some t"
  shows "found_in os fs a i t"
proof -
  from quotes_found(1) [OF assms(2-5)] obtain f where f: "f \<in> set (artifact_quotes v)" "qf_artifact f = i" "qf_quote f = t"
    unfolding artifact_quotes_def by blast
  from assms(1) have "invalid_quotes os fs a nearby v = Inr []"
    by (simp add: enforce_references_def split: if_splits sum.splits list.splits)
  then obtain dss where dss: "all_ok (quote_invalid os fs a nearby) (artifact_quotes v) = Inr dss" "concat dss = []"
    by (cases "all_ok (quote_invalid os fs a nearby) (artifact_quotes v)") (simp_all add: invalid_quotes_def)
  then have "list_all2 (\<lambda>f ds. quote_invalid os fs a nearby f = Inr ds) (artifact_quotes v) dss" by (simp add: all_ok_Inr)
  then obtain ds where "ds \<in> set dss" "quote_invalid os fs a nearby f = Inr ds"
    using f(1) by (induction rule: list_all2_induct) auto
  with dss(2) have "quote_invalid os fs a nearby f = Inr []" by auto
  then have "contains_normalized os fs a i t = Inr True"
    using f by (simp add: quote_invalid_def split: sum.splits if_splits)
  then show ?thesis
    by (auto simp: contains_normalized_def found_in_def Let_def split: if_splits sum.splits)
qed

lemma solid_field_string: "solid_field k kvs = Some s \<Longrightarrow> string_field k kvs = Some s"
  by (auto simp: solid_field_def split: option.splits if_splits)


section \<open>What slips through\<close>

text \<open>
  A reference that is an object is not looked into, but the object in it counts as trusted: its quote is neither resolved nor
  searched for.
\<close>

definition forged :: "(string \<times> json) list" where
  "forged = [(''quote_ref'', J_String ''none''), (''artifact_id'', J_String ''artifact-9''), (''exact_quote'', J_String ''made up'')]"

lemma forged_trusted: "trusted_quote forged"
  by (simp add: trusted_quote_def solid_field_def string_field_def forged_def not_blank_solid space_heads_def space_lasts_def)

lemma nested_reference_is_unchecked:
  "guard_arguments os fs c r (Inr a) nearby workspace (J_Object [(''quote_ref'', J_Object forged)]) =
     Inr (J_Object [(''quote_ref'', J_Object forged)])"
proof -
  let ?v = "J_Object [(''quote_ref'', J_Object forged)]"
  have outer: "solid_field k [(''quote_ref'', J_Object forged)] = None" for k
    by (simp add: solid_field_def string_field_def)
  have resolved: "resolve_references c r ?v = (?v, [])"
    by (simp add: resolve_object fill_object_def outer resolve_field_def)
  have ids: "artifact_ids (J_Object forged) = []"
    by (simp only: artifact_ids.simps forged_trusted if_True) (simp add: forged_def)
  have objects: "objects_of ?v = [[(''quote_ref'', J_Object forged)], forged]" by (simp add: forged_def)
  have "quotes_under path label forged = []" for path label by (simp add: forged_def)
  then have "artifact_quotes ?v = []" using forged_trusted outer by (simp add: artifact_quotes_def object_quote_def)
  moreover have "artifact_sources ?v = []"
    unfolding artifact_sources_def objects using forged_trusted outer by (simp add: object_sources_def)
  moreover have "artifact_ids ?v = []" by (subst artifact_ids.simps(1)) (simp add: ids del: artifact_ids.simps)
  moreover have "artifact_paths ?v = []" by (simp add: forged_def)
  ultimately have "artifact_quotes ?v = []" "artifact_sources ?v = []" "artifact_ids ?v = []" "artifact_paths ?v = []" by blast+
  note none = this
  have "enforce_references os fs (Inr a) nearby workspace ?v = None"
    unfolding enforce_references_def sum.case foreign_paths_def unknown_ids_def invalid_quotes_def invalid_sources_def none by simp
  then show ?thesis unfolding guard_arguments_def resolved by simp
qed

text \<open>The other fields of an object with a good reference are kept as they are claimed; none is compared with the source.\<close>

lemma claimed_source_is_kept:
  assumes "resolve_quote ref r = Some q" "\<not> blank ref" "\<not> quote_like url" "\<not> blank (qu_ref q)"
  obtains kvs where "fst (resolve_references c r (J_Object [(''quote_ref'', J_String ref), (''source_url'', J_String url)])) = J_Object kvs"
    "string_field ''source_url'' kvs = Some url" "object_sources kvs = []"
proof -
  let ?kvs = "[(''quote_ref'', J_String ref), (''source_url'', J_String url)]"
  have filled: "fill_object r ?kvs = (fill_quote q ?kvs, [])"
    using assms by (simp add: fill_object_def solid_field_def string_field_def)
  let ?out = "map (\<lambda>p. (fst p, fst (resolve_field c r p))) (fill_quote q ?kvs)"
  have "string_field ''source_url'' ?out = Some url" "string_field ''quote_ref'' ?out = Some (qu_ref q)"
    using assms(3)
    by (simp_all add: string_field_def map_of_fields fill_quote_def set_field_def update_conv' resolve_field_def resolve_leaf_plain)
  moreover then have "object_sources ?out = []"
    using assms(4) by (simp add: object_sources_def trusted_quote_def solid_field_def)
  ultimately show thesis using that [of ?out] filled by (simp add: resolve_object)
qed

section \<open>Paths are those of the artifacts that are named\<close>

lemma path_id_field_suffix:
  "path_id_field f = [] \<or> (\<exists>p. path_id_field f = p @ ''artifact_id'' \<or> path_id_field f = p @ ''artifact_ids'')"
proof -
  have "path_id_field f \<in> {[], ''artifact_id''} \<or> (\<exists>p. path_id_field f = p @ ''_artifact_id'' \<or> path_id_field f = p @ ''_artifact_ids'')"
    by (auto simp: path_id_field_def Let_def split: option.splits)
  then show ?thesis
  proof (elim disjE exE)
    fix p assume "path_id_field f = p @ ''_artifact_id''"
    then have "path_id_field f = (p @ ''_'') @ ''artifact_id''" by simp
    then show ?thesis by blast
  next
    fix p assume "path_id_field f = p @ ''_artifact_ids''"
    then have "path_id_field f = (p @ ''_'') @ ''artifact_ids''" by simp
    then show ?thesis by blast
  qed (auto intro: exI [of _ "[]"])
qed

text \<open>A field that holds an ID is not one that holds a path.\<close>

lemma id_field_no_path:
  assumes "path_id_field g \<noteq> []"
  shows "g \<noteq> path_id_field f"
proof
  assume g: "g = path_id_field f"
  have "suffix ''_path'' g \<or> suffix ''_paths'' g \<or> g = ''_r42_artifact_path''"
  proof -
    from assms have pre: "g = ''_r42_'' @ drop 5 g" by (auto simp: path_id_field_def prefix_def split: if_splits)
    from assms have "drop 5 g = ''artifact_path'' \<or> suffix ''_paths'' (drop 5 g) \<or> suffix ''_path'' (drop 5 g)"
      by (auto simp: path_id_field_def Let_def cut_suffix_def split: if_splits option.splits)
    then show ?thesis using pre by (metis append_Cons append_Nil suffix_appendI)
  qed
  then have "last g = CHR ''h'' \<or> last (butlast g) = CHR ''h''" by (auto simp: suffix_def butlast_append)
  moreover from path_id_field_suffix [of f] g assms
  have "g = [] \<or> (last g = CHR ''d'' \<or> last g = CHR ''s'') \<and> (last (butlast g) = CHR ''i'' \<or> last (butlast g) = CHR ''d'')"
    by (auto simp: butlast_append)
  moreover have "g \<noteq> []" using assms by (auto simp: path_id_field_def)
  ultimately show False by auto
qed

lemma path_value_kept:
  "path_id_field g \<noteq> [] \<Longrightarrow> path_value r (AList.update g v kvs) f = path_value r kvs f"
proof -
  assume "path_id_field g \<noteq> []"
  then have same: "map_of (AList.update g v kvs) (path_id_field f) = map_of kvs (path_id_field f)"
    using id_field_no_path [of g f] by (simp add: update_conv')
  show ?thesis unfolding path_value_def solid_field_def string_field_def Let_def same by (rule refl)
qed

lemma fill_paths_each:
  "fill_paths r fs kvs = Inr kvs' \<Longrightarrow> distinct fs \<Longrightarrow> (\<And>f. f \<in> set fs \<Longrightarrow> path_id_field f \<noteq> []) \<Longrightarrow>
     (\<forall>f \<in> set fs. \<exists>reg. r = Some reg \<and> (\<exists>v. path_value reg kvs f = Inr v \<and> map_of kvs' f = Some v)) \<and>
     (\<forall>k. k \<notin> set fs \<longrightarrow> map_of kvs' k = map_of kvs k)"
proof (induction r fs kvs rule: fill_paths.induct)
  case (3 r f fs kvs)
  then obtain v where v: "path_value r kvs f = Inr v" "fill_paths (Some r) fs (AList.update f v kvs) = Inr kvs'"
    by (auto split: sum.splits)
  from 3(1) [OF v] "3.prems"(2,3) have rest: "\<forall>g \<in> set fs. \<exists>w. path_value r (AList.update f v kvs) g = Inr w \<and> map_of kvs' g = Some w"
      "\<forall>k. k \<notin> set fs \<longrightarrow> map_of kvs' k = map_of (AList.update f v kvs) k" by auto
  have "map_of kvs' f = Some v" using rest(2) "3.prems"(2) by (simp add: update_conv')
  moreover have "\<exists>w. path_value r kvs g = Inr w \<and> map_of kvs' g = Some w" if "g \<in> set fs" for g
    using rest(1) that "3.prems"(3) [of f] by (simp add: path_value_kept)
  ultimately show ?case using v(1) rest(2) by (auto simp: update_conv')
qed auto

lemma bound_paths_name_artifacts:
  assumes "materialize_paths r kvs = Inr kvs'" "distinct (keys kvs)" "f \<in> set (keys kvs)" "path_id_field f \<noteq> []"
  shows "\<exists>reg v. r = Some reg \<and> path_value reg kvs f = Inr v \<and> map_of kvs' f = Some v"
proof -
  have "distinct (sort (filter (\<lambda>f. path_id_field f \<noteq> []) (keys kvs)))" using assms(2) by simp
  from fill_paths_each [OF assms(1) [unfolded materialize_paths_def] this] assms(3,4) show ?thesis by auto
qed

section \<open>A sample\<close>

definition no_json :: json_codec where
  "no_json = \<lparr>jc_marshal = \<lambda>_. Inl (Text ''no JSON''), jc_unmarshal_object = \<lambda>_. Inl (Text ''no JSON'')\<rparr>"

definition sample_arguments :: json where
  "sample_arguments = J_Object [(''claim'', J_String ''c''),
     (''quote'', J_Object [(''quote_ref'', J_String ''quote-ref-37310030006636653635366130343737'')])]"

definition sample_guarded :: "quote_registry \<Rightarrow> guard_rejection + json" where
  "sample_guarded r =
     guard_arguments mem_os searched_notes no_json r (Inr \<lparr>ea_registry = sample_registry, ea_allowed = []\<rparr>) (\<lambda>_. []) ''/w'' sample_arguments"

lemma sample_guarded_passes:
  "(let r = sample_quotes 1 in
    quotes_plain r \<and>
    (case sample_guarded r of
       Inr v \<Rightarrow>
         list_ex (\<lambda>kvs. solid_field ''artifact_id'' kvs = Some ''artifact-1'' \<and>
           solid_field ''exact_quote'' kvs = Some ''one two words end'') (objects_of v)
     | Inl _ \<Rightarrow> False))"
  by code_simp


end
