(* ===== verification/Artifact_Reading.thy ===== *)
theory Artifact_Reading
  imports Tool_Arguments
begin

text \<open>
  What sessions read of artifacts: the pages and the directory listings of \<^verbatim>\<open>internal/artifact/registry.go\<close> and, in
  \<^verbatim>\<open>internal/cli/runtime_workflow_tools.go\<close>, the search of all artifacts and the tools that keep the set of artifacts a task
  may read.

  Opening files and walking directories are parameters. A walk is the list of the members that \<^verbatim>\<open>filepath.WalkDir\<close>
  hands to its function, up to an error; it does not follow symbolic links. A file does not change while a page of it is read.
\<close>

section \<open>Files and directories\<close>

datatype member_kind = LinkMember | FolderMember | RegularMember | SpecialMember
datatype walk_item = WalkError error | WalkMember string member_kind

datatype read_call = StatCall | BoundaryCall | SeekCall | ReadCall

record opened_file =
  of_folder :: bool
  of_content :: string
  of_fault :: "read_call \<Rightarrow> error option"

text \<open>\<open>rd_open_in\<close> is \<^verbatim>\<open>os.OpenRoot\<close> of a directory with \<^verbatim>\<open>Open\<close> of a name in it.\<close>

record 'fs reader =
  rd_walk :: "'fs \<Rightarrow> string \<Rightarrow> walk_item list"
  rd_open :: "'fs \<Rightarrow> string \<Rightarrow> error + opened_file"
  rd_open_in :: "'fs \<Rightarrow> string \<Rightarrow> string \<Rightarrow> error + opened_file"

section \<open>Pages\<close>

record page =
  pg_content :: string
  pg_offset :: int
  pg_next :: int
  pg_total :: int
  pg_truncated :: bool

text \<open>\<^verbatim>\<open>utf8.RuneStart\<close>\<close>

definition rune_start :: "char \<Rightarrow> bool" where
  "rune_start c \<longleftrightarrow> \<not> byte_in 0x80 0xBF c"

definition open_artifact :: "'fs reader \<Rightarrow> 'fs \<Rightarrow> string \<Rightarrow> entry \<Rightarrow> error + opened_file" where
  "open_artifact rd fs i item =
     map_sum (\<lambda>e. Format ''open artifact %q: %w'' [StrArg i, TextArg e]) id
       (if ent_root item \<noteq> [] then rd_open_in rd fs (ent_root item) (ent_relative item)
        else rd_open rd fs (rec_path (ent_record item)))"

definition boundary_error :: "string \<Rightarrow> opened_file \<Rightarrow> int \<Rightarrow> error option" where
  "boundary_error i f off =
     (if off < int (length (of_content f))
      then case of_fault f BoundaryCall of
             Some e \<Rightarrow> Some (Format ''read artifact %q offset: %w'' [StrArg i, TextArg e])
           | None \<Rightarrow>
               (if \<not> rune_start (of_content f ! nat off)
                then Some (Format ''artifact offset %d is not a utf-8 character boundary'' [IntArg off]) else None)
      else None)"

definition page_of :: "string \<Rightarrow> opened_file \<Rightarrow> int \<Rightarrow> int \<Rightarrow> error + page" where
  "page_of i f off max_bytes =
     (let total = int (length (of_content f)) in
      case of_fault f StatCall of
        Some e \<Rightarrow> Inl (Format ''stat artifact %q: %w'' [StrArg i, TextArg e])
      | None \<Rightarrow>
     (if of_folder f then Inl (Format ''artifact %q is not a file'' [StrArg i])
      else if off > total then Inl (Format ''artifact offset %d exceeds total bytes %d'' [IntArg off, IntArg total])
      else case boundary_error i f off of
        Some e \<Rightarrow> Inl e
      | None \<Rightarrow>
     (case of_fault f SeekCall of
        Some e \<Rightarrow> Inl (Format ''seek artifact %q: %w'' [StrArg i, TextArg e])
      | None \<Rightarrow>
     (case of_fault f ReadCall of
        Some e \<Rightarrow> Inl (Format ''read artifact %q: %w'' [StrArg i, TextArg e])
      | None \<Rightarrow>
     (let content = cut_invalid (take (nat max_bytes) (drop (nat off) (of_content f)));
          after = off + int (length content)
      in if content = [] \<and> off < total
         then Inl (Format ''max_bytes %d is too small for the next utf-8 character'' [IntArg max_bytes])
         else Inr \<lparr>pg_content = content, pg_offset = off, pg_next = after, pg_total = total,
                   pg_truncated = after < total\<rparr>)))))"

definition read_page :: "'fs reader \<Rightarrow> 'fs \<Rightarrow> registry \<Rightarrow> string \<Rightarrow> int \<Rightarrow> int \<Rightarrow> error + page" where
  "read_page rd fs r i off max_bytes =
     (if off < 0 then Inl (Text ''artifact offset must not be negative'')
      else if max_bytes \<le> 0 then Inl (Text ''read bound must be positive'')
      else case reg_entries r i of
        None \<Rightarrow> Inl (Format ''unknown artifact %q'' [StrArg i])
      | Some item \<Rightarrow>
          (case open_artifact rd fs i item of Inl e \<Rightarrow> Inl e | Inr f \<Rightarrow> page_of i f off max_bytes))"

section \<open>Directories\<close>

text \<open>The ID of a new entry is drawn by \<open>uuid\<close>, for the path it is drawn at.\<close>

definition member_entry :: "(string \<Rightarrow> string) \<Rightarrow> entry \<Rightarrow> string \<Rightarrow> string \<Rightarrow> entry" where
  "member_entry uuid parent path relative =
     \<lparr>ent_record =
        \<lparr>rec_id = ''artifact-'' @ uuid path, rec_name = relative, rec_path = path,
         rec_description = ''File from directory artifact '' @ rec_name (ent_record parent) @ '': '' @ relative,
         rec_kind = KindArtifactFile, rec_type = ArtFile, rec_purpose = rec_purpose (ent_record parent), rec_source = []\<rparr>,
      ent_workspace = ent_workspace parent, ent_root = rec_path (ent_record parent), ent_relative = clean relative,
      ent_purposes = {rec_purpose (ent_record parent)}\<rparr>"

definition adopt_member :: "entry \<Rightarrow> string \<Rightarrow> entry \<Rightarrow> entry" where
  "adopt_member parent relative existing =
     (let named = (if rec_name (ent_record existing) = []
                   then existing\<lparr>ent_record := (ent_record existing)\<lparr>rec_name := relative, rec_kind := KindArtifactFile\<rparr>\<rparr>
                   else existing)
      in named\<lparr>ent_root := rec_path (ent_record parent), ent_relative := clean relative,
               ent_purposes := insert (rec_purpose (ent_record parent)) (ent_purposes existing)\<rparr>)"

definition member_key :: "string \<Rightarrow> string \<Rightarrow> string" where
  "member_key i relative = i @ CHR 0x00 # clean relative"

definition list_member ::
  "'fs os \<Rightarrow> 'fs \<Rightarrow> (string \<Rightarrow> string) \<Rightarrow> string \<Rightarrow> entry \<Rightarrow> string \<Rightarrow> registry \<Rightarrow> (error + art_record) \<times> registry" where
  "list_member os fs uuid i parent path r =
     (case rel_path (rec_path (ent_record parent)) path of
        None \<Rightarrow> (Inl (Format ''Rel: can't make %s relative to %s'' [StrArg path, StrArg (rec_path (ent_record parent))]), r)
      | Some relative \<Rightarrow>
     (case reg_children r (member_key i relative) of
        Some child \<Rightarrow> (Inr (ent_record (entry_at r child)), r)
      | None \<Rightarrow>
     (let key = path_key os fs (ent_workspace parent) path;
          (child, r1) =
            (case reg_paths r key of
               Some existing \<Rightarrow>
                 (existing, put_entry existing (adopt_member parent relative (entry_at r existing)) r)
             | None \<Rightarrow>
                 (let new = ''artifact-'' @ uuid path
                  in (new, (put_entry new (member_entry uuid parent path relative) r)
                             \<lparr>reg_order := reg_order r @ [new], reg_paths := (reg_paths r)(key \<mapsto> new)\<rparr>)));
          r2 = r1\<lparr>reg_children := (reg_children r1)(member_key i relative \<mapsto> child)\<rparr>
      in (Inr (ent_record (entry_at r2 child)), r2))))"

fun list_walk ::
  "'fs os \<Rightarrow> 'fs \<Rightarrow> (string \<Rightarrow> string) \<Rightarrow> string \<Rightarrow> entry \<Rightarrow> walk_item list \<Rightarrow> registry \<Rightarrow>
   (error + art_record list) \<times> registry" where
  "list_walk os fs uuid i parent [] r = (Inr [], r)"
| "list_walk os fs uuid i parent (WalkError e # items) r = (Inl e, r)"
| "list_walk os fs uuid i parent (WalkMember path kind # items) r =
     (if kind \<noteq> RegularMember then list_walk os fs uuid i parent items r
      else case list_member os fs uuid i parent path r of
        (Inl e, r1) \<Rightarrow> (Inl e, r1)
      | (Inr rec, r1) \<Rightarrow> apfst (map_sum id (Cons rec)) (list_walk os fs uuid i parent items r1))"

text \<open>\<^verbatim>\<open>sort.Slice\<close> may exchange files of the same name; the model leaves them in the order of the walk.\<close>

definition list_directory_files ::
  "'fs os \<Rightarrow> 'fs reader \<Rightarrow> 'fs \<Rightarrow> (string \<Rightarrow> string) \<Rightarrow> string \<Rightarrow> registry \<Rightarrow> (error + art_record list) \<times> registry" where
  "list_directory_files os rd fs uuid i r =
     (case reg_entries r i of
        None \<Rightarrow> (Inl (Format ''unknown artifact %q'' [StrArg i]), r)
      | Some parent \<Rightarrow>
     (if rec_kind (ent_record parent) \<noteq> KindArtifact \<or> rec_type (ent_record parent) \<noteq> ArtDirectory
      then (Inl (Format ''artifact %q is not a directory'' [StrArg i]), r)
      else case list_walk os fs uuid i parent (rd_walk rd fs (rec_path (ent_record parent))) r of
        (Inl e, r1) \<Rightarrow> (Inl (Format ''list directory artifact %q: %w'' [StrArg i, TextArg e]), r1)
      | (Inr files, r1) \<Rightarrow> (Inr (sort_key rec_name files), r1)))"

text \<open>\<^verbatim>\<open>artifactIDAuthorized\<close>: a root, or a file in a root. Looking for it lists the directories.\<close>

fun in_root_folders ::
  "'fs os \<Rightarrow> 'fs reader \<Rightarrow> 'fs \<Rightarrow> (string \<Rightarrow> string) \<Rightarrow> string list \<Rightarrow> string \<Rightarrow> registry \<Rightarrow> bool \<times> registry" where
  "in_root_folders os rd fs uuid [] i r = (False, r)"
| "in_root_folders os rd fs uuid (root # roots) i r =
     (case record_of r root of
        Inl e \<Rightarrow> in_root_folders os rd fs uuid roots i r
      | Inr rec \<Rightarrow>
          (if rec_type rec \<noteq> ArtDirectory then in_root_folders os rd fs uuid roots i r
           else case list_directory_files os rd fs uuid root r of
             (Inl e, r1) \<Rightarrow> in_root_folders os rd fs uuid roots i r1
           | (Inr files, r1) \<Rightarrow>
               (if i \<in> rec_id ` set files then (True, r1) else in_root_folders os rd fs uuid roots i r1)))"

definition artifact_id_authorized ::
  "'fs os \<Rightarrow> 'fs reader \<Rightarrow> 'fs \<Rightarrow> (string \<Rightarrow> string) \<Rightarrow> string list \<Rightarrow> string \<Rightarrow> registry \<Rightarrow> bool \<times> registry" where
  "artifact_id_authorized os rd fs uuid roots i r =
     (if i \<in> set roots then (True, r) else in_root_folders os rd fs uuid roots i r)"

section \<open>The search of all artifacts\<close>

record search_all_match =
  am_artifact :: string
  am_name :: string
  am_match :: search_match

record search_all_result =
  al_matches :: "search_all_match list"
  al_searched :: "string list"
  al_truncated :: bool

text \<open>
  The loop over the artifacts appends the files it finds to the list it ranges over, so it need not end: \<open>None\<close> means that it
  does not. \<open>missing\<close> says which errors are \<^verbatim>\<open>os.ErrNotExist\<close>.
\<close>

partial_function (option) discover_files ::
  "'fs os \<Rightarrow> 'fs reader \<Rightarrow> 'fs \<Rightarrow> (string \<Rightarrow> string) \<Rightarrow> (error \<Rightarrow> bool) \<Rightarrow> art_record list \<Rightarrow> registry \<Rightarrow>
   ((error + unit) \<times> art_record list \<times> registry) option" where
  "discover_files os rd fs uuid missing queue r =
     (case queue of
        [] \<Rightarrow> Some (Inr (), [], r)
      | a # as \<Rightarrow>
     (if rec_type a \<noteq> ArtDirectory then discover_files os rd fs uuid missing as r
      else case list_directory_files os rd fs uuid (rec_id a) r of
        (Inl e, r1) \<Rightarrow> (if missing e then discover_files os rd fs uuid missing as r1 else Some (Inl e, [], r1))
      | (Inr files, r1) \<Rightarrow>
          Option.bind (discover_files os rd fs uuid missing (as @ files) r1) (\<lambda>(out, found, r2). Some (out, files @ found, r2))))"

declare discover_files.simps [code]

text \<open>The loop over the sorted list.\<close>

fun search_each ::
  "(string \<Rightarrow> int \<Rightarrow> error + search_result) \<Rightarrow> (error \<Rightarrow> bool) \<Rightarrow> int \<Rightarrow> art_record list \<Rightarrow> string set \<Rightarrow> search_all_result \<Rightarrow>
   (error + unit) \<times> search_all_result" where
  "search_each search missing max_matches [] seen res = (Inr (), res)"
| "search_each search missing max_matches (a # as) seen res =
     (if rec_type a \<noteq> ArtFile \<or> rec_id a \<in> seen then search_each search missing max_matches as seen res
      else let remaining = max_matches - int (length (al_matches res)) in
        if remaining = 0 then (Inr (), res\<lparr>al_truncated := True\<rparr>)
        else case search (rec_id a) remaining of
          Inl e \<Rightarrow>
            (if missing e then search_each search missing max_matches as (insert (rec_id a) seen) res else (Inl e, res))
        | Inr found \<Rightarrow>
            (let res1 = res\<lparr>al_searched := al_searched res @ [rec_id a],
                            al_matches := al_matches res @ map (\<lambda>m. \<lparr>am_artifact = rec_id a, am_name = rec_name a, am_match = m\<rparr>) (sr_matches found)\<rparr>
             in if sr_truncated found then (Inr (), res1\<lparr>al_truncated := True\<rparr>)
                else search_each search missing max_matches as (insert (rec_id a) seen) res1))"

definition no_matches :: search_all_result where
  "no_matches = \<lparr>al_matches = [], al_searched = [], al_truncated = False\<rparr>"

definition search_authorized ::
  "'fs os \<Rightarrow> 'fs reader \<Rightarrow> 'fs \<Rightarrow> (string \<Rightarrow> string) \<Rightarrow> (error \<Rightarrow> bool) \<Rightarrow> 'x regexp \<Rightarrow> (string \<Rightarrow> string) \<Rightarrow>
   art_record list \<Rightarrow> string \<Rightarrow> bool \<Rightarrow> int \<Rightarrow> int \<Rightarrow> registry \<Rightarrow>
   ((error + search_all_result \<times> string list) \<times> registry) option" where
  "search_authorized os rd fs uuid missing rx sha as pattern case_sensitive max_matches context r =
     (if max_matches \<le> 0 then Some (Inl (Text ''maximum matches must be positive''), r)
      else case discover_files os rd fs uuid missing as r of
        None \<Rightarrow> None
      | Some (Inl e, files, r1) \<Rightarrow> Some (Inl e, r1)
      | Some (Inr _, files, r1) \<Rightarrow>
          Some (case search_each (\<lambda>i n. search_artifact os rx sha fs r1 i pattern case_sensitive n context) missing max_matches
                  (sort_key rec_id (as @ files)) {} no_matches of
             (Inl e, res) \<Rightarrow> (Inl e, r1)
           | (Inr _, res) \<Rightarrow> (Inr (res, map rec_id files), r1)))"

section \<open>The tools of a task\<close>

text \<open>
  The tools of one task share the set of artifacts it may read, the artifact registry and the registry of quotes. \<open>given\<close> are
  the artifacts the task starts with and \<open>extra\<close> those of its context at the time of a call.
\<close>

record task_view =
  tv_open :: "string list"
  tv_registry :: registry
  tv_quotes :: quote_registry

definition add_authorized :: "string list \<Rightarrow> string list \<Rightarrow> task_view \<Rightarrow> task_view" where
  "add_authorized given extra v = v\<lparr>tv_open := List.union (given @ extra) (tv_open v)\<rparr>"

definition listed_artifacts :: "task_view \<Rightarrow> error + art_record list" where
  "listed_artifacts v = records_of (tv_registry v) (sort (remdups (tv_open v)))"

definition unknown_artifact :: "string \<Rightarrow> 'a tool_response" where
  "unknown_artifact i = rejected_tool_result ''unknown_artifact'' (Format ''unknown artifact %q'' [StrArg i])"

definition list_artifact_files_tool ::
  "'fs os \<Rightarrow> 'fs reader \<Rightarrow> 'fs \<Rightarrow> (string \<Rightarrow> string) \<Rightarrow> string list \<Rightarrow> string list \<Rightarrow> string \<Rightarrow> task_view \<Rightarrow>
   art_record list tool_response \<times> task_view" where
  "list_artifact_files_tool os rd fs uuid given extra i v0 =
     (let v = add_authorized given extra v0 in
      if i \<notin> set (tv_open v) then (unknown_artifact i, v)
      else case list_directory_files os rd fs uuid i (tv_registry v) of
        (Inl e, r) \<Rightarrow> (rejected_tool_result ''artifact_directory_read_failed'' e, v\<lparr>tv_registry := r\<rparr>)
      | (Inr files, r) \<Rightarrow> (accept files, v\<lparr>tv_registry := r, tv_open := List.union (map rec_id files) (tv_open v)\<rparr>))"

definition read_artifact_tool ::
  "'fs reader \<Rightarrow> 'fs \<Rightarrow> string list \<Rightarrow> string list \<Rightarrow> string \<Rightarrow> int \<Rightarrow> int \<Rightarrow> task_view \<Rightarrow> (page \<times> string) tool_response \<times> task_view" where
  "read_artifact_tool rd fs given extra i off max_bytes v0 =
     (let v = add_authorized given extra v0 in
      (if i \<notin> set (tv_open v) then unknown_artifact i
       else case read_page rd fs (tv_registry v) i off max_bytes of
         Inl e \<Rightarrow> rejected_tool_result ''artifact_read_failed'' e
       | Inr p \<Rightarrow>
           (case record_of (tv_registry v) i of
              Inl e \<Rightarrow> rejected_tool_result ''artifact_read_failed'' e
            | Inr rec \<Rightarrow> accept (p, rec_source rec)), v))"

definition search_artifacts_tool ::
  "'fs os \<Rightarrow> 'fs reader \<Rightarrow> 'fs \<Rightarrow> (string \<Rightarrow> string) \<Rightarrow> (error \<Rightarrow> bool) \<Rightarrow> 'x regexp \<Rightarrow> (string \<Rightarrow> string) \<Rightarrow> string list \<Rightarrow> string list \<Rightarrow>
   string \<Rightarrow> bool \<Rightarrow> int \<Rightarrow> int option \<Rightarrow> task_view \<Rightarrow> (search_all_result tool_response \<times> task_view) option" where
  "search_artifacts_tool os rd fs uuid missing rx sum256 given extra pattern case_sensitive matches lines v0 =
     (let v = add_authorized given extra v0;
          max_matches = (if matches = 0 then 10 else matches);
          context = (case lines of None \<Rightarrow> 3 | Some n \<Rightarrow> n)
      in case listed_artifacts v of
        Inl e \<Rightarrow> Some (rejected_tool_result ''artifact_search_failed'' e, v)
      | Inr records \<Rightarrow>
     (case search_authorized os rd fs uuid missing rx (digest_hex sum256) records pattern case_sensitive max_matches context (tv_registry v) of
        None \<Rightarrow> None
      | Some (Inl e, r) \<Rightarrow> Some (rejected_tool_result ''artifact_search_failed'' e, v\<lparr>tv_registry := r\<rparr>)
      | Some (Inr (res, found), r) \<Rightarrow>
          Some (case capture_all os sum256 fs r context (map (\<lambda>m. (am_artifact m, am_match m)) (al_matches res)) (tv_quotes v) of
             (Inl e, q) \<Rightarrow> (rejected_tool_result ''artifact_search_failed'' e, v\<lparr>tv_registry := r, tv_quotes := q\<rparr>)
           | (Inr ms, q) \<Rightarrow>
               (accept (res\<lparr>al_matches := map2 (\<lambda>m p. m\<lparr>am_match := snd p\<rparr>) (al_matches res) ms\<rparr>),
                v\<lparr>tv_registry := r, tv_quotes := q, tv_open := List.union found (tv_open v)\<rparr>))))"

definition search_artifact_tool ::
  "'fs os \<Rightarrow> 'fs \<Rightarrow> 'x regexp \<Rightarrow> (string \<Rightarrow> string) \<Rightarrow> string list \<Rightarrow> string list \<Rightarrow> string \<Rightarrow> string \<Rightarrow> bool \<Rightarrow> int \<Rightarrow> int option \<Rightarrow>
   task_view \<Rightarrow> search_result tool_response \<times> task_view" where
  "search_artifact_tool os fs rx sum256 given extra i pattern case_sensitive matches lines v =
     (let max_matches = (if matches = 0 then 10 else matches);
          context = (case lines of None \<Rightarrow> 3 | Some n \<Rightarrow> n)
      in case new_evidence_access (tv_registry v) (given @ extra) of
        Inl e \<Rightarrow> (rejected_tool_result ''artifact_search_failed'' e, v)
      | Inr a \<Rightarrow>
     (case access_search os rx (digest_hex sum256) fs a i pattern case_sensitive max_matches context of
        Inl e \<Rightarrow> (rejected_tool_result ''artifact_search_failed'' e, v)
      | Inr res \<Rightarrow>
     (case capture_all os sum256 fs (tv_registry v) context (map (Pair i) (sr_matches res)) (tv_quotes v) of
        (Inl e, q) \<Rightarrow> (rejected_tool_result ''artifact_search_failed'' e, v\<lparr>tv_quotes := q\<rparr>)
      | (Inr ms, q) \<Rightarrow> (accept (res\<lparr>sr_matches := map snd ms\<rparr>), v\<lparr>tv_quotes := q\<rparr>))))"

definition capture_quote_tool ::
  "'fs os \<Rightarrow> 'fs \<Rightarrow> (string \<Rightarrow> string) \<Rightarrow> string list \<Rightarrow> string list \<Rightarrow> string \<Rightarrow> int option \<Rightarrow> int option \<Rightarrow> task_view \<Rightarrow>
   quote tool_response \<times> task_view" where
  "capture_quote_tool os fs sum256 given extra ref before_lines after_lines v0 =
     (let or3 = (\<lambda>n. case n of None \<Rightarrow> 3 | Some k \<Rightarrow> k) in
      case resolve_quote ref (tv_quotes v0) of
        None \<Rightarrow> (rejected_tool_result ''unknown_quote_ref'' (Format ''unknown quote_ref %q'' [StrArg ref]), v0)
      | Some base \<Rightarrow>
          (let v = add_authorized given extra v0 in
           if qu_artifact base \<notin> set (tv_open v)
           then (rejected_tool_result ''foreign_quote_ref'' (Text ''quote_ref is not authorized for this research task''), v)
           else case expand_quote os sum256 fs (tv_registry v) ref (or3 before_lines) (or3 after_lines) (tv_quotes v) of
             (Inl e, q) \<Rightarrow> (rejected_tool_result ''quote_capture_failed'' e, v\<lparr>tv_quotes := q\<rparr>)
           | (Inr captured, q) \<Rightarrow> (accept captured, v\<lparr>tv_quotes := q\<rparr>)))"

text \<open>\<^verbatim>\<open>r42_qc_expand_quote\<close>, and the reading of a whole JSON artifact; JSON itself is the parameter \<open>decode\<close>.\<close>

definition qc_expand_quote_tool ::
  "'fs os \<Rightarrow> 'fs \<Rightarrow> (string \<Rightarrow> string) \<Rightarrow> (string \<Rightarrow> bool) \<Rightarrow> registry \<Rightarrow> string \<Rightarrow> quote_registry \<Rightarrow>
   (string \<times> quote) tool_response \<times> quote_registry" where
  "qc_expand_quote_tool os fs sum256 authorized r ref quotes =
     (case resolve_quote ref quotes of
        None \<Rightarrow> (rejected_tool_result ''unknown_quote_ref'' (Format ''unknown quote_ref %q'' [StrArg ref]), quotes)
      | Some base \<Rightarrow>
          (if \<not> authorized (qu_artifact base)
           then (rejected_tool_result ''foreign_quote_ref'' (Text ''quote_ref is not authorized for this QC task''), quotes)
           else case expand_quote os sum256 fs r (qu_ref base) 1 1 quotes of
             (Inl e, q) \<Rightarrow> (rejected_tool_result ''quote_capture_failed'' e, q)
           | (Inr expanded, q) \<Rightarrow> (accept (qu_ref base, expanded), q)))"

definition max_json_bytes :: int where "max_json_bytes = 4194304"

definition read_json_value ::
  "'fs reader \<Rightarrow> (string \<Rightarrow> error + json) \<Rightarrow> 'fs \<Rightarrow> (string \<Rightarrow> bool) \<Rightarrow> registry \<Rightarrow> string \<Rightarrow> error + json" where
  "read_json_value rd decode fs authorized r i =
     (if \<not> authorized i then Inl (Format ''unknown artifact %q'' [StrArg i])
      else case read_page rd fs r i 0 max_json_bytes of
        Inl e \<Rightarrow> Inl e
      | Inr p \<Rightarrow>
     (if pg_truncated p then Inl (Format ''JSON artifact %q exceeds %d bytes'' [StrArg i, IntArg max_json_bytes])
      else case decode (pg_content p) of
        Inl e \<Rightarrow> Inl (Format ''decode JSON artifact %q: %w'' [StrArg i, TextArg e])
      | Inr x \<Rightarrow> Inr x))"

section \<open>Reading a file page by page\<close>

lemma rune_len_start: "rune_len s \<noteq> 0 \<Longrightarrow> s \<noteq> [] \<and> rune_start (hd s)"
  by (cases s) (auto simp: rune_start_def rune_head_def byte_in_def split: if_splits option.splits)

lemma valid_utf8_head:
  assumes "valid_utf8 s" "s \<noteq> []"
  obtains w t where "s = w @ t" "is_rune w" "w \<noteq> []" "length w \<le> 4" "rune_start (hd s)"
proof -
  from assms(1) obtain ws where ws: "list_all is_rune ws" "s = concat ws" by (auto simp: valid_utf8_iff)
  with assms(2) obtain w us where w: "ws = w # us" by (cases ws) auto
  then have "rune_len s = length w" using ws by (simp add: rune_len_append)
  moreover have "length w = rune_len w" "w \<noteq> []" using ws w rune_len_append [of w "[]"] by (auto simp: is_rune_def)
  moreover have "rune_start (hd s)" using calculation rune_len_start [of s] by (metis length_0_conv)
  ultimately show thesis using that [of w "concat us"] ws w rune_len_le(2) [of w] by simp
qed

inductive page_run :: "(int \<Rightarrow> error + page) \<Rightarrow> int \<Rightarrow> page list \<Rightarrow> bool" for read where
  last_page: "read off = Inr p \<Longrightarrow> \<not> pg_truncated p \<Longrightarrow> page_run read off [p]"
| next_page: "read off = Inr p \<Longrightarrow> pg_truncated p \<Longrightarrow> page_run read (pg_next p) ps \<Longrightarrow> page_run read off (p # ps)"

definition sound_file :: "opened_file \<Rightarrow> bool" where
  "sound_file f \<longleftrightarrow> \<not> of_folder f \<and> of_fault f = (\<lambda>_. None)"

lemma page_of_valid:
  assumes "sound_file f" "of_content f = a @ b" "valid_utf8 b" "4 \<le> m"
  obtains p c where "page_of i f (int (length a)) m = Inr p" "b = pg_content p @ c" "valid_utf8 (pg_content p)" "valid_utf8 c"
    "pg_content p = [] \<longrightarrow> b = []" "int (length (pg_content p)) \<le> m" "pg_next p = int (length (a @ pg_content p))"
    "pg_truncated p \<longleftrightarrow> c \<noteq> []" "pg_offset p = int (length a)" "pg_total p = int (length (of_content f))"
proof -
  let ?t = "take (nat m) b"
  obtain d where d: "?t = cut_invalid ?t @ d" using cut_invalid_prefix [of ?t] by (auto simp: prefix_def)
  let ?c = "d @ drop (nat m) b"
  have b: "b = cut_invalid ?t @ ?c" using d by (metis append_assoc append_take_drop_id)
  have v: "valid_utf8 (cut_invalid ?t)" by (rule cut_invalid_valid)
  have some: "cut_invalid ?t = [] \<Longrightarrow> b = []"
  proof (rule ccontr)
    assume none: "cut_invalid ?t = []" and "b \<noteq> []"
    with assms(3) obtain w t where w: "b = w @ t" "is_rune w" "w \<noteq> []" "length w \<le> 4" by (blast elim: valid_utf8_head)
    then have "prefix w ?t" using assms(4) by simp
    from cut_invalid_longest [OF this] w(2) none w(3) show False by (auto simp: valid_rune)
  qed
  have start: "b \<noteq> [] \<Longrightarrow> rune_start (b ! 0)" using assms(3) by (metis valid_utf8_head hd_conv_nth)
  have len: "int (length (cut_invalid ?t)) \<le> m"
    using prefix_length_le [OF cut_invalid_prefix [of ?t]] assms(4) by (simp add: le_nat_iff)
  let ?p = "\<lparr>pg_content = cut_invalid ?t, pg_offset = int (length a), pg_next = int (length a) + int (length (cut_invalid ?t)),
    pg_total = int (length (of_content f)), pg_truncated = int (length a) + int (length (cut_invalid ?t)) < int (length (of_content f))\<rparr>"
  have "length (cut_invalid ?t) + length ?c = length b" using arg_cong [OF b, of length] by simp
  then have trunc: "int (length a) + int (length (cut_invalid ?t)) < int (length (of_content f)) \<longleftrightarrow> ?c \<noteq> []"
    using assms(2) by (simp add: length_greater_0_conv [symmetric] del: length_greater_0_conv) linarith
  have "boundary_error i f (int (length a)) = None"
    using assms(1,2) start by (auto simp: boundary_error_def sound_file_def nth_append)
  then have "page_of i f (int (length a)) m = Inr ?p"
    using assms(1,2) some by (auto simp: page_of_def sound_file_def Let_def)
  moreover have "valid_utf8 ?c" using assms(3) v b valid_utf8_append [OF v, of ?c] by simp
  ultimately show thesis using that [of ?p ?c] b v some len trunc by simp
qed

lemma pages_from:
  assumes "sound_file f" "4 \<le> m" "\<And>off. 0 \<le> off \<Longrightarrow> read off = page_of i f off m"
  shows "of_content f = a @ b \<Longrightarrow> valid_utf8 b \<Longrightarrow> \<exists>ps. page_run read (int (length a)) ps \<and>
    concat (map pg_content ps) = b \<and> list_all (\<lambda>p. valid_utf8 (pg_content p) \<and> int (length (pg_content p)) \<le> m) ps"
proof (induction "length b" arbitrary: a b rule: less_induct)
  case less
  from page_of_valid [OF assms(1) less.prems assms(2), of i] obtain p c where
    "page_of i f (int (length a)) m = Inr p" and q: "b = pg_content p @ c" "valid_utf8 (pg_content p)" "valid_utf8 c"
      "pg_content p = [] \<longrightarrow> b = []" "int (length (pg_content p)) \<le> m" "pg_next p = int (length (a @ pg_content p))"
      "pg_truncated p \<longleftrightarrow> c \<noteq> []"
    by blast
  then have p: "read (int (length a)) = Inr p" using assms(3) by simp
  note p = this q
  show ?case
  proof (cases "c = []")
    case True
    then have "page_run read (int (length a)) [p]" using p by (intro last_page) simp_all
    then show ?thesis using p True by (intro exI [of _ "[p]"]) simp
  next
    case False
    with p have "length c < length b" by (cases "pg_content p") auto
    moreover have "of_content f = (a @ pg_content p) @ c" using p less.prems(1) by simp
    ultimately obtain ps where ps: "page_run read (int (length (a @ pg_content p))) ps"
        "concat (map pg_content ps) = c" "list_all (\<lambda>p. valid_utf8 (pg_content p) \<and> int (length (pg_content p)) \<le> m) ps"
      using less.hyps p(4) by blast
    then have "page_run read (int (length a)) (p # ps)"
      using p False by (intro next_page) simp_all
    then show ?thesis using p ps by (intro exI [of _ "p # ps"]) simp
  qed
qed

lemma page_run_unique: "page_run read off ps \<Longrightarrow> page_run read off qs \<Longrightarrow> qs = ps"
proof (induction arbitrary: qs rule: page_run.induct)
  case (last_page off p)
  from last_page(3,1,2) show ?case by (cases rule: page_run.cases) auto
next
  case (next_page off p ps)
  from next_page.prems show ?case
  proof (cases rule: page_run.cases)
    case (next_page p' ps')
    with next_page.hyps(1) have "p' = p" by simp
    with next_page next_page.IH show ?thesis by simp
  qed (use next_page.hyps in simp)
qed

text \<open>A byte that starts no rune ends the reading, whatever the size of the page.\<close>

lemma invalid_byte_stops_reading:
  assumes "sound_file f" "of_content f = a @ b" "b \<noteq> []" "rune_len b = 0" "0 < m"
  shows "\<exists>e. page_of i f (int (length a)) m = Inl e"
proof -
  have "cut_invalid (take (nat m) b) = []"
  proof (rule ccontr)
    assume ne: "cut_invalid (take (nat m) b) \<noteq> []"
    obtain w t where w: "cut_invalid (take (nat m) b) = w @ t" "is_rune w" "w \<noteq> []"
      using valid_utf8_head [OF cut_invalid_valid ne] by blast
    moreover have "prefix (cut_invalid (take (nat m) b)) b"
      using prefix_order.trans [OF cut_invalid_prefix take_is_prefix] .
    ultimately obtain u where "b = w @ u" by (auto simp: prefix_def)
    then show False using w(2,3) assms(4) by (simp add: rune_len_append)
  qed
  then show ?thesis using assms by (auto simp: page_of_def sound_file_def Let_def split: option.split)
qed

section \<open>Listing a directory\<close>

text \<open>What the indexes of a registry must be for a listing.\<close>

definition listing_ok :: "registry \<Rightarrow> bool" where
  "listing_ok r \<longleftrightarrow>
     reg_inv r \<and> ran (reg_paths r) \<subseteq> dom (reg_entries r) \<and>
     (\<forall>k c. reg_children r k = Some c \<longrightarrow> (\<exists>e. reg_entries r c = Some e \<and> rec_name (ent_record e) \<noteq> []))"

definition records_kept :: "registry \<Rightarrow> registry \<Rightarrow> bool" where
  "records_kept r r' \<longleftrightarrow>
     reg_children r \<subseteq>\<^sub>m reg_children r' \<and>
     (\<forall>c e. reg_entries r c = Some e \<and> rec_name (ent_record e) \<noteq> [] \<longrightarrow>
        (\<exists>e'. reg_entries r' c = Some e' \<and> ent_record e' = ent_record e))"

lemma records_kept_refl [simp]: "records_kept r r"
  by (simp add: records_kept_def)

lemma records_kept_trans: "records_kept r s \<Longrightarrow> records_kept s t \<Longrightarrow> records_kept r t"
  unfolding records_kept_def by (metis map_le_trans)

definition fresh_ids :: "(string \<Rightarrow> string) \<Rightarrow> string list \<Rightarrow> registry \<Rightarrow> bool" where
  "fresh_ids uuid ps r \<longleftrightarrow> distinct (map uuid ps) \<and> list_all (\<lambda>p. fresh_uuid (uuid p) r) ps"

lemma adopt_member_ok: "entry_ok c e \<Longrightarrow> entry_ok c (adopt_member parent relative e)"
  by (auto simp: entry_ok_def adopt_member_def Let_def)

lemma adopt_member_record:
  "rec_name (ent_record e) \<noteq> [] \<Longrightarrow> ent_record (adopt_member parent relative e) = ent_record e"
  "relative \<noteq> [] \<Longrightarrow> rec_name (ent_record (adopt_member parent relative e)) \<noteq> []"
  by (auto simp: adopt_member_def Let_def)

lemma member_entry_ok: "entry_ok (''artifact-'' @ uuid path) (member_entry uuid parent path relative)"
  by (simp add: entry_ok_def member_entry_def)

lemma list_member_effect:
  assumes "listing_ok r" "fresh_uuid (uuid path) r" "list_member os fs uuid i parent path r = (Inr rec, r')"
    and "\<And>relative. rel_path (rec_path (ent_record parent)) path = Some relative \<Longrightarrow> relative \<noteq> []"
  obtains relative c e where "rel_path (rec_path (ent_record parent)) path = Some relative"
    "reg_children r' (member_key i relative) = Some c" "reg_entries r' c = Some e" "ent_record e = rec" "rec_name rec \<noteq> []"
    "listing_ok r'" "records_kept r r'" "\<And>u. fresh_uuid u r \<Longrightarrow> u \<noteq> uuid path \<Longrightarrow> fresh_uuid u r'"
proof -
  from assms(3) obtain relative where rel: "rel_path (rec_path (ent_record parent)) path = Some relative"
    by (auto simp: list_member_def split: option.splits)
  then have ne: "relative \<noteq> []" by (rule assms(4))
  let ?k = "member_key i relative" and ?pk = "path_key os fs (ent_workspace parent) path"
  have inv: "reg_inv r" using assms(1) by (simp add: listing_ok_def)
  show thesis
  proof (cases "reg_children r ?k")
    case (Some c)
    with assms(1) obtain e where e: "reg_entries r c = Some e" "rec_name (ent_record e) \<noteq> []" unfolding listing_ok_def by blast
    with Some rel assms(3) have "rec = ent_record e" "r' = r" by (auto simp: list_member_def)
    with that [OF rel] Some e assms(1) show thesis by simp
  next
    case None
    show thesis
    proof (cases "reg_paths r ?pk")
      case (Some c)
      with assms(1) obtain e where e: "reg_entries r c = Some e" by (auto simp: listing_ok_def ran_def)
      let ?e = "adopt_member parent relative e"
      have r': "r' = put_entry c ?e r\<lparr>reg_children := (reg_children r)(?k \<mapsto> c)\<rparr>" and rec: "rec = ent_record ?e"
        using assms(3) rel None Some e by (auto simp: list_member_def Let_def put_entry_def entry_at_def)
      have "entry_ok c e" using inv e by (rule reg_inv_entry)
      then have "reg_inv (put_entry c ?e r)" using inv e by (intro reg_inv_update adopt_member_ok) auto
      then have "reg_inv r'" by (subst reg_inv_cong [of _ "put_entry c ?e r"]) (simp_all add: r' put_entry_def)
      then have "listing_ok r'" using assms(1) e ne by (auto simp: listing_ok_def r' put_entry_def adopt_member_record)
      moreover have "records_kept r r'"
        using e None by (auto simp: records_kept_def r' put_entry_def adopt_member_record map_le_def)
      moreover have "fresh_uuid u r'" if "fresh_uuid u r" for u
        using that e by (cases "''artifact-'' @ u = c") (simp_all add: fresh_uuid_def r' put_entry_def)
      ultimately show thesis
        using that [OF rel, of c ?e] rec ne e by (simp add: r' put_entry_def adopt_member_record)
    next
      case nopath: None
      let ?c = "''artifact-'' @ uuid path" and ?e = "member_entry uuid parent path relative"
      have r': "r' = put_entry ?c ?e r\<lparr>reg_order := reg_order r @ [?c], reg_paths := (reg_paths r)(?pk \<mapsto> ?c),
            reg_children := (reg_children r)(?k \<mapsto> ?c)\<rparr>" and rec: "rec = ent_record ?e"
        using assms(3) rel None nopath by (auto simp: list_member_def Let_def put_entry_def entry_at_def)
      have new: "reg_entries r ?c = None" using assms(2) by (simp add: fresh_uuid_def)
      have "reg_inv r'"
        by (rule reg_inv_add [OF inv new member_entry_ok [of uuid path parent relative]]) (simp_all add: r' put_entry_def)
      then have "listing_ok r'" using assms(1) ne by (auto simp: listing_ok_def r' put_entry_def member_entry_def ran_def)
      moreover have "records_kept r r'"
        using new None by (auto simp: records_kept_def r' put_entry_def map_le_def)
      ultimately show thesis
        using that [OF rel, of ?c ?e] rec ne by (auto simp: r' put_entry_def member_entry_def fresh_uuid_def)
    qed
  qed
qed

definition regular_paths :: "walk_item list \<Rightarrow> string list" where
  "regular_paths items = List.map_filter (\<lambda>w. case w of WalkMember p RegularMember \<Rightarrow> Some p | _ \<Rightarrow> None) items"

lemma regular_paths_simps [simp]:
  "regular_paths [] = []" "regular_paths (WalkError e # items) = regular_paths items"
  "regular_paths (WalkMember p k # items) = (if k = RegularMember then p # regular_paths items else regular_paths items)"
  by (auto simp: regular_paths_def map_filter_def split: member_kind.split)

text \<open>The children that a listing leaves behind.\<close>

definition child_at :: "string \<Rightarrow> entry \<Rightarrow> registry \<Rightarrow> string \<Rightarrow> art_record \<Rightarrow> bool" where
  "child_at i parent r path rec \<longleftrightarrow>
     (\<exists>relative c e. rel_path (rec_path (ent_record parent)) path = Some relative \<and>
        reg_children r (member_key i relative) = Some c \<and> reg_entries r c = Some e \<and> ent_record e = rec \<and> rec_name rec \<noteq> [])"

lemma child_at_kept: "child_at i parent r path rec \<Longrightarrow> records_kept r r' \<Longrightarrow> child_at i parent r' path rec"
  unfolding child_at_def records_kept_def by (metis domI map_le_def)

definition relatives_named :: "entry \<Rightarrow> string list \<Rightarrow> bool" where
  "relatives_named parent ps \<longleftrightarrow> list_all (\<lambda>p. rel_path (rec_path (ent_record parent)) p \<noteq> Some []) ps"

lemma apfst_Cons: "apfst (map_sum id (Cons x)) p = (Inr ys, r) \<longleftrightarrow> (\<exists>zs. p = (Inr zs, r) \<and> ys = x # zs)"
  by (cases p; cases "fst p") auto

lemma list_walk_effect:
  "list_walk os fs uuid i parent items r = (Inr files, r') \<Longrightarrow> listing_ok r \<Longrightarrow> fresh_ids uuid (regular_paths items) r \<Longrightarrow>
   relatives_named parent (regular_paths items) \<Longrightarrow>
   listing_ok r' \<and> records_kept r r' \<and> list_all2 (child_at i parent r') (regular_paths items) files"
proof (induction os fs uuid i parent items r arbitrary: files r' rule: list_walk.induct)
  case (3 os fs uuid i parent path kind items r)
  show ?case
  proof (cases "kind = RegularMember")
    case True
    with "3.prems"(1) obtain rec r1 files1 where m: "list_member os fs uuid i parent path r = (Inr rec, r1)"
        and rest: "list_walk os fs uuid i parent items r1 = (Inr files1, r')" and files: "files = rec # files1"
      by (auto simp: apfst_Cons split: prod.splits sum.splits)
    from "3.prems"(3) True have "fresh_uuid (uuid path) r" by (simp add: fresh_ids_def)
    from list_member_effect [OF "3.prems"(2) this m] "3.prems"(4) True
    have one: "child_at i parent r1 path rec" "listing_ok r1" "records_kept r r1"
        "\<And>u. fresh_uuid u r \<Longrightarrow> u \<noteq> uuid path \<Longrightarrow> fresh_uuid u r1"
      unfolding child_at_def relatives_named_def regular_paths_simps if_P [OF True] list.pred_inject(2) by blast+
    have "fresh_ids uuid (regular_paths items) r1"
      using "3.prems"(3) True unfolding fresh_ids_def list_all_iff
      by (auto simp: image_iff intro!: one(4))
    moreover have "relatives_named parent (regular_paths items)" using "3.prems"(4) True by (simp add: relatives_named_def)
    ultimately have "listing_ok r' \<and> records_kept r1 r' \<and> list_all2 (child_at i parent r') (regular_paths items) files1"
      using "3.IH"(2) [OF _ m [symmetric] refl rest one(2)] True by blast
    then show ?thesis using one True files records_kept_trans child_at_kept by auto
  next
    case False
    with 3 show ?thesis by simp
  qed
qed auto

lemma list_walk_again:
  assumes "list_all2 (child_at i parent r) (regular_paths items) files" "list_all (\<lambda>w. case w of WalkError _ \<Rightarrow> False | _ \<Rightarrow> True) items"
    and "ent_record parent' = ent_record parent"
  shows "list_walk os fs uuid i parent' items r = (Inr files, r)"
  using assms(1,2)
proof (induction items arbitrary: files)
  case (Cons w items)
  then obtain p k where w: "w = WalkMember p k" by (cases w) auto
  show ?case
  proof (cases "k = RegularMember")
    case True
    with Cons.prems w obtain f fs1 where f: "files = f # fs1" "child_at i parent r p f"
        "list_all2 (child_at i parent r) (regular_paths items) fs1"
      by (auto simp: list_all2_Cons1)
    from f(2) have "list_member os fs uuid i parent' p r = (Inr f, r)"
      using assms(3) by (auto simp: child_at_def list_member_def)
    with Cons.IH [OF f(3)] Cons.prems(2) w True f(1) show ?thesis by simp
  next
    case False
    with Cons w show ?thesis by simp
  qed
qed simp

lemma list_walk_no_error:
  "list_walk os fs uuid i parent items r = (Inr files, r') \<Longrightarrow> list_all (\<lambda>w. case w of WalkError _ \<Rightarrow> False | _ \<Rightarrow> True) items"
  by (induction os fs uuid i parent items r arbitrary: files r' rule: list_walk.induct)
    (auto simp: apfst_Cons split: if_splits prod.splits sum.splits)

lemma relatives_named_absolute:
  assumes "is_abs base" "is_abs p"
  shows "rel_path base p \<noteq> Some []"
proof
  assume rel: "rel_path base p = Some []"
  then have ne: "clean p \<noteq> clean base" by (auto simp: rel_path_def)
  obtain b' t' where st: "strip_common (path_elems base) (path_elems p) = (b', t')" by force
  have "clean p \<noteq> ''.''" using assms(2) by (simp add: clean_def)
  then have join: "join_with CHR ''/'' (replicate (length b') ''..'' @ t') = []"
    using rel ne assms st by (auto simp: rel_path_def Let_def split: if_splits)
  from strip_common_prefix [OF st] have t: "set t' \<subseteq> set (path_elems p)" by auto
  then have "[] \<notin> set t'" using path_elems_plain [OF assms(2)] by (auto simp: plain_elem_def)
  with join have "b' = [] \<and> t' = []" by (cases b'; cases t') (auto elim: join_with.elims)
  with strip_common_prefix [OF st] have "path_elems p = path_elems base" by simp
  with ne assms show False by (simp add: clean_eq_iff)
qed

lemma listing_stable:
  assumes "listing_ok r" "reg_entries r i = Some parent" "rec_name (ent_record parent) \<noteq> []" "is_abs (rec_path (ent_record parent))"
    and "ps = regular_paths (rd_walk rd fs (rec_path (ent_record parent)))" "list_all is_abs ps" "fresh_ids uuid ps r"
    and "list_directory_files os rd fs uuid i r = (Inr files, r')"
  shows "listing_ok r'" and "records_kept r r'" and "list_directory_files os rd fs uuid' i r' = (Inr files, r')"
    and "\<exists>xs. list_all2 (child_at i parent r') ps xs \<and> files = sort_key rec_name xs"
proof -
  let ?items = "rd_walk rd fs (rec_path (ent_record parent))"
  from assms(2,8) obtain xs where walk: "list_walk os fs uuid i parent ?items r = (Inr xs, r')" and files: "files = sort_key rec_name xs"
      and kind: "rec_kind (ent_record parent) = KindArtifact" "rec_type (ent_record parent) = ArtDirectory"
    by (auto simp: list_directory_files_def split: if_splits prod.splits sum.splits)
  have "relatives_named parent ps"
    using assms(4,6) by (auto simp: relatives_named_def list_all_iff relatives_named_absolute)
  from list_walk_effect [OF walk assms(1) assms(7) [unfolded assms(5)] this [unfolded assms(5)]]
  have eff: "listing_ok r'" "records_kept r r'" "list_all2 (child_at i parent r') ps xs" using assms(5) by simp_all
  from eff(2) assms(2,3) obtain parent' where p': "reg_entries r' i = Some parent'" "ent_record parent' = ent_record parent"
    unfolding records_kept_def by blast
  have "list_walk os fs uuid' i parent' ?items r' = (Inr xs, r')"
    by (rule list_walk_again [OF eff(3) [unfolded assms(5)] list_walk_no_error [OF walk] p'(2)])
  then show "list_directory_files os rd fs uuid' i r' = (Inr files, r')"
    using p' kind files by (simp add: list_directory_files_def)
  show "listing_ok r'" "records_kept r r'" "\<exists>xs. list_all2 (child_at i parent r') ps xs \<and> files = sort_key rec_name xs"
    using eff files by blast+
qed

lemma listed_files_are_known: "listing_ok r \<Longrightarrow> child_at i parent r p f \<Longrightarrow> record_of r (rec_id f) = Inr f \<and> rec_id f \<noteq> []"
  by (auto simp: child_at_def listing_ok_def record_of_def entry_ok_def dest!: reg_inv_entry split: option.split)

section \<open>What the search of all artifacts returns\<close>

definition hits :: "search_all_result \<Rightarrow> int" where
  "hits res = int (length (al_matches res))"

text \<open>A result so far: its matches are \<open>good\<close>, not too many, and of artifacts that were searched.\<close>

definition result_ok :: "(string \<Rightarrow> search_match \<Rightarrow> bool) \<Rightarrow> int \<Rightarrow> string set \<Rightarrow> search_all_result \<Rightarrow> bool" where
  "result_ok good n seen res \<longleftrightarrow>
     hits res \<le> n \<and> distinct (al_searched res) \<and> set (al_searched res) \<subseteq> seen \<and>
     list_all (\<lambda>m. am_artifact m \<in> set (al_searched res) \<and> good (am_artifact m) (am_match m)) (al_matches res)"

text \<open>No file is left out, but what is missing on the disk.\<close>

definition complete :: "(string \<Rightarrow> int \<Rightarrow> error + search_result) \<Rightarrow> (error \<Rightarrow> bool) \<Rightarrow> string set \<Rightarrow> search_all_result \<Rightarrow> bool" where
  "complete search missing ids res \<longleftrightarrow>
     (\<forall>i \<in> ids. i \<in> set (al_searched res) \<or> (\<exists>n e. search i n = Inl e \<and> missing e))"

definition search_sound :: "(string \<Rightarrow> search_match \<Rightarrow> bool) \<Rightarrow> (string \<Rightarrow> int \<Rightarrow> error + search_result) \<Rightarrow> bool" where
  "search_sound good search \<longleftrightarrow>
     (\<forall>i n found. search i n = Inr found \<longrightarrow> int (length (sr_matches found)) \<le> n \<and> list_all (good i) (sr_matches found))"

lemma search_each_effect:
  "search_sound good search \<Longrightarrow> search_each search missing n as seen res = (out, res') \<Longrightarrow> result_ok good n seen res \<Longrightarrow> complete search missing seen res \<Longrightarrow>
    result_ok good n (seen \<union> rec_id ` {a \<in> set as. rec_type a = ArtFile}) res' \<and>
    (out = Inr () \<and> \<not> al_truncated res' \<longrightarrow> complete search missing (seen \<union> rec_id ` {a \<in> set as. rec_type a = ArtFile}) res')"
proof (induction search missing n as seen res arbitrary: out res' rule: search_each.induct)
  case (2 search missing n a as seen res)
  let ?seen = "insert (rec_id a) seen"
  have more: "seen \<union> rec_id ` {b \<in> set (a # as). rec_type b = ArtFile} =
      (if rec_type a = ArtFile then ?seen else seen) \<union> rec_id ` {b \<in> set as. rec_type b = ArtFile}"
    by auto
  have weaken: "result_ok good n seen r \<Longrightarrow> seen \<subseteq> s \<Longrightarrow> result_ok good n s r" for s r by (auto simp: result_ok_def)
  show ?case
  proof (cases "rec_type a \<noteq> ArtFile \<or> rec_id a \<in> seen")
    case True
    then have "(if rec_type a = ArtFile then ?seen else seen) = seen" by auto
    with 2 True more show ?thesis by simp
  next
    case False
    note new = this
    let ?left = "n - hits res"
    show ?thesis
    proof (cases "?left = 0")
      case True
      with "2.prems" new have "out = Inr ()" "res' = res\<lparr>al_truncated := True\<rparr>" by (auto simp: hits_def Let_def)
      with "2.prems"(3) more show ?thesis by (auto simp: result_ok_def hits_def)
    next
      case nonzero: False
      show ?thesis
      proof (cases "search (rec_id a) ?left")
        case (Inl e)
        show ?thesis
        proof (cases "missing e")
          case True
          with "2.prems"(2) new nonzero Inl have rest: "search_each search missing n as ?seen res = (out, res')"
            by (simp add: hits_def Let_def)
          have "complete search missing ?seen res" using "2.prems"(4) Inl True by (auto simp: complete_def)
          from "2.IH"(2) [OF _ refl _ _ True "2.prems"(1) rest weaken [OF "2.prems"(3)] this] new nonzero Inl more show ?thesis
            by (auto simp: hits_def)
        next
          case False
          with "2.prems" new nonzero Inl have "out = Inl e" "res' = res" by (auto simp: hits_def Let_def)
          with weaken [OF "2.prems"(3), of "seen \<union> rec_id ` {b \<in> set (a # as). rec_type b = ArtFile}"] show ?thesis by auto
        qed
      next
        case (Inr found)
        let ?ms = "map (\<lambda>m. \<lparr>am_artifact = rec_id a, am_name = rec_name a, am_match = m\<rparr>) (sr_matches found)"
        let ?res = "res\<lparr>al_searched := al_searched res @ [rec_id a], al_matches := al_matches res @ ?ms\<rparr>"
        from "2.prems"(1) Inr have found: "int (length (sr_matches found)) \<le> ?left" "list_all (good (rec_id a)) (sr_matches found)"
          unfolding search_sound_def by blast+
        have ok: "result_ok good n ?seen ?res"
          using "2.prems"(3) new found by (auto simp: result_ok_def hits_def list_all_iff)
        show ?thesis
        proof (cases "sr_truncated found")
          case True
          with "2.prems"(2) new nonzero Inr have "out = Inr ()" "res' = ?res\<lparr>al_truncated := True\<rparr>"
            by (auto simp: hits_def Let_def)
          with ok more new show ?thesis by (auto simp: result_ok_def hits_def)
        next
          case False
          with "2.prems"(2) new nonzero Inr have rest: "search_each search missing n as ?seen ?res = (out, res')"
            by (simp add: hits_def Let_def)
          have "complete search missing ?seen ?res" using "2.prems"(4) by (auto simp: complete_def)
          from "2.IH"(3) [OF _ refl _ _ refl False "2.prems"(1) rest ok this] new nonzero Inr more show ?thesis
            by (auto simp: hits_def)
        qed
      qed
    qed
  qed
qed auto

definition hit_true :: "'fs os \<Rightarrow> (string \<Rightarrow> string) \<Rightarrow> 'fs \<Rightarrow> registry \<Rightarrow> string \<Rightarrow> search_match \<Rightarrow> bool" where
  "hit_true os sha fs r i m \<longleftrightarrow>
     (\<exists>rec content. record_of r i = Inr rec \<and> os_read_file os fs (rec_path rec) = Inr content \<and> match_true sha content m)"

lemma search_artifact_hits:
  assumes "regexp_ok rx" "search_artifact os rx sha fs r i pattern case_sensitive n context = Inr found"
  shows "int (length (sr_matches found)) \<le> n \<and> list_all (hit_true os sha fs r i) (sr_matches found)"
proof -
  from assms(2) obtain rec content where c: "record_of r i = Inr rec" "os_read_file os fs (rec_path rec) = Inr content"
      and res: "search_text rx sha content pattern case_sensitive n context = Inr found"
    by (auto simp: search_artifact_def split: sum.splits if_splits option.splits)
  with search_text_Inr(1,2) [OF assms(1) res] show ?thesis by (auto simp: hit_true_def list_all_iff)
qed

text \<open>
  A directory artifact whose path is a regular file lists itself, and the search of all artifacts goes round on it for ever.
\<close>

lemma directory_that_is_a_file_hangs:
  assumes "rec_type a = ArtDirectory" "list_directory_files os rd fs uuid (rec_id a) r = (Inr [a], r)"
  shows "discover_files os rd fs uuid missing [a] r = None"
proof -
  have False if "discover_files os rd fs uuid missing [a] r = Some out" for out
  proof -
    let ?P = "\<lambda>os1 rd1 fs1 uuid1 missing1 queue r1 out. os1 = os \<longrightarrow> rd1 = rd \<longrightarrow> fs1 = fs \<longrightarrow> uuid1 = uuid \<longrightarrow> queue = [a] \<longrightarrow> r1 \<noteq> r"
    have "?P os rd fs uuid missing [a] r out"
      by (rule discover_files.raw_induct [where P = ?P, OF _ that], use assms in \<open>auto simp: bind_eq_Some_conv\<close>, blast)
    then show False by simp
  qed
  then show ?thesis by (metis not_None_eq)
qed

section \<open>Where the search of all artifacts ends\<close>

definition no_folder_at :: "registry \<Rightarrow> string \<Rightarrow> bool" where
  "no_folder_at r c \<longleftrightarrow> rec_type (ent_record (entry_at r c)) \<noteq> ArtDirectory"

definition apart_at :: "'fs os \<Rightarrow> 'fs reader \<Rightarrow> 'fs \<Rightarrow> string \<Rightarrow> string \<Rightarrow> registry \<Rightarrow> bool" where
  "apart_at os rd fs ws folder r \<longleftrightarrow>
     (\<forall>p \<in> set (regular_paths (rd_walk rd fs folder)). \<forall>c. reg_paths r (path_key os fs ws p) = Some c \<longrightarrow> no_folder_at r c)"

text \<open>No regular file of a directory artifact is itself a directory artifact.\<close>

definition files_apart :: "'fs os \<Rightarrow> 'fs reader \<Rightarrow> 'fs \<Rightarrow> registry \<Rightarrow> bool" where
  "files_apart os rd fs r \<longleftrightarrow>
     (\<forall>i e. reg_entries r i = Some e \<and> rec_type (ent_record e) = ArtDirectory \<longrightarrow>
        apart_at os rd fs (ent_workspace e) (rec_path (ent_record e)) r) \<and>
     (\<forall>k c. reg_children r k = Some c \<longrightarrow> no_folder_at r c)"

lemma put_file:
  assumes "rec_type (ent_record e) \<noteq> ArtDirectory" "reg_entries r' = (reg_entries r)(c \<mapsto> e)"
    and "\<And>k d. reg_paths r' k = Some d \<Longrightarrow> d = c \<or> reg_paths r k = Some d"
    and "\<And>k d. reg_children r' k = Some d \<Longrightarrow> d = c \<or> reg_children r k = Some d"
  shows "apart_at os rd fs ws folder r \<Longrightarrow> apart_at os rd fs ws folder r'" and "files_apart os rd fs r \<Longrightarrow> files_apart os rd fs r'"
proof -
  have c: "no_folder_at r' c" and keep: "no_folder_at r d \<Longrightarrow> no_folder_at r' d" for d
    using assms(1,2) by (auto simp: no_folder_at_def entry_at_def)
  show apart: "apart_at os rd fs ws folder r \<Longrightarrow> apart_at os rd fs ws folder r'" for ws folder
    unfolding apart_at_def using assms(3) c keep by blast
  have "reg_entries r' i = Some e' \<Longrightarrow> rec_type (ent_record e') = ArtDirectory \<Longrightarrow> reg_entries r i = Some e'" for i e'
    using assms(1,2) by (auto split: if_splits)
  then show "files_apart os rd fs r \<Longrightarrow> files_apart os rd fs r'"
    unfolding files_apart_def using apart assms(4) c keep by blast
qed

lemma list_member_apart:
  assumes "files_apart os rd fs r" "apart_at os rd fs (ent_workspace parent) (rec_path (ent_record parent)) r"
    and "p \<in> set (regular_paths (rd_walk rd fs (rec_path (ent_record parent))))" "list_member os fs uuid i parent p r = (x, r')"
  shows "files_apart os rd fs r'" and "apart_at os rd fs ws folder r \<Longrightarrow> apart_at os rd fs ws folder r'"
    and "x = Inr rec \<Longrightarrow> rec_type rec \<noteq> ArtDirectory"
proof -
  have "files_apart os rd fs r' \<and> (apart_at os rd fs ws folder r \<longrightarrow> apart_at os rd fs ws folder r') \<and>
      (x = Inr rec \<longrightarrow> rec_type rec \<noteq> ArtDirectory)"
  proof (cases "rel_path (rec_path (ent_record parent)) p")
    case None
    with assms(1,4) show ?thesis by (auto simp: list_member_def)
  next
    case (Some relative)
    let ?k = "member_key i relative" and ?pk = "path_key os fs (ent_workspace parent) p"
    show ?thesis
    proof (cases "reg_children r ?k")
      case (Some c)
      with \<open>rel_path _ p = Some relative\<close> assms(1,4) show ?thesis by (auto simp: list_member_def files_apart_def no_folder_at_def)
    next
      case None
      define c e where "c = (case reg_paths r ?pk of Some d \<Rightarrow> d | None \<Rightarrow> ''artifact-'' @ uuid p)"
        and "e = (case reg_paths r ?pk of Some d \<Rightarrow> adopt_member parent relative (entry_at r d) | None \<Rightarrow> member_entry uuid parent p relative)"
      have out: "x = Inr (ent_record e)" "reg_entries r' = (reg_entries r)(c \<mapsto> e)" "reg_children r' = (reg_children r)(?k \<mapsto> c)"
          "reg_paths r' = reg_paths r \<or> reg_paths r' = (reg_paths r)(?pk \<mapsto> c)"
        using assms(4) Some None by (auto simp: list_member_def Let_def c_def e_def put_entry_def entry_at_def split: option.splits)
      have "no_folder_at r d" if "reg_paths r ?pk = Some d" for d
        using assms(2,3) that by (auto simp: apart_at_def)
      then have "rec_type (ent_record e) \<noteq> ArtDirectory"
        by (auto simp: e_def no_folder_at_def adopt_member_def member_entry_def Let_def split: option.split)
      note plain = this
      have paths: "d = c \<or> reg_paths r k = Some d" if "reg_paths r' k = Some d" for k d using out(4) that by (auto split: if_splits)
      have children: "d = c \<or> reg_children r k = Some d" if "reg_children r' k = Some d" for k d using out(3) that by (auto split: if_splits)
      note put = put_file [OF plain out(2) paths children]
      have "files_apart os rd fs r'" by (rule put(2) [OF _ _ assms(1)])
      moreover have "apart_at os rd fs ws folder r \<longrightarrow> apart_at os rd fs ws folder r'" by (intro impI) (rule put(1))
      ultimately have "files_apart os rd fs r'" "apart_at os rd fs ws folder r \<longrightarrow> apart_at os rd fs ws folder r'" by blast+
      then show ?thesis using out(1) plain by auto
    qed
  qed
  then show "files_apart os rd fs r'" "apart_at os rd fs ws folder r \<Longrightarrow> apart_at os rd fs ws folder r'"
    "x = Inr rec \<Longrightarrow> rec_type rec \<noteq> ArtDirectory" by blast+
qed

abbreviation not_folder :: "art_record \<Rightarrow> bool" where
  "not_folder a \<equiv> rec_type a \<noteq> ArtDirectory"

lemma list_walk_apart:
  "list_walk os fs uuid i parent items r = (x, r') \<Longrightarrow> files_apart os rd fs r \<Longrightarrow>
   apart_at os rd fs (ent_workspace parent) (rec_path (ent_record parent)) r \<Longrightarrow>
   set (regular_paths items) \<subseteq> set (regular_paths (rd_walk rd fs (rec_path (ent_record parent)))) \<Longrightarrow>
   files_apart os rd fs r' \<and> (\<forall>files. x = Inr files \<longrightarrow> list_all not_folder files)"
proof (induction os fs uuid i parent items r arbitrary: x r' rule: list_walk.induct)
  case (3 os fs uuid i parent path kind items r)
  show ?case
  proof (cases "kind = RegularMember")
    case True
    obtain y r1 where m: "list_member os fs uuid i parent path r = (y, r1)" by force
    have path: "path \<in> set (regular_paths (rd_walk rd fs (rec_path (ent_record parent))))" using "3.prems"(4) True by simp
    note one = list_member_apart [OF "3.prems"(2,3) path m]
    show ?thesis
    proof (cases y)
      case (Inl e)
      with "3.prems"(1) True m one(1) show ?thesis by auto
    next
      case (Inr rec)
      obtain z r2 where rest: "list_walk os fs uuid i parent items r1 = (z, r2)" by force
      have "files_apart os rd fs r2 \<and> (\<forall>files. z = Inr files \<longrightarrow> list_all not_folder files)"
        using "3.IH"(2) [OF _ m [symmetric] Inr rest one(1) one(2) [OF "3.prems"(3)]] "3.prems"(4) True by simp
      moreover have "x = map_sum id (Cons rec) z" "r' = r2" using "3.prems"(1) True m Inr rest by auto
      ultimately show ?thesis using one(3) [OF Inr] by (cases z) auto
    qed
  next
    case False
    with 3 show ?thesis by simp
  qed
qed auto

lemma list_directory_apart:
  assumes "list_directory_files os rd fs uuid i r = (x, r')" "files_apart os rd fs r"
  shows "files_apart os rd fs r'" and "x = Inr files \<Longrightarrow> list_all not_folder files"
proof -
  have "files_apart os rd fs r' \<and> (\<forall>files. x = Inr files \<longrightarrow> list_all not_folder files)"
  proof (cases "reg_entries r i")
    case (Some parent)
    obtain y r1 where walk: "list_walk os fs uuid i parent (rd_walk rd fs (rec_path (ent_record parent))) r = (y, r1)" by force
    show ?thesis
    proof (cases "rec_type (ent_record parent) = ArtDirectory \<and> rec_kind (ent_record parent) = KindArtifact")
      case True
      with assms(2) Some have "apart_at os rd fs (ent_workspace parent) (rec_path (ent_record parent)) r" by (auto simp: files_apart_def)
      from list_walk_apart [OF walk assms(2) this] assms(1) Some True walk show ?thesis
        by (cases y) (auto simp: list_directory_files_def list_all_iff)
    qed (use assms Some in \<open>auto simp: list_directory_files_def\<close>)
  qed (use assms in \<open>auto simp: list_directory_files_def\<close>)
  then show "files_apart os rd fs r'" "x = Inr files \<Longrightarrow> list_all not_folder files" by blast+
qed

lemma discover_returns:
  "files_apart os rd fs r \<Longrightarrow> list_all not_folder rest \<Longrightarrow> \<exists>out. discover_files os rd fs uuid missing (as @ rest) r = Some out"
proof (induction as arbitrary: r rest)
  case Nil
  from Nil(2) show ?case by (induction rest) (auto simp: discover_files.simps)
next
  case (Cons a as)
  obtain x r1 where l: "list_directory_files os rd fs uuid (rec_id a) r = (x, r1)" by force
  note keep = list_directory_apart [OF l Cons.prems(1)]
  show ?case
  proof (cases x)
    case (Inl e)
    with Cons keep l show ?thesis by (subst discover_files.simps) auto
  next
    case (Inr files)
    from keep(2) [OF this] Cons.prems(2) have "list_all not_folder (rest @ files)" by simp
    from Cons.IH [OF keep(1) this] obtain out where "discover_files os rd fs uuid missing (as @ rest @ files) r1 = Some out" by blast
    with Cons l Inr show ?thesis by (subst discover_files.simps) (auto split: prod.splits)
  qed
qed

section \<open>A sample\<close>

definition mem_reader :: "mem_fs reader" where
  "mem_reader =
     \<lparr>rd_walk = (\<lambda>fs d. map (\<lambda>p. WalkMember (fst p) RegularMember) (filter (\<lambda>p. fst p = d \<or> prefix (d @ ''/'') (fst p)) fs)),
      rd_open = (\<lambda>fs p. case map_of fs p of None \<Rightarrow> Inl (Text ''no such file'')
        | Some c \<Rightarrow> Inr \<lparr>of_folder = False, of_content = c, of_fault = \<lambda>_. None\<rparr>),
      rd_open_in = (\<lambda>fs d p. case map_of fs (join_path d p) of None \<Rightarrow> Inl (Text ''no such file'')
        | Some c \<Rightarrow> Inr \<lparr>of_folder = False, of_content = c, of_fault = \<lambda>_. None\<rparr>)\<rparr>"

definition folder_artifact :: declared where
  "folder_artifact =
     \<lparr>decl_name = ''notes'', decl_type = ArtDirectory, decl_path = ''d'', decl_description = ''the notes'',
      decl_required = False, decl_non_empty = False\<rparr>"

definition folder_registry :: "mem_fs \<Rightarrow> registry" where
  "folder_registry fs = snd (declare_artifact mem_os fs ''1'' ''/w'' folder_artifact new_registry)"

text \<open>
  A workspace that is restored drops the entries of files in a directory, but not the keys under which a listing
  has indexed them: the next listing finds the key and answers with the blank record.
\<close>

lemma listing_after_a_restore_is_blank:
  "(let fs = [(''/w/d/a'', ''x'')]; r0 = folder_registry fs;
        r1 = snd (list_directory_files mem_os mem_reader fs (\<lambda>_. ''2'') ''artifact-1'' r0) in
    case reg_restore_workspace mem_os fs ''/w'' (reg_snapshot_workspace r0 ''/w'') r1 of
      Inl e \<Rightarrow> False
    | Inr r2 \<Rightarrow>
        (case (fst (list_directory_files mem_os mem_reader fs (\<lambda>_. ''2'') ''artifact-1'' r0),
               fst (list_directory_files mem_os mem_reader fs (\<lambda>_. ''3'') ''artifact-1'' r2)) of
           (Inr before_files, Inr after_files) \<Rightarrow>
             map rec_name before_files = [''a''] \<and> map rec_name after_files = [[]] \<and> map rec_id after_files = [[]]
         | _ \<Rightarrow> False))"
  by code_simp

text \<open>
  The search of all artifacts captures quotes from whatever a task may read, also from the output it writes itself.
\<close>

lemma own_output_can_be_quoted:
  "(let v = \<lparr>tv_open = [], tv_registry = sample_registry, tv_quotes = new_quote_registry\<rparr> in
    \<not> has_purpose sample_registry ''artifact-1'' PurposeEvidence \<and> has_purpose sample_registry ''artifact-1'' PurposeOutput \<and>
    (case search_artifacts_tool mem_os mem_reader searched_notes id (\<lambda>_. False) literal_regexp rev [''artifact-1''] []
            ''words end'' True 3 (Some 1) v of
       None \<Rightarrow> False
     | Some (resp, v') \<Rightarrow>
         (case resp_output resp of
            None \<Rightarrow> False
          | Some res \<Rightarrow>
              list_all (\<lambda>m. sm_submit_ready (am_match m)) (al_matches res) \<and> al_matches res \<noteq> [] \<and>
              list_all (\<lambda>m. case resolve_quote (sm_quote_ref (am_match m)) (tv_quotes v') of
                 None \<Rightarrow> False | Some q \<Rightarrow> qu_artifact q = ''artifact-1'') (al_matches res))))"
  by code_simp

text \<open>The hang, for a directory artifact with a regular file in its place.\<close>

lemma declared_listing_ok:
  "listing_ok (snd (declare_artifact os fs u ws d new_registry))" "reg_children (snd (declare_artifact os fs u ws d new_registry)) = Map.empty"
proof -
  obtain x r where d: "declare_artifact os fs u ws d new_registry = (x, r)" by force
  have inv: "reg_inv r" by (rule declare_inv [OF reg_inv_new _ d]) (simp add: new_registry_def)
  from d have "ran (reg_paths r) \<subseteq> dom (reg_entries r) \<and> reg_children r = Map.empty"
    by (cases rule: declare_cases) (simp_all add: new_registry_def put_entry_def)
  with inv d show "listing_ok (snd (declare_artifact os fs u ws d new_registry))"
      "reg_children (snd (declare_artifact os fs u ws d new_registry)) = Map.empty"
    by (simp_all add: listing_ok_def)
qed

definition misplaced :: mem_fs where "misplaced = [(''/w/d'', ''x'')]"

definition folder_entry :: entry where "folder_entry = entry_at (folder_registry misplaced) ''artifact-1''"

lemma misplaced_listing:
  "(case reg_entries (folder_registry misplaced) ''artifact-1'' of None \<Rightarrow> False
    | Some e \<Rightarrow> rec_name (ent_record e) = ''notes'' \<and> rec_path (ent_record e) = ''/w/d'' \<and> rec_type (ent_record e) = ArtDirectory \<and>
        rec_id (ent_record e) = ''artifact-1'')"
  "(case fst (list_directory_files mem_os mem_reader misplaced (\<lambda>_. ''2'') ''artifact-1'' (folder_registry misplaced)) of
      Inr [a] \<Rightarrow> rec_id a = ''artifact-1'' \<and> rec_type a = ArtDirectory | _ \<Rightarrow> False)"
  "Option.is_none (reg_entries (folder_registry misplaced) ''artifact-2'')"
  by code_simp+

lemma misplaced_folder_hangs:
  "0 < n \<Longrightarrow> search_authorized mem_os mem_reader misplaced (\<lambda>_. ''2'') missing rx sha [ent_record folder_entry] pattern cs n c
     (folder_registry misplaced) = None"
proof -
  assume "0 < n"
  let ?list = "list_directory_files mem_os mem_reader misplaced (\<lambda>_. ''2'') ''artifact-1''"
  from misplaced_listing(1) have e: "reg_entries (folder_registry misplaced) ''artifact-1'' = Some folder_entry"
      "rec_name (ent_record folder_entry) = ''notes''" "rec_path (ent_record folder_entry) = ''/w/d''"
      "rec_type (ent_record folder_entry) = ArtDirectory" "rec_id (ent_record folder_entry) = ''artifact-1''"
    by (auto simp: folder_entry_def split: option.splits)
  obtain x r1 where l: "?list (folder_registry misplaced) = (x, r1)" by force
  with misplaced_listing(2) obtain a where a: "x = Inr [a]" "rec_id a = ''artifact-1''" "rec_type a = ArtDirectory"
    by (auto split: sum.splits list.splits)
  have walk: "[''/w/d''] = regular_paths (rd_walk mem_reader misplaced (rec_path (ent_record folder_entry)))"
    by (simp add: e(3) mem_reader_def misplaced_def)
  have fresh: "fresh_ids (\<lambda>_. ''2'') [''/w/d''] (folder_registry misplaced)"
    using misplaced_listing(3) by (simp add: fresh_ids_def fresh_uuid_def Option.is_none_def)
  have "listing_ok (folder_registry misplaced)" by (simp add: folder_registry_def declared_listing_ok)
  from listing_stable(3) [OF this e(1) _ _ walk _ fresh l [unfolded a(1)]]
  have "?list r1 = (Inr [a], r1)" using e by (simp add: is_abs_def)
  from directory_that_is_a_file_hangs [OF a(3) this [folded a(2)]]
  have "discover_files mem_os mem_reader misplaced (\<lambda>_. ''2'') missing [ent_record folder_entry] (folder_registry misplaced) = None"
    using e l a by (subst discover_files.simps) simp
  with \<open>0 < n\<close> show ?thesis by (simp add: search_authorized_def)
qed

section \<open>Properties\<close>

text \<open>
  C3: page by page a session reads the whole of a file. If a file is valid UTF-8 and a page may have at least four
  bytes, reading on from each page's \<^verbatim>\<open>next_offset_bytes\<close> while pages are truncated ends; the pages put together are the
  file, and each is valid UTF-8 and no longer than asked for.
\<close>

theorem pages_give_the_whole_file:
  assumes "reg_entries r i = Some item" "open_artifact rd fs i item = Inr f" "sound_file f" "valid_utf8 (of_content f)" "4 \<le> m"
  shows "\<exists>ps. page_run (\<lambda>off. read_page rd fs r i off m) 0 ps \<and> (\<forall>qs. page_run (\<lambda>off. read_page rd fs r i off m) 0 qs \<longrightarrow> qs = ps) \<and>
    concat (map pg_content ps) = of_content f \<and> list_all (\<lambda>p. valid_utf8 (pg_content p) \<and> int (length (pg_content p)) \<le> m) ps"
proof -
  let ?read = "\<lambda>off. read_page rd fs r i off m"
  have same: "?read off = page_of i f off m" if "0 \<le> off" for off
    using that assms(1,2,5) by (simp add: read_page_def)
  have "\<exists>ps. page_run ?read (int (length ([] :: string))) ps \<and> concat (map pg_content ps) = of_content f \<and>
      list_all (\<lambda>p. valid_utf8 (pg_content p) \<and> int (length (pg_content p)) \<le> m) ps"
    by (rule pages_from [OF assms(3,5)]) (use same assms(4) in simp_all)
  then obtain ps where ps: "page_run ?read 0 ps" "concat (map pg_content ps) = of_content f"
      "list_all (\<lambda>p. valid_utf8 (pg_content p) \<and> int (length (pg_content p)) \<le> m) ps"
    by auto
  with page_run_unique [OF ps(1)] show ?thesis by blast
qed

lemma sample_entry:
  "(case reg_entries sample_registry ''artifact-1'' of None \<Rightarrow> False
    | Some e \<Rightarrow> ent_root e = [] \<and> rec_path (ent_record e) = ''/w/out.md'' \<and> rec_type (ent_record e) = ArtFile)"
  "reg_order sample_registry = [''artifact-1'']"
  by code_simp+

theorem pages_give_the_whole_file_witness:
  "\<exists>ps. page_run (\<lambda>off. read_page mem_reader searched_notes sample_registry ''artifact-1'' off 4) 0 ps \<and>
     concat (map pg_content ps) = ''one'' @ [CHR 0x0A] @ ''two  words'' @ [CHR 0x0A, CHR 0x0A] @ ''end''"
proof -
  from sample_entry(1) obtain e where e: "reg_entries sample_registry ''artifact-1'' = Some e" "ent_root e = []"
      "rec_path (ent_record e) = ''/w/out.md''"
    by (auto split: option.splits)
  let ?f = "\<lparr>of_folder = False, of_content = ''one'' @ [CHR 0x0A] @ ''two  words'' @ [CHR 0x0A, CHR 0x0A] @ ''end'', of_fault = \<lambda>_. None\<rparr>"
  have o: "open_artifact mem_reader searched_notes ''artifact-1'' e = Inr ?f"
    using e by (simp add: open_artifact_def mem_reader_def searched_notes_def)
  have v: "valid_utf8 (of_content ?f)" by code_simp
  have s: "sound_file ?f" by (simp add: sound_file_def)
  from pages_give_the_whole_file [OF e(1) o s v, of 4] show ?thesis by (simp only: opened_file.select_convs) auto
qed


lemma sample_apart: "files_apart mem_os mem_reader fs sample_registry"
proof -
  have "reg_children sample_registry = Map.empty" by (simp add: sample_registry_def declared_listing_ok)
  moreover have "i = ''artifact-1''" if "reg_entries sample_registry i = Some e" for i e
    using that sample_inv sample_entry(2) by (auto simp: reg_inv_def)
  ultimately show ?thesis using sample_entry(1) by (fastforce simp: files_apart_def split: option.splits)
qed

definition sample_all :: "((error + search_all_result \<times> string list) \<times> registry) option" where
  "sample_all = search_authorized mem_os mem_reader searched_notes id (\<lambda>_. False) literal_regexp (\<lambda>s. ''d'')
     [ent_record (entry_at sample_registry ''artifact-1'')] ''words end'' True 3 1 sample_registry"

lemma sample_all_finds:
  "(case sample_all of Some (Inr (res, found), r1) \<Rightarrow> map (\<lambda>m. (am_artifact m, sm_matched (am_match m))) (al_matches res) =
      [(''artifact-1'', ''words end'')] | _ \<Rightarrow> False)"
  by code_simp


end
