(* ===== verification/Knowledge_Patch.thy ===== *)
theory Knowledge_Patch
  imports Artifact_Reading Checkpoint_Store
begin

text \<open>
  The tool with which a final review repairs an item of a \<^verbatim>\<open>knowledge.json\<close>, \<^verbatim>\<open>r42_qc_patch_knowledge\<close> of
  \<^verbatim>\<open>internal/cli/runtime_workflow_tools.go\<close>: \<^verbatim>\<open>qcPatchKnowledgeTool\<close>, \<^verbatim>\<open>applyQCKnowledgePatch\<close>, \<^verbatim>\<open>qcQuoteJSON\<close>,
  \<^verbatim>\<open>atomicReplaceFile\<close>.

  A raw JSON message is the value it stands for. Go maps whose order shows in the result are ranged over in an order that is a
  parameter. The directory of the file is the \<open>dk_store\<close> of a disk; file modes are not kept there, and what was written is
  there after a crash. JSON, \<^verbatim>\<open>strings.ToLower\<close>, SHA-256 and the names of temporary files are parameters.
\<close>

section \<open>Raw JSON\<close>

type_synonym fields = "(string \<times> json) list"

text \<open>Encoding a string replaces what is not valid UTF-8.\<close>

definition json_text :: "string \<Rightarrow> json" where
  "json_text s = J_String (concat (range_runes s))"

text \<open>Decoding into a string, a list of strings, a list of objects: \<^verbatim>\<open>null\<close> leaves the zero value.\<close>

definition raw_string :: "json option \<Rightarrow> string option" where
  "raw_string v = (case v of Some (J_String s) \<Rightarrow> Some s | Some J_Null \<Rightarrow> Some [] | _ \<Rightarrow> None)"

definition raw_text :: "string \<Rightarrow> fields \<Rightarrow> string" where
  "raw_text k kvs = (case raw_string (map_of kvs k) of Some s \<Rightarrow> s | None \<Rightarrow> [])"

definition raw_strings :: "json option \<Rightarrow> string list option" where
  "raw_strings v =
     (case v of
        Some J_Null \<Rightarrow> Some []
      | Some (J_Array vs) \<Rightarrow> those (map (\<lambda>x. raw_string (Some x)) vs)
      | _ \<Rightarrow> None)"

text \<open>Of two members with the same name a Go map keeps the later.\<close>

definition raw_object :: "json \<Rightarrow> fields option" where
  "raw_object v =
     (case v of
        J_Object kvs \<Rightarrow> Some (fold (\<lambda>p. AList.update (fst p) (snd p)) kvs [])
      | J_Null \<Rightarrow> Some []
      | _ \<Rightarrow> None)"

text \<open>\<^verbatim>\<open>unmarshalRawField\<close>; the flag says that the slice is nil.\<close>

definition raw_objects :: "json option \<Rightarrow> (bool \<times> fields list) option" where
  "raw_objects v =
     (case v of
        Some J_Null \<Rightarrow> Some (True, [])
      | Some (J_Array vs) \<Rightarrow> map_option (Pair False) (those (map raw_object vs))
      | _ \<Rightarrow> None)"

text \<open>A map is encoded in the order of its keys.\<close>

definition object_json :: "fields \<Rightarrow> json" where
  "object_json x = J_Object (sort_key fst x)"

definition objects_json :: "bool \<Rightarrow> fields list \<Rightarrow> json" where
  "objects_json was_nil xs = (if was_nil \<and> xs = [] then J_Null else J_Array (map object_json xs))"

section \<open>The repair of an item\<close>

record knowledge_patch =
  nk_id :: string
  nk_claim :: "string option"
  nk_confidence :: "string option"
  nk_citations :: "string list option"

record patch_args =
  pa_artifact :: string
  pa_patch :: "knowledge_patch option"
  pa_remove :: string

text \<open>Orders in which Go ranges over the map of quotes and over the set of IDs in use.\<close>

record map_orders =
  mo_quotes :: "(string \<times> fields) list \<Rightarrow> (string \<times> fields) list"
  mo_ids :: "string list \<Rightarrow> string list"

definition orders_ok :: "map_orders \<Rightarrow> bool" where
  "orders_ok mo \<longleftrightarrow> (\<forall>xs. mset (mo_quotes mo xs) = mset xs) \<and> (\<forall>xs. mset (mo_ids mo xs) = mset xs)"

record repair_env =
  re_lower :: "string \<Rightarrow> string"
  re_sum256 :: "string \<Rightarrow> string"
  re_orders :: map_orders
  re_quotes :: quote_registry

fun check_items :: "fields list \<Rightarrow> string list \<Rightarrow> string option" where
  "check_items [] seen = None"
| "check_items (item # items) seen =
     (case raw_string (map_of item ''id'') of
        None \<Rightarrow> Some ''knowledge items require non-empty id''
      | Some i \<Rightarrow>
          (if blank i then Some ''knowledge items require non-empty id''
           else if i \<in> set seen then Some ''knowledge item IDs must be unique''
           else check_items items (i # seen)))"

definition index_stored :: "fields list \<Rightarrow> (string \<times> fields) list" where
  "index_stored qs =
     fold (\<lambda>q m. if raw_text ''quote_ref'' q \<noteq> [] \<and> raw_text ''id'' q \<noteq> []
                 then AList.update (raw_text ''quote_ref'' q) q m else m) qs []"

definition cited_id :: "(string \<Rightarrow> string) \<Rightarrow> (string \<times> fields) list \<Rightarrow> string \<Rightarrow> string" where
  "cited_id sum256 stored ref =
     (case map_of stored ref of
        Some q \<Rightarrow> raw_text ''id'' q
      | None \<Rightarrow> ''quote-'' @ hex_string (take 8 (sum256 ref)))"

text \<open>\<^verbatim>\<open>qcQuoteJSON\<close>\<close>

definition quote_fields :: "string \<Rightarrow> quote \<Rightarrow> fields" where
  "quote_fields i q =
     map (\<lambda>p. (fst p, (case snd p of J_String s \<Rightarrow> json_text s | v \<Rightarrow> v)))
       (filter (\<lambda>p. fst p \<noteq> ''_r42_quote'') (canonical_map q)) @ [(''id'', json_text i)]"

text \<open>The loop over the citations, with the state \<open>'s\<close> that asking for authorization may change.\<close>

fun cite ::
  "repair_env \<Rightarrow> (string \<Rightarrow> 's \<Rightarrow> bool \<times> 's) \<Rightarrow> (string \<times> fields) list \<Rightarrow> string list \<Rightarrow> (string \<times> fields) list \<Rightarrow> 's \<Rightarrow>
   (string + string list \<times> (string \<times> fields) list) \<times> 's" where
  "cite env authorized stored [] by_ref s = (Inr ([], by_ref), s)"
| "cite env authorized stored (raw # raws) by_ref s =
     (let ref = trim_space raw in
      case resolve_quote ref (re_quotes env) of
        None \<Rightarrow> (Inl ''citation must be a trusted submit-ready quote_ref'', s)
      | Some q \<Rightarrow>
          (if \<not> qu_submit_ready q then (Inl ''citation must be a trusted submit-ready quote_ref'', s)
           else case authorized (qu_artifact q) s of
             (False, s1) \<Rightarrow> (Inl ''citation quote_ref is not authorized for this QC task'', s1)
           | (True, s1) \<Rightarrow>
               (let i = cited_id (re_sum256 env) stored ref;
                    by_ref1 = (if map_of by_ref ref = None then AList.update ref (quote_fields i q) by_ref else by_ref)
                in case cite env authorized stored raws by_ref1 s1 of
                     (Inl e, s2) \<Rightarrow> (Inl e, s2)
                   | (Inr (ids, by_ref2), s2) \<Rightarrow> (Inr (i # ids, by_ref2), s2))))"

definition good_confidence :: "string \<Rightarrow> bool" where
  "good_confidence s \<longleftrightarrow> s = ''high'' \<or> s = ''medium'' \<or> s = ''low''"

definition patch_claim :: "knowledge_patch \<Rightarrow> fields \<Rightarrow> string + fields" where
  "patch_claim p item =
     (case nk_claim p of
        None \<Rightarrow> Inr item
      | Some c \<Rightarrow> (if blank c then Inl ''claim must not be empty'' else Inr (AList.update ''claim'' (json_text (trim_space c)) item)))"

definition patch_confidence :: "(string \<Rightarrow> string) \<Rightarrow> knowledge_patch \<Rightarrow> fields \<Rightarrow> string + fields" where
  "patch_confidence lower p item =
     (case nk_confidence p of
        None \<Rightarrow> Inr item
      | Some c \<Rightarrow>
          (let confidence = lower (trim_space c) in
           if \<not> good_confidence confidence then Inl ''confidence must be high, medium, or low''
           else Inr (AList.update ''confidence'' (json_text confidence) item)))"

definition patch_citations ::
  "repair_env \<Rightarrow> (string \<Rightarrow> 's \<Rightarrow> bool \<times> 's) \<Rightarrow> (string \<times> fields) list \<Rightarrow> knowledge_patch \<Rightarrow> fields \<Rightarrow> 's \<Rightarrow>
   (string + fields \<times> (string \<times> fields) list) \<times> 's" where
  "patch_citations env authorized stored p item s =
     (case nk_citations p of
        None \<Rightarrow> (Inr (item, stored), s)
      | Some refs \<Rightarrow>
          (if refs = [] then (Inl ''citations must not be empty'', s)
           else case cite env authorized stored refs stored s of
             (Inl e, s1) \<Rightarrow> (Inl e, s1)
           | (Inr (ids, by_ref), s1) \<Rightarrow>
               (Inr (AList.update ''quote_ids'' (J_Array (map json_text ids)) item, by_ref), s1)))"

definition patch_item ::
  "repair_env \<Rightarrow> (string \<Rightarrow> 's \<Rightarrow> bool \<times> 's) \<Rightarrow> (string \<times> fields) list \<Rightarrow> knowledge_patch \<Rightarrow> fields \<Rightarrow> 's \<Rightarrow>
   (string + fields \<times> (string \<times> fields) list) \<times> 's" where
  "patch_item env authorized stored p item s =
     (case patch_claim p item of
        Inl e \<Rightarrow> (Inl e, s)
      | Inr item1 \<Rightarrow>
     (case patch_confidence (re_lower env) p item1 of
        Inl e \<Rightarrow> (Inl e, s)
      | Inr item2 \<Rightarrow> patch_citations env authorized stored p item2 s))"

definition patch_items ::
  "repair_env \<Rightarrow> (string \<Rightarrow> 's \<Rightarrow> bool \<times> 's) \<Rightarrow> (string \<times> fields) list \<Rightarrow> knowledge_patch option \<Rightarrow> fields list \<Rightarrow> 's \<Rightarrow>
   (string + fields list \<times> (string \<times> fields) list \<times> string list) \<times> 's" where
  "patch_items env authorized stored patch items s =
     (case patch of
        None \<Rightarrow> (Inr (items, stored, []), s)
      | Some p \<Rightarrow>
          (let i = trim_space (nk_id p) in
           if i = [] then (Inl ''patch id must not be empty'', s)
           else case find (\<lambda>item. raw_text ''id'' item = i) items of
             None \<Rightarrow> (Inl (''unknown knowledge item ID: '' @ i), s)
           | Some item \<Rightarrow>
               (case patch_item env authorized stored p item s of
                  (Inl e, s1) \<Rightarrow> (Inl e, s1)
                | (Inr (item1, by_ref), s1) \<Rightarrow>
                    (Inr (map (\<lambda>x. if raw_text ''id'' x = i then item1 else x) items, by_ref, [i]), s1))))"

fun used_ids :: "fields list \<Rightarrow> string list option" where
  "used_ids [] = Some []"
| "used_ids (item # items) =
     (case raw_strings (map_of item ''quote_ids'') of
        None \<Rightarrow> None
      | Some [] \<Rightarrow> None
      | Some ids \<Rightarrow> map_option (append ids) (used_ids items))"

definition good_item :: "fields \<Rightarrow> bool" where
  "good_item item \<longleftrightarrow> \<not> blank (raw_text ''claim'' item) \<and> good_confidence (raw_text ''confidence'' item)"

text \<open>The checks at the end, and the quotes that stay.\<close>

definition settle_quotes :: "map_orders \<Rightarrow> fields list \<Rightarrow> (string \<times> fields) list \<Rightarrow> string + fields list" where
  "settle_quotes mo items by_ref =
     (case used_ids items of
        None \<Rightarrow> Inl ''knowledge items require citations''
      | Some used \<Rightarrow>
          (let known = filter (\<lambda>i. i \<noteq> []) (map (\<lambda>p. raw_text ''id'' (snd p)) by_ref) in
           case filter (\<lambda>i. i \<notin> set known) (mo_ids mo (remdups used)) of
             i # _ \<Rightarrow> Inl (''knowledge item references unknown quote '' @ i)
           | [] \<Rightarrow>
               (if \<not> list_all good_item items then Inl ''knowledge items require valid claim and confidence''
                else Inr (filter (\<lambda>q. raw_text ''id'' q \<in> set used) (map snd (mo_quotes mo by_ref))))))"

record repaired =
  rp_items :: "fields list"
  rp_quotes :: "fields list"
  rp_changed :: "string list"
  rp_removed :: "string list"

definition apply_repair ::
  "repair_env \<Rightarrow> (string \<Rightarrow> 's \<Rightarrow> bool \<times> 's) \<Rightarrow> fields list \<Rightarrow> fields list \<Rightarrow> patch_args \<Rightarrow> 's \<Rightarrow> (string + repaired) \<times> 's" where
  "apply_repair env authorized items quotes args s =
     (case check_items items [] of
        Some e \<Rightarrow> (Inl e, s)
      | None \<Rightarrow>
     (case patch_items env authorized (index_stored quotes) (pa_patch args) items s of
        (Inl e, s1) \<Rightarrow> (Inl e, s1)
      | (Inr (items1, by_ref, changed), s1) \<Rightarrow>
          (let gone = trim_space (pa_remove args);
               dropped = (\<lambda>x. gone \<noteq> [] \<and> raw_text ''id'' x = gone);
               kept = filter (\<lambda>x. \<not> dropped x) items1
           in case settle_quotes (re_orders env) kept by_ref of
                Inl e \<Rightarrow> (Inl e, s1)
              | Inr qs \<Rightarrow>
                  (Inr \<lparr>rp_items = kept, rp_quotes = qs, rp_changed = changed,
                        rp_removed = map (raw_text ''id'') (filter dropped items1)\<rparr>, s1))))"

section \<open>What an accepted repair leaves\<close>

definition cites :: "fields \<Rightarrow> string \<Rightarrow> bool" where
  "cites item i \<longleftrightarrow> (\<exists>ids. raw_strings (map_of item ''quote_ids'') = Some ids \<and> i \<in> set ids)"

text \<open>Every item cites something, every citation has its quote, and every quote is cited.\<close>

definition well_cited :: "fields list \<Rightarrow> fields list \<Rightarrow> bool" where
  "well_cited items qs \<longleftrightarrow>
     (\<forall>item \<in> set items. (\<exists>i. cites item i) \<and> (\<forall>i. cites item i \<longrightarrow> (\<exists>q \<in> set qs. raw_text ''id'' q = i))) \<and>
     (\<forall>q \<in> set qs. \<exists>item \<in> set items. cites item (raw_text ''id'' q))"

lemma used_ids_cites:
  "used_ids items = Some used \<Longrightarrow>
   (\<forall>item \<in> set items. \<exists>i. cites item i) \<and> (\<forall>i. i \<in> set used \<longleftrightarrow> (\<exists>item \<in> set items. cites item i))"
proof (induction items arbitrary: used)
  case (Cons item items)
  then obtain i ids rest where ids: "raw_strings (map_of item ''quote_ids'') = Some (i # ids)"
      and rest: "used_ids items = Some rest" and used: "used = (i # ids) @ rest"
    by (auto split: option.splits list.splits)
  have "cites item j \<longleftrightarrow> j \<in> set (i # ids)" for j using ids by (simp add: cites_def)
  with Cons.IH [OF rest] used show ?case by auto
qed simp

lemma settle_quotes_Inr:
  assumes "orders_ok mo" "settle_quotes mo items by_ref = Inr qs"
  shows "well_cited items qs" and "list_all good_item items" and "set qs \<subseteq> snd ` set by_ref"
proof -
  from assms(2) obtain used where used: "used_ids items = Some used"
      and none: "filter (\<lambda>i. i \<notin> set (filter (\<lambda>i. i \<noteq> []) (map (\<lambda>p. raw_text ''id'' (snd p)) by_ref))) (mo_ids mo (remdups used)) = []"
      and good: "list_all good_item items"
      and qs: "qs = filter (\<lambda>q. raw_text ''id'' q \<in> set used) (map snd (mo_quotes mo by_ref))"
    by (auto simp: settle_quotes_def Let_def split: option.splits list.splits if_splits)
  have sets: "set (mo_quotes mo by_ref) = set by_ref" "set (mo_ids mo (remdups used)) = set used"
    using assms(1) by (metis orders_ok_def mset_eq_setD, metis orders_ok_def mset_eq_setD set_remdups)
  have known: "\<exists>p \<in> set by_ref. raw_text ''id'' (snd p) = i" if "i \<in> set used" for i
    using none that sets(2) by (auto simp: filter_empty_conv)
  note u = used_ids_cites [OF used]
  show "list_all good_item items" by (rule good)
  show "set qs \<subseteq> snd ` set by_ref" using sets(1) by (auto simp: qs)
  have "\<exists>q \<in> set qs. raw_text ''id'' q = i" if "item \<in> set items" "cites item i" for item i
  proof -
    have "i \<in> set used" using u that by blast
    with known obtain p where "p \<in> set by_ref" "raw_text ''id'' (snd p) = i" by blast
    with \<open>i \<in> set used\<close> sets(1) show ?thesis by (auto simp: qs)
  qed
  with u show "well_cited items qs" unfolding well_cited_def by (auto simp: qs)
qed

text \<open>The states that asking for authorization leads to.\<close>

inductive asked :: "(string \<Rightarrow> 's \<Rightarrow> bool \<times> 's) \<Rightarrow> 's \<Rightarrow> 's \<Rightarrow> bool" for authorized s0 where
  asked_start: "asked authorized s0 s0"
| asked_next: "asked authorized s0 s \<Longrightarrow> asked authorized s0 (snd (authorized a s))"

text \<open>A quote of the registry that a review may cite.\<close>

definition citable :: "repair_env \<Rightarrow> (string \<Rightarrow> 's \<Rightarrow> bool \<times> 's) \<Rightarrow> 's \<Rightarrow> string \<Rightarrow> quote \<Rightarrow> bool" where
  "citable env authorized s0 ref q \<longleftrightarrow>
     resolve_quote ref (re_quotes env) = Some q \<and> qu_submit_ready q \<and>
     (\<exists>s. asked authorized s0 s \<and> fst (authorized (qu_artifact q) s))"

text \<open>Quotes are only added, and only such quotes.\<close>

definition adds_citable ::
  "repair_env \<Rightarrow> (string \<Rightarrow> 's \<Rightarrow> bool \<times> 's) \<Rightarrow> 's \<Rightarrow> (string \<times> fields) list \<Rightarrow> (string \<times> fields) list \<Rightarrow> bool" where
  "adds_citable env authorized s0 old new \<longleftrightarrow>
     set old \<subseteq> set new \<and> (\<forall>p \<in> set new - set old. \<exists>i q. snd p = quote_fields i q \<and> citable env authorized s0 (fst p) q)"

lemma adds_citable_refl [simp]: "adds_citable env authorized s0 m m"
  by (simp add: adds_citable_def)

lemma adds_citable_trans: "adds_citable env authorized s0 l m \<Longrightarrow> adds_citable env authorized s0 m n \<Longrightarrow> adds_citable env authorized s0 l n"
  unfolding adds_citable_def by blast

lemma adds_citable_update:
  assumes "citable env authorized s0 ref q" "map_of m ref = None"
  shows "adds_citable env authorized s0 m (AList.update ref (quote_fields i q) m)"
proof -
  have "AList.update ref v m = m @ [(ref, v)]" for v :: fields
    using assms(2) by (induction m) auto
  then show ?thesis using assms(1) by (auto simp: adds_citable_def) blast
qed

lemma cite_Inr:
  "cite env authorized stored refs by_ref s = (Inr (ids, by_ref'), s') \<Longrightarrow> asked authorized s0 s \<Longrightarrow>
   ids = map (\<lambda>raw. cited_id (re_sum256 env) stored (trim_space raw)) refs \<and>
   list_all (\<lambda>raw. \<exists>q. citable env authorized s0 (trim_space raw) q) refs \<and> adds_citable env authorized s0 by_ref by_ref'"
proof (induction env authorized stored refs by_ref s arbitrary: ids by_ref' s' rule: cite.induct)
  case (2 env authorized stored raw raws by_ref s)
  let ?ref = "trim_space raw"
  let ?by = "\<lambda>q. if map_of by_ref ?ref = None
      then AList.update ?ref (quote_fields (cited_id (re_sum256 env) stored ?ref) q) by_ref else by_ref"
  from "2.prems"(1) obtain q s1 ids1 where q: "resolve_quote ?ref (re_quotes env) = Some q" "qu_submit_ready q"
      "authorized (qu_artifact q) s = (True, s1)" and ids: "ids = cited_id (re_sum256 env) stored ?ref # ids1"
      and rest: "cite env authorized stored raws (?by q) s1 = (Inr (ids1, by_ref'), s')"
    by (auto simp: Let_def split: option.splits if_splits prod.splits bool.splits sum.splits)
  have cit: "citable env authorized s0 ?ref q" using q "2.prems"(2) by (auto simp: citable_def intro: exI [of _ s])
  have s1: "asked authorized s0 s1" using asked_next [OF "2.prems"(2), of "qu_artifact q"] q(3) by simp
  from cit have "adds_citable env authorized s0 by_ref (?by q)" by (simp add: adds_citable_update)
  moreover have "ids1 = map (\<lambda>raw. cited_id (re_sum256 env) stored (trim_space raw)) raws"
      "list_all (\<lambda>raw. \<exists>q. citable env authorized s0 (trim_space raw) q) raws" "adds_citable env authorized s0 (?by q) by_ref'"
    using "2.IH" [OF refl q(1) _ q(3) [symmetric] _ refl refl rest s1] q(2) by blast+
  ultimately show ?case using cit ids adds_citable_trans by auto
qed auto

text \<open>An item may change in what a repair is about only.\<close>

definition same_but :: "string set \<Rightarrow> fields \<Rightarrow> fields \<Rightarrow> bool" where
  "same_but ks x y \<longleftrightarrow> (\<forall>k. k \<notin> ks \<longrightarrow> map_of y k = map_of x k)"

definition repair_fields :: "string set" where
  "repair_fields = {''claim'', ''confidence'', ''quote_ids''}"

lemma same_but_update: "k \<in> ks \<Longrightarrow> same_but ks x y \<Longrightarrow> same_but ks x (AList.update k v y)"
  by (auto simp: same_but_def update_conv')

lemma same_id: "same_but repair_fields x y \<Longrightarrow> map_of y ''id'' = map_of x ''id''"
  by (simp add: same_but_def repair_fields_def)

lemma patch_item_Inr:
  assumes "patch_item env authorized stored p item s = (Inr (item', by_ref), s')" and s: "asked authorized s0 s"
  shows "same_but repair_fields item item'"
    and "adds_citable env authorized s0 stored by_ref"
    and "nk_citations p = Some refs \<Longrightarrow> list_all (\<lambda>raw. \<exists>q. citable env authorized s0 (trim_space raw) q) refs \<and>
      (\<forall>i. cites item' i \<longrightarrow> i \<in> (\<lambda>raw. concat (range_runes (cited_id (re_sum256 env) stored (trim_space raw)))) ` set refs)"
proof -
  obtain item1 item2 where c: "patch_claim p item = Inr item1" "patch_confidence (re_lower env) p item1 = Inr item2"
      and q: "patch_citations env authorized stored p item2 s = (Inr (item', by_ref), s')"
    using assms by (auto simp: patch_item_def split: sum.splits)
  have keys: "''claim'' \<in> repair_fields" "''confidence'' \<in> repair_fields" "''quote_ids'' \<in> repair_fields"
    by (simp_all add: repair_fields_def)
  have "same_but repair_fields item item1"
    using c(1) keys by (auto simp: patch_claim_def same_but_def update_conv' split: option.splits if_splits)
  then have i2: "same_but repair_fields item item2"
    using c(2) keys same_but_update by (auto simp: patch_confidence_def Let_def split: option.splits if_splits)
  show "same_but repair_fields item item'"
    using q i2 keys same_but_update by (auto simp: patch_citations_def split: option.splits if_splits prod.splits sum.splits)
  show "adds_citable env authorized s0 stored by_ref"
    using q by (auto simp: patch_citations_def split: option.splits if_splits prod.splits sum.splits dest: cite_Inr [OF _ s])
  assume refs: "nk_citations p = Some refs"
  with q obtain ids where ids: "cite env authorized stored refs stored s = (Inr (ids, by_ref), s')"
      and item': "item' = AList.update ''quote_ids'' (J_Array (map json_text ids)) item2"
    by (auto simp: patch_citations_def split: if_splits prod.splits sum.splits)
  have "those (map (\<lambda>x. raw_string (Some (json_text x))) ids) = Some (map (\<lambda>i. concat (range_runes i)) ids)"
    by (induction ids) (simp_all add: raw_string_def json_text_def)
  then have "raw_strings (map_of item' ''quote_ids'') = Some (map (\<lambda>i. concat (range_runes i)) ids)"
    by (simp add: item' update_conv' raw_strings_def comp_def)
  with cite_Inr [OF ids s] show "list_all (\<lambda>raw. \<exists>q. citable env authorized s0 (trim_space raw) q) refs \<and>
      (\<forall>i. cites item' i \<longrightarrow> i \<in> (\<lambda>raw. concat (range_runes (cited_id (re_sum256 env) stored (trim_space raw)))) ` set refs)"
    by (auto simp: cites_def)
qed

definition ids_proper :: "fields list \<Rightarrow> bool" where
  "ids_proper items \<longleftrightarrow> distinct (map (raw_text ''id'') items) \<and> list_all (\<lambda>x. \<not> blank (raw_text ''id'' x)) items"

lemma check_items_None:
  "check_items items seen = None \<Longrightarrow> ids_proper items \<and> set (map (raw_text ''id'') items) \<inter> set seen = {}"
  by (induction items seen rule: check_items.induct) (auto simp: ids_proper_def raw_text_def split: option.splits if_splits)

lemma index_stored_quotes: "snd ` set (index_stored qs) \<subseteq> set qs"
proof -
  have up: "snd ` set (AList.update k v al) \<subseteq> insert v (snd ` set al)" for k and v :: fields and al
    by (induction al) auto
  have step: "snd ` set (if b then AList.update k v al else al) \<subseteq> insert v (snd ` set al)" for b k and v :: fields and al
    using up [of k v al] by (cases b) auto
  have "snd ` set (fold (\<lambda>q m. if raw_text ''quote_ref'' q \<noteq> [] \<and> raw_text ''id'' q \<noteq> []
       then AList.update (raw_text ''quote_ref'' q) q m else m) qs m) \<subseteq> set qs \<union> snd ` set m" for m
  proof (induction qs arbitrary: m)
    case (Cons q qs)
    show ?case
      using Cons.IH [of "if raw_text ''quote_ref'' q \<noteq> [] \<and> raw_text ''id'' q \<noteq> [] then AList.update (raw_text ''quote_ref'' q) q m else m"]
        step [of "raw_text ''quote_ref'' q \<noteq> [] \<and> raw_text ''id'' q \<noteq> []" "raw_text ''quote_ref'' q" q m]
      by (simp only: fold_simps comp_def list.set) blast
  qed simp
  from this [of "[]"] show ?thesis by (simp add: index_stored_def)
qed

text \<open>The items before and after: the others stay, one is repaired or removed.\<close>

definition only_repaired :: "patch_args \<Rightarrow> fields list \<Rightarrow> fields list \<Rightarrow> bool" where
  "only_repaired args items items' \<longleftrightarrow>
     (\<exists>f. items' = map f (filter (\<lambda>x. trim_space (pa_remove args) = [] \<or> raw_text ''id'' x \<noteq> trim_space (pa_remove args)) items) \<and>
        (\<forall>x \<in> set items. same_but repair_fields x (f x) \<and>
           (f x \<noteq> x \<longrightarrow> (\<exists>p. pa_patch args = Some p \<and> raw_text ''id'' x = trim_space (nk_id p)))))"

lemma patch_items_Inr:
  assumes "patch_items env authorized stored patch items s = (Inr (items1, by_ref, changed), s')" "ids_proper items"
    and s: "asked authorized s0 s"
  obtains f where "items1 = map f items" "\<And>x. x \<in> set items \<Longrightarrow> same_but repair_fields x (f x)"
    "\<And>x. x \<in> set items \<Longrightarrow> f x \<noteq> x \<Longrightarrow> \<exists>p. patch = Some p \<and> raw_text ''id'' x = trim_space (nk_id p)"
    "adds_citable env authorized s0 stored by_ref"
proof (cases patch)
  case None
  with assms that [of "\<lambda>x. x"] show thesis by (simp add: patch_items_def same_but_def)
next
  case (Some p)
  let ?i = "trim_space (nk_id p)"
  from assms(1) Some obtain item item1 where item: "find (\<lambda>x. raw_text ''id'' x = ?i) items = Some item"
      and one: "patch_item env authorized stored p item s = (Inr (item1, by_ref), s')"
      and items1: "items1 = map (\<lambda>x. if raw_text ''id'' x = ?i then item1 else x) items"
    by (auto simp: patch_items_def Let_def split: option.splits if_splits prod.splits sum.splits)
  let ?f = "\<lambda>x. if x = item then item1 else x"
  from item have it: "item \<in> set items" "raw_text ''id'' item = ?i" by (auto simp: find_Some_iff)
  have only: "x = item" if "x \<in> set items" "raw_text ''id'' x = ?i" for x
    using assms(2) that it by (auto simp: ids_proper_def distinct_map inj_on_def)
  have m: "items1 = map ?f items" unfolding items1
  proof (intro map_cong refl)
    fix x assume "x \<in> set items"
    then show "(if raw_text ''id'' x = ?i then item1 else x) = ?f x" using only it(2) by metis
  qed
  have same: "same_but repair_fields x (?f x)" if "x \<in> set items" for x
    using patch_item_Inr(1) [OF one s] by (auto simp: same_but_def)
  have which: "\<exists>p. patch = Some p \<and> raw_text ''id'' x = trim_space (nk_id p)" if "x \<in> set items" "?f x \<noteq> x" for x
    using that it(2) Some by (cases "x = item") simp_all
  show thesis by (rule that [OF m same which patch_item_Inr(2) [OF one s]])
qed

definition stored_or_citable ::
  "repair_env \<Rightarrow> (string \<Rightarrow> 's \<Rightarrow> bool \<times> 's) \<Rightarrow> 's \<Rightarrow> fields list \<Rightarrow> fields \<Rightarrow> bool" where
  "stored_or_citable env authorized s0 stored x \<longleftrightarrow>
     x \<in> set stored \<or> (\<exists>i ref q. x = quote_fields i q \<and> citable env authorized s0 ref q)"

lemma apply_repair_Inr:
  assumes "orders_ok (re_orders env)" "apply_repair env authorized items quotes args s = (Inr rp, s')"
  shows "well_cited (rp_items rp) (rp_quotes rp)" and "list_all good_item (rp_items rp)" and "ids_proper (rp_items rp)"
    and "only_repaired args items (rp_items rp)" and "list_all (stored_or_citable env authorized s quotes) (rp_quotes rp)"
proof -
  let ?gone = "trim_space (pa_remove args)"
  let ?dropped = "\<lambda>x. ?gone \<noteq> [] \<and> raw_text ''id'' x = ?gone"
  from assms(2) obtain items1 by_ref changed s1 where ids: "check_items items [] = None"
      and one: "patch_items env authorized (index_stored quotes) (pa_patch args) items s = (Inr (items1, by_ref, changed), s1)"
      and qs: "settle_quotes (re_orders env) (filter (\<lambda>x. \<not> ?dropped x) items1) by_ref = Inr (rp_quotes rp)"
      and rp: "rp_items rp = filter (\<lambda>x. \<not> ?dropped x) items1"
    by (auto simp: apply_repair_def Let_def split: option.splits prod.splits sum.splits)
  note settled = settle_quotes_Inr [OF assms(1) qs]
  show "well_cited (rp_items rp) (rp_quotes rp)" "list_all good_item (rp_items rp)" using settled rp by simp_all
  have proper: "ids_proper items" using check_items_None [OF ids] by blast
  from patch_items_Inr [OF one proper asked_start] obtain f where f: "items1 = map f items" "\<And>x. x \<in> set items \<Longrightarrow> same_but repair_fields x (f x)"
      "\<And>x. x \<in> set items \<Longrightarrow> f x \<noteq> x \<Longrightarrow> \<exists>p. pa_patch args = Some p \<and> raw_text ''id'' x = trim_space (nk_id p)"
      "adds_citable env authorized s (index_stored quotes) by_ref"
    by blast
  have id: "raw_text ''id'' (f x) = raw_text ''id'' x" if "x \<in> set items" for x
    using same_id [OF f(2) [OF that]] by (simp add: raw_text_def)
  have items': "rp_items rp = map f (filter (\<lambda>x. ?gone = [] \<or> raw_text ''id'' x \<noteq> ?gone) items)"
    unfolding rp f(1) filter_map by (intro arg_cong [where f = "map f"] filter_cong) (auto simp: id)
  with f(2,3) show "only_repaired args items (rp_items rp)" unfolding only_repaired_def by blast
  have keys: "map (raw_text ''id'') (rp_items rp) = map (raw_text ''id'') (filter (\<lambda>x. ?gone = [] \<or> raw_text ''id'' x \<noteq> ?gone) items)"
    unfolding items' by (simp add: id)
  have "distinct (map (raw_text ''id'') (rp_items rp))" unfolding keys using proper by (simp add: ids_proper_def distinct_map_filter)
  moreover have "list_all (\<lambda>x. \<not> blank (raw_text ''id'' x)) (rp_items rp)"
    using proper by (auto simp: ids_proper_def items' list_all_iff id)
  ultimately show "ids_proper (rp_items rp)" by (simp add: ids_proper_def)
  show "list_all (stored_or_citable env authorized s quotes) (rp_quotes rp)"
  proof (unfold list_all_iff, intro ballI)
    fix x assume "x \<in> set (rp_quotes rp)"
    then obtain ref where ref: "(ref, x) \<in> set by_ref" using settled(3) by auto
    show "stored_or_citable env authorized s quotes x"
    proof (cases "(ref, x) \<in> set (index_stored quotes)")
      case True
      with index_stored_quotes [of quotes] show ?thesis by (auto simp: stored_or_citable_def)
    next
      case False
      with ref f(4) have "\<exists>i q. snd (ref, x) = quote_fields i q \<and> citable env authorized s (fst (ref, x)) q"
        unfolding adds_citable_def by blast
      then show ?thesis unfolding stored_or_citable_def by auto
    qed
  qed
qed

text \<open>Citing a reference whose quote is stored keeps what is stored, whatever the registry says of it.\<close>

lemma cited_quote_keeps_stored_text:
  "cite env authorized stored refs by_ref s = (Inr (ids, by_ref'), s') \<Longrightarrow> map_of by_ref ref = Some x \<Longrightarrow> map_of by_ref' ref = Some x"
proof (induction env authorized stored refs by_ref s arbitrary: ids by_ref' s' rule: cite.induct)
  case (2 env authorized stored raw raws by_ref s)
  from "2.prems"(1) obtain q s1 ids1 by1 where q: "resolve_quote (trim_space raw) (re_quotes env) = Some q" "qu_submit_ready q"
      "authorized (qu_artifact q) s = (True, s1)"
      and by1: "by1 = (if map_of by_ref (trim_space raw) = None
        then AList.update (trim_space raw) (quote_fields (cited_id (re_sum256 env) stored (trim_space raw)) q) by_ref else by_ref)"
      and rest: "cite env authorized stored raws by1 s1 = (Inr (ids1, by_ref'), s')"
    by (auto simp: Let_def split: option.splits if_splits prod.splits bool.splits sum.splits)
  have "map_of by1 ref = Some x" using "2.prems"(2) by (auto simp: by1 update_conv')
  with "2.IH" [OF refl q(1) _ q(3) [symmetric] _ refl by1 rest] q(2) show ?case by blast
qed auto

text \<open>To remove an item that is not there is accepted, whereas to patch it is not.\<close>

lemma unknown_removal_is_accepted:
  assumes "check_items items [] = None" "pa_patch args = None" "\<And>x. x \<in> set items \<Longrightarrow> raw_text ''id'' x \<noteq> trim_space (pa_remove args)"
    and "settle_quotes (re_orders env) items (index_stored quotes) = Inr qs"
  shows "apply_repair env authorized items quotes args s = (Inr \<lparr>rp_items = items, rp_quotes = qs, rp_changed = [], rp_removed = []\<rparr>, s)"
proof -
  let ?dropped = "\<lambda>x. trim_space (pa_remove args) \<noteq> [] \<and> raw_text ''id'' x = trim_space (pa_remove args)"
  have kept: "filter (\<lambda>x. \<not> ?dropped x) items = items" "filter ?dropped items = []"
    using assms(3) by (simp_all add: filter_id_conv filter_empty_conv)
  show ?thesis
    unfolding apply_repair_def patch_items_def Let_def
    by (simp only: assms(1,2,4) option.case prod.case sum.case kept list.map)
qed

lemma unknown_patch_is_rejected:
  assumes "check_items items [] = None" "pa_patch args = Some p" "trim_space (nk_id p) \<noteq> []"
    and "\<And>x. x \<in> set items \<Longrightarrow> raw_text ''id'' x \<noteq> trim_space (nk_id p)"
  shows "apply_repair env authorized items quotes args s = (Inl (''unknown knowledge item ID: '' @ trim_space (nk_id p)), s)"
proof -
  have "find (\<lambda>x. raw_text ''id'' x = trim_space (nk_id p)) items = None" using assms(4) by (auto simp: find_None_iff)
  with assms(1-3) show ?thesis by (simp add: apply_repair_def patch_items_def Let_def)
qed

section \<open>The replacement of a file\<close>

text \<open>A call whose error is ignored.\<close>

definition ignoring :: "unit io \<Rightarrow> unit io" where
  "ignoring p m = (case p m of (Crashed, m') \<Rightarrow> (Crashed, m') | (_, m') \<Rightarrow> (Returned (), m'))"

text \<open>\<^verbatim>\<open>atomicReplaceFile\<close>. The two calls \<open>io_sync\<close> are the \<^verbatim>\<open>Stat\<close> of the old file, whose error is ignored, and the \<^verbatim>\<open>Chmod\<close>.\<close>

definition atomic_replace :: "temp \<Rightarrow> string \<Rightarrow> string \<Rightarrow> unit io" where
  "atomic_replace temp name contents =
     and_then (make_temp temp ''.r42-qc-patch-'' (StoreFile [])) (\<lambda>t.
     finally_do
       (and_then (ignoring io_sync) (\<lambda>_.
        and_then (closing (and_then io_sync (\<lambda>_. io_act (write_pointer t contents)))) (\<lambda>_.
        io_act (rename_item t name))))
       (io_act (\<lambda>d. Inr (drop_item t d))))"

text \<open>Only the file and temporary files differ.\<close>

definition same_files :: "string \<Rightarrow> disk \<Rightarrow> disk \<Rightarrow> bool" where
  "same_files name d d' \<longleftrightarrow>
     dk_places d' = dk_places d \<and> (\<forall>n item. n \<noteq> name \<and> store_item d n = Some item \<longrightarrow> store_item d' n = Some item)"

definition kept_file :: "string \<Rightarrow> disk \<Rightarrow> disk \<Rightarrow> bool" where
  "kept_file name d d' \<longleftrightarrow> same_files name d d' \<and> store_item d' name = store_item d name"

definition new_file :: "string \<Rightarrow> string \<Rightarrow> disk \<Rightarrow> disk \<Rightarrow> bool" where
  "new_file name contents d d' \<longleftrightarrow> same_files name d d' \<and> store_item d' name = Some (StoreFile contents)"

text \<open>The Hoare logic, with a postcondition of its own for a program that fails.\<close>

definition triple3 :: "(disk \<Rightarrow> bool) \<Rightarrow> 'a io \<Rightarrow> ('a \<Rightarrow> disk \<Rightarrow> bool) \<Rightarrow> (disk \<Rightarrow> bool) \<Rightarrow> (disk \<Rightarrow> bool) \<Rightarrow> bool" where
  "triple3 P p Q F R \<longleftrightarrow>
     (\<forall>m. P (mc_disk m) \<longrightarrow>
        (case p m of (out, m') \<Rightarrow>
           (case out of Returned x \<Rightarrow> Q x (mc_disk m') | Failed e \<Rightarrow> F (mc_disk m') | Crashed \<Rightarrow> R (mc_disk m'))))"

lemma triple3_then:
  assumes "triple3 P p Q' F R" and "\<And>x. triple3 (Q' x) (k x) Q F R"
  shows "triple3 P (and_then p k) Q F R"
  using assms by (fastforce simp: triple3_def and_then_def split: prod.splits outcome.splits)

lemma triple3_sys:
  assumes "\<And>d x d'. P d \<Longrightarrow> f d = Inr (x, d') \<Longrightarrow> Q x d'" and "\<And>d. P d \<Longrightarrow> F d" and "\<And>d. P d \<Longrightarrow> R d"
  shows "triple3 P (sys f) Q F R"
  using assms by (auto simp: triple3_def sys_def Let_def split: nat.splits option.splits sum.splits)

lemma triple3_act:
  assumes "\<And>d d'. P d \<Longrightarrow> f d = Inr d' \<Longrightarrow> Q () d'" and "\<And>d. P d \<Longrightarrow> F d" and "\<And>d. P d \<Longrightarrow> R d"
  shows "triple3 P (io_act f) Q F R"
  unfolding io_act_def by (rule triple3_sys) (use assms in \<open>auto split: sum.splits\<close>)

lemma triple3_sync: "(\<And>d. P d \<Longrightarrow> Q () d) \<Longrightarrow> (\<And>d. P d \<Longrightarrow> F d) \<Longrightarrow> (\<And>d. P d \<Longrightarrow> R d) \<Longrightarrow> triple3 P io_sync Q F R"
  unfolding io_sync_def by (rule triple3_act) auto

lemma triple3_ignoring:
  assumes "\<And>d. P d \<Longrightarrow> R d"
  shows "triple3 P (ignoring io_sync) (\<lambda>_. P) F R"
  using assms by (auto simp: triple3_def ignoring_def io_sync_def io_act_def sys_def Let_def split: nat.splits option.splits)

lemma triple3_closing:
  assumes "triple3 P p Q F R" and "\<And>x d. Q x d \<Longrightarrow> F d" and "\<And>x d. Q x d \<Longrightarrow> R d" and "\<And>d. F d \<Longrightarrow> R d"
  shows "triple3 P (closing p) Q F R"
proof -
  have sync: "mc_disk m' = mc_disk m" if "io_sync m = (out, m')" for m out m'
    using that by (auto simp: io_sync_def io_act_def sys_def Let_def split: nat.splits option.splits)
  show ?thesis
    using assms by (fastforce simp: triple3_def closing_def split: prod.splits outcome.splits dest: sync)
qed

lemma triple3_finally:
  assumes "triple3 P p Q F R" and "\<And>x. triple3 (Q x) c (\<lambda>_. Q' x) (Q' x) R" and "triple3 F c (\<lambda>_. F') F' R"
  shows "triple3 P (finally_do p c) Q' F' R"
  unfolding triple3_def
proof (intro allI impI)
  fix m :: machine assume P: "P (mc_disk m)"
  obtain out m1 where p: "p m = (out, m1)" by force
  obtain out2 m2 where c: "c m1 = (out2, m2)" by force
  have p': "case out of Returned x \<Rightarrow> Q x (mc_disk m1) | Failed e \<Rightarrow> F (mc_disk m1) | Crashed \<Rightarrow> R (mc_disk m1)"
    using assms(1) P p by (auto simp: triple3_def)
  show "case finally_do p c m of (out, m') \<Rightarrow>
      (case out of Returned x \<Rightarrow> Q' x (mc_disk m') | Failed e \<Rightarrow> F' (mc_disk m') | Crashed \<Rightarrow> R (mc_disk m'))"
  proof (cases out)
    case (Returned x)
    with p' assms(2) [of x] c have "case out2 of Crashed \<Rightarrow> R (mc_disk m2) | _ \<Rightarrow> Q' x (mc_disk m2)"
      by (auto simp: triple3_def split: outcome.splits)
    with Returned p c show ?thesis by (auto simp: finally_do_def split: outcome.splits)
  next
    case (Failed e)
    with p' assms(3) c have "case out2 of Crashed \<Rightarrow> R (mc_disk m2) | _ \<Rightarrow> F' (mc_disk m2)"
      by (auto simp: triple3_def split: outcome.splits)
    with Failed p c show ?thesis by (auto simp: finally_do_def split: outcome.splits)
  next
    case Crashed
    with p p' show ?thesis by (simp add: finally_do_def)
  qed
qed

text \<open>With the temporary file \<open>t\<close> beside it, and after the rename.\<close>

definition beside :: "disk \<Rightarrow> string \<Rightarrow> string \<Rightarrow> string \<Rightarrow> disk \<Rightarrow> bool" where
  "beside d0 name t s d \<longleftrightarrow>
     t \<noteq> name \<and> store_item d0 t = None \<and> dk_store d \<noteq> None \<and> dk_places d = dk_places d0 \<and>
     store_item d = (store_item d0)(t \<mapsto> StoreFile s)"

definition swapped :: "disk \<Rightarrow> string \<Rightarrow> string \<Rightarrow> string \<Rightarrow> disk \<Rightarrow> bool" where
  "swapped d0 name t s d \<longleftrightarrow>
     t \<noteq> name \<and> store_item d0 t = None \<and> dk_places d = dk_places d0 \<and> store_item d = (store_item d0)(name \<mapsto> StoreFile s)"

lemma beside_kept: "beside d0 name t s d \<Longrightarrow> kept_file name d0 d" "beside d0 name t s d \<Longrightarrow> kept_file name d0 (drop_item t d)"
  by (auto simp: beside_def kept_file_def same_files_def)

lemma swapped_new: "swapped d0 name t s d \<Longrightarrow> new_file name s d0 d" "swapped d0 name t s d \<Longrightarrow> new_file name s d0 (drop_item t d)"
  by (auto simp: swapped_def new_file_def same_files_def)

lemma kept_refl [simp]: "kept_file name d d"
  by (simp add: kept_file_def same_files_def)

lemma atomic_replace_triple:
  assumes "temp_ok temp" "store_item d0 name = Some (StoreFile old)"
  shows "triple3 (\<lambda>d. d = d0) (atomic_replace temp name c) (\<lambda>_. new_file name c d0) (kept_file name d0)
     (\<lambda>d. kept_file name d0 d \<or> new_file name c d0 d)"
  unfolding atomic_replace_def
proof (rule triple3_then)
  let ?R = "\<lambda>d. kept_file name d0 d \<or> new_file name c d0 d"
  show "triple3 (\<lambda>d. d = d0) (make_temp temp ''.r42-qc-patch-'' (StoreFile [])) (\<lambda>t. beside d0 name t []) (kept_file name d0) ?R"
    unfolding make_temp_def
  proof (rule triple3_sys)
    fix d t d' assume d: "d = d0" and go: "(if dk_store d = None then Inl (Text ''no such file or directory'')
        else let n = ''.r42-qc-patch-'' @ temp ''.r42-qc-patch-'' (store_names d) in Inr (n, put_item n (StoreFile []) d)) = Inr (t, d')"
    let ?t = "''.r42-qc-patch-'' @ temp ''.r42-qc-patch-'' (store_names d)"
    have t: "t = ?t" "d' = put_item ?t (StoreFile []) d" "dk_store d \<noteq> None" using go by (auto simp: Let_def split: if_splits)
    have "?t \<notin> set (store_names d)" using assms(1) unfolding temp_ok_def by blast
    then have "store_item d t = None" using t(1) by (simp only: store_names_None)
    with t d assms(2) show "beside d0 name t [] d'" by (auto simp: beside_def)
  qed auto
  fix t
  let ?made = "beside d0 name t []" and ?written = "beside d0 name t c" and ?any = "\<lambda>d. \<exists>s. beside d0 name t s d"
  have kept: "?any d \<Longrightarrow> ?R d" for d by (auto dest: beside_kept)
  have wrote: "triple3 ?made (closing (and_then io_sync (\<lambda>_. io_act (write_pointer t c)))) (\<lambda>_. ?written) ?any ?R"
  proof (intro triple3_closing triple3_then [where Q' = "\<lambda>_. ?made"] triple3_sync triple3_act)
    fix d d' assume d: "?made d" and "write_pointer t c d = Inr d'"
    then have "d' = put_item t (StoreFile c) d" by (auto simp: write_pointer_def split: if_splits)
    with d show "?written d'" unfolding beside_def by simp
  qed (use kept in auto)
  have moved: "triple3 ?written (io_act (rename_item t name)) (\<lambda>_. swapped d0 name t c) ?any ?R"
  proof (rule triple3_act)
    fix d d' assume d: "?written d" and "rename_item t name d = Inr d'"
    then have "d' = put_item name (StoreFile c) (drop_item t d)"
      using assms(2) by (auto simp: rename_item_def beside_def)
    with d show "swapped d0 name t c d'" by (auto simp: beside_def swapped_def)
  qed (use kept in auto)
  have drop1: "triple3 (swapped d0 name t c) (io_act (\<lambda>d. Inr (drop_item t d))) (\<lambda>_. new_file name c d0) (new_file name c d0) ?R"
    by (rule triple3_act) (auto dest: swapped_new)
  have drop2: "triple3 ?any (io_act (\<lambda>d. Inr (drop_item t d))) (\<lambda>_. kept_file name d0) (kept_file name d0) ?R"
    by (rule triple3_act) (auto dest: beside_kept)
  show "triple3 ?made (finally_do
       (and_then (ignoring io_sync) (\<lambda>_.
        and_then (closing (and_then io_sync (\<lambda>_. io_act (write_pointer t c)))) (\<lambda>_. io_act (rename_item t name))))
       (io_act (\<lambda>d. Inr (drop_item t d)))) (\<lambda>_. new_file name c d0) (kept_file name d0) ?R"
    by (rule triple3_finally [OF triple3_then [OF triple3_ignoring triple3_then [OF wrote moved]] drop1 drop2]) (use kept in blast)
qed

section \<open>The tool\<close>

text \<open>A call whose error the program looks at.\<close>

definition attempt :: "'a io \<Rightarrow> (error + 'a) io" where
  "attempt p m =
     (case p m of
        (Returned x, m1) \<Rightarrow> (Returned (Inr x), m1)
      | (Failed e, m1) \<Rightarrow> (Returned (Inl e), m1)
      | (Crashed, m1) \<Rightarrow> (Crashed, m1))"

text \<open>\<^verbatim>\<open>filepath.Base\<close>\<close>

definition base_name :: "string \<Rightarrow> string" where
  "base_name p =
     (if p = [] then ''.''
      else let q = rev (dropWhile (\<lambda>c. c = CHR ''/'') (rev p))
           in if q = [] then ''/'' else last (split_on CHR ''/'' q))"

definition read_store_file :: "string \<Rightarrow> disk \<Rightarrow> error + string" where
  "read_store_file name d =
     (case store_item d name of
        Some (StoreFile c) \<Rightarrow> Inr c
      | Some (StoreTree _) \<Rightarrow> Inl (Text ''is a directory'')
      | None \<Rightarrow> Inl (Text ''no such file or directory''))"

record 'fs repair_host =
  rh_os :: "'fs os"
  rh_reader :: "'fs reader"
  rh_uuid :: "string \<Rightarrow> string"
  rh_lower :: "string \<Rightarrow> string"
  rh_sum256 :: "string \<Rightarrow> string"
  rh_orders :: map_orders
  rh_decode :: "string \<Rightarrow> json option"
  rh_indent :: "json \<Rightarrow> string"
  rh_temp :: temp

record knowledge_document =
  kd_fields :: fields
  kd_items :: "bool \<times> fields list"
  kd_quotes :: "bool \<times> fields list"

definition decode_document :: "(string \<Rightarrow> json option) \<Rightarrow> string \<Rightarrow> string + knowledge_document" where
  "decode_document decode payload =
     (case Option.bind (decode payload) raw_object of
        None \<Rightarrow> Inl ''knowledge.json must be valid JSON''
      | Some doc \<Rightarrow>
     (case raw_objects (map_of doc ''knowledge'') of
        None \<Rightarrow> Inl ''knowledge.json knowledge must be an array''
      | Some items \<Rightarrow>
     (case raw_objects (map_of doc ''quotes'') of
        None \<Rightarrow> Inl ''knowledge.json quotes must be an array''
      | Some quotes \<Rightarrow> Inr \<lparr>kd_fields = doc, kd_items = items, kd_quotes = quotes\<rparr>)))"

definition encode_document :: "(json \<Rightarrow> string) \<Rightarrow> knowledge_document \<Rightarrow> repaired \<Rightarrow> string" where
  "encode_document indent doc rp =
     indent (object_json
       (AList.update ''quotes'' (objects_json (fst (kd_quotes doc)) (rp_quotes rp))
         (AList.update ''knowledge'' (objects_json (fst (kd_items doc)) (rp_items rp)) (kd_fields doc)))) @ ''\<newline>''"

record repair_reply =
  rr_artifact :: string
  rr_changed :: "string list"
  rr_removed :: "string list"
  rr_count :: int
  rr_digest :: string

definition repair_env_of :: "'fs repair_host \<Rightarrow> quote_registry \<Rightarrow> repair_env" where
  "repair_env_of h quotes =
     \<lparr>re_lower = rh_lower h, re_sum256 = rh_sum256 h, re_orders = rh_orders h, re_quotes = quotes\<rparr>"

definition repair_authorized :: "'fs repair_host \<Rightarrow> 'fs \<Rightarrow> string list \<Rightarrow> string \<Rightarrow> registry \<Rightarrow> bool \<times> registry" where
  "repair_authorized h fs roots = artifact_id_authorized (rh_os h) (rh_reader h) fs (rh_uuid h) roots"

text \<open>From the reading of the file to its replacement. Encoding what was decoded does not fail.\<close>

definition store_repaired ::
  "'fs repair_host \<Rightarrow> patch_args \<Rightarrow> string \<Rightarrow> knowledge_document \<Rightarrow> repaired \<Rightarrow> registry \<Rightarrow> (repair_reply tool_response \<times> registry) io" where
  "store_repaired h args name doc rp r =
     (let encoded = encode_document (rh_indent h) doc rp in
      and_then (attempt (atomic_replace (rh_temp h) name encoded)) (\<lambda>res.
      io_return
        (case res of
           Inl e \<Rightarrow> rejected_tool_result ''knowledge_patch_failed'' e
         | Inr _ \<Rightarrow>
             accept \<lparr>rr_artifact = pa_artifact args, rr_changed = rp_changed rp, rr_removed = rp_removed rp,
                     rr_count = int (length (rp_changed rp)), rr_digest = ''sha256:'' @ hex_string (rh_sum256 h encoded)\<rparr>,
         r)))"

definition repair_document ::
  "'fs repair_host \<Rightarrow> 'fs \<Rightarrow> string list \<Rightarrow> quote_registry \<Rightarrow> patch_args \<Rightarrow> string \<Rightarrow> registry \<Rightarrow> string \<Rightarrow>
   (repair_reply tool_response \<times> registry) io" where
  "repair_document h fs roots quotes args name r old =
     (case decode_document (rh_decode h) old of
        Inl e \<Rightarrow> io_return (rejected_tool_result ''invalid_knowledge_artifact'' (Text e), r)
      | Inr doc \<Rightarrow>
     (case apply_repair (repair_env_of h quotes) (repair_authorized h fs roots) (snd (kd_items doc)) (snd (kd_quotes doc)) args r of
        (Inl issue, r1) \<Rightarrow> io_return (rejected_tool_result ''knowledge_patch_invalid'' (Text issue), r1)
      | (Inr rp, r1) \<Rightarrow> store_repaired h args name doc rp r1))"

definition repair_file ::
  "'fs repair_host \<Rightarrow> 'fs \<Rightarrow> string list \<Rightarrow> quote_registry \<Rightarrow> patch_args \<Rightarrow> string \<Rightarrow> registry \<Rightarrow>
   (repair_reply tool_response \<times> registry) io" where
  "repair_file h fs roots quotes args name r =
     and_then (attempt (io_ask (read_store_file name))) (\<lambda>payload.
     case payload of
       Inl e \<Rightarrow> io_return (rejected_tool_result ''knowledge_patch_failed'' e, r)
     | Inr old \<Rightarrow> repair_document h fs roots quotes args name r old)"

text \<open>The handler; \<open>None\<close> stands for a nil registry.\<close>

definition qc_patch_knowledge ::
  "'fs repair_host \<Rightarrow> 'fs \<Rightarrow> string list \<Rightarrow> quote_registry option \<Rightarrow> error + patch_args \<Rightarrow> registry option \<Rightarrow>
   (repair_reply tool_response \<times> registry option) io" where
  "qc_patch_knowledge h fs roots quotes decoded reg =
     (case decoded of
        Inl e \<Rightarrow> io_return (rejected_tool_result ''invalid_arguments'' e, reg)
      | Inr args \<Rightarrow>
     (if pa_artifact args \<notin> set roots
      then io_return (rejected_tool_result ''artifact_not_authorized''
             (Text ''artifact_id is not an authorized output artifact for this QC task''), reg)
      else case (reg, quotes) of
        (Some r, Some q) \<Rightarrow>
          (case record_of r (pa_artifact args) of
             Inl e \<Rightarrow> io_return (rejected_tool_result ''unknown_artifact_id'' e, reg)
           | Inr rec \<Rightarrow>
               (if rec_type rec = ArtDirectory \<or> rh_lower h (base_name (rec_path rec)) \<noteq> ''knowledge.json''
                then io_return (rejected_tool_result ''invalid_knowledge_artifact'' (Text ''artifact_id must refer to knowledge.json''), reg)
                else if (pa_patch args = None) = blank (pa_remove args)
                then io_return (rejected_tool_result ''single_change_required''
                       (Text ''provide exactly one patch or one remove_id; call the tool again for another change''), reg)
                else and_then (repair_file h fs roots q args (base_name (rec_path rec)) r) (\<lambda>(res, r1). io_return (res, Some r1))))
      | _ \<Rightarrow> io_return (rejected_tool_result ''knowledge_patch_failed'' (Text ''artifact and quote registries are required''), reg)))"

section \<open>What a call of the tool may change\<close>

definition all_kept :: "disk \<Rightarrow> disk \<Rightarrow> bool" where
  "all_kept d d' \<longleftrightarrow> dk_places d' = dk_places d \<and> (\<forall>n item. store_item d n = Some item \<longrightarrow> store_item d' n = Some item)"

lemma all_kept_refl [simp]: "all_kept d d"
  by (simp add: all_kept_def)

lemma kept_all: "kept_file name d d' \<Longrightarrow> all_kept d d'"
  by (auto simp: kept_file_def same_files_def all_kept_def) metis

text \<open>What the authors and the reviewers of the file may rely on after a repair.\<close>

definition good_repair ::
  "repair_env \<Rightarrow> (string \<Rightarrow> registry \<Rightarrow> bool \<times> registry) \<Rightarrow> registry \<Rightarrow> patch_args \<Rightarrow> knowledge_document \<Rightarrow> repaired \<Rightarrow> bool" where
  "good_repair env authorized r args doc rp \<longleftrightarrow>
     well_cited (rp_items rp) (rp_quotes rp) \<and> list_all good_item (rp_items rp) \<and> ids_proper (rp_items rp) \<and>
     only_repaired args (snd (kd_items doc)) (rp_items rp) \<and>
     list_all (stored_or_citable env authorized r (snd (kd_quotes doc))) (rp_quotes rp)"

text \<open>The file of a readable document holds a good repair of it.\<close>

definition repaired_in ::
  "'fs repair_host \<Rightarrow> 'fs \<Rightarrow> string list \<Rightarrow> quote_registry \<Rightarrow> patch_args \<Rightarrow> string \<Rightarrow> registry \<Rightarrow> disk \<Rightarrow> disk \<Rightarrow> bool" where
  "repaired_in h fs roots quotes args name r d d' \<longleftrightarrow>
     (\<exists>old doc rp. store_item d name = Some (StoreFile old) \<and> decode_document (rh_decode h) old = Inr doc \<and>
        good_repair (repair_env_of h quotes) (repair_authorized h fs roots) r args doc rp \<and>
        new_file name (encode_document (rh_indent h) doc rp) d d')"

text \<open>An authorized file of that name, with one change.\<close>

definition allowed_repair ::
  "'fs repair_host \<Rightarrow> 'fs \<Rightarrow> string list \<Rightarrow> quote_registry option \<Rightarrow> error + patch_args \<Rightarrow> registry option \<Rightarrow> disk \<Rightarrow> disk \<Rightarrow> bool" where
  "allowed_repair h fs roots quotes decoded reg d d' \<longleftrightarrow>
     (\<exists>args r q rec. decoded = Inr args \<and> reg = Some r \<and> quotes = Some q \<and>
        pa_artifact args \<in> set roots \<and> record_of r (pa_artifact args) = Inr rec \<and> rec_type rec \<noteq> ArtDirectory \<and>
        rh_lower h (base_name (rec_path rec)) = ''knowledge.json'' \<and> (pa_patch args = None) \<noteq> blank (pa_remove args) \<and>
        repaired_in h fs roots q args (base_name (rec_path rec)) r d d')"

lemma triple3_return: "(\<And>d. P d \<Longrightarrow> Q x d) \<Longrightarrow> triple3 P (io_return x) Q F R"
  by (simp add: triple3_def io_return_def)

lemma triple3_attempt:
  "triple3 P p Q F R \<Longrightarrow> triple3 P (attempt p) (\<lambda>res d. case res of Inl e \<Rightarrow> F d | Inr x \<Rightarrow> Q x d) F' R"
  by (auto simp: triple3_def attempt_def split: prod.splits outcome.splits)

lemma triple3_conseq:
  assumes "triple3 P p Q F R" "\<And>d. P' d \<Longrightarrow> P d" "\<And>x d. Q x d \<Longrightarrow> Q' x d" "\<And>d. F d \<Longrightarrow> F' d" "\<And>d. R d \<Longrightarrow> R' d"
  shows "triple3 P' p Q' F' R'"
  using assms by (fastforce simp: triple3_def split: prod.splits outcome.splits)

lemma triple3_read:
  assumes "\<And>x d. P d \<Longrightarrow> f d = Inr x \<Longrightarrow> Q x d" and "\<And>d. P d \<Longrightarrow> F d" and "\<And>d. P d \<Longrightarrow> R d"
  shows "triple3 P (io_ask f) Q F R"
  unfolding io_ask_def by (rule triple3_sys) (use assms in \<open>auto split: sum.splits\<close>)

lemma read_store_file_Inr: "read_store_file name d = Inr c \<longleftrightarrow> store_item d name = Some (StoreFile c)"
  by (simp add: read_store_file_def split: option.split store_item.split)

text \<open>A reply is honest: accepted if the file is repaired, refused if nothing has changed.\<close>

definition honest :: "(disk \<Rightarrow> bool) \<Rightarrow> (disk \<Rightarrow> bool) \<Rightarrow> 'a tool_response \<times> 'b \<Rightarrow> disk \<Rightarrow> bool" where
  "honest repaired kept res d \<longleftrightarrow> (if resp_accepted (fst res) then repaired d else kept d)"

lemma honest_simps [simp]:
  "honest repaired kept (rejected_tool_result code msg, b) d = kept d" "honest repaired kept (accept x, b) d = repaired d"
  by (simp_all add: honest_def rejected_tool_result_def reject_issues_def accept_def)

lemma store_repaired_triple:
  assumes "temp_ok (rh_temp h)" "store_item d0 name = Some (StoreFile old)"
    and fin: "\<And>d. new_file name (encode_document (rh_indent h) doc rp) d0 d \<Longrightarrow> repaired d"
  shows "triple3 (\<lambda>d. d = d0) (store_repaired h args name doc rp r) (honest repaired (all_kept d0)) (\<lambda>_. False)
     (\<lambda>d. all_kept d0 d \<or> repaired d)"
  unfolding store_repaired_def Let_def
proof (rule triple3_then)
  let ?new = "new_file name (encode_document (rh_indent h) doc rp) d0"
  show "triple3 (\<lambda>d. d = d0) (attempt (atomic_replace (rh_temp h) name (encode_document (rh_indent h) doc rp)))
      (\<lambda>res d. case res of Inl e \<Rightarrow> kept_file name d0 d | Inr x \<Rightarrow> ?new d) (\<lambda>_. False) (\<lambda>d. all_kept d0 d \<or> repaired d)"
    by (rule triple3_attempt, rule triple3_conseq [OF atomic_replace_triple [OF assms(1,2)]]) (auto intro: kept_all fin)
qed (rule triple3_return, auto intro: kept_all fin split: sum.splits)

lemma repair_document_triple:
  assumes "orders_ok (rh_orders h)" "temp_ok (rh_temp h)" "store_item d0 name = Some (StoreFile old)"
  shows "triple3 (\<lambda>d. d = d0) (repair_document h fs roots q args name r old)
     (honest (repaired_in h fs roots q args name r d0) (all_kept d0)) (\<lambda>_. False)
     (\<lambda>d. all_kept d0 d \<or> repaired_in h fs roots q args name r d0 d)"
proof (cases "decode_document (rh_decode h) old")
  case (Inl e)
  then show ?thesis by (auto simp: repair_document_def intro!: triple3_return)
next
  case (Inr doc)
  obtain res r1 where run: "apply_repair (repair_env_of h q) (repair_authorized h fs roots) (snd (kd_items doc)) (snd (kd_quotes doc)) args r = (res, r1)"
    by force
  show ?thesis
  proof (cases res)
    case (Inl e)
    with Inr run show ?thesis by (auto simp: repair_document_def intro!: triple3_return)
  next
    case (Inr rp)
    have orders: "orders_ok (re_orders (repair_env_of h q))" using assms(1) by (simp add: repair_env_of_def)
    have "good_repair (repair_env_of h q) (repair_authorized h fs roots) r args doc rp"
      using apply_repair_Inr [OF orders run [unfolded Inr]] by (simp add: good_repair_def)
    then have "triple3 (\<lambda>d. d = d0) (store_repaired h args name doc rp r1)
       (honest (repaired_in h fs roots q args name r d0) (all_kept d0)) (\<lambda>_. False)
       (\<lambda>d. all_kept d0 d \<or> repaired_in h fs roots q args name r d0 d)"
      using assms(3) \<open>decode_document (rh_decode h) old = Inr doc\<close>
      by (intro store_repaired_triple [where old = old, OF assms(2,3)]) (auto simp: repaired_in_def)
    with Inr run \<open>decode_document (rh_decode h) old = Inr doc\<close> show ?thesis by (simp add: repair_document_def)
  qed
qed

lemma repair_file_triple:
  assumes "orders_ok (rh_orders h)" "temp_ok (rh_temp h)"
  shows "triple3 (\<lambda>d. d = d0) (repair_file h fs roots q args name r)
     (honest (repaired_in h fs roots q args name r d0) (all_kept d0)) (\<lambda>_. False)
     (\<lambda>d. all_kept d0 d \<or> repaired_in h fs roots q args name r d0 d)"
  unfolding repair_file_def
proof (rule triple3_then)
  let ?R = "\<lambda>d. all_kept d0 d \<or> repaired_in h fs roots q args name r d0 d"
  show "triple3 (\<lambda>d. d = d0) (attempt (io_ask (read_store_file name)))
      (\<lambda>res d. case res of Inl e \<Rightarrow> d = d0 | Inr c \<Rightarrow> d = d0 \<and> store_item d0 name = Some (StoreFile c)) (\<lambda>_. False) ?R"
    by (rule triple3_attempt, rule triple3_read) (auto simp: read_store_file_Inr)
  fix payload :: "error + string"
  show "triple3 (\<lambda>d. case payload of Inl e \<Rightarrow> d = d0 | Inr c \<Rightarrow> d = d0 \<and> store_item d0 name = Some (StoreFile c))
      (case payload of
         Inl e \<Rightarrow> io_return (rejected_tool_result ''knowledge_patch_failed'' e, r)
       | Inr old \<Rightarrow> repair_document h fs roots q args name r old)
      (honest (repaired_in h fs roots q args name r d0) (all_kept d0)) (\<lambda>_. False) ?R"
  proof (cases payload)
    case (Inl e)
    then show ?thesis by (auto intro!: triple3_return)
  next
    case (Inr old)
    have "triple3 (\<lambda>d. d = d0 \<and> store_item d0 name = Some (StoreFile old)) (repair_document h fs roots q args name r old)
        (honest (repaired_in h fs roots q args name r d0) (all_kept d0)) (\<lambda>_. False) ?R"
    proof (cases "store_item d0 name = Some (StoreFile old)")
      case True
      show ?thesis by (rule triple3_conseq [OF repair_document_triple [OF assms True]]) auto
    qed (simp add: triple3_def)
    with Inr show ?thesis by simp
  qed
qed

section \<open>Properties\<close>

text \<open>
  C1: the repair tool of a final review replaces the whole file or nothing. The call does not fail. If it is accepted, the file of
  the authorized \<^verbatim>\<open>knowledge.json\<close> holds a good repair of what it held: every item cites quotes that are there, every
  quote is cited, only the item asked for differs, in the fields a repair is about, and a new quote comes from the registry, is
  submit-ready and authorized. If it is refused, no file has changed, and if the process dies in it, one or the other holds.
\<close>

theorem knowledge_repair_is_safe:
  assumes "orders_ok (rh_orders h)" "temp_ok (rh_temp h)"
    and "qc_patch_knowledge h fs roots quotes decoded reg m = (out, m')"
  shows "case out of
      Returned (res, reg') \<Rightarrow>
        (if resp_accepted res then allowed_repair h fs roots quotes decoded reg (mc_disk m) (mc_disk m')
         else all_kept (mc_disk m) (mc_disk m'))
    | Failed e \<Rightarrow> False
    | Crashed \<Rightarrow> all_kept (mc_disk m) (mc_disk m') \<or> allowed_repair h fs roots quotes decoded reg (mc_disk m) (mc_disk m')"
proof -
  let ?d0 = "mc_disk m"
  let ?ok = "allowed_repair h fs roots quotes decoded reg ?d0"
  have "triple3 (\<lambda>d. d = ?d0) (qc_patch_knowledge h fs roots quotes decoded reg) (honest ?ok (all_kept ?d0)) (\<lambda>_. False)
      (\<lambda>d. all_kept ?d0 d \<or> ?ok d)"
  proof (cases "\<exists>args r q rec. decoded = Inr args \<and> reg = Some r \<and> quotes = Some q \<and> pa_artifact args \<in> set roots \<and>
      record_of r (pa_artifact args) = Inr rec \<and> rec_type rec \<noteq> ArtDirectory \<and>
      rh_lower h (base_name (rec_path rec)) = ''knowledge.json'' \<and> (pa_patch args = None) \<noteq> blank (pa_remove args)")
    case False
    then show ?thesis
      by (auto simp: qc_patch_knowledge_def intro!: triple3_return split: sum.splits option.splits)
  next
    case True
    then obtain args r q rec where checks: "decoded = Inr args" "reg = Some r" "quotes = Some q" "pa_artifact args \<in> set roots"
        "record_of r (pa_artifact args) = Inr rec" "rec_type rec \<noteq> ArtDirectory"
        "rh_lower h (base_name (rec_path rec)) = ''knowledge.json''" "(pa_patch args = None) \<noteq> blank (pa_remove args)"
      by blast
    let ?name = "base_name (rec_path rec)"
    have ok: "repaired_in h fs roots q args ?name r ?d0 d \<Longrightarrow> ?ok d" for d
      using checks by (auto simp: allowed_repair_def)
    have "triple3 (\<lambda>d. d = ?d0) (and_then (repair_file h fs roots q args ?name r) (\<lambda>(res, r1). io_return (res, Some r1)))
        (honest ?ok (all_kept ?d0)) (\<lambda>_. False) (\<lambda>d. all_kept ?d0 d \<or> ?ok d)"
    proof (rule triple3_then)
      show "triple3 (\<lambda>d. d = ?d0) (repair_file h fs roots q args ?name r) (honest ?ok (all_kept ?d0)) (\<lambda>_. False)
          (\<lambda>d. all_kept ?d0 d \<or> ?ok d)"
        by (rule triple3_conseq [OF repair_file_triple [OF assms(1,2)]]) (auto simp: honest_def ok split: if_splits)
    qed (auto simp: honest_def split: prod.splits intro!: triple3_return)
    with checks show ?thesis by (simp add: qc_patch_knowledge_def)
  qed
  then show ?thesis using assms(3) by (auto simp: triple3_def honest_def split: outcome.splits prod.splits)
qed

text \<open>The repair of the second of two items: its claim, and a citation of a registered quote.\<close>

definition sample_quote :: quote where
  "sample_quote =
     \<lparr>qu_ref = ''q2'', qu_submit_ready = True, qu_artifact = ''artifact-1'', qu_digest = ''d'', qu_title = [], qu_url = [], qu_locator = [],
      qu_exact = ''two words'', qu_start_line = 1, qu_end_line = 1, qu_start = 0, qu_end = 9\<rparr>"

definition sample_document :: json where
  "sample_document =
     (let item = (\<lambda>i. J_Object [(''id'', J_String i), (''claim'', J_String ''it is''), (''confidence'', J_String ''high''),
                           (''quote_ids'', J_Array [J_String ''q-1''])])
      in J_Object [(''title'', J_String ''t''), (''knowledge'', J_Array [item ''k1'', item ''k2'']),
                   (''quotes'', J_Array [J_Object [(''id'', J_String ''q-1''), (''quote_ref'', J_String ''q1'')]])])"

definition sample_repair_host :: "mem_fs repair_host" where
  "sample_repair_host =
     \<lparr>rh_os = mem_os, rh_reader = mem_reader, rh_uuid = id, rh_lower = (\<lambda>s. if s = ''out.md'' then ''knowledge.json'' else s),
      rh_sum256 = rev, rh_orders = \<lparr>mo_quotes = id, mo_ids = id\<rparr>,
      rh_decode = (\<lambda>s. if s = ''old'' then Some sample_document else None),
      rh_indent = (\<lambda>j. case j of J_Object kvs \<Rightarrow> concat (map fst kvs) | _ \<Rightarrow> []), rh_temp = sample_temp\<rparr>"

definition sample_patch :: patch_args where
  "sample_patch =
     \<lparr>pa_artifact = ''artifact-1'',
      pa_patch = Some \<lparr>nk_id = ''k2'', nk_claim = Some ''it was '', nk_confidence = None, nk_citations = Some [''q2'']\<rparr>, pa_remove = []\<rparr>"

definition sample_repair :: "nat \<Rightarrow> (repair_reply tool_response \<times> registry option) outcome \<times> machine" where
  "sample_repair n = qc_patch_knowledge sample_repair_host searched_notes [''artifact-1'']
     (Some \<lparr>qr_by_ref = [(''q2'', sample_quote)], qr_by_range = Map.empty\<rparr>) (Inr sample_patch) (Some sample_registry)
     \<lparr>mc_disk = \<lparr>dk_store = Some [(''out.md'', StoreFile ''old'')], dk_places = Map.empty, dk_umask = 0\<rparr>, mc_left = n, mc_faults = (\<lambda>_. None)\<rparr>"

lemma sample_repair_runs:
  "(case sample_repair 20 of
      (Returned (res, _), m') \<Rightarrow> resp_accepted res \<and> map_option rr_changed (resp_output res) = Some [''k2''] \<and>
        dk_store (mc_disk m') = Some [(''out.md'', StoreFile ''knowledgequotestitle\<newline>'')]
    | _ \<Rightarrow> False)"
  "(case sample_repair 5 of
      (Crashed, m') \<Rightarrow> map_option (map fst) (dk_store (mc_disk m')) = Some [''out.md'', ''.r42-qc-patch-out.mdx'']
    | _ \<Rightarrow> False)"
  by code_simp+

theorem knowledge_repair_is_safe_witness:
  "\<exists>res reg' m' old doc rp. sample_repair 20 = (Returned (res, reg'), m') \<and> resp_accepted res \<and>
     store_item (mc_disk m') ''out.md'' = Some (StoreFile (encode_document (rh_indent sample_repair_host) doc rp)) \<and>
     well_cited (rp_items rp) (rp_quotes rp) \<and> decode_document (rh_decode sample_repair_host) old = Inr doc"
proof -
  have ok: "orders_ok (rh_orders sample_repair_host)" "temp_ok (rh_temp sample_repair_host)"
    using sample_temp_ok by (simp_all add: orders_ok_def sample_repair_host_def)
  obtain res reg' m' where run: "sample_repair 20 = (Returned (res, reg'), m')" "resp_accepted res"
    using sample_repair_runs(1) by (auto split: prod.splits outcome.splits)
  have name: "base_name (rec_path rec) = ''out.md''" if "record_of sample_registry ''artifact-1'' = Inr rec" for rec
  proof -
    from that sample_entry(1) have "rec_path rec = ''/w/out.md''" by (auto simp: record_of_def split: option.splits)
    then show ?thesis by (simp add: base_name_def)
  qed
  from knowledge_repair_is_safe [OF ok run(1) [unfolded sample_repair_def]] run(2) show ?thesis
    using run name by (auto simp: allowed_repair_def repaired_in_def good_repair_def new_file_def sample_patch_def) blast
qed

end
