(* ===== verification/Plan_Graph.thy ===== *)
theory Plan_Graph
  imports R42_Runes R42_Paths
begin

text \<open>
  The plan of \<^verbatim>\<open>internal/plan/model.go\<close>: blocks with their dependencies, plans of modules nested in
  them, and what is checked before a plan is built. The check for cycles is the depth-first search of
  the code, with its three states and its stack.

  A Go map that is only looped over is an association list in the order of that loop, which Go leaves
  open. The functions \<^verbatim>\<open>clone...\<close> of the file copy values, which is no operation here.
  A value of the library cty is of the type parameter \<^typ>\<open>'v\<close>.
\<close>

section \<open>Plans\<close>

record origin =
  or_filename :: string
  or_start_line :: int
  or_start_column :: int
  or_end_line :: int
  or_end_column :: int
  or_source :: string

datatype 'v output_spec = Output_Spec (os_value: 'v) (os_description: string) (os_expression: string)

record plan_condition =
  pc_expression :: string
  pc_error_message :: string

record starlark_spec =
  sk_max_steps :: int
  sk_timeout_nanos :: int
  sk_max_source_bytes :: int
  sk_max_data_bytes :: int
  sk_max_result_bytes :: int
  sk_max_stdout_bytes :: int
  sk_memory_limit :: int

record tool_spec =
  tl_id :: string
  tl_address :: string
  tl_kind :: string
  tl_description :: string
  tl_source :: string
  tl_dependencies :: "string list"
  tl_program :: "string list"
  tl_working_dir :: string
  tl_input_type :: string
  tl_output_type :: string
  tl_postconditions :: "plan_condition list"
  tl_starlark :: "starlark_spec option"
  tl_origin :: origin

datatype 'v node_spec = Node_Spec
  (ns_address: string)
  (ns_kind: string)
  (ns_dependencies: "string list")
  (ns_config: 'v)
  (ns_module: "'v module_spec option")
  (ns_origin: origin)
and 'v module_spec = Module_Spec
  (ms_plan: "'v plan option")
  (ms_parallelism: int)
  (ms_timeout: int)
and 'v plan = Plan
  (pl_directory: string)
  (pl_run_directory: string)
  (pl_nodes: "'v node_spec list")
  (pl_outputs: "(string \<times> 'v output_spec) list")
  (pl_context: "(string \<times> 'v) list")
  (pl_locals: "(string \<times> string) list")
  (pl_tools: "(string \<times> tool_spec) list")

section \<open>Identifiers of tools\<close>

definition hex_chars :: string where
  "hex_chars = ''0123456789abcdef''"

text \<open>\<^verbatim>\<open>[0-9a-f]{8}-[0-9a-f]{4}-[0-9a-f]{4}-[0-9a-f]{4}-[0-9a-f]{12}\<close>\<close>

definition uuid_text :: "string \<Rightarrow> bool" where
  "uuid_text s \<longleftrightarrow>
     length s = 36 \<and>
     list_all (\<lambda>(i, c). if i \<in> {8, 13, 18, 23} then c = CHR ''-'' else c \<in> set hex_chars) (zip [0..<36] s)"

text \<open>
  The pattern is anchored at both ends, and a dot matches every character but a line feed, so the
  match is decided by the bytes before the last 37.
\<close>

definition tagged_uuid :: "string \<Rightarrow> string \<Rightarrow> bool" where
  "tagged_uuid tag s \<longleftrightarrow>
     (let n = length s - 37 in
      prefix tag s \<and> length tag + 37 < length s \<and> CHR 0x0A \<notin> set (drop (length tag) (take n s)) \<and>
      s ! n = CHR ''_'' \<and> uuid_text (drop (Suc n) s))"

definition is_tool_id :: "string \<Rightarrow> bool" where
  "is_tool_id = tagged_uuid ''tool_''"

definition is_mcp_tool_id :: "string \<Rightarrow> bool" where
  "is_mcp_tool_id = tagged_uuid ''mcp_tool_''"

definition is_mcp_resource_id :: "string \<Rightarrow> bool" where
  "is_mcp_resource_id = tagged_uuid ''mcp_resource_''"

section \<open>What is checked\<close>

definition check_tool :: "string \<times> tool_spec \<Rightarrow> error option" where
  "check_tool p =
     (let i = fst p; t = snd p in
      if i = [] \<or> tl_id t = [] then Some (Text ''tool id is required'')
      else if i \<noteq> tl_id t then Some (Text ''tool registry key must match tool id'')
      else if \<not> is_tool_id i then Some (Format ''tool id %q is invalid'' [StrArg i])
      else if tl_address t = [] then Some (Format ''tool %s address is required'' [StrArg i])
      else if tl_kind t = [] then Some (Format ''tool %s kind is required'' [StrArg i])
      else None)"

fun validate_tools :: "(string \<times> tool_spec) list \<Rightarrow> error option" where
  "validate_tools [] = None"
| "validate_tools (p # ps) =
     (case check_tool p of Some e \<Rightarrow> Some e | None \<Rightarrow> validate_tools ps)"

text \<open>The first loop of \<^verbatim>\<open>validateNodes\<close>, with the addresses seen.\<close>

definition without_child :: "'v node_spec \<Rightarrow> bool" where
  "without_child n \<longleftrightarrow> (case ns_module n of None \<Rightarrow> True | Some m \<Rightarrow> ms_plan m = None)"

fun declare_nodes :: "string set \<Rightarrow> 'v node_spec list \<Rightarrow> error + string set" where
  "declare_nodes seen [] = Inr seen"
| "declare_nodes seen (n # ns) =
     (if ns_address n \<in> seen then Inl (Format ''node %q is declared more than once'' [StrArg (ns_address n)])
      else if ns_kind n = ''module'' \<and> without_child n
      then Inl (Format ''module node %q must contain a child plan'' [StrArg (ns_address n)])
      else declare_nodes (insert (ns_address n) seen) ns)"

definition unknown_dependency :: "string set \<Rightarrow> 'v node_spec \<Rightarrow> error option" where
  "unknown_dependency known n =
     (case find (\<lambda>d. d \<notin> known) (ns_dependencies n) of
        None \<Rightarrow> None
      | Some d \<Rightarrow> Some (Format ''node %q depends on unknown node %q'' [StrArg (ns_address n), StrArg d]))"

fun check_dependencies :: "string set \<Rightarrow> 'v node_spec list \<Rightarrow> error option" where
  "check_dependencies known [] = None"
| "check_dependencies known (n # ns) =
     (case unknown_dependency known n of Some e \<Rightarrow> Some e | None \<Rightarrow> check_dependencies known ns)"

text \<open>
  \<^verbatim>\<open>dependencies[address]\<close>: the list of the last node of that address, none if there is no such node.
\<close>

definition dependencies_of :: "'v node_spec list \<Rightarrow> string \<Rightarrow> string list" where
  "dependencies_of ns a =
     (case index_by ns_address ns a of None \<Rightarrow> [] | Some n \<Rightarrow> ns_dependencies n)"

text \<open>
  The closure's variables: 0, 1 or 2 for each address that was not visited, is being visited, was visited;
  and the stack of those being visited.
\<close>

record visit_state =
  vs_state :: "string \<Rightarrow> int"
  vs_stack :: "string list"

definition cycle_error :: "string list \<Rightarrow> string \<Rightarrow> error" where
  "cycle_error stack a =
     Format ''plan dependency cycle: %v -> %s'' [TextArg (Format ''%v'' (map StrArg stack)), StrArg a]"

definition enter_node :: "string \<Rightarrow> visit_state \<Rightarrow> visit_state" where
  "enter_node a s = s\<lparr>vs_state := (vs_state s)(a := 1), vs_stack := vs_stack s @ [a]\<rparr>"

definition leave_node :: "string \<Rightarrow> visit_state \<Rightarrow> visit_state" where
  "leave_node a s = s\<lparr>vs_state := (vs_state s)(a := 2), vs_stack := butlast (vs_stack s)\<rparr>"

text \<open>A visit ends: it enters an address at most once, and an address without a node leads nowhere.\<close>

definition unvisited :: "visit_state \<Rightarrow> string set" where
  "unvisited s = {a. vs_state s a \<noteq> 1 \<and> vs_state s a \<noteq> 2}"

definition addresses_of :: "'v node_spec list \<Rightarrow> string set" where
  "addresses_of ns = ns_address ` set ns"

lemma finite_addresses [simp]: "finite (addresses_of ns)"
  by (simp add: addresses_of_def)

lemma unvisited_enter [simp]: "unvisited (enter_node a s) = unvisited s - {a}"
  by (auto simp: unvisited_def enter_node_def)

lemma unvisited_leave [simp]: "unvisited (leave_node a s) = unvisited s - {a}"
  by (auto simp: unvisited_def leave_node_def)

lemma no_dependencies: "a \<notin> addresses_of ns \<Longrightarrow> dependencies_of ns a = []"
  by (simp add: dependencies_of_def addresses_of_def index_by_None [THEN iffD2])

definition visits_left :: "'v node_spec list \<Rightarrow> visit_state \<Rightarrow> nat" where
  "visits_left ns s = card (addresses_of ns \<inter> unvisited s)"

lemma visits_left_mono: "unvisited t \<subseteq> unvisited s \<Longrightarrow> visits_left ns t \<le> visits_left ns s"
  unfolding visits_left_def by (rule card_mono) auto

lemma visits_left_enter:
  assumes "a \<in> unvisited s" "a \<in> addresses_of ns"
  shows "visits_left ns (enter_node a s) < visits_left ns s"
  unfolding visits_left_def by (rule psubset_card_mono) (use assms in auto)

definition visit_left_arg :: "'v node_spec list \<times> string \<times> visit_state + 'v node_spec list \<times> string list \<times> visit_state \<Rightarrow> nat" where
  "visit_left_arg = case_sum (\<lambda>(ns, a, s). visits_left ns s) (\<lambda>(ns, as, s). visits_left ns s)"

definition visit_size_arg :: "'v node_spec list \<times> string \<times> visit_state + 'v node_spec list \<times> string list \<times> visit_state \<Rightarrow> nat" where
  "visit_size_arg = case_sum (\<lambda>(ns, a, s). 1) (\<lambda>(ns, as, s). 2 * length as)"

function visit :: "'v node_spec list \<Rightarrow> string \<Rightarrow> visit_state \<Rightarrow> error + visit_state"
  and visit_each :: "'v node_spec list \<Rightarrow> string list \<Rightarrow> visit_state \<Rightarrow> error + visit_state" where
  "visit ns a s =
     (if vs_state s a = 1 then Inl (cycle_error (vs_stack s) a)
      else if vs_state s a = 2 then Inr s
      else case visit_each ns (dependencies_of ns a) (enter_node a s) of
             Inl e \<Rightarrow> Inl e
           | Inr s' \<Rightarrow> Inr (leave_node a s'))"
| "visit_each ns [] s = Inr s"
| "visit_each ns (a # as) s =
     (case visit ns a s of Inl e \<Rightarrow> Inl e | Inr s' \<Rightarrow> visit_each ns as s')"
  by pat_completeness auto

termination
proof -
  have shrinks: "visit_visit_each_dom (Inl (ns, a, s)) \<Longrightarrow> visit ns a s = Inr t \<Longrightarrow> unvisited t \<subseteq> unvisited s"
    "visit_visit_each_dom (Inr (ns, as, s)) \<Longrightarrow> visit_each ns as s = Inr t \<Longrightarrow> unvisited t \<subseteq> unvisited s"
    for ns :: "'v node_spec list" and a as s t
  proof (induction ns a s and ns as s arbitrary: t and t rule: visit_visit_each.pinduct)
    case (1 ns a s)
    show ?case
    proof (cases "vs_state s a = 1 \<or> vs_state s a = 2")
      case True
      with 1 show ?thesis by (auto simp: visit.psimps split: if_splits)
    next
      case False
      with 1 obtain s' where s': "visit_each ns (dependencies_of ns a) (enter_node a s) = Inr s'" "t = leave_node a s'"
        by (auto simp: visit.psimps split: sum.splits)
      then have "unvisited s' \<subseteq> unvisited (enter_node a s)" using 1 False by blast
      then show ?thesis using s' by auto
    qed
  next
    case (2 ns s)
    then show ?case by (auto simp: visit_each.psimps)
  next
    case (3 ns a as s)
    then obtain s' where s': "visit ns a s = Inr s'" "visit_each ns as s' = Inr t"
      by (auto simp: visit_each.psimps split: sum.splits)
    then have "unvisited s' \<subseteq> unvisited s" "unvisited t \<subseteq> unvisited s'" using 3 by blast+
    then show ?case by blast
  qed
  show "All (visit_visit_each_dom :: 'v node_spec list \<times> string \<times> visit_state + 'v node_spec list \<times> string list \<times> visit_state \<Rightarrow> bool)"
  proof (relation "measures [visit_left_arg, visit_size_arg]", goal_cases)
    case (2 ns a s)
    then have white: "a \<in> unvisited s" by (simp add: unvisited_def)
    show ?case
    proof (cases "a \<in> addresses_of ns")
      case True
      then show ?thesis using visits_left_enter [OF white True] by (simp add: visit_left_arg_def)
    next
      case False
      moreover have "visits_left ns (enter_node a s) \<le> visits_left ns s" by (rule visits_left_mono) auto
      ultimately show ?thesis by (auto simp: visit_left_arg_def visit_size_arg_def no_dependencies)
    qed
  next
    case (4 ns a as s s')
    then have "visits_left ns s' \<le> visits_left ns s" using shrinks(1) visits_left_mono by metis
    then show ?case by (auto simp: visit_left_arg_def visit_size_arg_def)
  qed (auto simp: visit_left_arg_def visit_size_arg_def)
qed

declare visit.simps [simp del]

definition new_visits :: visit_state where
  "new_visits = \<lparr>vs_state = \<lambda>_. 0, vs_stack = []\<rparr>"

definition validate_acyclic :: "'v node_spec list \<Rightarrow> error option" where
  "validate_acyclic ns =
     (case visit_each ns (map ns_address ns) new_visits of Inl e \<Rightarrow> Some e | Inr _ \<Rightarrow> None)"

definition validate_nodes :: "'v node_spec list \<Rightarrow> error option" where
  "validate_nodes ns =
     (case declare_nodes {} ns of
        Inl e \<Rightarrow> Some e
      | Inr known \<Rightarrow>
          (case check_dependencies known ns of Some e \<Rightarrow> Some e | None \<Rightarrow> validate_acyclic ns))"

section \<open>Building a plan\<close>

definition new_plan :: "'v plan \<Rightarrow> error + 'v plan" where
  "new_plan p =
     (case validate_nodes (pl_nodes p) of
        Some e \<Rightarrow> Inl e
      | None \<Rightarrow> (case validate_tools (pl_tools p) of Some e \<Rightarrow> Inl e | None \<Rightarrow> Inr p))"

definition new_for_run_with_tools :: "'v plan \<Rightarrow> error + 'v plan" where
  "new_for_run_with_tools p =
     (if pl_run_directory p \<noteq> [] \<and> \<not> is_abs (pl_run_directory p)
      then Inl (Text ''run directory must be absolute'')
      else new_plan p)"

text \<open>The two other constructors leave out the tools, or the run directory as well.\<close>

definition new_for_run :: "'v plan \<Rightarrow> error + 'v plan" where
  "new_for_run p =
     new_for_run_with_tools
       (Plan (pl_directory p) (pl_run_directory p) (pl_nodes p) (pl_outputs p) (pl_context p) (pl_locals p) [])"

definition new_with_context :: "'v plan \<Rightarrow> error + 'v plan" where
  "new_with_context p =
     new_plan (Plan (pl_directory p) [] (pl_nodes p) (pl_outputs p) (pl_context p) (pl_locals p) [])"

section \<open>What a visit does\<close>

definition depends :: "'v node_spec list \<Rightarrow> string \<Rightarrow> string \<Rightarrow> bool" where
  "depends ns a b \<longleftrightarrow> b \<in> set (dependencies_of ns a)"

text \<open>What was visited is closed under dependencies and has no cycle.\<close>

definition visited_edges :: "'v node_spec list \<Rightarrow> visit_state \<Rightarrow> (string \<times> string) set" where
  "visited_edges ns s = {(a, b). vs_state s a = 2 \<and> depends ns a b}"

definition visits_sound :: "'v node_spec list \<Rightarrow> visit_state \<Rightarrow> bool" where
  "visits_sound ns s \<longleftrightarrow>
     (\<forall>(a, b) \<in> visited_edges ns s. vs_state s b = 2) \<and> acyclic (visited_edges ns s)"

text \<open>A visit that returns leaves the stack and the addresses being visited as they were.\<close>

definition visit_kept :: "visit_state \<Rightarrow> visit_state \<Rightarrow> bool" where
  "visit_kept s t \<longleftrightarrow>
     vs_stack t = vs_stack s \<and> (\<forall>x. vs_state t x = 1 \<longleftrightarrow> vs_state s x = 1) \<and>
     (\<forall>x. vs_state s x = 2 \<longrightarrow> vs_state t x = 2)"

lemma visit_kept_refl [simp]: "visit_kept s s"
  by (simp add: visit_kept_def)

lemma visit_kept_trans: "visit_kept s t \<Longrightarrow> visit_kept t u \<Longrightarrow> visit_kept s u"
  by (simp add: visit_kept_def)

lemma visit_kept_around:
  assumes "visit_kept (enter_node a s) t" "vs_state s a \<noteq> 1" "vs_state s a \<noteq> 2"
  shows "visit_kept s (leave_node a t)" and "vs_state t a = 1"
  using assms by (auto simp: visit_kept_def enter_node_def leave_node_def split: if_splits)

lemma acyclic_new_source:
  assumes "acyclic R" "a \<notin> Range R" "a \<notin> D"
  shows "acyclic (R \<union> {a} \<times> D)"
proof -
  have "y \<noteq> a \<and> (x = a \<or> (x, y) \<in> R\<^sup>+)" if "(x, y) \<in> (R \<union> {a} \<times> D)\<^sup>+" for x y
    using that
  proof induction
    case (base y)
    then show ?case using assms by auto
  next
    case (step y z)
    then have "(y, z) \<in> R" by auto
    with step assms show ?case by (auto intro: trancl_into_trancl)
  qed
  then show ?thesis using assms(1) by (auto simp: acyclic_def)
qed

lemma visits_sound_enter: "vs_state s a \<noteq> 2 \<Longrightarrow> visits_sound ns s \<Longrightarrow> visits_sound ns (enter_node a s)"
proof -
  assume "vs_state s a \<noteq> 2"
  then have "visited_edges ns (enter_node a s) = visited_edges ns s"
    by (auto simp: visited_edges_def enter_node_def split: if_splits)
  then show "visits_sound ns s \<Longrightarrow> visits_sound ns (enter_node a s)"
    using \<open>vs_state s a \<noteq> 2\<close> by (auto simp: visits_sound_def enter_node_def visited_edges_def split: if_splits)
qed

lemma visits_sound_leave:
  assumes "visits_sound ns s" "vs_state s a = 1" "\<And>d. depends ns a d \<Longrightarrow> vs_state s d = 2"
  shows "visits_sound ns (leave_node a s)"
proof -
  define D where "D = {d. depends ns a d}"
  have edges: "visited_edges ns (leave_node a s) = visited_edges ns s \<union> {a} \<times> D"
    by (auto simp: visited_edges_def leave_node_def D_def split: if_splits)
  from assms(1) have closed: "\<And>x y. (x, y) \<in> visited_edges ns s \<Longrightarrow> vs_state s y = 2"
    by (auto simp: visits_sound_def)
  then have "a \<notin> Range (visited_edges ns s)" using assms(2) by force
  moreover have "a \<notin> D" using assms(2,3) by (auto simp: D_def)
  ultimately have "acyclic (visited_edges ns (leave_node a s))"
    unfolding edges using assms(1) by (intro acyclic_new_source) (simp_all add: visits_sound_def)
  moreover have "vs_state (leave_node a s) y = 2" if "(x, y) \<in> visited_edges ns (leave_node a s)" for x y
    using that closed assms(3) unfolding edges by (auto simp: leave_node_def D_def)
  ultimately show ?thesis by (auto simp: visits_sound_def)
qed

lemma visit_returns:
  "visit ns a s = Inr t \<Longrightarrow> visit_kept s t \<and> vs_state t a = 2 \<and> (visits_sound ns s \<longrightarrow> visits_sound ns t)"
  "visit_each ns as s = Inr t \<Longrightarrow>
     visit_kept s t \<and> (\<forall>a \<in> set as. vs_state t a = 2) \<and> (visits_sound ns s \<longrightarrow> visits_sound ns t)"
proof (induction ns a s and ns as s arbitrary: t and t rule: visit_visit_each.induct)
  case (1 ns a s)
  show ?case
  proof (cases "vs_state s a = 1 \<or> vs_state s a = 2")
    case True
    with 1(2) show ?thesis by (auto simp: visit.simps split: if_splits)
  next
    case False
    with 1(2) obtain s' where s': "visit_each ns (dependencies_of ns a) (enter_node a s) = Inr s'" "t = leave_node a s'"
      by (auto simp: visit.simps split: sum.splits)
    from 1(1) [OF _ _ s'(1)] False have IH: "visit_kept (enter_node a s) s'"
        "\<forall>d \<in> set (dependencies_of ns a). vs_state s' d = 2"
        "visits_sound ns (enter_node a s) \<longrightarrow> visits_sound ns s'" by auto
    note around = visit_kept_around [OF IH(1)]
    have "visits_sound ns t" if "visits_sound ns s"
      unfolding s'(2) using that IH around(2) False visits_sound_enter
      by (intro visits_sound_leave) (auto simp: depends_def)
    then show ?thesis using around False by (simp add: s'(2)) (simp add: leave_node_def)
  qed
next
  case (3 ns a as s)
  then obtain s' where s': "visit ns a s = Inr s'" "visit_each ns as s' = Inr t"
    by (auto split: sum.splits)
  from 3(1) [OF s'(1)] 3(2) [OF s'] show ?case
    by (auto intro: visit_kept_trans) (auto simp: visit_kept_def)
qed auto

text \<open>The stack is a chain of dependencies, so an address met on it closes a cycle.\<close>

definition trail :: "'v node_spec list \<Rightarrow> visit_state \<Rightarrow> bool" where
  "trail ns s \<longleftrightarrow> successively (depends ns) (vs_stack s) \<and> (\<forall>x. vs_state s x = 1 \<longleftrightarrow> x \<in> set (vs_stack s))"

definition reached_from_top :: "'v node_spec list \<Rightarrow> visit_state \<Rightarrow> string \<Rightarrow> bool" where
  "reached_from_top ns s a \<longleftrightarrow> vs_stack s = [] \<or> depends ns (last (vs_stack s)) a"

lemma trail_enter:
  "trail ns s \<Longrightarrow> reached_from_top ns s a \<Longrightarrow> trail ns (enter_node a s)"
  by (auto simp: trail_def reached_from_top_def enter_node_def successively_append_iff)

lemma trail_kept: "visit_kept s t \<Longrightarrow> trail ns s \<Longrightarrow> trail ns t"
  by (simp add: trail_def visit_kept_def)

lemma reached_kept: "visit_kept s t \<Longrightarrow> reached_from_top ns t a = reached_from_top ns s a"
  by (simp add: reached_from_top_def visit_kept_def)

definition cycle_at :: "'v node_spec list \<Rightarrow> string list \<Rightarrow> string \<Rightarrow> bool" where
  "cycle_at ns stack a \<longleftrightarrow> a \<in> set stack \<and> successively (depends ns) (stack @ [a])"

lemma visit_fails:
  "visit ns a s = Inl e \<Longrightarrow> trail ns s \<Longrightarrow> reached_from_top ns s a \<Longrightarrow> \<exists>st b. e = cycle_error st b \<and> cycle_at ns st b"
  "visit_each ns as s = Inl e \<Longrightarrow> trail ns s \<Longrightarrow> (\<And>a. a \<in> set as \<Longrightarrow> reached_from_top ns s a) \<Longrightarrow>
     \<exists>st b. e = cycle_error st b \<and> cycle_at ns st b"
proof (induction ns a s and ns as s rule: visit_visit_each.induct)
  case (1 ns a s)
  show ?case
  proof (cases "vs_state s a = 1")
    case True
    with 1 have "e = cycle_error (vs_stack s) a" "a \<in> set (vs_stack s)" by (auto simp: visit.simps trail_def)
    moreover then have "successively (depends ns) (vs_stack s @ [a])"
      using 1(3,4) by (auto simp: trail_def reached_from_top_def successively_append_iff)
    ultimately show ?thesis by (auto simp: cycle_at_def)
  next
    case False
    with 1(2) have white: "vs_state s a \<noteq> 2"
      and e: "visit_each ns (dependencies_of ns a) (enter_node a s) = Inl e"
      by (auto simp: visit.simps split: if_splits sum.splits)
    show ?thesis
      by (rule 1(1) [OF False white e trail_enter [OF 1(3,4)]])
         (simp add: reached_from_top_def enter_node_def depends_def)
  qed
next
  case (3 ns a as s)
  show ?case
  proof (cases "visit ns a s")
    case (Inl e')
    with 3 show ?thesis by auto
  next
    case (Inr s')
    then have kept: "visit_kept s s'" using visit_returns(1) by blast
    from 3(3) Inr have "visit_each ns as s' = Inl e" by simp
    from 3(2) [OF Inr this trail_kept [OF kept 3(4)]] 3(5) show ?thesis by (simp add: reached_kept [OF kept])
  qed
qed auto

section \<open>What is accepted\<close>

definition edges_of :: "'v node_spec list \<Rightarrow> (string \<times> string) set" where
  "edges_of ns = (\<Union>n \<in> set ns. Pair (ns_address n) ` set (ns_dependencies n))"

definition proper_nodes :: "'v node_spec list \<Rightarrow> bool" where
  "proper_nodes ns \<longleftrightarrow>
     distinct (map ns_address ns) \<and>
     (\<forall>n \<in> set ns. ns_kind n = ''module'' \<longrightarrow> \<not> without_child n) \<and>
     Range (edges_of ns) \<subseteq> addresses_of ns \<and> acyclic (edges_of ns)"

lemma declare_nodes_Inr:
  "declare_nodes seen ns = Inr known \<longleftrightarrow>
     known = seen \<union> addresses_of ns \<and> distinct (map ns_address ns) \<and> seen \<inter> addresses_of ns = {} \<and>
     (\<forall>n \<in> set ns. ns_kind n = ''module'' \<longrightarrow> \<not> without_child n)"
  by (induction seen ns rule: declare_nodes.induct) (auto simp: addresses_of_def)

lemma unknown_dependency_None: "unknown_dependency known n = None \<longleftrightarrow> set (ns_dependencies n) \<subseteq> known"
proof -
  have "unknown_dependency known n = None \<longleftrightarrow> find (\<lambda>d. d \<notin> known) (ns_dependencies n) = None"
    by (cases "find (\<lambda>d. d \<notin> known) (ns_dependencies n)") (simp_all add: unknown_dependency_def)
  then show ?thesis by (auto simp: find_None_iff)
qed

lemma check_dependencies_None:
  "check_dependencies known ns = None \<longleftrightarrow> Range (edges_of ns) \<subseteq> known"
proof (induction ns)
  case (Cons n ns)
  have "Range (edges_of (n # ns)) = set (ns_dependencies n) \<union> Range (edges_of ns)" by (auto simp: edges_of_def)
  moreover have "check_dependencies known (n # ns) = None \<longleftrightarrow>
      unknown_dependency known n = None \<and> check_dependencies known ns = None"
    by (cases "unknown_dependency known n") simp_all
  ultimately show ?case using Cons.IH unknown_dependency_None [of known n] by simp
qed (simp add: edges_of_def)

lemma depends_edges: "distinct (map ns_address ns) \<Longrightarrow> depends ns a b \<longleftrightarrow> (a, b) \<in> edges_of ns"
proof
  assume "depends ns a b"
  then obtain n where n: "index_by ns_address ns a = Some n" "b \<in> set (ns_dependencies n)"
    by (cases "index_by ns_address ns a") (simp_all add: depends_def dependencies_of_def)
  with index_by_SomeD [OF n(1)] show "(a, b) \<in> edges_of ns" by (auto simp: edges_of_def)
next
  assume "distinct (map ns_address ns)" "(a, b) \<in> edges_of ns"
  then obtain n where n: "n \<in> set ns" "a = ns_address n" "b \<in> set (ns_dependencies n)" by (auto simp: edges_of_def)
  with \<open>distinct (map ns_address ns)\<close> have "index_by ns_address ns a = Some n" by (simp add: index_by_distinct)
  with n show "depends ns a b" by (simp add: depends_def dependencies_of_def)
qed

lemma validate_acyclic_None:
  assumes "distinct (map ns_address ns)"
  shows "validate_acyclic ns = None \<longleftrightarrow> acyclic (edges_of ns)"
proof
  assume "validate_acyclic ns = None"
  then obtain t where t: "visit_each ns (map ns_address ns) new_visits = Inr t"
    by (auto simp: validate_acyclic_def split: sum.splits)
  have "visits_sound ns new_visits" by (simp add: visits_sound_def visited_edges_def new_visits_def acyclic_def)
  with visit_returns(2) [OF t] have all: "\<forall>n \<in> set ns. vs_state t (ns_address n) = 2" and "visits_sound ns t" by auto
  moreover have "edges_of ns \<subseteq> visited_edges ns t"
    using all depends_edges [OF assms] by (auto simp: visited_edges_def) (auto simp: edges_of_def)
  ultimately show "acyclic (edges_of ns)" using acyclic_subset by (auto simp: visits_sound_def)
next
  assume acyclic: "acyclic (edges_of ns)"
  show "validate_acyclic ns = None"
  proof (rule ccontr)
    assume "validate_acyclic ns \<noteq> None"
    then obtain e where "visit_each ns (map ns_address ns) new_visits = Inl e"
      by (auto simp: validate_acyclic_def split: sum.splits)
    moreover have "trail ns new_visits" by (simp add: trail_def new_visits_def)
    ultimately obtain st b where "cycle_at ns st b"
      using visit_fails(2) by (fastforce simp: reached_from_top_def new_visits_def)
    then obtain us vs where "st = us @ b # vs" and chain: "successively (depends ns) (st @ [b])"
      unfolding cycle_at_def by (meson split_list)
    then have "successively (depends ns) (us @ (b # vs) @ [b])" by simp
    then have st: "successively (depends ns) ((b # vs) @ [b])" by (simp only: successively_append_iff)
    have "(x, y) \<in> (edges_of ns)\<^sup>+" if "successively (depends ns) ((x # vs) @ [y])" for x y vs
      using that
    proof (induction vs arbitrary: x)
      case (Cons z vs)
      then show ?case using depends_edges [OF assms] by (auto intro: trancl_into_trancl2)
    qed (use depends_edges [OF assms] in auto)
    with st acyclic show False by (auto simp: acyclic_def)
  qed
qed

lemma cycle_is_named:
  assumes "validate_acyclic ns = Some e"
  shows "\<exists>st b. e = cycle_error st b \<and> cycle_at ns st b"
proof -
  from assms have "visit_each ns (map ns_address ns) new_visits = Inl e"
    by (auto simp: validate_acyclic_def split: sum.splits)
  moreover have "trail ns new_visits" by (simp add: trail_def new_visits_def)
  ultimately show ?thesis using visit_fails(2) by (fastforce simp: reached_from_top_def new_visits_def)
qed

text \<open>
  C8: the nodes of a plan are accepted exactly if their addresses are distinct, each module has a child
  plan, each dependency is a node, and the dependencies have no cycle: the depth-first search is right
  in both directions, whatever the order of the nodes.
\<close>

theorem accepted_nodes_form_a_dag: "validate_nodes ns = None \<longleftrightarrow> proper_nodes ns"
proof (cases "declare_nodes {} ns")
  case (Inl e)
  then have "\<not> (distinct (map ns_address ns) \<and> (\<forall>n \<in> set ns. ns_kind n = ''module'' \<longrightarrow> \<not> without_child n))"
    using declare_nodes_Inr [of "{}" ns "addresses_of ns"] by auto
  with Inl show ?thesis by (auto simp: validate_nodes_def proper_nodes_def)
next
  case (Inr known)
  then have known: "known = addresses_of ns" "distinct (map ns_address ns)"
      "\<forall>n \<in> set ns. ns_kind n = ''module'' \<longrightarrow> \<not> without_child n"
    by (auto simp: declare_nodes_Inr)
  then show ?thesis using Inr check_dependencies_None [of known ns] validate_acyclic_None [OF known(2)]
    by (auto simp: validate_nodes_def proper_nodes_def split: option.splits)
qed

text \<open>An address meets its own dependency.\<close>

definition bare_node :: "string \<Rightarrow> string list \<Rightarrow> unit node_spec" where
  "bare_node a ds = Node_Spec a ''research'' ds () None \<lparr>or_filename = [], or_start_line = 0, or_start_column = 0,
     or_end_line = 0, or_end_column = 0, or_source = []\<rparr>"

lemma sample_cycle:
  "validate_nodes [bare_node ''a'' [''b''], bare_node ''b'' [''c''], bare_node ''c'' [''b'']] =
     Some (cycle_error [''a'', ''b'', ''c''] ''b'')"
  by (simp add: validate_nodes_def validate_acyclic_def bare_node_def visit.simps dependencies_of_def index_by_def
      new_visits_def enter_node_def leave_node_def unknown_dependency_def without_child_def)

end
