(* ===== verification/Plan_Codec.thy ===== *)
theory Plan_Codec
  imports Plan_Graph
begin

text \<open>
  The encoding of a plan, \<^verbatim>\<open>internal/plan/codec.go\<close>: values with their types and the paths of what is
  sensitive in them, nodes with the plans of their modules, and the checks when a plan is read back.
  The library cty, its two encodings and JSON are parameters.
\<close>

section \<open>The library of values\<close>

datatype 'v path_step = Get_Attr string | Index_Step 'v

type_synonym 'v path = "'v path_step list"

text \<open>
  What \<^verbatim>\<open>codec.go\<close> calls: \<^verbatim>\<open>UnmarkDeepWithPaths\<close>, \<^verbatim>\<open>Type\<close>, \<^verbatim>\<open>MarkWithPaths\<close>, \<^verbatim>\<open>Path.Apply\<close>, the encodings of types
  and values in JSON, of values in MessagePack, and the marks of a sensitive value.
\<close>

record ('v, 't, 'm) cty =
  ct_unmark :: "'v \<Rightarrow> 'v \<times> ('v path \<times> 'm set) list"
  ct_type :: "'v \<Rightarrow> 't"
  ct_mark :: "'v \<Rightarrow> ('v path \<times> 'm set) list \<Rightarrow> 'v"
  ct_apply :: "'v path \<Rightarrow> 'v \<Rightarrow> error + 'v"
  ct_type_json :: "'t \<Rightarrow> error + string"
  ct_type_of_json :: "string \<Rightarrow> error + 't"
  ct_json :: "'v \<Rightarrow> 't \<Rightarrow> error + string"
  ct_of_json :: "string \<Rightarrow> 't \<Rightarrow> error + 'v"
  ct_pack :: "'v \<Rightarrow> 't \<Rightarrow> error + string"
  ct_unpack :: "string \<Rightarrow> 't \<Rightarrow> error + 'v"
  ct_sensitive :: "'m set"

section \<open>The encoded form\<close>

record wire_index =
  wi_type :: string
  wi_value :: string

record wire_step =
  ws_attribute :: "string option"
  ws_index :: "wire_index option"

record wire_value =
  wv_type :: string
  wv_value :: string
  wv_paths :: "wire_step list list"

record wire_output =
  wo_value :: wire_value
  wo_description :: string
  wo_expression :: string

datatype wire_node = Wire_Node
  (wn_address: string)
  (wn_kind: string)
  (wn_dependencies: "string list")
  (wn_config: wire_value)
  (wn_module: "wire_module option")
  (wn_origin: origin)
and wire_module = Wire_Module
  (wm_plan: wire_plan)
  (wm_parallelism: int)
  (wm_timeout: int)
and wire_plan = Wire_Plan
  (wp_directory: string)
  (wp_run_directory: string)
  (wp_nodes: "wire_node list")
  (wp_outputs: "(string \<times> wire_output) list")
  (wp_context: "(string \<times> wire_value) list")
  (wp_locals: "(string \<times> string) list")
  (wp_tools: "(string \<times> tool_spec) list")

section \<open>Values\<close>

definition named :: "string \<Rightarrow> error + 'a \<Rightarrow> error + 'a" where
  "named label r = (case r of Inl e \<Rightarrow> Inl (Format label [TextArg e]) | Inr x \<Rightarrow> Inr x)"

definition and_then_ok :: "error + 'a \<Rightarrow> ('a \<Rightarrow> error + 'b) \<Rightarrow> error + 'b" where
  "and_then_ok r f = (case r of Inl e \<Rightarrow> Inl e | Inr x \<Rightarrow> f x)"

lemma and_then_ok_simps [simp]: "and_then_ok (Inl e) f = Inl e" "and_then_ok (Inr x) f = f x"
  by (simp_all add: and_then_ok_def)

lemma and_then_ok_Inr: "and_then_ok r f = Inr y \<longleftrightarrow> (\<exists>x. r = Inr x \<and> f x = Inr y)"
  by (cases r) simp_all

lemma named_Inr [simp]: "named label r = Inr x \<longleftrightarrow> r = Inr x"
  by (cases r) (simp_all add: named_def)

lemma named_ok [simp]: "named label (Inr x) = Inr x"
  by (simp add: named_def)

lemma and_then_ok_cong [fundef_cong]:
  "r = r' \<Longrightarrow> (\<And>x. r' = Inr x \<Longrightarrow> f x = g x) \<Longrightarrow> and_then_ok r f = and_then_ok r' g"
  by (cases r') simp_all

fun encode_step :: "('v, 't, 'm) cty \<Rightarrow> 'v path_step \<Rightarrow> error + wire_step" where
  "encode_step c (Get_Attr name) = Inr \<lparr>ws_attribute = Some name, ws_index = None\<rparr>"
| "encode_step c (Index_Step key) =
     and_then_ok (named ''encode sensitive path index type: %w'' (ct_type_json c (ct_type c key))) (\<lambda>tj.
     and_then_ok (named ''encode sensitive path index: %w'' (ct_json c key (ct_type c key))) (\<lambda>vj.
     Inr \<lparr>ws_attribute = None, ws_index = Some \<lparr>wi_type = tj, wi_value = vj\<rparr>\<rparr>))"

definition encode_path :: "('v, 't, 'm) cty \<Rightarrow> 'v path \<Rightarrow> error + wire_step list" where
  "encode_path c = all_ok (encode_step c)"

definition decode_step :: "('v, 't, 'm) cty \<Rightarrow> wire_step \<Rightarrow> error + 'v path_step" where
  "decode_step c w =
     (case (ws_attribute w, ws_index w) of
        (Some name, None) \<Rightarrow> Inr (Get_Attr name)
      | (None, Some i) \<Rightarrow>
          and_then_ok (named ''decode sensitive path index type: %w'' (ct_type_of_json c (wi_type i))) (\<lambda>t.
          and_then_ok (named ''decode sensitive path index: %w'' (ct_of_json c (wi_value i) t)) (\<lambda>key.
          Inr (Index_Step key)))
      | _ \<Rightarrow> Inl (Text ''decode sensitive path: each step must contain one selector''))"

definition decode_path :: "('v, 't, 'm) cty \<Rightarrow> wire_step list \<Rightarrow> error + 'v path" where
  "decode_path c = all_ok (decode_step c)"

definition encode_value :: "('v, 't, 'm) cty \<Rightarrow> 'v \<Rightarrow> error + wire_value" where
  "encode_value c v =
     (let (u, marks) = ct_unmark c v in
      and_then_ok (named ''encode type: %w'' (ct_type_json c (ct_type c u))) (\<lambda>tj.
      and_then_ok (named ''encode value: %w'' (ct_pack c u (ct_type c u))) (\<lambda>packed.
      and_then_ok (all_ok (encode_path c \<circ> fst) (filter (\<lambda>p. snd p \<noteq> {}) marks)) (\<lambda>paths.
      Inr \<lparr>wv_type = tj, wv_value = packed, wv_paths = paths\<rparr>))))"

definition decode_mark :: "('v, 't, 'm) cty \<Rightarrow> 'v \<Rightarrow> wire_step list \<Rightarrow> error + 'v path \<times> 'm set" where
  "decode_mark c v w =
     and_then_ok (decode_path c w) (\<lambda>p.
     and_then_ok (named ''sensitive path does not apply: %w'' (ct_apply c p v)) (\<lambda>_.
     Inr (p, ct_sensitive c)))"

definition decode_value :: "('v, 't, 'm) cty \<Rightarrow> wire_value \<Rightarrow> error + 'v" where
  "decode_value c w =
     and_then_ok (named ''decode type: %w'' (ct_type_of_json c (wv_type w))) (\<lambda>t.
     and_then_ok (named ''decode value: %w'' (ct_unpack c (wv_value w) t)) (\<lambda>v.
     and_then_ok (all_ok (decode_mark c v) (wv_paths w)) (\<lambda>marks.
     Inr (ct_mark c v marks))))"

section \<open>Plans\<close>

text \<open>A panic is not an error that is wrapped.\<close>

definition panic_nil :: error where
  "panic_nil = Text ''runtime error: invalid memory address or nil pointer dereference''"

definition at_name :: "string \<Rightarrow> string \<Rightarrow> error + 'a \<Rightarrow> error + 'a" where
  "at_name label name r =
     (case r of
        Inl e \<Rightarrow> Inl (if e = panic_nil then e else Format label [StrArg name, TextArg e])
      | Inr x \<Rightarrow> Inr x)"

lemma at_name_Inr [simp]: "at_name label name r = Inr x \<longleftrightarrow> r = Inr x"
  by (cases r) (simp_all add: at_name_def)

lemma at_name_ok [simp]: "at_name label name (Inr x) = Inr x"
  by (simp add: at_name_def)

definition encode_output :: "('v, 't, 'm) cty \<Rightarrow> string \<times> 'v output_spec \<Rightarrow> error + (string \<times> wire_output)" where
  "encode_output c p =
     and_then_ok (at_name ''output %q: %w'' (fst p) (encode_value c (os_value (snd p)))) (\<lambda>v.
     Inr (fst p, \<lparr>wo_value = v, wo_description = os_description (snd p), wo_expression = os_expression (snd p)\<rparr>))"

definition encode_entry :: "('v, 't, 'm) cty \<Rightarrow> string \<times> 'v \<Rightarrow> error + (string \<times> wire_value)" where
  "encode_entry c p =
     and_then_ok (at_name ''context %q: %w'' (fst p) (encode_value c (snd p))) (\<lambda>v. Inr (fst p, v))"

fun encode_plan :: "('v, 't, 'm) cty \<Rightarrow> 'v plan \<Rightarrow> error + wire_plan"
  and encode_node :: "('v, 't, 'm) cty \<Rightarrow> 'v node_spec \<Rightarrow> error + wire_node"
  and encode_module :: "('v, 't, 'm) cty \<Rightarrow> 'v module_spec option \<Rightarrow> error + wire_module option" where
  "encode_plan c (Plan dir run ns outs cx ls ts) =
     and_then_ok (all_ok (encode_node c) ns) (\<lambda>wns.
     and_then_ok (all_ok (encode_output c) outs) (\<lambda>wouts.
     and_then_ok (all_ok (encode_entry c) cx) (\<lambda>wcx.
     Inr (Wire_Plan dir run wns wouts wcx ls ts))))"
| "encode_node c (Node_Spec a k ds v m o1) =
     and_then_ok (at_name ''node %q config: %w'' a (encode_value c v)) (\<lambda>wv.
     and_then_ok (at_name ''module %q: %w'' a (encode_module c m)) (\<lambda>wm.
     Inr (Wire_Node a k ds wv wm o1)))"
| "encode_module c None = Inr None"
| "encode_module c (Some (Module_Spec None par lim)) = Inl panic_nil"
| "encode_module c (Some (Module_Spec (Some child) par lim)) =
     and_then_ok (encode_plan c child) (\<lambda>w. Inr (Some (Wire_Module w par lim)))"

definition decode_output :: "('v, 't, 'm) cty \<Rightarrow> string \<times> wire_output \<Rightarrow> error + (string \<times> 'v output_spec)" where
  "decode_output c p =
     and_then_ok (at_name ''output %q: %w'' (fst p) (decode_value c (wo_value (snd p)))) (\<lambda>v.
     Inr (fst p, Output_Spec v (wo_description (snd p)) (wo_expression (snd p))))"

definition decode_entry :: "('v, 't, 'm) cty \<Rightarrow> string \<times> wire_value \<Rightarrow> error + (string \<times> 'v)" where
  "decode_entry c p =
     and_then_ok (at_name ''context %q: %w'' (fst p) (decode_value c (snd p))) (\<lambda>v. Inr (fst p, v))"

fun decode_plan :: "('v, 't, 'm) cty \<Rightarrow> wire_plan \<Rightarrow> error + 'v plan"
  and decode_node :: "('v, 't, 'm) cty \<Rightarrow> wire_node \<Rightarrow> error + 'v node_spec"
  and decode_module :: "('v, 't, 'm) cty \<Rightarrow> wire_module option \<Rightarrow> error + 'v module_spec option" where
  "decode_plan c (Wire_Plan dir run wns wouts wcx ls ts) =
     and_then_ok (all_ok (decode_node c) wns) (\<lambda>ns.
     and_then_ok (all_ok (decode_output c) wouts) (\<lambda>outs.
     and_then_ok (all_ok (decode_entry c) wcx) (\<lambda>cx.
     new_for_run_with_tools (Plan dir run ns outs cx ls ts))))"
| "decode_node c (Wire_Node a k ds wv wm o1) =
     and_then_ok (at_name ''node %q config: %w'' a (decode_value c wv)) (\<lambda>v.
     and_then_ok (at_name ''module %q: %w'' a (decode_module c wm)) (\<lambda>m.
     Inr (Node_Spec a k ds v m o1)))"
| "decode_module c None = Inr None"
| "decode_module c (Some (Wire_Module w par lim)) =
     and_then_ok (decode_plan c w) (\<lambda>child. Inr (Some (Module_Spec (Some child) par lim)))"

definition marshal_plan :: "('v, 't, 'm) cty \<Rightarrow> (wire_plan \<Rightarrow> error + string) \<Rightarrow> 'v plan option \<Rightarrow> error + string" where
  "marshal_plan c to_json q =
     (case q of
        None \<Rightarrow> Inl (Text ''plan is nil'')
      | Some p \<Rightarrow> and_then_ok (encode_plan c p) (\<lambda>w. named ''encode plan: %w'' (to_json w)))"

definition unmarshal_plan :: "('v, 't, 'm) cty \<Rightarrow> (string \<Rightarrow> error + wire_plan) \<Rightarrow> string \<Rightarrow> error + 'v plan" where
  "unmarshal_plan c of_json s =
     and_then_ok (named ''decode plan: %w'' (of_json s)) (\<lambda>w. named ''decode plan: %w'' (decode_plan c w))"

section \<open>What is read back\<close>

text \<open>
  What the documentation of cty and of its encodings promises for a value: its type, the value without
  its marks and the indexes of its marked paths are read back, the paths lead into the value,
  and putting the marks back gives the value. The marks are those of a sensitive value.
\<close>

definition step_ok :: "('v, 't, 'm) cty \<Rightarrow> 'v path_step \<Rightarrow> bool" where
  "step_ok c st \<longleftrightarrow>
     (case st of
        Get_Attr _ \<Rightarrow> True
      | Index_Step key \<Rightarrow>
          (\<exists>tj. ct_type_json c (ct_type c key) = Inr tj \<and> ct_type_of_json c tj = Inr (ct_type c key)) \<and>
          (\<exists>vj. ct_json c key (ct_type c key) = Inr vj \<and> ct_of_json c vj (ct_type c key) = Inr key))"

definition value_ok :: "('v, 't, 'm) cty \<Rightarrow> 'v \<Rightarrow> bool" where
  "value_ok c v \<longleftrightarrow>
     (let (u, marks) = ct_unmark c v; t = ct_type c u; marked = filter (\<lambda>p. snd p \<noteq> {}) marks in
      (\<exists>tj. ct_type_json c t = Inr tj \<and> ct_type_of_json c tj = Inr t) \<and>
      (\<exists>packed. ct_pack c u t = Inr packed \<and> ct_unpack c packed t = Inr u) \<and>
      list_all (\<lambda>p. list_all (step_ok c) (fst p) \<and> is_ok (ct_apply c (fst p) u) \<and> snd p = ct_sensitive c) marked \<and>
      ct_mark c u marked = v)"

text \<open>Two loops, the second of which undoes the first.\<close>

lemma all_ok_roundtrip:
  assumes "\<And>x. x \<in> set xs \<Longrightarrow> \<exists>y. f x = Inr y \<and> g y = Inr x"
  shows "\<exists>ys. all_ok f xs = Inr ys \<and> all_ok g ys = Inr xs"
  using assms
proof (induction xs)
  case (Cons x xs)
  then obtain y ys where "f x = Inr y" "g y = Inr x" "all_ok f xs = Inr ys" "all_ok g ys = Inr xs"
    by (meson list.set_intros)
  then show ?case by (intro exI [of _ "y # ys"]) simp
qed simp

lemma step_roundtrip: "step_ok c st \<Longrightarrow> \<exists>w. encode_step c st = Inr w \<and> decode_step c w = Inr st"
  by (cases st) (auto simp: step_ok_def decode_step_def)

lemma path_roundtrip: "list_all (step_ok c) p \<Longrightarrow> \<exists>w. encode_path c p = Inr w \<and> decode_path c w = Inr p"
  unfolding encode_path_def decode_path_def
  by (rule all_ok_roundtrip) (auto simp: list_all_iff intro: step_roundtrip)

lemma mark_roundtrip:
  assumes "list_all (step_ok c) (fst m)" "is_ok (ct_apply c (fst m) u)" "snd m = ct_sensitive c"
  shows "\<exists>w. (encode_path c \<circ> fst) m = Inr w \<and> decode_mark c u w = Inr m"
proof -
  from path_roundtrip [OF assms(1)] obtain w where "encode_path c (fst m) = Inr w" "decode_path c w = Inr (fst m)" by blast
  then show ?thesis using assms(2,3) by (intro exI [of _ w]) (auto simp: decode_mark_def is_ok_iff prod_eq_iff)
qed

lemma value_roundtrip:
  assumes "value_ok c v"
  shows "\<exists>w. encode_value c v = Inr w \<and> decode_value c w = Inr v"
proof -
  obtain u marks where u: "ct_unmark c v = (u, marks)" by fastforce
  define t marked where "t = ct_type c u" and "marked = filter (\<lambda>p. snd p \<noteq> {}) marks"
  from assms u obtain tj packed where tj: "ct_type_json c t = Inr tj" "ct_type_of_json c tj = Inr t"
    and packed: "ct_pack c u t = Inr packed" "ct_unpack c packed t = Inr u"
    and marked: "list_all (\<lambda>p. list_all (step_ok c) (fst p) \<and> is_ok (ct_apply c (fst p) u) \<and> snd p = ct_sensitive c) marked"
    and v: "ct_mark c u marked = v"
    by (auto simp: value_ok_def Let_def t_def marked_def)
  have "\<exists>ws. all_ok (encode_path c \<circ> fst) marked = Inr ws \<and> all_ok (decode_mark c u) ws = Inr marked"
    using marked by (intro all_ok_roundtrip mark_roundtrip) (auto simp: list_all_iff)
  then obtain ws where ws: "all_ok (encode_path c \<circ> fst) marked = Inr ws" "all_ok (decode_mark c u) ws = Inr marked"
    by blast
  have "encode_value c v = Inr \<lparr>wv_type = tj, wv_value = packed, wv_paths = ws\<rparr>"
    using u tj packed ws by (simp add: encode_value_def t_def [symmetric] marked_def [symmetric])
  then show ?thesis using tj packed ws v by (simp add: decode_value_def)
qed

text \<open>What every constructor checks, for the plan and for the plans of its modules.\<close>

fun plan_valid :: "'v plan \<Rightarrow> bool" and node_valid :: "'v node_spec \<Rightarrow> bool" and module_valid :: "'v module_spec option \<Rightarrow> bool" where
  "plan_valid (Plan dir run ns outs cx ls ts) \<longleftrightarrow>
     (run = [] \<or> is_abs run) \<and> validate_nodes ns = None \<and> validate_tools ts = None \<and> list_all node_valid ns"
| "node_valid (Node_Spec a k ds v m o1) \<longleftrightarrow> module_valid m"
| "module_valid None \<longleftrightarrow> True"
| "module_valid (Some (Module_Spec None par lim)) \<longleftrightarrow> False"
| "module_valid (Some (Module_Spec (Some child) par lim)) \<longleftrightarrow> plan_valid child"

lemma new_for_run_Inr:
  "new_for_run_with_tools p = Inr q \<longleftrightarrow>
     q = p \<and> (pl_run_directory p = [] \<or> is_abs (pl_run_directory p)) \<and>
     validate_nodes (pl_nodes p) = None \<and> validate_tools (pl_tools p) = None"
  by (auto simp: new_for_run_with_tools_def new_plan_def split: option.splits)

lemma decoded_valid:
  "decode_plan c w = Inr p \<Longrightarrow> plan_valid p"
  "decode_node c wn = Inr n \<Longrightarrow> node_valid n"
  "decode_module c wm = Inr m \<Longrightarrow> module_valid m"
proof (induction c w and c wn and c wm arbitrary: p and n and m rule: decode_plan_decode_node_decode_module.induct)
  case (1 c dir run wns wouts wcx ls ts)
  then obtain ns outs cx where ns: "all_ok (decode_node c) wns = Inr ns"
    and p: "new_for_run_with_tools (Plan dir run ns outs cx ls ts) = Inr p"
    by (auto simp: and_then_ok_Inr)
  have "list_all node_valid ns"
    using all_ok_each(2) [OF ns] 1(1) by (force simp: list_all_iff)
  with p show ?case by (auto simp: new_for_run_Inr)
qed (auto simp: and_then_ok_Inr)

lemma output_roundtrip:
  "value_ok c (os_value (snd p)) \<Longrightarrow> \<exists>w. encode_output c p = Inr w \<and> decode_output c w = Inr p"
  using value_roundtrip [of c "os_value (snd p)"]
  by (cases p; cases "snd p") (auto simp: encode_output_def decode_output_def)

lemma entry_roundtrip: "value_ok c (snd p) \<Longrightarrow> \<exists>w. encode_entry c p = Inr w \<and> decode_entry c w = Inr p"
  using value_roundtrip [of c "snd p"] by (cases p) (auto simp: encode_entry_def decode_entry_def)

text \<open>The values of a plan: the configurations of its nodes, its outputs, its context, and those of its modules.\<close>

lemma plan_roundtrip:
  "(\<And>v. v \<in> set_plan p \<Longrightarrow> value_ok c v) \<Longrightarrow> plan_valid p \<Longrightarrow>
     \<exists>w. encode_plan c p = Inr w \<and> decode_plan c w = Inr p"
  "(\<And>v. v \<in> set_node_spec n \<Longrightarrow> value_ok c v) \<Longrightarrow> node_valid n \<Longrightarrow>
     \<exists>w. encode_node c n = Inr w \<and> decode_node c w = Inr n"
  "(\<And>v. v \<in> \<Union> (set_module_spec ` set_option m) \<Longrightarrow> value_ok c v) \<Longrightarrow> module_valid m \<Longrightarrow>
     \<exists>w. encode_module c m = Inr w \<and> decode_module c w = Inr m"
proof (induction c p and c n and c m rule: encode_plan_encode_node_encode_module.induct)
  case (1 c dir run ns outs cx ls ts)
  have "\<exists>ws. all_ok (encode_node c) ns = Inr ws \<and> all_ok (decode_node c) ws = Inr ns"
  proof (rule all_ok_roundtrip)
    fix n
    assume n: "n \<in> set ns"
    then have "\<And>v. v \<in> set_node_spec n \<Longrightarrow> value_ok c v" by (intro 1(2)) auto
    with n 1(3) show "\<exists>w. encode_node c n = Inr w \<and> decode_node c w = Inr n"
      by (intro 1(1)) (auto simp: list_all_iff)
  qed
  moreover have "\<exists>ws. all_ok (encode_output c) outs = Inr ws \<and> all_ok (decode_output c) ws = Inr outs"
    by (rule all_ok_roundtrip, rule output_roundtrip, rule 1(2)) (force intro: output_spec.set_sel)
  moreover have "\<exists>ws. all_ok (encode_entry c) cx = Inr ws \<and> all_ok (decode_entry c) ws = Inr cx"
    by (rule all_ok_roundtrip, rule entry_roundtrip, rule 1(2)) force
  moreover have "new_for_run_with_tools (Plan dir run ns outs cx ls ts) = Inr (Plan dir run ns outs cx ls ts)"
    using 1(3) by (simp add: new_for_run_Inr)
  ultimately show ?case by fastforce
next
  case (2 c a k ds v m o1)
  from value_roundtrip [of c v] 2(2) obtain wv where wv: "encode_value c v = Inr wv" "decode_value c wv = Inr v" by auto
  have "\<And>x. x \<in> \<Union> (set_module_spec ` set_option m) \<Longrightarrow> value_ok c x" by (rule 2(2)) auto
  moreover have "module_valid m" using 2(3) by simp
  ultimately obtain wm where "encode_module c m = Inr wm" "decode_module c wm = Inr m"
    using 2(1) wv by (metis at_name_ok)
  with wv show ?case by auto
next
  case (5 c child par lim)
  then have "\<exists>w. encode_plan c child = Inr w \<and> decode_plan c w = Inr child" by simp
  then show ?case by auto
qed simp_all


section \<open>A sample\<close>

text \<open>Values that are strings, each of them sensitive or not.\<close>

definition string_cty :: "(string \<times> bool, unit, unit) cty" where
  "string_cty =
     \<lparr>ct_unmark = \<lambda>(s, b). ((s, False), if b then [([], {()})] else []), ct_type = \<lambda>_. (),
      ct_mark = \<lambda>(s, _) ms. (s, ms \<noteq> []), ct_apply = \<lambda>p v. Inr v, ct_type_json = \<lambda>_. Inr ''string'',
      ct_type_of_json = \<lambda>s. if s = ''string'' then Inr () else Inl (Text ''unknown type''),
      ct_json = \<lambda>(s, _) _. Inr s, ct_of_json = \<lambda>s _. Inr (s, False),
      ct_pack = \<lambda>(s, _) _. Inr s, ct_unpack = \<lambda>s _. Inr (s, False), ct_sensitive = {()}\<rparr>"

lemma string_cty_value_ok: "value_ok string_cty v"
  by (cases v) (auto simp: value_ok_def string_cty_def)

definition no_origin :: origin where
  "no_origin = \<lparr>or_filename = [], or_start_line = 0, or_start_column = 0, or_end_line = 0, or_end_column = 0,
     or_source = []\<rparr>"

definition sample_child :: "(string \<times> bool) plan" where
  "sample_child = Plan ''/child'' ''/run/child'' [Node_Spec ''research.one.a'' ''research'' [] (''token'', True) None no_origin]
     [] [] [] []"

definition saved_sample :: "(string \<times> bool) plan" where
  "saved_sample = Plan ''/project'' ''/run''
     [Node_Spec ''module.m'' ''module'' [] (''.'', False) (Some (Module_Spec (Some sample_child) 2 0)) no_origin]
     [(''result'', Output_Spec (''unknown'', False) [] ''module.m.x'')] [(''key'', (''secret'', True))] [] []"

definition sample_wire :: wire_plan where
  "sample_wire = (case encode_plan string_cty saved_sample of Inr w \<Rightarrow> w | Inl _ \<Rightarrow> Wire_Plan [] [] [] [] [] [] [])"

lemma sample_child_valid: "plan_valid sample_child"
  by (simp add: sample_child_def validate_nodes_def validate_acyclic_def visit.simps dependencies_of_def index_by_def
      new_visits_def enter_node_def leave_node_def unknown_dependency_def without_child_def is_abs_def)

lemma saved_sample_valid: "plan_valid saved_sample"
  using sample_child_valid
  by (simp add: saved_sample_def validate_nodes_def validate_acyclic_def visit.simps dependencies_of_def index_by_def
      new_visits_def enter_node_def leave_node_def unknown_dependency_def without_child_def is_abs_def)


text \<open>A node of another kind may have a module without a plan; encoding it is a nil dereference.\<close>

lemma childless_module_panics:
  assumes "k \<noteq> ''module''" "encode_value c v = Inr w"
  shows "validate_nodes [Node_Spec a k [] v (Some (Module_Spec None par lim)) o1] = None \<and>
    encode_node c (Node_Spec a k [] v (Some (Module_Spec None par lim)) o1) = Inl panic_nil"
  using assms
  by (simp add: validate_nodes_def validate_acyclic_def visit.simps dependencies_of_def index_by_def
      new_visits_def enter_node_def leave_node_def unknown_dependency_def without_child_def at_name_def)

end
