(* ===== verification/Concurrency_Scope.thy ===== *)
theory Concurrency_Scope
  imports R42_Prelude
begin

text \<open>
  The limits on concurrent research of \<^verbatim>\<open>internal/concurrency/scope.go\<close>. A scope is a list of semaphores, its
  own and those of the modules around it. A semaphore is a buffered channel: its capacity and the number of
  tokens in it are kept in a store, and a scope names it by its place there.
\<close>

section \<open>Scopes\<close>

definition DefaultGlobalParallelism :: int where
  "DefaultGlobalParallelism = 10"

record scope =
  sc_semaphores :: "nat list"
  sc_limit :: int

text \<open>The store of capacities grows with each channel that is made.\<close>

definition new_scope :: "int list \<Rightarrow> int \<Rightarrow> error + scope \<times> int list" where
  "new_scope store p =
     (if p < 0 then Inl (Text ''global parallelism must not be negative'')
      else let q = (if p = 0 then DefaultGlobalParallelism else p) in
           Inr (\<lparr>sc_semaphores = [length store], sc_limit = q\<rparr>, store @ [q]))"

definition module_scope :: "int list \<Rightarrow> scope option \<Rightarrow> int \<Rightarrow> error + scope \<times> int list" where
  "module_scope store parent p =
     (case parent of
        None \<Rightarrow> Inl (Text ''parent concurrency scope is required'')
      | Some s \<Rightarrow>
          (if p < 0 then Inl (Text ''module parallelism must not be negative'')
           else if 0 < p
           then Inr (\<lparr>sc_semaphores = sc_semaphores s @ [length store], sc_limit = min (sc_limit s) p\<rparr>, store @ [p])
           else Inr (s, store)))"

definition scope_limit :: "scope option \<Rightarrow> int" where
  "scope_limit s = (case s of None \<Rightarrow> 0 | Some s \<Rightarrow> sc_limit s)"

section \<open>Research in a scope\<close>

text \<open>
  Where a call of \<^verbatim>\<open>WithResearch\<close> is: before the check of its context with so many semaphores acquired, in the
  select for the next one, at work, in the deferred loop with so many left to release, returned.
\<close>

datatype call_phase = Checking nat | Selecting nat | Working | Releasing nat | Returned

record research_task =
  rt_scope :: scope
  rt_cancelled :: bool
  rt_phase :: call_phase
  rt_result :: "error option"

definition context_canceled :: error where
  "context_canceled = Text ''context canceled''"

definition start_research :: "scope option \<Rightarrow> bool \<Rightarrow> error + research_task" where
  "start_research s has_work =
     (case s of
        None \<Rightarrow> Inl (Text ''concurrency scope is required'')
      | Some s \<Rightarrow>
          (if \<not> has_work then Inl (Text ''research work is required'')
           else Inr \<lparr>rt_scope = s, rt_cancelled = False, rt_phase = Checking 0, rt_result = None\<rparr>))"

text \<open>
  One step of a call: the check of the context, a token sent, the select left by the context, the work's return,
  a token received. Sending waits for room, receiving for a token.
\<close>

datatype research_action = Check | Send | Abandon | Work_Returns "error option" | Receive

definition semaphore_at :: "research_task \<Rightarrow> nat \<Rightarrow> nat" where
  "semaphore_at t k = sc_semaphores (rt_scope t) ! k"

definition give_up :: "nat \<Rightarrow> research_task \<Rightarrow> research_task" where
  "give_up k t = t\<lparr>rt_phase := Releasing k, rt_result := Some context_canceled\<rparr>"

fun research_act ::
  "int list \<Rightarrow> int list \<Rightarrow> research_task \<Rightarrow> call_phase \<Rightarrow> research_action \<Rightarrow> (int list \<times> research_task) option" where
  "research_act cap used t (Checking k) Check =
     (if rt_cancelled t then Some (used, give_up k t)
      else if k < length (sc_semaphores (rt_scope t)) then Some (used, t\<lparr>rt_phase := Selecting k\<rparr>)
      else Some (used, t\<lparr>rt_phase := Working\<rparr>))"
| "research_act cap used t (Selecting k) Send =
     (let s = semaphore_at t k in
      if used ! s < cap ! s then Some (used[s := used ! s + 1], t\<lparr>rt_phase := Checking (Suc k)\<rparr>) else None)"
| "research_act cap used t (Selecting k) Abandon =
     (if rt_cancelled t then Some (used, give_up k t) else None)"
| "research_act cap used t Working (Work_Returns r) =
     Some (used, t\<lparr>rt_phase := Releasing (length (sc_semaphores (rt_scope t))), rt_result := r\<rparr>)"
| "research_act cap used t (Releasing (Suc k)) Receive =
     (let s = semaphore_at t k in
      if 0 < used ! s then Some (used[s := used ! s - 1], t\<lparr>rt_phase := Releasing k\<rparr>) else None)"
| "research_act cap used t (Releasing 0) Receive = Some (used, t\<lparr>rt_phase := Returned\<rparr>)"
| "research_act cap used t _ _ = None"

text \<open>All that goes on: scopes are made, research is started in them, contexts are cancelled, calls take steps.\<close>

record scope_world =
  sw_capacity :: "int list"
  sw_used :: "int list"
  sw_scopes :: "scope list"
  sw_tasks :: "research_task list"

datatype scope_label = Open_Scope int | Open_Module nat int | Start_Research nat | Cancel_Research nat
  | Act nat research_action

definition add_scope :: "scope_world \<Rightarrow> error + scope \<times> int list \<Rightarrow> scope_world" where
  "add_scope w r =
     (case r of
        Inl _ \<Rightarrow> w
      | Inr (s, cap) \<Rightarrow>
          w\<lparr>sw_capacity := cap, sw_used := sw_used w @ replicate (length cap - length (sw_capacity w)) 0,
            sw_scopes := sw_scopes w @ [s]\<rparr>)"

fun scope_act :: "scope_label \<Rightarrow> scope_world \<Rightarrow> scope_world option" where
  "scope_act (Open_Scope p) w = Some (add_scope w (new_scope (sw_capacity w) p))"
| "scope_act (Open_Module i p) w =
     (if i < length (sw_scopes w)
      then Some (add_scope w (module_scope (sw_capacity w) (Some (sw_scopes w ! i)) p)) else None)"
| "scope_act (Start_Research i) w =
     (if i < length (sw_scopes w)
      then (case start_research (Some (sw_scopes w ! i)) True of
              Inl _ \<Rightarrow> Some w | Inr t \<Rightarrow> Some (w\<lparr>sw_tasks := sw_tasks w @ [t]\<rparr>))
      else None)"
| "scope_act (Cancel_Research j) w =
     (if j < length (sw_tasks w)
      then Some (w\<lparr>sw_tasks := (sw_tasks w)[j := (sw_tasks w ! j)\<lparr>rt_cancelled := True\<rparr>]\<rparr>) else None)"
| "scope_act (Act j a) w =
     (if j < length (sw_tasks w)
      then (let t = sw_tasks w ! j in
            case research_act (sw_capacity w) (sw_used w) t (rt_phase t) a of
              None \<Rightarrow> None
            | Some (used, t') \<Rightarrow> Some (w\<lparr>sw_used := used, sw_tasks := (sw_tasks w)[j := t']\<rparr>))
      else None)"

definition scope_step :: "scope_world \<Rightarrow> scope_label \<Rightarrow> scope_world \<Rightarrow> bool" where
  "scope_step w l v \<longleftrightarrow> scope_act l w = Some v"

definition scope_initial :: "scope_world \<Rightarrow> bool" where
  "scope_initial w \<longleftrightarrow> w = \<lparr>sw_capacity = [], sw_used = [], sw_scopes = [], sw_tasks = []\<rparr>"

section \<open>Tokens are held by calls\<close>

fun phase_held :: "nat \<Rightarrow> call_phase \<Rightarrow> nat" where
  "phase_held n (Checking k) = k"
| "phase_held n (Selecting k) = k"
| "phase_held n Working = n"
| "phase_held n (Releasing k) = k"
| "phase_held n Returned = 0"

definition held_by :: "research_task \<Rightarrow> nat list" where
  "held_by t = take (phase_held (length (sc_semaphores (rt_scope t))) (rt_phase t)) (sc_semaphores (rt_scope t))"

definition holders :: "scope_world \<Rightarrow> nat \<Rightarrow> int" where
  "holders w s = int (length (filter (\<lambda>t. s \<in> set (held_by t)) (sw_tasks w)))"

text \<open>
  A scope acquires its semaphores in the order in which they were made, and its limit is the least of
  their capacities.
\<close>

definition scope_ok :: "int list \<Rightarrow> scope \<Rightarrow> bool" where
  "scope_ok cap s \<longleftrightarrow>
     sorted_wrt (<) (sc_semaphores s) \<and> (\<forall>i \<in> set (sc_semaphores s). i < length cap \<and> sc_limit s \<le> cap ! i) \<and>
     (\<exists>i \<in> set (sc_semaphores s). sc_limit s = cap ! i)"

fun phase_ok :: "nat \<Rightarrow> call_phase \<Rightarrow> bool" where
  "phase_ok n (Checking k) \<longleftrightarrow> k \<le> n"
| "phase_ok n (Selecting k) \<longleftrightarrow> k < n"
| "phase_ok n (Releasing k) \<longleftrightarrow> k \<le> n"
| "phase_ok n _ \<longleftrightarrow> True"

definition task_ok :: "int list \<Rightarrow> research_task \<Rightarrow> bool" where
  "task_ok cap t \<longleftrightarrow> scope_ok cap (rt_scope t) \<and> phase_ok (length (sc_semaphores (rt_scope t))) (rt_phase t)"

definition slots_inv :: "scope_world \<Rightarrow> bool" where
  "slots_inv w \<longleftrightarrow>
     length (sw_used w) = length (sw_capacity w) \<and>
     (\<forall>c \<in> set (sw_capacity w). 0 < c) \<and>
     (\<forall>s \<in> set (sw_scopes w). scope_ok (sw_capacity w) s) \<and>
     (\<forall>t \<in> set (sw_tasks w). task_ok (sw_capacity w) t) \<and>
     (\<forall>i < length (sw_capacity w). holders w i = sw_used w ! i \<and> sw_used w ! i \<le> sw_capacity w ! i)"

lemma filter_update:
  "j < length xs \<Longrightarrow>
   int (length (filter P (xs[j := y]))) = int (length (filter P xs)) - of_bool (P (xs ! j)) + of_bool (P y)"
proof (induction xs arbitrary: j)
  case (Cons x xs)
  then show ?case by (cases j) auto
qed simp

lemma scope_ok_grow: "scope_ok cap s \<Longrightarrow> scope_ok (cap @ cs) s"
  by (fastforce simp: scope_ok_def nth_append)

lemma new_scope_ok:
  "new_scope cap p = Inr (s, cap') \<Longrightarrow> scope_ok cap' s \<and> (\<exists>c > 0. cap' = cap @ [c])"
  by (auto simp: new_scope_def scope_ok_def Let_def DefaultGlobalParallelism_def split: if_splits)

lemma module_scope_ok:
  assumes "module_scope cap (Some s) p = Inr (s', cap')" "scope_ok cap s"
  shows "scope_ok cap' s' \<and> prefix (sc_semaphores s) (sc_semaphores s') \<and> (cap' = cap \<or> (\<exists>c > 0. cap' = cap @ [c]))"
proof (cases "0 < p")
  case True
  with assms(1) have s': "s' = \<lparr>sc_semaphores = sc_semaphores s @ [length cap], sc_limit = min (sc_limit s) p\<rparr>"
    and cap': "cap' = cap @ [p]" by (auto simp: module_scope_def)
  have "scope_ok cap' s'" using assms(2) unfolding s' cap' scope_ok_def
    by (cases "sc_limit s \<le> p") (fastforce simp: sorted_wrt_append nth_append)+
  with True show ?thesis by (simp add: s' cap')
qed (use assms in \<open>auto simp: module_scope_def split: if_splits\<close>)

lemma held_subset: "set (held_by t) \<subseteq> set (sc_semaphores (rt_scope t))"
  by (auto simp: held_by_def dest: in_set_takeD)

text \<open>
  A step of a call moves one token: it changes what the call holds and what the semaphores count alike.
\<close>

lemma held_next:
  assumes "scope_ok cap (rt_scope t)" "k < length (sc_semaphores (rt_scope t))"
  shows "set (take (Suc k) (sc_semaphores (rt_scope t))) = insert (semaphore_at t k) (set (take k (sc_semaphores (rt_scope t))))"
    and "semaphore_at t k \<notin> set (take k (sc_semaphores (rt_scope t)))" and "semaphore_at t k < length cap"
proof -
  let ?xs = "sc_semaphores (rt_scope t)"
  show "set (take (Suc k) ?xs) = insert (semaphore_at t k) (set (take k ?xs))"
    using assms(2) by (simp add: take_Suc_conv_app_nth semaphore_at_def)
  have "distinct ?xs" using assms(1) by (simp add: scope_ok_def strict_sorted_iff)
  then have "distinct (take (Suc k) ?xs)" by simp
  then show "semaphore_at t k \<notin> set (take k ?xs)" using assms(2) by (simp add: take_Suc_conv_app_nth semaphore_at_def)
  show "semaphore_at t k < length cap" using assms by (simp add: scope_ok_def semaphore_at_def)
qed

lemma research_act_ok:
  assumes "research_act cap used t (rt_phase t) a = Some (used', t')" "task_ok cap t" "length used = length cap"
    "\<And>i. i < length cap \<Longrightarrow> used ! i \<le> cap ! i"
  shows "task_ok cap t' \<and> rt_scope t' = rt_scope t \<and> length used' = length used \<and>
    (\<forall>i < length cap. used' ! i \<le> cap ! i \<and>
       used' ! i - used ! i = of_bool (i \<in> set (held_by t')) - of_bool (i \<in> set (held_by t)))"
  using assms
proof (cases "(cap, used, t, rt_phase t, a)" rule: research_act.cases)
  case (2 cap' used' t' k)
  then have ph: "rt_phase t = Selecting k" "a = Send" and k: "k < length (sc_semaphores (rt_scope t))"
    using assms(2) by (auto simp: task_ok_def)
  note next_facts = held_next [OF _ k, of cap]
  show ?thesis using assms next_facts k ph
    by (auto simp: task_ok_def held_by_def Let_def nth_list_update split: if_splits)
next
  case (5 cap' used' t' k)
  then have ph: "rt_phase t = Releasing (Suc k)" "a = Receive" and k: "k < length (sc_semaphores (rt_scope t))"
    using assms(2) by (auto simp: task_ok_def)
  have ok: "scope_ok cap (rt_scope t)" using assms(2) by (simp add: task_ok_def)
  note next_facts = held_next [OF ok k]
  have "used ! semaphore_at t k - 1 \<le> cap ! semaphore_at t k" using assms(4) [OF next_facts(3)] by simp
  then show ?thesis using assms next_facts k ph
    by (auto simp: task_ok_def held_by_def Let_def nth_list_update split: if_splits)
qed (auto simp: task_ok_def held_by_def give_up_def split: if_splits)

lemma holders_act:
  assumes "j < length (sw_tasks w)"
  shows "holders (w\<lparr>sw_used := us, sw_tasks := (sw_tasks w)[j := t]\<rparr>) i =
    holders w i + of_bool (i \<in> set (held_by t)) - of_bool (i \<in> set (held_by (sw_tasks w ! j)))"
  using filter_update [OF assms] by (simp add: holders_def)

lemma slots_init: "scope_initial w \<Longrightarrow> slots_inv w"
  by (simp add: scope_initial_def slots_inv_def)

lemma holders_of_new:
  assumes "slots_inv w" "length (sw_capacity w) \<le> i"
  shows "holders w i = 0"
proof -
  have "i \<notin> set (held_by t)" if "t \<in> set (sw_tasks w)" for t
  proof
    assume "i \<in> set (held_by t)"
    then have "i \<in> set (sc_semaphores (rt_scope t))" using held_subset by blast
    moreover have "scope_ok (sw_capacity w) (rt_scope t)" using assms(1) that by (simp add: slots_inv_def task_ok_def)
    ultimately show False using assms(2) by (auto simp: scope_ok_def)
  qed
  then have "filter (\<lambda>t. i \<in> set (held_by t)) (sw_tasks w) = []" by (simp add: filter_empty_conv)
  then show ?thesis by (simp add: holders_def)
qed

lemma slots_add_scope:
  assumes "slots_inv w" "scope_ok cap s" "cap = sw_capacity w \<or> (\<exists>c > 0. cap = sw_capacity w @ [c])"
  shows "slots_inv (add_scope w (Inr (s, cap)))"
proof (cases "cap = sw_capacity w")
  case True
  with assms(1,2) show ?thesis by (auto simp: slots_inv_def add_scope_def holders_def)
next
  case False
  with assms(3) obtain c where c: "0 < c" "cap = sw_capacity w @ [c]" by blast
  have none: "holders w (length (sw_capacity w)) = 0" by (rule holders_of_new [OF assms(1)]) simp
  have "task_ok cap t" if "t \<in> set (sw_tasks w)" for t
    using assms(1) that c by (simp add: slots_inv_def task_ok_def scope_ok_grow)
  moreover have "scope_ok cap r" if "r \<in> set (sw_scopes w)" for r
    using assms(1) that c by (simp add: slots_inv_def scope_ok_grow)
  moreover have "holders (add_scope w (Inr (s, cap))) i = holders w i" for i by (simp add: holders_def add_scope_def)
  moreover have "holders w i = (sw_used w @ [0]) ! i \<and> (sw_used w @ [0]) ! i \<le> cap ! i" if "i < length cap" for i
    using assms(1) that c none by (cases "i < length (sw_capacity w)") (auto simp: slots_inv_def nth_append less_Suc_eq)
  moreover have "sw_capacity (add_scope w (Inr (s, cap))) = cap" "sw_used (add_scope w (Inr (s, cap))) = sw_used w @ [0]"
    "sw_scopes (add_scope w (Inr (s, cap))) = sw_scopes w @ [s]" "sw_tasks (add_scope w (Inr (s, cap))) = sw_tasks w"
    using c by (simp_all add: add_scope_def)
  ultimately show ?thesis using assms(1,2) c by (auto simp: slots_inv_def)
qed

lemma slots_act:
  assumes inv: "slots_inv w" and j: "j < length (sw_tasks w)"
    and act: "research_act (sw_capacity w) (sw_used w) (sw_tasks w ! j) (rt_phase (sw_tasks w ! j)) a = Some (used, t)"
  shows "slots_inv (w\<lparr>sw_used := used, sw_tasks := (sw_tasks w)[j := t]\<rparr>)"
proof -
  have tasks: "\<forall>t \<in> set (sw_tasks w). task_ok (sw_capacity w) t" and len: "length (sw_used w) = length (sw_capacity w)"
    and le: "\<And>i. i < length (sw_capacity w) \<Longrightarrow> sw_used w ! i \<le> sw_capacity w ! i"
    and eq: "\<And>i. i < length (sw_capacity w) \<Longrightarrow> holders w i = sw_used w ! i"
    using inv by (auto simp: slots_inv_def)
  have "task_ok (sw_capacity w) (sw_tasks w ! j)" using tasks j by simp
  from research_act_ok [OF act this len le] have t: "task_ok (sw_capacity w) t" and len': "length used = length (sw_used w)"
    and moved: "\<And>i. i < length (sw_capacity w) \<Longrightarrow> used ! i \<le> sw_capacity w ! i \<and>
       used ! i - sw_used w ! i = of_bool (i \<in> set (held_by t)) - of_bool (i \<in> set (held_by (sw_tasks w ! j)))" by auto
  have "holders (w\<lparr>sw_used := used, sw_tasks := (sw_tasks w)[j := t]\<rparr>) i = used ! i" if "i < length (sw_capacity w)" for i
    using moved [OF that] eq [OF that] unfolding holders_act [OF j] by linarith
  moreover have "\<forall>x \<in> set ((sw_tasks w)[j := t]). task_ok (sw_capacity w) x"
    using tasks t set_update_subset_insert by fast
  ultimately show ?thesis using inv len len' moved by (simp add: slots_inv_def)
qed

lemma slots_step: "slots_inv w \<Longrightarrow> scope_step w l v \<Longrightarrow> slots_inv v"
proof -
  assume inv: "slots_inv w" and "scope_step w l v"
  then have step: "scope_act l w = Some v" by (simp add: scope_step_def)
  show "slots_inv v"
  proof (cases l)
    case (Open_Scope p)
    with step inv show ?thesis
      by (cases "new_scope (sw_capacity w) p") (auto simp: add_scope_def dest: new_scope_ok intro: slots_add_scope [unfolded add_scope_def, simplified])
  next
    case (Open_Module i p)
    with step inv have "scope_ok (sw_capacity w) (sw_scopes w ! i)" by (auto simp: slots_inv_def split: if_splits)
    with Open_Module step inv show ?thesis
      by (cases "module_scope (sw_capacity w) (Some (sw_scopes w ! i)) p")
         (auto simp: add_scope_def split: if_splits dest!: module_scope_ok
           intro: slots_add_scope [unfolded add_scope_def, simplified])
  next
    case (Start_Research i)
    with step inv show ?thesis
      by (auto simp: start_research_def slots_inv_def task_ok_def holders_def held_by_def split: if_splits)
  next
    case (Cancel_Research j)
    define t where "t = (sw_tasks w ! j)\<lparr>rt_cancelled := True\<rparr>"
    from Cancel_Research step have j: "j < length (sw_tasks w)" and v: "v = w\<lparr>sw_tasks := (sw_tasks w)[j := t]\<rparr>"
      by (auto simp: t_def split: if_splits)
    have "held_by t = held_by (sw_tasks w ! j)" by (simp add: held_by_def t_def)
    with holders_act [OF j, where us = "sw_used w" and t = t] have "holders v i = holders w i" for i by (simp add: v holders_def)
    moreover have "task_ok (sw_capacity w) t" using inv j by (simp add: slots_inv_def task_ok_def t_def)
    then have "\<forall>x \<in> set (sw_tasks v). task_ok (sw_capacity w) x"
      using inv set_update_subset_insert unfolding v slots_inv_def by fastforce
    ultimately show ?thesis using inv by (simp add: slots_inv_def v)
  next
    case (Act j a)
    with step inv slots_act show ?thesis by (auto simp: Let_def split: if_splits option.splits)
  qed
qed

interpretation slots: invariant_system scope_initial scope_step slots_inv
  by unfold_locales (auto intro: slots_init slots_step)

section \<open>Limits\<close>

text \<open>The calls at work in a scope or in a module inside it.\<close>

definition working_in :: "scope_world \<Rightarrow> scope \<Rightarrow> int" where
  "working_in w s =
     int (length (filter (\<lambda>t. rt_phase t = Working \<and> prefix (sc_semaphores s) (sc_semaphores (rt_scope t))) (sw_tasks w)))"

lemma length_filter_mono: "(\<And>x. x \<in> set xs \<Longrightarrow> P x \<Longrightarrow> Q x) \<Longrightarrow> length (filter P xs) \<le> length (filter Q xs)"
  by (induction xs) (auto intro: le_SucI)

text \<open>
  C9: however scopes, modules and research come and go, no more calls are at work in a scope with all the modules
  inside it than its limit allows, the least of its own and of the limits around it.
\<close>

theorem research_limits_are_kept:
  assumes "reach scope_initial scope_step w" "s \<in> set (sw_scopes w)"
  shows "working_in w s \<le> sc_limit s"
proof -
  have inv: "slots_inv w" by (rule slots.reach_inv [OF assms(1)])
  with assms(2) have "scope_ok (sw_capacity w) s" by (simp add: slots_inv_def)
  then obtain i where i: "i \<in> set (sc_semaphores s)" "sc_limit s = sw_capacity w ! i" "i < length (sw_capacity w)"
    by (auto simp: scope_ok_def)
  have "working_in w s \<le> holders w i"
    unfolding working_in_def holders_def
    by (rule of_nat_mono, rule length_filter_mono) (use i in \<open>auto simp: held_by_def dest: set_mono_prefix\<close>)
  also have "\<dots> \<le> sc_limit s" using inv i by (simp add: slots_inv_def)
  finally show ?thesis .
qed

section \<open>Progress\<close>

fun phase_left :: "nat \<Rightarrow> call_phase \<Rightarrow> nat" where
  "phase_left n (Checking k) = 2 * (n - k) + n + 3"
| "phase_left n (Selecting k) = 2 * (n - k) + n + 2"
| "phase_left n Working = n + 2"
| "phase_left n (Releasing k) = k + 1"
| "phase_left n Returned = 0"

definition task_left :: "research_task \<Rightarrow> nat" where
  "task_left t = phase_left (length (sc_semaphores (rt_scope t))) (rt_phase t)"

definition steps_left :: "scope_world \<Rightarrow> nat" where
  "steps_left w = sum_list (map task_left (sw_tasks w))"

lemma act_task_left:
  "research_act cap used t (rt_phase t) a = Some (used', t') \<Longrightarrow> task_ok cap t \<Longrightarrow> task_left t' < task_left t"
  by (cases "(cap, used, t, rt_phase t, a)" rule: research_act.cases)
     (auto simp: task_left_def give_up_def Let_def task_ok_def split: if_splits)

lemma sum_list_update_less:
  fixes f :: "'a \<Rightarrow> nat"
  shows "j < length xs \<Longrightarrow> f y < f (xs ! j) \<Longrightarrow> sum_list (map f (xs[j := y])) < sum_list (map f xs)"
proof (induction xs arbitrary: j)
  case (Cons x xs)
  then show ?case by (cases j) auto
qed simp

lemma act_steps_left:
  assumes "slots_inv w" "scope_step w (Act j a) v"
  shows "steps_left v < steps_left w"
proof -
  from assms(2) obtain used t where j: "j < length (sw_tasks w)"
    and act: "research_act (sw_capacity w) (sw_used w) (sw_tasks w ! j) (rt_phase (sw_tasks w ! j)) a = Some (used, t)"
    and v: "v = w\<lparr>sw_used := used, sw_tasks := (sw_tasks w)[j := t]\<rparr>"
    by (auto simp: scope_step_def Let_def split: if_splits option.splits)
  have "task_ok (sw_capacity w) (sw_tasks w ! j)" using assms(1) j by (simp add: slots_inv_def)
  with act have less: "task_left t < task_left (sw_tasks w ! j)" by (rule act_task_left)
  with j show ?thesis by (simp add: steps_left_def v sum_list_update_less)
qed

lemma act_enabled:
  "j < length (sw_tasks w) \<Longrightarrow>
   research_act (sw_capacity w) (sw_used w) (sw_tasks w ! j) (rt_phase (sw_tasks w ! j)) a = Some r \<Longrightarrow>
   \<exists>j a v. scope_step w (Act j a) v"
proof (cases r)
  case (Pair used t)
  assume "j < length (sw_tasks w)"
    "research_act (sw_capacity w) (sw_used w) (sw_tasks w ! j) (rt_phase (sw_tasks w ! j)) a = Some r"
  with Pair have "scope_step w (Act j a) (w\<lparr>sw_used := used, sw_tasks := (sw_tasks w)[j := t]\<rparr>)"
    by (simp add: scope_step_def)
  then show ?thesis by blast
qed

lemma some_holder:
  assumes "slots_inv w" "i < length (sw_capacity w)"
  shows "0 < sw_used w ! i \<longleftrightarrow> (\<exists>t \<in> set (sw_tasks w). i \<in> set (held_by t))"
proof -
  have "sw_used w ! i = holders w i" using assms by (simp add: slots_inv_def)
  then have "0 < sw_used w ! i \<longleftrightarrow> filter (\<lambda>t. i \<in> set (held_by t)) (sw_tasks w) \<noteq> []"
    by (simp add: holders_def)
  then show ?thesis by (simp add: filter_empty_conv)
qed

text \<open>A call that does not wait can take a step.\<close>

lemma unblocked_enabled:
  assumes inv: "slots_inv w" and t: "t \<in> set (sw_tasks w)" "rt_phase t \<noteq> Returned" "\<And>k. rt_phase t \<noteq> Selecting k"
  shows "\<exists>j a v. scope_step w (Act j a) v"
proof -
  from t(1) obtain j where j: "j < length (sw_tasks w)" "sw_tasks w ! j = t" by (auto simp: in_set_conv_nth)
  have ok: "task_ok (sw_capacity w) t" using inv t(1) by (simp add: slots_inv_def)
  have "\<exists>a r. research_act (sw_capacity w) (sw_used w) t (rt_phase t) a = Some r"
  proof (cases "rt_phase t")
    case (Checking k)
    then show ?thesis by (intro exI [of _ Check]) auto
  next
    case Working
    then show ?thesis by (intro exI [of _ "Work_Returns None"]) auto
  next
    case (Releasing n)
    show ?thesis
    proof (cases n)
      case 0
      with Releasing show ?thesis by (intro exI [of _ Receive]) auto
    next
      case (Suc k)
      with ok Releasing have k: "k < length (sc_semaphores (rt_scope t))" and "scope_ok (sw_capacity w) (rt_scope t)"
        by (auto simp: task_ok_def)
      note next_facts = held_next [OF this(2) k]
      have "semaphore_at t k \<in> set (held_by t)" using next_facts(1) Releasing Suc by (simp add: held_by_def)
      then have "0 < sw_used w ! semaphore_at t k" using some_holder [OF inv next_facts(3)] t(1) by blast
      with Releasing Suc show ?thesis by (intro exI [of _ Receive]) (simp add: Let_def)
    qed
  qed (use t in auto)
  with j act_enabled show ?thesis by blast
qed

text \<open>
  If every call waits, the one that waits for the semaphore made last finds it full, so that another call holds it
  and waits for a later one.
\<close>

lemma blocked_enabled:
  assumes inv: "slots_inv w" and all: "\<And>t. t \<in> set (sw_tasks w) \<Longrightarrow> rt_phase t = Returned \<or> (\<exists>k. rt_phase t = Selecting k)"
    and some: "\<exists>t \<in> set (sw_tasks w). rt_phase t \<noteq> Returned"
  shows "\<exists>j a v. scope_step w (Act j a) v"
proof -
  define waits where "waits t = (case rt_phase t of Selecting k \<Rightarrow> semaphore_at t k | _ \<Rightarrow> 0)" for t
  define B where "B = {t \<in> set (sw_tasks w). rt_phase t \<noteq> Returned}"
  have "finite B" "B \<noteq> {}" using some by (auto simp: B_def)
  then have "Max (waits ` B) \<in> waits ` B" by (intro Max_in) simp_all
  then obtain t where t: "t \<in> B" "waits t = Max (waits ` B)" by force
  have most: "waits s \<le> waits t" if "s \<in> B" for s using that t(2) \<open>finite B\<close> by simp
  note t = t(1)
  then obtain k where k: "rt_phase t = Selecting k" using all by (auto simp: B_def)
  have "task_ok (sw_capacity w) t" using inv t by (simp add: slots_inv_def B_def)
  then have klen: "k < length (sc_semaphores (rt_scope t))" and "scope_ok (sw_capacity w) (rt_scope t)"
    using k by (auto simp: task_ok_def)
  note next_facts = held_next [OF this(2) klen]
  define s where "s = semaphore_at t k"
  have "sw_used w ! s < sw_capacity w ! s"
  proof (rule ccontr)
    assume full: "\<not> sw_used w ! s < sw_capacity w ! s"
    have s: "s < length (sw_capacity w)" using next_facts(3) by (simp add: s_def)
    then have "0 < sw_capacity w ! s" using inv by (simp add: slots_inv_def)
    with full have "0 < sw_used w ! s" by simp
    then obtain u where u: "u \<in> set (sw_tasks w)" "s \<in> set (held_by u)" using some_holder [OF inv s] by blast
    then have "rt_phase u \<noteq> Returned" by (auto simp: held_by_def)
    with all u(1) obtain k' where k': "rt_phase u = Selecting k'" by blast
    have "task_ok (sw_capacity w) u" using inv u(1) by (simp add: slots_inv_def)
    then have "k' < length (sc_semaphores (rt_scope u))" "sorted_wrt (<) (sc_semaphores (rt_scope u))"
      using k' by (auto simp: task_ok_def scope_ok_def)
    with u(2) k' have "s < semaphore_at u k'"
      by (auto simp: held_by_def semaphore_at_def in_set_conv_nth sorted_wrt_nth_less)
    moreover have "u \<in> B" using u(1) k' by (simp add: B_def)
    ultimately show False using most [of u] k k' by (simp add: waits_def s_def)
  qed
  moreover obtain j where "j < length (sw_tasks w)" "sw_tasks w ! j = t" using t by (auto simp: B_def in_set_conv_nth)
  ultimately show ?thesis using k by (intro act_enabled [of j _ Send]) (auto simp: s_def Let_def)
qed

text \<open>
  C10: research never deadlocks on its limits. In every reachable state, as long as a call has not returned one of
  them can take a step; every step brings them closer to the end, so after \<open>steps_left\<close> steps of calls at most all
  have returned; and then no token is left in a semaphore, whatever was cancelled on the way.
\<close>

theorem research_never_deadlocks:
  assumes "reach scope_initial scope_step w"
  shows "(if \<forall>t \<in> set (sw_tasks w). rt_phase t = Returned then \<forall>u \<in> set (sw_used w). u = 0
          else \<exists>j a v. scope_step w (Act j a) v) \<and>
    {v. \<exists>j a. scope_step w (Act j a) v} \<subseteq> {v. steps_left v < steps_left w}"
proof -
  have inv: "slots_inv w" by (rule slots.reach_inv [OF assms])
  have "u = 0" if "u \<in> set (sw_used w)" and all: "\<forall>t \<in> set (sw_tasks w). rt_phase t = Returned" for u
  proof -
    from that(1) obtain i where i: "i < length (sw_used w)" "u = sw_used w ! i" by (auto simp: in_set_conv_nth)
    have "holders w i = 0" using all by (simp add: holders_def held_by_def)
    then show ?thesis using inv i by (simp add: slots_inv_def)
  qed
  moreover have "\<exists>j a v. scope_step w (Act j a) v" if "\<not> (\<forall>t \<in> set (sw_tasks w). rt_phase t = Returned)"
    using that unblocked_enabled [OF inv] blocked_enabled [OF inv] by metis
  ultimately show ?thesis using act_steps_left [OF inv] by auto
qed

section \<open>A sample\<close>

text \<open>A module with a limit of one inside a run with a limit of two: one call works, one waits.\<close>

definition empty_world :: scope_world where
  "empty_world = \<lparr>sw_capacity = [], sw_used = [], sw_scopes = [], sw_tasks = []\<rparr>"

fun scope_run :: "scope_label list \<Rightarrow> scope_world \<Rightarrow> scope_world option" where
  "scope_run [] w = Some w"
| "scope_run (l # ls) w = (case scope_act l w of None \<Rightarrow> None | Some v \<Rightarrow> scope_run ls v)"

lemma scope_run_reach:
  "scope_run ls w = Some v \<Longrightarrow> reach scope_initial scope_step w \<Longrightarrow> reach scope_initial scope_step v"
proof (induction ls arbitrary: w)
  case (Cons l ls)
  then obtain u where u: "scope_step w l u" "scope_run ls u = Some v"
    by (auto simp: scope_step_def split: option.splits)
  from Cons.IH [OF u(2) reach_step [OF Cons.prems(2) u(1)]] show ?case .
qed simp

definition sample_events :: "scope_label list" where
  "sample_events = [Open_Scope 2, Open_Module 0 1, Start_Research 1, Start_Research 1,
     Act 0 Check, Act 0 Send, Act 0 Check, Act 0 Send, Act 0 Check,
     Act 1 Check, Act 1 Send, Act 1 Check]"

definition sample_world :: scope_world where
  "sample_world = the (scope_run sample_events empty_world)"

lemma sample_world_values:
  "sample_world = \<lparr>sw_capacity = [2, 1], sw_used = [2, 1], sw_scopes =
     [\<lparr>sc_semaphores = [0], sc_limit = 2\<rparr>, \<lparr>sc_semaphores = [0, 1], sc_limit = 1\<rparr>],
     sw_tasks = [\<lparr>rt_scope = \<lparr>sc_semaphores = [0, 1], sc_limit = 1\<rparr>, rt_cancelled = False, rt_phase = Working, rt_result = None\<rparr>,
       \<lparr>rt_scope = \<lparr>sc_semaphores = [0, 1], sc_limit = 1\<rparr>, rt_cancelled = False, rt_phase = Selecting 1, rt_result = None\<rparr>]\<rparr>"
  and sample_run: "scope_run sample_events empty_world = Some sample_world"
  by (simp_all add: sample_world_def sample_events_def empty_world_def add_scope_def new_scope_def module_scope_def start_research_def
      semaphore_at_def)

lemma sample_reached: "reach scope_initial scope_step sample_world"
  by (rule scope_run_reach [OF sample_run]) (simp add: reach_init scope_initial_def empty_world_def)

theorem research_limits_are_kept_witness:
  "working_in sample_world \<lparr>sc_semaphores = [0], sc_limit = 2\<rparr> = 1 \<and>
   working_in sample_world \<lparr>sc_semaphores = [0], sc_limit = 2\<rparr> \<le> 2"
  using research_limits_are_kept [OF sample_reached, of "\<lparr>sc_semaphores = [0], sc_limit = 2\<rparr>"]
  by (simp add: sample_world_values working_in_def)

theorem research_never_deadlocks_witness: "\<exists>j a v. scope_step sample_world (Act j a) v"
  using research_never_deadlocks [OF sample_reached] by (simp add: sample_world_values split: if_splits)

end
