(* ===== verification/Native_Plan.thy ===== *)
theory Native_Plan
  imports Plan_Graph
begin

text \<open>
  How a saved plan is handed to the block scheduler, \<^verbatim>\<open>nativePlanHCLBlocks\<close> of \<^verbatim>\<open>internal/executor/golden_plan.go\<close>:
  the addresses of the nodes are taken apart, the instances of one block are gathered, and one block of HCL is
  written for each. The parse of that text by the library hcl and the scheduler, golden, are outside.
\<close>

section \<open>Addresses\<close>

text \<open>\<^verbatim>\<open>strings.Cut\<close> with a separator of one byte, and \<^verbatim>\<open>strings.LastIndexByte\<close> with what is on both sides.\<close>

definition cut_at :: "char \<Rightarrow> string \<Rightarrow> (string \<times> string) option" where
  "cut_at c s =
     (case dropWhile (\<lambda>x. x \<noteq> c) s of [] \<Rightarrow> None | _ # rest \<Rightarrow> Some (takeWhile (\<lambda>x. x \<noteq> c) s, rest))"

definition cut_last :: "char \<Rightarrow> string \<Rightarrow> (string \<times> string) option" where
  "cut_last c s = (case cut_at c (rev s) of None \<Rightarrow> None | Some (after, front) \<Rightarrow> Some (rev front, rev after))"

lemma cut_at_Some: "cut_at c s = Some (a, b) \<longleftrightarrow> s = a @ c # b \<and> c \<notin> set a"
proof
  assume cut: "cut_at c s = Some (a, b)"
  then obtain x where x: "dropWhile (\<lambda>x. x \<noteq> c) s = x # b" and a: "a = takeWhile (\<lambda>x. x \<noteq> c) s"
    by (auto simp: cut_at_def split: list.splits)
  have "s = takeWhile (\<lambda>x. x \<noteq> c) s @ dropWhile (\<lambda>x. x \<noteq> c) s" by simp
  moreover have "x = c" using x hd_dropWhile [of "\<lambda>x. x \<noteq> c" s] by simp
  moreover have "c \<notin> set a" unfolding a by (auto dest: set_takeWhileD)
  ultimately show "s = a @ c # b \<and> c \<notin> set a" unfolding x a by simp
next
  assume s: "s = a @ c # b \<and> c \<notin> set a"
  then have "\<And>x. x \<in> set a \<Longrightarrow> x \<noteq> c" by auto
  with s show "cut_at c s = Some (a, b)" by (simp add: cut_at_def dropWhile_append2 takeWhile_append2)
qed

lemma cut_at_None: "cut_at c s = None \<longleftrightarrow> c \<notin> set s"
proof -
  have "cut_at c s = None \<longleftrightarrow> dropWhile (\<lambda>x. x \<noteq> c) s = []"
    unfolding cut_at_def by (cases "dropWhile (\<lambda>x. x \<noteq> c) s"; simp only: list.case option.simps list.simps simp_thms)
  then show ?thesis unfolding dropWhile_eq_Nil_conv by blast
qed

lemma cut_last_Some: "cut_last c s = Some (a, b) \<longleftrightarrow> s = a @ c # b \<and> c \<notin> set b"
proof -
  have "cut_last c s = Some (a, b) \<longleftrightarrow> cut_at c (rev s) = Some (rev b, rev a)"
    by (auto simp: cut_last_def split: option.splits)
  also have "\<dots> \<longleftrightarrow> rev s = rev (a @ c # b) \<and> c \<notin> set b" by (simp add: cut_at_Some)
  finally show ?thesis by (simp only: rev_is_rev_conv)
qed

lemma cut_last_None: "cut_last c s = None \<longleftrightarrow> c \<notin> set s"
proof -
  have "cut_last c s = None \<longleftrightarrow> cut_at c (rev s) = None"
    by (cases "cut_at c (rev s)") (auto simp: cut_last_def)
  then show ?thesis by (simp add: cut_at_None)
qed

record native_address =
  na_kind :: string
  na_labels :: "string list"
  na_key :: "string option"

definition base_address :: "native_address \<Rightarrow> string" where
  "base_address a = na_kind a @ ''.'' @ strings_join ''.'' (na_labels a)"

definition split_instance :: "string \<Rightarrow> (string \<times> string option) option" where
  "split_instance name =
     (case cut_last CHR ''['' name of
        None \<Rightarrow> (if CHR '']'' \<in> set name then None else Some (name, None))
      | Some (front, after) \<Rightarrow>
          (if front = [] \<or> after = [] \<or> last after \<noteq> CHR '']'' \<or> length after = 1 then None
           else Some (front, Some (butlast after))))"

definition parse_native_address :: "string \<Rightarrow> native_address option" where
  "parse_native_address address =
     (case cut_at CHR ''.'' address of
        None \<Rightarrow> None
      | Some (kind, remainder) \<Rightarrow>
          (if kind = [] \<or> remainder = [] then None
           else if kind \<noteq> ''research''
           then (if CHR ''.'' \<in> set remainder then None
                 else Some \<lparr>na_kind = kind, na_labels = [remainder], na_key = None\<rparr>)
           else (case cut_at CHR ''.'' remainder of
                   None \<Rightarrow> None
                 | Some (ty, name) \<Rightarrow>
                     (if ty = [] \<or> name = [] then None
                      else (case split_instance name of
                              None \<Rightarrow> None
                            | Some (label, key) \<Rightarrow>
                                Some \<lparr>na_kind = kind, na_labels = [ty, label], na_key = key\<rparr>)))))"

text \<open>How the scheduler names an instance: by its block's address and the key of \<^verbatim>\<open>for_each\<close>.\<close>

definition instance_address :: "string \<Rightarrow> string \<Rightarrow> string" where
  "instance_address b k = b @ ''['' @ k @ '']''"

definition full_address :: "native_address \<Rightarrow> string" where
  "full_address a = (case na_key a of None \<Rightarrow> base_address a | Some k \<Rightarrow> instance_address (base_address a) k)"

lemma split_instance_Some:
  "split_instance name = Some (label, key) \<Longrightarrow>
     name = (case key of None \<Rightarrow> label | Some k \<Rightarrow> label @ ''['' @ k @ '']'')"
  by (auto simp: split_instance_def cut_last_Some split: option.splits if_splits prod.splits)
     (metis append_butlast_last_id)

lemma parse_native_full: "parse_native_address s = Some a \<Longrightarrow> full_address a = s"
  by (auto simp: parse_native_address_def full_address_def base_address_def instance_address_def cut_at_Some
      dest!: split_instance_Some split: option.splits if_splits prod.splits)

section \<open>Blocks\<close>

text \<open>The key set of \<^verbatim>\<open>for_each\<close> and the dependencies are maps in the code; both are written in the order of their keys.\<close>

record native_block =
  nb_address :: native_address
  nb_for_each :: "string list"
  nb_dependencies :: "(string \<times> native_address) list"

definition add_native_dependency :: "native_block \<Rightarrow> string \<Rightarrow> native_block option" where
  "add_native_dependency b d =
     (case parse_native_address d of
        None \<Rightarrow> None
      | Some a \<Rightarrow>
          (let a' = a\<lparr>na_key := None\<rparr> in
           Some (b\<lparr>nb_dependencies := AList.update (base_address a') a' (nb_dependencies b)\<rparr>)))"

fun add_native_dependencies :: "string \<Rightarrow> native_block \<Rightarrow> string list \<Rightarrow> error + native_block" where
  "add_native_dependencies addr b [] = Inr b"
| "add_native_dependencies addr b (d # ds) =
     (case add_native_dependency b d of
        None \<Rightarrow> Inl (Format ''saved plan node %s depends on unknown node %s'' [StrArg addr, StrArg d])
      | Some b' \<Rightarrow> add_native_dependencies addr b' ds)"

definition add_native_key :: "native_address \<Rightarrow> native_block \<Rightarrow> native_block" where
  "add_native_key a b = (case na_key a of None \<Rightarrow> b | Some k \<Rightarrow> b\<lparr>nb_for_each := List.insert k (nb_for_each b)\<rparr>)"

text \<open>The blocks by their base address, in the order of the first node of each.\<close>

definition block_for :: "(string \<times> native_block) list \<Rightarrow> native_address \<Rightarrow> native_block" where
  "block_for bs a =
     (case map_of bs (base_address a) of
        Some b \<Rightarrow> b
      | None \<Rightarrow> \<lparr>nb_address = a, nb_for_each = [], nb_dependencies = []\<rparr>)"

definition add_native_node ::
  "(string \<times> native_block) list \<Rightarrow> 'v node_spec \<Rightarrow> error + (string \<times> native_block) list" where
  "add_native_node bs n =
     (case parse_native_address (ns_address n) of
        None \<Rightarrow> Inl (Format ''saved plan node %q does not match kind %q'' [StrArg (ns_address n), StrArg (ns_kind n)])
      | Some a \<Rightarrow>
          (if na_kind a \<noteq> ns_kind n
           then Inl (Format ''saved plan node %q does not match kind %q'' [StrArg (ns_address n), StrArg (ns_kind n)])
           else
             (case add_native_dependencies (ns_address n) (add_native_key a (block_for bs a)) (ns_dependencies n) of
                Inl e \<Rightarrow> Inl e
              | Inr b \<Rightarrow> Inr (AList.update (base_address a) b bs))))"

fun add_native_nodes ::
  "(string \<times> native_block) list \<Rightarrow> 'v node_spec list \<Rightarrow> error + (string \<times> native_block) list" where
  "add_native_nodes bs [] = Inr bs"
| "add_native_nodes bs (n # ns) =
     (case add_native_node bs n of Inl e \<Rightarrow> Inl e | Inr bs' \<Rightarrow> add_native_nodes bs' ns)"

text \<open>The block that is written: its labels and its attributes.\<close>

datatype hcl_expr = Hcl_String string | Hcl_Object "(string \<times> string) list" | Hcl_Keys "string list" | Hcl_Tuple "string list list"

record hcl_block =
  hb_type :: string
  hb_labels :: "string list"
  hb_attributes :: "(string \<times> hcl_expr) list"

definition kind_attributes :: "native_address \<Rightarrow> error + (string \<times> hcl_expr) list" where
  "kind_attributes a =
     (if na_kind a = ''research''
      then (if na_labels a \<noteq> [] \<and> hd (na_labels a) = ''dynamic'' then Inr [(''tasks'', Hcl_Tuple [])]
            else Inr [(''model'', Hcl_String ''saved-plan''), (''system_prompt'', Hcl_String ''saved-plan'')])
      else if na_kind a = ''module'' then Inr [(''source'', Hcl_String ''.'')]
      else if na_kind a = ''s3_folder''
      then Inr [(''provider'', Hcl_Object [(''address'', ''s3_provider.saved''), (''kind'', ''s3_provider'')]),
                (''bucket'', Hcl_String ''saved-plan''), (''source'', Hcl_String ''.'')]
      else Inl (Format ''saved plan node %q has unsupported kind %q'' [StrArg (base_address a), StrArg (na_kind a)]))"

definition hcl_of_block :: "native_block \<Rightarrow> error + hcl_block" where
  "hcl_of_block b =
     (let a = nb_address b; deps = nb_dependencies b in
      case kind_attributes a of
        Inl e \<Rightarrow> Inl e
      | Inr attrs \<Rightarrow>
          Inr \<lparr>hb_type = na_kind a, hb_labels = na_labels a,
               hb_attributes =
                 (if nb_for_each b = [] then [] else [(''for_each'', Hcl_Keys (sort (nb_for_each b)))]) @ attrs @
                 (if deps = [] then []
                  else [(''depends_on'', Hcl_Tuple (map (\<lambda>k. (\<lambda>d. na_kind d # na_labels d) (the (map_of deps k)))
                                                       (sort (keys deps))))])\<rparr>)"

definition native_plan_blocks :: "'v node_spec list \<Rightarrow> error + hcl_block list" where
  "native_plan_blocks ns =
     (case add_native_nodes [] ns of Inl e \<Rightarrow> Inl e | Inr bs \<Rightarrow> all_ok hcl_of_block (map snd bs))"

section \<open>Nothing is lost\<close>

text \<open>What the scheduler reads from a block: the addresses of its instances, and what it depends on.\<close>

definition block_instances :: "hcl_block \<Rightarrow> string list" where
  "block_instances h =
     (let b = strings_join ''.'' (hb_type h # hb_labels h) in
      case map_of (hb_attributes h) ''for_each'' of
        Some (Hcl_Keys ks) \<Rightarrow> map (instance_address b) ks
      | _ \<Rightarrow> [b])"

definition block_depends_on :: "hcl_block \<Rightarrow> string list" where
  "block_depends_on h =
     (case map_of (hb_attributes h) ''depends_on'' of
        Some (Hcl_Tuple ts) \<Rightarrow> map (strings_join ''.'') ts
      | _ \<Rightarrow> [])"

definition dependencies_named :: "native_block \<Rightarrow> bool" where
  "dependencies_named b \<longleftrightarrow>
     distinct (keys (nb_dependencies b)) \<and>
     (\<forall>(k, v) \<in> set (nb_dependencies b). base_address v = k \<and> na_labels v \<noteq> [])"

definition block_gathers :: "'v node_spec list \<Rightarrow> string \<Rightarrow> native_block \<Rightarrow> bool" where
  "block_gathers ns k b \<longleftrightarrow>
     base_address (nb_address b) = k \<and> na_labels (nb_address b) \<noteq> [] \<and> distinct (nb_for_each b) \<and> dependencies_named b \<and>
     (\<exists>n \<in> set ns. \<exists>a. parse_native_address (ns_address n) = Some a \<and> base_address a = k) \<and>
     (\<forall>key \<in> set (nb_for_each b). \<exists>n \<in> set ns. \<exists>a. parse_native_address (ns_address n) = Some a \<and> base_address a = k \<and> na_key a = Some key)"

definition node_gathered :: "(string \<times> native_block) list \<Rightarrow> 'v node_spec \<Rightarrow> bool" where
  "node_gathered bs n \<longleftrightarrow>
     (\<exists>a b. parse_native_address (ns_address n) = Some a \<and> map_of bs (base_address a) = Some b \<and>
        (\<forall>k. na_key a = Some k \<longrightarrow> k \<in> set (nb_for_each b)) \<and>
        (\<forall>d \<in> set (ns_dependencies n). \<exists>a'. parse_native_address d = Some a' \<and> base_address a' \<in> set (keys (nb_dependencies b))))"

definition gathered :: "'v node_spec list \<Rightarrow> (string \<times> native_block) list \<Rightarrow> bool" where
  "gathered ns bs \<longleftrightarrow>
     distinct (keys bs) \<and> (\<forall>n \<in> set ns. node_gathered bs n) \<and> (\<forall>(k, b) \<in> set bs. block_gathers ns k b)"

lemma in_set_update: "(x, y) \<in> set (AList.update k v al) \<Longrightarrow> x = k \<and> y = v \<or> (x, y) \<in> set al"
  by (induction al) (auto split: if_splits)

lemma base_address_key [simp]: "base_address (a\<lparr>na_key := k\<rparr>) = base_address a"
  by (simp add: base_address_def)

lemma parsed_labels: "parse_native_address s = Some a \<Longrightarrow> na_labels a \<noteq> []"
  by (auto simp: parse_native_address_def split: option.splits if_splits prod.splits)

text \<open>Adding to a block loses nothing of it.\<close>

definition block_grows :: "native_block \<Rightarrow> native_block \<Rightarrow> bool" where
  "block_grows b c \<longleftrightarrow>
     nb_address c = nb_address b \<and> set (nb_for_each b) \<subseteq> set (nb_for_each c) \<and>
     set (keys (nb_dependencies b)) \<subseteq> set (keys (nb_dependencies c))"

lemma block_grows_trans: "block_grows b c \<Longrightarrow> block_grows c d \<Longrightarrow> block_grows b d"
  by (auto simp: block_grows_def)

lemma add_key_facts:
  "block_grows b (add_native_key a b)" "nb_dependencies (add_native_key a b) = nb_dependencies b"
  "set (nb_for_each (add_native_key a b)) = set (nb_for_each b) \<union> set_option (na_key a)"
  "distinct (nb_for_each b) \<Longrightarrow> distinct (nb_for_each (add_native_key a b))"
  by (auto simp: add_native_key_def block_grows_def split: option.splits)

lemma add_dependency_facts:
  assumes "add_native_dependency b d = Some c"
  shows "block_grows b c" "nb_for_each c = nb_for_each b" "dependencies_named b \<Longrightarrow> dependencies_named c"
    "\<exists>a. parse_native_address d = Some a \<and> base_address a \<in> set (keys (nb_dependencies c))"
proof -
  from assms obtain a where a: "parse_native_address d = Some a"
    and c: "c = b\<lparr>nb_dependencies := AList.update (base_address a) (a\<lparr>na_key := None\<rparr>) (nb_dependencies b)\<rparr>"
    by (auto simp: add_native_dependency_def Let_def split: option.splits)
  show "block_grows b c" "nb_for_each c = nb_for_each b" by (auto simp: c block_grows_def)
  show "\<exists>a. parse_native_address d = Some a \<and> base_address a \<in> set (keys (nb_dependencies c))" using a by (simp add: c)
  assume named: "dependencies_named b"
  have "base_address v = k \<and> na_labels v \<noteq> []" if "(k, v) \<in> set (nb_dependencies c)" for k v
    using that named parsed_labels [OF a] by (auto simp: c dependencies_named_def dest!: in_set_update)
  then show "dependencies_named c" using named by (auto simp: c dependencies_named_def distinct_keys_update)
qed

lemma add_dependencies_facts:
  "add_native_dependencies addr b ds = Inr c \<Longrightarrow>
     block_grows b c \<and> nb_for_each c = nb_for_each b \<and> (dependencies_named b \<longrightarrow> dependencies_named c) \<and>
     (\<forall>d \<in> set ds. \<exists>a. parse_native_address d = Some a \<and> base_address a \<in> set (keys (nb_dependencies c)))"
proof (induction addr b ds rule: add_native_dependencies.induct)
  case (2 addr b d ds)
  then obtain b' where b': "add_native_dependency b d = Some b'" "add_native_dependencies addr b' ds = Inr c"
    by (auto split: option.splits)
  note first = add_dependency_facts [OF b'(1)] and rest = 2(1) [OF b']
  then show ?case by (auto intro: block_grows_trans simp: block_grows_def)
qed (simp add: block_grows_def)

lemma block_gathers_more: "block_gathers ns k b \<Longrightarrow> set ns \<subseteq> set ms \<Longrightarrow> block_gathers ms k b"
  unfolding block_gathers_def by blast

lemma block_for_facts:
  assumes "gathered ns bs" "parse_native_address (ns_address n) = Some a"
  shows "base_address (nb_address (block_for bs a)) = base_address a" "na_labels (nb_address (block_for bs a)) \<noteq> []"
    "distinct (nb_for_each (block_for bs a))" "dependencies_named (block_for bs a)"
    "\<forall>key \<in> set (nb_for_each (block_for bs a)). \<exists>m \<in> set ns. \<exists>b. parse_native_address (ns_address m) = Some b \<and>
       base_address b = base_address a \<and> na_key b = Some key"
proof -
  have "block_gathers ns (base_address a) b" if "map_of bs (base_address a) = Some b" for b
    using assms(1) map_of_SomeD [OF that] by (auto simp: gathered_def)
  then show "base_address (nb_address (block_for bs a)) = base_address a" "na_labels (nb_address (block_for bs a)) \<noteq> []"
    "distinct (nb_for_each (block_for bs a))" "dependencies_named (block_for bs a)"
    "\<forall>key \<in> set (nb_for_each (block_for bs a)). \<exists>m \<in> set ns. \<exists>b. parse_native_address (ns_address m) = Some b \<and>
       base_address b = base_address a \<and> na_key b = Some key"
    using parsed_labels [OF assms(2)]
    by (cases "map_of bs (base_address a)"; simp add: block_for_def block_gathers_def dependencies_named_def keys_def)+
qed

lemma gathered_step:
  assumes inv: "gathered ns bs" and step: "add_native_node bs n = Inr bs'"
  shows "gathered (ns @ [n]) bs'"
proof -
  from step obtain a b where a: "parse_native_address (ns_address n) = Some a"
    and b: "add_native_dependencies (ns_address n) (add_native_key a (block_for bs a)) (ns_dependencies n) = Inr b"
    and bs': "bs' = AList.update (base_address a) b bs"
    by (auto simp: add_native_node_def split: option.splits if_splits sum.splits)
  define b0 where "b0 = block_for bs a"
  note base = block_for_facts [OF inv a, folded b0_def]
  note key = add_key_facts [where b = b0 and a = a] and deps = add_dependencies_facts [OF b, folded b0_def]
  have grows: "block_grows b0 b" using key(1) deps block_grows_trans by blast
  have named: "dependencies_named b" using base(4) key(2) deps by (simp add: dependencies_named_def)
  have new: "block_gathers (ns @ [n]) (base_address a) b"
    using base named grows a deps key(3) key(4) by (auto simp: block_gathers_def block_grows_def)
  have "block_gathers (ns @ [n]) k c" if "(k, c) \<in> set bs'" for k c
    using in_set_update [OF that [unfolded bs']] new inv block_gathers_more [of ns k c "ns @ [n]"]
    by (auto simp: gathered_def)
  moreover have "node_gathered bs' n"
    using a deps key(3) by (auto simp: node_gathered_def bs' update_conv')
  moreover have "node_gathered bs' m" if m: "m \<in> set ns" for m
  proof -
    from inv m have "node_gathered bs m" by (simp add: gathered_def)
    then obtain am bm where am: "parse_native_address (ns_address m) = Some am" "map_of bs (base_address am) = Some bm"
      "\<forall>k. na_key am = Some k \<longrightarrow> k \<in> set (nb_for_each bm)"
      "\<forall>d \<in> set (ns_dependencies m). \<exists>a'. parse_native_address d = Some a' \<and> base_address a' \<in> set (keys (nb_dependencies bm))"
      by (auto simp: node_gathered_def)
    show ?thesis
    proof (cases "base_address am = base_address a")
      case True
      with am(2) have "bm = b0" by (simp add: b0_def block_for_def)
      with am True grows show ?thesis by (fastforce simp: node_gathered_def bs' update_conv' block_grows_def)
    next
      case False
      with am show ?thesis by (auto simp: node_gathered_def bs' update_conv')
    qed
  qed
  moreover have "distinct (keys bs')" using inv by (simp add: bs' gathered_def distinct_keys_update)
  ultimately show ?thesis by (auto simp: gathered_def)
qed

lemma gathered_all:
  "add_native_nodes bs ms = Inr bs' \<Longrightarrow> gathered ns bs \<Longrightarrow> gathered (ns @ ms) bs'"
proof (induction bs ms arbitrary: ns rule: add_native_nodes.induct)
  case (2 bs n ms)
  then obtain c where "add_native_node bs n = Inr c" "add_native_nodes c ms = Inr bs'"
    by (auto split: sum.splits)
  with 2 gathered_step [of ns bs n c] show ?case by fastforce
qed simp

lemma base_address_join: "na_labels a \<noteq> [] \<Longrightarrow> base_address a = strings_join ''.'' (na_kind a # na_labels a)"
  by (cases "na_labels a") (simp_all add: base_address_def)

lemma hcl_block_reads:
  assumes "hcl_of_block b = Inr h" "block_gathers ns k b"
  shows "block_instances h = (if nb_for_each b = [] then [k] else map (instance_address k) (sort (nb_for_each b)))"
    and "set (block_depends_on h) = set (keys (nb_dependencies b))"
proof -
  from assms(1) obtain attrs where attrs: "kind_attributes (nb_address b) = Inr attrs"
    "map_of attrs ''for_each'' = None" "map_of attrs ''depends_on'' = None"
    by (auto simp: hcl_of_block_def kind_attributes_def Let_def split: sum.splits if_splits)
  with assms(1) have h: "hb_type h = na_kind (nb_address b)" "hb_labels h = na_labels (nb_address b)"
    "map_of (hb_attributes h) ''for_each'' = (if nb_for_each b = [] then None else Some (Hcl_Keys (sort (nb_for_each b))))"
    "map_of (hb_attributes h) ''depends_on'' = (if nb_dependencies b = [] then None
       else Some (Hcl_Tuple (map (\<lambda>k. (\<lambda>d. na_kind d # na_labels d) (the (map_of (nb_dependencies b) k))) (sort (keys (nb_dependencies b))))))"
    by (auto simp: hcl_of_block_def Let_def map_add_def)
  have base: "strings_join ''.'' (hb_type h # hb_labels h) = k"
    using assms(2) base_address_join [of "nb_address b"] h by (simp add: block_gathers_def)
  then show "block_instances h = (if nb_for_each b = [] then [k] else map (instance_address k) (sort (nb_for_each b)))"
    using h by (simp add: block_instances_def Let_def)
  have "strings_join ''.'' (na_kind d # na_labels d) = k" if "map_of (nb_dependencies b) k = Some d" for k d
    using map_of_SomeD [OF that] assms(2) base_address_join [of d] by (auto simp: block_gathers_def dependencies_named_def)
  moreover have "\<exists>d. map_of (nb_dependencies b) k = Some d" if "k \<in> set (keys (nb_dependencies b))" for k
    using that by (auto simp: set_keys)
  ultimately have "strings_join ''.'' ((\<lambda>d. na_kind d # na_labels d) (the (map_of (nb_dependencies b) k))) = k"
    if "k \<in> set (keys (nb_dependencies b))" for k
    using that by fastforce
  then show "set (block_depends_on h) = set (keys (nb_dependencies b))"
    using h by (cases "nb_dependencies b = []") (auto simp: block_depends_on_def keys_def)
qed

text \<open>No node is the block itself of which another node is an instance.\<close>

definition instances_apart :: "'v node_spec list \<Rightarrow> bool" where
  "instances_apart ns \<longleftrightarrow>
     list_all (\<lambda>m. case parse_native_address (ns_address m) of
        Some a \<Rightarrow> na_key a = None \<or> base_address a \<notin> ns_address ` set ns
      | None \<Rightarrow> True) ns"

lemma instance_address_inj: "instance_address b k = instance_address b l \<longleftrightarrow> k = l"
  by (simp add: instance_address_def)

lemma instances_of_block:
  assumes inv: "gathered ns bs" and apart: "instances_apart ns" and b: "(k, b) \<in> set bs" "hcl_of_block b = Inr h"
  shows "distinct (block_instances h)"
    and "x \<in> set (block_instances h) \<longleftrightarrow> (\<exists>n \<in> set ns. x = ns_address n \<and> map_option base_address (parse_native_address x) = Some k)"
proof -
  from inv b have block: "block_gathers ns k b" by (auto simp: gathered_def)
  note reads = hcl_block_reads(1) [OF b(2) block]
  from block have "distinct (sort (nb_for_each b))" by (simp add: block_gathers_def)
  then have "distinct (map (instance_address k) (sort (nb_for_each b)))"
    by (simp add: distinct_map inj_on_def instance_address_inj)
  then show "distinct (block_instances h)" by (simp add: reads)
  have node: "(\<forall>l. na_key a = Some l \<longrightarrow> l \<in> set (nb_for_each b)) \<and> full_address a = ns_address n"
    if "n \<in> set ns" "parse_native_address (ns_address n) = Some a" "base_address a = k" for n a
  proof -
    have "map_of bs k = Some b" using inv b by (auto simp: gathered_def keys_def)
    then show ?thesis using inv that parse_native_full [OF that(2)] by (auto simp: gathered_def node_gathered_def)
  qed
  have lone: "nb_for_each b = []" if n: "n \<in> set ns" "parse_native_address (ns_address n) = Some a" "base_address a = k" "na_key a = None" for n a
  proof (rule ccontr)
    assume "nb_for_each b \<noteq> []"
    then obtain l m c where m: "m \<in> set ns" "parse_native_address (ns_address m) = Some c" "base_address c = k" "na_key c = Some l"
      using block by (fastforce simp: block_gathers_def neq_Nil_conv)
    have "full_address a = k" using n by (simp add: full_address_def)
    then have "base_address c = ns_address n" using node [OF n(1-3)] m by simp
    with apart m n show False by (fastforce simp: instances_apart_def list_all_iff)
  qed
  show "x \<in> set (block_instances h) \<longleftrightarrow> (\<exists>n \<in> set ns. x = ns_address n \<and> map_option base_address (parse_native_address x) = Some k)"
  proof
    assume x: "x \<in> set (block_instances h)"
    show "\<exists>n \<in> set ns. x = ns_address n \<and> map_option base_address (parse_native_address x) = Some k"
    proof (cases "nb_for_each b = []")
      case True
      from block obtain n a where n: "n \<in> set ns" "parse_native_address (ns_address n) = Some a" "base_address a = k"
        by (auto simp: block_gathers_def)
      with node [OF n] True have "na_key a = None" by (cases "na_key a") auto
      with node [OF n] n x True show ?thesis by (auto simp: reads full_address_def intro!: bexI [of _ n])
    next
      case False
      with x obtain l where l: "l \<in> set (nb_for_each b)" "x = instance_address k l" by (auto simp: reads)
      with block obtain n a where n: "n \<in> set ns" "parse_native_address (ns_address n) = Some a" "base_address a = k" "na_key a = Some l"
        by (auto simp: block_gathers_def)
      with node [OF n(1-3)] l show ?thesis by (auto simp: full_address_def intro!: bexI [of _ n])
    qed
  next
    assume "\<exists>n \<in> set ns. x = ns_address n \<and> map_option base_address (parse_native_address x) = Some k"
    then obtain n a where n: "n \<in> set ns" "parse_native_address (ns_address n) = Some a" "base_address a = k" and x: "x = ns_address n"
      by auto
    show "x \<in> set (block_instances h)"
    proof (cases "na_key a")
      case None
      with node [OF n] lone [OF n] n(3) show ?thesis by (simp add: reads full_address_def x)
    next
      case (Some l)
      with node [OF n] n(3) have "l \<in> set (nb_for_each b)" "x = instance_address k l" by (auto simp: full_address_def x)
      then show ?thesis by (auto simp: reads)
    qed
  qed
qed

lemma list_all2_sides:
  "list_all2 R xs ys \<Longrightarrow> (\<forall>x \<in> set xs. \<exists>y \<in> set ys. R x y) \<and> (\<forall>y \<in> set ys. \<exists>x \<in> set xs. R x y)"
  by (induction rule: list_all2_induct) auto

lemma distinct_concat_by:
  "list_all2 R bs hs \<Longrightarrow> distinct (keys bs) \<Longrightarrow>
   (\<And>k b h. (k, b) \<in> set bs \<Longrightarrow> R (k, b) h \<Longrightarrow> distinct (g h) \<and> (\<forall>x \<in> set (g h). f x = Some k)) \<Longrightarrow>
   distinct (concat (map g hs)) \<and> (\<forall>x \<in> set (concat (map g hs)). \<exists>k \<in> set (keys bs). f x = Some k)"
proof (induction rule: list_all2_induct)
  case (Cons p bs h hs)
  obtain k b where p: "p = (k, b)" by fastforce
  have rest: "distinct (concat (map g hs)) \<and> (\<forall>x \<in> set (concat (map g hs)). \<exists>k \<in> set (keys bs). f x = Some k)"
  proof (rule Cons.IH)
    show "distinct (keys bs)" using Cons.prems(1) by (simp add: keys_def)
    show "distinct (g h) \<and> (\<forall>x \<in> set (g h). f x = Some k)" if "(k, b) \<in> set bs" "R (k, b) h" for k b h
      using that by (intro Cons.prems(2)) simp_all
  qed
  have first: "distinct (g h) \<and> (\<forall>x \<in> set (g h). f x = Some k)" using Cons.prems(2) [of k b h] Cons.hyps(1) p by simp
  have "k \<notin> set (keys bs)" using Cons.prems(1) p by (simp add: keys_def)
  with first rest have "set (g h) \<inter> set (concat (map g hs)) = {}" by fastforce
  with first rest show ?case by (auto simp: p keys_def)
qed simp

text \<open>
  C5: a saved plan reaches the scheduler whole. The instances of the blocks that are written are the nodes of the
  plan, each of them once, and the block of a node depends on the blocks of all its dependencies; so long as no node
  is the block of another's instance.
\<close>

theorem saved_plan_is_run_whole:
  assumes "native_plan_blocks ns = Inr hs" "instances_apart ns"
  shows "set (concat (map block_instances hs)) = ns_address ` set ns \<and> distinct (concat (map block_instances hs)) \<and>
    list_all (\<lambda>n. list_ex (\<lambda>h. ns_address n \<in> set (block_instances h) \<and>
      list_all (\<lambda>d. \<exists>a. parse_native_address d = Some a \<and> base_address a \<in> set (block_depends_on h)) (ns_dependencies n)) hs) ns"
proof -
  from assms(1) obtain bs where "add_native_nodes [] ns = Inr bs" and "all_ok hcl_of_block (map snd bs) = Inr hs"
    by (auto simp: native_plan_blocks_def split: sum.splits)
  then have inv: "gathered ns bs" and each: "list_all2 (\<lambda>p h. hcl_of_block (snd p) = Inr h) bs hs"
    using gathered_all [of "[]" ns bs "[]"] by (simp_all add: gathered_def keys_def all_ok_Inr list.rel_map)
  note block = instances_of_block [OF inv assms(2)]
  have "distinct (keys bs)" using inv by (simp add: gathered_def)
  from distinct_concat_by [OF each this, of block_instances "\<lambda>x. map_option base_address (parse_native_address x)"] block
  have once: "distinct (concat (map block_instances hs))" by fastforce
  have found: "\<exists>h \<in> set hs. ns_address n \<in> set (block_instances h) \<and>
      (\<forall>d \<in> set (ns_dependencies n). \<exists>a. parse_native_address d = Some a \<and> base_address a \<in> set (block_depends_on h))"
    if n: "n \<in> set ns" for n
  proof -
    from inv n obtain a b where a: "parse_native_address (ns_address n) = Some a" "map_of bs (base_address a) = Some b"
      "\<forall>d \<in> set (ns_dependencies n). \<exists>a'. parse_native_address d = Some a' \<and> base_address a' \<in> set (keys (nb_dependencies b))"
      by (auto simp: gathered_def node_gathered_def)
    from map_of_SomeD [OF a(2)] list_all2_sides [OF each] obtain h where h: "h \<in> set hs" "hcl_of_block b = Inr h"
      by (metis snd_conv)
    have "block_gathers ns (base_address a) b" using inv map_of_SomeD [OF a(2)] by (auto simp: gathered_def)
    from hcl_block_reads(2) [OF h(2) this] block(2) [OF map_of_SomeD [OF a(2)] h(2)] a n h(1) show ?thesis
      by (intro bexI [of _ h]) auto
  qed
  have "x \<in> ns_address ` set ns" if h: "h \<in> set hs" "x \<in> set (block_instances h)" for h x
  proof -
    from list_all2_sides [OF each] h(1) obtain p where "p \<in> set bs" "hcl_of_block (snd p) = Inr h" by blast
    with block(2) [of "fst p" "snd p" h x] h(2) show ?thesis by auto
  qed
  with found once show ?thesis by (fastforce simp: list_all_iff list_ex_iff)
qed

definition sample_nodes :: "unit node_spec list" where
  "sample_nodes = [bare_node ''research.one.a[x]'' [''research.one.b''], bare_node ''research.one.b'' [],
     bare_node ''research.one.a[y]'' [''research.one.b'']]"

definition sample_hcl :: "hcl_block list" where
  "sample_hcl =
     [\<lparr>hb_type = ''research'', hb_labels = [''one'', ''a''],
        hb_attributes = [(''for_each'', Hcl_Keys [''x'', ''y'']), (''model'', Hcl_String ''saved-plan''),
          (''system_prompt'', Hcl_String ''saved-plan''), (''depends_on'', Hcl_Tuple [[''research'', ''one'', ''b'']])]\<rparr>,
      \<lparr>hb_type = ''research'', hb_labels = [''one'', ''b''],
        hb_attributes = [(''model'', Hcl_String ''saved-plan''), (''system_prompt'', Hcl_String ''saved-plan'')]\<rparr>]"

lemma sample_native_blocks: "native_plan_blocks sample_nodes = Inr sample_hcl"
  by code_simp

theorem saved_plan_is_run_whole_witness:
  "set (concat (map block_instances sample_hcl)) = {''research.one.a[x]'', ''research.one.b'', ''research.one.a[y]''} \<and>
   distinct (concat (map block_instances sample_hcl))"
proof -
  have "instances_apart sample_nodes" by code_simp
  from saved_plan_is_run_whole [OF sample_native_blocks this] show ?thesis
    by (auto simp: sample_nodes_def bare_node_def)
qed

end
