(* ===== verification/Plan_Executor.thy ===== *)
theory Plan_Executor
  imports Native_Plan Concurrency_Scope
begin

text \<open>
  The application of a saved plan: \<^verbatim>\<open>planExecution\<close> and \<^verbatim>\<open>runSavedPlan\<close> of \<^verbatim>\<open>internal/executor/golden_plan.go\<close> and
  \<^verbatim>\<open>internal/executor/executor.go\<close>. The scheduler calls \<^verbatim>\<open>ApplyBlock\<close> for the blocks of the plan, many at once; each call
  is a sequence of steps that may interleave with those of the others. What the factory, a block, a semaphore or the debug log answers is
  part of the step; errors come first, so that a failed log is an answer too.
\<close>

section \<open>The state of an execution\<close>

text \<open>The first failure cancels the context that all calls share; that context may be cancelled from outside as well.\<close>

record plan_execution =
  px_failure :: "error option"
  px_cancelled :: bool
  px_warnings :: "error list"

definition context_err :: "plan_execution \<Rightarrow> error option" where
  "context_err x = (if px_cancelled x then Some context_canceled else None)"

definition fail_execution :: "error \<Rightarrow> plan_execution \<Rightarrow> plan_execution" where
  "fail_execution e x = (if px_failure x = None then x\<lparr>px_failure := Some e, px_cancelled := True\<rparr> else x)"

definition add_warning :: "error \<Rightarrow> plan_execution \<Rightarrow> plan_execution" where
  "add_warning e x = x\<lparr>px_warnings := px_warnings x @ [e]\<rparr>"

text \<open>\<^verbatim>\<open>errors.Join\<close>: nil if all are nil.\<close>

definition join_errors :: "error option \<Rightarrow> error option \<Rightarrow> error option" where
  "join_errors a b =
     (case (a, b) of
        (None, None) \<Rightarrow> None
      | (Some e, None) \<Rightarrow> Some (Format ''%w'' [TextArg e])
      | (None, Some f) \<Rightarrow> Some (Format ''%w'' [TextArg f])
      | (Some e, Some f) \<Rightarrow> Some (Format ''%w%w'' [TextArg e, TextArg f]))"

lemma join_errors_None [simp]: "join_errors a b = None \<longleftrightarrow> a = None \<and> b = None"
  by (cases a; cases b) (simp_all add: join_errors_def)

definition wrap_at :: "string \<Rightarrow> string \<Rightarrow> error \<Rightarrow> error" where
  "wrap_at label address e = Format label [StrArg address, TextArg e]"

section \<open>One block\<close>

text \<open>
  Where a call is: before the first check of the context, waiting for its semaphores, creating the block, applying it, recording
  its failure, cleaning up, before the last check, returned. A block that was made is kept with whether it has a \<^verbatim>\<open>Cleanup\<close>.
\<close>

datatype block_phase = Starting | Waiting | Creating | Applying | Failing error
  | Cleaning "error option" | Closing "error option" | Ended "error option"

record block_call =
  bc_address :: string
  bc_kind :: string
  bc_phase :: block_phase
  bc_block :: "bool option"
  bc_applied :: bool
  bc_cleanups :: nat

datatype block_step = Check_Context | Slot_Granted | Slot_Refused error
  | Create "error option" "error option" "bool option" "error option"
  | Apply_Block "error option" "error option" "error option"
  | Record_Failure
  | Clean_Up "error option" "error option" "error option"
  | Finish_Call

definition needs_slot :: "block_call \<Rightarrow> bool" where
  "needs_slot b \<longleftrightarrow> bc_kind b = ''research'' \<and> \<not> prefix ''research.dynamic.'' (bc_address b)"

definition ended_with :: "error \<Rightarrow> plan_execution \<Rightarrow> block_call \<Rightarrow> plan_execution \<times> block_call" where
  "ended_with e x b = (fail_execution e x, b\<lparr>bc_phase := Ended (Some e)\<rparr>)"

text \<open>What \<^verbatim>\<open>factory.New\<close> and its log entry amount to.\<close>

definition create_error :: "string \<Rightarrow> error option \<Rightarrow> bool option \<Rightarrow> error option \<Rightarrow> error option" where
  "create_error address new_err made log_err =
     join_errors
       (case new_err of
          Some e \<Rightarrow> Some (wrap_at ''create apply block %s: %w'' address e)
        | None \<Rightarrow> (if made = None then Some (Format ''create apply block %s: factory returned nil'' [StrArg address]) else None))
       log_err"

definition apply_error :: "string \<Rightarrow> plan_execution \<Rightarrow> error option \<Rightarrow> error option \<Rightarrow> error option" where
  "apply_error address x err log_err =
     join_errors
       (case err of
          Some e \<Rightarrow> Some (wrap_at ''apply block %s: %w'' address e)
        | None \<Rightarrow> map_option (wrap_at ''apply block %s: %w'' address) (context_err x))
       log_err"

definition after_error :: "error option \<Rightarrow> block_phase \<Rightarrow> block_phase" where
  "after_error err next_phase = (case err of Some e \<Rightarrow> Failing e | None \<Rightarrow> next_phase)"

fun block_act :: "(string \<Rightarrow> string) \<Rightarrow> block_step \<Rightarrow> block_phase \<Rightarrow> plan_execution \<times> block_call \<Rightarrow> (plan_execution \<times> block_call) option" where
  "block_act canon Check_Context Starting (x, b) =
     (case context_err x of
        Some e \<Rightarrow> Some (ended_with (wrap_at ''apply block %s: %w'' (canon (bc_address b)) e) x b)
      | None \<Rightarrow> Some (x, b\<lparr>bc_phase := (if needs_slot b then Waiting else Creating)\<rparr>))"
| "block_act canon Slot_Granted Waiting (x, b) = Some (x, b\<lparr>bc_phase := Creating\<rparr>)"
| "block_act canon (Slot_Refused e) Waiting (x, b) =
     Some (ended_with (wrap_at ''apply block %s: %w'' (canon (bc_address b)) e) x b)"
| "block_act canon (Create log1 new_err made log2) Creating (x, b) =
     (case log1 of
        Some e \<Rightarrow> Some (ended_with e x b)
      | None \<Rightarrow>
          Some (x, b\<lparr>bc_block := made,
                     bc_phase := after_error (create_error (canon (bc_address b)) new_err made log2) Applying\<rparr>))"
| "block_act canon (Apply_Block log1 err log2) Applying (x, b) =
     (case log1 of
        Some e \<Rightarrow> Some (x, b\<lparr>bc_phase := Failing e\<rparr>)
      | None \<Rightarrow>
          Some (x, b\<lparr>bc_applied := (err = None),
                     bc_phase := after_error (apply_error (canon (bc_address b)) x err log2) (Cleaning None)\<rparr>))"
| "block_act canon Record_Failure (Failing e) (x, b) = Some (fail_execution e x, b\<lparr>bc_phase := Cleaning (Some e)\<rparr>)"
| "block_act canon (Clean_Up log1 err log2) (Cleaning e) (x, b) =
     (if bc_block b \<noteq> Some True then Some (x, b\<lparr>bc_phase := Closing e\<rparr>)
      else
        let b' = (if log1 = None then b\<lparr>bc_cleanups := Suc (bc_cleanups b)\<rparr> else b);
            problem = (if log1 = None then join_errors err log2 else log1)
        in Some ((case problem of
                    None \<Rightarrow> x
                  | Some p \<Rightarrow> add_warning (wrap_at ''cleanup block %s: %w'' (canon (bc_address b)) p) x),
                 b'\<lparr>bc_phase := Closing e\<rparr>))"
| "block_act canon Finish_Call (Closing e) (x, b) =
     (case (e, context_err x) of
        (None, Some c) \<Rightarrow> Some (ended_with (wrap_at ''apply block %s: %w'' (canon (bc_address b)) c) x b)
      | _ \<Rightarrow> Some (x, b\<lparr>bc_phase := Ended e\<rparr>))"
| "block_act canon _ _ _ = None"

section \<open>All blocks\<close>

record exec_world =
  xw_nodes :: "(string \<times> string) list"
  xw_state :: plan_execution
  xw_calls :: "block_call list"

text \<open>\<^verbatim>\<open>executeAddress\<close> looks the node up, by address; here with its kind only.\<close>

definition new_call :: "string \<times> string \<Rightarrow> block_call" where
  "new_call n = \<lparr>bc_address = fst n, bc_kind = snd n, bc_phase = Starting, bc_block = None, bc_applied = False, bc_cleanups = 0\<rparr>"

definition execute_address :: "string \<Rightarrow> (string \<times> string) list \<Rightarrow> error + block_call" where
  "execute_address a ns =
     (case find (\<lambda>n. fst n = a) ns of
        None \<Rightarrow> Inl (Format ''saved plan node %q is not present'' [StrArg a])
      | Some n \<Rightarrow> Inr (new_call n))"

datatype exec_label = Execute string | Cancel_Run | Block_Step nat block_step

fun exec_act :: "(string \<Rightarrow> string) \<Rightarrow> exec_label \<Rightarrow> exec_world \<Rightarrow> exec_world option" where
  "exec_act canon (Execute a) w =
     (case execute_address a (xw_nodes w) of Inl _ \<Rightarrow> Some w | Inr b \<Rightarrow> Some (w\<lparr>xw_calls := xw_calls w @ [b]\<rparr>))"
| "exec_act canon Cancel_Run w = Some (w\<lparr>xw_state := (xw_state w)\<lparr>px_cancelled := True\<rparr>\<rparr>)"
| "exec_act canon (Block_Step j s) w =
     (if j < length (xw_calls w)
      then (case block_act canon s (bc_phase (xw_calls w ! j)) (xw_state w, xw_calls w ! j) of
              None \<Rightarrow> None
            | Some (x, b) \<Rightarrow> Some (w\<lparr>xw_state := x, xw_calls := (xw_calls w)[j := b]\<rparr>))
      else None)"

definition exec_step :: "(string \<Rightarrow> string) \<Rightarrow> exec_world \<Rightarrow> exec_label \<Rightarrow> exec_world \<Rightarrow> bool" where
  "exec_step canon w l v \<longleftrightarrow> exec_act canon l w = Some v"

text \<open>An execution begins failed if the context it is given is already cancelled.\<close>

definition new_execution :: "bool \<Rightarrow> plan_execution" where
  "new_execution cancelled =
     (let x = \<lparr>px_failure = None, px_cancelled = cancelled, px_warnings = []\<rparr> in
      if cancelled then fail_execution context_canceled x else x)"

definition exec_initial :: "(string \<times> string) list \<Rightarrow> exec_world \<Rightarrow> bool" where
  "exec_initial ns w \<longleftrightarrow> xw_nodes w = ns \<and> xw_calls w = [] \<and> (\<exists>c. xw_state w = new_execution c)"

section \<open>The end of an application\<close>

text \<open>\<^verbatim>\<open>applySavedBlocks\<close>: the recorded failure rather than what the scheduler made of it.\<close>

definition apply_saved_blocks :: "plan_execution \<Rightarrow> error option \<Rightarrow> error option" where
  "apply_saved_blocks x run_err = (case px_failure x of Some f \<Rightarrow> Some f | None \<Rightarrow> run_err)"

text \<open>A stage of \<^verbatim>\<open>runSavedPlan\<close>: the log entry of its start, its result, the log entry of its end.\<close>

type_synonym stage = "error option \<times> error option \<times> error option"

definition run_stage :: "string \<Rightarrow> stage \<Rightarrow> error option" where
  "run_stage label s =
     (case s of (log1, err, log2) \<Rightarrow>
        (case log1 of
           Some e \<Rightarrow> Some e
         | None \<Rightarrow> map_option (\<lambda>e. Format label [TextArg e]) (join_errors err log2)))"

definition run_saved_plan :: "plan_execution \<Rightarrow> stage \<Rightarrow> stage \<Rightarrow> stage \<Rightarrow> error option" where
  "run_saved_plan x init_stage plan_stage apply_stage =
     (case run_stage ''initialize saved plan: %w'' init_stage of
        Some e \<Rightarrow> Some e
      | None \<Rightarrow>
          (case run_stage ''plan saved nodes: %w'' plan_stage of
             Some e \<Rightarrow> Some e
           | None \<Rightarrow>
               (case apply_stage of (log1, err, log2) \<Rightarrow>
                  run_stage ''apply saved plan: %w'' (log1, apply_saved_blocks x err, log2))))"

text \<open>
  The answers at the end of \<^verbatim>\<open>apply\<close>: the log before the outputs are resolved, the log that this was skipped, the factory's
  outputs if it resolves them, the log after, and the result of closing the debug log if that is asked for.
\<close>

record 'o apply_answers =
  ae_resolve_log :: "error option"
  ae_skip_log :: "error option"
  ae_resolver :: "(error + 'o) option"
  ae_complete_log :: "error option"
  ae_close :: "error option option"

definition close_warning :: "error option option \<Rightarrow> error list" where
  "close_warning c =
     (case c of Some (Some e) \<Rightarrow> [Format ''close debug log: %w'' [TextArg e]] | _ \<Rightarrow> [])"

definition resolve_outputs :: "'o apply_answers \<Rightarrow> 'o \<Rightarrow> error + 'o" where
  "resolve_outputs r planned =
     (case ae_resolver r of
        Some (Inl e) \<Rightarrow> Inl (Format ''resolve apply outputs: %w'' [TextArg e])
      | Some (Inr outs) \<Rightarrow> (case ae_complete_log r of Some e \<Rightarrow> Inl e | None \<Rightarrow> Inr outs)
      | None \<Rightarrow> (case ae_complete_log r of Some e \<Rightarrow> Inl e | None \<Rightarrow> Inr planned))"

definition first_error :: "error option \<Rightarrow> error option \<Rightarrow> error option" where
  "first_error a b = (case a of Some e \<Rightarrow> Some e | None \<Rightarrow> b)"

definition finish_apply :: "plan_execution \<Rightarrow> error option \<Rightarrow> 'o \<Rightarrow> 'o apply_answers \<Rightarrow> (error + 'o) \<times> error list" where
  "finish_apply x run_err planned r =
     (case first_error (first_error (px_failure x) run_err) (ae_resolve_log r) of
        Some f \<Rightarrow>
          (Inl f, px_warnings x @
             (case ae_skip_log r of Some e \<Rightarrow> [Format ''record skipped output resolution: %w'' [TextArg e]] | None \<Rightarrow> []) @
             close_warning (ae_close r))
      | None \<Rightarrow> (resolve_outputs r planned, px_warnings x @ close_warning (ae_close r)))"

text \<open>What \<^verbatim>\<open>apply\<close> demands first.\<close>

definition apply_checks :: "bool \<Rightarrow> bool \<Rightarrow> bool \<Rightarrow> error option" where
  "apply_checks factory planned scope =
     (if \<not> factory then Some (Text ''apply block factory is required'')
      else if \<not> planned then Some (Text ''saved plan is required'')
      else if \<not> scope then Some (Text ''concurrency scope is required'')
      else None)"

section \<open>Invariants\<close>

text \<open>
  What a call has done follows from where it is: no failure goes unrecorded, a call that is past the block's work without
  an error has applied it, and a block with a \<^verbatim>\<open>Cleanup\<close> is cleaned up once, or a warning says why it was not.
\<close>

fun phase_error :: "block_phase \<Rightarrow> error option" where
  "phase_error (Cleaning e) = e"
| "phase_error (Closing e) = e"
| "phase_error (Ended e) = e"
| "phase_error _ = None"

fun past_work :: "block_phase \<Rightarrow> bool" where
  "past_work (Cleaning e) \<longleftrightarrow> e = None"
| "past_work (Closing e) \<longleftrightarrow> e = None"
| "past_work (Ended e) \<longleftrightarrow> e = None"
| "past_work _ \<longleftrightarrow> False"

fun past_cleanup :: "block_phase \<Rightarrow> bool" where
  "past_cleanup (Closing _) \<longleftrightarrow> True"
| "past_cleanup (Ended _) \<longleftrightarrow> True"
| "past_cleanup _ \<longleftrightarrow> False"

fun before_creation :: "block_phase \<Rightarrow> bool" where
  "before_creation Starting \<longleftrightarrow> True"
| "before_creation Waiting \<longleftrightarrow> True"
| "before_creation Creating \<longleftrightarrow> True"
| "before_creation _ \<longleftrightarrow> False"

definition call_ok :: "plan_execution \<Rightarrow> block_call \<Rightarrow> bool" where
  "call_ok x b \<longleftrightarrow>
     (phase_error (bc_phase b) \<noteq> None \<longrightarrow> px_failure x \<noteq> None) \<and>
     (past_work (bc_phase b) \<longrightarrow> bc_applied b) \<and>
     (before_creation (bc_phase b) \<longrightarrow> bc_block b = None) \<and>
     bc_cleanups b \<le> (if past_cleanup (bc_phase b) then 1 else 0) \<and>
     (past_cleanup (bc_phase b) \<and> bc_block b = Some True \<longrightarrow> bc_cleanups b = 1 \<or> px_warnings x \<noteq> [])"

text \<open>Failures and warnings stay, and the first failure stays the one.\<close>

definition exec_grows :: "plan_execution \<Rightarrow> plan_execution \<Rightarrow> bool" where
  "exec_grows x y \<longleftrightarrow>
     (px_failure x \<noteq> None \<longrightarrow> px_failure y = px_failure x) \<and> (px_cancelled x \<longrightarrow> px_cancelled y) \<and>
     prefix (px_warnings x) (px_warnings y) \<and> (px_failure y \<noteq> None \<longrightarrow> px_failure x \<noteq> None \<or> px_cancelled y)"

lemma exec_grows_refl [simp]: "exec_grows x x"
  by (simp add: exec_grows_def)

lemma call_ok_grows: "exec_grows x y \<Longrightarrow> call_ok x b \<Longrightarrow> call_ok y b"
  by (auto simp: exec_grows_def call_ok_def)

lemma fail_execution_facts [simp]:
  "\<exists>f. px_failure (fail_execution e x) = Some f" "exec_grows x (fail_execution e x)" "px_warnings (fail_execution e x) = px_warnings x"
  by (auto simp: fail_execution_def exec_grows_def)

lemma add_warning_facts [simp]:
  "exec_grows x (add_warning e x)" "px_failure (add_warning e x) = px_failure x" "px_warnings (add_warning e x) \<noteq> []"
  by (auto simp: add_warning_def exec_grows_def)

lemma after_error_facts [simp]:
  "phase_error (after_error e ph) = (if e = None then phase_error ph else None)"
  "past_work (after_error e ph) = (e = None \<and> past_work ph)"
  "past_cleanup (after_error e ph) = (e = None \<and> past_cleanup ph)"
  "before_creation (after_error e ph) = (e = None \<and> before_creation ph)"
  by (auto simp: after_error_def split: option.splits)

lemma block_act_ok:
  assumes "block_act canon s (bc_phase b) (x, b) = Some (y, c)" "call_ok x b"
  shows "exec_grows x y \<and> call_ok y c"
  using assms
proof (cases "(canon, s, bc_phase b, x, b)" rule: block_act.cases)
  case (5 canon' log1 err log2 x' b')
  then have ph: "bc_phase b = Applying" "s = Apply_Block log1 err log2" by auto
  with assms have "y = x" "bc_block c = bc_block b" "bc_cleanups c = bc_cleanups b" by (auto split: option.splits)
  moreover have "past_work (bc_phase c) \<Longrightarrow> bc_applied c"
    using assms ph by (auto simp: apply_error_def split: option.splits)
  ultimately show ?thesis using assms ph by (auto simp: call_ok_def split: option.splits if_splits)
next
  case (7 canon' log1 err log2 e x' b')
  then have ph: "bc_phase b = Cleaning e" "s = Clean_Up log1 err log2" by auto
  then show ?thesis using assms by (auto simp: call_ok_def Let_def split: if_splits option.splits)
qed (auto simp: call_ok_def ended_with_def split: option.splits if_splits)

definition exec_inv :: "exec_world \<Rightarrow> bool" where
  "exec_inv w \<longleftrightarrow>
     (px_failure (xw_state w) \<noteq> None \<longrightarrow> px_cancelled (xw_state w)) \<and> (\<forall>b \<in> set (xw_calls w). call_ok (xw_state w) b)"

lemma exec_step_grows:
  assumes "exec_inv w" "exec_step canon w l v"
  shows "exec_grows (xw_state w) (xw_state v) \<and> (\<forall>b \<in> set (xw_calls v). call_ok (xw_state v) b)"
proof (cases l)
  case (Execute a)
  have "call_ok x (new_call n)" for x n by (simp add: call_ok_def new_call_def)
  with Execute assms show ?thesis
    by (auto simp: exec_step_def exec_inv_def execute_address_def split: option.splits)
next
  case Cancel_Run
  then have "xw_state v = (xw_state w)\<lparr>px_cancelled := True\<rparr>" "xw_calls v = xw_calls w" using assms(2) by (auto simp: exec_step_def)
  then show ?thesis using assms(1) by (auto simp: exec_inv_def exec_grows_def call_ok_def)
next
  case (Block_Step j s)
  with assms(2) obtain x b where j: "j < length (xw_calls w)"
    and act: "block_act canon s (bc_phase (xw_calls w ! j)) (xw_state w, xw_calls w ! j) = Some (x, b)"
    and v: "v = w\<lparr>xw_state := x, xw_calls := (xw_calls w)[j := b]\<rparr>"
    by (auto simp: exec_step_def split: if_splits option.splits)
  have "call_ok (xw_state w) (xw_calls w ! j)" using assms(1) j by (simp add: exec_inv_def)
  with block_act_ok [OF act] have grows: "exec_grows (xw_state w) x" "call_ok x b" by auto
  have "call_ok x c" if "c \<in> set ((xw_calls w)[j := b])" for c
    using that grows call_ok_grows [OF grows(1)] assms(1) set_update_subset_insert [of "xw_calls w" j b]
    by (auto simp: exec_inv_def)
  with grows show ?thesis by (simp add: v)
qed

interpretation executing: invariant_system "exec_initial ns" "exec_step canon" exec_inv
proof
  show "exec_inv w" if "exec_initial ns w" for w
    using that by (auto simp: exec_initial_def exec_inv_def new_execution_def fail_execution_def Let_def split: if_splits)
  show "exec_inv v" if "exec_inv w" "exec_step canon w l v" for w l v
    using exec_step_grows [OF that] that(1) unfolding exec_inv_def exec_grows_def by metis
qed


text \<open>
  C7: the first failure is the one that is reported, and it stops the run. From a reachable state with a failure on, whatever happens,
  that failure stays, the application returns it, and every call that has not passed its first check ends there, without
  creating its block.
\<close>

theorem first_failure_is_reported:
  assumes "reach (exec_initial ns) (exec_step canon) w" "px_failure (xw_state w) = Some f"
    and "executing.steps canon w ls v"
  shows "px_failure (xw_state v) = Some f \<and>
    fst (finish_apply (xw_state v) (run_saved_plan (xw_state v) st1 st2 st3) planned r) = Inl f \<and>
    list_all (\<lambda>b. bc_phase b = Starting \<longrightarrow>
      map_option (bc_phase \<circ> snd) (block_act canon Check_Context (bc_phase b) (xw_state v, b)) =
        Some (Ended (Some (wrap_at ''apply block %s: %w'' (canon (bc_address b)) context_canceled)))) (xw_calls v)"
proof -
  have "exec_inv w" by (rule executing.reach_inv [OF assms(1)])
  with assms(2,3) have v: "px_failure (xw_state v) = Some f \<and> exec_inv v"
  proof (induction ls arbitrary: w)
    case (Cons l ls)
    then obtain u where u: "exec_step canon w l u" "executing.steps canon u ls v" by auto
    have "px_failure (xw_state u) = Some f" "exec_inv u"
      using exec_step_grows [OF Cons.prems(3) u(1)] Cons.prems executing.inv_step [OF Cons.prems(3) u(1)]
      by (auto simp: exec_grows_def)
    with Cons.IH u(2) show ?case by blast
  qed simp
  then have "px_cancelled (xw_state v)" by (auto simp: exec_inv_def)
  with v show ?thesis by (auto simp: finish_apply_def first_error_def list_all_iff context_err_def ended_with_def)
qed

text \<open>A cleanup whose start cannot be logged is not done: the block keeps what it holds.\<close>

lemma unlogged_cleanup_is_skipped:
  assumes "bc_block b = Some True" "bc_phase b = Cleaning e"
  shows "\<exists>y c. block_act canon (Clean_Up (Some log1) err log2) (bc_phase b) (x, b) = Some (y, c) \<and> bc_cleanups c = bc_cleanups b \<and> bc_phase c = Closing e"
  using assms by (simp add: Let_def)

section \<open>A sample\<close>

definition sample_start :: exec_world where
  "sample_start = \<lparr>xw_nodes = [(''module.m'', ''module''), (''module.n'', ''module'')], xw_state = new_execution False, xw_calls = []\<rparr>"

fun exec_run :: "exec_label list \<Rightarrow> exec_world \<Rightarrow> exec_world option" where
  "exec_run [] w = Some w"
| "exec_run (l # ls) w = (case exec_act id l w of None \<Rightarrow> None | Some v \<Rightarrow> exec_run ls v)"

lemma exec_run_steps: "exec_run ls w = Some v \<Longrightarrow> executing.steps id w ls v"
  by (induction ls arbitrary: w) (auto simp: exec_step_def split: option.splits)

lemma exec_steps_reach:
  "executing.steps canon w ls v \<Longrightarrow> reach (exec_initial ns) (exec_step canon) w \<Longrightarrow> reach (exec_initial ns) (exec_step canon) v"
proof (induction ls arbitrary: w)
  case (Cons l ls)
  then obtain u where "exec_step canon w l u" "executing.steps canon u ls v" by auto
  with Cons reach_step show ?case by metis
qed simp

text \<open>One block is applied and cleaned up; another is refused by its factory.\<close>

definition good_run :: "exec_label list" where
  "good_run = [Execute ''module.m'', Block_Step 0 Check_Context, Block_Step 0 (Create None None (Some True) None),
     Block_Step 0 (Apply_Block None None None), Block_Step 0 (Clean_Up None None None), Block_Step 0 Finish_Call]"

definition bad_run :: "exec_label list" where
  "bad_run = [Execute ''module.m'', Block_Step 0 Check_Context, Block_Step 0 (Create None (Some (Text ''no'')) None None),
     Block_Step 0 Record_Failure]"

definition good_world :: exec_world where
  "good_world = the (exec_run good_run sample_start)"

definition bad_world :: exec_world where
  "bad_world = the (exec_run bad_run sample_start)"

lemmas exec_sample = sample_start_def new_execution_def execute_address_def new_call_def context_err_def needs_slot_def
  create_error_def apply_error_def join_errors_def after_error_def fail_execution_def wrap_at_def ended_with_def

lemma good_world_values:
  "exec_run good_run sample_start = Some good_world"
  "xw_calls good_world = [\<lparr>bc_address = ''module.m'', bc_kind = ''module'', bc_phase = Ended None, bc_block = Some True,
     bc_applied = True, bc_cleanups = 1\<rparr>]"
  "xw_state good_world = \<lparr>px_failure = None, px_cancelled = False, px_warnings = []\<rparr>"
  by (simp_all add: good_world_def good_run_def exec_sample Let_def)

lemma bad_world_values:
  "exec_run bad_run sample_start = Some bad_world"
  "px_failure (xw_state bad_world) = Some (Format ''%w'' [TextArg (Format ''create apply block %s: %w'' [StrArg ''module.m'', TextArg (Text ''no'')])])"
  by (simp_all add: bad_world_def bad_run_def exec_sample Let_def)

lemma sample_start_reached: "reach (exec_initial (xw_nodes sample_start)) (exec_step id) sample_start"
  by (rule reach_init) (auto simp: exec_initial_def sample_start_def)

definition quiet_answers :: "int apply_answers" where
  "quiet_answers = \<lparr>ae_resolve_log = None, ae_skip_log = None, ae_resolver = None, ae_complete_log = None, ae_close = None\<rparr>"


theorem first_failure_is_reported_witness:
  "\<exists>v. exec_run [Execute ''module.n''] bad_world = Some v \<and>
     fst (finish_apply (xw_state v) (run_saved_plan (xw_state v) (None, None, None) (None, None, None) (None, None, None)) 7 quiet_answers)
       = Inl (the (px_failure (xw_state bad_world)))"
proof -
  obtain v where v: "exec_run [Execute ''module.n''] bad_world = Some v"
    by (simp add: bad_world_def bad_run_def exec_sample Let_def)
  have "reach (exec_initial (xw_nodes sample_start)) (exec_step id) bad_world"
    by (rule exec_steps_reach [OF exec_run_steps [OF bad_world_values(1)] sample_start_reached])
  note reported = first_failure_is_reported [OF this bad_world_values(2) exec_run_steps [OF v]]
  have "fst (finish_apply (xw_state v) (run_saved_plan (xw_state v) (None, None, None) (None, None, None) (None, None, None)) 7 quiet_answers)
       = Inl (the (px_failure (xw_state bad_world)))"
    unfolding bad_world_values(2) option.sel by (rule conjunct1 [OF conjunct2 [OF reported]])
  with v show ?thesis by blast
qed

end
